(* ===== verification/AevPrelude.thy ===== *)
theory AevPrelude
  imports Main "HOL-Library.Word"
begin

text \<open>
  What the components of the AevOS verification share: the fixed-width integer types of
  \<open>include/aevos/types.h\<close>, its error numbers, the search loop \<open>scan\<close> that most tables of the
  kernel use, the bit operations of the kernel's bitmaps, and circular buffers.

  C arrays are total functions from indexes to elements; the theories that use them prove that
  every index the code forms lies inside the array. The two interfaces stated here as locales,
  \<open>bitmap_ops\<close> and \<open>bounded_ring\<close>, are implemented by several components each.
\<close>

unbundle bit_operations_syntax

section \<open>Integers, bytes and error numbers\<close>

type_synonym u8 = "8 word"
type_synonym u16 = "16 word"
type_synonym u32 = "32 word"
type_synonym u64 = "64 word"

type_synonym bytes = "u8 list"

abbreviation UINT64_MAX :: u64 where "UINT64_MAX \<equiv> - 1"
abbreviation UINT32_MAX :: u32 where "UINT32_MAX \<equiv> - 1"

lemma unat64_less: "unat (x::u64) < 2 ^ 64"
  by (rule less_le_trans [OF unsigned_less]) simp

lemma unat32_less: "unat (x::u32) < 2 ^ 32"
  by (rule less_le_trans [OF unsigned_less]) simp

definition PAGE_SIZE :: u64 where "PAGE_SIZE = 4096"

definition align_up :: "u64 \<Rightarrow> u64 \<Rightarrow> u64" where
  "align_up x a = (x + a - 1) AND NOT (a - 1)"

definition align_down :: "u64 \<Rightarrow> u64 \<Rightarrow> u64" where
  "align_down x a = x AND NOT (a - 1)"

text \<open>The kernel's own error numbers; functions return them negated.\<close>

datatype errno = ESKILL_FAIL | ENOMEM | EINVAL | EIO | ENOENT | EBUSY | ENOSPC | EPERM
  | EEXIST | ENOTSUP | EBADF | EISDIR | ENOTDIR | EROFS | ETIMEDOUT | ENOTFOUND | EAGAIN

fun errno_code :: "errno \<Rightarrow> int" where
  "errno_code ESKILL_FAIL = 1"
| "errno_code ENOMEM = 2"
| "errno_code EINVAL = 3"
| "errno_code EIO = 4"
| "errno_code ENOENT = 5"
| "errno_code EBUSY = 6"
| "errno_code ENOSPC = 7"
| "errno_code EPERM = 8"
| "errno_code EEXIST = 9"
| "errno_code ENOTSUP = 10"
| "errno_code EBADF = 11"
| "errno_code EISDIR = 12"
| "errno_code ENOTDIR = 13"
| "errno_code EROFS = 14"
| "errno_code ETIMEDOUT = 15"
| "errno_code ENOTFOUND = 16"
| "errno_code EAGAIN = 17"

lemma errno_code_inj: "errno_code a = errno_code b \<longleftrightarrow> a = b"
  by (cases a; cases b; simp)

lemma errno_code_pos: "0 < errno_code e"
  by (cases e) simp_all

text \<open>A character literal of the source as the byte it denotes.\<close>

definition str :: "string \<Rightarrow> bytes" where
  "str s = map of_char s"

section \<open>The search loop over a table\<close>

text \<open>
  \<open>scan P a n\<close> is the loop \<open>for (i = a; i < n; i++) if (P(i)) return i;\<close> followed by a
  failure return.
\<close>

function scan :: "(nat \<Rightarrow> bool) \<Rightarrow> nat \<Rightarrow> nat \<Rightarrow> nat option" where
  "scan P a n = (if a < n then (if P a then Some a else scan P (Suc a) n) else None)"
  by pat_completeness auto
termination
  by (relation "measure (\<lambda>(P, a, n). n - a)") auto

declare scan.simps [simp del]

lemma scan_None_iff: "scan P a n = None \<longleftrightarrow> (\<forall>i. a \<le> i \<longrightarrow> i < n \<longrightarrow> \<not> P i)"
proof (induction P a n rule: scan.induct)
  case (1 P a n)
  show ?case
  proof (cases "a < n \<and> \<not> P a")
    case True
    then have "scan P a n = scan P (Suc a) n" by (simp add: scan.simps [of P a n])
    with 1 True show ?thesis by (metis Suc_leD le_antisym not_less_eq_eq)
  next
    case False
    then show ?thesis by (auto simp: scan.simps [of P a n])
  qed
qed

lemma scan_Some_iff:
  "scan P a n = Some i \<longleftrightarrow> a \<le> i \<and> i < n \<and> P i \<and> (\<forall>j. a \<le> j \<longrightarrow> j < i \<longrightarrow> \<not> P j)"
proof (induction P a n rule: scan.induct)
  case (1 P a n)
  show ?case
  proof (cases "a < n \<and> \<not> P a")
    case True
    then have "scan P a n = scan P (Suc a) n" by (simp add: scan.simps [of P a n])
    with 1 True show ?thesis
      by (metis Suc_leD Suc_leI le_neq_implies_less less_or_eq_imp_le)
  next
    case False
    then show ?thesis by (auto simp: scan.simps [of P a n])
  qed
qed

lemma scan_SomeD:
  assumes "scan P a n = Some i"
  shows "a \<le> i" and "i < n" and "P i" and "\<And>j. a \<le> j \<Longrightarrow> j < i \<Longrightarrow> \<not> P j"
  using assms by (auto simp: scan_Some_iff)

lemma scan_exists:
  assumes "a \<le> k" and "k < n" and "P k"
  shows "\<exists>i \<le> k. scan P a n = Some i"
proof (cases "scan P a n")
  case None
  with assms show ?thesis by (auto simp: scan_None_iff)
next
  case (Some i)
  then have "i \<le> k" using assms by (meson linorder_not_less scan_Some_iff)
  with Some show ?thesis by blast
qed

lemma scan_cong [fundef_cong]:
  assumes "a = a'" and "n = n'" and "\<And>i. a' \<le> i \<Longrightarrow> i < n' \<Longrightarrow> P i = Q i"
  shows "scan P a n = scan Q a' n'"
proof (cases "scan Q a' n'")
  case None
  with assms have "scan P a n = None" by (auto simp: scan_None_iff)
  with None show ?thesis by simp
next
  case (Some i)
  with assms have "scan P a n = Some i" by (auto simp: scan_Some_iff)
  with Some show ?thesis by simp
qed

lemma scan_skip:
  assumes "a \<le> b" and "\<And>i. a \<le> i \<Longrightarrow> i < b \<Longrightarrow> \<not> P i"
  shows "scan P a n = scan P b n"
proof (cases "scan P b n")
  case None
  then have "\<not> P i" if "a \<le> i" "i < n" for i
    using assms that by (cases "i < b") (auto simp: scan_None_iff)
  then have "scan P a n = None" by (simp add: scan_None_iff)
  with None show ?thesis by simp
next
  case (Some i)
  note s = scan_SomeD [OF Some]
  have "\<not> P j" if "a \<le> j" "j < i" for j
    using assms s(4) that by (cases "j < b") auto
  with s assms have "scan P a n = Some i" by (simp add: scan_Some_iff)
  with Some show ?thesis by simp
qed

section \<open>Bits of a word\<close>

text \<open>\<open>1ULL << n\<close>, and the set, clear and test idioms built from it.\<close>

definition bit_mask :: "nat \<Rightarrow> u64" where
  "bit_mask n = push_bit n 1"

lemma bit_or_mask: "n < 64 \<Longrightarrow> bit (w OR bit_mask n) i \<longleftrightarrow> i = n \<or> bit w i"
  by (auto simp: bit_mask_def bit_simps)

lemma bit_andnot_mask: "bit (w AND NOT (bit_mask n)) i \<longleftrightarrow> i \<noteq> n \<and> bit w i"
  by (auto simp: bit_mask_def bit_simps dest: bit_imp_le_length)

lemma shift_and_one: "(drop_bit n w AND 1 \<noteq> (0::u64)) \<longleftrightarrow> bit w n"
  by (simp add: and_one_eq even_drop_bit_iff_not_bit flip: odd_iff_mod_2_eq_one)

lemma u64_max_all_bits: "w = UINT64_MAX \<longleftrightarrow> (\<forall>i<64. bit w i)"
  by (auto intro!: bit_word_eqI simp: bit_simps)

text \<open>\<open>__builtin_ctzll\<close>: the number of trailing zero bits, for a non-zero argument.\<close>

definition ctz64 :: "u64 \<Rightarrow> nat" where
  "ctz64 w = (case scan (bit w) 0 64 of Some i \<Rightarrow> i | None \<Rightarrow> 64)"

lemma ctz64_not:
  assumes "w \<noteq> UINT64_MAX"
  shows "ctz64 (NOT w) < 64" and "\<not> bit w (ctz64 (NOT w))"
    and "\<And>j. j < ctz64 (NOT w) \<Longrightarrow> bit w j"
proof -
  from assms obtain k where "k < 64" "\<not> bit w k" by (auto simp: u64_max_all_bits)
  then have "bit (NOT w) k" by (simp add: bit_simps)
  with \<open>k < 64\<close> obtain i where i: "scan (bit (NOT w)) 0 64 = Some i"
    using scan_exists [of 0 k 64 "bit (NOT w)"] by auto
  note facts = scan_SomeD [OF i]
  have eq: "ctz64 (NOT w) = i" by (simp add: ctz64_def i)
  show "ctz64 (NOT w) < 64" using facts by (simp add: eq)
  show "\<not> bit w (ctz64 (NOT w))" using facts by (simp add: eq bit_simps)
  show "\<And>j. j < ctz64 (NOT w) \<Longrightarrow> bit w j" using facts by (auto simp: eq bit_simps)
qed

section \<open>Bitmaps\<close>

text \<open>
  What the code relies on of a bitmap: setting and clearing a bit changes that bit and no
  other. \<open>frees m n\<close> is the set of clear bits below \<open>n\<close>; the counters the allocators keep
  beside their bitmaps count it.
\<close>

locale bitmap_ops =
  fixes bset :: "'m \<Rightarrow> nat \<Rightarrow> 'm"
    and bclear :: "'m \<Rightarrow> nat \<Rightarrow> 'm"
    and btest :: "'m \<Rightarrow> nat \<Rightarrow> bool"
  assumes btest_bset: "btest (bset m i) j \<longleftrightarrow> j = i \<or> btest m j"
    and btest_bclear: "btest (bclear m i) j \<longleftrightarrow> j \<noteq> i \<and> btest m j"
begin

lemma btest_set_range:
  "btest (fold (\<lambda>i m. bset m i) [a..<b] m) j \<longleftrightarrow> (a \<le> j \<and> j < b) \<or> btest m j"
proof (induction b)
  case 0
  then show ?case by simp
next
  case (Suc b)
  then show ?case by (cases "a \<le> b") (auto simp: btest_bset less_Suc_eq)
qed

lemma btest_clear_range:
  "btest (fold (\<lambda>i m. bclear m i) [a..<b] m) j \<longleftrightarrow> \<not> (a \<le> j \<and> j < b) \<and> btest m j"
proof (induction b)
  case 0
  then show ?case by simp
next
  case (Suc b)
  then show ?case by (cases "a \<le> b") (auto simp: btest_bclear less_Suc_eq)
qed

lemma frees_bset:
  "{k. k < n \<and> \<not> btest (bset m i) k} = {k. k < n \<and> \<not> btest m k} - {i}"
  by (auto simp: btest_bset)

lemma frees_bclear:
  "i < n \<Longrightarrow> {k. k < n \<and> \<not> btest (bclear m i) k} = insert i {k. k < n \<and> \<not> btest m k}"
  by (auto simp: btest_bclear)

lemma frees_set_range:
  "{k. k < n \<and> \<not> btest (fold (\<lambda>i m. bset m i) [a..<b] m) k}
     = {k. k < n \<and> \<not> btest m k} - {a..<b}"
  by (auto simp: btest_set_range)

lemma frees_clear_range:
  "b \<le> n \<Longrightarrow> {k. k < n \<and> \<not> btest (fold (\<lambda>i m. bclear m i) [a..<b] m) k}
     = {k. k < n \<and> \<not> btest m k} \<union> {a..<b}"
  by (auto simp: btest_clear_range)

lemma card_frees_bset:
  assumes "i < n" and "\<not> btest m i"
  shows "card {k. k < n \<and> \<not> btest m k} = Suc (card {k. k < n \<and> \<not> btest (bset m i) k})"
  unfolding frees_bset using assms by (subst card.remove [of _ i]) auto

lemma card_frees_bclear:
  assumes "i < n" and "btest m i"
  shows "card {k. k < n \<and> \<not> btest (bclear m i) k} = Suc (card {k. k < n \<and> \<not> btest m k})"
  unfolding frees_bclear [OF assms(1)] using assms by (subst card_insert_disjoint) auto

lemma card_frees_set_range:
  assumes "a \<le> b" and "b \<le> n" and "\<And>k. a \<le> k \<Longrightarrow> k < b \<Longrightarrow> \<not> btest m k"
  shows "card {k. k < n \<and> \<not> btest m k}
    = (b - a) + card {k. k < n \<and> \<not> btest (fold (\<lambda>i m. bset m i) [a..<b] m) k}"
proof -
  let ?F = "{k. k < n \<and> \<not> btest m k}"
  have sub: "{a..<b} \<subseteq> ?F" using assms by auto
  then have "card (?F - {a..<b}) = card ?F - (b - a)" by (simp add: card_Diff_subset)
  moreover have "b - a \<le> card ?F" using card_mono [OF _ sub] by simp
  ultimately show ?thesis unfolding frees_set_range by simp
qed

end

section \<open>Circular buffers\<close>

text \<open>The last \<open>n\<close> elements of a list, in order.\<close>

definition lastn :: "nat \<Rightarrow> 'a list \<Rightarrow> 'a list" where
  "lastn n xs = drop (length xs - n) xs"

lemma length_lastn [simp]: "length (lastn n xs) = min n (length xs)"
  by (simp add: lastn_def)

lemma lastn_all: "length xs \<le> n \<Longrightarrow> lastn n xs = xs"
  by (simp add: lastn_def)

lemma lastn_append_lastn: "lastn n (lastn n xs @ ys) = lastn n (xs @ ys)"
  by (cases "length xs \<le> n") (simp_all add: lastn_def add.commute)

lemma lastn_lastn: "lastn m (lastn n xs) = lastn (min m n) xs"
  by (auto simp: lastn_def min_def intro!: arg_cong [where f = "\<lambda>k. drop k xs"])

lemma map_lastn: "map f (lastn n xs) = lastn n (map f xs)"
  by (simp add: lastn_def drop_map)

lemma lastn_snoc:
  assumes "0 < n"
  shows "lastn n (xs @ [x]) = (if length (lastn n xs) < n then lastn n xs @ [x] else tl (lastn n xs) @ [x])"
proof (cases "length xs < n")
  case True
  then show ?thesis by (simp add: lastn_def)
next
  case False
  then have "length xs + 1 - n = Suc (length xs - n)" "length xs - n < length xs" using assms by auto
  then show ?thesis using False by (simp add: lastn_def drop_Suc tl_drop)
qed

text \<open>
  The contents of an array of \<open>cap\<close> slots holding \<open>c\<close> elements from slot \<open>h\<close> on, oldest first.
\<close>

definition ring_view :: "nat \<Rightarrow> (nat \<Rightarrow> 'a) \<Rightarrow> nat \<Rightarrow> nat \<Rightarrow> 'a list" where
  "ring_view cap r h c = map (\<lambda>i. r ((h + i) mod cap)) [0..<c]"

lemma length_ring_view [simp]: "length (ring_view cap r h c) = c"
  by (simp add: ring_view_def)

lemma nth_ring_view: "i < c \<Longrightarrow> ring_view cap r h c ! i = r ((h + i) mod cap)"
  by (simp add: ring_view_def)

lemma ring_slot_le:
  assumes "i \<le> j" and "j < cap" and "(h + i) mod cap = (h + j) mod cap"
  shows "i = (j::nat)"
proof -
  have "cap dvd j - i" using assms mod_eq_dvd_iff_nat [of "h + i" "h + j" cap] by simp
  then show ?thesis using assms by (auto dest: dvd_imp_le)
qed

lemma ring_slot_inj:
  assumes "i < cap" and "j < cap" and "(h + i) mod cap = (h + j) mod cap"
  shows "i = (j::nat)"
  using assms ring_slot_le [of i j cap h] ring_slot_le [of j i cap h] by (cases "i \<le> j") auto

lemma ring_view_append:
  assumes "c < cap"
  shows "ring_view cap (r((h + c) mod cap := x)) h (Suc c) = ring_view cap r h c @ [x]"
proof -
  have "(h + i) mod cap \<noteq> (h + c) mod cap" if "i < c" for i
    using ring_slot_inj [of i cap c h] that assms by auto
  then show ?thesis by (simp add: ring_view_def)
qed

lemma ring_view_tl:
  "ring_view cap r ((h + 1) mod cap) c = tl (ring_view cap r h (Suc c))"
  by (simp add: ring_view_def upt_conv_Cons mod_add_left_eq comp_def
        flip: map_Suc_upt del: upt_Suc)

lemma ring_view_overwrite:
  assumes "0 < cap"
  shows "ring_view cap (r((h + cap) mod cap := x)) ((h + 1) mod cap) cap
    = tl (ring_view cap r h cap) @ [x]"
proof -
  obtain d where d: "cap = Suc d" using assms by (cases cap) auto
  let ?r = "r((h + cap) mod cap := x)"
  have slot: "(h + cap) mod cap = ((h + 1) mod cap + d) mod cap"
    by (simp add: d mod_add_left_eq)
  have "ring_view cap ?r ((h + 1) mod cap) (Suc d) = ring_view cap r ((h + 1) mod cap) d @ [x]"
    unfolding slot by (rule ring_view_append) (simp add: d)
  moreover have "ring_view cap r ((h + 1) mod cap) d = tl (ring_view cap r h (Suc d))"
    by (rule ring_view_tl)
  ultimately show ?thesis by (simp add: d)
qed

lemma ring_view_mod: "ring_view cap r (h mod cap) c = ring_view cap r h c"
  by (simp add: ring_view_def mod_simps)

text \<open>Removing the oldest element, whose slot may be overwritten, and appending one.\<close>

lemma ring_view_pop:
  assumes "Suc c \<le> cap"
  shows "ring_view cap (r(h mod cap := x)) (h + 1) c = tl (ring_view cap r h (Suc c))"
proof -
  have "(h + 1 + i) mod cap \<noteq> h mod cap" if "i < c" for i
    using ring_slot_inj [of "i + 1" cap 0 h] that assms by auto
  then have "ring_view cap (r(h mod cap := x)) (h + 1) c = ring_view cap r (h + 1) c" by (simp add: ring_view_def)
  then show ?thesis using ring_view_tl [of cap r h c] by (simp add: ring_view_mod)
qed

lemma ring_view_unpush:
  assumes "c < cap"
  shows "ring_view cap (r((h + c) mod cap := x)) h c = butlast (ring_view cap r h (Suc c))"
proof -
  have "(h + i) mod cap \<noteq> (h + c) mod cap" if "i < c" for i
    using ring_slot_inj [of i cap c h] that assms by auto
  then show ?thesis by (simp add: ring_view_def)
qed

lemma unat_ring_slot:
  fixes h c k :: u32
  assumes "unat h + unat c < 2 ^ 32"
  shows "unat ((h + c) mod k) = (unat h + unat c) mod unat k"
proof -
  have "unat (h + c) = unat h + unat c"
    by (rule unat_add_lem [THEN iffD1]) (use assms in simp)
  then show ?thesis by (simp add: unat_mod)
qed

text \<open>Closing the gap at offset \<open>a\<close> of \<open>n\<close> elements stored at the slots \<open>sl 0, sl 1, \<dots>\<close>\<close>

lemma shift_down:
  assumes "inj_on sl {..<n}" "i < n"
  shows "fold (\<lambda>k r. r(sl k := r (sl (k + 1)))) [a..<n - 1] f (sl i) = (if a \<le> i \<and> i < n - 1 then f (sl (i + 1)) else f (sl i))"
proof -
  have "j \<le> n - 1 \<Longrightarrow> fold (\<lambda>k r. r(sl k := r (sl (k + 1)))) [a..<j] f (sl i) =
      (if a \<le> i \<and> i < j then f (sl (i + 1)) else f (sl i))" if "i < n" for i j
    using that
  proof (induction j arbitrary: i)
    case (Suc j)
    show ?case
    proof (cases "a \<le> j")
      case True
      have "sl i = sl j \<longleftrightarrow> i = j" using assms(1) Suc.prems by (auto simp: inj_on_def)
      then show ?thesis using True Suc by auto
    next
      case False
      then show ?thesis using Suc by auto
    qed
  qed simp
  from this [OF assms(2) order_refl] show ?thesis .
qed

text \<open>
  What the clients of a circular buffer rely on: pushing appends, and drops the oldest element
  when the buffer is full.
\<close>

locale bounded_ring =
  fixes cap :: nat
    and ring_inv :: "'s \<Rightarrow> bool"
    and view :: "'s \<Rightarrow> 'a list"
    and push :: "'o \<Rightarrow> 's \<Rightarrow> 's"
    and elem :: "'o \<Rightarrow> 'a"
  assumes inv_push: "ring_inv s \<Longrightarrow> ring_inv (push x s)"
    and view_bound: "ring_inv s \<Longrightarrow> length (view s) \<le> cap"
    and view_push: "ring_inv s \<Longrightarrow>
      view (push x s) = (if length (view s) < cap then view s @ [elem x] else tl (view s) @ [elem x])"
    and cap_pos: "0 < cap"
begin

lemma view_push_lastn:
  assumes "ring_inv s"
  shows "view (push x s) = lastn cap (view s @ [elem x])"
  using view_push [OF assms] view_bound [OF assms] lastn_snoc [OF cap_pos, of "view s" "elem x"]
  by (simp add: lastn_all)

lemma inv_pushes: "ring_inv s \<Longrightarrow> ring_inv (fold push xs s)"
  by (induction xs arbitrary: s) (auto intro: inv_push)

lemma view_pushes: "ring_inv s \<Longrightarrow> view (fold push xs s) = lastn cap (view s @ map elem xs)"
proof (induction xs arbitrary: s)
  case Nil
  then show ?case using view_bound [OF Nil] by (simp add: lastn_all)
next
  case (Cons x xs)
  have "view (fold push xs (push x s)) = lastn cap (lastn cap (view s @ [elem x]) @ map elem xs)"
    using Cons by (simp add: view_push_lastn inv_push)
  then show ?case by (simp add: lastn_append_lastn)
qed

end

section \<open>Identifiers issued from a counter\<close>

text \<open>
  Capability tokens and container identifiers are taken from a 64-bit counter and never handed
  out twice before it wraps. \<open>room\<close> is the number of identifiers left. The contract: a step
  spends at most one identifier, an issued identifier stays issued, and one that is not live
  any more does not come back.
\<close>

locale id_issuer =
  fixes iss_inv :: "'s \<Rightarrow> bool"
    and room :: "'s \<Rightarrow> nat"
    and issued :: "'s \<Rightarrow> 'k \<Rightarrow> bool"
    and live :: "'s \<Rightarrow> 'k \<Rightarrow> bool"
    and step :: "'o \<Rightarrow> 's \<Rightarrow> 's"
  assumes step_inv: "iss_inv s \<Longrightarrow> 0 < room s \<Longrightarrow> iss_inv (step x s)"
    and step_room: "iss_inv s \<Longrightarrow> 0 < room s \<Longrightarrow> room s \<le> Suc (room (step x s))"
    and step_issued: "iss_inv s \<Longrightarrow> 0 < room s \<Longrightarrow> issued s k \<Longrightarrow> issued (step x s) k"
    and step_live: "iss_inv s \<Longrightarrow> 0 < room s \<Longrightarrow> issued s k \<Longrightarrow> live (step x s) k \<Longrightarrow> live s k"
begin

lemma steps_inv: "iss_inv s \<Longrightarrow> length xs \<le> room s \<Longrightarrow> iss_inv (fold step xs s)"
proof (induction xs arbitrary: s)
  case Nil
  then show ?case by simp
next
  case (Cons x xs)
  then have room: "0 < room s" by simp
  then have "length xs \<le> room (step x s)" using Cons.prems step_room [of s x] by simp
  then show ?case using Cons.IH step_inv room Cons.prems by simp
qed

lemma never_revived:
  "iss_inv s \<Longrightarrow> length xs \<le> room s \<Longrightarrow> issued s k \<Longrightarrow> \<not> live s k \<Longrightarrow> \<not> live (fold step xs s) k"
proof (induction xs arbitrary: s)
  case Nil
  then show ?case by simp
next
  case (Cons x xs)
  then have room: "0 < room s" by simp
  then have "length xs \<le> room (step x s)" using Cons.prems step_room [of s x] by simp
  moreover have "issued (step x s) k" and "\<not> live (step x s) k"
    using Cons.prems room step_issued step_live by blast+
  ultimately show ?case using Cons.IH step_inv room Cons.prems by simp
qed

end

end
