(* ===== verification/CapIpc.thy ===== *)
theory CapIpc
  imports AevPrelude
begin

text \<open>
  Capability-routed IPC, \<open>kernel/ipc/cap_ipc.c\<close>: a table of 32 endpoint slots, each holding a
  64-bit token taken from a global counter. A slot is free while its magic number is zero; a
  revoked slot keeps its magic number, so it is never reused before the next \<open>cap_ipc_init\<close>.

  The abstraction \<open>caps\<close> maps each live token to the endpoint class and the owner domain it
  was granted for; every operation is shown to act on that map as its name says.
\<close>

section \<open>State\<close>

datatype cap_ipc_endpoint_class =
    CAP_IPC_EP_VFS | CAP_IPC_EP_NET | CAP_IPC_EP_SCHED | CAP_IPC_EP_GPU | CAP_IPC_EP_LLM
  | CAP_IPC_EP_LINUX_SHIM

text \<open>The class of a slot cleared by \<open>memset\<close> is no value of the enumeration: \<open>None\<close>.\<close>

record cap_ipc_endpoint =
  ep_magic :: u64
  ep_token :: u64
  ep_cls :: "cap_ipc_endpoint_class option"
  ep_owner :: u32
  ep_revoked :: bool

record cap_ipc_message =
  msg_type :: u32
  msg_payload_len :: u32
  msg_payload :: bytes

record cap_ipc_state =
  g_eps :: "nat \<Rightarrow> cap_ipc_endpoint"
  g_next_tok :: u64

definition CAP_IPC_MAX_ENDPOINTS :: nat where "CAP_IPC_MAX_ENDPOINTS = 32"
abbreviation CAP_IPC_MAGIC :: u64 where "CAP_IPC_MAGIC \<equiv> 0xCA704970"

definition zero_endpoint :: cap_ipc_endpoint where
  "zero_endpoint = \<lparr>ep_magic = 0, ep_token = 0, ep_cls = None, ep_owner = 0, ep_revoked = False\<rparr>"

text \<open>The static initialisers: all slots zero, the counter at one.\<close>

definition cap_ipc_boot :: cap_ipc_state where
  "cap_ipc_boot = \<lparr>g_eps = (\<lambda>_. zero_endpoint), g_next_tok = 1\<rparr>"

section \<open>Operations\<close>

definition cap_ipc_init :: "cap_ipc_state \<Rightarrow> cap_ipc_state" where
  "cap_ipc_init s = s\<lparr>g_eps := (\<lambda>_. zero_endpoint)\<rparr>"

definition cap_ipc_grant ::
  "cap_ipc_endpoint_class \<Rightarrow> u32 \<Rightarrow> cap_ipc_state \<Rightarrow> u64 \<times> cap_ipc_state" where
  "cap_ipc_grant ep owner s =
     (case scan (\<lambda>i. ep_magic (g_eps s i) = 0) 0 CAP_IPC_MAX_ENDPOINTS of
        Some i \<Rightarrow>
          (g_next_tok s,
           s\<lparr>g_eps := (g_eps s)(i := \<lparr>ep_magic = CAP_IPC_MAGIC, ep_token = g_next_tok s,
               ep_cls = Some ep, ep_owner = owner, ep_revoked = False\<rparr>),
             g_next_tok := g_next_tok s + 1\<rparr>)
      | None \<Rightarrow> (0, s))"

definition cap_ipc_validate ::
  "u64 \<Rightarrow> cap_ipc_endpoint_class \<Rightarrow> cap_ipc_state \<Rightarrow> bool" where
  "cap_ipc_validate tok expected s =
     (if tok = 0 then False
      else scan (\<lambda>i. ep_magic (g_eps s i) = CAP_IPC_MAGIC \<and> ep_token (g_eps s i) = tok
             \<and> \<not> ep_revoked (g_eps s i) \<and> ep_cls (g_eps s i) = Some expected)
           0 CAP_IPC_MAX_ENDPOINTS \<noteq> None)"

definition cap_ipc_revoke :: "u64 \<Rightarrow> cap_ipc_state \<Rightarrow> cap_ipc_state" where
  "cap_ipc_revoke tok s =
     (case scan (\<lambda>i. ep_token (g_eps s i) = tok) 0 CAP_IPC_MAX_ENDPOINTS of
        Some i \<Rightarrow> s\<lparr>g_eps := (g_eps s)(i := (g_eps s i)\<lparr>ep_revoked := True\<rparr>)\<rparr>
      | None \<Rightarrow> s)"

definition cap_ipc_deliver ::
  "u64 \<Rightarrow> cap_ipc_message option \<Rightarrow> cap_ipc_state \<Rightarrow> errno + unit" where
  "cap_ipc_deliver tok msg s =
     (if msg = None then Inl EINVAL
      else case scan (\<lambda>i. \<not> (ep_magic (g_eps s i) \<noteq> CAP_IPC_MAGIC \<or> ep_revoked (g_eps s i)
                             \<or> ep_token (g_eps s i) \<noteq> tok)) 0 CAP_IPC_MAX_ENDPOINTS of
             Some i \<Rightarrow> Inr ()
           | None \<Rightarrow> Inl EPERM)"

text \<open>The calls other subsystems make, as one step function.\<close>

datatype cap_op = OpInit | OpGrant cap_ipc_endpoint_class u32 | OpRevoke u64

fun cap_step :: "cap_op \<Rightarrow> cap_ipc_state \<Rightarrow> cap_ipc_state" where
  "cap_step OpInit s = cap_ipc_init s"
| "cap_step (OpGrant ep owner) s = snd (cap_ipc_grant ep owner s)"
| "cap_step (OpRevoke tok) s = cap_ipc_revoke tok s"

section \<open>Invariant and abstraction\<close>

text \<open>
  Free slots hold token zero, used ones a token already issued, and no token is held twice.
\<close>

definition cap_inv :: "cap_ipc_state \<Rightarrow> bool" where
  "cap_inv s \<longleftrightarrow>
     0 < g_next_tok s \<and>
     (\<forall>i < CAP_IPC_MAX_ENDPOINTS.
        (ep_magic (g_eps s i) = 0 \<and> ep_token (g_eps s i) = 0) \<or>
        (ep_magic (g_eps s i) = CAP_IPC_MAGIC \<and> 0 < ep_token (g_eps s i)
          \<and> ep_token (g_eps s i) < g_next_tok s \<and> ep_cls (g_eps s i) \<noteq> None)) \<and>
     (\<forall>i < CAP_IPC_MAX_ENDPOINTS. \<forall>j < CAP_IPC_MAX_ENDPOINTS.
        ep_magic (g_eps s i) \<noteq> 0 \<longrightarrow> ep_token (g_eps s i) = ep_token (g_eps s j) \<longrightarrow> i = j)"

definition live_slot :: "cap_ipc_state \<Rightarrow> u64 \<Rightarrow> nat \<Rightarrow> bool" where
  "live_slot s tok i \<longleftrightarrow> ep_magic (g_eps s i) = CAP_IPC_MAGIC \<and> ep_token (g_eps s i) = tok
     \<and> \<not> ep_revoked (g_eps s i)"

definition caps :: "cap_ipc_state \<Rightarrow> u64 \<Rightarrow> (cap_ipc_endpoint_class \<times> u32) option" where
  "caps s tok =
     (case scan (live_slot s tok) 0 CAP_IPC_MAX_ENDPOINTS of
        Some i \<Rightarrow> map_option (\<lambda>c. (c, ep_owner (g_eps s i))) (ep_cls (g_eps s i))
      | None \<Rightarrow> None)"

lemma magic_nonzero [simp]: "CAP_IPC_MAGIC \<noteq> 0"
  by simp

lemma cap_inv_unique:
  assumes "cap_inv s" and "live_slot s tok i" and "i < CAP_IPC_MAX_ENDPOINTS"
    and "j < CAP_IPC_MAX_ENDPOINTS" and "ep_token (g_eps s j) = tok"
  shows "j = i"
  using assms unfolding cap_inv_def live_slot_def by (metis magic_nonzero)

lemma caps_eq:
  assumes "cap_inv s" and "live_slot s tok i" and "i < CAP_IPC_MAX_ENDPOINTS"
  shows "caps s tok = map_option (\<lambda>c. (c, ep_owner (g_eps s i))) (ep_cls (g_eps s i))"
proof -
  obtain j where j: "scan (live_slot s tok) 0 CAP_IPC_MAX_ENDPOINTS = Some j"
    using scan_exists [OF _ assms(3), of 0 "live_slot s tok"] assms(2) by blast
  then have "j = i"
    using cap_inv_unique [OF assms scan_SomeD(2) [OF j]] scan_SomeD(3) [OF j]
    by (simp add: live_slot_def)
  with j show ?thesis by (simp add: caps_def)
qed

lemma caps_None_iff:
  assumes "cap_inv s"
  shows "caps s tok = None \<longleftrightarrow> (\<forall>i < CAP_IPC_MAX_ENDPOINTS. \<not> live_slot s tok i)"
proof
  assume none: "caps s tok = None"
  show "\<forall>i < CAP_IPC_MAX_ENDPOINTS. \<not> live_slot s tok i"
  proof (intro allI impI notI)
    fix i assume i: "i < CAP_IPC_MAX_ENDPOINTS" "live_slot s tok i"
    then have "ep_cls (g_eps s i) \<noteq> None"
      using assms by (auto simp: cap_inv_def live_slot_def)
    with none caps_eq [OF assms i(2,1)] show False by simp
  qed
next
  assume "\<forall>i < CAP_IPC_MAX_ENDPOINTS. \<not> live_slot s tok i"
  then have "scan (live_slot s tok) 0 CAP_IPC_MAX_ENDPOINTS = None" by (simp add: scan_None_iff)
  then show "caps s tok = None" by (simp add: caps_def)
qed

lemma cap_inv_boot: "cap_inv cap_ipc_boot"
  by (simp add: cap_inv_def cap_ipc_boot_def zero_endpoint_def)

lemma caps_boot: "caps cap_ipc_boot = Map.empty"
  by (rule ext) (simp add: caps_def live_slot_def cap_ipc_boot_def zero_endpoint_def
      scan_None_iff [THEN iffD2])

lemma cap_inv_init: "cap_inv s \<Longrightarrow> cap_inv (cap_ipc_init s)"
  by (simp add: cap_inv_def cap_ipc_init_def zero_endpoint_def)

lemma caps_init: "caps (cap_ipc_init s) = Map.empty"
  by (rule ext) (simp add: caps_def live_slot_def cap_ipc_init_def zero_endpoint_def
      scan_None_iff [THEN iffD2])

lemma next_tok_Suc:
  assumes "g_next_tok s \<noteq> UINT64_MAX"
  shows "t < g_next_tok s + 1 \<longleftrightarrow> t < g_next_tok s \<or> t = g_next_tok s"
proof -
  have "unat (g_next_tok s + 1) = Suc (unat (g_next_tok s))"
    using assms by (metis add.commute unatSuc add_eq_0_iff2)
  then show ?thesis by (auto simp: word_less_nat_alt less_Suc_eq word_unat_eq_iff)
qed

lemma cap_inv_slotD:
  assumes "cap_inv s" and "i < CAP_IPC_MAX_ENDPOINTS"
  shows "(ep_magic (g_eps s i) = 0 \<and> ep_token (g_eps s i) = 0) \<or>
    (ep_magic (g_eps s i) = CAP_IPC_MAGIC \<and> 0 < ep_token (g_eps s i)
      \<and> ep_token (g_eps s i) < g_next_tok s \<and> ep_cls (g_eps s i) \<noteq> None)"
  using assms by (auto simp: cap_inv_def)

lemma cap_inv_distinctD:
  assumes "cap_inv s" and "i < CAP_IPC_MAX_ENDPOINTS" and "j < CAP_IPC_MAX_ENDPOINTS"
    and "ep_magic (g_eps s i) \<noteq> 0" and "ep_token (g_eps s i) = ep_token (g_eps s j)"
  shows "i = j"
  using assms by (auto simp: cap_inv_def)

lemma cap_inv_grant:
  assumes inv: "cap_inv s" and room: "g_next_tok s \<noteq> UINT64_MAX"
    and grant: "cap_ipc_grant ep d s = (t, s')"
  shows "cap_inv s'"
proof (cases "scan (\<lambda>i. ep_magic (g_eps s i) = 0) 0 CAP_IPC_MAX_ENDPOINTS")
  case None
  with grant inv show ?thesis by (simp add: cap_ipc_grant_def)
next
  case (Some i)
  let ?new = "\<lparr>ep_magic = CAP_IPC_MAGIC, ep_token = g_next_tok s, ep_cls = Some ep,
    ep_owner = d, ep_revoked = False\<rparr>"
  from grant Some have s': "s' = s\<lparr>g_eps := (g_eps s)(i := ?new), g_next_tok := g_next_tok s + 1\<rparr>"
    by (auto simp: cap_ipc_grant_def)
  have pos: "0 < g_next_tok s" using inv by (simp add: cap_inv_def)
  have fresh: "ep_token (g_eps s j) \<noteq> g_next_tok s" if "j < CAP_IPC_MAX_ENDPOINTS" for j
    using cap_inv_slotD [OF inv that] pos by auto
  show ?thesis
    unfolding cap_inv_def
  proof (intro conjI allI impI)
    show "0 < g_next_tok s'" using next_tok_Suc [OF room, of 0] pos by (simp add: s')
  next
    fix j assume j: "j < CAP_IPC_MAX_ENDPOINTS"
    show "(ep_magic (g_eps s' j) = 0 \<and> ep_token (g_eps s' j) = 0) \<or>
      (ep_magic (g_eps s' j) = CAP_IPC_MAGIC \<and> 0 < ep_token (g_eps s' j)
        \<and> ep_token (g_eps s' j) < g_next_tok s' \<and> ep_cls (g_eps s' j) \<noteq> None)"
      using cap_inv_slotD [OF inv j] pos by (auto simp: s' next_tok_Suc [OF room])
  next
    fix j k assume jk: "j < CAP_IPC_MAX_ENDPOINTS" "k < CAP_IPC_MAX_ENDPOINTS"
      and "ep_magic (g_eps s' j) \<noteq> 0" and "ep_token (g_eps s' j) = ep_token (g_eps s' k)"
    then show "j = k"
      using fresh [OF jk(1)] fresh [OF jk(2)] cap_inv_distinctD [OF inv jk]
      by (auto simp: s' split: if_splits)
  qed
qed

lemma revoke_frame [simp]:
  "ep_magic (g_eps (cap_ipc_revoke t s) i) = ep_magic (g_eps s i)"
  "ep_token (g_eps (cap_ipc_revoke t s) i) = ep_token (g_eps s i)"
  "ep_cls (g_eps (cap_ipc_revoke t s) i) = ep_cls (g_eps s i)"
  "ep_owner (g_eps (cap_ipc_revoke t s) i) = ep_owner (g_eps s i)"
  "g_next_tok (cap_ipc_revoke t s) = g_next_tok s"
  by (simp_all add: cap_ipc_revoke_def split: option.splits)

lemma cap_inv_revoke: "cap_inv s \<Longrightarrow> cap_inv (cap_ipc_revoke t s)"
  unfolding cap_inv_def by simp

section \<open>Functional behaviour\<close>

lemma caps_frame:
  assumes "\<And>i. i < CAP_IPC_MAX_ENDPOINTS \<Longrightarrow> live_slot s' t i = live_slot s t i"
    and "\<And>i. i < CAP_IPC_MAX_ENDPOINTS \<Longrightarrow> live_slot s t i \<Longrightarrow>
      ep_cls (g_eps s' i) = ep_cls (g_eps s i) \<and> ep_owner (g_eps s' i) = ep_owner (g_eps s i)"
  shows "caps s' t = caps s t"
proof -
  have "scan (live_slot s' t) 0 CAP_IPC_MAX_ENDPOINTS = scan (live_slot s t) 0 CAP_IPC_MAX_ENDPOINTS"
    using assms(1) by (auto intro: scan_cong)
  moreover have "ep_cls (g_eps s' i) = ep_cls (g_eps s i) \<and> ep_owner (g_eps s' i) = ep_owner (g_eps s i)"
    if "scan (live_slot s t) 0 CAP_IPC_MAX_ENDPOINTS = Some i" for i
    using assms(2) scan_SomeD(2,3) [OF that] by blast
  ultimately show ?thesis by (auto simp: caps_def split: option.splits)
qed

lemma caps_grant:
  assumes inv: "cap_inv s" and room: "g_next_tok s \<noteq> UINT64_MAX"
    and grant: "cap_ipc_grant ep d s = (t, s')" and "t \<noteq> 0"
  shows "caps s t = None" and "caps s' = (caps s)(t \<mapsto> (ep, d))"
proof -
  obtain i where i: "scan (\<lambda>i. ep_magic (g_eps s i) = 0) 0 CAP_IPC_MAX_ENDPOINTS = Some i"
    using grant \<open>t \<noteq> 0\<close> by (auto simp: cap_ipc_grant_def split: option.splits)
  note i = i scan_SomeD [OF i]
  have t: "t = g_next_tok s" and
    s': "s' = s\<lparr>g_eps := (g_eps s)(i := \<lparr>ep_magic = CAP_IPC_MAGIC, ep_token = t,
      ep_cls = Some ep, ep_owner = d, ep_revoked = False\<rparr>), g_next_tok := t + 1\<rparr>"
    using grant i(1) by (auto simp: cap_ipc_grant_def)
  show "caps s t = None"
    unfolding caps_None_iff [OF inv] live_slot_def
    using cap_inv_slotD [OF inv] t by fastforce
  have inv': "cap_inv s'" by (rule cap_inv_grant [OF inv room grant])
  have "live_slot s' t i" by (simp add: s' live_slot_def)
  then have hit: "caps s' t = Some (ep, d)" using caps_eq [OF inv' _ i(3)] by (simp add: s')
  have miss: "caps s' k = caps s k" if "k \<noteq> t" for k
    by (rule caps_frame) (use that i(4) in \<open>auto simp: s' live_slot_def\<close>)
  show "caps s' = (caps s)(t \<mapsto> (ep, d))"
    using hit miss by (auto intro!: ext)
qed

lemma caps_revoke_map:
  assumes inv: "cap_inv s"
  shows "caps (cap_ipc_revoke t s) = (caps s)(t := None)"
proof (cases "scan (\<lambda>i. ep_token (g_eps s i) = t) 0 CAP_IPC_MAX_ENDPOINTS")
  case None
  then have "caps s t = None" by (auto simp: scan_None_iff caps_None_iff [OF inv] live_slot_def)
  with None show ?thesis by (auto simp: cap_ipc_revoke_def)
next
  case (Some i)
  note i = scan_SomeD [OF Some]
  let ?s = "cap_ipc_revoke t s"
  have s': "?s = s\<lparr>g_eps := (g_eps s)(i := (g_eps s i)\<lparr>ep_revoked := True\<rparr>)\<rparr>"
    by (simp add: cap_ipc_revoke_def Some)
  have gone: "\<not> live_slot ?s t j" if "j < CAP_IPC_MAX_ENDPOINTS" for j
    using that i(2,3) cap_inv_distinctD [OF inv, of j i]
    by (cases "j = i") (auto simp: live_slot_def s')
  have "caps ?s t = None"
    using gone by (simp add: caps_None_iff [OF cap_inv_revoke [OF inv]])
  moreover have "caps ?s k = caps s k" if "k \<noteq> t" for k
    by (rule caps_frame) (use that i(3) in \<open>auto simp: s' live_slot_def\<close>)
  ultimately show ?thesis by auto
qed

lemma caps_zero: "cap_inv s \<Longrightarrow> caps s 0 = None"
  unfolding caps_None_iff live_slot_def using cap_inv_slotD by fastforce

lemma validate_iff_caps:
  assumes inv: "cap_inv s"
  shows "cap_ipc_validate t ep s \<longleftrightarrow> (\<exists>d. caps s t = Some (ep, d))"
proof
  assume "cap_ipc_validate t ep s"
  then obtain i where i: "i < CAP_IPC_MAX_ENDPOINTS" "live_slot s t i" "ep_cls (g_eps s i) = Some ep"
    by (auto simp: cap_ipc_validate_def scan_None_iff live_slot_def split: if_splits)
  with caps_eq [OF inv i(2,1)] show "\<exists>d. caps s t = Some (ep, d)" by simp
next
  assume "\<exists>d. caps s t = Some (ep, d)"
  then obtain d where d: "caps s t = Some (ep, d)" ..
  then obtain i where i: "i < CAP_IPC_MAX_ENDPOINTS" "live_slot s t i"
    using caps_None_iff [OF inv, of t] by auto
  have "ep_cls (g_eps s i) = Some ep" using caps_eq [OF inv i(2,1)] d by (cases "ep_cls (g_eps s i)") auto
  moreover have "t \<noteq> 0" using d caps_zero [OF inv] by auto
  ultimately show "cap_ipc_validate t ep s"
    using i by (auto simp: cap_ipc_validate_def scan_None_iff live_slot_def)
qed

lemma deliver_iff_caps:
  assumes "cap_inv s"
  shows "cap_ipc_deliver t (Some m) s = (if caps s t = None then Inl EPERM else Inr ())"
proof -
  have "(scan (\<lambda>i. \<not> (ep_magic (g_eps s i) \<noteq> CAP_IPC_MAGIC \<or> ep_revoked (g_eps s i)
      \<or> ep_token (g_eps s i) \<noteq> t)) 0 CAP_IPC_MAX_ENDPOINTS = None) = (caps s t = None)"
    by (auto simp: scan_None_iff caps_None_iff [OF assms] live_slot_def)
  then show ?thesis by (auto simp: cap_ipc_deliver_def split: option.splits)
qed

section \<open>Tokens as issued identifiers\<close>

definition cap_room :: "cap_ipc_state \<Rightarrow> nat" where
  "cap_room s = 2 ^ 64 - 1 - unat (g_next_tok s)"

definition cap_issued :: "cap_ipc_state \<Rightarrow> u64 \<Rightarrow> bool" where
  "cap_issued s t \<longleftrightarrow> 0 < t \<and> t < g_next_tok s"

definition cap_live :: "cap_ipc_state \<Rightarrow> u64 \<Rightarrow> bool" where
  "cap_live s t \<longleftrightarrow> caps s t \<noteq> None"

lemma cap_room_pos: "0 < cap_room s \<longleftrightarrow> g_next_tok s \<noteq> UINT64_MAX"
proof -
  have "unat (g_next_tok s) < 2 ^ 64" using unsigned_less [of "g_next_tok s"] by simp
  moreover have "unat (UINT64_MAX :: u64) = 2 ^ 64 - 1" by (simp add: unsigned_minus_1_eq_mask mask_eq_exp_minus_1)
  ultimately show ?thesis by (auto simp: cap_room_def word_unat_eq_iff)
qed

lemma next_tok_step:
  assumes "0 < cap_room s"
  shows "g_next_tok (cap_step x s) = g_next_tok s \<or>
    (g_next_tok (cap_step x s) = g_next_tok s + 1 \<and> unat (g_next_tok s + 1) = Suc (unat (g_next_tok s)))"
proof -
  have "g_next_tok s + 1 \<noteq> 0" using assms by (simp add: cap_room_pos add_eq_0_iff2)
  then have "unat (g_next_tok s + 1) = Suc (unat (g_next_tok s))" by (metis add.commute unatSuc)
  then show ?thesis
    by (cases x) (auto simp: cap_ipc_init_def cap_ipc_grant_def split: option.splits)
qed

interpretation cap_tokens: id_issuer cap_inv cap_room cap_issued cap_live cap_step
proof
  fix s :: cap_ipc_state and x :: cap_op and k :: u64
  assume inv: "cap_inv s" and room: "0 < cap_room s"
  then have nowrap: "g_next_tok s \<noteq> UINT64_MAX" by (simp add: cap_room_pos)
  show "cap_inv (cap_step x s)"
    using inv nowrap cap_inv_grant [OF inv nowrap]
    by (cases x) (auto simp: cap_inv_init cap_inv_revoke prod_eq_iff)
  show "cap_room s \<le> Suc (cap_room (cap_step x s))"
    using next_tok_step [OF room, of x] by (auto simp: cap_room_def)
  assume issued: "cap_issued s k"
  then show "cap_issued (cap_step x s) k"
    using next_tok_step [OF room, of x] by (auto simp: cap_issued_def word_less_nat_alt)
  assume live: "cap_live (cap_step x s) k"
  show "cap_live s k"
  proof (cases x)
    case OpInit
    with live show ?thesis by (simp add: cap_live_def caps_init)
  next
    case (OpGrant ep d)
    obtain t s' where g: "cap_ipc_grant ep d s = (t, s')" by fastforce
    show ?thesis
    proof (cases "t = 0")
      case True
      with g inv have "s' = s"
        by (auto simp: cap_ipc_grant_def cap_inv_def split: option.splits)
      with live OpGrant g show ?thesis by simp
    next
      case False
      then have "t = g_next_tok s" using g by (auto simp: cap_ipc_grant_def split: option.splits)
      with live OpGrant g caps_grant [OF inv nowrap g False] issued show ?thesis
        by (simp add: cap_live_def cap_issued_def split: if_splits)
    qed
  next
    case (OpRevoke t)
    with live show ?thesis by (simp add: cap_live_def caps_revoke_map [OF inv] split: if_splits)
  qed
qed

section \<open>Properties\<close>

text \<open>C1: In a well-formed table, \<open>cap_ipc_grant\<close> fails with token 0 and changes nothing exactly
  when all 32 slots are taken; otherwise it returns a fresh non-zero token and adds exactly that
  token, for the class and the owner asked for, to the live capabilities. \<open>cap_ipc_revoke\<close> removes
  exactly the named token and leaves every other one as it was. Both keep the table well-formed.\<close>

theorem cap_table_refines:
  assumes "cap_inv s" and "g_next_tok s \<noteq> UINT64_MAX" and "cap_ipc_grant ep d s = (t, s')"
  shows "cap_inv s' \<and>
    (if \<forall>i < CAP_IPC_MAX_ENDPOINTS. ep_magic (g_eps s i) \<noteq> 0 then t = 0 \<and> s' = s
     else t \<noteq> 0 \<and> caps s t = None \<and> caps s' = (caps s)(t \<mapsto> (ep, d))) \<and>
    caps (cap_ipc_revoke u s) = (caps s)(u := None) \<and> cap_inv (cap_ipc_revoke u s)"
proof (cases "scan (\<lambda>i. ep_magic (g_eps s i) = 0) 0 CAP_IPC_MAX_ENDPOINTS")
  case None
  with assms show ?thesis by (auto simp: cap_ipc_grant_def scan_None_iff caps_revoke_map cap_inv_revoke)
next
  case (Some i)
  with assms have "t = g_next_tok s" by (simp add: cap_ipc_grant_def)
  then have "t \<noteq> 0" using assms by (auto simp: cap_inv_def)
  moreover have "\<not> (\<forall>i < CAP_IPC_MAX_ENDPOINTS. ep_magic (g_eps s i) \<noteq> 0)"
    using scan_SomeD [OF Some] by auto
  ultimately show ?thesis using caps_grant [OF assms] cap_inv_grant [OF assms] assms(1)
    by (simp add: caps_revoke_map cap_inv_revoke)
qed

theorem cap_table_refines_witness:
  "caps (snd (cap_ipc_grant CAP_IPC_EP_VFS 7 cap_ipc_boot))
     = (caps cap_ipc_boot)(1 \<mapsto> (CAP_IPC_EP_VFS, 7))"
proof -
  have g: "cap_ipc_grant CAP_IPC_EP_VFS 7 cap_ipc_boot
    = (1, snd (cap_ipc_grant CAP_IPC_EP_VFS 7 cap_ipc_boot))"
    by (simp add: cap_ipc_grant_def cap_ipc_boot_def zero_endpoint_def scan.simps
        CAP_IPC_MAX_ENDPOINTS_def)
  show ?thesis
    using cap_table_refines [OF cap_inv_boot _ g, of 1]
    by (auto simp: cap_ipc_boot_def zero_endpoint_def CAP_IPC_MAX_ENDPOINTS_def split: if_splits)
qed

text \<open>C2: In a well-formed table, \<open>cap_ipc_validate\<close> accepts a token for a class exactly when
  the token is live and was granted for that class, and \<open>cap_ipc_deliver\<close> routes a message
  exactly for live tokens of any class, refusing all others with \<open>EPERM\<close>.\<close>

theorem cap_access_control:
  assumes "cap_inv s"
  shows "(cap_ipc_validate t ep s \<longleftrightarrow> (\<exists>d. caps s t = Some (ep, d))) \<and>
    cap_ipc_deliver t (Some m) s = (if caps s t = None then Inl EPERM else Inr ()) \<and>
    cap_ipc_deliver t None s = Inl EINVAL"
  using validate_iff_caps [OF assms] deliver_iff_caps [OF assms]
  by (simp add: cap_ipc_deliver_def)

theorem cap_access_control_witness:
  "\<not> cap_ipc_validate 5 CAP_IPC_EP_NET cap_ipc_boot"
  using cap_access_control [OF cap_inv_boot, of 5 CAP_IPC_EP_NET]
  by (simp add: caps_boot)

text \<open>C3: Revocation is permanent. Once an issued token is revoked, no sequence of grants,
  revocations and re-initialisations makes it valid for any class or deliverable again, as long
  as the 64-bit token counter does not wrap around.\<close>

theorem cap_revoked_forever:
  assumes "cap_inv s" and "0 < t" and "t < g_next_tok s"
    and "length ops \<le> 2 ^ 64 - 1 - unat (g_next_tok s)"
  shows "\<not> cap_ipc_validate t ep (fold cap_step ops (cap_ipc_revoke t s)) \<and>
    cap_ipc_deliver t (Some m) (fold cap_step ops (cap_ipc_revoke t s)) = Inl EPERM"
proof -
  let ?s = "cap_ipc_revoke t s"
  have inv: "cap_inv ?s" and room: "length ops \<le> cap_room ?s"
    and issued: "cap_issued ?s t" and dead: "\<not> cap_live ?s t"
    using assms by (auto simp: cap_inv_revoke cap_room_def cap_issued_def cap_live_def
        caps_revoke_map)
  have "\<not> cap_live (fold cap_step ops ?s) t"
    by (rule cap_tokens.never_revived [OF inv room issued dead])
  moreover have "cap_inv (fold cap_step ops ?s)"
    by (rule cap_tokens.steps_inv [OF inv room])
  ultimately show ?thesis by (simp add: validate_iff_caps deliver_iff_caps cap_live_def)
qed

theorem cap_revoked_forever_witness:
  "\<not> cap_ipc_validate 1 CAP_IPC_EP_VFS
      (fold cap_step [OpGrant CAP_IPC_EP_VFS 3, OpInit, OpGrant CAP_IPC_EP_VFS 3]
        (cap_ipc_revoke 1 (snd (cap_ipc_grant CAP_IPC_EP_VFS 3 cap_ipc_boot))))"
proof -
  let ?s = "snd (cap_ipc_grant CAP_IPC_EP_VFS 3 cap_ipc_boot)"
  have g: "cap_ipc_grant CAP_IPC_EP_VFS 3 cap_ipc_boot = (1, ?s)" and next_tok: "g_next_tok ?s = 2"
    by (simp_all add: cap_ipc_grant_def cap_ipc_boot_def zero_endpoint_def scan.simps
        CAP_IPC_MAX_ENDPOINTS_def)
  have "cap_inv ?s" using cap_inv_grant [OF cap_inv_boot _ g] by (simp add: cap_ipc_boot_def)
  then show ?thesis
    using cap_revoked_forever [of ?s 1 "[OpGrant CAP_IPC_EP_VFS 3, OpInit, OpGrant CAP_IPC_EP_VFS 3]"]
    by (simp add: next_tok)
qed

end
