(* ===== verification/Pmm.thy ===== *)
theory Pmm
  imports AevPrelude
begin

text \<open>
  The physical page allocator, \<open>kernel/mm/pmm.c\<close>: one bit per 4 KiB frame, set when the frame
  is in use, and a counter of the free frames beside it. Page numbers index a bitmap of
  2^20 bits and are natural numbers here; byte addresses, lengths and the counters are 64-bit
  words, so that the arithmetic of \<open>pmm_init\<close> wraps as in the code. The spin lock makes each
  operation one atomic step; it is not part of the state.

  The theory ends with the interface \<open>frame_source\<close> the slab allocator relies on and its
  interpretation on \<open>pmm_alloc_pages\<close>.
\<close>

unbundle bit_operations_syntax

section \<open>State and boot information\<close>

definition PMM_MAX_PAGES :: nat where "PMM_MAX_PAGES = 2 ^ 20"

record pmm_t =
  bitmap :: "nat \<Rightarrow> u64"
  total_pages :: u64
  free_pages :: u64

text \<open>A memory map entry stores its type as a 32-bit number; \<open>MMAP_USABLE\<close> is 0.\<close>

definition MMAP_USABLE :: u32 where "MMAP_USABLE = 0"

record mmap_entry =
  me_base :: u64
  me_length :: u64
  me_type :: u32

record boot_info =
  mmap_entries :: "nat \<Rightarrow> mmap_entry"
  mmap_count :: u32
  kernel_phys_base :: u64
  kernel_size :: u64
  total_memory :: u64

section \<open>Bitmap helpers\<close>

definition bm_set :: "(nat \<Rightarrow> u64) \<Rightarrow> nat \<Rightarrow> nat \<Rightarrow> u64" where
  "bm_set bm page = bm(page div 64 := bm (page div 64) OR bit_mask (page mod 64))"

definition bm_clear :: "(nat \<Rightarrow> u64) \<Rightarrow> nat \<Rightarrow> nat \<Rightarrow> u64" where
  "bm_clear bm page = bm(page div 64 := bm (page div 64) AND NOT (bit_mask (page mod 64)))"

definition bm_test :: "(nat \<Rightarrow> u64) \<Rightarrow> nat \<Rightarrow> bool" where
  "bm_test bm page \<longleftrightarrow> drop_bit (page mod 64) (bm (page div 64)) AND 1 \<noteq> 0"

definition bm_set_range :: "u64 \<Rightarrow> u64 \<Rightarrow> (nat \<Rightarrow> u64) \<Rightarrow> nat \<Rightarrow> u64" where
  "bm_set_range start count bm =
     fold (\<lambda>i m. bm_set m i) [unat start..<min (unat (start + count)) PMM_MAX_PAGES] bm"

definition bm_clear_range :: "u64 \<Rightarrow> u64 \<Rightarrow> (nat \<Rightarrow> u64) \<Rightarrow> nat \<Rightarrow> u64" where
  "bm_clear_range start count bm =
     fold (\<lambda>i m. bm_clear m i) [unat start..<min (unat (start + count)) PMM_MAX_PAGES] bm"

text \<open>
  The search for a run of \<open>count\<close> free pages: \<open>i\<close>, \<open>run\<close> and \<open>start\<close> are the variables of the
  loop. \<open>None\<close> is the failure value \<open>UINT64_MAX\<close>.
\<close>

function bm_find_free_loop ::
  "(nat \<Rightarrow> u64) \<Rightarrow> nat \<Rightarrow> nat \<Rightarrow> nat \<Rightarrow> nat \<Rightarrow> nat \<Rightarrow> nat option" where
  "bm_find_free_loop bm n count i run start =
     (if i < n then
        if bm_test bm i then bm_find_free_loop bm n count (Suc i) 0 (Suc i)
        else if Suc run = count then Some start
        else bm_find_free_loop bm n count (Suc i) (Suc run) start
      else None)"
  by pat_completeness auto
termination
  by (relation "measure (\<lambda>(bm, n, count, i, run, start). n - i)") auto

declare bm_find_free_loop.simps [simp del]

definition bm_find_free :: "pmm_t \<Rightarrow> nat \<Rightarrow> u64 \<Rightarrow> nat option" where
  "bm_find_free p from count =
     bm_find_free_loop (bitmap p) (unat (total_pages p)) (unat count) from 0 from"

function first_free_loop :: "(nat \<Rightarrow> u64) \<Rightarrow> nat \<Rightarrow> nat \<Rightarrow> nat \<Rightarrow> nat option" where
  "first_free_loop bm n words w =
     (if w < words then
        if bm w \<noteq> UINT64_MAX \<and> w * 64 + ctz64 (NOT (bm w)) < n
        then Some (w * 64 + ctz64 (NOT (bm w)))
        else first_free_loop bm n words (Suc w)
      else None)"
  by pat_completeness auto
termination
  by (relation "measure (\<lambda>(bm, n, words, w). words - w)") auto

declare first_free_loop.simps [simp del]

definition bm_find_first_free :: "pmm_t \<Rightarrow> nat option" where
  "bm_find_first_free p =
     first_free_loop (bitmap p) (unat (total_pages p)) (unat ((total_pages p + 63) div 64)) 0"

section \<open>Operations\<close>

text \<open>
  \<open>pmm_init\<close> in the order of the code: every page used, the usable regions of the memory map
  freed one by one, then the kernel image and the first megabyte marked as used again.
\<close>

definition pmm_init_start :: "boot_info \<Rightarrow> pmm_t" where
  "pmm_init_start bi = \<lparr>
     bitmap = (\<lambda>_. UINT64_MAX),
     total_pages = (let t = total_memory bi div PAGE_SIZE
                    in if of_nat PMM_MAX_PAGES < t then of_nat PMM_MAX_PAGES else t),
     free_pages = 0\<rparr>"

definition pmm_init_entry :: "mmap_entry \<Rightarrow> pmm_t \<Rightarrow> pmm_t" where
  "pmm_init_entry e p =
     (if me_type e \<noteq> MMAP_USABLE then p else
      let base = align_up (me_base e) PAGE_SIZE;
          limit = align_down (me_base e + me_length e) PAGE_SIZE
      in if limit \<le> base then p else
      let start_page = base div PAGE_SIZE;
          num_pages = (limit - base) div PAGE_SIZE;
          num_pages = (if total_pages p < start_page + num_pages
                       then total_pages p - start_page else num_pages)
      in p\<lparr>bitmap := bm_clear_range start_page num_pages (bitmap p),
           free_pages := free_pages p + num_pages\<rparr>)"

definition pmm_reserve :: "nat \<Rightarrow> pmm_t \<Rightarrow> pmm_t" where
  "pmm_reserve i p =
     (if \<not> bm_test (bitmap p) i
      then p\<lparr>bitmap := bm_set (bitmap p) i, free_pages := free_pages p - 1\<rparr> else p)"

definition pmm_init :: "boot_info \<Rightarrow> pmm_t" where
  "pmm_init bi =
     (let p = fold (\<lambda>i. pmm_init_entry (mmap_entries bi i)) [0..<unat (mmap_count bi)]
                (pmm_init_start bi);
          k_start = kernel_phys_base bi div PAGE_SIZE;
          k_pages = align_up (kernel_size bi) PAGE_SIZE div PAGE_SIZE;
          p = fold pmm_reserve
                [unat k_start..<min (unat (k_start + k_pages)) (unat (total_pages p))] p;
          low_pages = 1024 * 1024 div PAGE_SIZE
      in fold pmm_reserve [0..<min (unat low_pages) (unat (total_pages p))] p)"

definition pmm_alloc_page :: "pmm_t \<Rightarrow> u64 \<times> pmm_t" where
  "pmm_alloc_page p =
     (case bm_find_first_free p of
        None \<Rightarrow> (0, p)
      | Some page \<Rightarrow>
          (of_nat page * PAGE_SIZE,
           p\<lparr>bitmap := bm_set (bitmap p) page, free_pages := free_pages p - 1\<rparr>))"

definition pmm_alloc_pages :: "u64 \<Rightarrow> pmm_t \<Rightarrow> u64 \<times> pmm_t" where
  "pmm_alloc_pages count p =
     (if count = 0 then (0, p)
      else if count = 1 then pmm_alloc_page p
      else case bm_find_free p 0 count of
        None \<Rightarrow> (0, p)
      | Some start \<Rightarrow>
          (of_nat start * PAGE_SIZE,
           p\<lparr>bitmap := bm_set_range (of_nat start) count (bitmap p),
             free_pages := free_pages p - count\<rparr>))"

definition pmm_release :: "u64 \<Rightarrow> pmm_t \<Rightarrow> pmm_t" where
  "pmm_release page p =
     (if bm_test (bitmap p) (unat page)
      then p\<lparr>bitmap := bm_clear (bitmap p) (unat page), free_pages := free_pages p + 1\<rparr>
      else p)"

definition pmm_free_page :: "u64 \<Rightarrow> pmm_t \<Rightarrow> pmm_t" where
  "pmm_free_page paddr p =
     (let page = paddr div PAGE_SIZE
      in if total_pages p \<le> page then p else pmm_release page p)"

text \<open>The loop of \<open>pmm_free_pages\<close>, with the number of iterations left.\<close>

primrec pmm_free_loop :: "nat \<Rightarrow> u64 \<Rightarrow> pmm_t \<Rightarrow> pmm_t" where
  "pmm_free_loop 0 page p = p"
| "pmm_free_loop (Suc k) page p =
     (if total_pages p \<le> page then p else pmm_free_loop k (page + 1) (pmm_release page p))"

definition pmm_free_pages :: "u64 \<Rightarrow> u64 \<Rightarrow> pmm_t \<Rightarrow> pmm_t" where
  "pmm_free_pages paddr count p = pmm_free_loop (unat count) (paddr div PAGE_SIZE) p"

definition pmm_get_free_pages :: "pmm_t \<Rightarrow> u64" where
  "pmm_get_free_pages p = free_pages p"

definition pmm_get_total_pages :: "pmm_t \<Rightarrow> u64" where
  "pmm_get_total_pages p = total_pages p"

section \<open>Specification\<close>

text \<open>The free frames, and the invariant: the counter counts them.\<close>

definition frames :: "pmm_t \<Rightarrow> nat set" where
  "frames p = {k. k < unat (total_pages p) \<and> \<not> bm_test (bitmap p) k}"

definition pmm_inv :: "pmm_t \<Rightarrow> bool" where
  "pmm_inv p \<longleftrightarrow> unat (total_pages p) \<le> PMM_MAX_PAGES
     \<and> unat (free_pages p) = card (frames p) \<and> 0 \<notin> frames p"

lemma frames_code [code]:
  "frames p = set (filter (\<lambda>k. \<not> bm_test (bitmap p) k) [0..<unat (total_pages p)])"
  by (auto simp: frames_def)

section \<open>Bitmap lemmas\<close>

lemma bm_test_bit: "bm_test bm i \<longleftrightarrow> bit (bm (i div 64)) (i mod 64)"
  by (simp add: bm_test_def shift_and_one)

lemma page_split: "(i::nat) div 64 = j div 64 \<and> i mod 64 = j mod 64 \<longleftrightarrow> i = j"
  by (metis div_mult_mod_eq)

interpretation page_bits: bitmap_ops bm_set bm_clear bm_test
proof
  show "bm_test (bm_set m i) j \<longleftrightarrow> j = i \<or> bm_test m j" for m i j
    using page_split [of i j] by (auto simp: bm_test_bit bm_set_def bit_or_mask)
  show "bm_test (bm_clear m i) j \<longleftrightarrow> j \<noteq> i \<and> bm_test m j" for m i j
    using page_split [of i j] by (auto simp: bm_test_bit bm_clear_def bit_andnot_mask)
qed

section \<open>The searches\<close>

definition run_fits :: "(nat \<Rightarrow> u64) \<Rightarrow> nat \<Rightarrow> nat \<Rightarrow> nat \<Rightarrow> bool" where
  "run_fits bm n count s \<longleftrightarrow> s + count \<le> n \<and> (\<forall>k. s \<le> k \<longrightarrow> k < s + count \<longrightarrow> \<not> bm_test bm k)"

lemma bm_find_free_loop_scan:
  assumes "i = start + run" and "run < count"
    and "\<And>k. start \<le> k \<Longrightarrow> k < i \<Longrightarrow> \<not> bm_test bm k"
  shows "bm_find_free_loop bm n count i run start = scan (run_fits bm n count) start n"
  using assms
proof (induction bm n count i run start rule: bm_find_free_loop.induct)
  case (1 bm n count i run start)
  consider (stop) "n \<le> i" | (used) "i < n" "bm_test bm i"
    | (found) "i < n" "\<not> bm_test bm i" "Suc run = count"
    | (more) "i < n" "\<not> bm_test bm i" "Suc run \<noteq> count" by linarith
  then show ?case
  proof cases
    case stop
    then have "\<not> run_fits bm n count s" if "start \<le> s" for s
      using 1(3,4) that by (simp add: run_fits_def)
    then have "scan (run_fits bm n count) start n = None" by (simp add: scan_None_iff)
    then show ?thesis using stop by (simp add: bm_find_free_loop.simps [of bm n count i])
  next
    case used
    have "\<not> run_fits bm n count s" if "start \<le> s" "s < Suc i" for s
    proof
      assume "run_fits bm n count s"
      moreover have "s \<le> i" "i < s + count" using 1(3,4) that by auto
      ultimately show False using used by (auto simp: run_fits_def)
    qed
    then have "scan (run_fits bm n count) start n = scan (run_fits bm n count) (Suc i) n"
      using 1(3) by (intro scan_skip) auto
    moreover have "bm_find_free_loop bm n count (Suc i) 0 (Suc i)
        = scan (run_fits bm n count) (Suc i) n"
      using 1(4) by (intro 1(1) [OF used]) auto
    ultimately show ?thesis using used by (simp add: bm_find_free_loop.simps [of bm n count i])
  next
    case found
    then have "run_fits bm n count start"
      using 1(3,5) by (auto simp: run_fits_def less_Suc_eq)
    then have "scan (run_fits bm n count) start n = Some start"
      using found 1(3) by (simp add: scan_Some_iff)
    then show ?thesis using found by (simp add: bm_find_free_loop.simps [of bm n count i])
  next
    case more
    have "bm_find_free_loop bm n count (Suc i) (Suc run) start
        = scan (run_fits bm n count) start n"
      using 1(3-5) more by (intro 1(2) [OF more]) (auto simp: less_Suc_eq)
    then show ?thesis using more by (simp add: bm_find_free_loop.simps [of bm n count i])
  qed
qed

lemma bm_find_free_scan:
  "count \<noteq> 0 \<Longrightarrow> bm_find_free p from count
     = scan (run_fits (bitmap p) (unat (total_pages p)) (unat count)) from (unat (total_pages p))"
  unfolding bm_find_free_def by (rule bm_find_free_loop_scan) (auto simp: unat_gt_0)

lemma first_free_word:
  assumes "bm w \<noteq> UINT64_MAX"
  shows "\<not> bm_test bm (w * 64 + ctz64 (NOT (bm w)))"
    and "\<And>j. w * 64 \<le> j \<Longrightarrow> j < w * 64 + ctz64 (NOT (bm w)) \<Longrightarrow> bm_test bm j"
proof -
  note c = ctz64_not [OF assms]
  show "\<not> bm_test bm (w * 64 + ctz64 (NOT (bm w)))" using c by (simp add: bm_test_bit)
  fix j assume j: "w * 64 \<le> j" "j < w * 64 + ctz64 (NOT (bm w))"
  define d where "d = j - w * 64"
  have "j = w * 64 + d" "d < ctz64 (NOT (bm w))" "d < 64" using j c(1) by (auto simp: d_def)
  then show "bm_test bm j" using c(3) by (simp add: bm_test_bit)
qed

lemma first_free_loop_scan:
  assumes "n \<le> words * 64"
  shows "first_free_loop bm n words w = scan (\<lambda>i. \<not> bm_test bm i) (w * 64) n"
  using assms
proof (induction bm n words w rule: first_free_loop.induct)
  case (1 bm n words w)
  let ?P = "\<lambda>i. \<not> bm_test bm i"
  let ?page = "w * 64 + ctz64 (NOT (bm w))"
  consider (stop) "words \<le> w" | (full) "w < words" "bm w = UINT64_MAX"
    | (hit) "w < words" "bm w \<noteq> UINT64_MAX" "?page < n"
    | (past) "w < words" "bm w \<noteq> UINT64_MAX" "n \<le> ?page" by linarith
  then show ?case
  proof cases
    case stop
    then have "scan ?P (w * 64) n = None" using 1(2) by (simp add: scan_None_iff)
    then show ?thesis using stop by (simp add: first_free_loop.simps [of bm n words w])
  next
    case full
    have "bm_test bm j" if "w * 64 \<le> j" "j < Suc w * 64" for j
    proof -
      have "j div 64 = w" using that by simp
      then show ?thesis using full by (simp add: bm_test_bit)
    qed
    then have "scan ?P (w * 64) n = scan ?P (Suc w * 64) n" by (intro scan_skip) auto
    then show ?thesis using full 1(1) 1(2) by (simp add: first_free_loop.simps [of bm n words w])
  next
    case hit
    then have "scan ?P (w * 64) n = Some ?page"
      using first_free_word [of bm w] by (auto simp: scan_Some_iff)
    then show ?thesis using hit by (simp add: first_free_loop.simps [of bm n words w])
  next
    case past
    then have "scan ?P (w * 64) n = None" "scan ?P (Suc w * 64) n = None"
      using first_free_word(2) [of bm w] ctz64_not(1) [of "bm w"] by (auto simp: scan_None_iff)
    then show ?thesis using past 1(1) 1(2) by (simp add: first_free_loop.simps [of bm n words w])
  qed
qed

lemma words_enough:
  assumes "unat (t::u64) \<le> PMM_MAX_PAGES"
  shows "unat t \<le> unat ((t + 63) div 64) * 64"
proof -
  have "unat (t + 63) = unat t + 63"
    using assms by (simp add: PMM_MAX_PAGES_def unat_word_ariths)
  then show ?thesis by (simp add: unat_div)
qed

lemma bm_find_first_free_scan:
  "unat (total_pages p) \<le> PMM_MAX_PAGES \<Longrightarrow> bm_find_first_free p
     = scan (\<lambda>i. \<not> bm_test (bitmap p) i) 0 (unat (total_pages p))"
  using first_free_loop_scan [OF words_enough] by (simp add: bm_find_first_free_def)

section \<open>Allocation and release\<close>

lemma unat_page_addr:
  "page \<le> PMM_MAX_PAGES \<Longrightarrow> unat (of_nat page * PAGE_SIZE) = page * 4096"
  by (simp add: PAGE_SIZE_def PMM_MAX_PAGES_def unat_word_ariths unat_of_nat)

lemma unat_div_page [simp]: "unat (a div PAGE_SIZE) = unat a div 4096"
  by (simp add: PAGE_SIZE_def unat_div)

lemma frames_finite [simp]: "finite (frames p)"
  by (simp add: frames_def)

lemma frames_free_pages [simp]:
  "frames (p\<lparr>bitmap := b, free_pages := c\<rparr>) = frames (p\<lparr>bitmap := b\<rparr>)"
  by (simp add: frames_def)

lemma pmm_invD:
  assumes "pmm_inv p"
  shows "unat (total_pages p) \<le> PMM_MAX_PAGES" and "unat (free_pages p) = card (frames p)"
    and "0 \<notin> frames p"
  using assms by (simp_all add: pmm_inv_def)

lemma card_frames_le: "pmm_inv p \<Longrightarrow> card (frames p) \<le> PMM_MAX_PAGES"
proof -
  assume "pmm_inv p"
  moreover have "card (frames p) \<le> card {..<unat (total_pages p)}"
    by (rule card_mono) (auto simp: frames_def)
  ultimately show ?thesis using pmm_invD(1) by force
qed

text \<open>Taking frames out of the free set and giving them back, with the counter adjusted.\<close>

lemma pmm_inv_take:
  assumes "pmm_inv p" and "frames (p\<lparr>bitmap := b\<rparr>) = frames p - A" and "A \<subseteq> frames p"
    and "unat c = card A"
  shows "pmm_inv (p\<lparr>bitmap := b, free_pages := free_pages p - c\<rparr>)"
proof -
  have le: "card A \<le> card (frames p)" by (rule card_mono) (use assms in auto)
  then have "c \<le> free_pages p" using assms by (simp add: word_le_nat_alt pmm_inv_def)
  then have "unat (free_pages p - c) = card (frames p) - card A"
    using assms by (simp add: unat_sub pmm_inv_def)
  moreover have "card (frames p - A) = card (frames p) - card A"
    using assms finite_subset [OF assms(3)] by (simp add: card_Diff_subset)
  ultimately show ?thesis using assms by (simp add: pmm_inv_def)
qed

lemma pmm_inv_give:
  assumes "pmm_inv p" and "frames (p\<lparr>bitmap := b\<rparr>) = insert i (frames p)" and "i \<notin> frames p"
    and "0 < i"
  shows "pmm_inv (p\<lparr>bitmap := b, free_pages := free_pages p + 1\<rparr>)"
proof -
  have "unat (free_pages p) \<le> PMM_MAX_PAGES" using card_frames_le assms(1) pmm_invD(2) by simp
  then have "free_pages p + 1 \<noteq> 0"
    by (auto simp: PMM_MAX_PAGES_def add_eq_0_iff2 unsigned_minus_1_eq_mask mask_eq_exp_minus_1)
  then have "unat (free_pages p + 1) = Suc (unat (free_pages p))"
    using unatSuc [of "free_pages p"] by (simp add: add.commute)
  then show ?thesis using assms by (auto simp: pmm_inv_def)
qed

lemma frames_run_fits:
  "run_fits (bitmap p) (unat (total_pages p)) n s \<longleftrightarrow> s + n \<le> unat (total_pages p) \<and> {s..<s + n} \<subseteq> frames p"
  by (auto simp: run_fits_def frames_def)

lemma frames_bm_set: "frames (p\<lparr>bitmap := bm_set (bitmap p) i\<rparr>) = frames p - {i}"
  using page_bits.frees_bset by (simp add: frames_def)

lemma frames_bm_set_range:
  assumes "unat (total_pages p) \<le> PMM_MAX_PAGES" and "s + unat count \<le> unat (total_pages p)"
  shows "frames (p\<lparr>bitmap := bm_set_range (of_nat s) count (bitmap p)\<rparr>)
    = frames p - {s..<s + unat count}"
proof -
  have "unat (of_nat s :: u64) = s" using assms by (simp add: PMM_MAX_PAGES_def unat_of_nat)
  moreover have "unat (of_nat s + count) = s + unat count"
    using assms calculation by (simp add: PMM_MAX_PAGES_def unat_word_ariths)
  ultimately show ?thesis using assms page_bits.frees_set_range
    by (simp add: frames_def bm_set_range_def min_def)
qed

text \<open>
  The outcome of an allocation of \<open>n\<close> pages: the lowest run of free frames, or 0 when there is
  none.
\<close>

definition alloc_outcome :: "nat \<Rightarrow> pmm_t \<Rightarrow> u64 \<times> pmm_t \<Rightarrow> bool" where
  "alloc_outcome n p r \<longleftrightarrow>
     (case scan (run_fits (bitmap p) (unat (total_pages p)) n) 0 (unat (total_pages p)) of
        None \<Rightarrow> r = (0, p)
      | Some s \<Rightarrow> unat (fst r) = s * 4096 \<and> total_pages (snd r) = total_pages p
          \<and> frames (snd r) = frames p - {s..<s + n})"

lemma pmm_alloc_page_outcome:
  assumes inv: "pmm_inv p"
  shows "alloc_outcome 1 p (pmm_alloc_page p)" and "pmm_inv (snd (pmm_alloc_page p))"
proof -
  have le: "unat (total_pages p) \<le> PMM_MAX_PAGES" using inv pmm_invD by blast
  have eq: "bm_find_first_free p
      = scan (run_fits (bitmap p) (unat (total_pages p)) 1) 0 (unat (total_pages p))"
    unfolding bm_find_first_free_scan [OF le]
    by (rule scan_cong) (auto simp: run_fits_def less_Suc_eq)
  have both: "alloc_outcome 1 p (pmm_alloc_page p) \<and> pmm_inv (snd (pmm_alloc_page p))"
  proof (cases "bm_find_first_free p")
    case None
    then show ?thesis using inv eq by (simp add: alloc_outcome_def pmm_alloc_page_def)
  next
    case (Some s)
    then have fits: "run_fits (bitmap p) (unat (total_pages p)) 1 s"
      using eq scan_SomeD(3) by metis
    then have "{s} \<subseteq> frames p" "s \<le> PMM_MAX_PAGES" using le by (auto simp: frames_run_fits)
    moreover from this have "pmm_inv (p\<lparr>bitmap := bm_set (bitmap p) s, free_pages := free_pages p - 1\<rparr>)"
      using pmm_inv_take [OF inv frames_bm_set, of s 1] by simp
    ultimately show ?thesis using Some eq
      by (simp add: alloc_outcome_def pmm_alloc_page_def unat_page_addr frames_bm_set)
  qed
  then show "alloc_outcome 1 p (pmm_alloc_page p)" and "pmm_inv (snd (pmm_alloc_page p))" by auto
qed

lemma pmm_alloc_pages_outcome:
  assumes inv: "pmm_inv p" and pos: "count \<noteq> 0"
  shows "alloc_outcome (unat count) p (pmm_alloc_pages count p)"
    and "pmm_inv (snd (pmm_alloc_pages count p))"
proof -
  have le: "unat (total_pages p) \<le> PMM_MAX_PAGES" using inv pmm_invD by blast
  have both: "alloc_outcome (unat count) p (pmm_alloc_pages count p)
      \<and> pmm_inv (snd (pmm_alloc_pages count p))"
  proof (cases "count = 1")
    case True
    then show ?thesis using pmm_alloc_page_outcome [OF inv] by (simp add: pmm_alloc_pages_def)
  next
    case False
    show ?thesis
    proof (cases "bm_find_free p 0 count")
      case None
      then show ?thesis using False inv pos
        by (auto simp: alloc_outcome_def pmm_alloc_pages_def bm_find_free_scan)
    next
      case s: (Some s)
      then have fits: "run_fits (bitmap p) (unat (total_pages p)) (unat count) s"
        using bm_find_free_scan [OF pos] scan_SomeD(3) by metis
      then have sub: "s + unat count \<le> unat (total_pages p)" "{s..<s + unat count} \<subseteq> frames p"
        by (simp_all add: frames_run_fits)
      note fr = frames_bm_set_range [OF le sub(1)]
      have "pmm_inv (p\<lparr>bitmap := bm_set_range (of_nat s) count (bitmap p), free_pages := free_pages p - count\<rparr>)"
        using pmm_inv_take [OF inv fr sub(2)] by simp
      moreover have "s \<le> PMM_MAX_PAGES" using sub le by simp
      ultimately show ?thesis using s False pos fr
        by (simp add: alloc_outcome_def pmm_alloc_pages_def unat_page_addr flip: bm_find_free_scan)
    qed
  qed
  then show "alloc_outcome (unat count) p (pmm_alloc_pages count p)"
    and "pmm_inv (snd (pmm_alloc_pages count p))" by auto
qed

lemma pmm_release_frames:
  assumes inv: "pmm_inv p" and "page < total_pages p"
  shows "frames (pmm_release page p) = insert (unat page) (frames p)"
    and "0 < unat page \<Longrightarrow> pmm_inv (pmm_release page p)"
    and "total_pages (pmm_release page p) = total_pages p"
proof -
  have lt: "unat page < unat (total_pages p)" using assms(2) by (simp add: word_less_nat_alt)
  have fr: "frames (p\<lparr>bitmap := bm_clear (bitmap p) (unat page)\<rparr>) = insert (unat page) (frames p)"
    using page_bits.frees_bclear [OF lt] by (simp add: frames_def)
  have mem: "bm_test (bitmap p) (unat page) \<longleftrightarrow> unat page \<notin> frames p"
    using lt by (simp add: frames_def)
  show "frames (pmm_release page p) = insert (unat page) (frames p)"
    using fr mem by (auto simp: pmm_release_def)
  show "0 < unat page \<Longrightarrow> pmm_inv (pmm_release page p)"
    using pmm_inv_give [OF inv fr] mem inv by (simp add: pmm_release_def)
  show "total_pages (pmm_release page p) = total_pages p" by (simp add: pmm_release_def)
qed

lemma pmm_free_loop_frames:
  "pmm_inv p \<Longrightarrow> 0 < page \<Longrightarrow>
     frames (pmm_free_loop k page p)
       = frames p \<union> {unat page..<min (unat page + k) (unat (total_pages p))}
     \<and> pmm_inv (pmm_free_loop k page p) \<and> total_pages (pmm_free_loop k page p) = total_pages p"
proof (induction k arbitrary: page p)
  case 0
  then show ?case by simp
next
  case (Suc k)
  show ?case
  proof (cases "total_pages p \<le> page")
    case True
    then show ?thesis using Suc.prems by (simp add: word_le_nat_alt)
  next
    case False
    then have lt: "page < total_pages p" by simp
    then have next_nz: "page + 1 \<noteq> 0" by (metis word_not_simps(3) add_eq_0_iff2 word_n1_ge leD)
    then have up: "unat (page + 1) = Suc (unat page)"
      using unatSuc [of page] by (simp add: add.commute)
    have pos: "0 < page + 1" using next_nz by (simp add: word_neq_0_conv)
    note r = pmm_release_frames [OF Suc.prems(1) lt]
    have "pmm_inv (pmm_release page p)" using r(2) Suc.prems by (simp add: unat_gt_0 word_neq_0_conv)
    note IH = Suc.IH [OF this pos]
    have "unat page < unat (total_pages p)" using lt by (simp add: word_less_nat_alt)
    then have "insert (unat page) {Suc (unat page)..<min (Suc (unat page + k)) (unat (total_pages p))}
      = {unat page..<min (Suc (unat page + k)) (unat (total_pages p))}" by auto
    then show ?thesis using IH r(1,3) False up by (simp add: Un_insert_left Un_insert_right [symmetric])
  qed
qed

section \<open>Initialisation\<close>

lemma unat_align_down: "unat (align_down x PAGE_SIZE) = unat x div 4096 * 4096"
proof -
  have mask: "4096 - 1 = (mask 12 :: u64)" by (simp add: mask_eq_exp_minus_1)
  have "align_down x PAGE_SIZE = push_bit 12 (drop_bit 12 x)"
    unfolding align_down_def PAGE_SIZE_def mask by (rule bit_word_eqI) (auto simp: bit_simps)
  moreover have "unat (drop_bit 12 x) = unat x div 4096"
    by (simp add: drop_bit_eq_div unat_div)
  moreover have "unat x div 4096 * 4096 < 2 ^ 64"
    using unat64_less [of x] div_times_less_eq_dividend [of "unat x" 4096] by simp
  ultimately show ?thesis
    by (simp add: push_bit_eq_mult unat_word_ariths)
qed

lemma unat_align_up:
  assumes "unat x + 4095 < 2 ^ 64"
  shows "unat (align_up x PAGE_SIZE) = (unat x + 4095) div 4096 * 4096"
proof -
  have "align_up x PAGE_SIZE = align_down (x + 4095) PAGE_SIZE"
    by (simp add: align_up_def align_down_def PAGE_SIZE_def add.commute)
  moreover have "unat (x + 4095) = unat x + 4095"
    using assms by (simp add: unat_word_ariths)
  ultimately show ?thesis by (simp add: unat_align_down)
qed

text \<open>
  The pages that lie wholly inside a memory map entry, and the entries \<open>pmm_init\<close> handles:
  the region does not reach past the address space, and starts inside the managed memory.
\<close>

definition entry_pages :: "mmap_entry \<Rightarrow> nat set" where
  "entry_pages e = (if me_type e = MMAP_USABLE
     then {i. unat (me_base e) \<le> i * 4096 \<and> i * 4096 + 4096 \<le> unat (me_base e) + unat (me_length e)}
     else {})"

definition entry_ok :: "u64 \<Rightarrow> mmap_entry \<Rightarrow> bool" where
  "entry_ok t e \<longleftrightarrow> me_type e = MMAP_USABLE \<longrightarrow>
     unat (me_base e) + unat (me_length e) + 4095 < 2 ^ 64 \<and> unat (me_base e) \<le> unat t * 4096"

definition count_inv :: "pmm_t \<Rightarrow> bool" where
  "count_inv p \<longleftrightarrow> unat (total_pages p) \<le> PMM_MAX_PAGES \<and> unat (free_pages p) = card (frames p)"

lemma page_ceil_le: "(a + 4095) div 4096 \<le> i \<longleftrightarrow> a \<le> i * (4096::nat)"
  using div_less_iff_less_mult [of 4096 "a + 4095" "Suc i"] by (auto simp: less_Suc_eq_le)

lemma less_page_floor: "i < b div 4096 \<longleftrightarrow> i * 4096 + 4096 \<le> (b::nat)"
  using less_eq_div_iff_mult_less_eq [of 4096 "Suc i" b] by (simp add: Suc_le_eq add.commute)

lemma entry_pages_interval:
  "me_type e = MMAP_USABLE \<Longrightarrow> entry_pages e
     = {(unat (me_base e) + 4095) div 4096..<(unat (me_base e) + unat (me_length e)) div 4096}"
  by (auto simp: entry_pages_def page_ceil_le less_page_floor)

lemma frames_bm_clear_range:
  assumes "unat (total_pages p) \<le> PMM_MAX_PAGES" and "unat s + unat c \<le> unat (total_pages p)"
  shows "frames (p\<lparr>bitmap := bm_clear_range s c (bitmap p)\<rparr>) = frames p \<union> {unat s..<unat s + unat c}"
proof -
  have "unat (s + c) = unat s + unat c"
    using assms by (simp add: PMM_MAX_PAGES_def unat_word_ariths)
  then show ?thesis using assms page_bits.frees_clear_range
    by (simp add: frames_def bm_clear_range_def min_def)
qed

lemma count_inv_clear:
  assumes inv: "count_inv p" and le: "unat s + unat c \<le> unat (total_pages p)"
    and disj: "{unat s..<unat s + unat c} \<inter> frames p = {}"
  shows "count_inv (p\<lparr>bitmap := bm_clear_range s c (bitmap p), free_pages := free_pages p + c\<rparr>)"
proof -
  have tot: "unat (total_pages p) \<le> PMM_MAX_PAGES" using inv by (simp add: count_inv_def)
  let ?R = "{unat s..<unat s + unat c}"
  have "card (frames p \<union> ?R) \<le> card {..<unat (total_pages p)}"
    using le by (intro card_mono) (auto simp: frames_def)
  moreover have card: "card (frames p \<union> ?R) = card (frames p) + unat c"
    using disj by (subst card_Un_disjoint) auto
  ultimately have "unat (free_pages p + c) = unat (free_pages p) + unat c"
    using inv tot by (simp add: count_inv_def PMM_MAX_PAGES_def unat_word_ariths)
  then show ?thesis using inv frames_bm_clear_range [OF tot le] card by (simp add: count_inv_def)
qed

lemma run_clipped:
  fixes T s m n :: u64
  assumes "unat s = c" and "unat m = f - c" and "n = (if T < s + m then T - s else m)"
    and "c < f" and "c \<le> unat T"
  shows "f < 2 ^ 64 \<Longrightarrow> unat n = min f (unat T) - c" and "f < 2 ^ 64 \<Longrightarrow> c + unat n \<le> unat T"
proof -
  assume small: "f < 2 ^ 64"
  have "unat (s + m) = f" using assms small by (simp add: unat_word_ariths)
  moreover have "unat (T - s) = unat T - c" using assms by (simp add: unat_sub word_le_nat_alt)
  ultimately show "unat n = min f (unat T) - c" and "c + unat n \<le> unat T"
    using assms by (auto simp: word_less_nat_alt)
qed

lemma pmm_init_entry_frames:
  assumes inv: "count_inv p" and ok: "entry_ok (total_pages p) e"
    and disj: "entry_pages e \<inter> frames p = {}"
  shows "frames (pmm_init_entry e p) = frames p \<union> (entry_pages e \<inter> {..<unat (total_pages p)})
    \<and> count_inv (pmm_init_entry e p) \<and> total_pages (pmm_init_entry e p) = total_pages p"
proof (cases "me_type e = MMAP_USABLE")
  case False
  then show ?thesis using inv by (simp add: pmm_init_entry_def entry_pages_def)
next
  case use: True
  let ?B = "unat (me_base e)" and ?L = "unat (me_length e)" and ?T = "unat (total_pages p)"
  define base where "base = align_up (me_base e) PAGE_SIZE"
  define limit where "limit = align_down (me_base e + me_length e) PAGE_SIZE"
  define n where "n = (if total_pages p < base div PAGE_SIZE + (limit - base) div PAGE_SIZE
    then total_pages p - base div PAGE_SIZE else (limit - base) div PAGE_SIZE)"
  define c where "c = (?B + 4095) div 4096"
  define f where "f = (?B + ?L) div 4096"
  have room: "?B + ?L + 4095 < 2 ^ 64" "?B \<le> ?T * 4096" using ok use by (simp_all add: entry_ok_def)
  have b: "unat base = c * 4096"
    unfolding base_def c_def using room by (intro unat_align_up) simp
  have l: "unat limit = f * 4096"
    unfolding limit_def unat_align_down f_def using room by (simp add: unat_word_ariths)
  have pages: "entry_pages e = {c..<f}" using entry_pages_interval [OF use] by (simp add: c_def f_def)
  have in_mem: "c \<le> ?T" using room(2) by (simp add: page_ceil_le c_def)
  have tot: "?T \<le> PMM_MAX_PAGES" using inv by (simp add: count_inv_def)
  show ?thesis
  proof (cases "limit \<le> base")
    case True
    then have "entry_pages e = {}" using b l pages by (simp add: word_le_nat_alt)
    then show ?thesis using True inv
      by (simp add: pmm_init_entry_def use flip: base_def limit_def)
  next
    case False
    then have lt: "c < f" using b l by (simp add: word_le_nat_alt)
    have start: "unat (base div PAGE_SIZE) = c" using b by simp
    have "unat (limit - base) = (f - c) * 4096"
      using False b l by (simp add: unat_sub diff_mult_distrib)
    then have cnt: "unat ((limit - base) div PAGE_SIZE) = f - c" by simp
    have "f < 2 ^ 64" using unat64_less [of limit] l by linarith
    note clip = run_clipped [OF start cnt n_def lt in_mem this]
    have "c + unat n = min f ?T" using clip(1) lt in_mem by simp
    moreover have "{c..<min f ?T} = {c..<f} \<inter> {..<?T}" by auto
    ultimately have range: "{c..<c + unat n} = entry_pages e \<inter> {..<?T}" by (simp only: pages)
    have step: "pmm_init_entry e p = p\<lparr>bitmap := bm_clear_range (base div PAGE_SIZE) n (bitmap p),
        free_pages := free_pages p + n\<rparr>"
      using False by (simp add: pmm_init_entry_def use Let_def n_def flip: base_def limit_def)
    have "count_inv (pmm_init_entry e p)"
      unfolding step using clip(2) range disj start by (intro count_inv_clear [OF inv]) auto
    then show ?thesis using frames_bm_clear_range [OF tot, of "base div PAGE_SIZE" n] clip(2) range start step
      by simp
  qed
qed

lemma pmm_init_start_props:
  "frames (pmm_init_start bi) = {}" "count_inv (pmm_init_start bi)"
  by (simp_all add: frames_def count_inv_def pmm_init_start_def bm_test_bit Let_def
      word_less_nat_alt PMM_MAX_PAGES_def)

lemma pmm_init_entries_frames:
  assumes inv: "count_inv p" and none: "frames p = {}"
    and ok: "\<And>i. i < n \<Longrightarrow> entry_ok (total_pages p) (E i)"
    and disj: "\<And>i j. i < n \<Longrightarrow> j < n \<Longrightarrow> i \<noteq> j \<Longrightarrow> entry_pages (E i) \<inter> entry_pages (E j) = {}"
  shows "frames (fold (\<lambda>i. pmm_init_entry (E i)) [0..<n] p)
      = (\<Union>i<n. entry_pages (E i)) \<inter> {..<unat (total_pages p)}
    \<and> count_inv (fold (\<lambda>i. pmm_init_entry (E i)) [0..<n] p)
    \<and> total_pages (fold (\<lambda>i. pmm_init_entry (E i)) [0..<n] p) = total_pages p"
  using ok disj
proof (induction n)
  case 0
  then show ?case using inv none by simp
next
  case (Suc n)
  let ?q = "fold (\<lambda>i. pmm_init_entry (E i)) [0..<n] p"
  have IH: "frames ?q = (\<Union>i<n. entry_pages (E i)) \<inter> {..<unat (total_pages p)}"
    "count_inv ?q" "total_pages ?q = total_pages p"
    using Suc by simp_all
  have "entry_pages (E n) \<inter> entry_pages (E i) = {}" if "i < n" for i
    using Suc.prems(2) [of n i] that by simp
  then have "entry_pages (E n) \<inter> frames ?q = {}" unfolding IH(1) by blast
  moreover have "entry_ok (total_pages ?q) (E n)" using Suc.prems(1) IH(3) by simp
  ultimately show ?case
    using pmm_init_entry_frames [OF IH(2), of "E n"] IH by (simp add: lessThan_Suc Int_Un_distrib2 Un_commute)
qed

lemma pmm_reserve_frames:
  assumes inv: "count_inv p" and lt: "i < unat (total_pages p)"
  shows "frames (pmm_reserve i p) = frames p - {i} \<and> count_inv (pmm_reserve i p)
    \<and> total_pages (pmm_reserve i p) = total_pages p"
proof (cases "i \<in> frames p")
  case False
  then show ?thesis using inv lt by (simp add: pmm_reserve_def frames_def)
next
  case True
  then have "card (frames p) \<noteq> 0" by auto
  then have "free_pages p \<noteq> 0" using inv by (auto simp: count_inv_def)
  then have "unat (free_pages p - 1) = card (frames p) - 1"
    using inv by (simp add: count_inv_def unat_minus_one)
  moreover have "\<not> bm_test (bitmap p) i" using True by (simp add: frames_def)
  ultimately show ?thesis
    using inv True by (simp add: pmm_reserve_def count_inv_def frames_bm_set card_Diff_singleton)
qed

lemma pmm_reserve_range_frames:
  assumes "count_inv p" and "b \<le> unat (total_pages p)"
  shows "frames (fold pmm_reserve [a..<b] p) = frames p - {a..<b}
    \<and> count_inv (fold pmm_reserve [a..<b] p)
    \<and> total_pages (fold pmm_reserve [a..<b] p) = total_pages p"
  using assms(2)
proof (induction b)
  case 0
  then show ?case using assms(1) by simp
next
  case (Suc b)
  then have IH: "frames (fold pmm_reserve [a..<b] p) = frames p - {a..<b}"
    "count_inv (fold pmm_reserve [a..<b] p)"
    "total_pages (fold pmm_reserve [a..<b] p) = total_pages p" by simp_all
  show ?case
  proof (cases "a \<le> b")
    case True
    then have "frames p - {a..<Suc b} = frames p - {a..<b} - {b}" by auto
    then show ?thesis using pmm_reserve_frames [OF IH(2), of b] IH Suc.prems True by simp
  next
    case False
    then show ?thesis using assms(1) by simp
  qed
qed

text \<open>The memory maps \<open>pmm_init\<close> handles correctly.\<close>

definition boot_ok :: "boot_info \<Rightarrow> bool" where
  "boot_ok bi \<longleftrightarrow> unat (mmap_count bi) \<le> 256
     \<and> (\<forall>i < unat (mmap_count bi). entry_ok (total_pages (pmm_init_start bi)) (mmap_entries bi i))
     \<and> (\<forall>i < unat (mmap_count bi). \<forall>j < unat (mmap_count bi). i \<noteq> j \<longrightarrow>
          entry_pages (mmap_entries bi i) \<inter> entry_pages (mmap_entries bi j) = {})
     \<and> unat (kernel_size bi) + 4095 < 2 ^ 64 \<and> 4096 dvd unat (kernel_phys_base bi)"

lemma kernel_range:
  fixes kb ks :: u64
  assumes "unat ks + 4095 < 2 ^ 64" and "4096 dvd unat kb"
  shows "unat (kb div PAGE_SIZE) \<le> i \<and> i < unat (kb div PAGE_SIZE + align_up ks PAGE_SIZE div PAGE_SIZE)
    \<longleftrightarrow> unat kb < i * 4096 + 4096 \<and> i * 4096 < unat kb + unat ks"
proof -
  define c where "c = (unat ks + 4095) div 4096"
  obtain q where q: "unat kb = 4096 * q" using assms(2) by (auto elim: dvdE)
  have kq: "unat (kb div PAGE_SIZE) = q" using q by simp
  have kc: "unat (align_up ks PAGE_SIZE div PAGE_SIZE) = c"
    using unat_align_up [OF assms(1)] by (simp add: c_def)
  have bounds: "q < 2 ^ 63" "c < 2 ^ 63"
    using q unat64_less [of kb] assms(1) by (simp_all add: c_def div_less_iff_less_mult)
  then have "unat (kb div PAGE_SIZE + align_up ks PAGE_SIZE div PAGE_SIZE) = q + c"
    using kq kc by (simp add: unat_word_ariths)
  moreover have "i < q + c \<longleftrightarrow> i * 4096 < 4096 * q + unat ks" if "q \<le> i"
  proof -
    have "c \<le> i - q \<longleftrightarrow> unat ks \<le> (i - q) * 4096" by (simp add: c_def page_ceil_le)
    then show ?thesis using that by (auto simp: diff_mult_distrib)
  qed
  ultimately show ?thesis using kq q by auto
qed

lemma pmm_init_frames:
  assumes ok: "boot_ok bi"
  shows "pmm_inv (pmm_init bi)"
    and "total_pages (pmm_init bi) = total_pages (pmm_init_start bi)"
    and "frames (pmm_init bi) = {i. i < unat (total_pages (pmm_init_start bi)) \<and> 256 \<le> i
       \<and> \<not> (unat (kernel_phys_base bi) < i * 4096 + 4096
            \<and> i * 4096 < unat (kernel_phys_base bi) + unat (kernel_size bi))
       \<and> (\<exists>j < unat (mmap_count bi). i \<in> entry_pages (mmap_entries bi j))}"
proof -
  let ?n = "unat (mmap_count bi)" and ?E = "mmap_entries bi"
  let ?T = "unat (total_pages (pmm_init_start bi))"
  let ?ks = "kernel_phys_base bi div PAGE_SIZE"
  let ?ke = "?ks + align_up (kernel_size bi) PAGE_SIZE div PAGE_SIZE"
  define p1 where "p1 = fold (\<lambda>i. pmm_init_entry (?E i)) [0..<?n] (pmm_init_start bi)"
  define p2 where "p2 = fold pmm_reserve [unat ?ks..<min (unat ?ke) (unat (total_pages p1))] p1"
  have low: "unat (1024 * 1024 div PAGE_SIZE) = 256" by (simp add: PAGE_SIZE_def)
  have init: "pmm_init bi = fold pmm_reserve [0..<min 256 (unat (total_pages p2))] p2"
    by (simp only: pmm_init_def p1_def p2_def Let_def low)
  have 1: "frames p1 = (\<Union>i<?n. entry_pages (?E i)) \<inter> {..<?T}" "count_inv p1"
    "total_pages p1 = total_pages (pmm_init_start bi)"
    using pmm_init_entries_frames [OF pmm_init_start_props(2,1), of ?n bi ?E] ok
    unfolding p1_def boot_ok_def by blast+
  have 2: "frames p2 = frames p1 - {unat ?ks..<min (unat ?ke) ?T}" "count_inv p2"
    "total_pages p2 = total_pages (pmm_init_start bi)"
    using pmm_reserve_range_frames [OF 1(2)] unfolding p2_def by (simp_all add: 1(3))
  have 3: "frames (pmm_init bi) = frames p2 - {0..<min 256 ?T}" "count_inv (pmm_init bi)"
    "total_pages (pmm_init bi) = total_pages (pmm_init_start bi)"
    using pmm_reserve_range_frames [OF 2(2)] unfolding init by (simp_all add: 2(3))
  show "total_pages (pmm_init bi) = total_pages (pmm_init_start bi)" by (fact 3)
  show fr: "frames (pmm_init bi) = {i. i < ?T \<and> 256 \<le> i
       \<and> \<not> (unat (kernel_phys_base bi) < i * 4096 + 4096
            \<and> i * 4096 < unat (kernel_phys_base bi) + unat (kernel_size bi))
       \<and> (\<exists>j < ?n. i \<in> entry_pages (?E j))}"
    using ok unfolding 3(1) 2(1) 1(1) boot_ok_def
    by (auto simp: kernel_range [symmetric] simp del: unat_div_page)
  show "pmm_inv (pmm_init bi)" using 3(2) fr by (simp add: pmm_inv_def count_inv_def)
qed

section \<open>The interface to the slab allocator\<close>

text \<open>
  What a client of the page allocator relies on: a non-zero answer is the address of a run of
  frames that were free and are not free any more; a zero answer changes nothing.
\<close>

locale frame_source =
  fixes src_inv :: "'p \<Rightarrow> bool"
    and avail :: "'p \<Rightarrow> nat set"
    and grab :: "u64 \<Rightarrow> 'p \<Rightarrow> u64 \<times> 'p"
  assumes grab_inv: "src_inv p \<Longrightarrow> n \<noteq> 0 \<Longrightarrow> src_inv (snd (grab n p))"
    and grab_fail: "src_inv p \<Longrightarrow> n \<noteq> 0 \<Longrightarrow> grab n p = (0, p') \<Longrightarrow> p' = p"
    and grab_run: "src_inv p \<Longrightarrow> n \<noteq> 0 \<Longrightarrow> grab n p = (a, p') \<Longrightarrow> a \<noteq> 0 \<Longrightarrow>
      \<exists>s. unat a = s * 4096 \<and> s + unat n \<le> PMM_MAX_PAGES
        \<and> {s..<s + unat n} \<subseteq> avail p \<and> avail p' = avail p - {s..<s + unat n}"
begin

text \<open>The frames of a run at address \<open>a\<close>.\<close>

definition run_frames :: "u64 \<Rightarrow> u64 \<Rightarrow> nat set" where
  "run_frames a n = {unat a div 4096..<unat a div 4096 + unat n}"

lemma grab_frames:
  assumes "src_inv p" and "n \<noteq> 0" and "grab n p = (a, p')" and "a \<noteq> 0"
  shows "run_frames a n \<subseteq> avail p" and "avail p' = avail p - run_frames a n"
    and "4096 dvd unat a" and "unat a + unat n * 4096 \<le> 2 ^ 32" and "src_inv p'"
  using grab_run [OF assms] grab_inv [OF assms(1,2)] assms(3)
  by (auto simp: run_frames_def PMM_MAX_PAGES_def)

lemma grab_subset:
  assumes "src_inv p" and "n \<noteq> 0"
  shows "avail (snd (grab n p)) \<subseteq> avail p"
proof (cases "fst (grab n p) = 0")
  case True
  then show ?thesis using grab_fail [OF assms, of "snd (grab n p)"] by (metis order_refl prod.collapse)
next
  case False
  then show ?thesis using grab_frames(2) [OF assms, of "fst (grab n p)" "snd (grab n p)"] by simp
qed

text \<open>Two runs taken one after the other do not overlap, whatever was taken in between.\<close>

lemma grabs_disjoint:
  assumes p: "src_inv p" and n: "n \<noteq> 0" "grab n p = (a, p')" "a \<noteq> 0"
    and q: "src_inv q" "avail q \<subseteq> avail p'" and m: "m \<noteq> 0" "grab m q = (b, q')" "b \<noteq> 0"
  shows "run_frames a n \<inter> run_frames b m = {}"
  using grab_frames(2) [OF p n] grab_frames(1) [OF q(1) m] q(2) by blast

end

lemma alloc_outcomeD:
  assumes inv: "pmm_inv p" and out: "alloc_outcome n p (a, p')" and n: "0 < n"
  shows "a = 0 \<longleftrightarrow> (\<forall>s. \<not> run_fits (bitmap p) (unat (total_pages p)) n s)"
    and "a = 0 \<Longrightarrow> p' = p"
    and "a \<noteq> 0 \<Longrightarrow> run_fits (bitmap p) (unat (total_pages p)) n (unat a div 4096)
      \<and> (\<forall>s < unat a div 4096. \<not> run_fits (bitmap p) (unat (total_pages p)) n s)
      \<and> unat a = unat a div 4096 * 4096
      \<and> frames p' = frames p - {unat a div 4096..<unat a div 4096 + n} \<and> total_pages p' = total_pages p"
proof -
  let ?F = "run_fits (bitmap p) (unat (total_pages p)) n"
  have lt: "?F s \<Longrightarrow> s < unat (total_pages p)" for s using n by (simp add: run_fits_def)
  have fits: "?F s \<Longrightarrow> s \<in> frames p" for s using n by (auto simp: frames_run_fits)
  have both: "(if a = 0 then p' = p \<and> (\<forall>s. \<not> ?F s)
     else ?F (unat a div 4096) \<and> (\<forall>s < unat a div 4096. \<not> ?F s) \<and> unat a = unat a div 4096 * 4096
      \<and> frames p' = frames p - {unat a div 4096..<unat a div 4096 + n} \<and> total_pages p' = total_pages p)"
  proof (cases "scan ?F 0 (unat (total_pages p))")
    case None
    then have "a = 0" "p' = p" using out by (simp_all add: alloc_outcome_def)
    moreover have "\<not> ?F s" for s using None lt [of s] by (auto simp: scan_None_iff)
    ultimately show ?thesis by simp
  next
    case (Some s)
    have "s \<noteq> 0" using fits [OF scan_SomeD(3) [OF Some]] pmm_invD(3) [OF inv] by metis
    then have "a \<noteq> 0" "unat a = s * 4096" using Some out by (auto simp: alloc_outcome_def)
    then show ?thesis using Some out scan_SomeD [OF Some] by (simp add: alloc_outcome_def)
  qed
  then show "a = 0 \<longleftrightarrow> (\<forall>s. \<not> ?F s)" and "a = 0 \<Longrightarrow> p' = p"
    and "a \<noteq> 0 \<Longrightarrow> ?F (unat a div 4096) \<and> (\<forall>s < unat a div 4096. \<not> ?F s)
      \<and> unat a = unat a div 4096 * 4096
      \<and> frames p' = frames p - {unat a div 4096..<unat a div 4096 + n} \<and> total_pages p' = total_pages p"
    by (auto split: if_splits)
qed

interpretation pages: frame_source pmm_inv frames pmm_alloc_pages
proof
  fix p p' :: pmm_t and n a :: u64
  assume inv: "pmm_inv p" and n: "n \<noteq> 0"
  note out = pmm_alloc_pages_outcome [OF inv n]
  have pos: "0 < unat n" using n by (simp add: unat_gt_0)
  show "pmm_inv (snd (pmm_alloc_pages n p))" by (fact out(2))
  show "p' = p" if "pmm_alloc_pages n p = (0, p')"
    using alloc_outcomeD(2) [OF inv _ pos, of 0 p'] out(1) that by simp
  show "\<exists>s. unat a = s * 4096 \<and> s + unat n \<le> PMM_MAX_PAGES
        \<and> {s..<s + unat n} \<subseteq> frames p \<and> frames p' = frames p - {s..<s + unat n}"
    if "pmm_alloc_pages n p = (a, p')" "a \<noteq> 0"
    using alloc_outcomeD(3) [OF inv _ pos, of a p'] out(1) that pmm_invD(1) [OF inv]
    by (intro exI [of _ "unat a div 4096"]) (auto simp: frames_run_fits)
qed

section \<open>Properties\<close>

text \<open>A machine with four frames, the first one reserved.\<close>

definition pmm_demo :: pmm_t where
  "pmm_demo = \<lparr>bitmap = (\<lambda>_. 1), total_pages = 4, free_pages = 3\<rparr>"

lemma pmm_demo_frames: "frames pmm_demo = {1, 2, 3}"
  by code_simp

lemma pmm_demo_inv: "pmm_inv pmm_demo"
  using pmm_demo_frames by (simp add: pmm_inv_def pmm_demo_def PMM_MAX_PAGES_def)

lemma pmm_alloc_free:
  assumes "pmm_inv p" and "count \<noteq> 0" and "pmm_alloc_pages count p = (a, p')" and "a \<noteq> 0"
  shows "frames (pmm_free_pages a count p') = frames p
    \<and> pmm_get_free_pages (pmm_free_pages a count p') = pmm_get_free_pages p
    \<and> pmm_inv (pmm_free_pages a count p')"
proof -
  have pos: "0 < unat count" using assms(2) by (simp add: unat_gt_0)
  have out: "alloc_outcome (unat count) p (a, p')"
    using pmm_alloc_pages_outcome(1) [OF assms(1,2)] assms(3) by simp
  have inv': "pmm_inv p'" using pmm_alloc_pages_outcome(2) [OF assms(1,2)] assms(3) by simp
  let ?s = "unat a div 4096"
  note D = alloc_outcomeD(3) [OF assms(1) out pos assms(4)]
  have sub: "?s + unat count \<le> unat (total_pages p)" "{?s..<?s + unat count} \<subseteq> frames p"
    using D by (simp_all add: frames_run_fits)
  have "?s \<in> frames p" using sub(2) pos by auto
  then have "0 < a div PAGE_SIZE"
    using pmm_invD(3) [OF assms(1)] by (metis unat_div_page unat_0 word_neq_0_conv)
  note F = pmm_free_loop_frames [OF inv' this, of "unat count"]
  have fr: "frames (pmm_free_pages a count p') = frames p"
    using F D sub by (auto simp: pmm_free_pages_def)
  moreover have inv2: "pmm_inv (pmm_free_pages a count p')" using F by (simp add: pmm_free_pages_def)
  moreover have "unat (free_pages (pmm_free_pages a count p')) = unat (free_pages p)"
    using pmm_invD(2) [OF inv2] pmm_invD(2) [OF assms(1)] fr by simp
  ultimately show ?thesis by (simp add: pmm_get_free_pages_def word_unat_eq_iff)
qed

lemma run_fits_frames:
  assumes "0 < n"
  shows "run_fits (bitmap p) (unat (total_pages p)) n s \<longleftrightarrow> {s..<s + n} \<subseteq> frames p"
proof
  assume sub: "{s..<s + n} \<subseteq> frames p"
  then have "s + n - 1 \<in> frames p" using assms by auto
  then show "run_fits (bitmap p) (unat (total_pages p)) n s"
    using sub assms by (auto simp: frames_run_fits frames_def)
qed (simp add: frames_run_fits)

lemma pmm_searches:
  assumes "unat (total_pages p) \<le> PMM_MAX_PAGES" and "count \<noteq> 0"
  shows "bm_find_first_free p = scan (\<lambda>i. \<not> bm_test (bitmap p) i) 0 (unat (total_pages p))
    \<and> bm_find_free p from count
      = scan (\<lambda>s. s + unat count \<le> unat (total_pages p)
               \<and> (\<forall>k \<in> {s..<s + unat count}. \<not> bm_test (bitmap p) k)) from (unat (total_pages p))"
  using bm_find_first_free_scan [OF assms(1)] bm_find_free_scan [OF assms(2)]
  by (auto simp: run_fits_def intro!: scan_cong)

text \<open>C4: \<open>pmm_alloc_pages\<close> is a first-fit allocator. It answers 0, leaving the state alone, exactly
  when no run of \<open>count\<close> free frames exists; otherwise it returns the page-aligned address of the
  lowest such run and takes exactly that run out of the free frames. The counter of free frames
  stays exact, and the reserved frame 0 is never handed out. Releasing the run with \<open>pmm_free_pages\<close>
  restores the free frames and their count. The searches behind it are those of a reference: the word-wise
  \<open>bm_find_first_free\<close>, which skips full words and uses the number of trailing zeros, finds the same page as looking
  at the pages one by one, and \<open>bm_find_free\<close> returns the lowest start of a run of free pages.\<close>

theorem pmm_alloc_first_fit:
  assumes "pmm_inv p" and "count \<noteq> 0" and "pmm_alloc_pages count p = (a, p')"
  shows "pmm_inv p' \<and>
    (if a = 0 then p' = p \<and> (\<forall>s. \<not> (s + unat count \<le> unat (total_pages p) \<and> {s..<s + unat count} \<subseteq> frames p))
     else (\<exists>s. unat a = s * 4096 \<and> {s..<s + unat count} \<subseteq> frames p
            \<and> frames p' = frames p - {s..<s + unat count}
            \<and> (\<forall>r < s. \<not> {r..<r + unat count} \<subseteq> frames p))
        \<and> frames (pmm_free_pages a count p') = frames p
        \<and> pmm_get_free_pages (pmm_free_pages a count p') = pmm_get_free_pages p
        \<and> pmm_inv (pmm_free_pages a count p'))
    \<and> bm_find_first_free p = scan (\<lambda>i. \<not> bm_test (bitmap p) i) 0 (unat (total_pages p))
    \<and> bm_find_free p start count
      = scan (\<lambda>s. s + unat count \<le> unat (total_pages p)
               \<and> (\<forall>k \<in> {s..<s + unat count}. \<not> bm_test (bitmap p) k)) start (unat (total_pages p))"
proof -
  have "unat (total_pages p) \<le> PMM_MAX_PAGES" using assms(1) by (simp add: pmm_inv_def)
  note search = pmm_searches [OF this assms(2), of start]
  have pos: "0 < unat count" using assms(2) by (simp add: unat_gt_0)
  have out: "alloc_outcome (unat count) p (a, p')" using pmm_alloc_pages_outcome(1) [OF assms(1,2)] assms(3) by simp
  note D = alloc_outcomeD [OF assms(1) out pos]
  have inv': "pmm_inv p'" using pmm_alloc_pages_outcome(2) [OF assms(1,2)] assms(3) by simp
  show ?thesis
  proof (cases "a = 0")
    case True
    then show ?thesis using D(1,2) inv' search by (simp add: run_fits_frames [OF pos])
  next
    case False
    have "\<exists>s. unat a = s * 4096 \<and> {s..<s + unat count} \<subseteq> frames p \<and> frames p' = frames p - {s..<s + unat count}
        \<and> (\<forall>r < s. \<not> {r..<r + unat count} \<subseteq> frames p)"
      using D(3) [OF False] by (auto simp: run_fits_frames [OF pos] intro!: exI [of _ "unat a div 4096"])
    then show ?thesis using False inv' pmm_alloc_free [OF assms False] search by simp
  qed
qed

theorem pmm_alloc_first_fit_witness:
  "fst (pmm_alloc_pages 2 pmm_demo) = 4096 \<and> pmm_inv (snd (pmm_alloc_pages 2 pmm_demo))
   \<and> frames (pmm_free_pages 4096 2 (snd (pmm_alloc_pages 2 pmm_demo))) = {1, 2, 3}
   \<and> bm_find_first_free pmm_demo = Some 1"
proof -
  have "fst (pmm_alloc_pages 2 pmm_demo) = 4096"
    by (simp add: pmm_alloc_pages_def bm_find_free_def pmm_demo_def bm_find_free_loop.simps
        bm_test_bit bit_1_iff PAGE_SIZE_def)
  moreover have scan_demo: "scan (\<lambda>i. \<not> bm_test (bitmap pmm_demo) i) 0 (unat (total_pages pmm_demo)) = Some 1"
    by (simp add: pmm_demo_def bm_test_bit bit_1_iff scan.simps)
  ultimately show ?thesis
    using pmm_alloc_first_fit [of pmm_demo 2 4096 "snd (pmm_alloc_pages 2 pmm_demo)" 0]
      pmm_demo_inv pmm_demo_frames scan_demo by (simp add: prod_eq_iff)
qed

text \<open>C5: For a memory map whose usable regions are disjoint, do not wrap around and start inside the
  managed memory, \<open>pmm_init\<close> frees exactly the pages that lie wholly inside a usable region, above
  the first megabyte and outside the kernel image, and counts them correctly.\<close>

theorem pmm_init_correct:
  assumes "boot_ok bi"
  shows "pmm_inv (pmm_init bi) \<and>
    frames (pmm_init bi) = {i. i < unat (total_pages (pmm_init bi)) \<and> 256 \<le> i
       \<and> \<not> (unat (kernel_phys_base bi) < i * 4096 + 4096
            \<and> i * 4096 < unat (kernel_phys_base bi) + unat (kernel_size bi))
       \<and> (\<exists>j < unat (mmap_count bi). i \<in> entry_pages (mmap_entries bi j))}"
  using pmm_init_frames [OF assms] by simp

definition boot_demo :: boot_info where
  "boot_demo = \<lparr>mmap_entries = (\<lambda>_. \<lparr>me_base = 0x100000, me_length = 0xF00000, me_type = 0\<rparr>),
     mmap_count = 1, kernel_phys_base = 0x200000, kernel_size = 0x12345, total_memory = 0x1000000\<rparr>"

theorem pmm_init_correct_witness:
  "boot_ok boot_demo \<and> pmm_inv (pmm_init boot_demo)"
proof -
  have "boot_ok boot_demo"
    by (simp add: boot_ok_def boot_demo_def entry_ok_def pmm_init_start_def PAGE_SIZE_def
        PMM_MAX_PAGES_def Let_def)
  then show ?thesis using pmm_init_correct [of boot_demo] by simp
qed

end
