(* ===== verification/Slab.thy ===== *)
theory Slab
  imports Pmm
begin

text \<open>
  The kernel heap, \<open>kernel/mm/slab.c\<close>: twelve caches of objects of 32 to 65536 bytes over the page
  allocator. Slab descriptors are indexes into the static \<open>slab_pool\<close>; the singly linked lists
  \<open>partial\<close> and \<open>full\<close> of a cache are lists of such indexes, head first. The state also holds the
  page allocator and the byte memory, since \<open>kcalloc\<close> and \<open>krealloc\<close> clear and copy objects.
  A pointer is a 64-bit word and NULL is 0.
\<close>

unbundle bit_operations_syntax

section \<open>State\<close>

definition SLAB_NUM_CACHES :: nat where "SLAB_NUM_CACHES = 12"
definition SLAB_POOL_SIZE :: u32 where "SLAB_POOL_SIZE = 512"
abbreviation SLAB_MAX_OBJECTS :: u32 where "SLAB_MAX_OBJECTS \<equiv> 128"

definition PHYS_MAP_BASE :: u64 where "PHYS_MAP_BASE = 0xFFFF800000000000"

definition PHYS_TO_VIRT :: "u64 \<Rightarrow> u64" where "PHYS_TO_VIRT paddr = paddr + PHYS_MAP_BASE"

definition cache_sizes :: "u64 list" where
  "cache_sizes = [32, 64, 128, 256, 512, 1024, 2048, 4096, 8192, 16384, 32768, 65536]"

record slab_t =
  base :: u64
  phys :: u64
  total_obj :: u32
  free_count :: u32
  s_bitmap :: "nat \<Rightarrow> u64"
  s_cache :: nat

record slab_cache =
  obj_size :: u64
  pages_per_slab :: u32
  obj_per_slab :: u32
  partial :: "nat list"
  full :: "nat list"

record heap =
  caches :: "nat \<Rightarrow> slab_cache"
  slab_pool :: "nat \<Rightarrow> slab_t"
  slab_pool_next :: u32
  h_pmm :: pmm_t
  h_mem :: "u64 \<Rightarrow> u8"

section \<open>Helpers\<close>

definition kmemcpy :: "u64 \<Rightarrow> u64 \<Rightarrow> nat \<Rightarrow> (u64 \<Rightarrow> u8) \<Rightarrow> u64 \<Rightarrow> u8" where
  "kmemcpy dst src n m = fold (\<lambda>i m. m(dst + of_nat i := m (src + of_nat i))) [0..<n] m"

definition kmemset :: "u64 \<Rightarrow> u8 \<Rightarrow> nat \<Rightarrow> (u64 \<Rightarrow> u8) \<Rightarrow> u64 \<Rightarrow> u8" where
  "kmemset dst val n m = fold (\<lambda>i m. m(dst + of_nat i := val)) [0..<n] m"

definition slab_bm_set :: "slab_t \<Rightarrow> nat \<Rightarrow> slab_t" where
  "slab_bm_set s idx = s\<lparr>s_bitmap := (s_bitmap s)(idx div 64 := s_bitmap s (idx div 64) OR bit_mask (idx mod 64))\<rparr>"

definition slab_bm_clear :: "slab_t \<Rightarrow> nat \<Rightarrow> slab_t" where
  "slab_bm_clear s idx = s\<lparr>s_bitmap := (s_bitmap s)(idx div 64 := s_bitmap s (idx div 64) AND NOT (bit_mask (idx mod 64)))\<rparr>"

definition slab_bm_test :: "slab_t \<Rightarrow> nat \<Rightarrow> bool" where
  "slab_bm_test s idx \<longleftrightarrow> drop_bit (idx mod 64) (s_bitmap s (idx div 64)) AND 1 \<noteq> 0"

text \<open>
  The search for a free object is the word-wise loop of \<open>bm_find_first_free\<close> over the two words of
  the slab; \<open>None\<close> is \<open>UINT32_MAX\<close>.
\<close>

definition slab_bm_find_free :: "slab_t \<Rightarrow> nat option" where
  "slab_bm_find_free s =
     first_free_loop (s_bitmap s) (unat (total_obj s)) (unat ((total_obj s + 63) div 64)) 0"

section \<open>Slabs and caches\<close>

definition slab_pool_alloc :: "heap \<Rightarrow> nat option \<times> heap" where
  "slab_pool_alloc h =
     (if slab_pool_next h < SLAB_POOL_SIZE
      then (Some (unat (slab_pool_next h)), h\<lparr>slab_pool_next := slab_pool_next h + 1\<rparr>)
      else (None, h))"

definition slab_create :: "nat \<Rightarrow> heap \<Rightarrow> nat option \<times> heap" where
  "slab_create c h =
     (case slab_pool_alloc h of
        (None, h) \<Rightarrow> (None, h)
      | (Some s, h) \<Rightarrow>
          let cache = caches h c;
              (pa, pm) = pmm_alloc_pages (ucast (pages_per_slab cache)) (h_pmm h);
              h = h\<lparr>h_pmm := pm, slab_pool := (slab_pool h)(s := (slab_pool h s)\<lparr>phys := pa\<rparr>)\<rparr>
          in if pa = 0 then (None, h) else
          let b = PHYS_TO_VIRT pa
          in (Some s, h\<lparr>
                slab_pool := (slab_pool h)(s := \<lparr>base = b, phys = pa, total_obj = obj_per_slab cache,
                  free_count = obj_per_slab cache, s_bitmap = (\<lambda>_. 0), s_cache = c\<rparr>),
                h_mem := kmemset b 0 (unat (ucast (pages_per_slab cache) * PAGE_SIZE)) (h_mem h)\<rparr>))"

definition set_partial :: "nat \<Rightarrow> nat list \<Rightarrow> heap \<Rightarrow> heap" where
  "set_partial c l h = h\<lparr>caches := (caches h)(c := (caches h c)\<lparr>partial := l\<rparr>)\<rparr>"

definition set_full :: "nat \<Rightarrow> nat list \<Rightarrow> heap \<Rightarrow> heap" where
  "set_full c l h = h\<lparr>caches := (caches h)(c := (caches h c)\<lparr>full := l\<rparr>)\<rparr>"

definition set_slab :: "nat \<Rightarrow> slab_t \<Rightarrow> heap \<Rightarrow> heap" where
  "set_slab s sl h = h\<lparr>slab_pool := (slab_pool h)(s := sl)\<rparr>"

text \<open>\<open>slab_list_remove\<close> unlinks the first occurrence of a slab.\<close>

primrec slab_list_remove :: "nat list \<Rightarrow> nat \<Rightarrow> nat list" where
  "slab_list_remove [] t = []"
| "slab_list_remove (s # l) t = (if s = t then l else s # slab_list_remove l t)"

text \<open>The second half of \<open>cache_alloc\<close>, for the slab at the head of the partial list.\<close>

definition cache_take :: "nat \<Rightarrow> nat \<Rightarrow> heap \<Rightarrow> u64 \<times> heap" where
  "cache_take c s h =
     (case slab_bm_find_free (slab_pool h s) of
        None \<Rightarrow> (0, h)
      | Some idx \<Rightarrow>
          let sl = slab_bm_set (slab_pool h s) idx;
              sl = sl\<lparr>free_count := free_count sl - 1\<rparr>;
              obj = base sl + of_nat idx * obj_size (caches h c);
              h = set_slab s sl h
          in if free_count sl = 0
             then let h = set_partial c (slab_list_remove (partial (caches h c)) s) h
                  in (obj, set_full c (s # full (caches h c)) h)
             else (obj, h))"

definition cache_alloc :: "nat \<Rightarrow> heap \<Rightarrow> u64 \<times> heap" where
  "cache_alloc c h =
     (case partial (caches h c) of
        s # _ \<Rightarrow> cache_take c s h
      | [] \<Rightarrow>
          (case slab_create c h of
             (None, h) \<Rightarrow> (0, h)
           | (Some s, h) \<Rightarrow> cache_take c s (set_partial c (s # partial (caches h c)) h)))"

text \<open>The test of \<open>cache_free\<close> and \<open>find_cache_for_ptr\<close> that a slab of a cache contains a pointer.\<close>

definition slab_owns :: "heap \<Rightarrow> nat \<Rightarrow> u64 \<Rightarrow> nat \<Rightarrow> bool" where
  "slab_owns h c p s \<longleftrightarrow> base (slab_pool h s) \<le> p
     \<and> p < base (slab_pool h s) + ucast (pages_per_slab (caches h c)) * PAGE_SIZE"

abbreviation obj_index :: "heap \<Rightarrow> nat \<Rightarrow> u64 \<Rightarrow> nat \<Rightarrow> u32" where
  "obj_index h c p s \<equiv> (ucast (p - base (slab_pool h s)) :: u32) div ucast (obj_size (caches h c))"

definition cache_put :: "nat \<Rightarrow> u64 \<Rightarrow> nat \<Rightarrow> bool \<Rightarrow> heap \<Rightarrow> heap" where
  "cache_put c p s was_full h =
     (let idx = unat (obj_index h c p s)
      in if \<not> slab_bm_test (slab_pool h s) idx then h else
      let sl = slab_bm_clear (slab_pool h s) idx;
          sl = sl\<lparr>free_count := free_count sl + 1\<rparr>;
          h = set_slab s sl h
      in if was_full
         then let h = set_full c (slab_list_remove (full (caches h c)) s) h
              in set_partial c (s # partial (caches h c)) h
         else h)"

definition cache_free :: "nat \<Rightarrow> u64 \<Rightarrow> heap \<Rightarrow> heap" where
  "cache_free c p h =
     (case find (slab_owns h c p) (partial (caches h c)) of
        Some s \<Rightarrow> cache_put c p s False h
      | None \<Rightarrow>
          (case find (slab_owns h c p) (full (caches h c)) of
             Some s \<Rightarrow> cache_put c p s True h
           | None \<Rightarrow> h))"

definition find_cache :: "u64 \<Rightarrow> heap \<Rightarrow> nat option" where
  "find_cache sz h = scan (\<lambda>i. sz \<le> obj_size (caches h i)) 0 SLAB_NUM_CACHES"

text \<open>The cache a pointer belongs to, with the slab and the index in it (both optional in the code).\<close>

definition find_cache_for_ptr :: "u64 \<Rightarrow> heap \<Rightarrow> (nat \<times> nat \<times> u32) option" where
  "find_cache_for_ptr p h =
     (let slab_in = (\<lambda>c. case find (slab_owns h c p) (partial (caches h c)) of
            Some s \<Rightarrow> Some s
          | None \<Rightarrow> find (slab_owns h c p) (full (caches h c)))
      in case scan (\<lambda>c. slab_in c \<noteq> None) 0 SLAB_NUM_CACHES of
           None \<Rightarrow> None
         | Some c \<Rightarrow> (case slab_in c of
               None \<Rightarrow> None
             | Some s \<Rightarrow> Some (c, s, obj_index h c p s)))"

section \<open>Public operations\<close>

definition slab_init_cache :: "nat \<Rightarrow> slab_cache \<Rightarrow> slab_cache" where
  "slab_init_cache i cache =
     (let sz = cache_sizes ! i;
          pages = (if sz \<le> PAGE_SIZE then 1 else ucast ((sz + PAGE_SIZE - 1) div PAGE_SIZE));
          objs = ucast ((ucast pages * PAGE_SIZE) div sz)
      in cache\<lparr>obj_size := sz, pages_per_slab := pages,
           obj_per_slab := (if SLAB_MAX_OBJECTS < objs then SLAB_MAX_OBJECTS else objs),
           partial := [], full := []\<rparr>)"

definition slab_init :: "heap \<Rightarrow> heap" where
  "slab_init h = fold (\<lambda>i h. h\<lparr>caches := (caches h)(i := slab_init_cache i (caches h i))\<rparr>)
     [0..<SLAB_NUM_CACHES] (h\<lparr>slab_pool_next := 0\<rparr>)"

definition kmalloc :: "u64 \<Rightarrow> heap \<Rightarrow> u64 \<times> heap" where
  "kmalloc sz h =
     (if sz = 0 then (0, h) else
      case find_cache sz h of
        None \<Rightarrow> (0, h)
      | Some c \<Rightarrow> cache_alloc c h)"

definition kfree :: "u64 \<Rightarrow> heap \<Rightarrow> heap" where
  "kfree p h =
     (if p = 0 then h else
      case find_cache_for_ptr p h of
        None \<Rightarrow> h
      | Some (c, _, _) \<Rightarrow> cache_free c p h)"

definition krealloc :: "u64 \<Rightarrow> u64 \<Rightarrow> heap \<Rightarrow> u64 \<times> heap" where
  "krealloc p new_size h =
     (if p = 0 then kmalloc new_size h
      else if new_size = 0 then (0, kfree p h)
      else case find_cache_for_ptr p h of
        None \<Rightarrow> (0, h)
      | Some (c, _, _) \<Rightarrow>
          let old_size = obj_size (caches h c)
          in if new_size \<le> old_size then (p, h) else
          case kmalloc new_size h of
            (q, h) \<Rightarrow>
              if q = 0 then (0, h)
              else (q, kfree p (h\<lparr>h_mem := kmemcpy q p (unat old_size) (h_mem h)\<rparr>)))"

definition kcalloc :: "u64 \<Rightarrow> u64 \<Rightarrow> heap \<Rightarrow> u64 \<times> heap" where
  "kcalloc count sz h =
     (let bytes = count * sz
      in if count \<noteq> 0 \<and> bytes div count \<noteq> sz then (0, h) else
      case kmalloc bytes h of
        (p, h) \<Rightarrow> if p \<noteq> 0 then (p, h\<lparr>h_mem := kmemset p 0 (unat bytes) (h_mem h)\<rparr>) else (p, h))"

section \<open>Invariant\<close>

text \<open>The geometry of cache \<open>c\<close>: its objects of \<open>32 * 2 ^ c\<close> bytes fill its slabs exactly.\<close>

definition obj_bytes :: "nat \<Rightarrow> nat" where
  "obj_bytes c = 32 * 2 ^ c"

lemma obj_bytes_pos: "0 < obj_bytes c"
  by (simp add: obj_bytes_def)

definition cfg_ok :: "nat \<Rightarrow> slab_cache \<Rightarrow> bool" where
  "cfg_ok c k \<longleftrightarrow> unat (obj_size k) = obj_bytes c
     \<and> unat (obj_per_slab k) * obj_bytes c = unat (pages_per_slab k) * 4096
     \<and> unat (pages_per_slab k) \<in> {1..16} \<and> unat (obj_per_slab k) \<in> {1..128}"

definition listed :: "heap \<Rightarrow> nat \<Rightarrow> nat set" where
  "listed h c = set (partial (caches h c)) \<union> set (full (caches h c))"

definition slab_frames :: "heap \<Rightarrow> nat \<Rightarrow> nat \<Rightarrow> nat set" where
  "slab_frames h c s = {unat (phys (slab_pool h s)) div 4096
     ..<unat (phys (slab_pool h s)) div 4096 + unat (pages_per_slab (caches h c))}"

definition slab_ok :: "heap \<Rightarrow> nat \<Rightarrow> nat \<Rightarrow> bool" where
  "slab_ok h c s \<longleftrightarrow> (let sl = slab_pool h s in
     total_obj sl = obj_per_slab (caches h c)
     \<and> unat (free_count sl) = card {i. i < unat (total_obj sl) \<and> \<not> slab_bm_test sl i}
     \<and> base sl = PHYS_TO_VIRT (phys sl) \<and> 4096 dvd unat (phys sl)
     \<and> unat (phys sl) + unat (pages_per_slab (caches h c)) * 4096 \<le> 2 ^ 32)"

text \<open>
  Every listed slab is well-formed and its frames are not free; a slab is on the full list exactly
  when it has no free object; and no frame belongs to two slabs.
\<close>

definition slab_inv :: "heap \<Rightarrow> bool" where
  "slab_inv h \<longleftrightarrow> pmm_inv (h_pmm h) \<and> slab_pool_next h \<le> SLAB_POOL_SIZE
     \<and> (\<forall>c < SLAB_NUM_CACHES. cfg_ok c (caches h c)
          \<and> distinct (partial (caches h c)) \<and> distinct (full (caches h c))
          \<and> (\<forall>s \<in> set (partial (caches h c)). free_count (slab_pool h s) \<noteq> 0)
          \<and> (\<forall>s \<in> set (full (caches h c)). free_count (slab_pool h s) = 0)
          \<and> (\<forall>s \<in> listed h c. s < unat (slab_pool_next h) \<and> slab_ok h c s
               \<and> slab_frames h c s \<inter> frames (h_pmm h) = {}))
     \<and> (\<forall>c < SLAB_NUM_CACHES. \<forall>d < SLAB_NUM_CACHES. \<forall>s \<in> listed h c. \<forall>t \<in> listed h d.
          (c, s) \<noteq> (d, t) \<longrightarrow> slab_frames h c s \<inter> slab_frames h d t = {})"

lemma slab_invD:
  assumes "slab_inv h"
  shows "pmm_inv (h_pmm h)" and "slab_pool_next h \<le> SLAB_POOL_SIZE"
    and "\<And>c. c < SLAB_NUM_CACHES \<Longrightarrow> cfg_ok c (caches h c)"
    and "\<And>c. c < SLAB_NUM_CACHES \<Longrightarrow> distinct (partial (caches h c))"
    and "\<And>c. c < SLAB_NUM_CACHES \<Longrightarrow> distinct (full (caches h c))"
    and "\<And>c s. c < SLAB_NUM_CACHES \<Longrightarrow> s \<in> set (partial (caches h c)) \<Longrightarrow> free_count (slab_pool h s) \<noteq> 0"
    and "\<And>c s. c < SLAB_NUM_CACHES \<Longrightarrow> s \<in> set (full (caches h c)) \<Longrightarrow> free_count (slab_pool h s) = 0"
    and "\<And>c s. c < SLAB_NUM_CACHES \<Longrightarrow> s \<in> listed h c \<Longrightarrow> s < unat (slab_pool_next h)"
    and "\<And>c s. c < SLAB_NUM_CACHES \<Longrightarrow> s \<in> listed h c \<Longrightarrow> slab_ok h c s"
    and "\<And>c s. c < SLAB_NUM_CACHES \<Longrightarrow> s \<in> listed h c \<Longrightarrow> slab_frames h c s \<inter> frames (h_pmm h) = {}"
    and "\<And>c d s t. c < SLAB_NUM_CACHES \<Longrightarrow> d < SLAB_NUM_CACHES \<Longrightarrow> s \<in> listed h c \<Longrightarrow> t \<in> listed h d \<Longrightarrow>
          (c, s) \<noteq> (d, t) \<Longrightarrow> slab_frames h c s \<inter> slab_frames h d t = {}"
  using assms by (simp_all add: slab_inv_def)

lemma slab_frames_nonempty:
  "cfg_ok c (caches h c) \<Longrightarrow> unat (phys (slab_pool h s)) div 4096 \<in> slab_frames h c s"
  by (auto simp: cfg_ok_def slab_frames_def)

lemma listed_unique:
  assumes "slab_inv h" and "c < SLAB_NUM_CACHES" and "d < SLAB_NUM_CACHES"
    and "s \<in> listed h c" and "s \<in> listed h d"
  shows "c = d"
  using slab_invD(11) [OF assms(1-5)] slab_frames_nonempty [OF slab_invD(3) [OF assms(1,2)], of s]
    slab_frames_nonempty [OF slab_invD(3) [OF assms(1,3)], of s] by auto

section \<open>Blocks\<close>

text \<open>
  The allocated slots, and the block of memory of a slot: its address and its size. \<open>slot_bytes\<close>
  are the physical bytes behind it.
\<close>

definition slots :: "heap \<Rightarrow> (nat \<times> nat \<times> nat) set" where
  "slots h = {(c, s, i). c < SLAB_NUM_CACHES \<and> s \<in> listed h c
     \<and> i < unat (obj_per_slab (caches h c)) \<and> slab_bm_test (slab_pool h s) i}"

definition block_at :: "heap \<Rightarrow> nat \<times> nat \<times> nat \<Rightarrow> u64 \<times> nat" where
  "block_at h = (\<lambda>(c, s, i).
     (base (slab_pool h s) + of_nat i * obj_size (caches h c), unat (obj_size (caches h c))))"

definition blocks :: "heap \<Rightarrow> (u64 \<times> nat) set" where
  "blocks h = block_at h ` slots h"

definition slot_bytes :: "heap \<Rightarrow> nat \<times> nat \<times> nat \<Rightarrow> nat set" where
  "slot_bytes h = (\<lambda>(c, s, i). {unat (phys (slab_pool h s)) + i * obj_bytes c
     ..<unat (phys (slab_pool h s)) + i * obj_bytes c + obj_bytes c})"

text \<open>A slot of a listed slab, allocated or not.\<close>

definition slot_of :: "heap \<Rightarrow> nat \<times> nat \<times> nat \<Rightarrow> bool" where
  "slot_of h = (\<lambda>(c, s, i). c < SLAB_NUM_CACHES \<and> s \<in> listed h c \<and> i < unat (obj_per_slab (caches h c)))"

lemma slots_slot_of: "x \<in> slots h \<Longrightarrow> slot_of h x"
  by (auto simp: slots_def slot_of_def)

lemma slot_within:
  assumes inv: "slab_inv h" and x: "slot_of h (c, s, i)"
  shows "i * obj_bytes c + obj_bytes c \<le> unat (pages_per_slab (caches h c)) * 4096"
    and "unat (phys (slab_pool h s)) + i * obj_bytes c + obj_bytes c \<le> 2 ^ 32"
proof -
  have c: "c < SLAB_NUM_CACHES" "s \<in> listed h c" and i: "i < unat (obj_per_slab (caches h c))"
    using x by (simp_all add: slot_of_def)
  have "Suc i * obj_bytes c \<le> unat (obj_per_slab (caches h c)) * obj_bytes c"
    using i by (intro mult_le_mono1) simp
  then show le: "i * obj_bytes c + obj_bytes c \<le> unat (pages_per_slab (caches h c)) * 4096"
    using slab_invD(3) [OF inv c(1)] by (simp add: cfg_ok_def)
  show "unat (phys (slab_pool h s)) + i * obj_bytes c + obj_bytes c \<le> 2 ^ 32"
    using le slab_invD(9) [OF inv c] by (simp add: slab_ok_def Let_def)
qed

lemma slot_bytes_frames:
  assumes inv: "slab_inv h" and x: "slot_of h (c, s, i)" and b: "b \<in> slot_bytes h (c, s, i)"
  shows "b div 4096 \<in> slab_frames h c s"
proof -
  have "4096 dvd unat (phys (slab_pool h s))"
    using slab_invD(9) [OF inv, of c s] x by (simp add: slot_of_def slab_ok_def Let_def)
  then obtain k where k: "unat (phys (slab_pool h s)) = 4096 * k" by (auto elim: dvdE)
  have "4096 * k \<le> b" "b < 4096 * k + unat (pages_per_slab (caches h c)) * 4096"
    using b slot_within(1) [OF inv x] k by (auto simp: slot_bytes_def)
  then have "k \<le> b div 4096" "b div 4096 < k + unat (pages_per_slab (caches h c))"
    by (simp_all add: less_eq_div_iff_mult_less_eq div_less_iff_less_mult algebra_simps)
  then show ?thesis using k by (simp add: slab_frames_def)
qed

lemma slot_bytes_disjoint:
  assumes inv: "slab_inv h" and x: "slot_of h x" and y: "slot_of h y" and ne: "x \<noteq> y"
  shows "slot_bytes h x \<inter> slot_bytes h y = {}"
proof -
  obtain c s i d t j where eq: "x = (c, s, i)" "y = (d, t, j)" by (cases x, cases y) auto
  show ?thesis
  proof (cases "(c, s) = (d, t)")
    case True
    then have "i < j \<or> j < i" using ne eq by auto
    then have "Suc i * obj_bytes c \<le> j * obj_bytes c \<or> Suc j * obj_bytes c \<le> i * obj_bytes c"
      by (meson Suc_leI mult_le_mono1)
    then show ?thesis using True eq by (auto simp: slot_bytes_def)
  next
    case False
    then have "slab_frames h c s \<inter> slab_frames h d t = {}"
      using x y eq by (intro slab_invD(11) [OF inv]) (auto simp: slot_of_def)
    then show ?thesis
      using slot_bytes_frames [OF inv] x y eq by (metis Int_iff equals0D equals0I)
  qed
qed

text \<open>Where a block lies in the address space: nothing wraps around.\<close>

lemma slot_addr:
  assumes inv: "slab_inv h" and x: "slot_of h (c, s, i)"
  shows "unat (base (slab_pool h s)) = unat PHYS_MAP_BASE + unat (phys (slab_pool h s))"
    and "unat (of_nat i * obj_size (caches h c)) = i * obj_bytes c"
    and "unat (fst (block_at h (c, s, i))) = unat PHYS_MAP_BASE + unat (phys (slab_pool h s)) + i * obj_bytes c"
    and "snd (block_at h (c, s, i)) = obj_bytes c"
proof -
  have c: "c < SLAB_NUM_CACHES" "s \<in> listed h c" using x by (simp_all add: slot_of_def)
  have cfg: "unat (obj_size (caches h c)) = obj_bytes c"
    using slab_invD(3) [OF inv c(1)] by (simp add: cfg_ok_def)
  have pos: "0 < obj_bytes c" by (simp add: obj_bytes_def)
  note within = slot_within(2) [OF inv x]
  have i: "i * obj_bytes c < 2 ^ 32" using within pos by simp
  then have "i < 2 ^ 32" using pos by (metis Suc_leI le_less_trans mult.right_neutral mult_le_mono2 One_nat_def)
  then have i64: "unat (of_nat i :: u64) = i" by (simp add: unat_of_nat)
  have map: "unat PHYS_MAP_BASE = 0xFFFF800000000000" by (simp add: PHYS_MAP_BASE_def)
  show b: "unat (base (slab_pool h s)) = unat PHYS_MAP_BASE + unat (phys (slab_pool h s))"
    using slab_invD(9) [OF inv c] within map
    by (simp add: slab_ok_def Let_def PHYS_TO_VIRT_def unat_word_ariths)
  show o: "unat (of_nat i * obj_size (caches h c)) = i * obj_bytes c"
    using i i64 cfg by (simp add: unat_word_ariths)
  show "unat (fst (block_at h (c, s, i))) = unat PHYS_MAP_BASE + unat (phys (slab_pool h s)) + i * obj_bytes c"
    using b o within map by (simp add: block_at_def unat_plus_if')
  show "snd (block_at h (c, s, i)) = obj_bytes c" using cfg by (simp add: block_at_def)
qed

definition block_bytes :: "u64 \<times> nat \<Rightarrow> nat set" where
  "block_bytes b = {unat (fst b)..<unat (fst b) + snd b}"

lemma block_bytes_slot:
  assumes "slab_inv h" and "slot_of h x"
  shows "block_bytes (block_at h x) = (\<lambda>b. unat PHYS_MAP_BASE + b) ` slot_bytes h x"
proof -
  obtain c s i where eq: "x = (c, s, i)" by (cases x) auto
  show ?thesis using slot_addr(3,4) [of h c s i] assms
    by (simp add: eq block_bytes_def slot_bytes_def ac_simps)
qed

lemma blocks_disjoint:
  assumes "slab_inv h" and "slot_of h x" and "slot_of h y" and "x \<noteq> y"
  shows "block_bytes (block_at h x) \<inter> block_bytes (block_at h y) = {}"
  using slot_bytes_disjoint [OF assms] assms by (auto simp: block_bytes_slot)

lemma block_bytes_nonempty:
  assumes "slab_inv h" and "slot_of h x"
  shows "unat (fst (block_at h x)) \<in> block_bytes (block_at h x)"
proof -
  obtain c s i where eq: "x = (c, s, i)" by (cases x) auto
  show ?thesis using slot_addr(4) [of h c s i] assms by (simp add: eq block_bytes_def obj_bytes_def)
qed

lemma block_at_inj:
  assumes "slab_inv h" and "slot_of h x" and "slot_of h y" and "block_at h x = block_at h y"
  shows "x = y"
  using blocks_disjoint [OF assms(1-3)] block_bytes_nonempty [OF assms(1,2)] assms(4) by auto

text \<open>The slab and the cache a pointer into a block is traced back to.\<close>

lemma slab_owns_slot:
  assumes inv: "slab_inv h" and x: "slot_of h (c, s, i)" and t: "d < SLAB_NUM_CACHES" "t \<in> listed h d"
  shows "slab_owns h d (fst (block_at h (c, s, i))) t \<longleftrightarrow> (d, t) = (c, s)"
proof -
  let ?a = "fst (block_at h (c, s, i))"
  have map: "unat PHYS_MAP_BASE = 0xFFFF800000000000" by (simp add: PHYS_MAP_BASE_def)
  have cfg: "cfg_ok d (caches h d)" using slab_invD(3) [OF inv t(1)] .
  then have t0: "slot_of h (d, t, 0)" using t by (auto simp: slot_of_def cfg_ok_def)
  note dt = slab_invD(9) [OF inv t] and bt = slot_addr(1) [OF inv t0]
  have pages: "unat ((ucast (pages_per_slab (caches h d)) :: u64) * PAGE_SIZE)
      = unat (pages_per_slab (caches h d)) * 4096"
    using cfg by (simp add: cfg_ok_def PAGE_SIZE_def unat_word_ariths unsigned_ucast_eq take_bit_eq_mod)
  have top: "unat (base (slab_pool h t) + ucast (pages_per_slab (caches h d)) * PAGE_SIZE)
      = unat PHYS_MAP_BASE + unat (phys (slab_pool h t)) + unat (pages_per_slab (caches h d)) * 4096"
    using dt pages bt map by (simp add: slab_ok_def Let_def unat_plus_if')
  have a: "unat ?a = unat PHYS_MAP_BASE + (unat (phys (slab_pool h s)) + i * obj_bytes c)"
    using slot_addr(3) [OF inv x] by simp
  have owns: "slab_owns h d ?a t \<longleftrightarrow> unat (phys (slab_pool h t)) \<le> unat (phys (slab_pool h s)) + i * obj_bytes c
      \<and> unat (phys (slab_pool h s)) + i * obj_bytes c
        < unat (phys (slab_pool h t)) + unat (pages_per_slab (caches h d)) * 4096"
    unfolding slab_owns_def word_le_nat_alt word_less_nat_alt top a bt by auto
  show ?thesis
  proof
    assume "(d, t) = (c, s)"
    then show "slab_owns h d ?a t"
      unfolding owns using slot_within(1) [OF inv x] obj_bytes_pos [of c] by auto
  next
    assume o: "slab_owns h d ?a t"
    let ?b = "unat (phys (slab_pool h s)) + i * obj_bytes c"
    obtain k where k: "unat (phys (slab_pool h t)) = 4096 * k"
      using dt by (auto simp: slab_ok_def Let_def elim: dvdE)
    have "k \<le> ?b div 4096" "?b div 4096 < k + unat (pages_per_slab (caches h d))"
      using o k unfolding owns
      by (simp_all add: less_eq_div_iff_mult_less_eq div_less_iff_less_mult algebra_simps)
    then have "?b div 4096 \<in> slab_frames h d t" using k by (simp add: slab_frames_def)
    moreover have "?b div 4096 \<in> slab_frames h c s"
      by (rule slot_bytes_frames [OF inv x]) (simp add: slot_bytes_def obj_bytes_def)
    ultimately show "(d, t) = (c, s)"
      using slab_invD(11) [OF inv t(1) _ t(2), of c s] x by (auto simp: slot_of_def)
  qed
qed

lemma obj_index_slot:
  assumes inv: "slab_inv h" and x: "slot_of h (c, s, i)"
  shows "unat (obj_index h c (fst (block_at h (c, s, i))) s) = i"
proof -
  have c: "c < 12" using x by (simp add: slot_of_def SLAB_NUM_CACHES_def)
  then have pow: "2 ^ c \<le> (2 ^ 11 :: nat)" by (intro power_increasing) auto
  then have ob: "0 < obj_bytes c" "obj_bytes c < 2 ^ 32" by (simp_all add: obj_bytes_def)
  have "fst (block_at h (c, s, i)) - base (slab_pool h s) = of_nat i * obj_size (caches h c)"
    by (simp add: block_at_def)
  moreover have "unat (of_nat i * obj_size (caches h c)) = i * obj_bytes c" by (rule slot_addr(2) [OF inv x])
  moreover have "unat (obj_size (caches h c)) = obj_bytes c"
    using slab_invD(3) [OF inv, of c] x by (simp add: cfg_ok_def slot_of_def)
  moreover have "i * obj_bytes c < 2 ^ 32" using slot_within(2) [OF inv x] ob by simp
  ultimately show ?thesis using ob
    by (simp add: unat_div unsigned_ucast_eq take_bit_nat_eq_self)
qed

section \<open>Updating one slab\<close>

interpretation slab_bits: bitmap_ops slab_bm_set slab_bm_clear slab_bm_test
proof
  have test: "slab_bm_test sl j \<longleftrightarrow> bit (s_bitmap sl (j div 64)) (j mod 64)" for sl j
    by (simp add: slab_bm_test_def shift_and_one)
  show "slab_bm_test (slab_bm_set m i) j \<longleftrightarrow> j = i \<or> slab_bm_test m j" for m i j
    using page_split [of i j] by (auto simp: test slab_bm_set_def bit_or_mask)
  show "slab_bm_test (slab_bm_clear m i) j \<longleftrightarrow> j \<noteq> i \<and> slab_bm_test m j" for m i j
    using page_split [of i j] by (auto simp: test slab_bm_clear_def bit_andnot_mask)
qed

lemma slab_bm_fields [simp]:
  "base (slab_bm_set sl i) = base sl" "phys (slab_bm_set sl i) = phys sl"
  "total_obj (slab_bm_set sl i) = total_obj sl" "free_count (slab_bm_set sl i) = free_count sl"
  "base (slab_bm_clear sl i) = base sl" "phys (slab_bm_clear sl i) = phys sl"
  "total_obj (slab_bm_clear sl i) = total_obj sl" "free_count (slab_bm_clear sl i) = free_count sl"
  by (simp_all add: slab_bm_set_def slab_bm_clear_def)

lemma slab_bm_test_free_count [simp]: "slab_bm_test (sl\<lparr>free_count := k\<rparr>) i = slab_bm_test sl i"
  by (simp add: slab_bm_test_def)

text \<open>The heap with slab \<open>s\<close> of cache \<open>c\<close> replaced and the lists of the cache rearranged.\<close>

definition upd_slab :: "nat \<Rightarrow> nat \<Rightarrow> slab_t \<Rightarrow> nat list \<Rightarrow> nat list \<Rightarrow> heap \<Rightarrow> heap" where
  "upd_slab c s sl P F h = h\<lparr>slab_pool := (slab_pool h)(s := sl),
     caches := (caches h)(c := (caches h c)\<lparr>partial := P, full := F\<rparr>)\<rparr>"

text \<open>What a replacement must keep: the geometry of the slab, its counter, and the two lists.\<close>

definition good_upd :: "nat \<Rightarrow> nat \<Rightarrow> slab_t \<Rightarrow> nat list \<Rightarrow> nat list \<Rightarrow> heap \<Rightarrow> bool" where
  "good_upd c s sl P F h \<longleftrightarrow> c < SLAB_NUM_CACHES \<and> s \<in> listed h c
     \<and> base sl = base (slab_pool h s) \<and> phys sl = phys (slab_pool h s) \<and> total_obj sl = total_obj (slab_pool h s)
     \<and> unat (free_count sl) = card {i. i < unat (total_obj sl) \<and> \<not> slab_bm_test sl i}
     \<and> distinct P \<and> distinct F \<and> set P \<union> set F = listed h c
     \<and> (\<forall>t \<in> set P. if t = s then free_count sl \<noteq> 0 else t \<in> set (partial (caches h c)))
     \<and> (\<forall>t \<in> set F. if t = s then free_count sl = 0 else t \<in> set (full (caches h c)))"

lemma upd_slab_listed:
  assumes "good_upd c s sl P F h"
  shows "listed (upd_slab c s sl P F h) d = listed h d"
  using assms by (auto simp: good_upd_def upd_slab_def listed_def)

lemma upd_slab_simps [simp]:
  "h_pmm (upd_slab c s sl P F h) = h_pmm h" "h_mem (upd_slab c s sl P F h) = h_mem h"
  "slab_pool_next (upd_slab c s sl P F h) = slab_pool_next h"
  "obj_size (caches (upd_slab c s sl P F h) d) = obj_size (caches h d)"
  "pages_per_slab (caches (upd_slab c s sl P F h) d) = pages_per_slab (caches h d)"
  "obj_per_slab (caches (upd_slab c s sl P F h) d) = obj_per_slab (caches h d)"
  "slab_pool (upd_slab c s sl P F h) t = (if t = s then sl else slab_pool h t)"
  by (simp_all add: upd_slab_def)

lemma upd_slab_frames:
  assumes "good_upd c s sl P F h"
  shows "slab_frames (upd_slab c s sl P F h) d t = slab_frames h d t"
  using assms by (simp add: good_upd_def slab_frames_def)

lemma slab_inv_upd:
  assumes inv: "slab_inv h" and g: "good_upd c s sl P F h"
  shows "slab_inv (upd_slab c s sl P F h)"
proof -
  let ?h = "upd_slab c s sl P F h"
  have c: "c < SLAB_NUM_CACHES" "s \<in> listed h c" using g by (simp_all add: good_upd_def)
  have other: "t \<noteq> s" if "d < SLAB_NUM_CACHES" "t \<in> listed h d" "d \<noteq> c" for d t
    using listed_unique [OF inv c(1) that(1) c(2)] that by auto
  have cfg: "cfg_ok d (caches ?h d) \<longleftrightarrow> cfg_ok d (caches h d)" for d by (simp add: cfg_ok_def)
  have ok: "slab_ok ?h d t" if "d < SLAB_NUM_CACHES" "t \<in> listed h d" for d t
  proof -
    have old: "slab_ok h d t" by (rule slab_invD(9) [OF inv that])
    show ?thesis
    proof (cases "t = s")
      case True
      with old g show ?thesis by (simp add: slab_ok_def good_upd_def Let_def)
    next
      case False
      with old show ?thesis by (simp add: slab_ok_def)
    qed
  qed
  have lists: "distinct (partial (caches ?h d)) \<and> distinct (full (caches ?h d))
      \<and> (\<forall>t \<in> set (partial (caches ?h d)). free_count (slab_pool ?h t) \<noteq> 0)
      \<and> (\<forall>t \<in> set (full (caches ?h d)). free_count (slab_pool ?h t) = 0)"
    if d: "d < SLAB_NUM_CACHES" for d
  proof (cases "d = c")
    case True
    then have "partial (caches ?h d) = P" "full (caches ?h d) = F" by (simp_all add: upd_slab_def)
    then show ?thesis using g slab_invD(6,7) [OF inv c(1)] True
      by (auto simp: good_upd_def split: if_splits)
  next
    case False
    then have eq: "partial (caches ?h d) = partial (caches h d)" "full (caches ?h d) = full (caches h d)"
      by (simp_all add: upd_slab_def)
    have "t \<noteq> s" if "t \<in> set (partial (caches h d)) \<union> set (full (caches h d))" for t
      using other [OF d _ False] that by (simp add: listed_def)
    then show ?thesis using slab_invD(4-7) [OF inv d] by (auto simp: eq)
  qed
  show ?thesis
    unfolding slab_inv_def upd_slab_listed [OF g] upd_slab_frames [OF g] cfg
    using slab_invD(1-3,8,10,11) [OF inv] ok lists by simp
qed

lemma block_at_upd:
  assumes "good_upd c s sl P F h"
  shows "block_at (upd_slab c s sl P F h) = block_at h"
  using assms by (auto simp: block_at_def good_upd_def fun_eq_iff)

lemma slot_of_upd:
  assumes "good_upd c s sl P F h"
  shows "slot_of (upd_slab c s sl P F h) = slot_of h"
  using upd_slab_listed [OF assms] by (auto simp: slot_of_def fun_eq_iff)

lemma slots_upd:
  assumes inv: "slab_inv h" and g: "good_upd c s sl P F h"
  shows "slots (upd_slab c s sl P F h)
    = {x \<in> slots h. fst (snd x) \<noteq> s}
      \<union> {(c, s, i) | i. i < unat (obj_per_slab (caches h c)) \<and> slab_bm_test sl i}"
proof -
  let ?h = "upd_slab c s sl P F h"
  have c: "c < SLAB_NUM_CACHES" "s \<in> listed h c" using g by (simp_all add: good_upd_def)
  have "(d, t, i) \<in> slots ?h \<longleftrightarrow> (d, t, i) \<in> slots h \<and> t \<noteq> s \<or>
      t = s \<and> d = c \<and> i < unat (obj_per_slab (caches h c)) \<and> slab_bm_test sl i" for d t i
  proof (cases "t = s")
    case True
    have "d < SLAB_NUM_CACHES \<and> s \<in> listed h d \<longleftrightarrow> d = c"
      using listed_unique [OF inv c(1) _ c(2), of d] c by metis
    then show ?thesis using True upd_slab_listed [OF g] by (auto simp: slots_def)
  next
    case False
    then show ?thesis using upd_slab_listed [OF g] by (simp add: slots_def)
  qed
  then show ?thesis by auto
qed

lemma slots_split:
  assumes inv: "slab_inv h" and c: "c < SLAB_NUM_CACHES" "s \<in> listed h c"
  shows "slots h = {x \<in> slots h. fst (snd x) \<noteq> s}
      \<union> {(c, s, i) | i. i < unat (obj_per_slab (caches h c)) \<and> slab_bm_test (slab_pool h s) i}"
proof -
  have "(d, s, i) \<in> slots h \<longleftrightarrow>
      d = c \<and> i < unat (obj_per_slab (caches h c)) \<and> slab_bm_test (slab_pool h s) i" for d i
    using listed_unique [OF inv c(1) _ c(2), of d] c by (cases "d = c") (auto simp: slots_def)
  then show ?thesis by auto
qed

section \<open>Taking and returning an object\<close>

lemma slab_list_remove_eq: "slab_list_remove l t = remove1 t l"
  by (induction l) auto

lemma slab_find_scan:
  assumes "unat (total_obj sl) \<le> 128"
  shows "slab_bm_find_free sl = scan (\<lambda>i. \<not> slab_bm_test sl i) 0 (unat (total_obj sl))"
proof -
  have "unat (total_obj sl + 63) = unat (total_obj sl) + 63" using assms by (simp add: unat_word_ariths)
  then have "unat (total_obj sl) \<le> unat ((total_obj sl + 63) div 64) * 64" by (simp add: unat_div)
  then show ?thesis
    using first_free_loop_scan [of "unat (total_obj sl)" _ "s_bitmap sl" 0]
    by (simp add: slab_bm_find_free_def bm_test_def slab_bm_test_def)
qed

lemma set_slab_lists [simp]:
  "partial (caches (set_slab s sl h) d) = partial (caches h d)"
  "full (caches (set_slab s sl h) d) = full (caches h d)"
  "caches (set_slab s sl h) = caches h"
  "partial (caches (set_full c l h) d) = partial (caches h d)"
  by (simp_all add: set_slab_def set_full_def)

lemma set_slab_upd: "set_slab s sl h = upd_slab c s sl (partial (caches h c)) (full (caches h c)) h"
  by (simp add: set_slab_def upd_slab_def)

lemma set_lists_upd: "set_partial c P (set_full c F (set_slab s sl h)) = upd_slab c s sl P F h"
  by (auto simp: set_partial_def set_full_def set_slab_def upd_slab_def
      intro!: heap.equality slab_cache.equality)

lemma partial_full_disjoint:
  "slab_inv h \<Longrightarrow> c < SLAB_NUM_CACHES \<Longrightarrow> s \<in> set (partial (caches h c)) \<Longrightarrow> s \<notin> set (full (caches h c))"
  using slab_invD(6,7) by blast

lemma cache_take_spec:
  assumes inv: "slab_inv h" and c: "c < SLAB_NUM_CACHES" and s: "s \<in> set (partial (caches h c))"
  obtains i h' where "slot_of h (c, s, i)" and "(c, s, i) \<notin> slots h"
    and "cache_take c s h = (fst (block_at h (c, s, i)), h')" and "slab_inv h'"
    and "slots h' = insert (c, s, i) (slots h)" and "block_at h' = block_at h" and "h_mem h' = h_mem h"
    and "slot_of h' = slot_of h"
proof -
  let ?sl = "slab_pool h s" and ?k = "caches h c"
  have sl: "s \<in> listed h c" using s by (simp add: listed_def)
  have ok: "slab_ok h c s" by (rule slab_invD(9) [OF inv c sl])
  have tot: "total_obj ?sl = obj_per_slab ?k" using ok by (simp add: slab_ok_def Let_def)
  have cnt: "unat (free_count ?sl) = card {i. i < unat (total_obj ?sl) \<and> \<not> slab_bm_test ?sl i}"
    using ok by (simp add: slab_ok_def Let_def)
  have nz: "free_count ?sl \<noteq> 0" by (rule slab_invD(6) [OF inv c s])
  have small: "unat (total_obj ?sl) \<le> 128" using slab_invD(3) [OF inv c] tot by (simp add: cfg_ok_def)
  have "{i. i < unat (total_obj ?sl) \<and> \<not> slab_bm_test ?sl i} \<noteq> {}"
    using cnt nz by (metis card.empty unat_eq_zero)
  then obtain k where "k < unat (total_obj ?sl)" "\<not> slab_bm_test ?sl k" by blast
  then obtain i where find: "slab_bm_find_free ?sl = Some i"
    unfolding slab_find_scan [OF small]
    using scan_exists [of 0 k "unat (total_obj ?sl)" "\<lambda>i. \<not> slab_bm_test ?sl i"] by auto
  then have i: "i < unat (total_obj ?sl)" "\<not> slab_bm_test ?sl i"
    unfolding slab_find_scan [OF small] by (simp_all add: scan_Some_iff)
  define sl' where "sl' = (slab_bm_set ?sl i)\<lparr>free_count := free_count ?sl - 1\<rparr>"
  define P where "P = (if free_count sl' = 0 then remove1 s (partial ?k) else partial ?k)"
  define F where "F = (if free_count sl' = 0 then s # full ?k else full ?k)"
  define h' where "h' = upd_slab c s sl' P F h"
  have take: "cache_take c s h = (fst (block_at h (c, s, i)), h')"
    by (simp add: cache_take_def find Let_def block_at_def h'_def upd_slab_def sl'_def P_def F_def
        set_partial_def set_full_def set_slab_def slab_list_remove_eq)
  have "unat (free_count sl') = card {j. j < unat (total_obj ?sl) \<and> \<not> slab_bm_test sl' j}"
    using slab_bits.card_frees_bset [OF i] cnt nz by (simp add: sl'_def unat_minus_one)
  moreover have "s \<notin> set (full ?k)" by (rule partial_full_disjoint [OF inv c s])
  ultimately have g: "good_upd c s sl' P F h"
    using c sl s slab_invD(4,5) [OF inv c]
    by (auto simp: good_upd_def sl'_def P_def F_def listed_def)
  have test: "slab_bm_test sl' j \<longleftrightarrow> j = i \<or> slab_bm_test ?sl j" for j
    by (simp add: sl'_def slab_bits.btest_bset)
  have "slots h' = insert (c, s, i) (slots h)"
    unfolding h'_def slots_upd [OF inv g] test using i tot
    by (subst (2) slots_split [OF inv c sl]) auto
  moreover have "slot_of h (c, s, i)" "(c, s, i) \<notin> slots h"
    using c sl i tot by (simp_all add: slot_of_def slots_def)
  ultimately show ?thesis
    using that take slab_inv_upd [OF inv g] block_at_upd [OF g] slot_of_upd [OF g] by (simp add: h'_def)
qed

lemma cache_put_spec:
  assumes inv: "slab_inv h" and x: "(c, s, i) \<in> slots h"
    and f: "was_full \<longleftrightarrow> s \<in> set (full (caches h c))"
  defines "h' \<equiv> cache_put c (fst (block_at h (c, s, i))) s was_full h"
  shows "slab_inv h'" and "slots h' = slots h - {(c, s, i)}" and "block_at h' = block_at h"
    and "h_mem h' = h_mem h" and "slot_of h' = slot_of h"
proof -
  let ?sl = "slab_pool h s" and ?k = "caches h c"
  have so: "slot_of h (c, s, i)" by (rule slots_slot_of [OF x])
  have c: "c < SLAB_NUM_CACHES" "s \<in> listed h c" and t: "slab_bm_test ?sl i"
    and i: "i < unat (obj_per_slab ?k)" using x by (simp_all add: slots_def)
  have ok: "slab_ok h c s" by (rule slab_invD(9) [OF inv c])
  have tot: "total_obj ?sl = obj_per_slab ?k" using ok by (simp add: slab_ok_def Let_def)
  have cnt: "unat (free_count ?sl) = card {i. i < unat (total_obj ?sl) \<and> \<not> slab_bm_test ?sl i}"
    using ok by (simp add: slab_ok_def Let_def)
  have small: "unat (total_obj ?sl) \<le> 128" using slab_invD(3) [OF inv c(1)] tot by (simp add: cfg_ok_def)
  have "unat (free_count ?sl) \<le> card {..<unat (total_obj ?sl)}"
    unfolding cnt by (rule card_mono) auto
  then have up: "unat (free_count ?sl + 1) = Suc (unat (free_count ?sl))"
    using small by (simp add: unat_word_ariths)
  define sl' where "sl' = (slab_bm_clear ?sl i)\<lparr>free_count := free_count ?sl + 1\<rparr>"
  define P where "P = (if was_full then s # partial ?k else partial ?k)"
  define F where "F = (if was_full then remove1 s (full ?k) else full ?k)"
  have eq: "h' = upd_slab c s sl' P F h"
    using t by (simp add: h'_def cache_put_def obj_index_slot [OF inv so] Let_def sl'_def P_def F_def
        slab_list_remove_eq set_lists_upd set_slab_upd)
  have nz: "free_count sl' \<noteq> 0" using up by (auto simp: sl'_def)
  have "unat (free_count sl') = card {j. j < unat (total_obj ?sl) \<and> \<not> slab_bm_test sl' j}"
    using slab_bits.card_frees_bclear [of i "unat (total_obj ?sl)" ?sl] i t tot cnt up by (simp add: sl'_def)
  moreover have "s \<in> set (partial ?k) \<longleftrightarrow> \<not> was_full"
    using f c(2) partial_full_disjoint [OF inv c(1)] by (auto simp: listed_def)
  ultimately have g: "good_upd c s sl' P F h"
    using c f nz slab_invD(4,5) [OF inv c(1)]
    by (auto simp: good_upd_def sl'_def P_def F_def listed_def)
  have test: "slab_bm_test sl' j \<longleftrightarrow> j \<noteq> i \<and> slab_bm_test ?sl j" for j
    by (simp add: sl'_def slab_bits.btest_bclear)
  show "slots h' = slots h - {(c, s, i)}"
    unfolding eq slots_upd [OF inv g] test by (subst (2) slots_split [OF inv c]) auto
  show "slab_inv h'" "block_at h' = block_at h" "h_mem h' = h_mem h" "slot_of h' = slot_of h"
    unfolding eq using slab_inv_upd [OF inv g] block_at_upd [OF g] slot_of_upd [OF g] by simp_all
qed

section \<open>Memory\<close>

lemma of_nat_offset: "n < 2 ^ 64 \<Longrightarrow> a = dst + of_nat n \<longleftrightarrow> unat (a - dst) = n" for a dst :: u64
proof -
  assume "n < 2 ^ 64"
  then have "unat (of_nat n :: u64) = n" by (simp add: unat_of_nat)
  moreover have "a = dst + of_nat n \<longleftrightarrow> a - dst = of_nat n" by (auto simp: algebra_simps)
  ultimately show ?thesis by (simp add: word_unat_eq_iff)
qed

lemma kmemset_apply:
  "n \<le> 2 ^ 64 \<Longrightarrow> kmemset dst v n m a = (if unat (a - dst) < n then v else m a)"
proof (induction n)
  case 0
  then show ?case by (simp add: kmemset_def)
next
  case (Suc n)
  then have IH: "kmemset dst v n m a = (if unat (a - dst) < n then v else m a)" and n: "n < 2 ^ 64"
    by simp_all
  have "kmemset dst v (Suc n) m = (kmemset dst v n m)(dst + of_nat n := v)" by (simp add: kmemset_def)
  then show ?case using IH of_nat_offset [OF n, of a dst] by auto
qed

lemma kmemcpy_apply:
  "n \<le> 2 ^ 64 \<Longrightarrow> (\<And>i j. i < n \<Longrightarrow> j < n \<Longrightarrow> dst + of_nat i \<noteq> src + of_nat j) \<Longrightarrow>
   kmemcpy dst src n m a = (if unat (a - dst) < n then m (src + (a - dst)) else m a)"
proof (induction n arbitrary: a)
  case 0
  then show ?case by (simp add: kmemcpy_def)
next
  case (Suc n)
  have n: "n < 2 ^ 64" using Suc.prems(1) by simp
  have IH: "kmemcpy dst src n m b = (if unat (b - dst) < n then m (src + (b - dst)) else m b)" for b
    using Suc by simp
  have "\<not> unat (src + of_nat n - dst) < n"
  proof
    assume lt: "unat (src + of_nat n - dst) < n"
    then have "src + of_nat n = dst + of_nat (unat (src + of_nat n - dst))" by simp
    then show False using Suc.prems(2) [of "unat (src + of_nat n - dst)" n] lt by simp
  qed
  moreover have "kmemcpy dst src (Suc n) m
      = (kmemcpy dst src n m)(dst + of_nat n := kmemcpy dst src n m (src + of_nat n))"
    by (simp add: kmemcpy_def)
  ultimately show ?case using IH [of a] IH [of "src + of_nat n"] of_nat_offset [OF n, of a dst]
    by auto
qed

lemma byte_addr:
  assumes inv: "slab_inv h" and x: "slot_of h x" and k: "k < snd (block_at h x)"
  obtains b where "b \<in> slot_bytes h x"
    and "unat (fst (block_at h x) + of_nat k) = unat PHYS_MAP_BASE + b"
proof -
  obtain c s i where eq: "x = (c, s, i)" by (cases x) auto
  note a = slot_addr [OF inv x [unfolded eq]]
  let ?b = "unat (phys (slab_pool h s)) + i * obj_bytes c + k"
  have kc: "k < obj_bytes c" using k a(4) eq by simp
  then have small: "?b < 2 ^ 32" using slot_within(2) [OF inv x [unfolded eq]] by simp
  then have "unat (of_nat k :: u64) = k" by (simp add: unat_of_nat)
  then have "unat (fst (block_at h (c, s, i)) + of_nat k) = unat PHYS_MAP_BASE + ?b"
    using a(3) small by (simp add: unat_plus_if' PHYS_MAP_BASE_def)
  moreover have "?b \<in> slot_bytes h x" using kc by (simp add: eq slot_bytes_def)
  ultimately show ?thesis using that eq by simp
qed

text \<open>A byte of a block lies outside the pages of every other slab.\<close>

lemma byte_outside_slab:
  assumes inv: "slab_inv h" and x: "slot_of h (d, t, i)" and k: "k < snd (block_at h (d, t, i))"
    and s: "c < SLAB_NUM_CACHES" "s \<in> listed h c" and ne: "(d, t) \<noteq> (c, s)"
  shows "\<not> unat (fst (block_at h (d, t, i)) + of_nat k - base (slab_pool h s))
      < unat (pages_per_slab (caches h c)) * 4096"
proof
  let ?a = "fst (block_at h (d, t, i)) + of_nat k"
  assume lt: "unat (?a - base (slab_pool h s)) < unat (pages_per_slab (caches h c)) * 4096"
  obtain b where b: "b \<in> slot_bytes h (d, t, i)" "unat ?a = unat PHYS_MAP_BASE + b"
    by (rule byte_addr [OF inv x k])
  have cfg: "cfg_ok c (caches h c)" by (rule slab_invD(3) [OF inv s(1)])
  then have "slot_of h (c, s, 0)" using s by (auto simp: slot_of_def cfg_ok_def)
  note base = slot_addr(1) [OF inv this]
  have "unat (phys (slab_pool h s)) + unat (pages_per_slab (caches h c)) * 4096 \<le> 2 ^ 32"
    and "4096 dvd unat (phys (slab_pool h s))"
    using slab_invD(9) [OF inv s] by (simp_all add: slab_ok_def Let_def)
  moreover from this obtain q where q: "unat (phys (slab_pool h s)) = 4096 * q" by (auto elim: dvdE)
  ultimately have "4096 * q \<le> b" "b < 4096 * q + unat (pages_per_slab (caches h c)) * 4096"
    using lt b(2) base by (auto simp: unat_sub_if' PHYS_MAP_BASE_def split: if_splits)
  then have "q \<le> b div 4096" "b div 4096 < q + unat (pages_per_slab (caches h c))"
    by (simp_all add: less_eq_div_iff_mult_less_eq div_less_iff_less_mult algebra_simps)
  then have "b div 4096 \<in> slab_frames h c s" using q by (simp add: slab_frames_def)
  moreover have "b div 4096 \<in> slab_frames h d t" by (rule slot_bytes_frames [OF inv x b(1)])
  ultimately show False
    using slab_invD(11) [OF inv _ s(1) _ s(2) ne] x by (auto simp: slot_of_def)
qed

section \<open>Growing a cache\<close>

text \<open>The heap after a fresh slab \<open>s\<close> with run \<open>pa\<close> is put at the head of the partial list.\<close>

definition add_slab :: "nat \<Rightarrow> nat \<Rightarrow> u64 \<Rightarrow> pmm_t \<Rightarrow> heap \<Rightarrow> heap" where
  "add_slab c s pa pm h = h\<lparr>slab_pool_next := slab_pool_next h + 1, h_pmm := pm,
     slab_pool := (slab_pool h)(s := \<lparr>base = PHYS_TO_VIRT pa, phys = pa,
       total_obj = obj_per_slab (caches h c), free_count = obj_per_slab (caches h c),
       s_bitmap = (\<lambda>_. 0), s_cache = c\<rparr>),
     caches := (caches h)(c := (caches h c)\<lparr>partial := s # partial (caches h c)\<rparr>),
     h_mem := kmemset (PHYS_TO_VIRT pa) 0 (unat (ucast (pages_per_slab (caches h c)) * PAGE_SIZE)) (h_mem h)\<rparr>"

lemma add_slab_simps [simp]:
  "h_pmm (add_slab c s pa pm h) = pm"
  "slab_pool_next (add_slab c s pa pm h) = slab_pool_next h + 1"
  "obj_size (caches (add_slab c s pa pm h) d) = obj_size (caches h d)"
  "pages_per_slab (caches (add_slab c s pa pm h) d) = pages_per_slab (caches h d)"
  "obj_per_slab (caches (add_slab c s pa pm h) d) = obj_per_slab (caches h d)"
  "full (caches (add_slab c s pa pm h) d) = full (caches h d)"
  "partial (caches (add_slab c s pa pm h) d)
     = (if d = c then s # partial (caches h c) else partial (caches h d))"
  "t \<noteq> s \<Longrightarrow> slab_pool (add_slab c s pa pm h) t = slab_pool h t"
  by (simp_all add: add_slab_def)

lemma add_slab_fresh:
  "slab_pool (add_slab c s pa pm h) s = \<lparr>base = PHYS_TO_VIRT pa, phys = pa,
     total_obj = obj_per_slab (caches h c), free_count = obj_per_slab (caches h c),
     s_bitmap = (\<lambda>_. 0), s_cache = c\<rparr>"
  by (simp add: add_slab_def)

lemma add_slab_listed: "listed (add_slab c s pa pm h) d = (if d = c then insert s (listed h c) else listed h d)"
  by (auto simp: listed_def)

definition grows :: "heap \<Rightarrow> nat \<Rightarrow> nat \<Rightarrow> u64 \<Rightarrow> pmm_t \<Rightarrow> bool" where
  "grows h c s pa pm \<longleftrightarrow> slab_inv h \<and> c < SLAB_NUM_CACHES \<and> slab_pool_next h < SLAB_POOL_SIZE
     \<and> pmm_alloc_pages (ucast (pages_per_slab (caches h c))) (h_pmm h) = (pa, pm) \<and> pa \<noteq> 0
     \<and> s = unat (slab_pool_next h)"

lemma grows_fresh:
  assumes "grows h c s pa pm" and "d < SLAB_NUM_CACHES" and "t \<in> listed h d"
  shows "t < s"
  using slab_invD(8) [of h d t] assms by (simp add: grows_def)

lemma grows_next:
  assumes "grows h c s pa pm"
  shows "unat (slab_pool_next h + 1) = Suc s" and "slab_pool_next h + 1 \<le> SLAB_POOL_SIZE"
  using assms by (auto simp: grows_def SLAB_POOL_SIZE_def word_less_nat_alt word_le_nat_alt unat_word_ariths)

lemma pages_arg:
  assumes "cfg_ok c k"
  shows "unat (ucast (pages_per_slab k) :: u64) = unat (pages_per_slab k)"
    and "(ucast (pages_per_slab k) :: u64) \<noteq> 0"
    and "unat (ucast (pages_per_slab k) * PAGE_SIZE :: u64) = unat (pages_per_slab k) * 4096"
proof -
  show u: "unat (ucast (pages_per_slab k) :: u64) = unat (pages_per_slab k)"
    using assms by (simp add: cfg_ok_def unsigned_ucast_eq take_bit_nat_eq_self)
  show "(ucast (pages_per_slab k) :: u64) \<noteq> 0" using u assms by (auto simp: cfg_ok_def)
  show "unat (ucast (pages_per_slab k) * PAGE_SIZE :: u64) = unat (pages_per_slab k) * 4096"
    using u assms by (simp add: cfg_ok_def PAGE_SIZE_def unat_word_ariths)
qed

lemma grows_run:
  assumes g: "grows h c s pa pm"
  shows "slab_frames (add_slab c s pa pm h) c s \<subseteq> frames (h_pmm h)"
    and "frames pm = frames (h_pmm h) - slab_frames (add_slab c s pa pm h) c s"
    and "4096 dvd unat pa" and "unat pa + unat (pages_per_slab (caches h c)) * 4096 \<le> 2 ^ 32"
    and "pmm_inv pm"
proof -
  have inv: "slab_inv h" and cfg: "cfg_ok c (caches h c)" using g slab_invD(3) by (auto simp: grows_def)
  note arg = pages_arg [OF cfg]
  have al: "pmm_alloc_pages (ucast (pages_per_slab (caches h c))) (h_pmm h) = (pa, pm)" "pa \<noteq> 0"
    using g by (simp_all add: grows_def)
  note gf = pages.grab_frames [OF slab_invD(1) [OF inv] arg(2) al]
  have run: "slab_frames (add_slab c s pa pm h) c s = pages.run_frames pa (ucast (pages_per_slab (caches h c)))"
    by (simp add: slab_frames_def add_slab_fresh pages.run_frames_def arg(1))
  show "slab_frames (add_slab c s pa pm h) c s \<subseteq> frames (h_pmm h)"
    and "frames pm = frames (h_pmm h) - slab_frames (add_slab c s pa pm h) c s"
    and "4096 dvd unat pa" and "unat pa + unat (pages_per_slab (caches h c)) * 4096 \<le> 2 ^ 32"
    and "pmm_inv pm"
    using gf arg(1) unfolding run by simp_all
qed

lemma add_slab_old:
  assumes "grows h c s pa pm" and "d < SLAB_NUM_CACHES" and "t \<in> listed h d"
  shows "slab_pool (add_slab c s pa pm h) t = slab_pool h t"
    and "slab_frames (add_slab c s pa pm h) d t = slab_frames h d t"
    and "slab_ok (add_slab c s pa pm h) d t = slab_ok h d t"
  using grows_fresh [OF assms] by (simp_all add: slab_frames_def slab_ok_def)

lemma add_slab_ok:
  assumes g: "grows h c s pa pm"
  shows "slab_ok (add_slab c s pa pm h) c s"
  using grows_run(3,4) [OF g] by (simp add: slab_ok_def add_slab_fresh slab_bm_test_def)

lemma slab_inv_add:
  assumes g: "grows h c s pa pm"
  shows "slab_inv (add_slab c s pa pm h)"
proof -
  let ?h = "add_slab c s pa pm h"
  have inv: "slab_inv h" and c: "c < SLAB_NUM_CACHES" using g by (simp_all add: grows_def)
  have cfg: "cfg_ok d (caches ?h d)" if "d < SLAB_NUM_CACHES" for d
    using slab_invD(3) [OF inv that] by (simp add: cfg_ok_def)
  have lists: "distinct (partial (caches ?h d)) \<and> distinct (full (caches ?h d))
      \<and> (\<forall>t \<in> set (partial (caches ?h d)). free_count (slab_pool ?h t) \<noteq> 0)
      \<and> (\<forall>t \<in> set (full (caches ?h d)). free_count (slab_pool ?h t) = 0)"
    if d: "d < SLAB_NUM_CACHES" for d
  proof -
    have old: "t < s" "slab_pool ?h t = slab_pool h t"
      if "t \<in> set (partial (caches h d)) \<union> set (full (caches h d))" for t
      using grows_fresh [OF g d, of t] add_slab_old(1) [OF g d, of t] that by (simp_all add: listed_def)
    have "s \<notin> set (partial (caches h d))" using old(1) [of s] by auto
    moreover have "free_count (slab_pool ?h s) \<noteq> 0"
      using slab_invD(3) [OF inv c] by (auto simp: add_slab_fresh cfg_ok_def)
    ultimately show ?thesis using slab_invD(4-7) [OF inv d] old(2) by auto
  qed
  have each: "t < Suc s \<and> slab_ok ?h d t \<and> slab_frames ?h d t \<inter> frames pm = {}"
    if d: "d < SLAB_NUM_CACHES" and t: "t \<in> listed ?h d" for d t
  proof (cases "t \<in> listed h d")
    case True
    then show ?thesis
      using grows_fresh [OF g d True] add_slab_old(2,3) [OF g d True] slab_invD(9,10) [OF inv d True]
        grows_run(2) [OF g] by auto
  next
    case False
    then have "d = c" "t = s" using t by (auto simp: add_slab_listed split: if_splits)
    then show ?thesis using add_slab_ok [OF g] grows_run(2) [OF g] by auto
  qed
  have sep: "slab_frames h d t \<inter> slab_frames ?h c s = {}" if "d < SLAB_NUM_CACHES" "t \<in> listed h d" for d t
    using slab_invD(10) [OF inv that] grows_run(1) [OF g] by blast
  have disj: "slab_frames ?h d t \<inter> slab_frames ?h e u = {}"
    if d: "d < SLAB_NUM_CACHES" "t \<in> listed ?h d" and e: "e < SLAB_NUM_CACHES" "u \<in> listed ?h e"
      and ne: "(d, t) \<noteq> (e, u)" for d t e u
  proof -
    consider (oo) "t \<in> listed h d" "u \<in> listed h e" | (on) "t \<in> listed h d" "(e, u) = (c, s)"
      | (no) "(d, t) = (c, s)" "u \<in> listed h e" | (nn) "(d, t) = (c, s)" "(e, u) = (c, s)"
      using d(2) e(2) by (auto simp: add_slab_listed split: if_splits)
    then show ?thesis
    proof cases
      case oo
      then show ?thesis using add_slab_old(2) [OF g] d(1) e(1) slab_invD(11) [OF inv d(1) e(1) _ _ ne] by simp
    next
      case on
      then show ?thesis using add_slab_old(2) [OF g d(1)] sep [OF d(1)] by simp
    next
      case no
      then show ?thesis using add_slab_old(2) [OF g e(1)] sep [OF e(1)] by (simp add: Int_commute)
    next
      case nn
      then show ?thesis using ne by simp
    qed
  qed
  show ?thesis
    unfolding slab_inv_def using cfg lists each disj grows_next [OF g] grows_run(5) [OF g] by simp
qed

lemma slots_add:
  assumes g: "grows h c s pa pm"
  shows "slots (add_slab c s pa pm h) = slots h"
    and "slot_of h x \<Longrightarrow> slot_of (add_slab c s pa pm h) x \<and> block_at (add_slab c s pa pm h) x = block_at h x"
proof -
  let ?h = "add_slab c s pa pm h"
  have empty: "\<not> slab_bm_test (slab_pool ?h s) i" for i by (simp add: add_slab_fresh slab_bm_test_def)
  have "(d, t, i) \<in> slots ?h \<longleftrightarrow> (d, t, i) \<in> slots h" for d t i
  proof (cases "t \<in> listed h d \<and> d < SLAB_NUM_CACHES")
    case True
    then show ?thesis using add_slab_old(1) [OF g, of d t] by (auto simp: slots_def add_slab_listed)
  next
    case False
    then show ?thesis using empty by (auto simp: slots_def add_slab_listed split: if_splits)
  qed
  then show "slots ?h = slots h" by auto
  show "slot_of h x \<Longrightarrow> slot_of ?h x \<and> block_at ?h x = block_at h x"
    using add_slab_old(1) [OF g] by (auto simp: slot_of_def block_at_def add_slab_listed)
qed

text \<open>A heap that keeps every slot of an earlier one, and the bytes of its blocks.\<close>

definition heap_ext :: "heap \<Rightarrow> heap \<Rightarrow> bool" where
  "heap_ext h h' \<longleftrightarrow> slab_inv h' \<and> (\<forall>y. slot_of h y \<longrightarrow> slot_of h' y \<and> block_at h' y = block_at h y
     \<and> (\<forall>k < snd (block_at h y). h_mem h' (fst (block_at h y) + of_nat k) = h_mem h (fst (block_at h y) + of_nat k)))"

lemma heap_extD:
  assumes "heap_ext h h'"
  shows "slab_inv h'" and "slot_of h y \<Longrightarrow> slot_of h' y" and "slot_of h y \<Longrightarrow> block_at h' y = block_at h y"
    and "slot_of h y \<Longrightarrow> k < snd (block_at h y) \<Longrightarrow>
      h_mem h' (fst (block_at h y) + of_nat k) = h_mem h (fst (block_at h y) + of_nat k)"
  using assms unfolding heap_ext_def by blast+

lemma heap_ext_refl: "slab_inv h \<Longrightarrow> heap_ext h h"
  by (simp add: heap_ext_def)

lemma heap_ext_trans:
  assumes "heap_ext h h1" and "heap_ext h1 h2"
  shows "heap_ext h h2"
  unfolding heap_ext_def using heap_extD [OF assms(1)] heap_extD [OF assms(2)] by metis

lemma heap_ext_add:
  assumes g: "grows h c s pa pm"
  shows "heap_ext h (add_slab c s pa pm h)"
proof -
  let ?h = "add_slab c s pa pm h"
  have inv: "slab_inv h" and c: "c < SLAB_NUM_CACHES" using g by (simp_all add: grows_def)
  have inv': "slab_inv ?h" by (rule slab_inv_add [OF g])
  have s: "s \<in> listed ?h c" by (simp add: add_slab_listed)
  have mem: "h_mem ?h a = h_mem h a"
    if "\<not> unat (a - base (slab_pool ?h s)) < unat (pages_per_slab (caches ?h c)) * 4096" for a
  proof -
    have "unat (pages_per_slab (caches h c)) * 4096 \<le> 2 ^ 64"
      using slab_invD(3) [OF inv c] by (simp add: cfg_ok_def)
    moreover have "h_mem ?h = kmemset (PHYS_TO_VIRT pa) 0 (unat (pages_per_slab (caches h c)) * 4096) (h_mem h)"
      using pages_arg(3) [OF slab_invD(3) [OF inv c]] by (simp add: add_slab_def)
    ultimately show ?thesis using that by (simp add: kmemset_apply add_slab_fresh)
  qed
  have "h_mem ?h (fst (block_at h (d, t, i)) + of_nat k) = h_mem h (fst (block_at h (d, t, i)) + of_nat k)"
    if x: "slot_of h (d, t, i)" and k: "k < snd (block_at h (d, t, i))" for d t i k
  proof -
    have x': "slot_of ?h (d, t, i)" and b: "block_at ?h (d, t, i) = block_at h (d, t, i)"
      using slots_add(2) [OF g x] by simp_all
    have "t < s" using grows_fresh [OF g] x by (auto simp: slot_of_def)
    then have "(d, t) \<noteq> (c, s)" by auto
    from byte_outside_slab [OF inv' x' _ c s this] k show ?thesis unfolding b by (intro mem) simp
  qed
  then show ?thesis unfolding heap_ext_def using inv' slots_add(2) [OF g] by auto
qed

text \<open>A failed growth loses a descriptor of the pool and changes nothing else.\<close>

definition lose_slot :: "heap \<Rightarrow> heap" where
  "lose_slot h = h\<lparr>slab_pool_next := slab_pool_next h + 1,
     slab_pool := (slab_pool h)(unat (slab_pool_next h) := (slab_pool h (unat (slab_pool_next h)))\<lparr>phys := 0\<rparr>)\<rparr>"

lemma lose_slot_spec:
  assumes inv: "slab_inv h" and room: "slab_pool_next h < SLAB_POOL_SIZE"
  shows "heap_ext h (lose_slot h)" and "slots (lose_slot h) = slots h"
proof -
  let ?h = "lose_slot h" and ?s = "unat (slab_pool_next h)"
  have next_: "unat (slab_pool_next h + 1) = Suc ?s" "slab_pool_next h + 1 \<le> SLAB_POOL_SIZE"
    using room by (auto simp: SLAB_POOL_SIZE_def word_less_nat_alt word_le_nat_alt unat_word_ariths)
  have eqs: "h_pmm ?h = h_pmm h" "caches ?h = caches h" "h_mem ?h = h_mem h" "listed ?h = listed h"
    "slab_pool_next ?h = slab_pool_next h + 1"
    by (simp_all add: lose_slot_def listed_def fun_eq_iff)
  have old: "slab_pool ?h t = slab_pool h t" if "c < SLAB_NUM_CACHES" "t \<in> listed h c" for c t
    using slab_invD(8) [OF inv that] by (simp add: lose_slot_def)
  have fc: "free_count (slab_pool ?h t) = free_count (slab_pool h t)" for t by (simp add: lose_slot_def)
  have blk: "block_at ?h = block_at h" and test: "slab_bm_test (slab_pool ?h t) = slab_bm_test (slab_pool h t)" for t
    by (auto simp: lose_slot_def block_at_def slab_bm_test_def fun_eq_iff)
  have "slab_inv ?h"
    unfolding slab_inv_def
    using slab_invD [OF inv] next_ old fc by (simp add: eqs slab_frames_def slab_ok_def less_Suc_eq)
  then show "heap_ext h ?h" by (auto simp: heap_ext_def blk slot_of_def eqs)
  show "slots ?h = slots h" by (simp add: slots_def eqs test)
qed

lemma slab_create_cases:
  assumes inv: "slab_inv h" and c: "c < SLAB_NUM_CACHES"
  obtains (none) "slab_create c h = (None, h)"
  | (lost) "slab_create c h = (None, lose_slot h)" "slab_pool_next h < SLAB_POOL_SIZE"
  | (grown) s pa pm h1 where "slab_create c h = (Some s, h1)" "grows h c s pa pm"
      "set_partial c (s # partial (caches h1 c)) h1 = add_slab c s pa pm h"
proof (cases "slab_pool_next h < SLAB_POOL_SIZE")
  case False
  then show ?thesis by (intro none) (simp add: slab_create_def slab_pool_alloc_def)
next
  case room: True
  obtain pa pm where al: "pmm_alloc_pages (ucast (pages_per_slab (caches h c))) (h_pmm h) = (pa, pm)"
    by fastforce
  show ?thesis
  proof (cases "pa = 0")
    case True
    have "pm = h_pmm h"
      using pages.grab_fail [OF slab_invD(1) [OF inv] pages_arg(2) [OF slab_invD(3) [OF inv c]]] al True by simp
    then show ?thesis using room al True
      by (intro lost) (auto simp: slab_create_def slab_pool_alloc_def Let_def lose_slot_def intro!: heap.equality)
  next
    case False
    then have "grows h c (unat (slab_pool_next h)) pa pm" using inv c room al by (simp add: grows_def)
    moreover have "slab_create c h = (Some (unat (slab_pool_next h)), snd (slab_create c h))"
      using room al False by (simp add: slab_create_def slab_pool_alloc_def Let_def)
    moreover have "set_partial c (unat (slab_pool_next h) # partial (caches (snd (slab_create c h)) c)) (snd (slab_create c h))
        = add_slab c (unat (slab_pool_next h)) pa pm h"
      using room al False
      by (auto simp: slab_create_def slab_pool_alloc_def Let_def set_partial_def add_slab_def intro!: heap.equality)
    ultimately show ?thesis using grown by blast
  qed
qed

section \<open>The public operations\<close>

lemma cache_alloc_spec:
  assumes inv: "slab_inv h" and c: "c < SLAB_NUM_CACHES" and run: "cache_alloc c h = (a, h')"
  obtains (fail) "a = 0" "heap_ext h h'" "slots h' = slots h"
  | (ok) s i where "heap_ext h h'" "slot_of h' (c, s, i)" "(c, s, i) \<notin> slots h"
      "a = fst (block_at h' (c, s, i))" "slots h' = insert (c, s, i) (slots h)"
proof -
  have take: thesis if ext: "heap_ext h h1" "slots h1 = slots h" and s: "s \<in> set (partial (caches h1 c))"
    and r: "cache_take c s h1 = (a, h')" for h1 s
  proof -
    obtain i h2 where x: "slot_of h1 (c, s, i)" "(c, s, i) \<notin> slots h1"
      and t: "cache_take c s h1 = (fst (block_at h1 (c, s, i)), h2)" and inv2: "slab_inv h2"
      and sl: "slots h2 = insert (c, s, i) (slots h1)" and b: "block_at h2 = block_at h1"
      and m: "h_mem h2 = h_mem h1" and so: "slot_of h2 = slot_of h1"
      by (rule cache_take_spec [OF heap_extD(1) [OF ext(1)] c s])
    have eq: "h2 = h'" "a = fst (block_at h' (c, s, i))" using t r b by auto
    have "heap_ext h1 h'" using inv2 b m so eq(1) by (simp add: heap_ext_def)
    then show thesis using ok [of s i] ext x sl eq so heap_ext_trans by metis
  qed
  show thesis
  proof (cases "partial (caches h c)")
    case (Cons s l)
    then show thesis using take [of h s] run heap_ext_refl [OF inv] by (simp add: cache_alloc_def)
  next
    case Nil
    from inv c show thesis
    proof (cases rule: slab_create_cases)
      case none
      then show thesis using fail run Nil inv by (simp add: cache_alloc_def heap_ext_def)
    next
      case lost
      then show thesis using fail run Nil lose_slot_spec [OF inv lost(2)] by (simp add: cache_alloc_def)
    next
      case (grown s pa pm h1)
      let ?h = "add_slab c s pa pm h"
      have "cache_take c s ?h = (a, h')" using run Nil grown by (simp add: cache_alloc_def)
      then show thesis using take [of ?h s] heap_ext_add [OF grown(2)] slots_add(1) [OF grown(2)] by simp
    qed
  qed
qed

lemma find_cache_spec:
  assumes inv: "slab_inv h"
  shows "find_cache n h = None \<longleftrightarrow> 65536 < unat n"
    and "find_cache n h = Some c \<Longrightarrow> c < SLAB_NUM_CACHES \<and> unat n \<le> obj_bytes c \<and> (c = 0 \<or> obj_bytes c < 2 * unat n)"
proof -
  have fits: "n \<le> obj_size (caches h i) \<longleftrightarrow> unat n \<le> obj_bytes i" if "i < SLAB_NUM_CACHES" for i
    using slab_invD(3) [OF inv that] by (simp add: cfg_ok_def word_le_nat_alt)
  have eq: "find_cache n h = scan (\<lambda>i. unat n \<le> obj_bytes i) 0 SLAB_NUM_CACHES"
    unfolding find_cache_def by (rule scan_cong) (auto simp: fits)
  have mono: "obj_bytes i \<le> obj_bytes 11" if "i < SLAB_NUM_CACHES" for i
    unfolding obj_bytes_def using that by (intro mult_le_mono2 power_increasing) (auto simp: SLAB_NUM_CACHES_def)
  have top: "obj_bytes 11 = 65536" by (simp add: obj_bytes_def)
  have "11 < SLAB_NUM_CACHES" by (simp add: SLAB_NUM_CACHES_def)
  then show "find_cache n h = None \<longleftrightarrow> 65536 < unat n"
    unfolding eq scan_None_iff using mono top by (metis le_trans linorder_not_less zero_le)
  assume "find_cache n h = Some c"
  then have c: "c < SLAB_NUM_CACHES" "unat n \<le> obj_bytes c" "\<And>j. j < c \<Longrightarrow> \<not> unat n \<le> obj_bytes j"
    unfolding eq by (auto simp: scan_Some_iff)
  have "c = 0 \<or> obj_bytes c < 2 * unat n"
    using c(3) [of "c - 1"] by (cases c) (auto simp: obj_bytes_def)
  with c show "c < SLAB_NUM_CACHES \<and> unat n \<le> obj_bytes c \<and> (c = 0 \<or> obj_bytes c < 2 * unat n)" by simp
qed

lemma block_nonzero:
  assumes "slab_inv h" and "slot_of h x"
  shows "fst (block_at h x) \<noteq> 0"
proof -
  obtain c s i where eq: "x = (c, s, i)" by (cases x) auto
  have "unat (fst (block_at h x)) \<noteq> 0"
    using slot_addr(3) [of h c s i] assms eq by (simp add: PHYS_MAP_BASE_def)
  then show ?thesis by auto
qed

lemma kmalloc_spec:
  assumes inv: "slab_inv h" and run: "kmalloc n h = (a, h')"
  obtains (fail) "a = 0" "heap_ext h h'" "slots h' = slots h"
  | (ok) x where "a \<noteq> 0" "n \<noteq> 0" "heap_ext h h'" "slot_of h' x" "x \<notin> slots h" "slots h' = insert x (slots h)"
      "fst (block_at h' x) = a" "unat n \<le> snd (block_at h' x)"
      "snd (block_at h' x) = 32 \<or> snd (block_at h' x) < 2 * unat n"
proof (cases "n = 0 \<or> find_cache n h = None")
  case True
  then have "a = 0" "h' = h" using run by (auto simp: kmalloc_def split: if_splits)
  then show ?thesis using fail heap_ext_refl [OF inv] by simp
next
  case False
  then obtain c where c: "find_cache n h = Some c" by auto
  note cs = find_cache_spec(2) [OF inv c]
  have "cache_alloc c h = (a, h')" using run False c by (simp add: kmalloc_def)
  from inv conjunct1 [OF cs] this show ?thesis
  proof (cases rule: cache_alloc_spec)
    case (ok s i)
    have "snd (block_at h' (c, s, i)) = obj_bytes c" by (rule slot_addr(4) [OF heap_extD(1) [OF ok(1)] ok(2)])
    moreover have "c = 0 \<Longrightarrow> obj_bytes c = 32" by (simp add: obj_bytes_def)
    ultimately have "unat n \<le> snd (block_at h' (c, s, i))"
      "snd (block_at h' (c, s, i)) = 32 \<or> snd (block_at h' (c, s, i)) < 2 * unat n" using cs by auto
    moreover have "a \<noteq> 0" using block_nonzero [OF heap_extD(1) [OF ok(1)] ok(2)] ok(4) by simp
    ultimately show ?thesis using that(2) ok(1-3,5) ok(4) [symmetric] False by blast
  qed (use fail in auto)
qed

lemma find_unique:
  "(\<And>y. y \<in> set xs \<Longrightarrow> P y \<longleftrightarrow> y = x) \<Longrightarrow> find P xs = (if x \<in> set xs then Some x else None)"
  by (induction xs) auto

text \<open>The address of a block leads \<open>find_cache_for_ptr\<close> and \<open>cache_free\<close> to its slot.\<close>

lemma find_slab_of_block:
  assumes inv: "slab_inv h" and x: "slot_of h (c, s, i)" and d: "d < SLAB_NUM_CACHES"
  defines "a \<equiv> fst (block_at h (c, s, i))"
  shows "find (slab_owns h d a) (partial (caches h d)) = (if d = c \<and> s \<in> set (partial (caches h c)) then Some s else None)"
    and "find (slab_owns h d a) (full (caches h d)) = (if d = c \<and> s \<in> set (full (caches h c)) then Some s else None)"
proof -
  have own: "slab_owns h d a t \<longleftrightarrow> (d, t) = (c, s)" if "t \<in> listed h d" for t
    unfolding a_def by (rule slab_owns_slot [OF inv x d that])
  have "find (slab_owns h d a) l = (if d = c \<and> s \<in> set l then Some s else None)"
    if sub: "set l \<subseteq> listed h d" for l
  proof (cases "d = c")
    case True
    then show ?thesis using own sub by (subst find_unique [of l _ s]) auto
  next
    case False
    then have "find (slab_owns h d a) l = None" using own sub by (auto simp: find_None_iff)
    then show ?thesis using False by simp
  qed
  from this [of "partial (caches h d)"] this [of "full (caches h d)"]
  show "find (slab_owns h d a) (partial (caches h d)) = (if d = c \<and> s \<in> set (partial (caches h c)) then Some s else None)"
    and "find (slab_owns h d a) (full (caches h d)) = (if d = c \<and> s \<in> set (full (caches h c)) then Some s else None)"
    by (auto simp: listed_def)
qed

lemma find_cache_for_block:
  assumes inv: "slab_inv h" and x: "slot_of h (c, s, i)"
  shows "find_cache_for_ptr (fst (block_at h (c, s, i))) h = Some (c, s, of_nat i)"
proof -
  let ?a = "fst (block_at h (c, s, i))"
  define slab_in where "slab_in d = (case find (slab_owns h d ?a) (partial (caches h d)) of
      Some s \<Rightarrow> Some s | None \<Rightarrow> find (slab_owns h d ?a) (full (caches h d)))" for d
  have c: "c < SLAB_NUM_CACHES" "s \<in> listed h c" using x by (simp_all add: slot_of_def)
  have in_: "slab_in d = (if d = c then Some s else None)" if "d < SLAB_NUM_CACHES" for d
    using find_slab_of_block [OF inv x that] c(2) by (auto simp: slab_in_def listed_def)
  have "scan (\<lambda>d. slab_in d \<noteq> None) 0 SLAB_NUM_CACHES = Some c"
    using c(1) in_ by (auto simp: scan_Some_iff)
  moreover have "obj_index h c ?a s = of_nat i"
    using arg_cong [OF obj_index_slot [OF inv x], of "of_nat :: nat \<Rightarrow> u32"] by simp
  ultimately show ?thesis
    using in_ [OF c(1)] by (simp add: find_cache_for_ptr_def slab_in_def [symmetric])
qed

lemma kfree_spec:
  assumes inv: "slab_inv h" and x: "x \<in> slots h"
  shows "slab_inv (kfree (fst (block_at h x)) h)" and "slots (kfree (fst (block_at h x)) h) = slots h - {x}"
    and "block_at (kfree (fst (block_at h x)) h) = block_at h" and "h_mem (kfree (fst (block_at h x)) h) = h_mem h"
    and "slot_of (kfree (fst (block_at h x)) h) = slot_of h"
proof -
  obtain c s i where eq: "x = (c, s, i)" by (cases x) auto
  let ?a = "fst (block_at h (c, s, i))"
  note so = slots_slot_of [OF x, unfolded eq]
  have c: "c < SLAB_NUM_CACHES" "s \<in> listed h c" using so by (simp_all add: slot_of_def)
  have nz: "?a \<noteq> 0" by (rule block_nonzero [OF inv so])
  have "kfree ?a h = cache_put c ?a s (s \<in> set (full (caches h c))) h"
    using nz find_cache_for_block [OF inv so] find_slab_of_block [OF inv so c(1)] c(2)
      partial_full_disjoint [OF inv c(1), of s]
    by (auto simp: kfree_def cache_free_def listed_def)
  with cache_put_spec [OF inv x [unfolded eq] refl]
  show "slab_inv (kfree (fst (block_at h x)) h)" and "slots (kfree (fst (block_at h x)) h) = slots h - {x}"
    and "block_at (kfree (fst (block_at h x)) h) = block_at h" and "h_mem (kfree (fst (block_at h x)) h) = h_mem h"
    and "slot_of (kfree (fst (block_at h x)) h) = slot_of h"
    by (simp_all add: eq)
qed

section \<open>Initialisation\<close>

lemma slab_init_caches:
  "c < SLAB_NUM_CACHES \<Longrightarrow> caches (slab_init h) c = slab_init_cache c (caches h c)"
proof -
  have "caches (fold (\<lambda>i h. h\<lparr>caches := (caches h)(i := slab_init_cache i (caches h i))\<rparr>) [0..<n] h) c
      = (if c < n then slab_init_cache c (caches h c) else caches h c)" for n and h :: heap
    by (induction n) auto
  then show "c < SLAB_NUM_CACHES \<Longrightarrow> caches (slab_init h) c = slab_init_cache c (caches h c)"
    by (simp add: slab_init_def)
qed

lemma slab_init_fields [simp]:
  "h_pmm (slab_init h) = h_pmm h" "slab_pool_next (slab_init h) = 0" "h_mem (slab_init h) = h_mem h"
proof -
  have "h_pmm (fold (\<lambda>i h. h\<lparr>caches := (caches h)(i := slab_init_cache i (caches h i))\<rparr>) l h) = h_pmm h"
    "slab_pool_next (fold (\<lambda>i h. h\<lparr>caches := (caches h)(i := slab_init_cache i (caches h i))\<rparr>) l h) = slab_pool_next h"
    "h_mem (fold (\<lambda>i h. h\<lparr>caches := (caches h)(i := slab_init_cache i (caches h i))\<rparr>) l h) = h_mem h" for l and h :: heap
    by (induction l arbitrary: h) auto
  then show "h_pmm (slab_init h) = h_pmm h" "slab_pool_next (slab_init h) = 0" "h_mem (slab_init h) = h_mem h"
    by (simp_all add: slab_init_def)
qed

lemma slab_init_cfg: "c < SLAB_NUM_CACHES \<Longrightarrow> cfg_ok c (slab_init_cache c k)"
proof -
  assume "c < SLAB_NUM_CACHES"
  then have "c < 12" by (simp add: SLAB_NUM_CACHES_def)
  then have "c \<in> {0, 1, 2, 3, 4, 5, 6, 7, 8, 9, 10, 11}" unfolding insert_iff empty_iff by presburger
  then show ?thesis
    by (elim insertE emptyE; simp add: cfg_ok_def slab_init_cache_def cache_sizes_def obj_bytes_def
        PAGE_SIZE_def Let_def unsigned_ucast_eq)
qed

lemma slab_inv_init:
  assumes "pmm_inv (h_pmm h)"
  shows "slab_inv (slab_init h)" and "slots (slab_init h) = {}"
proof -
  have "partial (caches (slab_init h) c) = []" "full (caches (slab_init h) c) = []"
    "cfg_ok c (caches (slab_init h) c)" if "c < SLAB_NUM_CACHES" for c
    using slab_init_caches [OF that] slab_init_cfg [OF that] by (simp_all add: slab_init_cache_def Let_def)
  then show "slab_inv (slab_init h)" "slots (slab_init h) = {}"
    using assms by (simp_all add: slab_inv_def slots_def listed_def SLAB_POOL_SIZE_def)
qed

section \<open>The interface to the kernel\<close>

text \<open>
  What the kernel relies on of \<open>kmalloc\<close> and \<open>kfree\<close>: blocks do not overlap, an allocation adds one
  block that is large enough, and freeing a block removes that block and no other.
\<close>

locale block_allocator =
  fixes al_inv :: "'s \<Rightarrow> bool"
    and live_blocks :: "'s \<Rightarrow> (u64 \<times> nat) set"
    and allocate :: "u64 \<Rightarrow> 's \<Rightarrow> u64 \<times> 's"
    and release :: "u64 \<Rightarrow> 's \<Rightarrow> 's"
  assumes disjoint: "al_inv s \<Longrightarrow> b \<in> live_blocks s \<Longrightarrow> b' \<in> live_blocks s \<Longrightarrow> b \<noteq> b' \<Longrightarrow>
      block_bytes b \<inter> block_bytes b' = {}"
    and nonempty: "al_inv s \<Longrightarrow> b \<in> live_blocks s \<Longrightarrow> fst b \<noteq> 0 \<and> 0 < snd b"
    and allocate_inv: "al_inv s \<Longrightarrow> al_inv (snd (allocate n s))"
    and allocate_block: "al_inv s \<Longrightarrow> allocate n s = (a, s') \<Longrightarrow>
      (a = 0 \<and> live_blocks s' = live_blocks s) \<or>
      (\<exists>z. a \<noteq> 0 \<and> unat n \<le> z \<and> (a, z) \<notin> live_blocks s \<and> live_blocks s' = insert (a, z) (live_blocks s))"
    and release_inv: "al_inv s \<Longrightarrow> (a, z) \<in> live_blocks s \<Longrightarrow> al_inv (release a s)"
    and release_block: "al_inv s \<Longrightarrow> (a, z) \<in> live_blocks s \<Longrightarrow> live_blocks (release a s) = live_blocks s - {(a, z)}"
begin

lemma allocate_fresh:
  assumes "al_inv s" and "allocate n s = (a, s')" and "a \<noteq> 0"
  shows "\<exists>z. unat n \<le> z \<and> live_blocks s' = insert (a, z) (live_blocks s)
    \<and> (\<forall>b \<in> live_blocks s. block_bytes (a, z) \<inter> block_bytes b = {})"
proof -
  obtain z where z: "unat n \<le> z" "(a, z) \<notin> live_blocks s" "live_blocks s' = insert (a, z) (live_blocks s)"
    using allocate_block [OF assms(1,2)] assms(3) by auto
  have "al_inv s'" using allocate_inv [OF assms(1), of n] assms(2) by simp
  then have "block_bytes (a, z) \<inter> block_bytes b = {}" if "b \<in> live_blocks s" for b
    using disjoint [of s' "(a, z)" b] z that by auto
  with z show ?thesis by blast
qed

lemma allocate_release:
  assumes "al_inv s" and "allocate n s = (a, s')" and "a \<noteq> 0"
  shows "live_blocks (release a s') = live_blocks s" and "al_inv (release a s')"
proof -
  obtain z where z: "(a, z) \<notin> live_blocks s" "live_blocks s' = insert (a, z) (live_blocks s)"
    using allocate_block [OF assms(1,2)] assms(3) by auto
  have "al_inv s'" using allocate_inv [OF assms(1), of n] assms(2) by simp
  then show "live_blocks (release a s') = live_blocks s" and "al_inv (release a s')"
    using release_block [of s' a z] release_inv [of s' a z] z by auto
qed

end

lemma blocks_cong:
  assumes "heap_ext h h'"
  shows "block_at h' ` slots h = blocks h"
  unfolding blocks_def
  by (rule image_cong) (auto intro: heap_extD(3) [OF assms] slots_slot_of)

lemma new_block:
  assumes ext: "heap_ext h h'" and x: "slot_of h' x" "x \<notin> slots h" "slots h' = insert x (slots h)"
  shows "block_at h' x \<notin> blocks h" and "blocks h' = insert (block_at h' x) (blocks h)"
proof -
  show "block_at h' x \<notin> blocks h"
  proof
    assume "block_at h' x \<in> blocks h"
    then obtain y where y: "y \<in> slots h" "block_at h' x = block_at h' y"
      unfolding blocks_cong [OF ext, symmetric] by auto
    then show False
      using block_at_inj [OF heap_extD(1) [OF ext] x(1), of y] heap_extD(2) [OF ext] slots_slot_of x(2) by blast
  qed
  show "blocks h' = insert (block_at h' x) (blocks h)"
    using blocks_cong [OF ext] x(3) by (simp add: blocks_def)
qed

interpretation kheap: block_allocator slab_inv blocks kmalloc kfree
proof
  fix h h' :: heap and n a :: u64 and z :: nat and b b' :: "u64 \<times> nat"
  assume inv: "slab_inv h"
  show "block_bytes b \<inter> block_bytes b' = {}" if "b \<in> blocks h" "b' \<in> blocks h" "b \<noteq> b'"
  proof -
    obtain x y where "x \<in> slots h" "y \<in> slots h" "b = block_at h x" "b' = block_at h y"
      using \<open>b \<in> blocks h\<close> \<open>b' \<in> blocks h\<close> by (auto simp: blocks_def)
    then show ?thesis using blocks_disjoint [OF inv, of x y] slots_slot_of \<open>b \<noteq> b'\<close> by blast
  qed
  show "fst b \<noteq> 0 \<and> 0 < snd b" if "b \<in> blocks h"
  proof -
    obtain c s i where x: "b = block_at h (c, s, i)" "slot_of h (c, s, i)"
      using \<open>b \<in> blocks h\<close> slots_slot_of by (auto simp: blocks_def)
    then show ?thesis using block_nonzero [OF inv x(2)] slot_addr(4) [OF inv x(2)] obj_bytes_pos by simp
  qed
  show "slab_inv (snd (kmalloc n h))"
    by (rule kmalloc_spec [OF inv, of n "fst (kmalloc n h)" "snd (kmalloc n h)"]) (auto intro: heap_extD(1))
  show "(a = 0 \<and> blocks h' = blocks h) \<or>
      (\<exists>z. a \<noteq> 0 \<and> unat n \<le> z \<and> (a, z) \<notin> blocks h \<and> blocks h' = insert (a, z) (blocks h))"
    if run: "kmalloc n h = (a, h')"
    using inv run
  proof (cases rule: kmalloc_spec)
    case fail
    then show ?thesis using blocks_cong [OF fail(2)] by (simp add: blocks_def)
  next
    case (ok x)
    have eq: "block_at h' x = (a, snd (block_at h' x))" using ok(7) by (simp add: prod_eq_iff)
    moreover note new_block [OF ok(3-6)]
    ultimately show ?thesis using ok eq by metis
  qed
  show "slab_inv (kfree a h)" and "blocks (kfree a h) = blocks h - {(a, z)}" if "(a, z) \<in> blocks h"
  proof -
    obtain x where x: "x \<in> slots h" "block_at h x = (a, z)" using \<open>(a, z) \<in> blocks h\<close> by (auto simp: blocks_def)
    note sp = kfree_spec [OF inv x(1)]
    show "slab_inv (kfree a h)" using sp(1) x by simp
    have "inj_on (block_at h) (slots h)"
      by (rule inj_onI, rule block_at_inj [OF inv]) (auto intro: slots_slot_of)
    then have "block_at h ` (slots h - {x}) = blocks h - {(a, z)}"
      using x by (simp add: blocks_def inj_on_image_set_diff [of _ "slots h"])
    then show "blocks (kfree a h) = blocks h - {(a, z)}" using sp(2,3) x by (simp add: blocks_def)
  qed
qed

lemma h_mem_irrelevant [simp]:
  "slab_inv (h\<lparr>h_mem := m\<rparr>) = slab_inv h" "slots (h\<lparr>h_mem := m\<rparr>) = slots h"
  "block_at (h\<lparr>h_mem := m\<rparr>) = block_at h" "slot_of (h\<lparr>h_mem := m\<rparr>) = slot_of h"
  "blocks (h\<lparr>h_mem := m\<rparr>) = blocks h"
  by (simp_all add: slab_inv_def slots_def block_at_def slot_of_def blocks_def listed_def slab_ok_def
      slab_frames_def fun_eq_iff cong: image_cong)

lemma bytes_apart:
  assumes inv: "slab_inv h" and x: "slot_of h x" and y: "slot_of h y" and ne: "x \<noteq> y"
    and i: "i < snd (block_at h x)" and j: "j < snd (block_at h y)"
  shows "fst (block_at h x) + of_nat i \<noteq> fst (block_at h y) + of_nat j"
proof -
  obtain b where b: "b \<in> slot_bytes h x" "unat (fst (block_at h x) + of_nat i) = unat PHYS_MAP_BASE + b"
    by (rule byte_addr [OF inv x i])
  obtain c where c: "c \<in> slot_bytes h y" "unat (fst (block_at h y) + of_nat j) = unat PHYS_MAP_BASE + c"
    by (rule byte_addr [OF inv y j])
  have "b \<noteq> c" using slot_bytes_disjoint [OF inv x y ne] b(1) c(1) by auto
  then show ?thesis using b(2) c(2) by (metis add_left_cancel)
qed

lemma block_small: "slab_inv h \<Longrightarrow> slot_of h x \<Longrightarrow> snd (block_at h x) \<le> 2 ^ 32"
  using slot_addr(4) slot_within(2) by (cases x) fastforce

lemma krealloc_spec:
  assumes inv: "slab_inv h" and x: "x \<in> slots h" and n: "snd (block_at h x) < unat n"
    and run: "krealloc (fst (block_at h x)) n h = (q, h')"
  obtains (fail) "q = 0" "heap_ext h h'" "slots h' = slots h"
  | (ok) z where "q \<noteq> 0" "slab_inv h'" "unat n \<le> z" "blocks h' = insert (q, z) (blocks h - {block_at h x})"
      "\<And>k. k < snd (block_at h x) \<Longrightarrow> h_mem h' (q + of_nat k) = h_mem h (fst (block_at h x) + of_nat k)"
proof -
  obtain c s i where eq: "x = (c, s, i)" by (cases x) auto
  let ?p = "fst (block_at h x)" and ?z = "snd (block_at h x)"
  have so: "slot_of h x" by (rule slots_slot_of [OF x])
  have nz: "?p \<noteq> 0" by (rule block_nonzero [OF inv so])
  have f: "find_cache_for_ptr ?p h = Some (c, s, of_nat i)"
    using find_cache_for_block [OF inv so [unfolded eq]] eq by simp
  have old: "unat (obj_size (caches h c)) = ?z" by (simp add: eq block_at_def)
  have n0: "n \<noteq> 0" "\<not> n \<le> obj_size (caches h c)" using n old by (auto simp: word_le_nat_alt)
  obtain q1 h1 where m: "kmalloc n h = (q1, h1)" by fastforce
  have res: "(q, h') = (if q1 = 0 then (0, h1) else (q1, kfree ?p (h1\<lparr>h_mem := kmemcpy q1 ?p ?z (h_mem h1)\<rparr>)))"
    using run m nz n0 f old by (auto simp: krealloc_def Let_def split: if_splits)
  from inv m show thesis
  proof (cases rule: kmalloc_spec)
    case fail
    then show thesis using res that(1) by simp
  next
    case (ok y)
    note e = heap_extD [OF ok(3)]
    let ?h2 = "h1\<lparr>h_mem := kmemcpy q1 ?p ?z (h_mem h1)\<rparr>"
    have so1: "slot_of h1 x" and b1: "block_at h1 x = block_at h x" using e(2,3) [OF so] by auto
    have x2: "x \<in> slots ?h2" using x ok(6) by simp
    have h': "h' = kfree (fst (block_at ?h2 x)) ?h2" and q: "q = q1" using res ok(1) b1 by simp_all
    note fr = kfree_spec [OF _ x2, folded h']
    have inv2: "slab_inv ?h2" using e(1) by simp
    have ne: "y \<noteq> x" using x ok(5) by auto
    have "q1 + of_nat i \<noteq> ?p + of_nat j" if "i < ?z" "j < ?z" for i j
      using bytes_apart [OF e(1) ok(4) so1 ne, of i j] that ok(7,8) n b1 by simp
    then have cp: "kmemcpy q1 ?p ?z (h_mem h1) a = (if unat (a - q1) < ?z then h_mem h1 (?p + (a - q1)) else h_mem h1 a)" for a
      using block_small [OF inv so] by (intro kmemcpy_apply) auto
    have copied: "h_mem h' (q + of_nat k) = h_mem h (?p + of_nat k)" if "k < ?z" for k
    proof -
      have "unat (of_nat k :: u64) = k" using that block_small [OF inv so] by (simp add: unat_of_nat)
      then show ?thesis using cp [of "q + of_nat k"] fr(4) [OF inv2] q that e(4) [OF so] by simp
    qed
    have "blocks h' = block_at h1 ` (slots h1 - {x})" using fr(2,3) [OF inv2] by (simp add: blocks_def)
    also have "\<dots> = blocks h1 - {block_at h1 x}"
    proof -
      have "inj_on (block_at h1) (slots h1)"
        by (rule inj_onI, rule block_at_inj [OF e(1)]) (auto intro: slots_slot_of)
      then show ?thesis using x ok(6) by (simp add: blocks_def inj_on_image_set_diff [of _ "slots h1"])
    qed
    finally have bl: "blocks h' = blocks h1 - {block_at h x}" using b1 by simp
    note new = new_block [OF ok(3-6)]
    have "block_at h1 y \<noteq> block_at h x" using new(1) x by (auto simp: blocks_def)
    then have "blocks h' = insert (block_at h1 y) (blocks h - {block_at h x})" using bl new(2) by auto
    moreover have "block_at h1 y = (q, snd (block_at h1 y))" using ok(7) q by (simp add: prod_eq_iff)
    ultimately show thesis using that(2) [of "snd (block_at h1 y)"] copied fr(1) [OF inv2] ok(1,8) q by metis
  qed
qed

section \<open>Properties\<close>

definition heap_demo :: heap where
  "heap_demo = slab_init \<lparr>caches = (\<lambda>_. \<lparr>obj_size = 0, pages_per_slab = 0, obj_per_slab = 0, partial = [], full = []\<rparr>),
     slab_pool = (\<lambda>_. \<lparr>base = 0, phys = 0, total_obj = 0, free_count = 0, s_bitmap = (\<lambda>_. 0), s_cache = 0\<rparr>),
     slab_pool_next = 0, h_pmm = pmm_demo, h_mem = (\<lambda>_. 7)\<rparr>"

lemma heap_demo_inv: "slab_inv heap_demo"
  unfolding heap_demo_def by (rule slab_inv_init) (simp add: pmm_demo_inv)

text \<open>C6: \<open>kmalloc\<close> never hands out memory that is in use. A non-zero answer is the address of a block
  of at least the requested size (of 32 bytes, or less than twice the size) that overlaps no live
  block; it becomes live and no other block changes. A zero answer changes no block, and is the only
  possible one for 0 bytes and for more than 64 KiB. The heap stays well-formed.\<close>

theorem kmalloc_fresh_block:
  assumes "slab_inv h" and "kmalloc n h = (a, h')"
  shows "slab_inv h' \<and> (n = 0 \<or> 65536 < unat n \<longrightarrow> a = 0) \<and>
    (if a = 0 then blocks h' = blocks h
     else \<exists>z. unat n \<le> z \<and> (z = 32 \<or> z < 2 * unat n) \<and> blocks h' = insert (a, z) (blocks h)
       \<and> (\<forall>b \<in> blocks h. block_bytes (a, z) \<inter> block_bytes b = {}))"
proof (intro conjI impI)
  show "slab_inv h'" using kheap.allocate_inv [OF assms(1), of n] assms(2) by simp
  show "a = 0" if "n = 0 \<or> 65536 < unat n"
    using that find_cache_spec(1) [OF assms(1), of n] assms(2) by (auto simp: kmalloc_def split: if_splits)
  show "if a = 0 then blocks h' = blocks h
     else \<exists>z. unat n \<le> z \<and> (z = 32 \<or> z < 2 * unat n) \<and> blocks h' = insert (a, z) (blocks h)
       \<and> (\<forall>b \<in> blocks h. block_bytes (a, z) \<inter> block_bytes b = {})"
    using assms
  proof (cases rule: kmalloc_spec)
    case fail
    then show ?thesis using blocks_cong [OF fail(2)] by (simp add: blocks_def)
  next
    case (ok x)
    obtain z where eq: "block_at h' x = (a, z)" using ok(7) by (cases "block_at h' x") simp
    note new = new_block [OF ok(3-6), unfolded eq]
    have "block_bytes (a, z) \<inter> block_bytes b = {}" if "b \<in> blocks h" for b
      using kheap.disjoint [OF heap_extD(1) [OF ok(3)], of "(a, z)" b] new that by auto
    with ok(8,9) [unfolded eq snd_conv] new(2) have "\<exists>z. unat n \<le> z \<and> (z = 32 \<or> z < 2 * unat n) \<and> blocks h' = insert (a, z) (blocks h)
       \<and> (\<forall>b \<in> blocks h. block_bytes (a, z) \<inter> block_bytes b = {})" by blast
    with ok(1) show ?thesis by (simp only: if_False)
  qed
qed

theorem kmalloc_fresh_block_witness: "slab_inv (snd (kmalloc 100 heap_demo))"
  using kmalloc_fresh_block [of heap_demo 100 "fst (kmalloc 100 heap_demo)" "snd (kmalloc 100 heap_demo)"]
    heap_demo_inv by simp

text \<open>C7: \<open>kfree\<close> of a live block ends exactly that block, whatever cache it is in and whether its slab
  was full or not; \<open>kmalloc\<close> followed by \<open>kfree\<close> restores the live blocks.\<close>

theorem kfree_exact:
  assumes "slab_inv h"
  shows "((a, z) \<in> blocks h \<longrightarrow> slab_inv (kfree a h) \<and> blocks (kfree a h) = blocks h - {(a, z)})
    \<and> (kmalloc n h = (p, h') \<and> p \<noteq> 0 \<longrightarrow> slab_inv (kfree p h') \<and> blocks (kfree p h') = blocks h)"
proof (intro conjI impI)
  show "slab_inv (kfree a h)" and "blocks (kfree a h) = blocks h - {(a, z)}" if "(a, z) \<in> blocks h"
    using that by (rule kheap.release_inv [OF assms], rule kheap.release_block [OF assms])
  show "slab_inv (kfree p h')" and "blocks (kfree p h') = blocks h" if "kmalloc n h = (p, h') \<and> p \<noteq> 0"
    using kheap.allocate_release [OF assms, of n p h'] that by simp_all
qed

lemma heap_demo_alloc: "fst (kmalloc 100 heap_demo) \<noteq> 0"
proof -
  have c2: "caches heap_demo 2 = \<lparr>obj_size = 128, pages_per_slab = 1, obj_per_slab = 32, partial = [], full = []\<rparr>"
    by (simp add: heap_demo_def slab_init_caches SLAB_NUM_CACHES_def slab_init_cache_def cache_sizes_def
        PAGE_SIZE_def Let_def)
  have find: "find_cache 100 heap_demo = Some 2"
    by (simp add: find_cache_def scan.simps heap_demo_def slab_init_caches slab_init_cache_def
        cache_sizes_def SLAB_NUM_CACHES_def Let_def)
  have "bm_find_first_free pmm_demo = Some 1"
    using pmm_demo_inv by (simp add: bm_find_first_free_scan pmm_inv_def)
      (simp add: pmm_demo_def scan.simps bm_test_bit bit_1_iff)
  then obtain pm where al: "pmm_alloc_pages 1 pmm_demo = (4096, pm)"
    by (simp add: pmm_alloc_pages_def pmm_alloc_page_def PAGE_SIZE_def)
  have d: "slab_pool_next heap_demo = 0" "h_pmm heap_demo = pmm_demo" by (simp_all add: heap_demo_def)
  have "slab_bm_find_free sl = Some 0" if "s_bitmap sl = (\<lambda>_. 0)" "total_obj sl = 32" for sl
    using that by (simp add: slab_find_scan scan.simps slab_bm_test_def)
  then show ?thesis
    using al by (simp add: kmalloc_def find cache_alloc_def c2 d slab_create_def slab_pool_alloc_def
        SLAB_POOL_SIZE_def Let_def cache_take_def set_partial_def PHYS_TO_VIRT_def PHYS_MAP_BASE_def
        split: prod.split)
qed

theorem kfree_exact_witness:
  "blocks (kfree (fst (kmalloc 100 heap_demo)) (snd (kmalloc 100 heap_demo))) = blocks heap_demo"
  using kfree_exact [OF heap_demo_inv, of 0 0 100 "fst (kmalloc 100 heap_demo)" "snd (kmalloc 100 heap_demo)"]
    heap_demo_alloc by simp


text \<open>C9: \<open>kcalloc\<close> refuses a product that does not fit in 64 bits, and otherwise returns either NULL or
  a fresh block of at least \<open>count * size\<close> bytes that are all zero.\<close>

theorem kcalloc_zeroed:
  assumes "slab_inv h" and "kcalloc count sz h = (q, h')"
  shows "slab_inv h' \<and> (2 ^ 64 \<le> unat count * unat sz \<longrightarrow> q = 0 \<and> h' = h) \<and>
    (if q = 0 then blocks h' = blocks h
     else \<exists>z. unat count * unat sz \<le> z \<and> blocks h' = insert (q, z) (blocks h)
       \<and> (\<forall>b \<in> blocks h. block_bytes (q, z) \<inter> block_bytes b = {})
       \<and> (\<forall>k < unat count * unat sz. h_mem h' (q + of_nat k) = 0))"
proof (cases "unat count * unat sz < 2 ^ 64")
  case False
  have "\<not> (count \<noteq> 0 \<longrightarrow> count * sz div count = sz)"
  proof
    assume *: "count \<noteq> 0 \<longrightarrow> count * sz div count = sz"
    have "count \<noteq> 0" using False by auto
    then have "unat (count * sz) div unat count = unat sz" using * by (metis unat_div)
    then have "unat sz * unat count \<le> unat (count * sz)" by (metis div_times_less_eq_dividend)
    then show False using False unat64_less [of "count * sz"] by (simp add: mult.commute)
  qed
  then show ?thesis using assms False by (simp add: kcalloc_def Let_def)
next
  case True
  then have prod: "unat (count * sz) = unat count * unat sz" by (simp add: unat_word_ariths)
  then have "count \<noteq> 0 \<longrightarrow> count * sz div count = sz" by (simp add: word_unat_eq_iff unat_div)
  then obtain h1 where m: "kmalloc (count * sz) h = (q, h1)"
    and h': "h' = (if q \<noteq> 0 then h1\<lparr>h_mem := kmemset q 0 (unat count * unat sz) (h_mem h1)\<rparr> else h1)"
    using assms(2) prod by (auto simp: kcalloc_def Let_def split: prod.splits if_splits)
  have inv1: "slab_inv h1" using kheap.allocate_inv [OF assms(1), of "count * sz"] m by simp
  have zero: "h_mem h' (q + of_nat k) = 0" if "q \<noteq> 0" "k < unat count * unat sz" for k
  proof -
    have "unat (of_nat k :: u64) = k" using that True by (simp add: unat_of_nat)
    then show ?thesis using that h' True by (simp add: kmemset_apply)
  qed
  show ?thesis
  proof (cases "q = 0")
    case True
    then show ?thesis using m h' inv1 kheap.allocate_block [OF assms(1) m] \<open>unat count * unat sz < 2 ^ 64\<close> by auto
  next
    case False
    from kheap.allocate_fresh [OF assms(1) m False] zero False h' inv1 prod \<open>unat count * unat sz < 2 ^ 64\<close>
    show ?thesis by auto
  qed
qed

theorem kcalloc_zeroed_witness: "slab_inv (snd (kcalloc 3 5 heap_demo))"
  using kcalloc_zeroed [of heap_demo 3 5 "fst (kcalloc 3 5 heap_demo)" "snd (kcalloc 3 5 heap_demo)"]
    heap_demo_inv by simp


end
