(* ===== verification/Sched.thy ===== *)
theory Sched
  imports Slab
begin

text \<open>
  The coroutine scheduler, \<open>kernel/sched/coroutine.c\<close>. Coroutines are the idle coroutine and the
  slots of a pool of 1024; the run queues are singly linked through the \<open>next\<close> fields, as in the
  code, so that a walk to the end of a corrupted queue may not end: operations that walk a queue
  return \<open>None\<close> in that case. \<open>coro_switch\<close> is the change of \<open>current_coro\<close>; the saved registers are
  the initial stack frame \<open>coro_create\<close> builds (for x86-64). The timer value is an argument, as is
  the address of the assembly routine \<open>coro_entry_trampoline\<close>; the stacks come from the kernel heap.
  Dereferencing \<open>current_coro\<close> before \<open>coro_init\<close> is outside the model.
\<close>

unbundle bit_operations_syntax

section \<open>State\<close>

definition MAX_COROUTINES :: nat where "MAX_COROUTINES = 1024"
abbreviation CORO_STACK_SIZE :: u64 where "CORO_STACK_SIZE \<equiv> 64 * 1024"
abbreviation CORO_NAME_MAX :: nat where "CORO_NAME_MAX \<equiv> 32"
abbreviation CORO_PRIORITY_MAX :: nat where "CORO_PRIORITY_MAX \<equiv> 255"
abbreviation TIMER_FREQ_HZ :: u64 where "TIMER_FREQ_HZ \<equiv> 1000"
abbreviation SCHED_PREEMPT_TICKS :: u32 where "SCHED_PREEMPT_TICKS \<equiv> 1000 div 100"

datatype coro_state = CORO_READY | CORO_RUNNING | CORO_WAITING | CORO_DEAD

text \<open>A pointer to a coroutine: the idle one, or a slot of the pool.\<close>

datatype cid = Idle | Pool nat

record coro =
  rsp :: u64
  stack_base :: u64
  cstate :: coro_state
  priority :: u8
  coro_id :: u32
  wake_tick :: u64
  coro_fn :: u64
  coro_arg :: u64
  nxt :: "cid option"
  cname :: bytes

record sched =
  current_coro :: "cid option"
  coros :: "cid \<Rightarrow> coro"
  run_queues :: "nat \<Rightarrow> cid option"
  coro_used :: "nat \<Rightarrow> bool"
  next_coro_id :: u32
  sched_cancel_broadcast :: bool
  sched_preempt_pending :: bool
  sched_ticks_since_switch :: u32
  sch_heap :: heap

definition modc :: "cid \<Rightarrow> (coro \<Rightarrow> coro) \<Rightarrow> sched \<Rightarrow> sched" where
  "modc c f s = s\<lparr>coros := (coros s)(c := f (coros s c))\<rparr>"

section \<open>Preemption and cancellation flags\<close>

definition scheduler_kernel_timer_tick :: "sched \<Rightarrow> sched" where
  "scheduler_kernel_timer_tick s =
     (let s = s\<lparr>sched_ticks_since_switch := sched_ticks_since_switch s + 1\<rparr>
      in if SCHED_PREEMPT_TICKS \<le> sched_ticks_since_switch s
         then (case current_coro s of
                 Some c \<Rightarrow> if c \<noteq> Idle \<and> cstate (coros s c) = CORO_RUNNING
                           then s\<lparr>sched_preempt_pending := True, sched_ticks_since_switch := 0\<rparr>
                           else s\<lparr>sched_ticks_since_switch := 0\<rparr>
               | None \<Rightarrow> s\<lparr>sched_ticks_since_switch := 0\<rparr>)
         else s)"

definition scheduler_preempt_pending :: "sched \<Rightarrow> bool" where
  "scheduler_preempt_pending s = sched_preempt_pending s"

definition scheduler_preempt_clear :: "sched \<Rightarrow> sched" where
  "scheduler_preempt_clear s = s\<lparr>sched_preempt_pending := False\<rparr>"

definition scheduler_cancel_broadcast_set :: "bool \<Rightarrow> sched \<Rightarrow> sched" where
  "scheduler_cancel_broadcast_set active s = s\<lparr>sched_cancel_broadcast := active\<rparr>"

definition scheduler_cancel_requested :: "sched \<Rightarrow> bool" where
  "scheduler_cancel_requested s = sched_cancel_broadcast s"

section \<open>Run queues\<close>

text \<open>The walk of \<open>enqueue\<close> to the last coroutine of a queue; \<open>None\<close> when the queue is cyclic.\<close>

partial_function (option) last_of :: "(cid \<Rightarrow> cid option) \<Rightarrow> cid \<Rightarrow> cid option" where
  "last_of nx c = (case nx c of None \<Rightarrow> Some c | Some d \<Rightarrow> last_of nx d)"

definition enqueue :: "cid \<Rightarrow> sched \<Rightarrow> sched option" where
  "enqueue c s =
     (let s = modc c (nxt_update (\<lambda>_. None)) s;
          p = unat (priority (coros s c))
      in case run_queues s p of
           None \<Rightarrow> Some (s\<lparr>run_queues := (run_queues s)(p := Some c)\<rparr>)
         | Some h \<Rightarrow>
             (case last_of (\<lambda>d. nxt (coros s d)) h of
                None \<Rightarrow> None
              | Some t \<Rightarrow> Some (modc t (nxt_update (\<lambda>_. Some c)) s)))"

definition pick_next_coro :: "sched \<Rightarrow> cid \<times> sched" where
  "pick_next_coro s =
     (case scan (\<lambda>k. run_queues s (CORO_PRIORITY_MAX - k) \<noteq> None) 0 (CORO_PRIORITY_MAX + 1) of
        None \<Rightarrow> (Idle, s)
      | Some k \<Rightarrow>
          let p = CORO_PRIORITY_MAX - k
          in case run_queues s p of
               None \<Rightarrow> (Idle, s)
             | Some c \<Rightarrow>
                 (c, modc c (nxt_update (\<lambda>_. None))
                       (s\<lparr>run_queues := (run_queues s)(p := nxt (coros s c))\<rparr>)))"

definition alloc_coro :: "sched \<Rightarrow> nat option \<times> sched" where
  "alloc_coro s =
     (case scan (\<lambda>i. \<not> coro_used s i) 0 MAX_COROUTINES of
        None \<Rightarrow> (None, s)
      | Some i \<Rightarrow>
          (Some i, modc (Pool i) (coro_id_update (\<lambda>_. next_coro_id s))
             (s\<lparr>coro_used := (coro_used s)(i := True), next_coro_id := next_coro_id s + 1\<rparr>)))"

definition free_coro :: "nat \<Rightarrow> sched \<Rightarrow> sched" where
  "free_coro i s =
     (if i < MAX_COROUTINES then
        let s = (if stack_base (coros s (Pool i)) \<noteq> 0
                 then modc (Pool i) (stack_base_update (\<lambda>_. 0))
                        (s\<lparr>sch_heap := kfree (stack_base (coros s (Pool i))) (sch_heap s)\<rparr>)
                 else s)
        in s\<lparr>coro_used := (coro_used s)(i := False)\<rparr>
      else s)"

definition wake_one :: "u64 \<Rightarrow> nat \<Rightarrow> sched \<Rightarrow> sched option" where
  "wake_one now i s =
     (let c = coros s (Pool i)
      in if coro_used s i \<and> cstate c = CORO_WAITING \<and> wake_tick c \<noteq> 0 \<and> wake_tick c \<le> now
         then enqueue (Pool i) (modc (Pool i) (\<lambda>c. c\<lparr>cstate := CORO_READY, wake_tick := 0\<rparr>) s)
         else Some s)"

fun wake_loop :: "u64 \<Rightarrow> nat list \<Rightarrow> sched \<Rightarrow> sched option" where
  "wake_loop now [] s = Some s"
| "wake_loop now (i # is) s =
     (case wake_one now i s of None \<Rightarrow> None | Some s \<Rightarrow> wake_loop now is s)"

definition wake_sleeping :: "u64 \<Rightarrow> sched \<Rightarrow> sched option" where
  "wake_sleeping now s = wake_loop now [0..<MAX_COROUTINES] s"

section \<open>Public operations\<close>

text \<open>\<open>coro_strncpy\<close> copies at most \<open>n - 1\<close> bytes of a C string, up to its terminator.\<close>

definition coro_strncpy :: "bytes \<Rightarrow> nat \<Rightarrow> bytes" where
  "coro_strncpy src n = take (n - 1) (takeWhile (\<lambda>b. b \<noteq> 0) src)"

definition coro_init :: "u64 \<Rightarrow> sched \<Rightarrow> sched" where
  "coro_init idle_fn s =
     (modc Idle (\<lambda>c. c\<lparr>cstate := CORO_RUNNING, priority := 0, coro_id := next_coro_id s, coro_fn := idle_fn,
          stack_base := 0, wake_tick := 0, nxt := None, cname := coro_strncpy (str ''idle'') CORO_NAME_MAX\<rparr>) s)
     \<lparr>run_queues := (\<lambda>_. None), coro_used := (\<lambda>_. False), next_coro_id := next_coro_id s + 1,
      current_coro := Some Idle\<rparr>"

definition store64 :: "u64 \<Rightarrow> u64 \<Rightarrow> (u64 \<Rightarrow> u8) \<Rightarrow> u64 \<Rightarrow> u8" where
  "store64 a v m = fold (\<lambda>i m. m(a + of_nat i := ucast (drop_bit (8 * i) v))) [0..<8] m"

definition push64 :: "u64 \<Rightarrow> u64 \<times> (u64 \<Rightarrow> u8) \<Rightarrow> u64 \<times> (u64 \<Rightarrow> u8)" where
  "push64 v = (\<lambda>(sp, m). (sp - 8, store64 (sp - 8) v m))"

definition init_stack :: "u64 \<Rightarrow> u64 \<Rightarrow> u64 \<Rightarrow> u64 \<Rightarrow> (u64 \<Rightarrow> u8) \<Rightarrow> u64 \<times> (u64 \<Rightarrow> u8)" where
  "init_stack trampoline sbase fn arg m =
     fold push64 [arg, fn, trampoline, 0, 0, 0, 0, 0, 0] ((sbase + CORO_STACK_SIZE) AND NOT 0xF, m)"

definition coro_create :: "u64 \<Rightarrow> bytes option \<Rightarrow> u64 \<Rightarrow> u64 \<Rightarrow> u8 \<Rightarrow> sched \<Rightarrow> (cid option \<times> sched) option" where
  "coro_create trampoline name fn arg prio s =
     (case alloc_coro s of
        (None, s) \<Rightarrow> Some (None, s)
      | (Some i, s) \<Rightarrow>
          let (stk, hp) = kmalloc CORO_STACK_SIZE (sch_heap s);
              s = modc (Pool i) (stack_base_update (\<lambda>_. stk)) (s\<lparr>sch_heap := hp\<rparr>)
          in if stk = 0 then Some (None, free_coro i s) else
          let (sp, m) = init_stack trampoline stk fn arg (h_mem hp);
              s = modc (Pool i) (\<lambda>c. c\<lparr>coro_fn := fn, coro_arg := arg, priority := prio, cstate := CORO_READY,
                    wake_tick := 0, nxt := None,
                    cname := coro_strncpy (case name of Some n \<Rightarrow> n | None \<Rightarrow> str ''coro'') CORO_NAME_MAX,
                    rsp := sp\<rparr>) (s\<lparr>sch_heap := hp\<lparr>h_mem := m\<rparr>\<rparr>)
          in (case enqueue (Pool i) s of None \<Rightarrow> None | Some s \<Rightarrow> Some (Some (Pool i), s)))"

definition coro_yield :: "u64 \<Rightarrow> sched \<Rightarrow> sched option" where
  "coro_yield now s =
     (let s = scheduler_preempt_clear s
      in case current_coro s of
           None \<Rightarrow> Some s
         | Some prev \<Rightarrow>
             let s = (if cstate (coros s prev) = CORO_RUNNING
                      then modc prev (cstate_update (\<lambda>_. CORO_READY)) s else s)
             in case wake_sleeping now s of
                  None \<Rightarrow> None
                | Some s \<Rightarrow>
                    (case (if cstate (coros s prev) = CORO_READY then enqueue prev s else Some s) of
                       None \<Rightarrow> None
                     | Some s \<Rightarrow>
                         (case pick_next_coro s of
                            (next, s) \<Rightarrow>
                              if next = prev then Some (modc prev (cstate_update (\<lambda>_. CORO_RUNNING)) s)
                              else Some ((modc next (cstate_update (\<lambda>_. CORO_RUNNING)) s)
                                     \<lparr>current_coro := Some next, sched_ticks_since_switch := 0\<rparr>))))"

text \<open>\<open>coro_sleep\<close> reads the timer at \<open>t0\<close>, and \<open>coro_yield\<close> reads it again at \<open>now\<close>.\<close>

definition coro_sleep :: "u32 \<Rightarrow> u64 \<Rightarrow> u64 \<Rightarrow> sched \<Rightarrow> sched option" where
  "coro_sleep ms t0 now s =
     (case current_coro s of
        None \<Rightarrow> Some s
      | Some c \<Rightarrow> coro_yield now (modc c (\<lambda>k. k\<lparr>cstate := CORO_WAITING,
          wake_tick := t0 + ucast ms * TIMER_FREQ_HZ div 1000\<rparr>) s))"

definition coro_exit :: "u64 \<Rightarrow> sched \<Rightarrow> sched option" where
  "coro_exit now s =
     (case current_coro s of
        None \<Rightarrow> Some s
      | Some c \<Rightarrow> coro_yield now (modc c (cstate_update (\<lambda>_. CORO_DEAD)) s))"

definition reclaim :: "sched \<Rightarrow> sched" where
  "reclaim s = fold (\<lambda>i s. if coro_used s i \<and> cstate (coros s (Pool i)) = CORO_DEAD then free_coro i s else s)
     [0..<MAX_COROUTINES] s"

text \<open>One iteration of the loop of \<open>scheduler_run\<close>.\<close>

definition scheduler_iter :: "u64 \<Rightarrow> sched \<Rightarrow> sched option" where
  "scheduler_iter now s =
     (case wake_sleeping now s of
        None \<Rightarrow> None
      | Some s \<Rightarrow>
          (case (pick_next_coro (reclaim s), current_coro s) of
             ((next, s), None) \<Rightarrow> Some s
           | ((next, s), Some prev) \<Rightarrow>
               if next = Idle \<and> prev = Idle then Some s else
               let s = (if cstate (coros s prev) = CORO_RUNNING
                        then modc prev (cstate_update (\<lambda>_. CORO_READY)) s else s)
               in (case (if cstate (coros s prev) = CORO_READY \<and> prev \<noteq> Idle then enqueue prev s else Some s) of
                     None \<Rightarrow> None
                   | Some s \<Rightarrow>
                       let s = (modc next (cstate_update (\<lambda>_. CORO_RUNNING)) s)\<lparr>current_coro := Some next\<rparr>
                       in Some (if next \<noteq> prev then s\<lparr>sched_ticks_since_switch := 0\<rparr> else s))))"

section \<open>Linked queues as lists\<close>

text \<open>\<open>qlist nx h xs\<close>: following \<open>nx\<close> from the head \<open>h\<close> visits exactly \<open>xs\<close> and then ends.\<close>

fun qlist :: "(cid \<Rightarrow> cid option) \<Rightarrow> cid option \<Rightarrow> cid list \<Rightarrow> bool" where
  "qlist nx h [] \<longleftrightarrow> h = None"
| "qlist nx h (x # xs) \<longleftrightarrow> h = Some x \<and> qlist nx (nx x) xs"

lemma qlist_cong: "(\<And>x. x \<in> set xs \<Longrightarrow> nx x = nx' x) \<Longrightarrow> qlist nx h xs = qlist nx' h xs"
  by (induction xs arbitrary: h) auto

lemma last_of_qlist: "qlist nx (Some x) (x # xs) \<Longrightarrow> last_of nx x = Some (last (x # xs))"
proof (induction xs arbitrary: x)
  case Nil
  then show ?case by (simp add: last_of.simps)
next
  case (Cons y xs)
  then show ?case by (subst last_of.simps) simp
qed

lemma qlist_snoc:
  assumes "qlist nx h xs" and "distinct xs" and "c \<notin> set xs" and "xs \<noteq> []"
  shows "qlist (nx(c := None, last xs := Some c)) h (xs @ [c])"
  using assms
proof (induction xs arbitrary: h)
  case Nil
  then show ?case by simp
next
  case (Cons x xs)
  show ?case
  proof (cases "xs = []")
    case True
    then show ?thesis using Cons.prems by auto
  next
    case False
    then have "last xs \<noteq> x" using Cons.prems by auto
    then show ?thesis using Cons False by auto
  qed
qed

lemma qlist_head: "qlist nx h xs \<Longrightarrow> h = None \<longleftrightarrow> xs = []"
  by (cases xs) auto

text \<open>The fields a scheduler invariant talks about.\<close>

abbreviation links :: "sched \<Rightarrow> cid \<Rightarrow> cid option" where
  "links s \<equiv> (\<lambda>c. nxt (coros s c))"

abbreviation prio :: "sched \<Rightarrow> cid \<Rightarrow> nat" where
  "prio s c \<equiv> unat (priority (coros s c))"

fun is_used :: "sched \<Rightarrow> cid \<Rightarrow> bool" where
  "is_used s Idle = True"
| "is_used s (Pool i) = coro_used s i"

text \<open>
  \<open>queued X Q s\<close>: the run queues are the lists \<open>Q\<close>, each coroutine in them is ready, in use and in the
  queue of its priority; every ready coroutine of the pool is in its queue, but for those in \<open>X\<close>,
  which are in none.
\<close>

definition queued :: "cid set \<Rightarrow> (nat \<Rightarrow> cid list) \<Rightarrow> sched \<Rightarrow> bool" where
  "queued X Q s \<longleftrightarrow>
     (\<forall>p. qlist (links s) (run_queues s p) (Q p) \<and> distinct (Q p)) \<and>
     (\<forall>p. \<forall>c \<in> set (Q p). p = prio s c \<and> cstate (coros s c) = CORO_READY \<and> is_used s c \<and> c \<notin> X) \<and>
     (\<forall>i. coro_used s i \<longrightarrow> i < MAX_COROUTINES) \<and>
     (\<forall>i. coro_used s i \<and> cstate (coros s (Pool i)) = CORO_READY \<and> Pool i \<notin> X
        \<longrightarrow> Pool i \<in> set (Q (prio s (Pool i)))) \<and>
     prio s Idle = 0"

lemma queuedD:
  assumes "queued X Q s"
  shows "qlist (links s) (run_queues s p) (Q p)" and "distinct (Q p)"
    and "c \<in> set (Q p) \<Longrightarrow> p = prio s c" and "c \<in> set (Q p) \<Longrightarrow> cstate (coros s c) = CORO_READY"
    and "c \<in> set (Q p) \<Longrightarrow> is_used s c" and "c \<in> set (Q p) \<Longrightarrow> c \<notin> X"
    and "coro_used s i \<Longrightarrow> i < MAX_COROUTINES"
    and "coro_used s i \<Longrightarrow> cstate (coros s (Pool i)) = CORO_READY \<Longrightarrow> Pool i \<notin> X \<Longrightarrow>
      Pool i \<in> set (Q (prio s (Pool i)))"
    and "prio s Idle = 0"
  using assms unfolding queued_def by blast+

lemma coros_modc [simp]: "coros (modc c f s) d = (if d = c then f (coros s c) else coros s d)"
  by (simp add: modc_def)

lemma modc_fields [simp]:
  "run_queues (modc c f s) = run_queues s" "coro_used (modc c f s) = coro_used s"
  "current_coro (modc c f s) = current_coro s" "sch_heap (modc c f s) = sch_heap s"
  "next_coro_id (modc c f s) = next_coro_id s"
  by (simp_all add: modc_def)

lemma is_used_modc [simp]: "is_used (modc c f s) d = is_used s d"
  by (cases d) simp_all

lemma links_modc_nxt: "links (modc c (nxt_update (\<lambda>_. v)) s) = (links s)(c := v)"
  by (auto simp: fun_eq_iff)

text \<open>Two states of a coroutine that differ in the link only.\<close>

definition same_coro :: "coro \<Rightarrow> coro \<Rightarrow> bool" where
  "same_coro k k' \<longleftrightarrow> (\<exists>v. k' = k\<lparr>nxt := v\<rparr>)"

lemma same_coroD:
  assumes "same_coro k k'"
  shows "cstate k' = cstate k" and "priority k' = priority k" and "wake_tick k' = wake_tick k"
    and "stack_base k' = stack_base k"
  using assms by (auto simp: same_coro_def)

lemma same_coro_refl [simp]: "same_coro k k"
  unfolding same_coro_def by (rule exI [of _ "nxt k"]) simp

lemma same_coro_nxt [simp]: "same_coro k (k\<lparr>nxt := v\<rparr>)"
  by (auto simp: same_coro_def)

lemma same_coro_trans: "same_coro k k' \<Longrightarrow> same_coro k' k'' \<Longrightarrow> same_coro k k''"
  by (auto simp: same_coro_def)

text \<open>The queue of a ready coroutine that is in no queue grows by it at the end.\<close>

lemma enqueue_queued:
  assumes q: "queued X Q s" and c: "c \<in> X" "cstate (coros s c) = CORO_READY" "is_used s c"
  obtains s' where "enqueue c s = Some s'" and "queued (X - {c}) (Q(prio s c := Q (prio s c) @ [c])) s'"
    and "\<And>d. same_coro (coros s d) (coros s' d)"
    and "coro_used s' = coro_used s" and "current_coro s' = current_coro s" and "sch_heap s' = sch_heap s"
proof -
  let ?p = "prio s c" and ?s1 = "modc c (nxt_update (\<lambda>_. None)) s"
  let ?Q = "Q(?p := Q ?p @ [c])"
  have notin: "c \<notin> set (Q p)" for p using queuedD(6) [OF q] c(1) by blast
  have ql: "qlist ((links s)(c := None)) (run_queues s p) (Q p)" for p
    using queuedD(1) [OF q, of p] notin [of p] by (subst qlist_cong [of "Q p" _ "links s"]) auto
  define s' where "s' = (case run_queues s ?p of
      None \<Rightarrow> ?s1\<lparr>run_queues := (run_queues s)(?p := Some c)\<rparr>
    | Some h \<Rightarrow> modc (last (Q ?p)) (nxt_update (\<lambda>_. Some c)) ?s1)"
  have enq: "enqueue c s = Some s'"
  proof (cases "Q ?p")
    case Nil
    then have "run_queues s ?p = None" using queuedD(1) [OF q, of ?p] by simp
    then show ?thesis by (simp add: enqueue_def s'_def Let_def)
  next
    case (Cons x xs)
    then have h: "run_queues s ?p = Some x" using queuedD(1) [OF q, of ?p] by simp
    have "last_of (links ?s1) x = Some (last (x # xs))"
      unfolding links_modc_nxt using ql [of ?p] by (intro last_of_qlist) (simp only: Cons h)
    then show ?thesis using Cons h by (simp add: enqueue_def s'_def Let_def)
  qed
  have lst: "d = c \<or> nxt (coros s' d) = nxt (coros s d)" if "d \<notin> set (Q ?p)" for d
    using that queuedD(1) [OF q, of ?p]
    by (cases "Q ?p") (auto simp: s'_def split: option.splits)
  have same: "same_coro (coros s d) (coros s' d)" for d
    by (auto simp: s'_def split: option.splits)
  have used: "coro_used s' = coro_used s" "current_coro s' = current_coro s" "sch_heap s' = sch_heap s"
    by (auto simp: s'_def split: option.splits)
  have st: "cstate (coros s' d) = cstate (coros s d)" "prio s' d = prio s d" for d
    using same_coroD [OF same [of d]] by simp_all
  have us: "is_used s' d = is_used s d" for d using used by (cases d) simp_all
  have disj: "set (Q p) \<inter> set (Q ?p) = {}" if "p \<noteq> ?p" for p
    unfolding disjoint_iff using queuedD(3) [OF q] that by metis
  have lists: "qlist (links s') (run_queues s' p) (?Q p)" for p
  proof (cases "p = ?p")
    case False
    have "run_queues s' p = run_queues s p" using False by (auto simp: s'_def split: option.splits)
    moreover have "nxt (coros s' d) = links s d" if "d \<in> set (Q p)" for d
      using lst [of d] disj [OF False] notin [of p] that by auto
    ultimately show ?thesis
      using queuedD(1) [OF q, of p] False by (subst qlist_cong [of _ _ "links s"]) auto
  next
    case True
    show ?thesis
    proof (cases "Q ?p = []")
      case empty: True
      then have "run_queues s ?p = None" using queuedD(1) [OF q, of ?p] by simp
      then show ?thesis using True empty by (simp add: s'_def)
    next
      case False
      then obtain h where h: "run_queues s ?p = Some h" using queuedD(1) [OF q, of ?p] qlist_head by fastforce
      have "links s' = (links s)(c := None, last (Q ?p) := Some c)"
        using h by (auto simp: s'_def fun_eq_iff)
      then show ?thesis
        using qlist_snoc [OF queuedD(1) [OF q, of ?p] queuedD(2) [OF q] notin False] True h by (simp add: s'_def)
    qed
  qed
  have "queued (X - {c}) ?Q s'"
    unfolding queued_def
  proof (intro conjI allI ballI impI)
    fix p show "qlist (links s') (run_queues s' p) (?Q p)" by (rule lists)
    show "distinct (?Q p)" using queuedD(2) [OF q] notin by simp
  next
    fix p d assume d: "d \<in> set (?Q p)"
    then have "p = prio s d \<and> cstate (coros s d) = CORO_READY \<and> is_used s d \<and> d \<notin> X - {c}"
      using queuedD(3-6) [OF q] c by (auto split: if_splits)
    then show "p = prio s' d" "cstate (coros s' d) = CORO_READY" "is_used s' d" "d \<notin> X - {c}"
      by (simp_all add: st us)
  next
    show "i < MAX_COROUTINES" if "coro_used s' i" for i using that queuedD(7) [OF q] used by simp
    show "Pool i \<in> set (?Q (prio s' (Pool i)))"
      if "coro_used s' i \<and> cstate (coros s' (Pool i)) = CORO_READY \<and> Pool i \<notin> X - {c}" for i
      using that queuedD(8) [OF q, of i] by (auto simp: st used)
    show "prio s' Idle = 0" using queuedD(9) [OF q] by (simp add: st)
  qed
  with enq same used show ?thesis using that by blast
qed

text \<open>Changing a coroutine that is in no queue.\<close>

lemma queued_modc:
  assumes q: "queued X Q s" and out: "\<And>p. c \<notin> set (Q p)"
    and f: "c = Idle \<Longrightarrow> priority (f (coros s c)) = priority (coros s c)"
    and X: "X' - {c} = X - {c}" "cstate (f (coros s c)) = CORO_READY \<Longrightarrow> c \<in> X'"
  shows "queued X' Q (modc c f s)"
  unfolding queued_def
proof (intro conjI allI ballI impI)
  fix p
  show "qlist (links (modc c f s)) (run_queues (modc c f s) p) (Q p)"
    using queuedD(1) [OF q, of p] out [of p] by (subst qlist_cong [of _ _ "links s"]) auto
  show "distinct (Q p)" by (rule queuedD(2) [OF q])
next
  fix p d assume d: "d \<in> set (Q p)"
  then have ne: "d \<noteq> c" using out by auto
  show "p = prio (modc c f s) d" "cstate (coros (modc c f s) d) = CORO_READY" "is_used (modc c f s) d"
    using queuedD(3-5) [OF q d] ne by simp_all
  show "d \<notin> X'" using queuedD(6) [OF q d] ne X(1) by auto
next
  show "i < MAX_COROUTINES" if "coro_used (modc c f s) i" for i using that queuedD(7) [OF q] by simp
  show "Pool i \<in> set (Q (prio (modc c f s) (Pool i)))"
    if "coro_used (modc c f s) i \<and> cstate (coros (modc c f s) (Pool i)) = CORO_READY \<and> Pool i \<notin> X'" for i
  proof -
    have "Pool i \<noteq> c" using that X(2) by auto
    then show ?thesis using that queuedD(8) [OF q, of i] X(1) by auto
  qed
  show "prio (modc c f s) Idle = 0" using queuedD(9) [OF q] f by (cases "c = Idle") auto
qed

lemma not_ready_out:
  "queued X Q s \<Longrightarrow> cstate (coros s c) \<noteq> CORO_READY \<Longrightarrow> c \<notin> set (Q p)"
  using queuedD(4) by blast

text \<open>The head of the highest non-empty queue, or the idle coroutine.\<close>

definition is_pick :: "(nat \<Rightarrow> cid list) \<Rightarrow> cid \<Rightarrow> (nat \<Rightarrow> cid list) \<Rightarrow> bool" where
  "is_pick Q c Q' \<longleftrightarrow> ((\<forall>p. Q p = []) \<and> c = Idle \<and> Q' = Q) \<or>
     (\<exists>p. Q p \<noteq> [] \<and> (\<forall>r > p. Q r = []) \<and> c = hd (Q p) \<and> Q' = Q(p := tl (Q p)))"

lemma queue_range: "queued X Q s \<Longrightarrow> Q p \<noteq> [] \<Longrightarrow> p \<le> CORO_PRIORITY_MAX"
proof -
  assume q: "queued X Q s" and "Q p \<noteq> []"
  then obtain c where "c \<in> set (Q p)" by (cases "Q p") auto
  then have "p = prio s c" by (rule queuedD(3) [OF q])
  moreover have "prio s c < 2 ^ 8" by (rule less_le_trans [OF unsigned_less]) simp
  ultimately show ?thesis by simp
qed

lemma pick_queued:
  assumes q: "queued X Q s" and run: "pick_next_coro s = (c, s')"
  obtains Q' where "is_pick Q c Q'" and "queued (insert c X) Q' s'" and "\<And>p. c \<notin> set (Q' p)"
    and "c = Idle \<or> cstate (coros s c) = CORO_READY" and "is_used s c"
    and "\<And>d. same_coro (coros s d) (coros s' d)"
    and "coro_used s' = coro_used s" and "current_coro s' = current_coro s" and "sch_heap s' = sch_heap s"
proof -
  have rq: "run_queues s p = None \<longleftrightarrow> Q p = []" for p by (rule qlist_head [OF queuedD(1) [OF q]])
  show thesis
  proof (cases "scan (\<lambda>k. run_queues s (CORO_PRIORITY_MAX - k) \<noteq> None) 0 (CORO_PRIORITY_MAX + 1)")
    case None
    have empty: "Q p = []" for p
    proof (rule ccontr)
      assume ne: "Q p \<noteq> []"
      then have "p \<le> CORO_PRIORITY_MAX" by (rule queue_range [OF q])
      then show False using None rq [of p] ne by (auto simp: scan_None_iff dest!: spec [of _ "CORO_PRIORITY_MAX - p"])
    qed
    have "c = Idle" "s' = s" using run None by (simp_all add: pick_next_coro_def)
    moreover have "queued (insert Idle X) Q s" using q empty by (auto simp: queued_def)
    ultimately show thesis using that [of Q] empty by (simp add: is_pick_def)
  next
    case (Some k)
    define p where "p = CORO_PRIORITY_MAX - k"
    note k = scan_SomeD [OF Some]
    obtain x xs where Qp: "Q p = x # xs" using k(3) rq [of p] by (cases "Q p") (auto simp: p_def)
    have h: "run_queues s p = Some x" and tl: "qlist (links s) (links s x) xs"
      using queuedD(1) [OF q, of p] Qp by simp_all
    have cs: "c = x" "s' = modc x (nxt_update (\<lambda>_. None)) (s\<lparr>run_queues := (run_queues s)(p := links s x)\<rparr>)"
      using run Some h by (auto simp: pick_next_coro_def p_def [symmetric] Let_def)
    have above: "Q r = []" if "p < r" for r
    proof (rule ccontr)
      assume ne: "Q r \<noteq> []"
      have r: "r \<le> CORO_PRIORITY_MAX" by (rule queue_range [OF q ne])
      then have "CORO_PRIORITY_MAX - r < k" using that by (auto simp: p_def)
      then show False using k(4) [of "CORO_PRIORITY_MAX - r"] rq [of r] ne r by simp
    qed
    have x: "x \<in> set (Q p)" using Qp by simp
    note xD = queuedD(3-6) [OF q x]
    let ?Q = "Q(p := xs)"
    have out: "x \<notin> set (?Q r)" for r
      using queuedD(2) [OF q, of p] Qp queuedD(3) [OF q, of x r] xD(1) by auto
    have "queued (insert x X) ?Q s'"
      unfolding queued_def
    proof (intro conjI allI ballI impI)
      fix r
      have "qlist (links s) (((run_queues s)(p := links s x)) r) (?Q r)"
        using queuedD(1) [OF q, of r] tl by simp
      then show "qlist (links s') (run_queues s' r) (?Q r)"
        using out [of r] by (subst qlist_cong [of _ _ "links s"]) (auto simp: cs)
      show "distinct (?Q r)" using queuedD(2) [OF q, of r] queuedD(2) [OF q, of p] Qp by simp
    next
      fix r d assume d: "d \<in> set (?Q r)"
      then have dQ: "d \<in> set (Q r)" using Qp by (auto split: if_splits)
      have "d \<noteq> x" using d out by auto
      then show "r = prio s' d" "cstate (coros s' d) = CORO_READY" "is_used s' d" "d \<notin> insert x X"
        using queuedD(3-6) [OF q dQ] by (cases d; simp add: cs)+
    next
      show "i < MAX_COROUTINES" if "coro_used s' i" for i using that queuedD(7) [OF q] by (simp add: cs)
      show "Pool i \<in> set (?Q (prio s' (Pool i)))"
        if "coro_used s' i \<and> cstate (coros s' (Pool i)) = CORO_READY \<and> Pool i \<notin> insert x X" for i
      proof -
        have "Pool i \<in> set (Q (prio s (Pool i)))" using that queuedD(8) [OF q, of i] by (auto simp: cs)
        then show ?thesis using that Qp by (auto simp: cs)
      qed
      show "prio s' Idle = 0" using queuedD(9) [OF q] by (simp add: cs)
    qed
    moreover have "is_pick Q x ?Q" using Qp above by (auto simp: is_pick_def intro!: exI [of _ p])
    moreover have "same_coro (coros s d) (coros s' d)" for d by (simp add: cs)
    ultimately show thesis using that [of ?Q] out xD by (simp add: cs)
  qed
qed

section \<open>Waking\<close>

definition wakes :: "u64 \<Rightarrow> sched \<Rightarrow> nat \<Rightarrow> bool" where
  "wakes now s i \<longleftrightarrow> coro_used s i \<and> cstate (coros s (Pool i)) = CORO_WAITING
     \<and> wake_tick (coros s (Pool i)) \<noteq> 0 \<and> wake_tick (coros s (Pool i)) \<le> now"

definition wake_coro :: "coro \<Rightarrow> coro" where
  "wake_coro k = k\<lparr>cstate := CORO_READY, wake_tick := 0\<rparr>"

lemma same_coro_wake:
  assumes "same_coro k k'"
  shows "same_coro (wake_coro k) (wake_coro k')"
proof -
  obtain v where "k' = k\<lparr>nxt := v\<rparr>" using assms by (auto simp: same_coro_def)
  then have "wake_coro k' = (wake_coro k)\<lparr>nxt := v\<rparr>" by (simp add: wake_coro_def)
  then show ?thesis by (auto simp: same_coro_def)
qed

definition after_wake :: "u64 \<Rightarrow> nat list \<Rightarrow> sched \<Rightarrow> cid \<Rightarrow> coro" where
  "after_wake now is s d =
     (if d \<in> Pool ` {i \<in> set is. wakes now s i} then wake_coro (coros s d) else coros s d)"

definition wake_queue :: "u64 \<Rightarrow> nat list \<Rightarrow> sched \<Rightarrow> (nat \<Rightarrow> cid list) \<Rightarrow> nat \<Rightarrow> cid list" where
  "wake_queue now is s Q p = Q p @ map Pool (filter (\<lambda>i. wakes now s i \<and> prio s (Pool i) = p) is)"

lemma wakes_cong:
  assumes "same_coro (coros s (Pool j)) (coros s' (Pool j))" and "coro_used s' = coro_used s"
  shows "wakes now s' j = wakes now s j"
  using same_coroD [OF assms(1)] assms(2) by (simp add: wakes_def)

lemma wake_queue_cong:
  assumes "\<And>i. wakes now s' i = wakes now s i" and "\<And>i. prio s' (Pool i) = prio s (Pool i)"
  shows "wake_queue now l s' Q = wake_queue now l s Q"
  unfolding wake_queue_def assms ..

lemma wake_loop_queued:
  assumes "queued X Q s" and "\<And>c. c \<in> X \<Longrightarrow> cstate (coros s c) = CORO_READY" and "distinct is"
  shows "\<exists>s'. wake_loop now is s = Some s' \<and> queued X (wake_queue now is s Q) s'
    \<and> (\<forall>d. same_coro (after_wake now is s d) (coros s' d))
    \<and> coro_used s' = coro_used s \<and> current_coro s' = current_coro s \<and> sch_heap s' = sch_heap s"
  using assms
proof (induction "is" arbitrary: Q s)
  case Nil
  then show ?case by (simp add: wake_queue_def after_wake_def)
next
  case (Cons i "is")
  show ?case
  proof (cases "wakes now s i")
    case False
    then have one: "wake_one now i s = Some s" by (auto simp: wake_one_def wakes_def Let_def)
    have aw: "after_wake now (i # is) s = after_wake now is s" using False by (auto simp: after_wake_def fun_eq_iff)
    have wq: "wake_queue now (i # is) s Q = wake_queue now is s Q"
      using False by (auto simp: wake_queue_def fun_eq_iff)
    show ?thesis using Cons.IH [OF Cons.prems(1,2)] Cons.prems(3) one by (simp add: aw wq)
  next
    case True
    let ?c = "Pool i" and ?s1 = "modc (Pool i) wake_coro s"
    have wait: "cstate (coros s ?c) = CORO_WAITING" "coro_used s i" using True by (simp_all add: wakes_def)
    have out: "?c \<notin> X" using Cons.prems(2) [of ?c] wait by auto
    have q1: "queued (insert ?c X) Q ?s1"
      using not_ready_out [OF Cons.prems(1), of ?c] wait out
      by (intro queued_modc [OF Cons.prems(1)]) (auto simp: wake_coro_def)
    have c: "?c \<in> insert ?c X" "cstate (coros ?s1 ?c) = CORO_READY" "is_used ?s1 ?c"
      using wait by (simp_all add: wake_coro_def)
    obtain s2 where e: "enqueue ?c ?s1 = Some s2"
      and q2: "queued (insert ?c X - {?c}) (Q(prio ?s1 ?c := Q (prio ?s1 ?c) @ [?c])) s2"
      and same: "\<And>d. same_coro (coros ?s1 d) (coros s2 d)"
      and f: "coro_used s2 = coro_used ?s1" "current_coro s2 = current_coro ?s1" "sch_heap s2 = sch_heap ?s1"
      by (rule enqueue_queued [OF q1 c]) blast
    have one: "wake_one now i s = Some s2"
      using e True by (simp add: wake_one_def wakes_def Let_def wake_coro_def [abs_def])
    have X: "insert ?c X - {?c} = X" using out by auto
    have pr: "prio ?s1 ?c = prio s ?c" by (simp add: wake_coro_def)
    have old: "same_coro (coros s d) (coros s2 d)" if "d \<noteq> ?c" for d using same [of d] that by simp
    have wk: "wakes now s2 j = wakes now s j" "prio s2 (Pool j) = prio s (Pool j)" if "j \<in> set is" for j
    proof -
      have "Pool j \<noteq> ?c" using that Cons.prems(3) by auto
      note o = old [OF this]
      show "wakes now s2 j = wakes now s j" by (rule wakes_cong [OF o]) (simp add: f)
      show "prio s2 (Pool j) = prio s (Pool j)" using same_coroD(2) [OF o] by simp
    qed
    have distinct_is: "distinct is" using Cons.prems(3) by simp
    have rdy: "cstate (coros s2 c) = CORO_READY" if "c \<in> X" for c
      using Cons.prems(2) [OF that] same_coroD(1) [OF old, of c] that out by auto
    obtain s' where IH: "wake_loop now is s2 = Some s'"
      "queued X (wake_queue now is s2 (Q(prio s ?c := Q (prio s ?c) @ [?c]))) s'"
      "\<And>d. same_coro (after_wake now is s2 d) (coros s' d)"
      "coro_used s' = coro_used s2" "current_coro s' = current_coro s2" "sch_heap s' = sch_heap s2"
      using Cons.IH [OF q2 [unfolded X pr] rdy distinct_is] by blast
    have fil: "filter (\<lambda>j. wakes now s2 j \<and> prio s2 (Pool j) = p) is
        = filter (\<lambda>j. wakes now s j \<and> prio s (Pool j) = p) is" for p
      by (rule filter_cong) (auto simp: wk)
    have wq: "wake_queue now is s2 (Q(prio s ?c := Q (prio s ?c) @ [?c])) = wake_queue now (i # is) s Q"
      using True by (auto simp: wake_queue_def fun_eq_iff fil)
    have "same_coro (after_wake now (i # is) s d) (after_wake now is s2 d)" for d
    proof (cases "d = ?c")
      case d: True
      then have "d \<notin> Pool ` {j \<in> set is. wakes now s2 j}" using Cons.prems(3) by auto
      then show ?thesis using d True same [of d] by (simp add: after_wake_def)
    next
      case False
      have "d \<in> Pool ` {j \<in> set is. wakes now s2 j} \<longleftrightarrow> d \<in> Pool ` {j \<in> set (i # is). wakes now s j}"
        using False wk(1) by auto
      then show ?thesis using old [OF False] same_coro_wake [OF old [OF False]] by (simp add: after_wake_def)
    qed
    then have "same_coro (after_wake now (i # is) s d) (coros s' d)" for d using IH(3) same_coro_trans by blast
    then show ?thesis using one IH f by (simp add: wq)
  qed
qed

lemma wake_sleeping_queued:
  assumes "queued X Q s" and "\<And>c. c \<in> X \<Longrightarrow> cstate (coros s c) = CORO_READY"
  obtains s' where "wake_sleeping now s = Some s'" and "queued X (wake_queue now [0..<MAX_COROUTINES] s Q) s'"
    and "\<And>d. same_coro (after_wake now [0..<MAX_COROUTINES] s d) (coros s' d)"
    and "coro_used s' = coro_used s" and "current_coro s' = current_coro s" and "sch_heap s' = sch_heap s"
  using wake_loop_queued [OF assms, of "[0..<MAX_COROUTINES]" now] that unfolding wake_sleeping_def by auto

section \<open>Yielding\<close>

text \<open>
  A well-formed scheduler: the current coroutine is the only running one, and \<open>Q\<close> are the run
  queues. \<open>switching\<close> is the weaker condition in which \<open>coro_yield\<close> may be called: the current
  coroutine may also have gone to sleep or have ended.
\<close>

definition switching :: "(nat \<Rightarrow> cid list) \<Rightarrow> cid \<Rightarrow> sched \<Rightarrow> bool" where
  "switching Q c s \<longleftrightarrow> queued {} Q s \<and> current_coro s = Some c \<and> is_used s c
     \<and> cstate (coros s c) \<noteq> CORO_READY
     \<and> (\<forall>d. is_used s d \<and> cstate (coros s d) = CORO_RUNNING \<longrightarrow> d = c)"

definition sched_ok :: "(nat \<Rightarrow> cid list) \<Rightarrow> cid \<Rightarrow> sched \<Rightarrow> bool" where
  "sched_ok Q c s \<longleftrightarrow> switching Q c s \<and> cstate (coros s c) = CORO_RUNNING"

text \<open>The queues after the current coroutine \<open>c\<close> gave way: the woken ones are appended, then \<open>c\<close>.\<close>

definition yield_queue :: "u64 \<Rightarrow> sched \<Rightarrow> cid \<Rightarrow> (nat \<Rightarrow> cid list) \<Rightarrow> nat \<Rightarrow> cid list" where
  "yield_queue now s c Q =
     (let W = wake_queue now [0..<MAX_COROUTINES] s Q
      in if cstate (coros s c) = CORO_RUNNING then W(prio s c := W (prio s c) @ [c]) else W)"

definition self_wake :: "u64 \<Rightarrow> sched \<Rightarrow> cid \<Rightarrow> bool" where
  "self_wake now s c \<longleftrightarrow> (\<exists>i < MAX_COROUTINES. c = Pool i \<and> wakes now s i)"

lemma no_self_wake:
  assumes "\<not> self_wake now s c"
  shows "after_wake now [0..<MAX_COROUTINES] s c = coros s c"
  using assms by (auto simp: self_wake_def after_wake_def)

lemma after_wake_running:
  "cstate (after_wake now l s d) = CORO_RUNNING \<longleftrightarrow> cstate (coros s d) = CORO_RUNNING"
  by (auto simp: after_wake_def wake_coro_def wakes_def)

text \<open>What no switch changes: the pool, the heap, the stacks.\<close>

definition kept :: "sched \<Rightarrow> sched \<Rightarrow> bool" where
  "kept s s' \<longleftrightarrow> coro_used s' = coro_used s \<and> sch_heap s' = sch_heap s
     \<and> (\<forall>d. stack_base (coros s' d) = stack_base (coros s d))"

lemma kept_trans: "kept s s1 \<Longrightarrow> kept s1 s2 \<Longrightarrow> kept s s2"
  by (simp add: kept_def)

text \<open>The last step: the coroutine picked becomes the running one.\<close>

lemma run_picked:
  assumes q: "queued {} Q s" and none: "\<And>d. is_used s d \<Longrightarrow> cstate (coros s d) \<noteq> CORO_RUNNING"
    and pick: "pick_next_coro s = (n, s1)"
  defines "r \<equiv> modc n (cstate_update (\<lambda>_. CORO_RUNNING)) s1"
  obtains Q' where "is_pick Q n Q'"
    and "\<And>t. sched_ok Q' n (r\<lparr>current_coro := Some n, sched_ticks_since_switch := t\<rparr>)"
    and "kept s r" and "\<And>d. d \<noteq> n \<Longrightarrow> same_coro (coros s d) (coros r d)"
    and "current_coro r = current_coro s"
proof -
  obtain Q' where p: "is_pick Q n Q'" and q1: "queued (insert n {}) Q' s1" and out: "\<And>p. n \<notin> set (Q' p)"
    and used: "is_used s n" and same: "\<And>d. same_coro (coros s d) (coros s1 d)"
    and u: "coro_used s1 = coro_used s" "current_coro s1 = current_coro s" "sch_heap s1 = sch_heap s"
    by (rule pick_queued [OF q pick]) blast
  have us: "is_used s1 d = is_used s d" for d using u by (cases d) simp_all
  have q2: "queued {} Q' r" unfolding r_def by (rule queued_modc [OF q1 out]) auto
  have "queued {} Q' (r\<lparr>current_coro := c, sched_ticks_since_switch := t\<rparr>)" for c t
  proof -
    have "is_used (r\<lparr>current_coro := c, sched_ticks_since_switch := t\<rparr>) d = is_used r d" for d
      by (cases d) simp_all
    then show ?thesis using q2 by (simp add: queued_def)
  qed
  moreover have "is_used (r\<lparr>current_coro := c, sched_ticks_since_switch := t\<rparr>) d = is_used s d" for c d t
    using us [of d] by (cases d) (simp_all add: r_def)
  moreover have "cstate (coros s1 d) \<noteq> CORO_RUNNING" if "is_used s d" for d
    using none [OF that] same_coroD(1) [OF same [of d]] by simp
  ultimately have "sched_ok Q' n (r\<lparr>current_coro := Some n, sched_ticks_since_switch := t\<rparr>)" for t
    using used by (auto simp: sched_ok_def switching_def r_def)
  moreover have "kept s r" using u same_coroD(4) [OF same] by (simp add: kept_def r_def)
  ultimately show ?thesis using that [OF p] same u by (simp add: r_def)
qed

lemma coro_yield_spec:
  assumes sw: "switching Q c s" and nsw: "\<not> self_wake now s c"
  obtains n Q' s' where "coro_yield now s = Some s'" and "is_pick (yield_queue now s c Q) n Q'" and "sched_ok Q' n s'"
    and "kept s s'" and "\<And>d. d \<noteq> n \<Longrightarrow> d \<noteq> c \<Longrightarrow> same_coro (after_wake now [0..<MAX_COROUTINES] s d) (coros s' d)"
    and "n \<noteq> c \<Longrightarrow> cstate (coros s' c) = (if cstate (coros s c) = CORO_RUNNING then CORO_READY else cstate (coros s c))"
    and "n \<noteq> c \<Longrightarrow> wake_tick (coros s' c) = wake_tick (coros s c)"
proof -
  have q: "queued {} Q s" and cur: "current_coro s = Some c" and used: "is_used s c"
    and nr: "cstate (coros s c) \<noteq> CORO_READY"
    and uniq: "\<And>d. is_used s d \<Longrightarrow> cstate (coros s d) = CORO_RUNNING \<Longrightarrow> d = c"
    using sw by (auto simp: switching_def)
  define running where "running \<longleftrightarrow> cstate (coros s c) = CORO_RUNNING"
  define s0 where "s0 = scheduler_preempt_clear s"
  have s0: "coros s0 = coros s" "run_queues s0 = run_queues s" "coro_used s0 = coro_used s"
    "current_coro s0 = current_coro s" "sch_heap s0 = sch_heap s" by (simp_all add: s0_def scheduler_preempt_clear_def)
  have us0: "is_used s0 d = is_used s d" for d using s0 by (cases d) simp_all
  have q0: "queued {} Q s0" using q unfolding queued_def us0 s0 .
  define s1 where "s1 = (if running then modc c (cstate_update (\<lambda>_. CORO_READY)) s0 else s0)"
  define X where "X = (if running then {c} else {})"
  have q1: "queued X Q s1"
    using queued_modc [OF q0, of c "cstate_update (\<lambda>_. CORO_READY)" "{c}"] not_ready_out [OF q0, of c] nr q0
    by (auto simp: s1_def X_def s0)
  have X: "cstate (coros s1 d) = CORO_READY" if "d \<in> X" for d using that by (auto simp: X_def s1_def split: if_splits)
  obtain s2 where w: "wake_sleeping now s1 = Some s2" and q2: "queued X (wake_queue now [0..<MAX_COROUTINES] s1 Q) s2"
    and same2: "\<And>d. same_coro (after_wake now [0..<MAX_COROUTINES] s1 d) (coros s2 d)"
    and f2: "coro_used s2 = coro_used s1" "current_coro s2 = current_coro s1" "sch_heap s2 = sch_heap s1"
    by (rule wake_sleeping_queued [OF q1 X, where now = now]) blast+
  have wk: "wakes now s1 i = wakes now s i" and pr: "prio s1 (Pool i) = prio s (Pool i)" for i
    by (auto simp: s1_def wakes_def running_def s0)
  have wq: "wake_queue now [0..<MAX_COROUTINES] s1 Q = wake_queue now [0..<MAX_COROUTINES] s Q"
    by (rule wake_queue_cong [OF wk pr])
  have us: "is_used s2 d = is_used s d" "is_used s1 d = is_used s d" for d
    using f2 s0 by (cases d; simp add: s1_def)+
  have "\<not> self_wake now s1 c" using nsw by (simp add: self_wake_def wk)
  then have c2: "same_coro (coros s1 c) (coros s2 c)" using same2 [of c] by (simp add: no_self_wake)
  have st2: "cstate (coros s2 c) = CORO_READY \<longleftrightarrow> running"
    using same_coroD(1) [OF c2] nr by (simp add: s1_def s0 running_def)
  have none2: "cstate (coros s2 d) \<noteq> CORO_RUNNING" if "is_used s d" for d
  proof
    assume "cstate (coros s2 d) = CORO_RUNNING"
    then have r1: "cstate (coros s1 d) = CORO_RUNNING"
      using same_coroD(1) [OF same2 [of d]] by (simp add: after_wake_running)
    then have "cstate (coros s d) = CORO_RUNNING" by (simp add: s1_def s0 split: if_splits)
    then have "d = c" by (rule uniq [OF that])
    with r1 show False by (simp add: s1_def s0 running_def split: if_splits)
  qed
  have k2: "kept s s2"
    using f2 s0 same_coroD(4) [OF same2] by (simp add: kept_def s1_def after_wake_def wake_coro_def)
  define en where "en = (if running then enqueue c s2 else Some s2)"
  obtain s3 where e: "en = Some s3" and q3: "queued {} (yield_queue now s c Q) s3"
    and same3: "\<And>d. same_coro (coros s2 d) (coros s3 d)"
    and f3: "coro_used s3 = coro_used s2" "current_coro s3 = current_coro s2" "sch_heap s3 = sch_heap s2"
  proof (cases running)
    case False
    then show thesis using that [of s2] q2 by (simp add: en_def X_def yield_queue_def Let_def wq running_def)
  next
    case True
    have p2: "prio s2 c = prio s c" using same_coroD(2) [OF c2] by (simp add: s1_def s0)
    have cX: "c \<in> X" "cstate (coros s2 c) = CORO_READY" "is_used s2 c" using True st2 used us by (simp_all add: X_def)
    show thesis
      by (rule enqueue_queued [OF q2 cX])
        (use that True in \<open>simp add: en_def X_def p2 yield_queue_def Let_def wq running_def\<close>)
  qed
  have us3: "is_used s3 d = is_used s d" for d using f3 us [of d] by (cases d) simp_all
  have none3: "cstate (coros s3 d) \<noteq> CORO_RUNNING" if "is_used s3 d" for d
    using none2 [of d] same_coroD(1) [OF same3 [of d]] that us3 by simp
  have k3: "kept s s3" using k2 f3 same_coroD(4) [OF same3] by (simp add: kept_def)
  obtain n s4 where pk: "pick_next_coro s3 = (n, s4)" by fastforce
  let ?r = "modc n (cstate_update (\<lambda>_. CORO_RUNNING)) s4"
  obtain Q' where pick: "is_pick (yield_queue now s c Q) n Q'"
    and ok: "\<And>t. sched_ok Q' n (?r\<lparr>current_coro := Some n, sched_ticks_since_switch := t\<rparr>)"
    and k4: "kept s3 ?r" and same4: "\<And>d. d \<noteq> n \<Longrightarrow> same_coro (coros s3 d) (coros ?r d)"
    and cur4: "current_coro ?r = current_coro s3"
    by (rule run_picked [OF q3 none3 pk]) blast+
  define s' where "s' = (if n = c then ?r else ?r\<lparr>current_coro := Some n, sched_ticks_since_switch := 0\<rparr>)"
  have res: "coro_yield now s = Some s'"
    using w e pk cur st2
    by (simp add: coro_yield_def s0_def [symmetric] s0 running_def [symmetric] s1_def [symmetric] en_def s'_def Let_def)
  have "current_coro ?r = Some c" using cur4 by (simp add: f3 f2 s1_def s0 cur)
  then have eq: "s' = ?r\<lparr>current_coro := Some n, sched_ticks_since_switch := sched_ticks_since_switch s'\<rparr>"
    by (auto simp: s'_def modc_def)
  have cs: "coros s' = coros ?r" and fs: "coro_used s' = coro_used ?r" "sch_heap s' = sch_heap ?r"
    by (simp_all add: s'_def)
  have k': "kept s s'" using kept_trans [OF k3 k4] unfolding kept_def cs fs .
  have "same_coro (after_wake now [0..<MAX_COROUTINES] s d) (coros s' d)" if "d \<noteq> n" "d \<noteq> c" for d
  proof -
    have "after_wake now [0..<MAX_COROUTINES] s1 d = after_wake now [0..<MAX_COROUTINES] s d"
      unfolding after_wake_def wk using that by (simp add: s1_def s0)
    then show ?thesis using same2 [of d] same3 [of d] same4 [OF that(1)] cs same_coro_trans by metis
  qed
  moreover have "same_coro (coros s1 c) (coros s' c)" if "n \<noteq> c"
    using c2 same3 [of c] same4 [of c] that cs same_coro_trans by metis
  then have "cstate (coros s' c) = (if cstate (coros s c) = CORO_RUNNING then CORO_READY else cstate (coros s c))"
    "wake_tick (coros s' c) = wake_tick (coros s c)" if "n \<noteq> c"
    using same_coroD(1,3) [of "coros s1 c" "coros s' c"] that by (simp_all add: s1_def s0 running_def)
  moreover have "sched_ok Q' n s'" using ok [of "sched_ticks_since_switch s'"] eq by simp
  ultimately show ?thesis using that [OF res pick _ k'] by blast
qed

section \<open>Creating, sleeping, ending, reclaiming\<close>

lemma switching_modc:
  assumes ok: "sched_ok Q c s" and st: "cstate (f (coros s c)) \<in> {CORO_WAITING, CORO_DEAD}"
    and f: "priority (f (coros s c)) = priority (coros s c)"
  shows "switching Q c (modc c f s)"
proof -
  have sw: "switching Q c s" and run: "cstate (coros s c) = CORO_RUNNING" using ok by (simp_all add: sched_ok_def)
  have q: "queued {} Q s" using sw by (simp add: switching_def)
  have "queued {} Q (modc c f s)"
    using not_ready_out [OF q, of c] run f st by (intro queued_modc [OF q]) auto
  then show ?thesis using sw st by (auto simp: switching_def)
qed

lemma coro_exit_spec:
  assumes ok: "sched_ok Q c s"
  obtains n Q' s' where "coro_exit now s = Some s'" and "sched_ok Q' n s'" and "kept s s'"
    and "is_pick (wake_queue now [0..<MAX_COROUTINES] s Q) n Q'"
    and "n \<noteq> c \<Longrightarrow> cstate (coros s' c) = CORO_DEAD"
proof -
  let ?f = "cstate_update (\<lambda>_. CORO_DEAD)" and ?s = "modc c (cstate_update (\<lambda>_. CORO_DEAD)) s"
  have sw: "switching Q c ?s" by (rule switching_modc [OF ok]) simp_all
  have nw: "\<not> self_wake now ?s c" by (auto simp: self_wake_def wakes_def)
  have run: "cstate (coros s c) = CORO_RUNNING" "current_coro s = Some c"
    using ok by (simp_all add: sched_ok_def switching_def)
  have wk: "wakes now ?s i = wakes now s i" "prio ?s (Pool i) = prio s (Pool i)" for i
    using run by (auto simp: wakes_def)
  have yq: "yield_queue now ?s c Q = wake_queue now [0..<MAX_COROUTINES] s Q"
    using wake_queue_cong [OF wk] by (simp add: yield_queue_def)
  have kp: "kept s ?s" by (simp add: kept_def)
  show thesis
  proof (rule coro_yield_spec [OF sw nw])
    fix n Q' s'
    assume y: "coro_yield now ?s = Some s'" "is_pick (yield_queue now ?s c Q) n Q'" "sched_ok Q' n s'" "kept ?s s'"
      and d: "n \<noteq> c \<Longrightarrow> cstate (coros s' c)
        = (if cstate (coros ?s c) = CORO_RUNNING then CORO_READY else cstate (coros ?s c))"
    show thesis
      using that [of s' Q' n] y d run kept_trans [OF kp y(4)] by (simp add: coro_exit_def yq)
  qed
qed

lemma coro_sleep_spec:
  assumes ok: "sched_ok Q c s" and late: "now < t0 + ucast ms * TIMER_FREQ_HZ div 1000"
  obtains n Q' s' where "coro_sleep ms t0 now s = Some s'" and "sched_ok Q' n s'" and "kept s s'"
    and "is_pick (wake_queue now [0..<MAX_COROUTINES] s Q) n Q'"
    and "n \<noteq> c \<Longrightarrow> cstate (coros s' c) = CORO_WAITING \<and> wake_tick (coros s' c) = t0 + ucast ms * TIMER_FREQ_HZ div 1000"
proof -
  define f where "f = (\<lambda>k::coro. k\<lparr>cstate := CORO_WAITING, wake_tick := t0 + ucast ms * TIMER_FREQ_HZ div 1000\<rparr>)"
  let ?s = "modc c f s"
  have sw: "switching Q c ?s" by (rule switching_modc [OF ok]) (simp_all add: f_def)
  have nw: "\<not> self_wake now ?s c" using late by (auto simp: self_wake_def wakes_def f_def)
  have run: "cstate (coros s c) = CORO_RUNNING" "current_coro s = Some c"
    using ok by (simp_all add: sched_ok_def switching_def)
  have wk: "wakes now ?s i = wakes now s i" "prio ?s (Pool i) = prio s (Pool i)" for i
    using run late by (auto simp: wakes_def f_def)
  have yq: "yield_queue now ?s c Q = wake_queue now [0..<MAX_COROUTINES] s Q"
    using wake_queue_cong [OF wk] by (simp add: yield_queue_def f_def)
  have kp: "kept s ?s" by (simp add: kept_def f_def)
  show thesis
  proof (rule coro_yield_spec [OF sw nw])
    fix n Q' s'
    assume y: "coro_yield now ?s = Some s'" "is_pick (yield_queue now ?s c Q) n Q'" "sched_ok Q' n s'" "kept ?s s'"
      and d: "n \<noteq> c \<Longrightarrow> cstate (coros s' c)
        = (if cstate (coros ?s c) = CORO_RUNNING then CORO_READY else cstate (coros ?s c))"
        "n \<noteq> c \<Longrightarrow> wake_tick (coros s' c) = wake_tick (coros ?s c)"
    show thesis
      using that [of s' Q' n] y(1,3) y(2) [unfolded yq] d run kept_trans [OF kp y(4)]
      by (simp add: coro_sleep_def f_def)
  qed
qed

text \<open>The stacks: every coroutine in use owns a live heap block of its own of 64 KiB or more.\<close>

definition stacks_ok :: "sched \<Rightarrow> bool" where
  "stacks_ok s \<longleftrightarrow> slab_inv (sch_heap s)
     \<and> (\<forall>i. coro_used s i \<longrightarrow> (\<exists>z \<ge> 65536. (stack_base (coros s (Pool i)), z) \<in> blocks (sch_heap s)))
     \<and> (\<forall>i j. coro_used s i \<longrightarrow> coro_used s j \<longrightarrow> i \<noteq> j \<longrightarrow>
          stack_base (coros s (Pool i)) \<noteq> stack_base (coros s (Pool j)))"

lemma stacks_ok_kept: "stacks_ok s \<Longrightarrow> kept s s' \<Longrightarrow> stacks_ok s'"
  by (simp add: stacks_ok_def kept_def)

lemma free_coro_stacks:
  assumes ok: "stacks_ok s" and u: "coro_used s i" and i: "i < MAX_COROUTINES"
  shows "stacks_ok (free_coro i s)"
    and "\<exists>z. blocks (sch_heap (free_coro i s)) = blocks (sch_heap s) - {(stack_base (coros s (Pool i)), z)}"
proof -
  let ?b = "stack_base (coros s (Pool i))" and ?h = "sch_heap s"
  have inv: "slab_inv ?h" using ok by (simp add: stacks_ok_def)
  obtain z where z: "(?b, z) \<in> blocks ?h" using ok u by (auto simp: stacks_ok_def)
  have nz: "?b \<noteq> 0" using kheap.nonempty [OF inv z] by simp
  have heap: "sch_heap (free_coro i s) = kfree ?b ?h" using i nz by (simp add: free_coro_def)
  have used: "coro_used (free_coro i s) = (coro_used s)(i := False)" using i by (simp add: free_coro_def)
  have sb: "stack_base (coros (free_coro i s) (Pool j)) = stack_base (coros s (Pool j))" if "j \<noteq> i" for j
    using that i by (simp add: free_coro_def)
  have bl: "blocks (kfree ?b ?h) = blocks ?h - {(?b, z)}" by (rule kheap.release_block [OF inv z])
  show "\<exists>z. blocks (sch_heap (free_coro i s)) = blocks ?h - {(?b, z)}" using bl heap by auto
  have "slab_inv (kfree ?b ?h)" by (rule kheap.release_inv [OF inv z])
  moreover have "\<exists>y \<ge> 65536. (stack_base (coros s (Pool j)), y) \<in> blocks ?h - {(?b, z)}" if "coro_used s j" "j \<noteq> i" for j
  proof -
    have "stack_base (coros s (Pool j)) \<noteq> ?b" using ok u that by (simp add: stacks_ok_def)
    then show ?thesis using ok that by (auto simp: stacks_ok_def)
  qed
  ultimately show "stacks_ok (free_coro i s)"
    using ok sb unfolding stacks_ok_def heap used bl by (auto split: if_splits)
qed

lemma queued_free:
  assumes q: "queued X Q s" and out: "\<And>p. Pool i \<notin> set (Q p)"
  shows "queued (X - {Pool i}) Q (free_coro i s)"
proof (cases "i < MAX_COROUTINES")
  case False
  then have "\<not> coro_used s i" using queuedD(7) [OF q] by auto
  then show ?thesis using q False by (auto simp: queued_def free_coro_def)
next
  case True
  let ?s = "free_coro i s"
  have f: "run_queues ?s = run_queues s" "coro_used ?s = (coro_used s)(i := False)"
    "\<And>d. nxt (coros ?s d) = nxt (coros s d)" "\<And>d. priority (coros ?s d) = priority (coros s d)" "\<And>d. cstate (coros ?s d) = cstate (coros s d)"
    using True by (auto simp: free_coro_def fun_eq_iff)
  have us: "is_used ?s d \<longleftrightarrow> is_used s d" if "d \<noteq> Pool i" for d using that f(2) by (cases d) auto
  have cs: "d \<noteq> Pool i" if "d \<in> set (Q p)" for d p using out that by auto
  show ?thesis
    unfolding queued_def
  proof (intro conjI allI ballI impI)
    fix p show "qlist (links ?s) (run_queues ?s p) (Q p)" using queuedD(1) [OF q, of p] by (simp add: f)
    show "distinct (Q p)" by (rule queuedD(2) [OF q])
  next
    fix p d assume d: "d \<in> set (Q p)"
    show "p = prio ?s d" using queuedD(3) [OF q d] by (simp add: f)
    show "cstate (coros ?s d) = CORO_READY" using queuedD(4) [OF q d] by (simp add: f)
    show "is_used ?s d" using queuedD(5) [OF q d] us [OF cs [OF d]] by simp
    show "d \<notin> X - {Pool i}" using queuedD(6) [OF q d] by simp
  next
    show "j < MAX_COROUTINES" if "coro_used ?s j" for j using that queuedD(7) [OF q, of j] by (simp add: f split: if_splits)
    show "Pool j \<in> set (Q (prio ?s (Pool j)))"
      if "coro_used ?s j \<and> cstate (coros ?s (Pool j)) = CORO_READY \<and> Pool j \<notin> X - {Pool i}" for j
      using that queuedD(8) [OF q, of j] by (auto simp: f split: if_splits)
    show "prio ?s Idle = 0" using queuedD(9) [OF q] by (simp add: f)
  qed
qed

lemma coro_init_spec: "sched_ok (\<lambda>_. []) Idle (coro_init f s)"
proof -
  have used: "is_used (coro_init f s) d \<longleftrightarrow> d = Idle" for d by (cases d) (simp_all add: coro_init_def)
  show ?thesis by (auto simp: sched_ok_def switching_def queued_def used) (simp_all add: coro_init_def)
qed

text \<open>Taking a free slot of the pool; its old contents do not matter.\<close>

lemma alloc_coro_spec:
  assumes sw: "sched_ok Q c s" and run: "alloc_coro s = (Some i, s1)"
  shows "i < MAX_COROUTINES" and "\<not> coro_used s i" and "coro_used s1 = (coro_used s)(i := True)"
    and "sch_heap s1 = sch_heap s" and "current_coro s1 = current_coro s" and "run_queues s1 = run_queues s"
    and "\<And>d. d \<noteq> Pool i \<Longrightarrow> coros s1 d = coros s d" and "queued {Pool i} Q s1" and "\<And>p. Pool i \<notin> set (Q p)"
proof -
  have q: "queued {} Q s" using sw by (simp add: sched_ok_def switching_def)
  obtain j where sc: "scan (\<lambda>i. \<not> coro_used s i) 0 MAX_COROUTINES = Some j"
    using run by (cases "scan (\<lambda>i. \<not> coro_used s i) 0 MAX_COROUTINES") (auto simp: alloc_coro_def)
  have eq: "j = i" "s1 = modc (Pool i) (coro_id_update (\<lambda>_. next_coro_id s))
      (s\<lparr>coro_used := (coro_used s)(i := True), next_coro_id := next_coro_id s + 1\<rparr>)"
    using run sc by (auto simp: alloc_coro_def)
  show i: "i < MAX_COROUTINES" and free: "\<not> coro_used s i" using sc eq(1) by (auto simp: scan_Some_iff)
  show f: "coro_used s1 = (coro_used s)(i := True)" "sch_heap s1 = sch_heap s" "current_coro s1 = current_coro s"
    "run_queues s1 = run_queues s" "\<And>d. d \<noteq> Pool i \<Longrightarrow> coros s1 d = coros s d"
    by (simp_all add: eq)
  show out: "\<And>p. Pool i \<notin> set (Q p)" using queuedD(5) [OF q, of "Pool i"] free by auto
  have us: "is_used s1 d \<longleftrightarrow> is_used s d \<or> d = Pool i" for d using f(1) by (cases d) auto
  have old: "d \<noteq> Pool i" if "d \<in> set (Q p)" for d p using that out by auto
  show "queued {Pool i} Q s1"
    unfolding queued_def
  proof (intro conjI allI ballI impI)
    fix p
    show "qlist (links s1) (run_queues s1 p) (Q p)"
      using queuedD(1) [OF q, of p] f old by (subst qlist_cong [of _ _ "links s"]) auto
    show "distinct (Q p)" by (rule queuedD(2) [OF q])
  next
    fix p d assume d: "d \<in> set (Q p)"
    show "p = prio s1 d" "cstate (coros s1 d) = CORO_READY" "is_used s1 d" "d \<notin> {Pool i}"
      using queuedD(3-5) [OF q d] old [OF d] f(5) us by simp_all
  next
    show "j < MAX_COROUTINES" if "coro_used s1 j" for j using that queuedD(7) [OF q, of j] i f(1) by (auto split: if_splits)
    show "Pool j \<in> set (Q (prio s1 (Pool j)))"
      if "coro_used s1 j \<and> cstate (coros s1 (Pool j)) = CORO_READY \<and> Pool j \<notin> {Pool i}" for j
      using that queuedD(8) [OF q, of j] f(1,5) by (auto split: if_splits)
    show "prio s1 Idle = 0" using queuedD(9) [OF q] f(5) by simp
  qed
qed

lemma queued_heap [simp]: "queued X Q (s\<lparr>sch_heap := h\<rparr>) = queued X Q s"
proof -
  have "is_used (s\<lparr>sch_heap := h\<rparr>) d = is_used s d" for d by (cases d) simp_all
  then show ?thesis by (simp add: queued_def)
qed

text \<open>Queues, running coroutine and stacks together.\<close>

definition sched_inv :: "sched \<Rightarrow> bool" where
  "sched_inv s \<longleftrightarrow> (\<exists>Q c. sched_ok Q c s) \<and> stacks_ok s"

lemma sched_ok_other:
  assumes ok: "sched_ok Q c s" and q: "queued {} Q' s'" and cur: "current_coro s' = current_coro s"
    and c: "is_used s' c" "cstate (coros s' c) = cstate (coros s c)"
    and old: "\<And>d. d \<noteq> c \<Longrightarrow> is_used s' d \<Longrightarrow> cstate (coros s' d) = CORO_RUNNING \<Longrightarrow>
      is_used s d \<and> cstate (coros s d) = CORO_RUNNING"
  shows "sched_ok Q' c s'"
proof -
  have "d = c" if "is_used s' d" "cstate (coros s' d) = CORO_RUNNING" for d
  proof (rule ccontr)
    assume ne: "d \<noteq> c"
    from old [OF ne that] ok have "d = c" unfolding sched_ok_def switching_def by blast
    with ne show False ..
  qed
  moreover have "cstate (coros s c) = CORO_RUNNING" "current_coro s = Some c"
    using ok by (simp_all add: sched_ok_def switching_def)
  then have "cstate (coros s' c) = CORO_RUNNING" "current_coro s' = Some c" using cur c(2) by simp_all
  ultimately show ?thesis
    unfolding sched_ok_def switching_def using q c(1) by (metis coro_state.distinct(1))
qed

lemma stacks_ok_new:
  assumes st: "stacks_ok s" and m: "kmalloc CORO_STACK_SIZE (sch_heap s) = (stk, hp)" "stk \<noteq> 0"
    and s': "blocks (sch_heap s') = blocks hp" "slab_inv (sch_heap s')" "coro_used s' = (coro_used s)(i := True)"
      "stack_base (coros s' (Pool i)) = stk"
      "\<And>j. j \<noteq> i \<Longrightarrow> stack_base (coros s' (Pool j)) = stack_base (coros s (Pool j))"
  shows "stacks_ok s'"
proof -
  have inv: "slab_inv (sch_heap s)" using st by (simp add: stacks_ok_def)
  obtain z where z: "65536 \<le> z" "blocks hp = insert (stk, z) (blocks (sch_heap s))"
    "\<forall>b \<in> blocks (sch_heap s). block_bytes (stk, z) \<inter> block_bytes b = {}"
    using kheap.allocate_fresh [OF inv m] by auto
  have new: "stack_base (coros s (Pool j)) \<noteq> stk" if used: "coro_used s j" for j
  proof
    assume eq: "stack_base (coros s (Pool j)) = stk"
    obtain y where y: "(stk, y) \<in> blocks (sch_heap s)" using st used eq by (auto simp: stacks_ok_def)
    then have "0 < y" using kheap.nonempty [OF inv y] by simp
    then have "unat stk \<in> block_bytes (stk, z) \<inter> block_bytes (stk, y)" using z(1) by (simp add: block_bytes_def)
    then show False using z(3) y by blast
  qed
  show ?thesis
    unfolding stacks_ok_def
  proof (intro conjI allI impI)
    show "slab_inv (sch_heap s')" by (fact s'(2))
    fix j assume j: "coro_used s' j"
    show "\<exists>z \<ge> 65536. (stack_base (coros s' (Pool j)), z) \<in> blocks (sch_heap s')"
      using j s' z st by (cases "j = i") (auto simp: stacks_ok_def)
    fix k assume k: "coro_used s' k" "j \<noteq> k"
    show "stack_base (coros s' (Pool j)) \<noteq> stack_base (coros s' (Pool k))"
    proof -
      consider "j = i" "k \<noteq> i" | "j \<noteq> i" "k = i" | "j \<noteq> i" "k \<noteq> i" using k(2) by blast
      then show ?thesis
      proof cases
        case 1
        then show ?thesis using k s'(3,4,5) new [of k] by simp
      next
        case 2
        then show ?thesis using j s'(3,4,5) new [of j] by simp
      next
        case 3
        then show ?thesis using j k s'(3,5) st by (simp add: stacks_ok_def)
      qed
    qed
  qed
qed

lemma coro_create_spec:
  assumes inv: "sched_inv s"
  obtains r s' where "coro_create tr name fn arg pr s = Some (r, s')" and "sched_inv s'"
proof -
  obtain Q c where ok: "sched_ok Q c s" and st: "stacks_ok s" using inv by (auto simp: sched_inv_def)
  have heap: "slab_inv (sch_heap s)" using st by (simp add: stacks_ok_def)
  have c: "is_used s c" using ok by (simp add: sched_ok_def switching_def)
  obtain r1 s1 where al: "alloc_coro s = (r1, s1)" by fastforce
  show thesis
  proof (cases r1)
    case None
    then have "s1 = s" using al by (auto simp: alloc_coro_def split: option.splits)
    then show thesis using that [of None s] inv al None by (simp add: coro_create_def)
  next
    case (Some i)
    note a = alloc_coro_spec [OF ok al [unfolded Some]]
    obtain stk hp where m: "kmalloc CORO_STACK_SIZE (sch_heap s) = (stk, hp)" by fastforce
    define s2 where "s2 = modc (Pool i) (stack_base_update (\<lambda>_. stk)) (s1\<lparr>sch_heap := hp\<rparr>)"
    have q2: "queued {Pool i} Q s2" unfolding s2_def using a(8,9) by (intro queued_modc) auto
    have hp: "slab_inv hp" using kheap.allocate_inv [OF heap, of CORO_STACK_SIZE] m by simp
    have ci: "c \<noteq> Pool i" using c a(2) by auto
    have used2: "coro_used s2 = (coro_used s)(i := True)" and co2: "\<And>d. d \<noteq> Pool i \<Longrightarrow> coros s2 d = coros s d"
      using a(3,7) by (simp_all add: s2_def)
    have us2: "is_used s2 d \<longleftrightarrow> is_used s d \<or> d = Pool i" for d using used2 by (cases d) auto
    have cur2: "current_coro s2 = current_coro s" "sch_heap s2 = hp" using a(5) by (simp_all add: s2_def)
    show thesis
    proof (cases "stk = 0")
      case True
      let ?s = "free_coro i s2"
      have f: "coro_used ?s = coro_used s" "\<And>d. d \<noteq> Pool i \<Longrightarrow> coros ?s d = coros s d"
        "current_coro ?s = current_coro s" "sch_heap ?s = hp"
        using a(1,2) used2 co2 cur2 True by (auto simp: free_coro_def s2_def fun_eq_iff)
      have us: "is_used ?s d = is_used s d" for d using f(1) by (cases d) simp_all
      have "queued {} Q ?s" using queued_free [OF q2 a(9)] by simp
      then have "sched_ok Q c ?s"
        using c ci f us a(2) by (intro sched_ok_other [OF ok]) (auto, metis is_used.simps(2))
      moreover have "blocks hp = blocks (sch_heap s)" using kheap.allocate_block [OF heap m] True by auto
      then have "stacks_ok ?s"
        using st hp f(1,4) f(2) a(2) unfolding stacks_ok_def by (metis cid.inject)
      ultimately show thesis
        using that [of None ?s] al Some m a(4) True by (auto simp: coro_create_def s2_def sched_inv_def)
    next
      case False
      obtain sp mm where ist: "init_stack tr stk fn arg (h_mem hp) = (sp, mm)" by fastforce
      define f where "f = (\<lambda>k::coro. k\<lparr>coro_fn := fn, coro_arg := arg, priority := pr, cstate := CORO_READY,
        wake_tick := 0, nxt := None,
        cname := coro_strncpy (case name of Some n \<Rightarrow> n | None \<Rightarrow> str ''coro'') CORO_NAME_MAX, rsp := sp\<rparr>)"
      define s3 where "s3 = modc (Pool i) f (s2\<lparr>sch_heap := hp\<lparr>h_mem := mm\<rparr>\<rparr>)"
      have q3: "queued {Pool i} Q s3" unfolding s3_def using q2 a(9) by (intro queued_modc [where X = "{Pool i}"]) auto
      have cX: "Pool i \<in> {Pool i}" "cstate (coros s3 (Pool i)) = CORO_READY" "is_used s3 (Pool i)"
        using used2 by (simp_all add: s3_def f_def)
      obtain s4 where e: "enqueue (Pool i) s3 = Some s4"
        and q4: "queued ({Pool i} - {Pool i}) (Q(prio s3 (Pool i) := Q (prio s3 (Pool i)) @ [Pool i])) s4"
        and same: "\<And>d. same_coro (coros s3 d) (coros s4 d)"
        and f4: "coro_used s4 = coro_used s3" "current_coro s4 = current_coro s3" "sch_heap s4 = sch_heap s3"
        by (rule enqueue_queued [OF q3 cX]) blast
      have co4: "cstate (coros s4 d) = cstate (coros s d)" "stack_base (coros s4 d) = stack_base (coros s d)"
        if "d \<noteq> Pool i" for d
        using same_coroD(1,4) [OF same [of d]] co2 [OF that] that by (simp_all add: s3_def)
      have i4: "cstate (coros s4 (Pool i)) = CORO_READY" "stack_base (coros s4 (Pool i)) = stk"
        using same_coroD(1,4) [OF same [of "Pool i"]] by (simp_all add: s3_def f_def s2_def)
      have us4: "is_used s4 d \<longleftrightarrow> is_used s d \<or> d = Pool i" for d
        using f4(1) used2 by (cases d) (auto simp: s3_def)
      have "sched_ok (Q(prio s3 (Pool i) := Q (prio s3 (Pool i)) @ [Pool i])) c s4"
      proof (rule sched_ok_other [OF ok])
        fix d assume "d \<noteq> c" "is_used s4 d" "cstate (coros s4 d) = CORO_RUNNING"
        then show "is_used s d \<and> cstate (coros s d) = CORO_RUNNING"
          using i4(1) co4(1) [of d] us4 [of d] by (cases "d = Pool i") simp_all
      qed (use q4 f4(2) cur2 c us4 co4(1) [OF ci] in \<open>simp_all add: s3_def\<close>)
      moreover have "stacks_ok s4"
        by (rule stacks_ok_new [OF st m False, of s4 i])
          (use f4 used2 hp i4 co4 in \<open>simp_all add: s3_def\<close>)
      ultimately have "sched_inv s4" by (auto simp: sched_inv_def)
      moreover have "coro_create tr name fn arg pr s = Some (Some (Pool i), s4)"
        using al Some m a(4) False ist e by (simp add: coro_create_def s2_def [symmetric] f_def [symmetric] s3_def [symmetric])
      ultimately show thesis using that by blast
    qed
  qed
qed

definition reclaim_one :: "nat \<Rightarrow> sched \<Rightarrow> sched" where
  "reclaim_one i s = (if coro_used s i \<and> cstate (coros s (Pool i)) = CORO_DEAD then free_coro i s else s)"

lemma reclaim_fold: "reclaim s = fold reclaim_one [0..<MAX_COROUTINES] s"
  by (simp add: reclaim_def reclaim_one_def [abs_def])

lemma free_coro_fields [simp]:
  "cstate (coros (free_coro i s) d) = cstate (coros s d)" "current_coro (free_coro i s) = current_coro s"
  by (simp_all add: free_coro_def Let_def)

lemma reclaim_loop_spec:
  assumes "queued {} Q s" and "stacks_ok s"
  shows "queued {} Q (fold reclaim_one l s) \<and> stacks_ok (fold reclaim_one l s)
    \<and> (\<forall>d. cstate (coros (fold reclaim_one l s) d) = cstate (coros s d))
    \<and> current_coro (fold reclaim_one l s) = current_coro s
    \<and> (\<forall>j. coro_used (fold reclaim_one l s) j
         \<longleftrightarrow> coro_used s j \<and> \<not> (j \<in> set l \<and> cstate (coros s (Pool j)) = CORO_DEAD))"
  using assms
proof (induction l arbitrary: s)
  case Nil
  then show ?case by simp
next
  case (Cons i l)
  show ?case
  proof (cases "coro_used s i \<and> cstate (coros s (Pool i)) = CORO_DEAD")
    case True
    have i: "i < MAX_COROUTINES" using True queuedD(7) [OF Cons.prems(1)] by simp
    have q: "queued {} Q (free_coro i s)"
      using queued_free [OF Cons.prems(1), of i] not_ready_out [OF Cons.prems(1), of "Pool i"] True by simp
    have st: "stacks_ok (free_coro i s)" by (rule free_coro_stacks(1) [OF Cons.prems(2) _ i]) (use True in simp)
    have "coro_used (free_coro i s) j \<longleftrightarrow> coro_used s j \<and> j \<noteq> i" for j using i by (simp add: free_coro_def)
    then show ?thesis using Cons.IH [OF q st] True by (auto simp: reclaim_one_def)
  next
    case False
    then have "reclaim_one i s = s" by (auto simp: reclaim_one_def)
    then show ?thesis using Cons.IH [OF Cons.prems] False by auto
  qed
qed

lemma queued_idle: "queued (insert Idle X) Q s \<Longrightarrow> queued X Q s"
  unfolding queued_def by auto

lemma scheduler_iter_spec:
  assumes ok: "sched_ok Q Idle s" and st: "stacks_ok s"
  obtains n Q' s' where "scheduler_iter now s = Some s'" and "sched_ok Q' n s'" and "stacks_ok s'"
    and "is_pick (wake_queue now [0..<MAX_COROUTINES] s Q) n Q'"
proof -
  have q: "queued {} Q s" and cur: "current_coro s = Some Idle" and run: "cstate (coros s Idle) = CORO_RUNNING"
    and uniq: "\<And>d. is_used s d \<Longrightarrow> cstate (coros s d) = CORO_RUNNING \<Longrightarrow> d = Idle"
    using ok by (auto simp: sched_ok_def switching_def)
  define W where "W = wake_queue now [0..<MAX_COROUTINES] s Q"
  obtain s1 where w: "wake_sleeping now s = Some s1" and q1: "queued {} W s1"
    and same1: "\<And>d. same_coro (after_wake now [0..<MAX_COROUTINES] s d) (coros s1 d)"
    and f1: "coro_used s1 = coro_used s" "current_coro s1 = current_coro s" "sch_heap s1 = sch_heap s"
    unfolding W_def by (rule wake_sleeping_queued [OF q, where now = now]) blast+
  have st1: "stacks_ok s1"
    by (rule stacks_ok_kept [OF st])
      (use f1 same_coroD(4) [OF same1] in \<open>simp add: kept_def after_wake_def wake_coro_def\<close>)
  have r1: "cstate (coros s1 d) = CORO_RUNNING \<longleftrightarrow> cstate (coros s d) = CORO_RUNNING" for d
    using same_coroD(1) [OF same1 [of d]] by (simp add: after_wake_running)
  define s2 where "s2 = reclaim s1"
  note rc = reclaim_loop_spec [OF q1 st1, of "[0..<MAX_COROUTINES]", folded reclaim_fold s2_def]
  have q2: "queued {} W s2" and st2: "stacks_ok s2" and c2: "\<And>d. cstate (coros s2 d) = cstate (coros s1 d)"
    and cur2: "current_coro s2 = Some Idle" and u2: "\<And>j. coro_used s2 j \<Longrightarrow> coro_used s j"
    using rc f1 cur by auto
  have run2: "cstate (coros s2 d) = CORO_RUNNING \<Longrightarrow> is_used s2 d \<Longrightarrow> d = Idle" for d
    using uniq [of d] c2 [of d] r1 [of d] u2 by (cases d) auto
  obtain n s3 where pk: "pick_next_coro s2 = (n, s3)" by fastforce
  obtain Q' where p: "is_pick W n Q'" and q3: "queued (insert n {}) Q' s3" and out: "\<And>p. n \<notin> set (Q' p)"
    and n: "n = Idle \<or> cstate (coros s2 n) = CORO_READY" "is_used s2 n"
    and same3: "\<And>d. same_coro (coros s2 d) (coros s3 d)"
    and f3: "coro_used s3 = coro_used s2" "current_coro s3 = current_coro s2" "sch_heap s3 = sch_heap s2"
    by (rule pick_queued [OF q2 pk]) blast
  have c3: "cstate (coros s3 d) = cstate (coros s2 d)" for d by (rule same_coroD(1) [OF same3])
  have us3: "is_used s3 d = is_used s2 d" for d using f3(1) by (cases d) simp_all
  have st3: "stacks_ok s3" by (rule stacks_ok_kept [OF st2]) (use f3 same_coroD(4) [OF same3] in \<open>simp add: kept_def\<close>)
  have run3: "cstate (coros s3 Idle) = CORO_RUNNING" using c3 c2 r1 run by simp
  show thesis
  proof (cases "n = Idle")
    case True
    have "scheduler_iter now s = Some s3"
      using w pk True f1 cur by (simp add: scheduler_iter_def s2_def [symmetric])
    moreover have "sched_ok Q' Idle s3"
      unfolding sched_ok_def switching_def
      using queued_idle [of "{}"] q3 True f3(2) cur2 run3 run2 us3 c3 by auto
    ultimately show thesis using that st3 p True by (auto simp: W_def)
  next
    case False
    define s4 where "s4 = modc Idle (cstate_update (\<lambda>_. CORO_READY)) s3"
    define s5 where "s5 = (modc n (cstate_update (\<lambda>_. CORO_RUNNING)) s4)\<lparr>current_coro := Some n\<rparr>"
    have res: "scheduler_iter now s = Some (s5\<lparr>sched_ticks_since_switch := 0\<rparr>)"
      using w pk False f1 cur run3
      by (simp add: scheduler_iter_def s2_def [symmetric] s4_def [symmetric] s5_def [symmetric] Let_def)
    have q4: "queued {n, Idle} Q' s4"
      unfolding s4_def using not_ready_out [OF q3, of Idle] run3 by (intro queued_modc [OF q3]) auto
    have "queued {Idle} Q' (modc n (cstate_update (\<lambda>_. CORO_RUNNING)) s4)"
      using out False by (intro queued_modc [OF q4]) auto
    then have "queued {} Q' (modc n (cstate_update (\<lambda>_. CORO_RUNNING)) s4)" by (rule queued_idle)
    moreover have us5: "is_used (s5\<lparr>sched_ticks_since_switch := 0\<rparr>) d = is_used s2 d"
      "is_used (modc n (cstate_update (\<lambda>_. CORO_RUNNING)) s4) d = is_used s2 d" for d
      using us3 [of d] by (cases d; simp add: s5_def s4_def)+
    ultimately have q5: "queued {} Q' (s5\<lparr>sched_ticks_since_switch := 0\<rparr>)"
      unfolding queued_def us5 by (simp add: s5_def)
    have "d = n" if "is_used s2 d" "cstate (coros s5 d) = CORO_RUNNING" for d
      using that run2 [of d] c3 [of d] by (auto simp: s5_def s4_def split: if_splits)
    then have "sched_ok Q' n (s5\<lparr>sched_ticks_since_switch := 0\<rparr>)"
      unfolding sched_ok_def switching_def us5 using q5 n(2) by (simp add: s5_def)
    moreover have "stacks_ok (s5\<lparr>sched_ticks_since_switch := 0\<rparr>)"
      by (rule stacks_ok_kept [OF st3]) (simp add: kept_def s5_def s4_def)
    ultimately show thesis using that res p by (auto simp: W_def)
  qed
qed

lemma tick_sched_ok: "sched_inv s \<Longrightarrow> sched_inv (scheduler_kernel_timer_tick s)"
proof -
  let ?t = "scheduler_kernel_timer_tick s"
  have f: "coros ?t = coros s" "run_queues ?t = run_queues s" "coro_used ?t = coro_used s"
    "current_coro ?t = current_coro s" "sch_heap ?t = sch_heap s"
    by (simp_all add: scheduler_kernel_timer_tick_def Let_def split: option.split)
  have us: "is_used ?t d = is_used s d" for d using f by (cases d) simp_all
  show "sched_inv s \<Longrightarrow> sched_inv ?t"
    unfolding sched_inv_def sched_ok_def switching_def queued_def stacks_ok_def us f .
qed

lemma running_no_self_wake: "sched_ok Q c s \<Longrightarrow> \<not> self_wake now s c"
  by (auto simp: sched_ok_def self_wake_def wakes_def)

text \<open>A sleeping coroutine over one switch.\<close>

lemma pick_member: "is_pick Q n Q' \<Longrightarrow> n \<noteq> Idle \<Longrightarrow> \<exists>p. n \<in> set (Q p)"
  unfolding is_pick_def using hd_in_set by metis

lemma sleeper_yield:
  assumes ok: "sched_ok Q c s" and u: "coro_used s i" and w: "cstate (coros s (Pool i)) = CORO_WAITING"
    and y: "coro_yield now s = Some s'"
  shows "if wakes now s i then cstate (coros s' (Pool i)) \<in> {CORO_READY, CORO_RUNNING}
    else cstate (coros s' (Pool i)) = CORO_WAITING \<and> wake_tick (coros s' (Pool i)) = wake_tick (coros s (Pool i))
      \<and> current_coro s' \<noteq> Some (Pool i)"
proof -
  have sw: "switching Q c s" and run: "cstate (coros s c) = CORO_RUNNING"
    using ok by (simp_all add: sched_ok_def)
  have q: "queued {} Q s" using sw by (simp add: switching_def)
  have c: "Pool i \<noteq> c" using run w by auto
  have i: "i < MAX_COROUTINES" by (rule queuedD(7) [OF q u])
  show ?thesis
  proof (rule coro_yield_spec [OF sw running_no_self_wake [OF ok, of now]])
    fix n Q' s''
    assume r: "coro_yield now s = Some s''" and pk: "is_pick (yield_queue now s c Q) n Q'" and ok': "sched_ok Q' n s''"
      and same: "\<And>d. d \<noteq> n \<Longrightarrow> d \<noteq> c \<Longrightarrow> same_coro (after_wake now [0..<MAX_COROUTINES] s d) (coros s'' d)"
    have eq: "s'' = s'" using r y by simp
    have cur: "current_coro s' = Some n" "cstate (coros s' n) = CORO_RUNNING"
      using ok' eq by (simp_all add: sched_ok_def switching_def)
    show ?thesis
    proof (cases "n = Pool i")
      case True
      then obtain p where "Pool i \<in> set (yield_queue now s c Q p)" using pick_member [OF pk] by auto
      then have "Pool i \<in> set (wake_queue now [0..<MAX_COROUTINES] s Q p)"
        using c by (auto simp: yield_queue_def Let_def split: if_splits)
      then have "wakes now s i" using not_ready_out [OF q, of "Pool i" p] w by (auto simp: wake_queue_def)
      then show ?thesis using cur True by simp
    next
      case False
      then have sm: "same_coro (after_wake now [0..<MAX_COROUTINES] s (Pool i)) (coros s' (Pool i))"
        using same [of "Pool i"] c eq by auto
      show ?thesis
      proof (cases "wakes now s i")
        case True
        then have "after_wake now [0..<MAX_COROUTINES] s (Pool i) = wake_coro (coros s (Pool i))"
          using i by (auto simp: after_wake_def)
        then show ?thesis using same_coroD(1) [OF sm] True by (simp add: wake_coro_def)
      next
        case nw: False
        then have "after_wake now [0..<MAX_COROUTINES] s (Pool i) = coros s (Pool i)" by (auto simp: after_wake_def)
        then show ?thesis using same_coroD(1,3) [OF sm] nw w cur(1) False by simp
      qed
    qed
  qed
qed

section \<open>Properties\<close>

text \<open>A scheduler right after \<open>coro_init\<close>, and one in which coroutine 0, of priority 5, is running.\<close>

definition coro_zero :: coro where
  "coro_zero = \<lparr>rsp = 0, stack_base = 0, cstate = CORO_READY, priority = 0, coro_id = 0, wake_tick = 0, coro_fn = 0,
     coro_arg = 0, nxt = None, cname = []\<rparr>"

definition sched_boot :: sched where
  "sched_boot = coro_init 0 \<lparr>current_coro = None, coros = (\<lambda>_. coro_zero), run_queues = (\<lambda>_. None),
     coro_used = (\<lambda>_. False), next_coro_id = 0, sched_cancel_broadcast = False, sched_preempt_pending = False,
     sched_ticks_since_switch = 0, sch_heap = heap_demo\<rparr>"

definition sched_demo :: sched where
  "sched_demo = (modc (Pool 0) (\<lambda>c. c\<lparr>cstate := CORO_RUNNING, priority := 5\<rparr>)
     (modc Idle (cstate_update (\<lambda>_. CORO_READY)) sched_boot))\<lparr>current_coro := Some (Pool 0), coro_used := (\<lambda>i. i = 0)\<rparr>"

lemma sched_boot_inv: "sched_inv sched_boot"
proof -
  have "stacks_ok sched_boot" using heap_demo_inv by (simp add: stacks_ok_def sched_boot_def coro_init_def)
  then show ?thesis using coro_init_spec unfolding sched_inv_def sched_boot_def by blast
qed

lemma sched_demo_ok: "sched_ok (\<lambda>_. []) (Pool 0) sched_demo"
proof -
  have u: "is_used sched_demo d \<longleftrightarrow> d \<in> {Idle, Pool 0}" for d by (cases d) (simp_all add: sched_demo_def)
  show ?thesis
    unfolding sched_ok_def switching_def queued_def u
    by (auto simp: sched_demo_def sched_boot_def coro_init_def MAX_COROUTINES_def)
qed

text \<open>C13: \<open>coro_yield\<close> of a running coroutine always returns, and leaves exactly one coroutine running: the
  one that has waited longest among those of the highest priority, counting the sleepers whose time
  has come and the yielding coroutine itself; the idle coroutine runs only when no other is ready.
  Every other ready coroutine is in the queue of its priority, in order.\<close>

theorem coro_yield_schedules:
  assumes "sched_ok Q c s"
  shows "\<exists>n Q' s'. coro_yield now s = Some s' \<and> sched_ok Q' n s'
    \<and> is_pick (\<lambda>p. Q p @ map Pool (filter (\<lambda>i. wakes now s i \<and> prio s (Pool i) = p) [0..<MAX_COROUTINES])
                  @ (if p = prio s c then [c] else [])) n Q'"
proof -
  have "yield_queue now s c Q = (\<lambda>p. Q p @ map Pool (filter (\<lambda>i. wakes now s i \<and> prio s (Pool i) = p) [0..<MAX_COROUTINES])
                  @ (if p = prio s c then [c] else []))"
    using assms by (auto simp: yield_queue_def wake_queue_def sched_ok_def fun_eq_iff)
  then show ?thesis
    using coro_yield_spec [OF _ running_no_self_wake [OF assms], of Q] assms unfolding sched_ok_def by metis
qed

theorem coro_yield_schedules_witness: "\<exists>n Q' s'. coro_yield 7 sched_demo = Some s' \<and> sched_ok Q' n s'"
  using coro_yield_schedules [OF sched_demo_ok, of 7] by blast



lemma sleeper_waits:
  assumes "sched_ok Q (Pool i) s" and "now < t0 + ucast ms * TIMER_FREQ_HZ div 1000"
    and "coro_sleep ms t0 now s = Some s1" and "coro_yield later s1 = Some s2"
  shows "cstate (coros s1 (Pool i)) = CORO_WAITING \<and>
    (if later < t0 + ucast ms * TIMER_FREQ_HZ div 1000
     then cstate (coros s2 (Pool i)) = CORO_WAITING \<and> current_coro s2 \<noteq> Some (Pool i)
     else cstate (coros s2 (Pool i)) \<in> {CORO_READY, CORO_RUNNING})"
proof -
  let ?t = "t0 + ucast ms * TIMER_FREQ_HZ div 1000"
  have u: "coro_used s i" using assms(1) by (simp add: sched_ok_def switching_def)
  have nz: "?t \<noteq> 0" using assms(2) by auto
  show ?thesis
  proof (rule coro_sleep_spec [OF assms(1,2)])
    fix n Q' s'
    assume r: "coro_sleep ms t0 now s = Some s'" "sched_ok Q' n s'" "kept s s'"
      and pk: "is_pick (wake_queue now [0..<MAX_COROUTINES] s Q) n Q'"
      and d: "n \<noteq> Pool i \<Longrightarrow> cstate (coros s' (Pool i)) = CORO_WAITING \<and> wake_tick (coros s' (Pool i)) = ?t"
    have q: "queued {} Q s" and run: "cstate (coros s (Pool i)) = CORO_RUNNING"
      using assms(1) by (simp_all add: sched_ok_def switching_def)
    have "Pool i \<notin> set (wake_queue now [0..<MAX_COROUTINES] s Q p)" for p
      using not_ready_out [OF q, of "Pool i" p] run by (auto simp: wake_queue_def wakes_def)
    then have "n \<noteq> Pool i" using pick_member [OF pk] by auto
    have eq: "s' = s1" using r(1) assms(3) by simp
    have w: "cstate (coros s1 (Pool i)) = CORO_WAITING" "wake_tick (coros s1 (Pool i)) = ?t"
      using d \<open>n \<noteq> Pool i\<close> eq by auto
    have u1: "coro_used s1 i" using r(3) u eq by (simp add: kept_def)
    have "wakes later s1 i \<longleftrightarrow> \<not> later < ?t" using w u1 nz by (auto simp: wakes_def)
    then show ?thesis using sleeper_yield [OF r(2) [unfolded eq] u1 w(1) assms(4)] w(1) by (auto split: if_splits)
  qed
qed

text \<open>
  A sleep that is over before the switch: \<open>wake_sleeping\<close> puts the coroutine back into its queue, and
  \<open>coro_yield\<close>, seeing it ready, puts it there a second time.
\<close>

lemma wake_only:
  assumes "i < MAX_COROUTINES" and "wakes now s i" and "\<And>j. j \<noteq> i \<Longrightarrow> \<not> wakes now s j"
  shows "wake_queue now [0..<MAX_COROUTINES] s (\<lambda>_. []) p = (if p = prio s (Pool i) then [Pool i] else [])"
proof -
  have "filter (\<lambda>j. wakes now s j \<and> prio s (Pool j) = p) [0..<n]
      = (if i < n \<and> p = prio s (Pool i) then [i] else [])" for n
  proof (induction n)
    case (Suc n)
    then show ?case using assms(2,3) by (cases "n = i") (auto simp: less_Suc_eq)
  qed simp
  then show ?thesis using assms(1) by (simp add: wake_queue_def)
qed

lemma double_enqueue:
  assumes rq: "run_queues s = (\<lambda>p. if p = prio s c then Some c else None)" and nx: "nxt (coros s c) = None"
  shows "enqueue c s = Some (modc c (nxt_update (\<lambda>_. Some c)) s)"
proof -
  have s: "modc c (nxt_update (\<lambda>_. None)) s = s" using nx by (simp add: modc_def fun_upd_idem)
  have "last_of (\<lambda>d. nxt (coros s d)) c = Some c" using nx by (simp add: last_of.simps)
  then show ?thesis using rq by (simp add: enqueue_def s Let_def)
qed

lemma pick_single:
  assumes rq: "run_queues s = (\<lambda>p. if p = prio s c then Some c else None)"
  shows "pick_next_coro s = (c, modc c (nxt_update (\<lambda>_. None))
    (s\<lparr>run_queues := (run_queues s)(prio s c := nxt (coros s c))\<rparr>))"
proof -
  have "prio s c < 2 ^ 8" by (rule less_le_trans [OF unsigned_less]) simp
  then have le: "prio s c \<le> CORO_PRIORITY_MAX" by simp
  have "scan (\<lambda>k. run_queues s (CORO_PRIORITY_MAX - k) \<noteq> None) 0 (CORO_PRIORITY_MAX + 1)
      = Some (CORO_PRIORITY_MAX - prio s c)"
    using le rq by (auto simp: scan_Some_iff)
  then show ?thesis using le rq by (simp add: pick_next_coro_def Let_def)
qed

lemma sleep_zero_corrupts:
  assumes "sched_ok (\<lambda>_. []) (Pool i) s" and "now \<noteq> 0" and "\<forall>j. \<not> wakes now s j"
  shows "\<exists>s'. coro_sleep 0 now now s = Some s' \<and> current_coro s' = Some (Pool i)
    \<and> cstate (coros s' (Pool i)) = CORO_RUNNING \<and> run_queues s' (prio s' (Pool i)) = Some (Pool i)
    \<and> \<not> (\<exists>Q c. sched_ok Q c s')"
proof -
  let ?c = "Pool i"
  define s0 where "s0 = scheduler_preempt_clear (modc ?c (\<lambda>k. k\<lparr>cstate := CORO_WAITING, wake_tick := now\<rparr>) s)"
  have q: "queued {} (\<lambda>_. []) s" and cur: "current_coro s = Some ?c" and used: "coro_used s i"
    using assms(1) by (simp_all add: sched_ok_def switching_def)
  have i: "i < MAX_COROUTINES" by (rule queuedD(7) [OF q used])
  have q0: "queued {} (\<lambda>_. []) s0"
  proof -
    have "queued {} (\<lambda>_. []) (modc ?c (\<lambda>k. k\<lparr>cstate := CORO_WAITING, wake_tick := now\<rparr>) s)"
      by (rule queued_modc [OF q]) auto
    moreover have "is_used s0 d = is_used (modc ?c (\<lambda>k. k\<lparr>cstate := CORO_WAITING, wake_tick := now\<rparr>) s) d" for d
      by (cases d) (simp_all add: s0_def scheduler_preempt_clear_def)
    ultimately show ?thesis by (simp add: queued_def) (simp add: s0_def scheduler_preempt_clear_def)
  qed
  have wk: "wakes now s0 i" "\<And>j. j \<noteq> i \<Longrightarrow> \<not> wakes now s0 j"
    using assms(2,3) used by (auto simp: wakes_def s0_def scheduler_preempt_clear_def)
  have pr0: "prio s0 ?c = prio s ?c" by (simp add: s0_def scheduler_preempt_clear_def)
  obtain s2 where w: "wake_sleeping now s0 = Some s2"
    and q2: "queued {} (wake_queue now [0..<MAX_COROUTINES] s0 (\<lambda>_. [])) s2"
    and same: "\<And>d. same_coro (after_wake now [0..<MAX_COROUTINES] s0 d) (coros s2 d)"
    and f2: "coro_used s2 = coro_used s0" "current_coro s2 = current_coro s0"
    by (rule wake_sleeping_queued [OF q0, where now = now]) blast+
  note W = wake_only [OF i wk]
  have aw: "after_wake now [0..<MAX_COROUTINES] s0 ?c = wake_coro (coros s0 ?c)" using i wk(1) by (auto simp: after_wake_def)
  have st2: "cstate (coros s2 ?c) = CORO_READY" "prio s2 ?c = prio s ?c"
    using same_coroD(1,2) [OF same [of ?c]] pr0 by (simp_all add: aw wake_coro_def)
  have ql: "qlist (links s2) (run_queues s2 p) (if p = prio s ?c then [?c] else [])" for p
    using queuedD(1) [OF q2, of p] by (simp add: W pr0)
  have rq: "run_queues s2 = (\<lambda>p. if p = prio s2 ?c then Some ?c else None)" and nx: "nxt (coros s2 ?c) = None"
  proof -
    have "run_queues s2 p = None" if "p \<noteq> prio s ?c" for p using ql [of p] that by simp
    moreover have "run_queues s2 (prio s ?c) = Some ?c" and n: "nxt (coros s2 ?c) = None" using ql [of "prio s ?c"] by simp_all
    ultimately show "run_queues s2 = (\<lambda>p. if p = prio s2 ?c then Some ?c else None)" by (auto simp: fun_eq_iff st2)
    show "nxt (coros s2 ?c) = None" by (fact n)
  qed
  define s3 where "s3 = modc ?c (nxt_update (\<lambda>_. Some ?c)) s2"
  have e: "enqueue ?c s2 = Some s3" unfolding s3_def by (rule double_enqueue [OF rq nx])
  have pk: "pick_next_coro s3 = (?c, modc ?c (nxt_update (\<lambda>_. None)) (s3\<lparr>run_queues := (run_queues s3)(prio s3 ?c := Some ?c)\<rparr>))"
    using pick_single [of s3 ?c] rq by (simp add: s3_def)
  define s' where "s' = modc ?c (cstate_update (\<lambda>_. CORO_RUNNING))
    (modc ?c (nxt_update (\<lambda>_. None)) (s3\<lparr>run_queues := (run_queues s3)(prio s3 ?c := Some ?c)\<rparr>))"
  have cur0: "current_coro s0 = Some ?c" "cstate (coros s0 ?c) = CORO_WAITING"
    using cur by (simp_all add: s0_def scheduler_preempt_clear_def)
  have res: "coro_sleep 0 now now s = Some s'"
    using cur cur0 w e pk st2
    by (simp add: coro_sleep_def coro_yield_def s0_def [symmetric] Let_def s'_def)
  have fin: "current_coro s' = Some ?c" "cstate (coros s' ?c) = CORO_RUNNING" "run_queues s' (prio s' ?c) = Some ?c"
    using f2 cur0 by (simp_all add: s'_def s3_def)
  have "\<not> sched_ok Q c s'" for Q c
  proof
    assume ok: "sched_ok Q c s'"
    then have q': "queued {} Q s'" by (simp add: sched_ok_def switching_def)
    have "?c \<in> set (Q (prio s' ?c))" using queuedD(1) [OF q', of "prio s' ?c"] fin(3) by (cases "Q (prio s' ?c)") auto
    then show False using queuedD(4) [OF q'] fin(2) by force
  qed
  then show ?thesis using res fin by blast
qed



end
