(* ===== verification/CString.thy ===== *)
theory CString
  imports AevPrelude "HOL-Library.Monad_Syntax"
begin

text \<open>
  The kernel's string library, \<open>lib/string.c\<close>.

  A C string that is only read is the list of its bytes from the pointer on: reading at the end of
  the list gives the terminator, and a zero byte inside the list ends the string early. A result
  pointer into such a string is an offset. Functions that write take the memory, a function from
  addresses to bytes, and the address written to. \<open>int\<close> values are 32-bit words, read as signed
  numbers. \<open>snprintf\<close> returns \<open>None\<close> where the C code has no defined behaviour: a format that ends
  inside a conversion, an argument of another kind than the conversion asks for, or a field width
  that overruns the local digit buffer.
\<close>

unbundle bit_operations_syntax

type_synonym cmem = "nat \<Rightarrow> u8"

abbreviation chr :: "char \<Rightarrow> u8" where "chr c \<equiv> of_char c"

definition rd :: "bytes \<Rightarrow> u8" where
  "rd s = (case s of [] \<Rightarrow> 0 | c # _ \<Rightarrow> c)"

text \<open>The value of a C string: the bytes before the terminator.\<close>

definition cval :: "bytes \<Rightarrow> bytes" where
  "cval s = takeWhile (\<lambda>c. c \<noteq> 0) s"

section \<open>Memory operations\<close>

primrec memset :: "nat \<Rightarrow> u8 \<Rightarrow> nat \<Rightarrow> cmem \<Rightarrow> cmem" where
  "memset d c 0 m = m"
| "memset d c (Suc n) m = memset (d + 1) c n (m(d := c))"

primrec memcpy :: "nat \<Rightarrow> nat \<Rightarrow> nat \<Rightarrow> cmem \<Rightarrow> cmem" where
  "memcpy d s 0 m = m"
| "memcpy d s (Suc n) m = memcpy (d + 1) (s + 1) n (m(d := m s))"

text \<open>The backward loop of \<open>memmove\<close>: both pointers are decremented before the copy.\<close>

primrec memcpy_down :: "nat \<Rightarrow> nat \<Rightarrow> nat \<Rightarrow> cmem \<Rightarrow> cmem" where
  "memcpy_down d s 0 m = m"
| "memcpy_down d s (Suc n) m = memcpy_down (d - 1) (s - 1) n (m(d - 1 := m (s - 1)))"

definition memmove :: "nat \<Rightarrow> nat \<Rightarrow> nat \<Rightarrow> cmem \<Rightarrow> cmem" where
  "memmove d s n m =
     (if d < s then memcpy d s n m
      else if s < d then memcpy_down (d + n) (s + n) n m
      else m)"

primrec memcmp :: "nat \<Rightarrow> nat \<Rightarrow> nat \<Rightarrow> cmem \<Rightarrow> int" where
  "memcmp a b 0 m = 0"
| "memcmp a b (Suc n) m = (if m a \<noteq> m b then uint (m a) - uint (m b) else memcmp (a + 1) (b + 1) n m)"

section \<open>Length, copy, concatenation\<close>

fun strlen :: "bytes \<Rightarrow> nat" where
  "strlen [] = 0"
| "strlen (c # s) = (if c \<noteq> 0 then Suc (strlen s) else 0)"

fun strnlen :: "bytes \<Rightarrow> nat \<Rightarrow> nat" where
  "strnlen s 0 = 0"
| "strnlen [] (Suc n) = 0"
| "strnlen (c # s) (Suc n) = (if c \<noteq> 0 then Suc (strnlen s n) else 0)"

fun strcpy :: "nat \<Rightarrow> bytes \<Rightarrow> cmem \<Rightarrow> cmem" where
  "strcpy d [] m = m(d := 0)"
| "strcpy d (c # s) m = (if c \<noteq> 0 then strcpy (d + 1) s (m(d := c)) else m(d := 0))"

text \<open>
  The first loop of \<open>strncpy\<close> stores the terminator and advances \<open>d\<close> without counting it; the
  second one then stores as many zeros as the count says.
\<close>

fun strncpy_loop :: "nat \<Rightarrow> bytes \<Rightarrow> nat \<Rightarrow> cmem \<Rightarrow> nat \<times> nat \<times> cmem" where
  "strncpy_loop d s 0 m = (d, 0, m)"
| "strncpy_loop d [] (Suc n) m = (d + 1, Suc n, m(d := 0))"
| "strncpy_loop d (c # s) (Suc n) m =
     (if c \<noteq> 0 then strncpy_loop (d + 1) s n (m(d := c)) else (d + 1, Suc n, m(d := 0)))"

definition strncpy :: "nat \<Rightarrow> bytes \<Rightarrow> nat \<Rightarrow> cmem \<Rightarrow> cmem" where
  "strncpy d s n m = (case strncpy_loop d s n m of (d', k, m') \<Rightarrow> memset d' 0 k m')"

text \<open>The walk to the terminator of a string in memory; \<open>None\<close> when there is none.\<close>

partial_function (option) str_end :: "cmem \<Rightarrow> nat \<Rightarrow> nat option" where
  "str_end m p = (if m p = 0 then Some p else str_end m (p + 1))"

definition strcat :: "nat \<Rightarrow> bytes \<Rightarrow> cmem \<Rightarrow> cmem option" where
  "strcat dest s m = (case str_end m dest of None \<Rightarrow> None | Some d \<Rightarrow> Some (strcpy d s m))"

fun strncat_loop :: "nat \<Rightarrow> bytes \<Rightarrow> nat \<Rightarrow> cmem \<Rightarrow> cmem" where
  "strncat_loop d s 0 m = m(d := 0)"
| "strncat_loop d [] (Suc n) m = m(d := 0)"
| "strncat_loop d (c # s) (Suc n) m = (if c \<noteq> 0 then strncat_loop (d + 1) s n (m(d := c)) else m(d := 0))"

definition strncat :: "nat \<Rightarrow> bytes \<Rightarrow> nat \<Rightarrow> cmem \<Rightarrow> cmem option" where
  "strncat dest s n m = (case str_end m dest of None \<Rightarrow> None | Some d \<Rightarrow> Some (strncat_loop d s n m))"

section \<open>Comparison and search\<close>

fun strcmp :: "bytes \<Rightarrow> bytes \<Rightarrow> int" where
  "strcmp [] b = 0 - uint (rd b)"
| "strcmp (c # a) b =
     (if c \<noteq> 0 \<and> c = rd b then strcmp a (tl b) else uint c - uint (rd b))"

fun strncmp :: "bytes \<Rightarrow> bytes \<Rightarrow> nat \<Rightarrow> int" where
  "strncmp a b 0 = 0"
| "strncmp [] b (Suc n) = 0 - uint (rd b)"
| "strncmp (c # a) b (Suc n) =
     (if c \<noteq> 0 \<and> c = rd b then strncmp a (tl b) n else uint c - uint (rd b))"

fun strchr_loop :: "bytes \<Rightarrow> u32 \<Rightarrow> nat \<Rightarrow> nat option" where
  "strchr_loop [] c i = (if c = 0 then Some i else None)"
| "strchr_loop (x # s) c i =
     (if x \<noteq> 0 then if x = ucast c then Some i else strchr_loop s c (Suc i)
      else if c = 0 then Some i else None)"

definition strchr :: "bytes \<Rightarrow> u32 \<Rightarrow> nat option" where
  "strchr s c = strchr_loop s c 0"

fun strrchr_loop :: "bytes \<Rightarrow> u32 \<Rightarrow> nat option \<Rightarrow> nat \<Rightarrow> nat option" where
  "strrchr_loop [] c found i = (if c = 0 then Some i else found)"
| "strrchr_loop (x # s) c found i =
     (if x \<noteq> 0 then strrchr_loop s c (if x = ucast c then Some i else found) (Suc i)
      else if c = 0 then Some i else found)"

definition strrchr :: "bytes \<Rightarrow> u32 \<Rightarrow> nat option" where
  "strrchr s c = strrchr_loop s c None 0"

fun strstr_loop :: "bytes \<Rightarrow> bytes \<Rightarrow> nat \<Rightarrow> nat \<Rightarrow> nat option" where
  "strstr_loop [] needle nlen i = None"
| "strstr_loop (x # s) needle nlen i =
     (if x = 0 then None
      else if x = rd needle \<and> strncmp (x # s) needle nlen = 0 then Some i
      else strstr_loop s needle nlen (Suc i))"

definition strstr :: "bytes \<Rightarrow> bytes \<Rightarrow> nat option" where
  "strstr haystack needle =
     (if rd needle = 0 then Some 0 else strstr_loop haystack needle (strlen needle) 0)"

section \<open>Characters and numbers\<close>

definition is_space :: "u8 \<Rightarrow> bool" where
  "is_space c \<longleftrightarrow> c = chr CHR '' '' \<or> 9 \<le> c \<and> c \<le> 13"

abbreviation is_dec :: "u8 \<Rightarrow> bool" where
  "is_dec c \<equiv> chr CHR ''0'' \<le> c \<and> c \<le> chr CHR ''9''"

definition isspace :: "int \<Rightarrow> bool" where
  "isspace c \<longleftrightarrow> c = of_char CHR '' '' \<or> 9 \<le> c \<and> c \<le> 13"

definition isdigit :: "int \<Rightarrow> bool" where
  "isdigit c \<longleftrightarrow> of_char CHR ''0'' \<le> c \<and> c \<le> of_char CHR ''9''"

definition isalpha :: "int \<Rightarrow> bool" where
  "isalpha c \<longleftrightarrow> of_char CHR ''A'' \<le> c \<and> c \<le> of_char CHR ''Z'' \<or> of_char CHR ''a'' \<le> c \<and> c \<le> of_char CHR ''z''"

definition isalnum :: "int \<Rightarrow> bool" where
  "isalnum c \<longleftrightarrow> isalpha c \<or> isdigit c"

definition isxdigit :: "int \<Rightarrow> bool" where
  "isxdigit c \<longleftrightarrow> isdigit c \<or> of_char CHR ''a'' \<le> c \<and> c \<le> of_char CHR ''f'' \<or> of_char CHR ''A'' \<le> c \<and> c \<le> of_char CHR ''F''"

definition toupper :: "int \<Rightarrow> int" where
  "toupper c = (if of_char CHR ''a'' \<le> c \<and> c \<le> of_char CHR ''z'' then c - 32 else c)"

definition tolower :: "int \<Rightarrow> int" where
  "tolower c = (if of_char CHR ''A'' \<le> c \<and> c \<le> of_char CHR ''Z'' then c + 32 else c)"

fun digits_loop :: "'a::len word \<Rightarrow> bytes \<Rightarrow> 'a word" where
  "digits_loop r [] = r"
| "digits_loop r (c # s) = (if is_dec c then digits_loop (r * 10 + ucast (c - chr CHR ''0'')) s else r)"

definition sign_of :: "bytes \<Rightarrow> 'a::len word \<times> bytes" where
  "sign_of s = (if rd s = chr CHR ''-'' then (-1, tl s) else if rd s = chr CHR ''+'' then (1, tl s) else (1, s))"

definition atoi :: "bytes \<Rightarrow> u32" where
  "atoi s = (case sign_of (dropWhile is_space s) of (sign, t) \<Rightarrow> sign * digits_loop 0 t)"

definition atol :: "bytes \<Rightarrow> u64" where
  "atol s = (case sign_of (dropWhile is_space s) of (sign, t) \<Rightarrow> sign * digits_loop 0 t)"

abbreviation digits36 :: bytes where
  "digits36 \<equiv> str ''0123456789abcdefghijklmnopqrstuvwxyz''"

text \<open>The digits of a value, least significant first (a base below 2 is rejected by the callers).\<close>

function itoa_digits :: "'a::len word \<Rightarrow> 'a word \<Rightarrow> bytes" where
  "itoa_digits base uval =
     (if unat base < 2 then [] else
      digits36 ! unat (uval mod base) #
        (if uval div base = 0 then [] else itoa_digits base (uval div base)))"
  by pat_completeness auto

termination
  by (relation "measure (\<lambda>(b, u). unat u)") (auto simp: unat_div unat_gt_0 intro!: div_less_dividend)

text \<open>The in-place reversal with two indexes.\<close>

function reverse_loop :: "bytes \<Rightarrow> nat \<Rightarrow> nat \<Rightarrow> bytes" where
  "reverse_loop s i j = (if i < j then reverse_loop (s[i := s ! j, j := s ! i]) (i + 1) (j - 1) else s)"
  by pat_completeness auto
termination
  by (relation "measure (\<lambda>(s, i, j). j - i)") auto

definition reverse :: "bytes \<Rightarrow> bytes" where
  "reverse s = reverse_loop s 0 (length s - 1)"

definition itoa :: "u32 \<Rightarrow> int \<Rightarrow> bytes" where
  "itoa value base =
     (if base < 2 \<or> 36 < base then []
      else let neg = (value <s 0 \<and> base = 10);
               uval = (if neg then - (value + 1) + 1 else value);
               p = itoa_digits (of_int base) uval
           in reverse (p @ (if neg then [chr CHR ''-''] else [])))"

definition ltoa :: "u64 \<Rightarrow> int \<Rightarrow> bytes" where
  "ltoa value base =
     (if base < 2 \<or> 36 < base then []
      else let neg = (value <s 0 \<and> base = 10);
               uval = (if neg then - (value + 1) + 1 else value);
               p = itoa_digits (of_int base) uval
           in reverse (p @ (if neg then [chr CHR ''-''] else [])))"

section \<open>Formatted output\<close>

text \<open>
  An output position in a buffer of \<open>size\<close> bytes: the buffer and the number of characters emitted so
  far, which keeps counting when the buffer is full. \<open>size\<close> is positive here.
\<close>

definition emit_char :: "nat \<Rightarrow> u8 \<Rightarrow> bytes \<times> nat \<Rightarrow> bytes \<times> nat" where
  "emit_char sz c = (\<lambda>(buf, pos). (if pos < sz - 1 then buf[pos := c] else buf, pos + 1))"

fun emit_str :: "nat \<Rightarrow> bytes \<Rightarrow> bytes \<times> nat \<Rightarrow> bytes \<times> nat" where
  "emit_str sz [] st = st"
| "emit_str sz (c # s) st = (if c \<noteq> 0 then emit_str sz s (emit_char sz c st) else st)"

abbreviation lo_digits :: bytes where "lo_digits \<equiv> str ''0123456789abcdef''"
abbreviation hi_digits :: bytes where "hi_digits \<equiv> str ''0123456789ABCDEF''"

function uint_digits :: "bytes \<Rightarrow> u64 \<Rightarrow> u64 \<Rightarrow> bytes" where
  "uint_digits digits base val =
     (if val = 0 \<or> unat base < 2 then []
      else digits ! unat (val mod base) # uint_digits digits base (val div base))"
  by pat_completeness auto
termination
  by (relation "measure (\<lambda>(d, b, u). unat u)") (auto simp: unat_div unat_gt_0)

text \<open>\<open>tmp\<close> holds 64 characters: a longer field overruns it, and the result is \<open>None\<close>.\<close>

definition emit_uint :: "nat \<Rightarrow> u64 \<Rightarrow> u64 \<Rightarrow> bool \<Rightarrow> nat \<Rightarrow> u8 \<Rightarrow> bytes \<times> nat \<Rightarrow> (bytes \<times> nat) option" where
  "emit_uint sz val base uppercase min_width pad st =
     (let digits = (if uppercase then hi_digits else lo_digits);
          tmp = (if val = 0 then [chr CHR ''0''] else uint_digits digits base val);
          tmp = tmp @ replicate (min_width - length tmp) pad
      in if 64 < length tmp then None
         else Some (fold (\<lambda>i. emit_char sz (tmp ! i)) (rev [0..<length tmp]) st))"

definition emit_int :: "nat \<Rightarrow> u64 \<Rightarrow> nat \<Rightarrow> u8 \<Rightarrow> bytes \<times> nat \<Rightarrow> (bytes \<times> nat) option" where
  "emit_int sz val min_width pad st =
     (if val <s 0 then emit_uint sz (- val) 10 False (min_width - 1) pad (emit_char sz (chr CHR ''-'') st)
      else emit_uint sz val 10 False min_width pad st)"

text \<open>
  A variadic argument: a number, passed in a 64-bit register whose low half is read for an
  \<open>int\<close>, or a string pointer, possibly null.
\<close>

datatype vararg = VNum u64 | VStr "bytes option"

fun va_num :: "vararg list \<Rightarrow> (u64 \<times> vararg list) option" where
  "va_num (VNum v # ap) = Some (v, ap)"
| "va_num _ = None"

fun va_str :: "vararg list \<Rightarrow> (bytes option \<times> vararg list) option" where
  "va_str (VStr s # ap) = Some (s, ap)"
| "va_str _ = None"

record fmt_spec =
  fs_pad :: u8
  fs_width :: nat
  fs_long :: nat

fun width_loop :: "nat \<Rightarrow> bytes \<Rightarrow> nat \<times> bytes" where
  "width_loop w [] = (w, [])"
| "width_loop w (c # s) = (if is_dec c then width_loop (w * 10 + unat (c - chr CHR ''0'')) s else (w, c # s))"

definition parse_spec :: "bytes \<Rightarrow> fmt_spec \<times> bytes" where
  "parse_spec fmt =
     (let (pad, fmt) = (if rd fmt = chr CHR ''0'' then (chr CHR ''0'', tl fmt) else (chr CHR '' '', fmt));
          (width, fmt) = width_loop 0 fmt;
          (longness, fmt) = (if rd fmt = chr CHR ''l''
                             then if rd (tl fmt) = chr CHR ''l'' then (2, tl (tl fmt)) else (1, tl fmt)
                             else (0, fmt))
      in (\<lparr>fs_pad = pad, fs_width = width, fs_long = longness\<rparr>, fmt))"

definition emit_conv ::
  "nat \<Rightarrow> u8 \<Rightarrow> fmt_spec \<Rightarrow> vararg list \<Rightarrow> bytes \<times> nat \<Rightarrow> ((bytes \<times> nat) \<times> vararg list) option" where
  "emit_conv sz c fs ap st =
     (let unum = (\<lambda>v :: u64. if fs_long fs = 0 then ucast (ucast v :: u32) else v);
          snum = (\<lambda>v :: u64. if fs_long fs = 0 then scast (ucast v :: u32) else v)
      in if c = chr CHR ''d'' \<or> c = chr CHR ''i'' then
           do { (v, ap) \<leftarrow> va_num ap;
                st \<leftarrow> emit_int sz (snum v) (fs_width fs) (fs_pad fs) st;
                Some (st, ap) }
         else if c = chr CHR ''u'' then
           do { (v, ap) \<leftarrow> va_num ap;
                st \<leftarrow> emit_uint sz (unum v) 10 False (fs_width fs) (fs_pad fs) st;
                Some (st, ap) }
         else if c = chr CHR ''x'' then
           do { (v, ap) \<leftarrow> va_num ap;
                st \<leftarrow> emit_uint sz (unum v) 16 False (fs_width fs) (fs_pad fs) st;
                Some (st, ap) }
         else if c = chr CHR ''X'' then
           do { (v, ap) \<leftarrow> va_num ap;
                st \<leftarrow> emit_uint sz (unum v) 16 True (fs_width fs) (fs_pad fs) st;
                Some (st, ap) }
         else if c = chr CHR ''p'' then
           do { (v, ap) \<leftarrow> va_num ap;
                st \<leftarrow> emit_uint sz v 16 False 0 (chr CHR ''0'') (emit_str sz (str ''0x'') st);
                Some (st, ap) }
         else if c = chr CHR ''s'' then
           do { (s, ap) \<leftarrow> va_str ap;
                Some (emit_str sz (case s of None \<Rightarrow> str ''(null)'' | Some s \<Rightarrow> s) st, ap) }
         else if c = chr CHR ''c'' then
           do { (v, ap) \<leftarrow> va_num ap; Some (emit_char sz (ucast v) st, ap) }
         else if c = chr CHR ''%'' then Some (emit_char sz (chr CHR ''%'') st, ap)
         else Some (emit_char sz c (emit_char sz (chr CHR ''%'') st), ap))"

lemma width_loop_length: "length (snd (width_loop w s)) \<le> length s"
  by (induction w s rule: width_loop.induct) (auto simp: le_SucI)

lemma parse_spec_length: "length (snd (parse_spec fmt)) \<le> length fmt"
  using width_loop_length [of 0 fmt] width_loop_length [of 0 "tl fmt"]
  by (auto simp: parse_spec_def Let_def split: prod.splits if_splits)

lemma parse_spec_shorter: "parse_spec fmt = (fs, f) \<Longrightarrow> length f - Suc 0 < Suc (length fmt)"
  using parse_spec_length [of fmt] by simp

text \<open>
  The loop over the format. At the end of the format the default case would emit the terminator and
  step past it, so a conversion that the string ends in gives \<open>None\<close>.
\<close>

function snprintf_loop :: "nat \<Rightarrow> bytes \<Rightarrow> vararg list \<Rightarrow> bytes \<times> nat \<Rightarrow> (bytes \<times> nat) option" where
  "snprintf_loop sz [] ap st = Some st"
| "snprintf_loop sz (c # fmt) ap st =
     (if c = 0 then Some st
      else if c \<noteq> chr CHR ''%'' then snprintf_loop sz fmt ap (emit_char sz c st)
      else case parse_spec fmt of (fs, f) \<Rightarrow>
        if rd f = 0 then None
        else case emit_conv sz (rd f) fs ap st of
          None \<Rightarrow> None
        | Some (st', ap') \<Rightarrow> snprintf_loop sz (tl f) ap' st')"
  by pat_completeness auto
termination
  by (relation "measure (\<lambda>(sz, fmt, ap, st). length fmt)") (auto dest!: parse_spec_shorter [OF sym])

text \<open>\<open>snprintf\<close> on a buffer of \<open>length buf\<close> bytes: the returned count and the buffer afterwards.\<close>

definition snprintf :: "bytes \<Rightarrow> bytes \<Rightarrow> vararg list \<Rightarrow> (u32 \<times> bytes) option" where
  "snprintf buf fmt ap =
     (let sz = length buf in
      if sz = 0 then Some (0, buf)
      else case snprintf_loop sz fmt ap (buf, 0) of
        None \<Rightarrow> None
      | Some (b, pos) \<Rightarrow> Some (of_nat pos, if pos < sz then b[pos := 0] else b[sz - 1 := 0]))"

text \<open>The string that \<open>snprintf\<close> leaves in a zeroed buffer of \<open>sz\<close> bytes.\<close>

definition fmt_buf :: "nat \<Rightarrow> string \<Rightarrow> vararg list \<Rightarrow> bytes" where
  "fmt_buf sz fmt args = (case snprintf (replicate sz 0) (str fmt) args of Some (n, b) \<Rightarrow> b | None \<Rightarrow> [])"

text \<open>A text field of \<open>n\<close> bytes after \<open>strncpy(field, s, n - 1); field[n - 1] = 0;\<close>.\<close>

definition text_field :: "nat \<Rightarrow> bytes \<Rightarrow> bytes" where
  "text_field n s = map ((strncpy 0 s (n - 1) (\<lambda>_. 0))(n - 1 := 0)) [0..<n]"

section \<open>Integers in a buffer\<close>

text \<open>The object representation of an integer of \<open>n\<close> bytes, little endian, and back.\<close>

primrec le_bytes :: "nat \<Rightarrow> 'a::len word \<Rightarrow> bytes" where
  "le_bytes 0 w = []"
| "le_bytes (Suc n) w = ucast w # le_bytes n (drop_bit 8 w)"

fun le_word :: "bytes \<Rightarrow> 'a::len word" where
  "le_word [] = 0"
| "le_word (b # bs) = ucast b OR push_bit 8 (le_word bs)"

lemma length_le_bytes [simp]: "length (le_bytes n w) = n"
  by (induction n arbitrary: w) auto

lemma le_word_le_bytes: "le_word (le_bytes n w) = take_bit (8 * n) w"
proof (induction n arbitrary: w)
  case (Suc n)
  have "(ucast (ucast w :: u8) :: 'a word) OR push_bit 8 (take_bit (8 * n) (drop_bit 8 w)) = take_bit (8 * Suc n) w"
    by (rule bit_word_eqI) (auto simp: bit_simps)
  then show ?case using Suc by simp
qed simp

lemma le_word_32 [simp]: "le_word (le_bytes 4 w) = (w :: u32)"
  by (simp add: le_word_le_bytes take_bit_word_eq_self)

lemma le_word_64 [simp]: "le_word (le_bytes 8 w) = (w :: u64)"
  by (simp add: le_word_le_bytes take_bit_word_eq_self)

section \<open>Properties of the memory operations\<close>

declare itoa_digits.simps [simp del] uint_digits.simps [simp del] reverse_loop.simps [simp del]

lemma memset_apply: "memset d c n m a = (if d \<le> a \<and> a < d + n then c else m a)"
  by (induction n arbitrary: d m) auto

lemma memcpy_apply:
  "d \<le> s \<or> s + n \<le> d \<Longrightarrow> memcpy d s n m a = (if d \<le> a \<and> a < d + n then m (s + (a - d)) else m a)"
proof (induction n arbitrary: d s m)
  case (Suc n)
  then have "memcpy d s (Suc n) m a =
      (if d + 1 \<le> a \<and> a < d + 1 + n then (m(d := m s)) (s + 1 + (a - (d + 1))) else (m(d := m s)) a)"
    by (simp only: memcpy.simps) (rule Suc.IH, auto)
  then show ?case using Suc.prems by (auto simp: le_Suc_eq Suc_diff_Suc)
qed auto

lemma memcpy_down_apply:
  "s \<le> d \<Longrightarrow> memcpy_down (d + n) (s + n) n m a = (if d \<le> a \<and> a < d + n then m (s + (a - d)) else m a)"
proof (induction n arbitrary: m)
  case (Suc n)
  have "memcpy_down (d + Suc n) (s + Suc n) (Suc n) m a =
      memcpy_down (d + n) (s + n) n (m(d + n := m (s + n))) a" by simp
  also have "\<dots> = (if d \<le> a \<and> a < d + n then (m(d + n := m (s + n))) (s + (a - d)) else (m(d + n := m (s + n))) a)"
    by (rule Suc.IH [OF Suc.prems])
  finally show ?case using Suc.prems by auto
qed auto

lemma uint_eq_uint_iff [simp]: "uint x = uint y \<longleftrightarrow> x = y"
  by (simp add: word_uint_eq_iff)

lemma memcmp_0_iff: "memcmp a b n m = 0 \<longleftrightarrow> (\<forall>i < n. m (a + i) = m (b + i))"
  by (induction n arbitrary: a b) (auto simp: less_Suc_eq_0_disj)

section \<open>Properties of the string functions\<close>

lemma strlen_cval: "strlen s = length (cval s)"
  by (induction s) (auto simp: cval_def)

lemma strnlen_min: "strnlen s n = min n (strlen s)"
  by (induction s n rule: strnlen.induct) auto

lemma strcpy_apply:
  "strcpy d s m a = (if d \<le> a \<and> a < d + strlen s then s ! (a - d) else if a = d + strlen s then 0 else m a)"
  by (induction s arbitrary: d m) (auto simp: nth_Cons')

lemma strncpy_apply:
  "strncpy d s n m a =
     (if d \<le> a \<and> a < d + n then if a - d < strlen s then s ! (a - d) else 0
      else if a = d + n \<and> strlen s < n then 0 else m a)"
proof (induction s arbitrary: d n m)
  case Nil
  then show ?case by (cases n) (auto simp: strncpy_def memset_apply)
next
  case (Cons c s)
  show ?case
  proof (cases n)
    case 0
    then show ?thesis by (auto simp: strncpy_def)
  next
    case (Suc k)
    then have "strncpy d (c # s) n m = (if c \<noteq> 0 then strncpy (d + 1) s k (m(d := c)) else memset (d + 1) 0 n (m(d := 0)))"
      by (simp add: strncpy_def)
    then show ?thesis using Suc Cons by (auto simp: nth_Cons' memset_apply)
  qed
qed

lemma cval_prefix:
  assumes "\<And>i. i < length t \<Longrightarrow> f i = t ! i" "0 \<notin> set t" "f (length t) = 0" "length t < n"
  shows "cval (map f [0..<n]) = t"
proof -
  have "[0..<n] = [0..<length t] @ length t # [Suc (length t)..<n]"
    using assms(4) upt_add_eq_append [of 0 "length t" "n - length t"] by (simp add: upt_conv_Cons)
  moreover have "map f [0..<length t] = t" by (rule nth_equalityI) (use assms(1) in auto)
  moreover have "takeWhile (\<lambda>c. c \<noteq> 0) (t @ 0 # ys) = t" for ys
    using assms(2) by (auto simp: takeWhile_append2 takeWhile_tail)
  ultimately show ?thesis using assms(3) by (simp add: cval_def)
qed

lemma zero_notin_cval: "0 \<notin> set (cval s)"
  by (auto simp: cval_def dest: set_takeWhileD)

lemma nth_cval: "i < length (cval s) \<Longrightarrow> cval s ! i = s ! i"
  by (simp add: cval_def takeWhile_nth)

text \<open>A fixed-size field filled with \<open>strncpy(field, s, k); field[k] = 0;\<close> holds the first \<open>k\<close> bytes.\<close>

lemma strncpy_field: "cval (map ((strncpy 0 s k p)(k := 0)) [0..<Suc k]) = take k (cval s)"
  by (rule cval_prefix)
    (use zero_notin_cval [of s] in \<open>auto simp: strncpy_apply strlen_cval nth_cval min_def dest: in_set_takeD split: if_splits\<close>)

lemma str_end_Some: "(\<And>i. i < k \<Longrightarrow> m (p + i) \<noteq> 0) \<Longrightarrow> m (p + k) = 0 \<Longrightarrow> str_end m p = Some (p + k)"
proof (induction k arbitrary: p)
  case (Suc k)
  have "m p \<noteq> 0" using Suc.prems(1) [of 0] by simp
  moreover have "str_end m (p + 1) = Some (p + 1 + k)"
    using Suc.prems by (intro Suc.IH) force+
  ultimately show ?case by (subst str_end.simps) simp
qed (simp add: str_end.simps)

lemma strncat_loop_eq_strcpy: "strncat_loop d s n m = strcpy d (take n s) m"
  by (induction d s n m rule: strncat_loop.induct) (simp_all del: fun_upd_apply)

lemma strcmp_0_iff: "strcmp a b = 0 \<longleftrightarrow> cval a = cval b"
proof (induction a b rule: strcmp.induct)
  case (1 b)
  then show ?case by (cases b) (auto simp: rd_def cval_def uint_0_iff)
next
  case (2 c a b)
  then show ?case by (cases b) (auto simp: rd_def cval_def uint_0_iff)
qed

lemma strncmp_0_iff: "strncmp a b n = 0 \<longleftrightarrow> take n (cval a) = take n (cval b)"
proof (induction a b n rule: strncmp.induct)
  case (2 b n)
  then show ?case by (cases b) (auto simp: rd_def cval_def uint_0_iff)
next
  case (3 c a b n)
  then show ?case by (cases b) (auto simp: rd_def cval_def uint_0_iff)
qed simp

lemma cval_Cons: "cval (c # s) = (if c = 0 then [] else c # cval s)"
  by (simp add: cval_def)

text \<open>Where the bytes \<open>n\<close> occur in \<open>h\<close>.\<close>

definition occurs_at :: "bytes \<Rightarrow> bytes \<Rightarrow> nat \<Rightarrow> bool" where
  "occurs_at h n i \<longleftrightarrow> i \<le> length h \<and> take (length n) (drop i h) = n"

lemma occurs_at_simps [simp]:
  "occurs_at h n 0 \<longleftrightarrow> take (length n) h = n"
  "occurs_at (c # h) n (Suc j) \<longleftrightarrow> occurs_at h n j"
  by (auto simp: occurs_at_def)

lemma strncpy_strncmp:
  assumes "n < k"
  shows "strncmp (map (strncpy 0 t n m) [0..<k]) t n = 0"
proof (cases "strlen t < n")
  case True
  have "cval (map (strncpy 0 t n m) [0..<k]) = cval t"
    by (rule cval_prefix) (use True assms zero_notin_cval [of t] in \<open>auto simp: strncpy_apply strlen_cval nth_cval\<close>)
  then show ?thesis by (simp add: strncmp_0_iff)
next
  case False
  have "[0..<k] = [0..<n] @ [n..<k]" using assms upt_add_eq_append [of 0 n "k - n"] by simp
  moreover have "map (strncpy 0 t n m) [0..<n] = take n (cval t)"
    by (rule nth_equalityI) (use False in \<open>auto simp: strncpy_apply strlen_cval nth_cval\<close>)
  ultimately have "cval (map (strncpy 0 t n m) [0..<k]) = take n (cval t) @ cval (map (strncpy 0 t n m) [n..<k])"
    unfolding cval_def using zero_notin_cval [of t, unfolded cval_def]
    by (simp only: map_append) (rule takeWhile_append2, metis in_set_takeD)
  then show ?thesis using False by (simp add: strncmp_0_iff strlen_cval)
qed

lemma strncmp_prefix: "strncmp s n (strlen n) = 0 \<longleftrightarrow> occurs_at (cval s) (cval n) 0"
  by (simp add: strncmp_0_iff strlen_cval)

lemma strstr_loop_spec:
  assumes "cval n \<noteq> []"
  shows "case strstr_loop s n (strlen n) i of
           None \<Rightarrow> \<forall>j. \<not> occurs_at (cval s) (cval n) j
         | Some k \<Rightarrow> i \<le> k \<and> occurs_at (cval s) (cval n) (k - i) \<and> (\<forall>j < k - i. \<not> occurs_at (cval s) (cval n) j)"
proof (induction s arbitrary: i)
  case Nil
  then show ?case using assms by (auto simp: cval_def occurs_at_def)
next
  case (Cons x s)
  have head: "x = rd n \<and> strncmp (x # s) n (strlen n) = 0 \<longleftrightarrow> occurs_at (cval (x # s)) (cval n) 0" if "x \<noteq> 0"
    unfolding strncmp_prefix using assms that by (cases n) (auto simp: cval_Cons cval_def rd_def split: if_splits)
  show ?case
  proof (cases "x = 0 \<or> occurs_at (cval (x # s)) (cval n) 0")
    case True
    then show ?thesis using assms head by (cases "x = 0") (auto simp: occurs_at_def cval_Cons)
  next
    case False
    then have step: "strstr_loop (x # s) n (strlen n) i = strstr_loop s n (strlen n) (Suc i)"
      using head by auto
    have shift: "occurs_at (cval (x # s)) (cval n) j \<longleftrightarrow> 0 < j \<and> occurs_at (cval s) (cval n) (j - 1)" for j
      using False by (cases j) (auto simp: cval_Cons)
    show ?thesis
    proof (cases "strstr_loop s n (strlen n) (Suc i)")
      case None
      then show ?thesis using Cons.IH [of "Suc i"] step shift by simp
    next
      case (Some k)
      then have "Suc i \<le> k" "occurs_at (cval s) (cval n) (k - Suc i)" "\<forall>j < k - Suc i. \<not> occurs_at (cval s) (cval n) j"
        using Cons.IH [of "Suc i"] by auto
      then show ?thesis using Some step by (auto simp: shift)
    qed
  qed
qed

section \<open>Numbers\<close>

text \<open>The reference: the digits of a number, most significant first, and the number they denote.\<close>

fun nat_digits :: "nat \<Rightarrow> nat \<Rightarrow> nat list" where
  "nat_digits b n = (if n < b \<or> b < 2 then [n] else nat_digits b (n div b) @ [n mod b])"

declare nat_digits.simps [simp del]

definition digits_value :: "nat \<Rightarrow> nat list \<Rightarrow> nat" where
  "digits_value b ds = foldl (\<lambda>v d. v * b + d) 0 ds"

lemma digits_value_nat_digits: "digits_value b (nat_digits b n) = n"
proof (induction b n rule: nat_digits.induct)
  case (1 b n)
  then show ?case by (subst nat_digits.simps) (auto simp: digits_value_def)
qed

lemma nat_digits_less: "2 \<le> b \<Longrightarrow> d \<in> set (nat_digits b n) \<Longrightarrow> d < b"
proof (induction b n rule: nat_digits.induct)
  case (1 b n)
  then show ?case by (subst (asm) (2) nat_digits.simps) (auto split: if_splits)
qed

lemma itoa_digits_spec:
  assumes "2 \<le> unat base"
  shows "itoa_digits base u = rev (map ((!) digits36) (nat_digits (unat base) (unat u)))"
  using assms
proof (induction base u rule: itoa_digits.induct)
  case (1 base u)
  have zero: "u div base = 0 \<longleftrightarrow> unat u < unat base"
    using 1(2) by (simp add: unat_eq_zero [symmetric] unat_div div_eq_0_iff del: unat_eq_zero)
  show ?case
    using 1 zero by (subst itoa_digits.simps, subst nat_digits.simps) (simp add: unat_div unat_mod)
qed

lemma uint_digits_spec:
  assumes "2 \<le> unat base" "u \<noteq> 0"
  shows "uint_digits ds base u = rev (map ((!) ds) (nat_digits (unat base) (unat u)))"
  using assms
proof (induction ds base u rule: uint_digits.induct)
  case (1 ds base u)
  have zero: "u div base = 0 \<longleftrightarrow> unat u < unat base"
    using 1(2) by (simp add: unat_eq_zero [symmetric] unat_div div_eq_0_iff del: unat_eq_zero)
  show ?case
    using 1 zero by (subst uint_digits.simps, subst nat_digits.simps)
      (auto simp: unat_div unat_mod uint_digits.simps [of ds base 0])
qed

lemma reverse_loop_length [simp]: "length (reverse_loop s i j) = length s"
proof (induction s i j rule: reverse_loop.induct)
  case (1 s i j)
  then show ?case by (subst reverse_loop.simps) simp
qed

lemma reverse_loop_nth:
  "j < length s \<Longrightarrow> k < length s \<Longrightarrow> reverse_loop s i j ! k = (if i \<le> k \<and> k \<le> j then s ! (i + j - k) else s ! k)"
proof (induction s i j rule: reverse_loop.induct)
  case (1 s i j)
  show ?case
  proof (cases "i < j")
    case True
    define t where "t = s[i := s ! j, j := s ! i]"
    have "reverse_loop s i j ! k = reverse_loop t (i + 1) (j - 1) ! k"
      using True by (subst reverse_loop.simps) (simp add: t_def)
    also have "\<dots> = (if i + 1 \<le> k \<and> k \<le> j - 1 then t ! (i + 1 + (j - 1) - k) else t ! k)"
      unfolding t_def by (rule 1) (use 1 True in auto)
    also have "\<dots> = (if i \<le> k \<and> k \<le> j then s ! (i + j - k) else s ! k)"
      using True 1(2,3) unfolding t_def by (cases "k = i"; cases "k = j") (auto simp: nth_list_update)
    finally show ?thesis .
  next
    case False
    then have "reverse_loop s i j = s" by (subst reverse_loop.simps) simp
    then show ?thesis using False by (cases "i = j") auto
  qed
qed

lemma reverse_eq_rev [simp]: "reverse s = rev s"
proof (cases "s = []")
  case True
  then show ?thesis by (simp add: reverse_def reverse_loop.simps)
next
  case False
  then show ?thesis
    by (intro nth_equalityI) (auto simp: reverse_def reverse_loop_nth rev_nth Suc_le_eq)
qed

lemma digits36_dec: "d < 10 \<Longrightarrow> digits36 ! d = of_nat (48 + d)"
proof -
  assume "d < 10"
  then have "d \<in> {0, 1, 2, 3, 4, 5, 6, 7, 8, 9}" by auto
  then show ?thesis by (auto simp: str_def)
qed

lemma dec_digit:
  assumes "d < 10"
  shows "is_dec (of_nat (48 + d))" "ucast (of_nat (48 + d) - chr CHR ''0'') = (of_nat d :: 'a::len word)"
proof -
  have "d \<in> {0, 1, 2, 3, 4, 5, 6, 7, 8, 9}" using assms by auto
  then show "is_dec (of_nat (48 + d))" "ucast (of_nat (48 + d) - chr CHR ''0'') = (of_nat d :: 'a word)"
    by auto
qed

lemma digits_loop_map:
  "\<forall>d \<in> set ds. d < 10 \<Longrightarrow>
   digits_loop (of_nat v) (map ((!) digits36) ds) = (of_nat (foldl (\<lambda>v d. v * 10 + d) v ds) :: 'a::len word)"
proof (induction ds arbitrary: v)
  case (Cons d ds)
  then show ?case
    using dec_digit(1) [of d] dec_digit(2) [where 'a = 'a, of d] Cons.IH [of "v * 10 + d"] by (simp add: digits36_dec)
qed simp

lemma digits_loop_nat_digits:
  "digits_loop 0 (map ((!) digits36) (nat_digits 10 n)) = (of_nat n :: 'a::len word)"
  using digits_loop_map [of "nat_digits 10 n" 0] nat_digits_less [of 10] digits_value_nat_digits [of 10 n]
  by (auto simp: digits_value_def)

lemma nat_digits_nonempty [simp]: "nat_digits b n \<noteq> []"
  by (subst nat_digits.simps) simp

lemma dec_text_start:
  assumes "s = map ((!) digits36) (nat_digits 10 n)"
  shows "dropWhile is_space s = s" "sign_of s = (1, s)" "dropWhile is_space (chr CHR ''-'' # s) = chr CHR ''-'' # s"
proof -
  obtain d ds where ds: "nat_digits 10 n = d # ds" by (cases "nat_digits 10 n") auto
  then have "d < 10" using nat_digits_less [of 10 d n] by simp
  then have "d \<in> {0, 1, 2, 3, 4, 5, 6, 7, 8, 9}" by auto
  then have "\<not> is_space (digits36 ! d)" "digits36 ! d \<noteq> chr CHR ''-''" "digits36 ! d \<noteq> chr CHR ''+''"
    by (auto simp: digits36_dec is_space_def)
  then show "dropWhile is_space s = s" "sign_of s = (1, s)" "dropWhile is_space (chr CHR ''-'' # s) = chr CHR ''-'' # s"
    using assms ds by (auto simp: sign_of_def rd_def is_space_def)
qed

lemma itoa_text:
  assumes "2 \<le> base" "base \<le> 36"
  shows "itoa v base = (if v <s 0 \<and> base = 10 then chr CHR ''-'' # map ((!) digits36) (nat_digits 10 (unat (- v)))
                        else map ((!) digits36) (nat_digits (nat base) (unat v)))"
proof -
  have "unat (of_int base :: u32) = nat base"
    using assms by (simp flip: nat_uint_eq add: uint_word_of_int_eq take_bit_int_eq_self)
  then show ?thesis
    using assms by (auto simp: itoa_def Let_def itoa_digits_spec)
qed

section \<open>What formatted output writes\<close>

text \<open>The reference text of a conversion and of a whole format.\<close>

definition field :: "nat \<Rightarrow> u8 \<Rightarrow> bytes \<Rightarrow> bytes option" where
  "field w pad t = (if 64 < max w (length t) then None else Some (replicate (w - length t) pad @ t))"

definition num_text :: "nat \<Rightarrow> bool \<Rightarrow> nat \<Rightarrow> bytes" where
  "num_text b uppercase n = map ((!) (if uppercase then hi_digits else lo_digits)) (nat_digits b n)"

definition int_text :: "int \<Rightarrow> nat \<Rightarrow> u8 \<Rightarrow> bytes option" where
  "int_text i w pad =
     (if i < 0 then map_option ((#) (chr CHR ''-'')) (field (w - 1) pad (num_text 10 False (nat (- i))))
      else field w pad (num_text 10 False (nat i)))"

definition conv_text :: "u8 \<Rightarrow> fmt_spec \<Rightarrow> vararg list \<Rightarrow> (bytes \<times> vararg list) option" where
  "conv_text c fs ap =
     (let unum = (\<lambda>v :: u64. if fs_long fs = 0 then unat v mod 2 ^ 32 else unat v);
          snum = (\<lambda>v :: u64. if fs_long fs = 0 then sint (ucast v :: u32) else sint v);
          num = (\<lambda>f. do { (v, ap) \<leftarrow> va_num ap; t \<leftarrow> f v; Some (t, ap) })
      in if c = chr CHR ''d'' \<or> c = chr CHR ''i'' then num (\<lambda>v. int_text (snum v) (fs_width fs) (fs_pad fs))
         else if c = chr CHR ''u'' then num (\<lambda>v. field (fs_width fs) (fs_pad fs) (num_text 10 False (unum v)))
         else if c = chr CHR ''x'' then num (\<lambda>v. field (fs_width fs) (fs_pad fs) (num_text 16 False (unum v)))
         else if c = chr CHR ''X'' then num (\<lambda>v. field (fs_width fs) (fs_pad fs) (num_text 16 True (unum v)))
         else if c = chr CHR ''p'' then num (\<lambda>v. Some (str ''0x'' @ num_text 16 False (unat v)))
         else if c = chr CHR ''s'' then
           do { (s, ap) \<leftarrow> va_str ap; Some (cval (case s of None \<Rightarrow> str ''(null)'' | Some s \<Rightarrow> s), ap) }
         else if c = chr CHR ''c'' then num (\<lambda>v. Some [ucast v])
         else if c = chr CHR ''%'' then Some ([c], ap)
         else Some ([chr CHR ''%'', c], ap))"

function format_text :: "bytes \<Rightarrow> vararg list \<Rightarrow> bytes option" where
  "format_text [] ap = Some []"
| "format_text (c # fmt) ap =
     (if c = 0 then Some []
      else if c \<noteq> chr CHR ''%'' then map_option ((#) c) (format_text fmt ap)
      else case parse_spec fmt of (fs, f) \<Rightarrow>
        if rd f = 0 then None
        else case conv_text (rd f) fs ap of
          None \<Rightarrow> None
        | Some (t, ap') \<Rightarrow> map_option ((@) t) (format_text (tl f) ap'))"
  by pat_completeness auto
termination
  by (relation "measure (\<lambda>(fmt, ap). length fmt)") (auto dest!: parse_spec_shorter [OF sym])

lemma emit_str_fold: "emit_str sz s st = fold (emit_char sz) (cval s) st"
  by (induction sz s st rule: emit_str.induct) (auto simp: cval_def)

lemma fold_nth_rev: "fold (\<lambda>i. f (xs ! i)) (rev [0..<length xs]) st = fold f (rev xs) st"
proof -
  have "fold (\<lambda>i. f (xs ! i)) (rev [0..<length xs]) st = fold f (map ((!) xs) (rev [0..<length xs])) st"
    by (simp add: fold_map comp_def)
  also have "map ((!) xs) (rev [0..<length xs]) = rev xs"
    by (simp add: rev_map [symmetric] map_nth)
  finally show ?thesis .
qed

lemma num_digits:
  assumes "2 \<le> unat base" "unat base \<le> 16"
  shows "(if v = 0 then [chr CHR ''0''] else uint_digits (if up then hi_digits else lo_digits) base v) =
         rev (num_text (unat base) up (unat v))"
  using assms
  by (auto simp: uint_digits_spec num_text_def nat_digits.simps [of _ 0] str_def)

lemma emit_uint_text:
  assumes "2 \<le> unat base" "unat base \<le> 16"
  shows "emit_uint sz v base up w pad st =
         map_option (\<lambda>t. fold (emit_char sz) t st) (field w pad (num_text (unat base) up (unat v)))"
  unfolding emit_uint_def Let_def num_digits [OF assms] fold_nth_rev
  by (auto simp: field_def)

lemma unat_word_of_int64: "0 \<le> k \<Longrightarrow> k < 2 ^ 64 \<Longrightarrow> unat (word_of_int k :: u64) = nat k"
  by (simp flip: nat_uint_eq add: uint_word_of_int_eq take_bit_int_eq_self)

lemma unat_uminus_neg:
  assumes "v <s 0"
  shows "unat (- v :: u64) = nat (- sint v)"
proof -
  have "sint v < 0" using assms by (simp add: word_sless_alt)
  moreover have "- (2 ^ 63) \<le> sint v" using sint_greater_eq [of v] by simp
  ultimately show ?thesis using unat_word_of_int64 [of "- sint v"] by simp
qed

lemma unat_nonneg:
  assumes "\<not> v <s 0"
  shows "unat (v :: u64) = nat (sint v)"
proof -
  have "0 \<le> sint v" using assms by (simp add: word_sless_alt)
  moreover have "sint v < 2 ^ 63" using sint_less [of v] by simp
  ultimately show ?thesis using unat_word_of_int64 [of "sint v"] by simp
qed

lemma nat_digits_length: "0 < k \<Longrightarrow> n < b ^ k \<Longrightarrow> length (nat_digits b n) \<le> k"
proof (induction b n arbitrary: k rule: nat_digits.induct)
  case (1 b n)
  show ?case
  proof (cases "n < b \<or> b < 2")
    case True
    then have "nat_digits b n = [n]" by (subst nat_digits.simps) simp
    with 1(2) show ?thesis by simp
  next
    case False
    with 1(3) have "k \<noteq> 1" by auto
    with 1(2) obtain j where j: "k = Suc j" "0 < j" by (cases k) auto
    have "n div b < b ^ j" using 1(3) j False by (simp add: div_less_iff_less_mult mult.commute)
    with 1(1) [OF False j(2)] show ?thesis using j False by (subst nat_digits.simps) simp
  qed
qed

lemma num_text_16_length: "length (num_text 16 up (unat (v :: u64))) \<le> 16"
  using nat_digits_length [of 16 "unat v" 16] unsigned_less [of v] by (simp add: num_text_def)

lemma emit_int_text:
  "emit_int sz v w pad st = map_option (\<lambda>t. fold (emit_char sz) t st) (int_text (sint v) w pad)"
proof (cases "v <s 0")
  case True
  then have "sint v < 0" by (simp add: word_sless_alt)
  then show ?thesis using True
    by (simp add: emit_int_def int_text_def emit_uint_text unat_uminus_neg option.map_comp comp_def)
next
  case False
  then have "\<not> sint v < 0" by (simp add: word_sless_alt)
  then show ?thesis using False by (simp add: emit_int_def int_text_def emit_uint_text unat_nonneg)
qed

lemma unat_ucast_32: "unat (ucast (ucast (v :: u64) :: u32) :: u64) = unat v mod 2 ^ 32"
  by (simp add: unsigned_ucast_eq take_bit_eq_mod unat_mod)

lemma sint_scast_32: "sint (scast (x :: u32) :: u64) = sint x"
  by (transfer, simp add: signed_take_bit_signed_take_bit)

lemma num_conv:
  assumes "\<And>v. F v = map_option (\<lambda>t. fold (emit_char sz) t st) (f v)"
  shows "do { (v, ap) \<leftarrow> va_num ap; st \<leftarrow> F v; Some (st, ap) } =
         map_option (\<lambda>(t, ap'). (fold (emit_char sz) t st, ap')) (do { (v, ap) \<leftarrow> va_num ap; t \<leftarrow> f v; Some (t, ap) })"
proof (cases "va_num ap")
  case (Some vap)
  then show ?thesis using assms by (cases vap; cases "f (fst vap)") auto
qed simp

lemma if_image: "(b \<Longrightarrow> x = g x') \<Longrightarrow> (\<not> b \<Longrightarrow> y = g y') \<Longrightarrow> (if b then x else y) = g (if b then x' else y')"
  by simp

lemma emit_conv_text:
  "emit_conv sz c fs ap st = map_option (\<lambda>(t, ap'). (fold (emit_char sz) t st, ap')) (conv_text c fs ap)"
proof -
  have pfx: "field 0 (chr CHR ''0'') (num_text 16 False (unat v)) = Some (num_text 16 False (unat v))" for v :: u64
    using num_text_16_length [of False v] by (simp add: field_def)
  have x: "cval (str ''0x'') = str ''0x''" by (simp add: cval_def str_def)
  have chr: "do { (v, ap) \<leftarrow> va_num ap; Some (emit_char sz (ucast v) st, ap) } =
     do { (v, ap) \<leftarrow> va_num ap; st \<leftarrow> Some (emit_char sz (ucast v) st); Some (st, ap) }" by simp
  have strs: "do { (s, ap) \<leftarrow> va_str ap; Some (emit_str sz (g s) st, ap) } =
     map_option (\<lambda>(t, ap'). (fold (emit_char sz) t st, ap')) (do { (s, ap) \<leftarrow> va_str ap; Some (cval (g s), ap) })" for g
    by (cases "va_str ap") (auto simp: emit_str_fold)
  show ?thesis
    unfolding emit_conv_def conv_text_def Let_def chr strs
    by (intro if_image num_conv)
      (simp_all add: emit_int_text emit_uint_text sint_scast_32 unat_ucast_32 emit_str_fold x pfx [simplified])
qed

lemma snprintf_loop_text:
  "snprintf_loop sz fmt ap st = map_option (\<lambda>t. fold (emit_char sz) t st) (format_text fmt ap)"
proof (induction sz fmt ap st rule: snprintf_loop.induct)
  case (2 sz c fmt ap st)
  obtain fs f where "parse_spec fmt = (fs, f)" by fastforce
  with 2 show ?case
    by (auto simp: emit_conv_text option.map_comp comp_def split: option.splits)
qed simp

lemma fold_emit_char:
  "buf \<noteq> [] \<Longrightarrow> fold (emit_char (length buf)) t (buf, 0) =
    (let k = min (length t) (length buf - 1) in (take k t @ drop k buf, length t))"
proof (induction t rule: rev_induct)
  case (snoc c t)
  define k where "k = length t"
  define n where "n = length buf"
  have "fold (emit_char n) t (buf, 0) = (take (min k (n - 1)) t @ drop (min k (n - 1)) buf, k)"
    using snoc by (simp add: Let_def k_def n_def)
  then have step: "fold (emit_char n) (t @ [c]) (buf, 0) =
     emit_char n c (take (min k (n - 1)) t @ drop (min k (n - 1)) buf, k)" by simp
  show ?case
  proof (cases "k < n - 1")
    case True
    then have "drop k buf = buf ! k # drop (Suc k) buf" by (simp add: Cons_nth_drop_Suc n_def)
    then show ?thesis using True unfolding n_def [symmetric] step by (simp add: emit_char_def Let_def k_def list_update_append)
  next
    case False
    then show ?thesis unfolding n_def [symmetric] step by (auto simp: emit_char_def Let_def k_def)
  qed
qed simp

text \<open>A text stored in a buffer: as much as fits, and the terminator.\<close>

definition fit :: "bytes \<Rightarrow> bytes \<Rightarrow> bytes" where
  "fit t buf = (let k = min (length t) (length buf - 1) in take k t @ 0 # drop (k + 1) buf)"

lemma cval_text_field: "0 < n \<Longrightarrow> cval (text_field n s) = take (n - 1) (cval s)"
  using strncpy_field [of s "n - 1" "\<lambda>_. 0"] by (simp add: text_field_def)

section \<open>The properties\<close>

lemma memmove_apply: "memmove d s n m a = (if d \<le> a \<and> a < d + n then m (s + (a - d)) else m a)"
  by (cases "d = s") (auto simp: memmove_def memcpy_apply memcpy_down_apply)

lemma strstr_first:
  "strstr h n = None \<Longrightarrow> \<not> occurs_at (cval h) (cval n) j"
  "strstr h n = Some i \<Longrightarrow> occurs_at (cval h) (cval n) i"
  "strstr h n = Some i \<Longrightarrow> j < i \<Longrightarrow> \<not> occurs_at (cval h) (cval n) j"
proof -
  have "rd n = 0 \<longleftrightarrow> cval n = []" by (cases n) (auto simp: rd_def cval_def)
  then show "strstr h n = None \<Longrightarrow> \<not> occurs_at (cval h) (cval n) j"
    "strstr h n = Some i \<Longrightarrow> occurs_at (cval h) (cval n) i"
    "strstr h n = Some i \<Longrightarrow> j < i \<Longrightarrow> \<not> occurs_at (cval h) (cval n) j"
    using strstr_loop_spec [of n h 0] by (auto simp: strstr_def split: if_splits option.splits)
qed

lemma snprintf_text:
  assumes "buf \<noteq> []"
  shows "snprintf buf fmt ap = map_option (\<lambda>t. (of_nat (length t), fit t buf)) (format_text fmt ap)"
proof (cases "format_text fmt ap")
  case None
  then show ?thesis using assms by (simp add: snprintf_def snprintf_loop_text)
next
  case (Some t)
  define k where "k = min (length t) (length buf - 1)"
  have k: "k < length buf" "(if length t < length buf then length t else length buf - 1) = k"
    using assms by (auto simp: k_def length_greater_0_conv [symmetric] simp del: length_greater_0_conv)
  then have "drop k buf = buf ! k # drop (k + 1) buf" by (simp add: Cons_nth_drop_Suc)
  then have "(take k t @ drop k buf)[k := 0] = take k t @ 0 # drop (k + 1) buf"
    by (simp add: list_update_append k_def)
  then show ?thesis
    using Some assms k(2) fold_emit_char [OF assms, of t]
    by (auto simp: snprintf_def snprintf_loop_text Let_def fit_def k_def split: if_splits)
qed

lemma length_fit: "buf \<noteq> [] \<Longrightarrow> length (fit t buf) = length buf"
  by (cases buf) (auto simp: fit_def Let_def min_def)

lemma fmt_buf_text: "0 < n \<Longrightarrow> format_text (str fmt) ap = Some t \<Longrightarrow> fmt_buf n fmt ap = fit t (replicate n 0)"
  by (simp add: fmt_buf_def snprintf_text)



text \<open>Reading back what \<open>itoa\<close> printed in base ten gives the number, for every \<open>int\<close> whose
  absolute value is an \<open>int\<close>.\<close>

lemma atoi_itoa:
  assumes "v \<noteq> 0x80000000"
  shows "atoi (itoa v 10) = v"
proof (cases "v <s 0")
  case True
  define t where "t = map ((!) digits36) (nat_digits 10 (unat (- v)))"
  have "itoa v 10 = chr CHR ''-'' # t" using True by (simp add: itoa_text t_def)
  moreover have "digits_loop 0 t = - v" by (simp add: t_def digits_loop_nat_digits)
  ultimately show ?thesis
    using dec_text_start(3) [OF t_def] by (simp add: atoi_def sign_of_def rd_def)
next
  case False
  define t where "t = map ((!) digits36) (nat_digits 10 (unat v))"
  have "itoa v 10 = t" using False by (simp add: itoa_text t_def)
  moreover have "digits_loop 0 t = v" by (simp add: t_def digits_loop_nat_digits)
  ultimately show ?thesis using dec_text_start(1) [OF t_def] dec_text_start(2) [where 'a = 32, OF t_def]
    by (simp add: atoi_def)
qed

text \<open>\<open>strncpy\<close> of a string shorter than the count stores the string, pads the destination with
  zeros up to the count, and stores one more zero in the byte after it.\<close>

lemma strncpy_overruns:
  assumes "strlen s < n"
  shows "strncpy d s n m = (\<lambda>a. if d \<le> a \<and> a < d + strlen s then s ! (a - d)
                               else if d + strlen s \<le> a \<and> a \<le> d + n then 0 else m a)"
  using assms by (auto simp: fun_eq_iff strncpy_apply)

end
