(* ===== verification/Mailbox.thy ===== *)
theory Mailbox
  imports CString
begin

text \<open>
  The mailbox between agents, \<open>agent/mailbox.c\<close>: a ring of 256 messages that drops the oldest one
  when it is full. A message is received by the head of the queue (\<open>mailbox_try_recv\<close>) or by the
  first message addressed to an agent or to all (\<open>mailbox_try_recv_for\<close>), which shifts the later
  messages down. Null arguments, which every operation rejects with \<open>EINVAL\<close>, do not exist in the
  model except for the data pointer of a send.
\<close>

definition MAILBOX_CAP :: u32 where "MAILBOX_CAP = 256"
abbreviation MAILBOX_MSG_MAX :: nat where "MAILBOX_MSG_MAX \<equiv> 512"
abbreviation MAILBOX_TO_ANY :: u64 where "MAILBOX_TO_ANY \<equiv> 0"

record mailbox_msg =
  mm_body :: cmem
  mm_len :: u32
  mm_from_agent :: u64
  mm_to_agent :: u64

record mailbox =
  mb_ring :: "nat \<Rightarrow> mailbox_msg"
  mb_head :: u32
  mb_count :: u32

definition mailbox_init :: "mailbox \<Rightarrow> mailbox" where
  "mailbox_init mb = mb\<lparr>mb_ring := \<lambda>_. \<lparr>mm_body = \<lambda>_. 0, mm_len = 0, mm_from_agent = 0, mm_to_agent = 0\<rparr>,
     mb_head := 0, mb_count := 0\<rparr>"

text \<open>The bytes of \<open>data\<close> stored from the start of an array (\<open>memcpy\<close> from another object).\<close>

primrec store_bytes :: "nat \<Rightarrow> bytes \<Rightarrow> cmem \<Rightarrow> cmem" where
  "store_bytes d [] m = m"
| "store_bytes d (x # xs) m = store_bytes (d + 1) xs (m(d := x))"

definition mailbox_send :: "u64 \<Rightarrow> u64 \<Rightarrow> bytes option \<Rightarrow> mailbox \<Rightarrow> (errno + unit) \<times> mailbox" where
  "mailbox_send sender to data mb =
     (case data of
        None \<Rightarrow> (Inl EINVAL, mb)
      | Some d \<Rightarrow>
          if length d = 0 then (Inl EINVAL, mb)
          else
            let len = (if MAILBOX_MSG_MAX - 1 < length d then MAILBOX_MSG_MAX - 1 else length d);
                slot = unat ((mb_head mb + mb_count mb) mod MAILBOX_CAP);
                mb = (if mb_count mb < MAILBOX_CAP then mb\<lparr>mb_count := mb_count mb + 1\<rparr>
                      else mb\<lparr>mb_head := (mb_head mb + 1) mod MAILBOX_CAP\<rparr>);
                m = mb_ring mb slot;
                m = m\<lparr>mm_from_agent := sender, mm_to_agent := to,
                      mm_body := (store_bytes 0 (take len d) (mm_body m))(len := 0), mm_len := of_nat len\<rparr>
            in (Inr (), mb\<lparr>mb_ring := (mb_ring mb)(slot := m)\<rparr>))"

definition mailbox_broadcast :: "u64 \<Rightarrow> bytes option \<Rightarrow> mailbox \<Rightarrow> (errno + unit) \<times> mailbox" where
  "mailbox_broadcast sender data mb = mailbox_send sender MAILBOX_TO_ANY data mb"

definition mailbox_try_recv :: "mailbox \<Rightarrow> (errno + mailbox_msg) \<times> mailbox" where
  "mailbox_try_recv mb =
     (if mb_count mb = 0 then (Inl ENOENT, mb)
      else (Inr (mb_ring mb (unat (mb_head mb))),
            mb\<lparr>mb_head := (mb_head mb + 1) mod MAILBOX_CAP, mb_count := mb_count mb - 1\<rparr>))"

text \<open>The slot at offset \<open>k\<close> of the queue.\<close>

abbreviation mb_slot :: "mailbox \<Rightarrow> nat \<Rightarrow> nat" where
  "mb_slot mb k \<equiv> unat ((mb_head mb + of_nat k) mod MAILBOX_CAP)"

definition mailbox_try_recv_for :: "u64 \<Rightarrow> mailbox \<Rightarrow> (errno + mailbox_msg) \<times> mailbox" where
  "mailbox_try_recv_for for_agent mb =
     (let n = unat (mb_count mb) in
      if n = 0 then (Inl ENOENT, mb)
      else case scan (\<lambda>i. let to = mm_to_agent (mb_ring mb (mb_slot mb i))
                          in to = MAILBOX_TO_ANY \<or> to = for_agent) 0 n of
        None \<Rightarrow> (Inl ENOENT, mb)
      | Some found_off \<Rightarrow>
          (Inr (mb_ring mb (mb_slot mb found_off)),
           let shifted = fold (\<lambda>k r. r(mb_slot mb k := r (mb_slot mb (k + 1)))) [found_off..<n - 1] (mb_ring mb)
           in mb\<lparr>mb_ring := shifted, mb_count := mb_count mb - 1\<rparr>))"

section \<open>The mailbox as a queue of messages\<close>

type_synonym message = "u64 \<times> u64 \<times> bytes"

definition msg_view :: "mailbox_msg \<Rightarrow> message" where
  "msg_view m = (mm_from_agent m, mm_to_agent m, map (mm_body m) [0..<unat (mm_len m)])"

definition mb_queue :: "mailbox \<Rightarrow> mailbox_msg list" where
  "mb_queue mb = ring_view 256 (mb_ring mb) (unat (mb_head mb)) (unat (mb_count mb))"

definition mb_view :: "mailbox \<Rightarrow> message list" where
  "mb_view mb = map msg_view (mb_queue mb)"

definition mb_inv :: "mailbox \<Rightarrow> bool" where
  "mb_inv mb \<longleftrightarrow> unat (mb_head mb) < 256 \<and> unat (mb_count mb) \<le> 256"

text \<open>A message as it is sent, and as the queue holds it.\<close>

definition sent :: "message \<Rightarrow> message" where
  "sent x = (case x of (sender, to, d) \<Rightarrow> (sender, to, take 511 d))"

text \<open>A non-empty message, by its first byte and the rest.\<close>

definition push_msg :: "u64 \<times> u64 \<times> u8 \<times> bytes \<Rightarrow> mailbox \<Rightarrow> mailbox" where
  "push_msg x mb = (case x of (sender, to, c, d) \<Rightarrow> snd (mailbox_send sender to (Some (c # d)) mb))"

definition pushed :: "u64 \<times> u64 \<times> u8 \<times> bytes \<Rightarrow> message" where
  "pushed x = (case x of (sender, to, c, d) \<Rightarrow> sent (sender, to, c # d))"

lemma length_mb_queue [simp]: "length (mb_queue mb) = unat (mb_count mb)"
  by (simp add: mb_queue_def)

lemma store_bytes_apply:
  "store_bytes d xs m a = (if d \<le> a \<and> a < d + length xs then xs ! (a - d) else m a)"
  by (induction xs arbitrary: d m) (auto simp: nth_Cons')

lemma stored_body:
  "map ((store_bytes 0 d m)(length d := 0)) [0..<length d] = d"
  by (rule nth_equalityI) (auto simp: store_bytes_apply)

lemma send_queue:
  assumes "mb_inv mb" "d \<noteq> []"
  shows "\<exists>m. msg_view m = sent (sender, to, d) \<and> fst (mailbox_send sender to (Some d) mb) = Inr () \<and>
     mb_inv (snd (mailbox_send sender to (Some d) mb)) \<and>
     mb_queue (snd (mailbox_send sender to (Some d) mb)) =
       (if length (mb_queue mb) < 256 then mb_queue mb @ [m] else tl (mb_queue mb) @ [m])"
proof -
  define h c where "h = unat (mb_head mb)" and "c = unat (mb_count mb)"
  have b: "h < 256" "c \<le> 256" using assms by (auto simp: mb_inv_def h_def c_def)
  define k where "k = (if 511 < length d then 511 else length d)"
  define m where "m = (mb_ring mb ((h + c) mod 256))\<lparr>mm_from_agent := sender, mm_to_agent := to,
     mm_body := (store_bytes 0 (take k d) (mm_body (mb_ring mb ((h + c) mod 256))))(k := 0), mm_len := of_nat k\<rparr>"
  have slot: "unat ((mb_head mb + mb_count mb) mod MAILBOX_CAP) = (h + c) mod 256"
    unfolding MAILBOX_CAP_def h_def c_def by (subst unat_ring_slot) (use b in \<open>simp_all add: h_def c_def\<close>)
  have hd: "unat ((mb_head mb + 1) mod MAILBOX_CAP) = (h + 1) mod 256"
    unfolding MAILBOX_CAP_def h_def by (subst unat_ring_slot) (use b in \<open>simp_all add: h_def\<close>)
  have full: "mb_count mb < MAILBOX_CAP \<longleftrightarrow> c < 256" by (simp add: MAILBOX_CAP_def word_less_nat_alt c_def)
  have k: "k \<le> 511" "length (take k d) = k" "unat (of_nat k :: u32) = k" "take k d = take 511 d"
    by (auto simp: k_def unat_of_nat take_bit_nat_eq_self)
  have m: "msg_view m = sent (sender, to, d)"
    using stored_body [of "take k d"] k by (simp add: msg_view_def sent_def m_def)
  have send: "mailbox_send sender to (Some d) mb = (Inr (),
      (if c < 256 then mb\<lparr>mb_count := mb_count mb + 1\<rparr> else mb\<lparr>mb_head := (mb_head mb + 1) mod MAILBOX_CAP\<rparr>)
        \<lparr>mb_ring := (mb_ring mb)((h + c) mod 256 := m)\<rparr>)"
    using assms(2) slot full by (simp add: mailbox_send_def Let_def m_def k_def)
  show ?thesis
  proof (cases "c < 256")
    case True
    then have "unat (mb_count mb + 1) = Suc c" by (simp add: c_def unat_word_ariths)
    then show ?thesis
      using True m b send ring_view_append [OF True, of "mb_ring mb" h m]
      by (intro exI [of _ m]) (simp add: mb_inv_def mb_queue_def h_def [symmetric] c_def [symmetric])
  next
    case False
    then have "c = 256" using b by simp
    then show ?thesis
      using m b send hd ring_view_overwrite [of 256 "mb_ring mb" h m]
      by (intro exI [of _ m]) (simp add: mb_inv_def mb_queue_def h_def [symmetric] c_def [symmetric])
  qed
qed

interpretation mbox: bounded_ring 256 mb_inv mb_view push_msg pushed
proof
  fix mb and x :: "u64 \<times> u64 \<times> u8 \<times> bytes"
  assume inv: "mb_inv mb"
  obtain sender to c d where x: "x = (sender, to, c, d)" by (cases x)
  from send_queue [OF inv, of "c # d" sender to]
  show "mb_inv (push_msg x mb)"
    "mb_view (push_msg x mb) = (if length (mb_view mb) < 256 then mb_view mb @ [pushed x] else tl (mb_view mb) @ [pushed x])"
    by (auto simp: x push_msg_def pushed_def mb_view_def map_tl)
qed (simp_all add: mb_inv_def mb_view_def)

lemma mb_slot_eq:
  assumes "mb_inv mb" "k \<le> 256"
  shows "mb_slot mb k = (unat (mb_head mb) + k) mod 256"
proof -
  have "unat (of_nat k :: u32) = k" using assms(2) by (simp add: unat_of_nat take_bit_nat_eq_self)
  then show ?thesis
    unfolding MAILBOX_CAP_def by (subst unat_ring_slot) (use assms in \<open>simp_all add: mb_inv_def\<close>)
qed

lemma mb_slot_inj: "mb_inv mb \<Longrightarrow> inj_on (mb_slot mb) {..<unat (mb_count mb)}"
proof (rule inj_onI)
  fix i j
  assume inv: "mb_inv mb" and "i \<in> {..<unat (mb_count mb)}" "j \<in> {..<unat (mb_count mb)}" and eq: "mb_slot mb i = mb_slot mb j"
  then have b: "i < 256" "j < 256" by (auto simp: mb_inv_def)
  with eq have "(unat (mb_head mb) + i) mod 256 = (unat (mb_head mb) + j) mod 256"
    using mb_slot_eq [OF inv] by simp
  with b show "i = j" by (rule ring_slot_inj)
qed

lemma queue_nth: "mb_inv mb \<Longrightarrow> i < unat (mb_count mb) \<Longrightarrow> mb_queue mb ! i = mb_ring mb (mb_slot mb i)"
  by (simp add: mb_queue_def nth_ring_view mb_slot_eq mb_inv_def)

lemma unat_pred: "unat c \<noteq> 0 \<Longrightarrow> unat (c - 1 :: u32) = unat c - 1"
  by (simp add: unat_sub word_le_nat_alt)

text \<open>What a receiver is handed and what stays in the queue.\<close>

definition addressed :: "u64 \<Rightarrow> mailbox_msg \<Rightarrow> bool" where
  "addressed agent m \<longleftrightarrow> mm_to_agent m = MAILBOX_TO_ANY \<or> mm_to_agent m = agent"

lemma try_recv_queue:
  assumes "mb_inv mb"
  shows "mb_inv (snd (mailbox_try_recv mb))"
    "case mb_queue mb of
       [] \<Rightarrow> mailbox_try_recv mb = (Inl ENOENT, mb)
     | m # q \<Rightarrow> fst (mailbox_try_recv mb) = Inr m \<and> mb_queue (snd (mailbox_try_recv mb)) = q"
proof -
  have hd: "unat ((mb_head mb + 1) mod MAILBOX_CAP) = (unat (mb_head mb) + 1) mod 256"
    unfolding MAILBOX_CAP_def by (subst unat_ring_slot) (use assms in \<open>simp_all add: mb_inv_def\<close>)
  show "mb_inv (snd (mailbox_try_recv mb))"
    using assms hd by (auto simp: mailbox_try_recv_def mb_inv_def unat_pred unat_eq_0)
  show "case mb_queue mb of
       [] \<Rightarrow> mailbox_try_recv mb = (Inl ENOENT, mb)
     | m # q \<Rightarrow> fst (mailbox_try_recv mb) = Inr m \<and> mb_queue (snd (mailbox_try_recv mb)) = q"
  proof (cases "mb_queue mb")
    case Nil
    then have "unat (mb_count mb) = 0" using length_mb_queue [of mb] by simp
    then show ?thesis using Nil by (simp add: mailbox_try_recv_def unat_eq_0)
  next
    case (Cons m q)
    then have c: "unat (mb_count mb) = Suc (length q)" using length_mb_queue [of mb] by simp
    then have "mb_ring mb (unat (mb_head mb)) = m"
      using Cons nth_ring_view [of 0 "unat (mb_count mb)" 256 "mb_ring mb" "unat (mb_head mb)"] assms
      by (simp add: mb_queue_def mb_inv_def)
    moreover have "ring_view 256 (mb_ring mb) ((unat (mb_head mb) + 1) mod 256) (length q) = q"
      using ring_view_tl [of 256 "mb_ring mb" "unat (mb_head mb)" "length q"] Cons c by (simp add: mb_queue_def)
    moreover have "mb_count mb \<noteq> 0" using c by auto
    ultimately show ?thesis using Cons c hd by (simp add: mailbox_try_recv_def mb_queue_def unat_pred)
  qed
qed

text \<open>The scan of \<open>mailbox_try_recv_for\<close> over the queue, and the shift that closes the gap.\<close>

lemma recv_for_scan:
  assumes "mb_inv mb"
  shows "mailbox_try_recv_for agent mb =
    (case scan (\<lambda>i. addressed agent (mb_queue mb ! i)) 0 (length (mb_queue mb)) of
       None \<Rightarrow> (Inl ENOENT, mb)
     | Some k \<Rightarrow> (Inr (mb_queue mb ! k),
         mb\<lparr>mb_ring := fold (\<lambda>k r. r(mb_slot mb k := r (mb_slot mb (k + 1)))) [k..<unat (mb_count mb) - 1] (mb_ring mb),
            mb_count := mb_count mb - 1\<rparr>))"
proof -
  have sc: "scan (\<lambda>i. mm_to_agent (mb_ring mb (mb_slot mb i)) = MAILBOX_TO_ANY \<or> mm_to_agent (mb_ring mb (mb_slot mb i)) = agent)
      0 (unat (mb_count mb)) =
      scan (\<lambda>i. addressed agent (mb_queue mb ! i)) 0 (unat (mb_count mb))"
    by (rule scan_cong) (auto simp: queue_nth [OF assms] addressed_def)
  show ?thesis
  proof (cases "unat (mb_count mb) = 0")
    case True
    then show ?thesis by (simp add: mailbox_try_recv_for_def Let_def scan.simps)
  next
    case False
    show ?thesis
      using False unfolding mailbox_try_recv_for_def Let_def sc
      by (auto simp: queue_nth [OF assms] dest: scan_SomeD(2) split: option.splits)
  qed
qed

lemma shifted_queue:
  assumes "mb_inv mb" "k < unat (mb_count mb)"
  shows "mb_queue (mb\<lparr>mb_ring := fold (\<lambda>k r. r(mb_slot mb k := r (mb_slot mb (k + 1)))) [k..<unat (mb_count mb) - 1] (mb_ring mb),
            mb_count := mb_count mb - 1\<rparr>) = take k (mb_queue mb) @ drop (Suc k) (mb_queue mb)"
    (is "mb_queue ?mb = _")
proof (rule nth_equalityI)
  have n: "unat (mb_count mb - 1) = unat (mb_count mb) - 1" using assms(2) by (intro unat_pred) simp
  then show "length (mb_queue ?mb) = length (take k (mb_queue mb) @ drop (Suc k) (mb_queue mb))"
    using assms(2) by simp
  fix i assume "i < length (mb_queue ?mb)"
  then have i: "i < unat (mb_count mb) - 1" using n by simp
  have inv: "mb_inv ?mb" using assms n by (auto simp: mb_inv_def)
  have "mb_queue ?mb ! i = mb_ring ?mb (mb_slot mb i)"
    using queue_nth [OF inv, of i] i n by simp
  also have "\<dots> = (if k \<le> i then mb_ring mb (mb_slot mb (i + 1)) else mb_ring mb (mb_slot mb i))"
    using shift_down [OF mb_slot_inj [OF assms(1)], of i k "mb_ring mb"] i by simp
  also have "\<dots> = (take k (mb_queue mb) @ drop (Suc k) (mb_queue mb)) ! i"
    using i assms queue_nth [OF assms(1), of i] queue_nth [OF assms(1), of "i + 1"] by (auto simp: nth_append)
  finally show "mb_queue ?mb ! i = (take k (mb_queue mb) @ drop (Suc k) (mb_queue mb)) ! i" .
qed

lemma try_recv_for_none:
  assumes "mb_inv mb" "\<forall>m \<in> set (mb_queue mb). \<not> addressed agent m"
  shows "mailbox_try_recv_for agent mb = (Inl ENOENT, mb)"
proof -
  have "scan (\<lambda>i. addressed agent (mb_queue mb ! i)) 0 (length (mb_queue mb)) = None"
    unfolding scan_None_iff using assms(2) nth_mem by blast
  then show ?thesis by (simp add: recv_for_scan [OF assms(1)])
qed

lemma try_recv_for_some:
  assumes "mb_inv mb" "\<exists>m \<in> set (mb_queue mb). addressed agent m"
  shows "\<exists>pre m post. mb_queue mb = pre @ m # post \<and> (\<forall>x \<in> set pre. \<not> addressed agent x) \<and> addressed agent m \<and>
     fst (mailbox_try_recv_for agent mb) = Inr m \<and> mb_inv (snd (mailbox_try_recv_for agent mb)) \<and>
     mb_queue (snd (mailbox_try_recv_for agent mb)) = pre @ post"
proof -
  let ?q = "mb_queue mb"
  obtain j where j: "j < length ?q" "addressed agent (?q ! j)" using assms(2) by (metis in_set_conv_nth)
  obtain k where k: "scan (\<lambda>i. addressed agent (?q ! i)) 0 (length ?q) = Some k"
    using scan_exists [of 0 j "length ?q" "\<lambda>i. addressed agent (?q ! i)"] j by auto
  note kD = scan_SomeD [OF k]
  have "?q = take k ?q @ ?q ! k # drop (Suc k) ?q" using kD(2) by (rule id_take_nth_drop)
  moreover have "\<forall>x \<in> set (take k ?q). \<not> addressed agent x"
    using kD(2,4) by (auto simp: in_set_conv_nth)
  moreover have "unat (mb_count mb - 1) = unat (mb_count mb) - 1" using kD(2) by (intro unat_pred) simp
  then have "mb_inv (snd (mailbox_try_recv_for agent mb))"
    using k assms(1) by (auto simp: recv_for_scan [OF assms(1)] mb_inv_def)
  ultimately show ?thesis
    using k kD(2,3) shifted_queue [OF assms(1), of k]
    by (intro exI [of _ "take k ?q"] exI [of _ "?q ! k"] exI [of _ "drop (Suc k) ?q"])
      (simp add: recv_for_scan [OF assms(1)])
qed

text \<open>C18: the mailbox is a queue of at most 256 messages. A send of data appends the message, cut to
  511 bytes, and drops the oldest one when the queue is full; an empty send is \<open>EINVAL\<close>.
  \<open>mailbox_try_recv\<close> takes the oldest message. \<open>mailbox_try_recv_for\<close> takes the oldest message addressed
  to the agent or to all and keeps the others in order; with none, it is \<open>ENOENT\<close> and nothing changes.\<close>

lemma mailbox_queue:
  assumes "mb_inv mb"
  shows "(d \<noteq> [] \<longrightarrow> fst (mailbox_send sender to (Some d) mb) = Inr () \<and>
            mb_view (snd (mailbox_send sender to (Some d) mb)) = lastn 256 (mb_view mb @ [(sender, to, take 511 d)])) \<and>
         mailbox_send sender to (Some []) mb = (Inl EINVAL, mb) \<and> mailbox_send sender to None mb = (Inl EINVAL, mb) \<and>
         (case mb_queue mb of
            [] \<Rightarrow> mailbox_try_recv mb = (Inl ENOENT, mb)
          | m # q \<Rightarrow> fst (mailbox_try_recv mb) = Inr m \<and> mb_queue (snd (mailbox_try_recv mb)) = q) \<and>
         (if \<exists>m \<in> set (mb_queue mb). addressed agent m
          then \<exists>pre m post. mb_queue mb = pre @ m # post \<and> (\<forall>x \<in> set pre. \<not> addressed agent x) \<and> addressed agent m \<and>
                 fst (mailbox_try_recv_for agent mb) = Inr m \<and> mb_queue (snd (mailbox_try_recv_for agent mb)) = pre @ post
          else mailbox_try_recv_for agent mb = (Inl ENOENT, mb))"
proof -
  have "fst (mailbox_send sender to (Some d) mb) = Inr () \<and>
     mb_view (snd (mailbox_send sender to (Some d) mb)) = lastn 256 (mb_view mb @ [(sender, to, take 511 d)])" if "d \<noteq> []"
    using mbox.view_push_lastn [OF assms, of "(sender, to, hd d, tl d)"] send_queue [OF assms that, of sender to] that
    by (cases d) (auto simp: push_msg_def pushed_def sent_def)
  then show ?thesis
    using try_recv_queue(2) [OF assms] try_recv_for_some [OF assms, of agent] try_recv_for_none [OF assms, of agent]
    by (auto simp: mailbox_send_def)
qed

lemma mailbox_queue_witness:
  "let mb = snd (mailbox_send 1 7 (Some [9]) (mailbox_init undefined)) in
     mb_view mb = [(1, 7, [9])] \<and> mailbox_try_recv_for 8 mb = (Inl ENOENT, mb) \<and>
     mb_queue (snd (mailbox_try_recv_for 7 mb)) = []"
proof -
  define mb0 where "mb0 = mailbox_init undefined"
  define mb where "mb = snd (mailbox_send 1 7 (Some [9]) mb0)"
  have inv0: "mb_inv mb0" and view0: "mb_view mb0 = []"
    by (simp_all add: mb0_def mailbox_init_def mb_inv_def mb_view_def mb_queue_def ring_view_def)
  have view: "mb_view mb = [(1, 7, [9])]"
    using mailbox_queue [OF inv0, of "[9]" 1 7 0] by (simp add: mb_def view0 lastn_def)
  then obtain m where q: "mb_queue mb = [m]" and m: "mm_to_agent m = 7"
    by (auto simp: mb_view_def msg_view_def)
  have inv: "mb_inv mb" using send_queue [OF inv0, of "[9]" 1 7] by (auto simp: mb_def)
  have "mailbox_try_recv_for 8 mb = (Inl ENOENT, mb)"
    using mailbox_queue [OF inv, of "[]" 0 0 8] q m by (simp add: addressed_def)
  moreover have "mb_queue (snd (mailbox_try_recv_for 7 mb)) = []"
    using mailbox_queue [OF inv, of "[]" 0 0 7] q m by (auto simp: addressed_def Cons_eq_append_conv)
  ultimately show ?thesis using view by (simp add: Let_def mb_def mb0_def)
qed

end
