(* ===== verification/Eventlog.thy ===== *)
theory Eventlog
  imports CString
begin

text \<open>
  The event log of the agent runtime, \<open>agent/eventlog.c\<close>: a ring of 4096 records with a running
  sequence number, appended to by every subsystem and read by \<open>eventlog_snapshot\<close>. The time of an
  event, \<open>timer_get_ms()\<close>, is an argument of \<open>eventlog_append\<close>. The log is guarded by one spin lock
  per operation, so each operation is one step of the model.
\<close>

datatype eventlog_type = EVLOG_USER_INPUT | EVLOG_LLM_START | EVLOG_LLM_END | EVLOG_TOOL_CALL
  | EVLOG_TOOL_RESULT | EVLOG_CANCEL | EVLOG_ERROR | EVLOG_PLAN_STEP | EVLOG_CORRECT_ROLLBACK
  | EVLOG_VERIFY | EVLOG_MAILBOX | EVLOG_EVOLVER | EVLOG_NONE

definition EVENTLOG_CAPACITY :: u32 where "EVENTLOG_CAPACITY = 4096"

abbreviation EVLOG_PAYLOAD :: nat where "EVLOG_PAYLOAD \<equiv> 192"

text \<open>\<open>EVLOG_NONE\<close> is the zero of an unused record.\<close>

record eventlog_record =
  el_seq :: u64
  el_ts_ms :: u64
  el_type :: eventlog_type
  el_agent_id :: u64
  el_payload :: cmem

record eventlog =
  g_ring :: "nat \<Rightarrow> eventlog_record"
  g_head :: u32
  g_count :: u32
  g_seq :: u64

definition eventlog_init :: "eventlog \<Rightarrow> eventlog" where
  "eventlog_init l = l\<lparr>g_head := 0, g_count := 0, g_seq := 0,
     g_ring := \<lambda>_. \<lparr>el_seq = 0, el_ts_ms = 0, el_type = EVLOG_NONE, el_agent_id = 0, el_payload = \<lambda>_. 0\<rparr>\<rparr>"

definition eventlog_append :: "u64 \<Rightarrow> eventlog_type \<Rightarrow> u64 \<Rightarrow> bytes option \<Rightarrow> eventlog \<Rightarrow> eventlog" where
  "eventlog_append now ty agent_id payload l =
     (let slot = unat ((g_head l + g_count l) mod EVENTLOG_CAPACITY);
          l = (if g_count l < EVENTLOG_CAPACITY then l\<lparr>g_count := g_count l + 1\<rparr>
               else l\<lparr>g_head := (g_head l + 1) mod EVENTLOG_CAPACITY\<rparr>);
          l = l\<lparr>g_seq := g_seq l + 1\<rparr>;
          r = (g_ring l slot)\<lparr>el_seq := g_seq l, el_ts_ms := now, el_type := ty, el_agent_id := agent_id\<rparr>;
          r = (case payload of
                 Some s \<Rightarrow> r\<lparr>el_payload := (strncpy 0 s (EVLOG_PAYLOAD - 1) (el_payload r))(EVLOG_PAYLOAD - 1 := 0)\<rparr>
               | None \<Rightarrow> r\<lparr>el_payload := (el_payload r)(0 := 0)\<rparr>)
      in l\<lparr>g_ring := (g_ring l)(slot := r)\<rparr>)"

definition eventlog_seq :: "eventlog \<Rightarrow> u64" where
  "eventlog_seq l = g_seq l"

text \<open>The records copied to \<open>out\<close>; the returned count is the length of the list.\<close>

definition eventlog_snapshot :: "eventlog \<Rightarrow> u32 \<Rightarrow> eventlog_record list" where
  "eventlog_snapshot l max_records =
     (if max_records = 0 then []
      else let n = (if g_count l < max_records then g_count l else max_records);
               start = (g_head l + g_count l - n) mod EVENTLOG_CAPACITY
           in map (\<lambda>i. g_ring l (unat ((start + of_nat i) mod EVENTLOG_CAPACITY))) [0..<unat n])"

section \<open>The log as a list of events\<close>

text \<open>What a reader sees of a record: its sequence number and its event, the payload as a string.\<close>

type_synonym event = "u64 \<times> eventlog_type \<times> u64 \<times> bytes"

definition rec_event :: "eventlog_record \<Rightarrow> event" where
  "rec_event r = (el_ts_ms r, el_type r, el_agent_id r, cval (map (el_payload r) [0..<EVLOG_PAYLOAD]))"

definition log_view :: "eventlog \<Rightarrow> event list" where
  "log_view l = map rec_event (ring_view 4096 (g_ring l) (unat (g_head l)) (unat (g_count l)))"

definition log_seqs :: "eventlog \<Rightarrow> u64 list" where
  "log_seqs l = map el_seq (ring_view 4096 (g_ring l) (unat (g_head l)) (unat (g_count l)))"

definition log_inv :: "eventlog \<Rightarrow> bool" where
  "log_inv l \<longleftrightarrow> unat (g_head l) < 4096 \<and> unat (g_count l) \<le> 4096"

text \<open>An event as the caller names it, and the event the log holds.\<close>

definition append_event :: "u64 \<times> eventlog_type \<times> u64 \<times> bytes \<Rightarrow> eventlog \<Rightarrow> eventlog" where
  "append_event e l = (case e of (now, ty, agent, s) \<Rightarrow> eventlog_append now ty agent (Some s) l)"

definition logged :: "event \<Rightarrow> event" where
  "logged e = (case e of (now, ty, agent, s) \<Rightarrow> (now, ty, agent, take 191 (cval s)))"

lemma unat_slot:
  fixes h c :: u32
  assumes "unat h < 4096" "unat c \<le> 4096"
  shows "unat ((h + c) mod 4096) = (unat h + unat c) mod 4096"
  using assms by (subst unat_ring_slot) simp_all

text \<open>The records in the order they were appended.\<close>

definition log_records :: "eventlog \<Rightarrow> eventlog_record list" where
  "log_records l = ring_view 4096 (g_ring l) (unat (g_head l)) (unat (g_count l))"

lemma length_log_records [simp]: "length (log_records l) = unat (g_count l)"
  by (simp add: log_records_def)

lemma count_less: "g_count l < EVENTLOG_CAPACITY \<longleftrightarrow> unat (g_count l) < 4096"
  by (simp add: EVENTLOG_CAPACITY_def word_less_nat_alt)

lemma append_record:
  assumes "log_inv l"
  shows "\<exists>r. rec_event r = logged (now, ty, agent, s) \<and> el_seq r = g_seq l + 1 \<and>
     log_inv (eventlog_append now ty agent (Some s) l) \<and> g_seq (eventlog_append now ty agent (Some s) l) = g_seq l + 1 \<and>
     log_records (eventlog_append now ty agent (Some s) l) =
       (if length (log_records l) < 4096 then log_records l @ [r] else tl (log_records l) @ [r])"
proof -
  define h c where "h = unat (g_head l)" and "c = unat (g_count l)"
  have b: "h < 4096" "c \<le> 4096" using assms by (auto simp: log_inv_def h_def c_def)
  have slot: "unat ((g_head l + g_count l) mod EVENTLOG_CAPACITY) = (h + c) mod 4096"
    using unat_slot b by (simp add: EVENTLOG_CAPACITY_def h_def c_def)
  define r where "r = (g_ring l ((h + c) mod 4096))\<lparr>el_seq := g_seq l + 1, el_ts_ms := now, el_type := ty, el_agent_id := agent,
     el_payload := (strncpy 0 s 191 (el_payload (g_ring l ((h + c) mod 4096))))(191 := 0)\<rparr>"
  have "Suc 191 = (192 :: nat)" by simp
  from strncpy_field [of s 191, unfolded this]
  have ev: "rec_event r = logged (now, ty, agent, s)"
    by (simp add: rec_event_def logged_def r_def del: upt_Suc upt_rec_numeral)
  show ?thesis
  proof (cases "c < 4096")
    case True
    then have "unat (g_count l + 1) = Suc c"
      by (simp add: c_def unat_word_ariths)
    moreover have "eventlog_append now ty agent (Some s) l =
        l\<lparr>g_count := g_count l + 1, g_seq := g_seq l + 1, g_ring := (g_ring l)((h + c) mod 4096 := r)\<rparr>"
      using True slot by (simp add: eventlog_append_def Let_def count_less c_def [symmetric] r_def)
    ultimately show ?thesis
      using True ev b ring_view_append [OF True, of "g_ring l" h r]
      by (intro exI [of _ r]) (simp add: log_inv_def log_records_def h_def [symmetric] c_def [symmetric] r_def)
  next
    case False
    then have c: "c = 4096" using b by simp
    have "unat ((g_head l + 1) mod EVENTLOG_CAPACITY) = (h + 1) mod 4096"
      using unat_slot [of "g_head l" 1] b by (simp add: EVENTLOG_CAPACITY_def h_def)
    moreover have "eventlog_append now ty agent (Some s) l =
        l\<lparr>g_head := (g_head l + 1) mod EVENTLOG_CAPACITY, g_seq := g_seq l + 1, g_ring := (g_ring l)((h + c) mod 4096 := r)\<rparr>"
      using False slot by (simp add: eventlog_append_def Let_def count_less c_def [symmetric] r_def)
    ultimately show ?thesis
      using False ev b c ring_view_overwrite [of 4096 "g_ring l" h r]
      by (intro exI [of _ r]) (simp add: log_inv_def log_records_def h_def [symmetric] c_def [symmetric] r_def)
  qed
qed

lemma log_view_records: "log_view l = map rec_event (log_records l)"
  by (simp add: log_view_def log_records_def)

lemma log_seqs_records: "log_seqs l = map el_seq (log_records l)"
  by (simp add: log_seqs_def log_records_def)

interpretation elog: bounded_ring 4096 log_inv log_view append_event logged
proof
  fix l and e :: event
  assume inv: "log_inv l"
  obtain now ty agent s where e: "e = (now, ty, agent, s)" by (cases e)
  from append_record [OF inv, of now ty agent s]
  show "log_inv (append_event e l)"
    "log_view (append_event e l) = (if length (log_view l) < 4096 then log_view l @ [logged e] else tl (log_view l) @ [logged e])"
    by (auto simp: e append_event_def log_view_records map_tl)
qed (simp_all add: log_inv_def log_view_records)

lemma init_view: "log_inv (eventlog_init l)" "log_view (eventlog_init l) = []" "log_records (eventlog_init l) = []"
  by (simp_all add: log_inv_def eventlog_init_def log_view_records log_records_def ring_view_def)

lemma append_seqs:
  "log_seqs (fold append_event es (eventlog_init l)) = lastn 4096 (map of_nat [1..<length es + 1]) \<and>
   g_seq (fold append_event es (eventlog_init l)) = of_nat (length es)"
  (is "?S es \<and> ?G es")
proof (induction es rule: rev_induct)
  case Nil
  then show ?case by (simp add: init_view log_seqs_records lastn_def) (simp add: eventlog_init_def)
next
  case (snoc e es)
  define k where "k = fold append_event es (eventlog_init l)"
  have inv: "log_inv k" unfolding k_def by (rule elog.inv_pushes [OF init_view(1)])
  obtain now ty agent s where e: "e = (now, ty, agent, s)" by (cases e)
  have "log_seqs (append_event e k) = (if length (log_seqs k) < 4096 then log_seqs k @ [g_seq k + 1] else tl (log_seqs k) @ [g_seq k + 1])"
    and g: "g_seq (append_event e k) = g_seq k + 1"
    using append_record [OF inv, of now ty agent s] by (auto simp: e append_event_def log_seqs_records map_tl)
  moreover have "log_seqs k = lastn 4096 (map of_nat [1..<length es + 1])" "g_seq k = of_nat (length es)"
    using snoc by (simp_all add: k_def)
  ultimately show ?case
    using lastn_snoc [of 4096 "map of_nat [1..<length es + 1]" "of_nat (length es) + 1 :: u64"]
    by (simp add: k_def [symmetric] add.commute)
qed

lemma snapshot_slot:
  assumes "log_inv l" "unat n \<le> unat (g_count l)" "i < unat n"
  shows "unat (((g_head l + g_count l - n) mod EVENTLOG_CAPACITY + of_nat i) mod EVENTLOG_CAPACITY) =
     (unat (g_head l) + (unat (g_count l) - unat n + i)) mod 4096"
proof -
  have b: "unat (g_head l) < 4096" "unat (g_count l) \<le> 4096" using assms by (auto simp: log_inv_def)
  have cn: "unat (g_count l - n) = unat (g_count l) - unat n"
    using assms(2) by (simp add: unat_sub word_le_nat_alt)
  have "unat ((g_head l + g_count l - n) mod 4096) = (unat (g_head l) + (unat (g_count l) - unat n)) mod 4096"
    using unat_slot [of "g_head l" "g_count l - n"] b cn by (simp add: add_diff_eq)
  moreover have "unat (of_nat i :: u32) = i" using assms(3) b(2) assms(2) by (simp add: unat_of_nat take_bit_nat_eq_self)
  ultimately show ?thesis
    using unat_slot [of "(g_head l + g_count l - n) mod 4096" "of_nat i"] assms(2,3) b
    by (simp add: EVENTLOG_CAPACITY_def mod_add_left_eq add.assoc)
qed

lemma snapshot_lastn:
  assumes "log_inv l"
  shows "eventlog_snapshot l m = lastn (unat m) (log_records l)"
proof (cases "m = 0")
  case True
  then show ?thesis by (simp add: eventlog_snapshot_def lastn_def)
next
  case False
  define n where "n = (if g_count l < m then g_count l else m)"
  have n: "unat n = min (unat (g_count l)) (unat m)" by (auto simp: n_def word_less_nat_alt)
  have "eventlog_snapshot l m =
      map (\<lambda>i. g_ring l ((unat (g_head l) + (unat (g_count l) - unat n + i)) mod 4096)) [0..<unat n]"
    using False snapshot_slot [OF assms, of n] n
    by (simp add: eventlog_snapshot_def Let_def flip: n_def)
  also have "\<dots> = lastn (unat m) (log_records l)"
    by (rule nth_equalityI) (auto simp: n lastn_def log_records_def nth_ring_view min_def)
  finally show ?thesis .
qed


end
