(* ===== verification/Lz4.thy ===== *)
theory Lz4
  imports AevPrelude
begin

text \<open>
  The block compressor of \<open>lib/lz4.c\<close>, which the conversation history stores its entries with.
  Positions in the source are numbers, the output is the list of bytes written so far, and the
  capacity checks are the code's. A result \<open>None\<close> is the return value -1. The compressor checks an
  estimate of the size of a sequence and not the size itself, so the list it returns may be longer
  than the capacity: those bytes are written past the end of the buffer.
\<close>

unbundle bit_operations_syntax

abbreviation LZ4_MIN_MATCH :: nat where "LZ4_MIN_MATCH \<equiv> 4"
abbreviation LZ4_MAX_INPUT_SIZE :: nat where "LZ4_MAX_INPUT_SIZE \<equiv> 0x7E000000"

definition lz4_hash :: "u32 \<Rightarrow> u32" where
  "lz4_hash val = drop_bit 20 (val * 2654435761)"

definition read32 :: "bytes \<Rightarrow> nat \<Rightarrow> u32" where
  "read32 p i = ucast (p ! i) OR push_bit 8 (ucast (p ! (i + 1))) OR
     push_bit 16 (ucast (p ! (i + 2))) OR push_bit 24 (ucast (p ! (i + 3)))"

definition write16_le :: "u16 \<Rightarrow> bytes" where
  "write16_le v = [ucast (v AND 0xFF), ucast (drop_bit 8 v)]"

definition read16_le :: "bytes \<Rightarrow> u16" where
  "read16_le p = ucast (p ! 0) OR push_bit 8 (ucast (p ! 1))"

function lz4_count :: "bytes \<Rightarrow> nat \<Rightarrow> nat \<Rightarrow> nat \<Rightarrow> nat" where
  "lz4_count src a b limit =
     (if a < limit \<and> src ! a = src ! b then Suc (lz4_count src (a + 1) (b + 1) limit) else 0)"
  by pat_completeness auto
termination
  by (relation "measure (\<lambda>(src, a, b, limit). limit - a)") auto

declare lz4_count.simps [simp del]

section \<open>Compression\<close>

text \<open>The bytes that extend a length of 15 or more.\<close>

function ext_len :: "nat \<Rightarrow> bytes" where
  "ext_len rem = (if 255 \<le> rem then 255 # ext_len (rem - 255) else [of_nat rem])"
  by pat_completeness auto
termination
  by (relation "measure id") auto

declare ext_len.simps [simp del]

definition lit_bytes :: "nat \<Rightarrow> nat \<Rightarrow> bytes \<Rightarrow> bytes" where
  "lit_bytes lit_len ml_hdr lits =
     (let lit_hdr = (if 15 \<le> lit_len then 15 else lit_len)
      in of_nat (push_bit 4 lit_hdr OR ml_hdr) #
         (if 15 \<le> lit_len then ext_len (lit_len - 15) else []) @ lits)"

text \<open>One sequence: token, literal length, literals, offset, match length.\<close>

definition lz4_sequence :: "bytes \<Rightarrow> nat \<Rightarrow> nat \<Rightarrow> bytes" where
  "lz4_sequence lits offset match_len =
     lit_bytes (length lits) (if 15 \<le> match_len - LZ4_MIN_MATCH then 15 else match_len - LZ4_MIN_MATCH) lits @
     write16_le (of_nat offset) @
     (if 15 \<le> match_len - LZ4_MIN_MATCH then ext_len (match_len - LZ4_MIN_MATCH - 15) else [])"

text \<open>The position the hash table gives for \<open>ip\<close>, and the condition under which it is no match.\<close>

abbreviation lz4_ref :: "bytes \<Rightarrow> (nat \<Rightarrow> u16) \<Rightarrow> nat \<Rightarrow> nat" where
  "lz4_ref src htable ip \<equiv> unat (htable (unat (lz4_hash (read32 src ip))))"

definition lz4_enter :: "bytes \<Rightarrow> (nat \<Rightarrow> u16) \<Rightarrow> nat \<Rightarrow> nat \<Rightarrow> u16" where
  "lz4_enter src htable ip = htable(unat (lz4_hash (read32 src ip)) := of_nat ip)"

abbreviation lz4_no_match :: "bytes \<Rightarrow> nat \<Rightarrow> nat \<Rightarrow> bool" where
  "lz4_no_match src ip ref \<equiv> 65535 < ip - ref \<or> read32 src ref \<noteq> read32 src ip"

definition lz4_match_len :: "bytes \<Rightarrow> nat \<Rightarrow> nat \<Rightarrow> nat" where
  "lz4_match_len src ip ref = LZ4_MIN_MATCH + lz4_count src (ip + LZ4_MIN_MATCH) (ref + LZ4_MIN_MATCH) (length src)"

text \<open>The loop of \<open>lz4_compress\<close>: the anchor and the output when it ends.\<close>

function lz4_loop :: "bytes \<Rightarrow> nat \<Rightarrow> (nat \<Rightarrow> u16) \<Rightarrow> nat \<Rightarrow> nat \<Rightarrow> bytes \<Rightarrow> (nat \<times> bytes) option" where
  "lz4_loop src cap htable ip anchor op =
     (if ip + LZ4_MIN_MATCH < length src then
        let ref = lz4_ref src htable ip;
            htable = lz4_enter src htable ip
        in if lz4_no_match src ip ref then lz4_loop src cap htable (ip + 1) anchor op
           else
             let lit_len = ip - anchor;
                 match_len = lz4_match_len src ip ref;
                 worst = 1 + lit_len div 255 + lit_len + 2 + match_len div 255 + 1
             in if cap < length op + worst then None
                else
                  let op = op @ lz4_sequence (take lit_len (drop anchor src)) (ip - ref) match_len;
                      ip = ip + match_len;
                      htable = (if ip + LZ4_MIN_MATCH < length src then lz4_enter src htable ip else htable)
                  in lz4_loop src cap htable ip ip op
      else Some (anchor, op))"
  by pat_completeness auto
termination
  by (relation "measure (\<lambda>(src, cap, htable, ip, anchor, op). length src - ip)")
    (auto simp: lz4_match_len_def)

declare lz4_loop.simps [simp del]

definition lz4_compress :: "bytes \<Rightarrow> nat \<Rightarrow> bytes option" where
  "lz4_compress src dst_capacity =
     (if length src = 0 \<or> LZ4_MAX_INPUT_SIZE < length src then None
      else case lz4_loop src dst_capacity (\<lambda>_. 0) 1 0 [] of
        None \<Rightarrow> None
      | Some (anchor, op) \<Rightarrow>
          let last_lit = length src - anchor;
              worst_last = 1 + last_lit div 255 + last_lit
          in if dst_capacity < length op + worst_last then None
             else Some (op @ lit_bytes last_lit 0 (drop anchor src)))"

section \<open>Decompression\<close>

text \<open>The rest of the input is a list; \<open>op\<close> is the output so far.\<close>

fun read_ext :: "bytes \<Rightarrow> nat \<Rightarrow> nat \<times> bytes" where
  "read_ext [] n = (n, [])"
| "read_ext (b # ip) n = (if b < 255 then (n + unat b, ip) else read_ext ip (n + unat b))"

primrec copy_match :: "nat \<Rightarrow> nat \<Rightarrow> bytes \<Rightarrow> bytes" where
  "copy_match 0 i op = op"
| "copy_match (Suc n) i op = copy_match n (i + 1) (op @ [op ! i])"

lemma read_ext_length: "length (snd (read_ext ip n)) \<le> length ip"
  by (induction ip n rule: read_ext.induct) auto

lemma read_ext_shorter: "(m, ip') = read_ext ip n \<Longrightarrow> length ip' \<le> length ip"
  using read_ext_length [of ip n] by (metis snd_conv)

text \<open>One round of the loop: return, or go on with the rest of the input and the output.\<close>

datatype dec_step = Return "bytes option" | Continue bytes bytes

definition dec_match :: "nat \<Rightarrow> u8 \<Rightarrow> bytes \<Rightarrow> bytes \<Rightarrow> dec_step" where
  "dec_match cap tok ip op =
     (let offset = unat (read16_le ip);
          ip = drop 2 ip
      in if offset = 0 then Return None
         else
           let match_len = unat (tok AND 0x0F) + LZ4_MIN_MATCH;
               (match_len, ip) = (if tok AND 0x0F = 15 then read_ext ip match_len else (match_len, ip))
           in if length op < offset then Return None
              else if cap < length op + match_len then Return None
              else if match_len \<le> offset
                then Continue ip (op @ take match_len (drop (length op - offset) op))
              else Continue ip (copy_match match_len (length op - offset) op))"

definition dec_round :: "nat \<Rightarrow> u8 \<Rightarrow> bytes \<Rightarrow> bytes \<Rightarrow> dec_step" where
  "dec_round cap tok ip op =
     (let lit_len = unat (drop_bit 4 tok);
          (lit_len, ip) = (if lit_len = 15 then read_ext ip lit_len else (lit_len, ip))
      in if length ip < lit_len \<or> cap < length op + lit_len then Return None
         else
           let op = op @ take lit_len ip;
               ip = drop lit_len ip
           in if ip = [] then Return (Some op)
              else if length ip < 2 then Return None
              else dec_match cap tok ip op)"

lemma dec_match_shorter: "dec_match cap tok ip op = Continue ip' op' \<Longrightarrow> length ip' \<le> length ip"
  using read_ext_length [of "drop 2 ip" "unat (tok AND 0x0F) + LZ4_MIN_MATCH"]
  by (auto simp: dec_match_def Let_def split: if_splits prod.splits)

lemma dec_round_shorter: "dec_round cap tok ip op = Continue ip' op' \<Longrightarrow> length ip' \<le> length ip"
  using read_ext_length [of ip 15] dec_match_shorter [of cap tok _ _ ip' op']
  by (auto simp: dec_round_def Let_def split: if_splits prod.splits dest!: dec_match_shorter)

function lz4_dec_loop :: "nat \<Rightarrow> bytes \<Rightarrow> bytes \<Rightarrow> bytes option" where
  "lz4_dec_loop cap [] op = Some op"
| "lz4_dec_loop cap (tok # ip) op =
     (case dec_round cap tok ip op of
        Return r \<Rightarrow> r
      | Continue ip' op' \<Rightarrow> lz4_dec_loop cap ip' op')"
  by pat_completeness auto
termination
  by (relation "measure (\<lambda>(cap, ip, op). length ip)") (auto dest!: dec_round_shorter)

definition lz4_decompress :: "bytes \<Rightarrow> nat \<Rightarrow> bytes option" where
  "lz4_decompress src dst_capacity = lz4_dec_loop dst_capacity src []"


section \<open>Encoded lengths and offsets\<close>

lemma read_ext_ext_len: "read_ext (ext_len n @ rest) k = (k + n, rest)"
proof (induction n arbitrary: k rule: ext_len.induct)
  case (1 n)
  show ?case
  proof (cases "255 \<le> n")
    case True
    then show ?thesis using 1 [of "k + 255"] by (subst ext_len.simps) simp
  next
    case False
    then have "(of_nat n :: u8) < 255" "unat (of_nat n :: u8) = n"
      by (simp_all add: word_less_nat_alt unat_of_nat take_bit_nat_eq_self)
    then show ?thesis using False by (subst ext_len.simps) simp
  qed
qed

lemma length_ext_len: "length (ext_len n) = n div 255 + 1"
proof (induction n rule: ext_len.induct)
  case (1 n)
  then show ?case by (subst ext_len.simps) (auto simp: le_div_geq)
qed

lemma token_hdr:
  assumes "l < 16" "m < (16 :: nat)"
  shows "unat (of_nat (push_bit 4 l OR m) :: u8) = 16 * l + m"
proof -
  have "push_bit 4 l + take_bit 4 m = push_bit 4 l OR take_bit 4 m"
    by (rule disjunctive_add_eq_or) (auto simp: bit_eq_iff bit_simps)
  then have "push_bit 4 l OR m = 16 * l + m"
    using assms by (simp add: push_bit_eq_mult take_bit_nat_eq_self)
  moreover have "unat (of_nat (16 * l + m) :: u8) = 16 * l + m"
    using assms by (simp add: unat_of_nat take_bit_nat_eq_self del: of_nat_add of_nat_mult)
  ultimately show ?thesis by simp
qed

lemma read16_write16: "read16_le (write16_le v @ rest) = v"
proof -
  have m: "v AND 0xFF = take_bit 8 v" by (simp add: take_bit_eq_mask mask_eq_exp_minus_1)
  show ?thesis
    unfolding read16_le_def write16_le_def m
    by (intro bit_word_eqI) (auto simp: bit_simps)
qed

lemma read32_bytes:
  "p ! i = ucast (read32 p i)" "p ! (i + 1) = ucast (drop_bit 8 (read32 p i))"
  "p ! (i + 2) = ucast (drop_bit 16 (read32 p i))" "p ! (i + 3) = ucast (drop_bit 24 (read32 p i))"
  unfolding read32_def
  by (intro bit_word_eqI; auto simp: bit_simps dest: bit_imp_le_length)+

lemma read32_eqD:
  assumes "read32 p i = read32 p j" "k < 4"
  shows "p ! (i + k) = p ! (j + k)"
proof -
  consider "k = 0" | "k = 1" | "k = 2" | "k = 3" using assms(2) by linarith
  then show ?thesis
    by cases (metis read32_bytes assms(1) add_0_right)+
qed

lemma lz4_count_nth: "k < lz4_count src a b limit \<Longrightarrow> src ! (a + k) = src ! (b + k)"
proof (induction src a b limit arbitrary: k rule: lz4_count.induct)
  case (1 src a b limit)
  then show ?case by (subst (asm) (2) lz4_count.simps) (cases k; auto split: if_splits)
qed

lemma lz4_count_bound: "a \<le> limit \<Longrightarrow> a + lz4_count src a b limit \<le> limit"
proof (induction src a b limit rule: lz4_count.induct)
  case (1 src a b limit)
  then show ?case by (subst lz4_count.simps) auto
qed

lemma match_nth:
  assumes "\<not> lz4_no_match src ip ref" "k < lz4_match_len src ip ref"
  shows "src ! (ref + k) = src ! (ip + k)"
proof (cases "k < 4")
  case True
  then show ?thesis using assms(1) read32_eqD [of src ref ip k] by simp
next
  case False
  then obtain j where j: "k = 4 + j" by (metis le_add_diff_inverse not_less)
  then have "src ! (ip + 4 + j) = src ! (ref + 4 + j)"
    using assms(2) by (intro lz4_count_nth) (simp add: lz4_match_len_def)
  then show ?thesis by (simp add: j add.assoc)
qed

lemma match_bound: "ip + 4 \<le> length src \<Longrightarrow> ip + lz4_match_len src ip ref \<le> length src"
  using lz4_count_bound [of "ip + 4" "length src" src "ref + 4"] by (simp add: lz4_match_len_def)

section \<open>Decoding one sequence\<close>

lemma copy_match_take:
  assumes "i < ip" "ip + n \<le> length src" "\<And>k. k < n \<Longrightarrow> src ! (i + k) = src ! (ip + k)"
  shows "copy_match n i (take ip src) = take (ip + n) src"
  using assms
proof (induction n arbitrary: i ip)
  case (Suc n)
  have "take ip src @ [take ip src ! i] = take (Suc ip) src"
    using Suc.prems(1,2) Suc.prems(3) [of 0] by (simp add: take_Suc_conv_app_nth)
  then show ?case
    using Suc.IH [of "i + 1" "ip + 1"] Suc.prems(1,2) Suc.prems(3) [of "Suc k" for k] by simp
qed simp

lemma take_match_take:
  assumes "i + n \<le> ip" "ip + n \<le> length src" "\<And>k. k < n \<Longrightarrow> src ! (i + k) = src ! (ip + k)"
  shows "take ip src @ take n (drop i (take ip src)) = take (ip + n) src"
proof -
  have "take n (drop i (take ip src)) = take n (drop ip src)"
    by (rule nth_equalityI) (use assms in auto)
  then show ?thesis by (simp add: take_add)
qed

lemma token_parts:
  assumes "l < 16" "m < 16"
  shows "unat (drop_bit 4 (of_nat (push_bit 4 l OR m) :: u8)) = l" "unat ((of_nat (push_bit 4 l OR m) :: u8) AND 0x0F) = m"
proof -
  have m: "w AND 0x0F = take_bit 4 w" for w :: u8 by (simp add: take_bit_eq_mask mask_eq_exp_minus_1)
  show "unat (drop_bit 4 (of_nat (push_bit 4 l OR m) :: u8)) = l"
    using token_hdr [OF assms] assms by (simp add: drop_bit_eq_div unat_div)
  show "unat ((of_nat (push_bit 4 l OR m) :: u8) AND 0x0F) = m"
    unfolding m using token_hdr [OF assms] assms by (simp add: take_bit_eq_mod unat_mod)
qed

text \<open>The literal part of a token, decoded.\<close>

lemma dec_literals:
  assumes "m < 16" "length op + length lits \<le> cap"
  shows "\<exists>tok. unat (tok AND 0x0F) = m \<and>
    lz4_dec_loop cap (lit_bytes (length lits) m lits @ rest) op =
      (if rest = [] then Some (op @ lits)
       else if length rest < 2 then None
       else case dec_match cap tok rest (op @ lits) of Return r \<Rightarrow> r | Continue ip' op' \<Rightarrow> lz4_dec_loop cap ip' op')"
proof -
  define l where "l = (if 15 \<le> length lits then 15 else length lits)"
  define tok :: u8 where "tok = of_nat (push_bit 4 l OR m)"
  have tok: "unat (drop_bit 4 tok) = l" "unat (tok AND 0x0F) = m"
    unfolding tok_def using assms(1) by (intro token_parts; simp add: l_def)+
  define ext where "ext = (if 15 \<le> length lits then ext_len (length lits - 15) else [])"
  have "(if l = 15 then read_ext (ext @ lits @ rest) l else (l, ext @ lits @ rest)) = (length lits, lits @ rest)"
    using read_ext_ext_len [of "length lits - 15" "lits @ rest" 15] by (auto simp: l_def ext_def)
  then have "dec_round cap tok (ext @ lits @ rest) op =
     (if rest = [] then Return (Some (op @ lits)) else if length rest < 2 then Return None else dec_match cap tok rest (op @ lits))"
    using assms(2) by (simp add: dec_round_def tok)
  then show ?thesis
    using tok(2) by (intro exI [of _ tok]) (simp add: lit_bytes_def Let_def tok_def [symmetric] l_def [symmetric] ext_def [symmetric])
qed

text \<open>A sequence of the compressor, decoded after the text up to its anchor.\<close>

lemma dec_sequence:
  assumes "anchor \<le> ip" "ip + n \<le> length src" "4 \<le> n" "length src \<le> cap" "off \<le> ip" "off < 65536"
    and eq: "\<And>k. k < n \<Longrightarrow> src ! (ip - off + k) = src ! (ip + k)"
  shows "lz4_dec_loop cap (lz4_sequence (take (ip - anchor) (drop anchor src)) off n @ rest) (take anchor src) =
     (if off = 0 then None else lz4_dec_loop cap rest (take (ip + n) src))"
proof -
  define lits where "lits = take (ip - anchor) (drop anchor src)"
  define m where "m = (if 15 \<le> n - 4 then 15 else n - 4)"
  define ext where "ext = (if 15 \<le> n - 4 then ext_len (n - 4 - 15) else [])"
  have op: "take anchor src @ lits = take ip src" "length (take anchor src) + length lits \<le> cap"
    using assms by (simp_all add: lits_def flip: take_add)
  have m16: "m < 16" by (simp add: m_def)
  define r2 where "r2 = write16_le (of_nat off) @ ext @ rest"
  have r2: "r2 \<noteq> []" "\<not> length r2 < 2" by (simp_all add: r2_def write16_le_def)
  obtain tok where tok: "unat (tok AND 0x0F) = m"
    and dec: "lz4_dec_loop cap (lit_bytes (length lits) m lits @ r2) (take anchor src) =
      (case dec_match cap tok r2 (take ip src) of Return r \<Rightarrow> r | Continue ip' op' \<Rightarrow> lz4_dec_loop cap ip' op')"
    using dec_literals [OF m16 op(2), of r2] unfolding op(1) if_not_P [OF r2(1)] if_not_P [OF r2(2)] by blast
  have off: "unat (read16_le r2) = off"
    using assms(6) by (simp add: r2_def read16_write16 unat_of_nat take_bit_nat_eq_self)
  have "tok AND 0x0F = 15 \<longleftrightarrow> m = 15" using tok by (simp add: word_unat_eq_iff)
  then have ml: "(if tok AND 0x0F = 15 then read_ext (ext @ rest) (m + 4) else (m + 4, ext @ rest)) = (n, rest)"
    using read_ext_ext_len [of "n - 19" rest 19] assms(3) by (auto simp: m_def ext_def)
  have d2: "drop 2 r2 = ext @ rest" by (simp add: r2_def write16_le_def)
  have "dec_match cap tok r2 (take ip src) =
     (if off = 0 then Return None else Continue rest (take (ip + n) src))"
    using assms(2,4,5) take_match_take [of "ip - off" n ip src] copy_match_take [of "ip - off" ip n src] eq
    unfolding dec_match_def off Let_def tok d2 ml by simp
  moreover have "lz4_sequence lits off n @ rest = lit_bytes (length lits) m lits @ r2"
    by (simp add: lz4_sequence_def m_def ext_def r2_def)
  ultimately show ?thesis using dec by (simp add: lits_def)
qed

section \<open>Compression, decoded\<close>

text \<open>The match offsets the compressor writes, in order.\<close>

function lz4_offsets :: "bytes \<Rightarrow> (nat \<Rightarrow> u16) \<Rightarrow> nat \<Rightarrow> nat list" where
  "lz4_offsets src htable ip =
     (if ip + LZ4_MIN_MATCH < length src then
        let ref = lz4_ref src htable ip;
            htable = lz4_enter src htable ip
        in if lz4_no_match src ip ref then lz4_offsets src htable (ip + 1)
           else
             let ip' = ip + lz4_match_len src ip ref;
                 htable = (if ip' + LZ4_MIN_MATCH < length src then lz4_enter src htable ip' else htable)
             in (ip - ref) # lz4_offsets src htable ip'
      else [])"
  by pat_completeness auto
termination
  by (relation "measure (\<lambda>(src, htable, ip). length src - ip)") (auto simp: lz4_match_len_def)

declare lz4_offsets.simps [simp del]

definition lz4_self_match :: "bytes \<Rightarrow> bool" where
  "lz4_self_match src \<longleftrightarrow> 0 \<in> set (lz4_offsets src (\<lambda>_. 0) 1)"

text \<open>The hash table only names positions up to \<open>ip\<close>.\<close>

definition ht_below :: "(nat \<Rightarrow> u16) \<Rightarrow> nat \<Rightarrow> bool" where
  "ht_below htable ip \<longleftrightarrow> (\<forall>h. unat (htable h) \<le> ip)"

lemma ht_below_enter: "ht_below htable ip \<Longrightarrow> ip \<le> ip' \<Longrightarrow> ht_below (lz4_enter src htable ip) ip'"
  by (auto simp: ht_below_def lz4_enter_def unat_of_nat intro: order_trans [OF take_bit_nat_less_eq_self] order_trans)

lemma ht_below_mono: "ht_below htable ip \<Longrightarrow> ip \<le> ip' \<Longrightarrow> ht_below htable ip'"
  by (meson ht_below_def order_trans)

lemma lz4_loop_dec:
  assumes "lz4_loop src cap htable ip anchor op = Some (anchor', op')" "ht_below htable ip" "anchor \<le> ip" "ip \<le> length src"
    "length src \<le> cap'"
  shows "anchor' \<le> length src \<and> (\<exists>enc. op' = op @ enc \<and>
     (\<forall>rest. lz4_dec_loop cap' (enc @ rest) (take anchor src) =
        (if 0 \<in> set (lz4_offsets src htable ip) then None else lz4_dec_loop cap' rest (take anchor' src))))"
  using assms
proof (induction src cap htable ip anchor op rule: lz4_loop.induct)
  case (1 src cap htable ip anchor op)
  define ref where "ref = lz4_ref src htable ip"
  define ht where "ht = lz4_enter src htable ip"
  show ?case
  proof (cases "ip + LZ4_MIN_MATCH < length src")
    case False
    then show ?thesis using 1 by (simp add: lz4_loop.simps [of src] lz4_offsets.simps [of src])
  next
    case in_range: True
    show ?thesis
    proof (cases "lz4_no_match src ip ref")
      case True
      have "lz4_loop src cap ht (ip + 1) anchor op = Some (anchor', op')"
        "lz4_offsets src htable ip = lz4_offsets src ht (ip + 1)"
        using 1(3) in_range True
        by (simp_all add: lz4_loop.simps [of src cap htable] lz4_offsets.simps [of src htable] ref_def ht_def Let_def)
      moreover have "ht_below ht (ip + 1)" unfolding ht_def using 1(4) by (rule ht_below_enter) simp
      ultimately show ?thesis
        using 1(1) [OF in_range ref_def ht_def True] 1(5,7) in_range by simp
    next
      case False
      define n where "n = lz4_match_len src ip ref"
      define ht2 where "ht2 = (if ip + n + LZ4_MIN_MATCH < length src then lz4_enter src ht (ip + n) else ht)"
      define op2 where "op2 = op @ lz4_sequence (take (ip - anchor) (drop anchor src)) (ip - ref) n"
      have room: "\<not> cap < length op + (1 + (ip - anchor) div 255 + (ip - anchor) + 2 + n div 255 + 1)"
        and rec: "lz4_loop src cap ht2 (ip + n) (ip + n) op2 = Some (anchor', op')"
        using 1(3) in_range False
        by (simp_all add: lz4_loop.simps [of src cap htable] ref_def ht_def n_def ht2_def op2_def Let_def split: if_splits)
      have offs: "lz4_offsets src htable ip = (ip - ref) # lz4_offsets src ht2 (ip + n)"
        using in_range False
        by (simp add: lz4_offsets.simps [of src htable] ref_def ht_def n_def ht2_def Let_def)
      have le: "ref \<le> ip" "ip + n \<le> length src" "4 \<le> n"
        using 1(4) match_bound [of ip src ref] in_range
        by (auto simp: ref_def ht_below_def n_def lz4_match_len_def)
      have "ht_below ht (ip + n)" unfolding ht_def using 1(4) by (rule ht_below_enter) simp
      then have below: "ht_below ht2 (ip + n)" unfolding ht2_def using ht_below_enter by simp
      have "anchor' \<le> length src \<and> (\<exists>enc. op' = op2 @ enc \<and>
         (\<forall>rest. lz4_dec_loop cap' (enc @ rest) (take (ip + n) src) =
            (if 0 \<in> set (lz4_offsets src ht2 (ip + n)) then None else lz4_dec_loop cap' rest (take anchor' src))))"
        using 1(2) [OF in_range ref_def ht_def False refl n_def refl room op2_def refl ht2_def] rec below le(2) 1(7) by simp
      moreover have "lz4_dec_loop cap' (lz4_sequence (take (ip - anchor) (drop anchor src)) (ip - ref) n @ rest) (take anchor src) =
         (if ip - ref = 0 then None else lz4_dec_loop cap' rest (take (ip + n) src))" for rest
        using 1(5,7) le False match_nth [OF False] by (intro dec_sequence) (auto simp: n_def)
      ultimately show ?thesis by (auto simp: offs op2_def)
    qed
  qed
qed

section \<open>Sizes\<close>

lemma div_255_add: "a div 255 + b div 255 \<le> (a + b) div (255 :: nat)"
  by linarith

lemma length_ext: "15 \<le> n \<Longrightarrow> length (ext_len (n - 15)) \<le> n div 255 + 1"
  by (simp add: length_ext_len div_le_mono)

lemma length_lit_bytes: "length (lit_bytes (length lits) m lits) \<le> length lits + length lits div 255 + 2"
  using length_ext [of "length lits"] by (auto simp: lit_bytes_def Let_def)

lemma length_sequence:
  assumes "4 \<le> n"
  shows "length (lz4_sequence lits off n) \<le> length lits + length lits div 255 + n + n div 255"
proof (cases "19 \<le> n")
  case True
  have "(n - 19) div 255 \<le> n div 255" by (rule div_le_mono) simp
  then have "length (ext_len (n - 19)) \<le> n div 255 + 1" by (simp add: length_ext_len)
  moreover have "15 \<le> n - 4" using True by simp
  ultimately show ?thesis
    using True length_lit_bytes [of lits 15] by (simp add: lz4_sequence_def write16_le_def)
next
  case False
  then have "\<not> 15 \<le> n - 4" by simp
  then show ?thesis
    using assms length_lit_bytes [of lits "n - 4"] by (simp add: lz4_sequence_def write16_le_def)
qed

text \<open>With the capacity that the history uses, the loop never gives up and its output stays small.\<close>

lemma lz4_loop_fits:
  assumes "length op \<le> anchor + anchor div 255" "anchor \<le> ip" "ip \<le> length src"
    "length src + length src div 255 + 16 \<le> cap"
  shows "\<exists>anchor' op'. lz4_loop src cap htable ip anchor op = Some (anchor', op') \<and> anchor' \<le> length src \<and>
     length op' \<le> anchor' + anchor' div 255"
  using assms
proof (induction src cap htable ip anchor op rule: lz4_loop.induct)
  case (1 src cap htable ip anchor op)
  define ref where "ref = lz4_ref src htable ip"
  define ht where "ht = lz4_enter src htable ip"
  define n where "n = lz4_match_len src ip ref"
  define op2 where "op2 = op @ lz4_sequence (take (ip - anchor) (drop anchor src)) (ip - ref) n"
  define ht2 where "ht2 = (if ip + n + LZ4_MIN_MATCH < length src then lz4_enter src ht (ip + n) else ht)"
  consider "\<not> ip + LZ4_MIN_MATCH < length src" | "ip + LZ4_MIN_MATCH < length src" "lz4_no_match src ip ref"
    | "ip + LZ4_MIN_MATCH < length src" "\<not> lz4_no_match src ip ref" by blast
  then show ?case
  proof cases
    case 1
    then show ?thesis using "1.prems" by (simp add: lz4_loop.simps [of src])
  next
    case 2
    then have "lz4_loop src cap htable ip anchor op = lz4_loop src cap ht (ip + 1) anchor op"
      by (simp add: lz4_loop.simps [of src cap htable] ref_def ht_def Let_def)
    then show ?thesis using "1.IH"(1) [OF 2(1) ref_def ht_def 2(2)] "1.prems" 2(1) by simp
  next
    case 3
    have n: "4 \<le> n" "ip + n \<le> length src"
      using match_bound [of ip src ref] 3(1) by (simp_all add: n_def lz4_match_len_def)
    have le: "(ip - anchor) div 255 + anchor div 255 \<le> ip div 255" "ip div 255 + n div 255 \<le> (ip + n) div 255"
      "(ip + n) div 255 \<le> length src div 255"
      using div_255_add [of "ip - anchor" anchor] div_255_add [of ip n] "1.prems"(2) n(2) by (simp_all add: div_le_mono)
    have room: "\<not> cap < length op + (1 + (ip - anchor) div 255 + (ip - anchor) + 2 + n div 255 + 1)"
      using le n "1.prems" by linarith
    have "length (take (ip - anchor) (drop anchor src)) = ip - anchor" using "1.prems"(2,3) by simp
    then have "length op2 \<le> length op + (ip - anchor) + (ip - anchor) div 255 + n + n div 255"
      using length_sequence [OF n(1), of "take (ip - anchor) (drop anchor src)" "ip - ref"] by (simp add: op2_def)
    then have "length op2 \<le> (ip + n) + (ip + n) div 255" using le "1.prems"(1,2) by linarith
    moreover have "lz4_loop src cap htable ip anchor op = lz4_loop src cap ht2 (ip + n) (ip + n) op2"
      using 3 room by (simp add: lz4_loop.simps [of src cap htable] ref_def ht_def n_def ht2_def op2_def Let_def)
    ultimately show ?thesis
      using "1.IH"(2) [OF 3(1) ref_def ht_def 3(2) refl n_def refl room op2_def refl ht2_def] n(2) "1.prems"(4) by simp
  qed
qed

lemma length_copy_match: "length (copy_match n i op) = length op + n"
  by (induction n arbitrary: i op) auto

lemma dec_match_length: "dec_match cap tok ip op = Continue ip' op' \<Longrightarrow> length op' \<le> cap"
  by (auto simp: dec_match_def Let_def length_copy_match split: if_splits prod.splits)

lemma dec_round_length:
  "dec_round cap tok ip op = Continue ip' op' \<Longrightarrow> length op' \<le> cap"
  "dec_round cap tok ip op = Return (Some op') \<Longrightarrow> length op' \<le> cap"
  "dec_match cap tok ip op = Return r \<Longrightarrow> r = None"
  by (auto simp: dec_round_def dec_match_def Let_def length_copy_match split: if_splits prod.splits)

lemma lz4_dec_loop_length: "lz4_dec_loop cap ip op = Some out \<Longrightarrow> length op \<le> cap \<Longrightarrow> length out \<le> cap"
proof (induction cap ip op rule: lz4_dec_loop.induct)
  case (2 cap tok ip op)
  then show ?case by (auto split: dec_step.splits dest: dec_round_length)
qed simp

section \<open>The properties\<close>

lemma token_byte: "l < 16 \<Longrightarrow> m < 16 \<Longrightarrow> (of_nat (push_bit 4 l OR m) :: u8) = of_nat (16 * l + m)"
  using token_hdr [of l m] by (simp add: word_unat_eq_iff unat_of_nat take_bit_nat_eq_self del: of_nat_add of_nat_mult)

lemmas lz4_eval = lz4_compress_def lz4_loop.simps lz4_enter_def lz4_match_len_def
  lz4_hash_def read32_def lz4_count.simps lz4_sequence_def lit_bytes_def ext_len.simps write16_le_def
  Let_def token_byte token_byte [of _ 0, simplified]
  lz4_decompress_def dec_round_def dec_match_def read16_le_def

lemma lz4_decompress_compress:
  assumes "lz4_compress src cap = Some out" "length src \<le> cap'"
  shows "lz4_decompress out cap' = (if lz4_self_match src then None else Some src)"
proof -
  obtain anchor op where loop: "lz4_loop src cap (\<lambda>_. 0) 1 0 [] = Some (anchor, op)"
    and out: "out = op @ lit_bytes (length src - anchor) 0 (drop anchor src)" and "src \<noteq> []"
    using assms(1) by (auto simp: lz4_compress_def Let_def split: if_splits option.splits)
  then have "1 \<le> length src" by (simp add: Suc_le_eq)
  then have "anchor \<le> length src" and dec: "\<And>rest. lz4_dec_loop cap' (op @ rest) [] =
      (if lz4_self_match src then None else lz4_dec_loop cap' rest (take anchor src))"
    using lz4_loop_dec [OF loop _ _ _ assms(2)] by (auto simp: ht_below_def lz4_self_match_def)
  moreover have "lz4_dec_loop cap' (lit_bytes (length (drop anchor src)) 0 (drop anchor src)) (take anchor src) = Some src"
    using dec_literals [of 0 "take anchor src" "drop anchor src" cap' "[]"] assms(2) by auto
  ultimately show ?thesis by (simp add: lz4_decompress_def out)
qed

lemma lz4_compress_within:
  assumes "src \<noteq> []" "length src \<le> LZ4_MAX_INPUT_SIZE" "length src + length src div 255 + 16 \<le> cap"
  shows "\<exists>out. lz4_compress src cap = Some out \<and> 0 < length out \<and> length out \<le> cap"
proof -
  have "1 \<le> length src" using assms(1) by (simp add: Suc_le_eq)
  then obtain a op where loop: "lz4_loop src cap (\<lambda>_. 0) 1 0 [] = Some (a, op)" and a: "a \<le> length src" "length op \<le> a + a div 255"
    using lz4_loop_fits [of "[]" 0 1 src cap "\<lambda>_. 0"] assms(3) by auto
  have le: "a div 255 + (length src - a) div 255 \<le> length src div 255"
    using div_255_add [of a "length src - a"] a(1) by simp
  then have "\<not> cap < length op + (1 + (length src - a) div 255 + (length src - a))" using a assms(3) by linarith
  moreover have "length (lit_bytes (length src - a) 0 (drop a src)) \<le> length src - a + (length src - a) div 255 + 2"
    using length_lit_bytes [of "drop a src" 0] by simp
  then have "length (op @ lit_bytes (length src - a) 0 (drop a src)) \<le> cap"
    unfolding length_append using le a assms(3) by linarith
  moreover have "0 < length (lit_bytes (length src - a) 0 (drop a src))" by (simp add: lit_bytes_def Let_def)
  ultimately show ?thesis using loop assms(1,2) by (auto simp: lz4_compress_def Let_def)
qed

lemma lz4_decompress_length: "lz4_decompress inp cap = Some out \<Longrightarrow> length out \<le> cap"
  using lz4_dec_loop_length by (simp add: lz4_decompress_def)

lemma lz4_compress_overruns:
  "map_option length (lz4_compress [1, 2, 3, 4, 5, 6, 7, 8, 9, 10, 11, 12, 13, 14, 15] 16) = Some 17"
  by (simp add: lz4_eval)

text \<open>C19: decompressing what the compressor produced, into a buffer that holds the source, gives the source
  back, unless the compressor wrote a match of offset 0: then the decompressor rejects the block. Whatever its
  input, the decompressor returns at most as many bytes as the buffer holds. A source the compressor accepts
  always compresses into a buffer of the size the history allocates, and stays inside it; in general the estimate
  that the compressor checks against the capacity is one byte short of what it writes: fifteen bytes without a
  match pass the check for a buffer of sixteen and take seventeen.\<close>

lemma lz4_roundtrip:
  assumes "lz4_compress src cap = Some out" "length src \<le> cap'"
  shows "lz4_decompress out cap' = (if lz4_self_match src then None else Some src)
    \<and> (\<forall>inp n res. lz4_decompress inp n = Some res \<longrightarrow> length res \<le> n)
    \<and> (\<forall>inp n. inp \<noteq> [] \<and> length inp \<le> LZ4_MAX_INPUT_SIZE \<and> length inp + length inp div 255 + 16 \<le> n
         \<longrightarrow> (\<exists>res. lz4_compress inp n = Some res \<and> 0 < length res \<and> length res \<le> n))
    \<and> map_option length (lz4_compress [1, 2, 3, 4, 5, 6, 7, 8, 9, 10, 11, 12, 13, 14, 15] 16) = Some 17"
  using lz4_decompress_compress [OF assms] lz4_decompress_length lz4_compress_within lz4_compress_overruns by blast

lemma lz4_roundtrip_witness:
  "lz4_decompress (the (lz4_compress [1, 1, 1, 1, 1, 1, 1, 2] 64)) 8 = Some [1, 1, 1, 1, 1, 1, 1, 2] \<and>
   lz4_decompress (the (lz4_compress [1, 1, 1, 1, 1, 2, 3, 4, 5, 6] 64)) 10 = None \<and>
   (\<exists>out. lz4_compress [7, 8, 9] 19 = Some out \<and> 0 < length out \<and> length out \<le> 19)"
proof -
  have c: "lz4_compress [1, 1, 1, 1, 1, 1, 1, 2] 64 = Some [0x12, 1, 1, 0, 0x10, 2]"
    "lz4_compress [1, 1, 1, 1, 1, 2, 3, 4, 5, 6] 64 = Some [0x10, 1, 1, 0, 0x01, 0, 0, 0]"
    by (simp_all add: lz4_eval)
  have "\<not> lz4_self_match [1, 1, 1, 1, 1, 1, 1, 2]" "lz4_self_match [1, 1, 1, 1, 1, 2, 3, 4, 5, 6]"
    by (simp_all add: lz4_eval lz4_self_match_def lz4_offsets.simps)
  moreover have "\<exists>out. lz4_compress [7, 8, 9] 19 = Some out \<and> 0 < length out \<and> length out \<le> 19"
    by (rule lz4_roundtrip [OF c(1) order_refl, THEN conjunct2, THEN conjunct2, THEN conjunct1, rule_format]) simp
  ultimately show ?thesis using lz4_roundtrip [OF c(1), of 8] lz4_roundtrip [OF c(2), of 10] c by simp
qed

end
