(* ===== verification/HistBptree.thy ===== *)
theory HistBptree
  imports AevPrelude
begin

text \<open>
  The index of the conversation history, \<open>agent/hist_bptree.c\<close>: a B+ tree of order four from sequence
  numbers to ring slots.

  Nodes live in a store indexed by pointers, 0 being \<open>NULL\<close>; \<open>bp_avail\<close> is the number of nodes that
  \<open>kcalloc\<close> can still provide. The code inserts into a full node before it splits it, and so uses one
  element more than \<open>keys\<close>, \<open>vals\<close> and \<open>children\<close> have. The model follows the layout of
  \<open>struct hist_bp_node\<close> on a 64-bit machine: \<open>keys[3]\<close> is the storage of \<open>vals[0]\<close> and \<open>vals[1]\<close>,
  \<open>vals[3]\<close> is the padding before \<open>parent\<close>, and \<open>children[4]\<close> is \<open>next\<close>. Loops over pointers are
  partial functions: a cycle gives \<open>None\<close>.
\<close>

unbundle bit_operations_syntax

definition BP_MAX :: nat where "BP_MAX = 3"

record bp_node =
  bn_leaf :: bool
  bn_nkeys :: u8
  bn_keys :: "nat \<Rightarrow> u64"
  bn_vals :: "nat \<Rightarrow> u32"
  bn_parent :: nat
  bn_children :: "nat \<Rightarrow> nat"

record bptree =
  bp_root :: nat
  bp_height :: u32
  bp_nodes :: "nat \<Rightarrow> bp_node"
  bp_next :: nat
  bp_avail :: nat

definition nk :: "bp_node \<Rightarrow> nat" where "nk n = unat (bn_nkeys n)"

definition rd_key :: "bp_node \<Rightarrow> nat \<Rightarrow> u64" where
  "rd_key n i = (if i < BP_MAX then bn_keys n i else ucast (bn_vals n 0) OR push_bit 32 (ucast (bn_vals n 1)))"

definition wr_key :: "nat \<Rightarrow> u64 \<Rightarrow> bp_node \<Rightarrow> bp_node" where
  "wr_key i k n = (if i < BP_MAX then n\<lparr>bn_keys := (bn_keys n)(i := k)\<rparr>
                   else n\<lparr>bn_vals := (bn_vals n)(0 := ucast k, 1 := ucast (drop_bit 32 k))\<rparr>)"

definition wr_val :: "nat \<Rightarrow> u32 \<Rightarrow> bp_node \<Rightarrow> bp_node" where
  "wr_val i v n = n\<lparr>bn_vals := (bn_vals n)(i := v)\<rparr>"

definition wr_child :: "nat \<Rightarrow> nat \<Rightarrow> bp_node \<Rightarrow> bp_node" where
  "wr_child i c n = n\<lparr>bn_children := (bn_children n)(i := c)\<rparr>"

abbreviation bn_next :: "bp_node \<Rightarrow> nat" where "bn_next n \<equiv> bn_children n 4"

definition upd :: "nat \<Rightarrow> (bp_node \<Rightarrow> bp_node) \<Rightarrow> bptree \<Rightarrow> bptree" where
  "upd p f t = t\<lparr>bp_nodes := (bp_nodes t)(p := f (bp_nodes t p))\<rparr>"

section \<open>Nodes\<close>

definition node_alloc :: "bool \<Rightarrow> bptree \<Rightarrow> nat \<times> bptree" where
  "node_alloc leaf t =
     (if bp_avail t = 0 then (0, t)
      else (bp_next t, t\<lparr>bp_nodes := (bp_nodes t)(bp_next t :=
              \<lparr>bn_leaf = leaf, bn_nkeys = 0, bn_keys = \<lambda>_. 0, bn_vals = \<lambda>_. 0, bn_parent = 0, bn_children = \<lambda>_. 0\<rparr>),
            bp_next := bp_next t + 1, bp_avail := bp_avail t - 1\<rparr>))"

text \<open>The number of nodes that \<open>node_free_recursive\<close> returns to the allocator.\<close>

partial_function (option) node_count_list :: "(nat \<Rightarrow> bp_node) \<Rightarrow> nat list \<Rightarrow> nat \<Rightarrow> nat option" where
  "node_count_list nodes ps k =
     (case ps of
        [] \<Rightarrow> Some k
      | p # ps \<Rightarrow>
          if p = 0 then node_count_list nodes ps k
          else node_count_list nodes
                 ((if bn_leaf (nodes p) then [] else map (bn_children (nodes p)) [0..<nk (nodes p) + 1]) @ ps) (k + 1))"

definition node_free_recursive :: "nat \<Rightarrow> bptree \<Rightarrow> bptree option" where
  "node_free_recursive p t =
     (case node_count_list (bp_nodes t) [p] 0 of
        None \<Rightarrow> None
      | Some k \<Rightarrow> Some (t\<lparr>bp_avail := bp_avail t + k\<rparr>))"

definition hist_bpt_init :: "bptree \<Rightarrow> bptree" where
  "hist_bpt_init t = t\<lparr>bp_root := 0, bp_height := 0\<rparr>"

definition hist_bpt_destroy :: "bptree \<Rightarrow> bptree option" where
  "hist_bpt_destroy t =
     (case node_free_recursive (bp_root t) t of
        None \<Rightarrow> None
      | Some t \<Rightarrow> Some (t\<lparr>bp_root := 0, bp_height := 0\<rparr>))"

definition hist_bpt_clear :: "bptree \<Rightarrow> bptree option" where
  "hist_bpt_clear t = hist_bpt_destroy t"

section \<open>Search\<close>

text \<open>The child that a key belongs to: the first separator above it.\<close>

abbreviation child_pos :: "bp_node \<Rightarrow> u64 \<Rightarrow> nat" where
  "child_pos n key \<equiv> (case scan (\<lambda>i. \<not> bn_keys n i \<le> key) 0 (nk n) of None \<Rightarrow> nk n | Some i \<Rightarrow> i)"

partial_function (option) leaf_search :: "(nat \<Rightarrow> bp_node) \<Rightarrow> nat \<Rightarrow> u64 \<Rightarrow> nat option" where
  "leaf_search nodes x key =
     (if x = 0 \<or> bn_leaf (nodes x) then Some x
      else leaf_search nodes (bn_children (nodes x) (child_pos (nodes x) key)) key)"

section \<open>Insertion\<close>

text \<open>The shift loop of \<open>leaf_insert_sorted\<close>; \<open>i\<close> is the index after the element compared.\<close>

fun leaf_shift :: "nat \<Rightarrow> u64 \<Rightarrow> bp_node \<Rightarrow> nat \<times> bp_node" where
  "leaf_shift 0 key n = (0, n)"
| "leaf_shift (Suc i) key n =
     (if key < rd_key n i then leaf_shift i key (wr_val (Suc i) (bn_vals n i) (wr_key (Suc i) (rd_key n i) n))
      else (Suc i, n))"

definition leaf_insert_sorted :: "u64 \<Rightarrow> u32 \<Rightarrow> bp_node \<Rightarrow> bp_node" where
  "leaf_insert_sorted key val leaf =
     (case leaf_shift (nk leaf) key leaf of
        (i, n) \<Rightarrow> let n = wr_val i val (wr_key i key n) in n\<lparr>bn_nkeys := bn_nkeys n + 1\<rparr>)"

definition internal_insert :: "nat \<Rightarrow> nat \<Rightarrow> u64 \<Rightarrow> nat \<Rightarrow> bptree \<Rightarrow> bptree" where
  "internal_insert p pos key new_child t =
     (let shift = (\<lambda>i n. wr_child (i + 1) (bn_children n i) (wr_key i (rd_key n (i - 1)) n));
          t = upd p (\<lambda>n. fold shift (rev [pos + 1..<nk n + 1]) n) t;
          t = upd p (\<lambda>n. wr_child (pos + 1) new_child (wr_key pos key n)) t;
          t = upd new_child (\<lambda>c. c\<lparr>bn_parent := p\<rparr>) t
      in upd p (\<lambda>n. n\<lparr>bn_nkeys := bn_nkeys n + 1\<rparr>) t)"

definition split_leaf_node :: "nat \<Rightarrow> bptree \<Rightarrow> nat \<times> bptree" where
  "split_leaf_node leaf t =
     (case node_alloc True t of
        (R, t) \<Rightarrow>
          if R = 0 then (0, t)
          else
            let total = nk (bp_nodes t leaf);
                mid = total div 2;
                l = bp_nodes t leaf;
                t = upd R (\<lambda>r. r\<lparr>bn_nkeys := of_nat (total - mid)\<rparr>) t;
                t = upd R (\<lambda>r. fold (\<lambda>i r. wr_val i (bn_vals l (mid + i)) (wr_key i (rd_key l (mid + i)) r)) [0..<total - mid] r) t;
                t = upd leaf (\<lambda>l. l\<lparr>bn_nkeys := of_nat mid\<rparr>) t;
                t = upd R (wr_child 4 (bn_next l)) t;
                t = upd leaf (wr_child 4 R) t;
                t = upd R (\<lambda>r. r\<lparr>bn_parent := bn_parent l\<rparr>) t
            in (R, t))"

text \<open>The separator that moves up, and the new right node (0 when there is no memory).\<close>

definition split_internal_node :: "nat \<Rightarrow> bptree \<Rightarrow> u64 \<times> nat \<times> bptree" where
  "split_internal_node p t =
     (let n = bp_nodes t p;
          nkeys = nk n;
          midk = nkeys div 2;
          promo = rd_key n midk
      in case node_alloc False t of
        (R, t) \<Rightarrow>
          if R = 0 then (promo, 0, t)
          else
            let move = (\<lambda>i t. upd (bn_children n i) (\<lambda>c. c\<lparr>bn_parent := R\<rparr>)
                               (upd R (\<lambda>r. wr_child (i - (midk + 1)) (bn_children n i) (wr_key (i - (midk + 1)) (rd_key n i) r)) t));
                t = upd R (\<lambda>r. r\<lparr>bn_nkeys := of_nat (nkeys - midk - 1)\<rparr>) t;
                t = fold move [midk + 1..<nkeys] t;
                t = upd R (wr_child (nkeys - (midk + 1)) (bn_children n nkeys)) t;
                t = upd (bn_children n nkeys) (\<lambda>c. c\<lparr>bn_parent := R\<rparr>) t;
                t = upd R (\<lambda>r. r\<lparr>bn_parent := bn_parent n\<rparr>) t;
                t = upd p (\<lambda>n. n\<lparr>bn_nkeys := of_nat midk\<rparr>) t
            in (promo, R, t))"

text \<open>The loop towards the root: insert the separator, and go on while the parent was full.\<close>

definition new_root :: "nat \<Rightarrow> u64 \<Rightarrow> nat \<Rightarrow> bptree \<Rightarrow> (errno + unit) \<times> bptree" where
  "new_root left sep newR t =
     (case node_alloc False t of
        (nr, t) \<Rightarrow>
          if nr = 0 then (Inl ENOMEM, t)
          else
            let t = upd nr (\<lambda>n. (wr_child 1 newR (wr_child 0 left (wr_key 0 sep n)))\<lparr>bn_nkeys := 1\<rparr>) t;
                t = upd left (\<lambda>n. n\<lparr>bn_parent := nr\<rparr>) t;
                t = upd newR (\<lambda>n. n\<lparr>bn_parent := nr\<rparr>) t
            in (Inr (), t\<lparr>bp_root := nr, bp_height := bp_height t + 1\<rparr>))"

partial_function (option) ascend :: "nat \<Rightarrow> nat \<Rightarrow> u64 \<Rightarrow> nat \<Rightarrow> bptree \<Rightarrow> ((errno + unit) \<times> bptree) option" where
  "ascend parent left sep newR t =
     (if parent = 0 then Some (new_root left sep newR t)
      else
        let pos = child_pos (bp_nodes t parent) sep;
            full = (BP_MAX \<le> nk (bp_nodes t parent));
            t = internal_insert parent pos sep newR t
        in if \<not> full then Some (Inr (), t)
           else case split_internal_node parent t of
             (promo, newIR, t) \<Rightarrow>
               if newIR = 0 then Some (Inl ENOMEM, t)
               else ascend (bn_parent (bp_nodes t parent)) parent promo newIR t)"

definition hist_bpt_insert :: "u64 \<Rightarrow> u32 \<Rightarrow> bptree \<Rightarrow> ((errno + unit) \<times> bptree) option" where
  "hist_bpt_insert seq ring_idx t =
     (if bp_root t = 0 then
        case node_alloc True t of
          (L, t) \<Rightarrow>
            if L = 0 then Some (Inl ENOMEM, t)
            else Some (Inr (), (upd L (\<lambda>n. (wr_val 0 ring_idx (wr_key 0 seq n))\<lparr>bn_nkeys := 1\<rparr>) t)\<lparr>bp_root := L, bp_height := 1\<rparr>)
      else case leaf_search (bp_nodes t) (bp_root t) seq of
        None \<Rightarrow> None
      | Some leaf \<Rightarrow>
          if leaf = 0 then Some (Inl EINVAL, t)
          else case scan (\<lambda>i. rd_key (bp_nodes t leaf) i = seq) 0 (nk (bp_nodes t leaf)) of
            Some i \<Rightarrow> Some (Inr (), upd leaf (wr_val i ring_idx) t)
          | None \<Rightarrow>
              if nk (bp_nodes t leaf) < BP_MAX then Some (Inr (), upd leaf (leaf_insert_sorted seq ring_idx) t)
              else case split_leaf_node leaf (upd leaf (leaf_insert_sorted seq ring_idx) t) of
                (newR, t) \<Rightarrow>
                  if newR = 0 then Some (Inl ENOMEM, t)
                  else ascend (bn_parent (bp_nodes t leaf)) leaf (rd_key (bp_nodes t newR) 0) newR t)"

section \<open>Range query\<close>

partial_function (option) leftmost_leaf :: "(nat \<Rightarrow> bp_node) \<Rightarrow> nat \<Rightarrow> nat option" where
  "leftmost_leaf nodes r = (if r = 0 \<or> bn_leaf (nodes r) then Some r else leftmost_leaf nodes (bn_children (nodes r) 0))"

abbreviation leaf_hits :: "bp_node \<Rightarrow> u64 \<Rightarrow> u32 list" where
  "leaf_hits n min_seq \<equiv> map (bn_vals n) (filter (\<lambda>i. min_seq \<le> rd_key n i) [0..<nk n])"

partial_function (option) walk_leaves :: "(nat \<Rightarrow> bp_node) \<Rightarrow> nat \<Rightarrow> u64 \<Rightarrow> nat \<Rightarrow> u32 list \<Rightarrow> u32 list option" where
  "walk_leaves nodes L min_seq max_out out =
     (if L = 0 then Some out
      else walk_leaves nodes (bn_next (nodes L)) min_seq max_out (take max_out (out @ leaf_hits (nodes L) min_seq)))"

definition hist_bpt_range_from_seq :: "bptree \<Rightarrow> u64 \<Rightarrow> nat \<Rightarrow> u32 list option" where
  "hist_bpt_range_from_seq t min_seq max_out =
     (if bp_root t = 0 \<or> max_out = 0 then Some []
      else case leftmost_leaf (bp_nodes t) (bp_root t) of
        None \<Rightarrow> None
      | Some L \<Rightarrow> walk_leaves (bp_nodes t) L min_seq max_out [])"

section \<open>One leaf, and the first split\<close>

text \<open>A leaf with the keys and values of a list.\<close>

definition leaf_of :: "(u64 \<times> u32) list \<Rightarrow> bp_node" where
  "leaf_of kvs = \<lparr>bn_leaf = True, bn_nkeys = of_nat (length kvs),
     bn_keys = (\<lambda>i. if i < length kvs then fst (kvs ! i) else 0),
     bn_vals = (\<lambda>i. if i < length kvs then snd (kvs ! i) else 0), bn_parent = 0, bn_children = \<lambda>_. 0\<rparr>"

definition one_leaf :: "bptree \<Rightarrow> nat \<Rightarrow> (u64 \<times> u32) list \<Rightarrow> bool" where
  "one_leaf t p kvs \<longleftrightarrow> p \<noteq> 0 \<and> bp_root t = p \<and> bp_nodes t p = leaf_of kvs \<and> p < bp_next t"

lemma leaf_of_sel [simp]:
  "bn_leaf (leaf_of kvs)" "bn_nkeys (leaf_of kvs) = of_nat (length kvs)" "bn_parent (leaf_of kvs) = 0" "bn_children (leaf_of kvs) j = 0"
  "bn_keys (leaf_of kvs) i = (if i < length kvs then fst (kvs ! i) else 0)"
  "bn_vals (leaf_of kvs) i = (if i < length kvs then snd (kvs ! i) else 0)"
  by (simp_all add: leaf_of_def)

lemma nk_leaf_of: "length kvs < 256 \<Longrightarrow> nk (leaf_of kvs) = length kvs"
  by (simp add: nk_def leaf_of_def unat_of_nat take_bit_nat_eq_self)

lemma search_root_leaf: "one_leaf t p kvs \<Longrightarrow> leaf_search (bp_nodes t) (bp_root t) key = Some p"
  by (subst leaf_search.simps) (simp add: one_leaf_def leaf_of_def)

lemma insert_first:
  assumes "bp_root t = 0" "bp_next t = p" "p \<noteq> 0" "bp_avail t = Suc n"
  shows "\<exists>t'. hist_bpt_insert k v t = Some (Inr (), t') \<and> one_leaf t' p [(k, v)] \<and> bp_next t' = p + 1 \<and> bp_avail t' = n"
  using assms
  by (auto simp: hist_bpt_insert_def node_alloc_def upd_def wr_key_def wr_val_def BP_MAX_def one_leaf_def leaf_of_def fun_eq_iff)

lemma leaf_insert_last:
  assumes "length kvs < 3" "\<forall>(k', v') \<in> set kvs. k' < k"
  shows "leaf_insert_sorted k v (leaf_of kvs) = leaf_of (kvs @ [(k, v)])"
proof -
  have "leaf_shift (length kvs) k (leaf_of kvs) = (length kvs, leaf_of kvs)"
  proof (cases "length kvs")
    case (Suc i)
    then have "kvs ! i \<in> set kvs" by simp
    then have "\<not> k < fst (kvs ! i)" using assms(2) by (auto simp: case_prod_beta)
    then show ?thesis using Suc assms(1) by (simp add: rd_key_def BP_MAX_def)
  qed simp
  then have "leaf_insert_sorted k v (leaf_of kvs) =
      (wr_val (length kvs) v (wr_key (length kvs) k (leaf_of kvs)))\<lparr>bn_nkeys := of_nat (length kvs) + 1\<rparr>"
    using assms(1) by (simp add: leaf_insert_sorted_def nk_leaf_of wr_val_def wr_key_def BP_MAX_def)
  then show ?thesis
    using assms(1) by (auto simp: wr_val_def wr_key_def BP_MAX_def fun_eq_iff nth_append intro!: bp_node.equality)
qed

lemma insert_room:
  assumes "one_leaf t p kvs" "length kvs < 3" "\<forall>(k', v') \<in> set kvs. k' < k"
  shows "\<exists>t'. hist_bpt_insert k v t = Some (Inr (), t') \<and> one_leaf t' p (kvs @ [(k, v)]) \<and> bp_next t' = bp_next t \<and> bp_avail t' = bp_avail t"
proof -
  have "scan (\<lambda>i. rd_key (leaf_of kvs) i = k) 0 (length kvs) = None"
    unfolding scan_None_iff using assms(2,3) nth_mem by (fastforce simp: rd_key_def BP_MAX_def leaf_of_def case_prod_beta)
  then show ?thesis
    using assms search_root_leaf [OF assms(1)] leaf_insert_last [OF assms(2,3), of v]
    by (auto simp: hist_bpt_insert_def one_leaf_def nk_leaf_of BP_MAX_def upd_def)
qed

lemma range_one_leaf:
  assumes "one_leaf t p kvs" "length kvs \<le> 3" "length kvs \<le> n" "0 < n"
  shows "hist_bpt_range_from_seq t 0 n = Some (map snd kvs)"
proof -
  have "leaf_hits (leaf_of kvs) 0 = map snd kvs"
    using assms(2) by (intro nth_equalityI) (auto simp: nk_leaf_of)
  then show ?thesis
    using assms
    by (simp add: hist_bpt_range_from_seq_def one_leaf_def leftmost_leaf.simps walk_leaves.simps [of _ p] walk_leaves.simps [of _ 0])
qed

text \<open>The full leaf after the fourth key is put in: the key lies over the first two values.\<close>

lemma leaf_insert_fourth:
  assumes "k2 < k"
  shows "leaf_insert_sorted k v (leaf_of [(k0, v0), (k1, v1), (k2, v2)]) =
     (leaf_of [(k0, v0), (k1, v1), (k2, v2)])\<lparr>bn_nkeys := 4,
        bn_vals := ((\<lambda>i. if i < 3 then snd ([(k0, v0), (k1, v1), (k2, v2)] ! i) else 0)(0 := ucast k, 1 := ucast (drop_bit 32 k)))(3 := v)\<rparr>"
    (is "leaf_insert_sorted k v ?l = _")
proof -
  have "leaf_shift 3 k ?l = (3, ?l)"
    using assms by (simp add: numeral_3_eq_3 rd_key_def BP_MAX_def)
  moreover have "nk ?l = 3" by (simp add: nk_leaf_of)
  ultimately have "leaf_insert_sorted k v ?l = (wr_val 3 v (wr_key 3 k ?l))\<lparr>bn_nkeys := 4\<rparr>"
    by (simp add: leaf_insert_sorted_def wr_val_def wr_key_def BP_MAX_def del: leaf_shift.simps)
  then show ?thesis
    by (auto simp: wr_key_def wr_val_def BP_MAX_def fun_eq_iff intro!: bp_node.equality)
qed

lemma upt_two: "[0..<2] = [0, 1]"
  by (simp add: numeral_2_eq_2)

lemma key_halves: "ucast (ucast k :: u32) OR push_bit 32 (ucast (ucast (drop_bit 32 k) :: u32)) = (k :: u64)"
  by (rule bit_word_eqI) (auto simp: bit_simps)

lemma insert_fourth:
  assumes "one_leaf t p [(k0, v0), (k1, v1), (k2, v2)]" "k0 < k1" "k1 < k2" "k2 < k" "bp_avail t = Suc (Suc n)"
  shows "\<exists>t'. hist_bpt_insert k v t = Some (Inr (), t') \<and>
     hist_bpt_range_from_seq t' 0 4 = Some [ucast k, ucast (drop_bit 32 k), v2, v]"
proof -
  define l4 where "l4 = leaf_insert_sorted k v (leaf_of [(k0, v0), (k1, v1), (k2, v2)])"
  note l4 = leaf_insert_fourth [OF assms(4), of v k0 v0 k1 v1 v2, folded l4_def]
  have "scan (\<lambda>i. rd_key (leaf_of [(k0, v0), (k1, v1), (k2, v2)]) i = k) 0 (Suc (Suc (Suc 0))) = None"
    using assms(2-4) by (auto simp: scan_None_iff rd_key_def BP_MAX_def nth_Cons')
  then have ins: "hist_bpt_insert k v t =
     (case split_leaf_node p (upd p (leaf_insert_sorted k v) t) of
        (newR, t) \<Rightarrow> if newR = 0 then Some (Inl ENOMEM, t)
                    else ascend (bn_parent (bp_nodes t p)) p (rd_key (bp_nodes t newR) 0) newR t)"
    using assms(1) search_root_leaf [OF assms(1)] by (simp add: hist_bpt_insert_def one_leaf_def nk_leaf_of BP_MAX_def)
  define q where "q = bp_next t"
  have pq: "p \<noteq> 0" "q \<noteq> 0" "p \<noteq> q" "p \<noteq> q + 1" "bp_nodes t p = leaf_of [(k0, v0), (k1, v1), (k2, v2)]"
    using assms(1) by (auto simp: one_leaf_def q_def)
  define t2 where "t2 = snd (split_leaf_node p (upd p (leaf_insert_sorted k v) t))"
  have split: "split_leaf_node p (upd p (leaf_insert_sorted k v) t) = (q, t2)"
    using assms(5) pq by (simp add: t2_def split_leaf_node_def node_alloc_def upd_def q_def Let_def)
  have nk4: "nk l4 = 4" by (simp add: l4 nk_def)
  have t2: "bp_next t2 = q + 1" "bp_avail t2 = Suc n" "bp_nodes t2 p = l4\<lparr>bn_nkeys := 2, bn_children := (\<lambda>_. 0)(4 := q)\<rparr>"
    "bp_nodes t2 q = \<lparr>bn_leaf = True, bn_nkeys = 2, bn_keys = (\<lambda>_. 0)(0 := k2, 1 := k), bn_vals = (\<lambda>_. 0)(0 := v2, 1 := v),
       bn_parent = 0, bn_children = (\<lambda>_. 0)(4 := 0)\<rparr>"
    using assms(5) pq key_halves [of k]
    by (simp_all add: t2_def split_leaf_node_def node_alloc_def upd_def q_def [symmetric] Let_def l4_def [symmetric] nk4)
      (simp_all add: l4 wr_key_def wr_val_def wr_child_def BP_MAX_def rd_key_def eval_nat_numeral fun_eq_iff)
  define t3 where "t3 = snd (new_root p k2 q t2)"
  have "hist_bpt_insert k v t = Some (Inr (), t3)"
    unfolding ins split using pq t2 by (simp add: ascend.simps t3_def new_root_def node_alloc_def rd_key_def BP_MAX_def l4 Let_def)
  moreover have t3: "bp_root t3 = q + 1" "\<not> bn_leaf (bp_nodes t3 (q + 1))" "bn_children (bp_nodes t3 (q + 1)) 0 = p"
    "bp_nodes t3 p = (bp_nodes t2 p)\<lparr>bn_parent := q + 1\<rparr>" "bp_nodes t3 q = (bp_nodes t2 q)\<lparr>bn_parent := q + 1\<rparr>"
    using pq t2(1,2) by (simp_all add: t3_def new_root_def node_alloc_def upd_def wr_key_def wr_child_def Let_def)
  have "bn_leaf l4" by (simp add: l4)
  then have "leftmost_leaf (bp_nodes t3) (q + 1) = Some p"
    using t3 pq t2(3) by (simp add: leftmost_leaf.simps [of _ "Suc q"] leftmost_leaf.simps [of _ p])
  moreover have "leaf_hits (bp_nodes t3 p) 0 = [ucast k, ucast (drop_bit 32 k)]" "leaf_hits (bp_nodes t3 q) 0 = [v2, v]"
    unfolding t3(4,5) t2(3,4) by (simp_all add: nk_def l4 upt_two)
  ultimately show ?thesis
    using pq t3 t2(3,4)
    by (simp add: hist_bpt_range_from_seq_def walk_leaves.simps [of _ p] walk_leaves.simps [of _ q] walk_leaves.simps [of _ 0])
qed

section \<open>Well-formed trees\<close>

text \<open>
  The shape that insertion relies on: every node of the tree has a level, 0 for leaves, its children are
  nodes one level below and its parent is the null pointer or a node one level above. \<open>S\<close> is the set of
  nodes and \<open>lev\<close> gives the levels.
\<close>

definition node_ok :: "nat set \<Rightarrow> (nat \<Rightarrow> nat) \<Rightarrow> nat \<Rightarrow> bp_node \<Rightarrow> bool" where
  "node_ok S lev p n \<longleftrightarrow> (bn_leaf n \<longleftrightarrow> lev p = 0) \<and> nk n \<le> 3 \<and>
     (bn_leaf n \<or> (\<forall>i \<le> nk n. bn_children n i \<in> S \<and> lev (bn_children n i) + 1 = lev p)) \<and>
     (bn_parent n = 0 \<or> bn_parent n \<in> S \<and> lev (bn_parent n) = lev p + 1)"

definition bp_ok :: "bptree \<Rightarrow> nat set \<Rightarrow> (nat \<Rightarrow> nat) \<Rightarrow> bool" where
  "bp_ok t S lev \<longleftrightarrow> 0 < bp_next t \<and> S \<subseteq> {1..<bp_next t} \<and> (bp_root t = 0 \<or> bp_root t \<in> S) \<and>
     (\<forall>p \<in> S. node_ok S lev p (bp_nodes t p))"

lemma upd_sel [simp]:
  "bp_root (upd p f t) = bp_root t" "bp_next (upd p f t) = bp_next t" "bp_avail (upd p f t) = bp_avail t"
  "bp_height (upd p f t) = bp_height t" "bp_nodes (upd p f t) q = (if q = p then f (bp_nodes t p) else bp_nodes t q)"
  by (simp_all add: upd_def)

lemma wr_sel [simp]:
  "bn_leaf (wr_key i k n) = bn_leaf n" "bn_nkeys (wr_key i k n) = bn_nkeys n" "bn_parent (wr_key i k n) = bn_parent n"
  "bn_children (wr_key i k n) = bn_children n"
  "bn_leaf (wr_val i v n) = bn_leaf n" "bn_nkeys (wr_val i v n) = bn_nkeys n" "bn_parent (wr_val i v n) = bn_parent n"
  "bn_children (wr_val i v n) = bn_children n"
  "bn_leaf (wr_child i c n) = bn_leaf n" "bn_nkeys (wr_child i c n) = bn_nkeys n" "bn_parent (wr_child i c n) = bn_parent n"
  "bn_children (wr_child i c n) = (bn_children n)(i := c)"
  by (simp_all add: wr_key_def wr_val_def wr_child_def)

lemma bp_ok_upd: "bp_ok t S lev \<Longrightarrow> (p \<in> S \<Longrightarrow> node_ok S lev p (f (bp_nodes t p))) \<Longrightarrow> bp_ok (upd p f t) S lev"
  by (auto simp: bp_ok_def)

lemma bp_okD: "bp_ok t S lev \<Longrightarrow> p \<in> S \<Longrightarrow> node_ok S lev p (bp_nodes t p)"
  by (simp add: bp_ok_def)

lemma bp_ok_nonzero: "bp_ok t S lev \<Longrightarrow> p \<in> S \<Longrightarrow> p \<noteq> 0 \<and> p \<noteq> bp_next t"
  by (auto simp: bp_ok_def)

lemma child_pos_le: "child_pos n key \<le> nk n"
  by (auto simp: scan_Some_iff split: option.splits)

lemma leaf_search_ok:
  assumes "bp_ok t S lev" "x \<in> S"
  shows "\<exists>l \<in> S. leaf_search (bp_nodes t) x key = Some l \<and> bn_leaf (bp_nodes t l)"
  using assms(2)
proof (induction "lev x" arbitrary: x)
  case 0
  then have "bn_leaf (bp_nodes t x)" using bp_okD [OF assms(1), of x] by (simp add: node_ok_def)
  then show ?case using 0 by (subst leaf_search.simps) auto
next
  case (Suc l)
  then have ok: "node_ok S lev x (bp_nodes t x)" using bp_okD [OF assms(1)] by simp
  then have c: "bn_children (bp_nodes t x) (child_pos (bp_nodes t x) key) \<in> S"
    "lev (bn_children (bp_nodes t x) (child_pos (bp_nodes t x) key)) = l" "\<not> bn_leaf (bp_nodes t x)"
    using Suc.hyps(2) child_pos_le [of "bp_nodes t x" key] by (auto simp: node_ok_def)
  then show ?case
    using Suc.hyps(1) [OF c(2) [symmetric] c(1)] bp_ok_nonzero [OF assms(1) Suc.prems] by (subst leaf_search.simps) simp
qed

lemma leaf_shift_sel:
  "bn_leaf (snd (leaf_shift i k n)) = bn_leaf n" "bn_nkeys (snd (leaf_shift i k n)) = bn_nkeys n"
  "bn_parent (snd (leaf_shift i k n)) = bn_parent n" "bn_children (snd (leaf_shift i k n)) = bn_children n"
  by (induction i k n rule: leaf_shift.induct) auto

lemma leaf_insert_sel [simp]:
  "bn_leaf (leaf_insert_sorted k v n) = bn_leaf n" "bn_nkeys (leaf_insert_sorted k v n) = bn_nkeys n + 1"
  "bn_parent (leaf_insert_sorted k v n) = bn_parent n" "bn_children (leaf_insert_sorted k v n) = bn_children n"
  using leaf_shift_sel [of "nk n" k n] by (simp_all add: leaf_insert_sorted_def Let_def split_beta)

lemma nk_plus1: "nk n \<le> 3 \<Longrightarrow> bn_nkeys m = bn_nkeys n + 1 \<Longrightarrow> nk m = nk n + 1"
  by (simp add: nk_def unat_word_ariths)

lemma node_alloc_fresh:
  assumes "S \<subseteq> {1..<bp_next t}" "node_alloc b t = (R, t')" "R \<noteq> 0"
  shows "R = bp_next t" "R \<notin> S" "bp_next t' = R + 1" "bp_root t' = bp_root t"
    "Suc (bp_avail t') = bp_avail t" "bp_nodes t' = (bp_nodes t)(R := \<lparr>bn_leaf = b, bn_nkeys = 0, bn_keys = \<lambda>_. 0, bn_vals = \<lambda>_. 0, bn_parent = 0, bn_children = \<lambda>_. 0\<rparr>)"
  using assms by (auto simp: node_alloc_def split: if_splits)

lemma node_ok_mono:
  assumes "node_ok S lev p n" "p \<in> S" "\<And>q. q \<in> S \<Longrightarrow> lev' q = lev q" "S \<subseteq> S'"
  shows "node_ok S' lev' p n"
  using assms by (auto simp: node_ok_def)

lemma node_ok_reparent:
  "node_ok S lev p n \<Longrightarrow> q \<in> S \<Longrightarrow> lev q = lev p + 1 \<Longrightarrow> node_ok S lev p (n\<lparr>bn_parent := q\<rparr>)"
  unfolding node_ok_def nk_def by (simp; blast)

lemma node_ok_fields:
  "bn_leaf m = bn_leaf n \<Longrightarrow> bn_nkeys m = bn_nkeys n \<Longrightarrow> bn_children m = bn_children n \<Longrightarrow> bn_parent m = bn_parent n \<Longrightarrow>
   node_ok S lev p m = node_ok S lev p n"
  by (simp add: node_ok_def nk_def)

lemma fold_wr_sel:
  "bn_leaf (fold (\<lambda>i r. wr_val i (f i) (wr_key i (g i) r)) xs n) = bn_leaf n"
  "bn_nkeys (fold (\<lambda>i r. wr_val i (f i) (wr_key i (g i) r)) xs n) = bn_nkeys n"
  "bn_parent (fold (\<lambda>i r. wr_val i (f i) (wr_key i (g i) r)) xs n) = bn_parent n"
  "bn_children (fold (\<lambda>i r. wr_val i (f i) (wr_key i (g i) r)) xs n) = bn_children n"
  by (induction xs arbitrary: n) auto

lemma split_leaf_ok:
  assumes ok: "bp_ok t S lev" "leaf \<in> S" "bn_leaf (bp_nodes t leaf)" "nk (bp_nodes t leaf) = 3"
    and sp: "split_leaf_node leaf (upd leaf (leaf_insert_sorted k v) t) = (R, t')" "R \<noteq> 0"
  shows "R \<notin> S" "bp_ok t' (insert R S) (lev(R := 0))" "bn_parent (bp_nodes t' leaf) = bn_parent (bp_nodes t leaf)" "lev leaf = 0"
    "Suc (bp_avail t') = bp_avail t"
proof -
  let ?t1 = "upd leaf (leaf_insert_sorted k v) t"
  obtain t0 where al: "node_alloc True ?t1 = (R, t0)"
    using sp by (auto simp: split_leaf_node_def Let_def split: prod.splits if_splits)
  have S: "S \<subseteq> {1..<bp_next ?t1}" using ok(1) by (simp add: bp_ok_def)
  note fresh = node_alloc_fresh [OF S al sp(2)]
  have nk4: "nk (leaf_insert_sorted k v (bp_nodes t leaf)) = 4"
    using ok(4) nk_plus1 [of "bp_nodes t leaf" "leaf_insert_sorted k v (bp_nodes t leaf)"] by simp
  have ne: "leaf \<noteq> R" using ok(2) fresh(2) by auto
  have same: "q \<noteq> leaf \<Longrightarrow> q \<noteq> R \<Longrightarrow> bp_nodes t' q = bp_nodes t q" for q
    using sp al fresh(6) ne by (auto simp: split_leaf_node_def Let_def)
  have l: "bn_leaf (bp_nodes t' leaf)" "bn_nkeys (bp_nodes t' leaf) = 2" "bn_parent (bp_nodes t' leaf) = bn_parent (bp_nodes t leaf)"
    and r: "bn_leaf (bp_nodes t' R)" "bn_nkeys (bp_nodes t' R) = 2" "bn_parent (bp_nodes t' R) = bn_parent (bp_nodes t leaf)"
    and g: "bp_root t' = bp_root t" "bp_next t' = R + 1" "Suc (bp_avail t') = bp_avail t"
    using sp al fresh ne nk4 ok(3) by (auto simp: split_leaf_node_def Let_def fold_wr_sel)
  have nok: "node_ok S lev leaf (bp_nodes t leaf)" by (rule bp_okD [OF ok(1,2)])
  show lev: "lev leaf = 0" using nok ok(3) by (simp add: node_ok_def)
  have par: "bn_parent (bp_nodes t leaf) = 0 \<or> bn_parent (bp_nodes t leaf) \<in> S \<and> lev (bn_parent (bp_nodes t leaf)) = 1"
    using nok lev by (simp add: node_ok_def)
  have "node_ok (insert R S) (lev(R := 0)) q (bp_nodes t' q)" if "q \<in> insert R S" for q
  proof (cases "q = leaf \<or> q = R")
    case True
    then show ?thesis using l r par lev fresh(2) ne by (auto simp: node_ok_def nk_def)
  next
    case False
    then have q: "q \<in> S" "bp_nodes t' q = bp_nodes t q" using that same by auto
    show ?thesis
      unfolding q(2) by (rule node_ok_mono [OF bp_okD [OF ok(1) q(1)] q(1)]) (use fresh(2) in auto)
  qed
  then show "bp_ok t' (insert R S) (lev(R := 0))"
    using ok(1) g fresh(1) by (auto simp: bp_ok_def)
  show "Suc (bp_avail t') = bp_avail t" by (rule g(3))
  show "R \<notin> S" by (rule fresh(2))
  show "bn_parent (bp_nodes t' leaf) = bn_parent (bp_nodes t leaf)" by (rule l(3))
qed

text \<open>The shift of an insertion into an inner node.\<close>

lemma shift_children:
  fixes n :: bp_node
  defines "f \<equiv> (\<lambda>i n. wr_child (i + 1) (bn_children n i) (wr_key i (rd_key n (i - 1)) n))"
  shows "bn_children (fold f (rev [a..<b]) n) j = (if a < j \<and> j \<le> b then bn_children n (j - 1) else bn_children n j)"
    "bn_leaf (fold f (rev [a..<b]) n) = bn_leaf n" "bn_nkeys (fold f (rev [a..<b]) n) = bn_nkeys n"
    "bn_parent (fold f (rev [a..<b]) n) = bn_parent n"
proof (induction b arbitrary: n j)
  case (Suc b)
  {
    case 1
    then show ?case using Suc(1) [where n = "f b n"] by (cases "a \<le> b") (auto simp: f_def le_Suc_eq)
  next
    case 2
    then show ?case using Suc(2) [where n = "f b n"] by (cases "a \<le> b") (auto simp: f_def)
  next
    case 3
    then show ?case using Suc(3) [where n = "f b n"] by (cases "a \<le> b") (auto simp: f_def)
  next
    case 4
    then show ?case using Suc(4) [where n = "f b n"] by (cases "a \<le> b") (auto simp: f_def)
  }
qed auto

lemma internal_insert_sel:
  fixes t :: bptree and key :: u64
  assumes "p \<noteq> c" "pos \<le> nk (bp_nodes t p)"
  defines "t' \<equiv> internal_insert p pos key c t"
  shows "q \<noteq> p \<Longrightarrow> q \<noteq> c \<Longrightarrow> bp_nodes t' q = bp_nodes t q"
    "bp_nodes t' c = (bp_nodes t c)\<lparr>bn_parent := p\<rparr>"
    "bn_leaf (bp_nodes t' p) = bn_leaf (bp_nodes t p)" "bn_nkeys (bp_nodes t' p) = bn_nkeys (bp_nodes t p) + 1"
    "bn_parent (bp_nodes t' p) = bn_parent (bp_nodes t p)"
    "bp_root t' = bp_root t" "bp_next t' = bp_next t" "bp_avail t' = bp_avail t"
    "bn_children (bp_nodes t' p) j =
       (if j = pos + 1 then c
        else if pos + 1 < j \<and> j \<le> nk (bp_nodes t p) + 1 then bn_children (bp_nodes t p) (j - 1) else bn_children (bp_nodes t p) j)"
  using assms(1) unfolding t'_def internal_insert_def Let_def by (simp_all add: shift_children [simplified] del: upt_Suc)

text \<open>A full inner node after an insertion: five children, one key too many.\<close>

definition node_over :: "nat set \<Rightarrow> (nat \<Rightarrow> nat) \<Rightarrow> nat \<Rightarrow> bp_node \<Rightarrow> bool" where
  "node_over S lev p n \<longleftrightarrow> \<not> bn_leaf n \<and> nk n = 4 \<and> (\<forall>i \<le> 4. bn_children n i \<in> S \<and> lev (bn_children n i) + 1 = lev p) \<and>
     (bn_parent n = 0 \<or> bn_parent n \<in> S \<and> lev (bn_parent n) = lev p + 1)"

definition bp_over :: "bptree \<Rightarrow> nat set \<Rightarrow> (nat \<Rightarrow> nat) \<Rightarrow> nat \<Rightarrow> bool" where
  "bp_over t S lev p \<longleftrightarrow> 0 < bp_next t \<and> S \<subseteq> {1..<bp_next t} \<and> (bp_root t = 0 \<or> bp_root t \<in> S) \<and> p \<in> S \<and>
     node_over S lev p (bp_nodes t p) \<and> (\<forall>q \<in> S. q \<noteq> p \<longrightarrow> node_ok S lev q (bp_nodes t q))"

lemma internal_insert_ok:
  assumes ok: "bp_ok t S lev" "p \<in> S" "c \<in> S" "lev p = lev c + 1" "pos \<le> nk (bp_nodes t p)"
  shows "nk (bp_nodes t p) < 3 \<Longrightarrow> bp_ok (internal_insert p pos key c t) S lev"
    "nk (bp_nodes t p) = 3 \<Longrightarrow> bp_over (internal_insert p pos key c t) S lev p"
proof -
  let ?t = "internal_insert p pos key c t"
  have ne: "p \<noteq> c" using ok(4) by auto
  note sel = internal_insert_sel [OF ne ok(5), where key = key]
  have p: "node_ok S lev p (bp_nodes t p)" and c: "node_ok S lev c (bp_nodes t c)" using bp_okD [OF ok(1)] ok by auto
  have others: "node_ok S lev q (bp_nodes ?t q)" if "q \<in> S" "q \<noteq> p" for q
    using that sel(1) [of q] sel(2) c ok bp_okD [OF ok(1) that(1)] by (cases "q = c") (auto simp: node_ok_def nk_def)
  have nk: "nk (bp_nodes ?t p) = nk (bp_nodes t p) + 1" using p sel(4) by (intro nk_plus1) (simp_all add: node_ok_def)
  have "\<not> bn_leaf (bp_nodes t p)" using p ok(4) by (simp add: node_ok_def)
  then have ch: "\<forall>i \<le> nk (bp_nodes t p) + 1. bn_children (bp_nodes ?t p) i \<in> S \<and> lev (bn_children (bp_nodes ?t p) i) + 1 = lev p"
    using p ok(3,4,5) unfolding sel(9) node_ok_def by auto
  have base: "0 < bp_next ?t" "S \<subseteq> {1..<bp_next ?t}" "bp_root ?t = 0 \<or> bp_root ?t \<in> S"
    using ok(1) by (simp_all add: bp_ok_def sel(6,7))
  show "bp_ok ?t S lev" if "nk (bp_nodes t p) < 3"
  proof -
    have "node_ok S lev p (bp_nodes ?t p)" using ch nk p that sel(3,5) by (simp add: node_ok_def)
    then have "\<forall>q \<in> S. node_ok S lev q (bp_nodes ?t q)" using others by blast
    with base show ?thesis unfolding bp_ok_def by blast
  qed
  show "bp_over ?t S lev p" if "nk (bp_nodes t p) = 3"
  proof -
    have "node_over S lev p (bp_nodes ?t p)"
      using ch nk p that sel(3,5) ok(4) by (simp add: node_ok_def node_over_def)
    with base others ok(2) show ?thesis unfolding bp_over_def by blast
  qed
qed

lemma split_internal_ok:
  assumes ov: "bp_over t S lev p" and sp: "split_internal_node p t = (promo, R, t')" "R \<noteq> 0"
  shows "R \<notin> S" "bp_ok t' (insert R S) (lev(R := lev p))" "bn_parent (bp_nodes t' p) = bn_parent (bp_nodes t p)"
    "Suc (bp_avail t') = bp_avail t"
proof -
  let ?n = "bp_nodes t p"
  have S: "S \<subseteq> {1..<bp_next t}" and pS: "p \<in> S" and n: "node_over S lev p ?n" using ov by (auto simp: bp_over_def)
  then have nk4: "nk ?n = 4" and ch: "bn_children ?n 3 \<in> S" "bn_children ?n 4 \<in> S"
    "lev (bn_children ?n 3) + 1 = lev p" "lev (bn_children ?n 4) + 1 = lev p"
    by (simp_all add: node_over_def)
  obtain t0 where al: "node_alloc False t = (R, t0)"
    using sp by (auto simp: split_internal_node_def Let_def split: prod.splits if_splits)
  note fresh = node_alloc_fresh [OF S al sp(2)]
  let ?c3 = "bn_children ?n 3" and ?c4 = "bn_children ?n 4"
  have ne: "p \<noteq> R" "?c3 \<noteq> R" "?c4 \<noteq> R" "?c3 \<noteq> p" "?c4 \<noteq> p" using pS ch fresh(2) by auto
  have t': "q \<noteq> p \<Longrightarrow> q \<noteq> R \<Longrightarrow> q \<noteq> ?c3 \<Longrightarrow> q \<noteq> ?c4 \<Longrightarrow> bp_nodes t' q = bp_nodes t q"
    "bp_nodes t' ?c3 = (bp_nodes t ?c3)\<lparr>bn_parent := R\<rparr>" "bp_nodes t' ?c4 = (bp_nodes t ?c4)\<lparr>bn_parent := R\<rparr>"
    "bp_nodes t' p = ?n\<lparr>bn_nkeys := 2\<rparr>"
    "\<not> bn_leaf (bp_nodes t' R)" "bn_nkeys (bp_nodes t' R) = 1" "bn_parent (bp_nodes t' R) = bn_parent ?n"
    "bn_children (bp_nodes t' R) 0 = ?c3" "bn_children (bp_nodes t' R) (Suc 0) = ?c4"
    "bp_root t' = bp_root t" "bp_next t' = R + 1" "Suc (bp_avail t') = bp_avail t" for q
    using sp al fresh ne nk4 by (auto simp: split_internal_node_def Let_def upt_rec_numeral)
  let ?S = "insert R S" and ?lev = "lev(R := lev p)"
  have lev: "q \<in> S \<Longrightarrow> ?lev q = lev q" for q using fresh(2) by auto
  have old: "node_ok ?S ?lev q m" if "node_ok S lev q m" "q \<in> S" for q m
    by (rule node_ok_mono [OF that]) (use fresh(2) in auto)
  have par: "bn_parent ?n = 0 \<or> bn_parent ?n \<in> ?S \<and> ?lev (bn_parent ?n) = lev p + 1"
    using n fresh(2) by (auto simp: node_over_def)
  have "node_ok ?S ?lev p (bp_nodes t' p)"
    using n par fresh(2) ne(1) unfolding t'(4) node_over_def node_ok_def nk_def by auto
  moreover have "node_ok ?S ?lev R (bp_nodes t' R)"
    using par ch t'(5-9) lev ne by (auto simp: node_ok_def nk_def le_Suc_eq)
  moreover have "node_ok ?S ?lev q (bp_nodes t' q)" if "q \<in> S" "q \<noteq> p" for q
  proof -
    have "node_ok ?S ?lev q (bp_nodes t q)" using ov that by (intro old) (auto simp: bp_over_def)
    moreover have "bp_nodes t' q = bp_nodes t q \<or> bp_nodes t' q = (bp_nodes t q)\<lparr>bn_parent := R\<rparr> \<and> ?lev R = ?lev q + 1"
      using t'(1) [of q] t'(2,3) ch lev [OF that(1)] that fresh(2) by (cases "q = ?c3 \<or> q = ?c4") auto
    ultimately show ?thesis using node_ok_reparent [of ?S ?lev q "bp_nodes t q" R] by force
  qed
  ultimately have "\<forall>q \<in> ?S. node_ok ?S ?lev q (bp_nodes t' q)" by blast
  moreover have "0 < bp_next t'" "?S \<subseteq> {1..<bp_next t'}" "bp_root t' = 0 \<or> bp_root t' \<in> ?S"
    using ov t'(10,11) fresh(1) by (auto simp: bp_over_def)
  ultimately show "bp_ok t' ?S ?lev" unfolding bp_ok_def by blast
  show "R \<notin> S" by (rule fresh(2))
  show "bn_parent (bp_nodes t' p) = bn_parent ?n" by (simp add: t'(4))
  show "Suc (bp_avail t') = bp_avail t" by (rule t'(12))
qed

text \<open>
  A well-formed tree of levels up to \<open>b\<close>. An insertion into it needs at most \<open>b + 2\<close> nodes.
\<close>

definition bp_within :: "bptree \<Rightarrow> nat \<Rightarrow> bool" where
  "bp_within t b \<longleftrightarrow> (\<exists>S lev. bp_ok t S lev \<and> (\<forall>q \<in> S. lev q \<le> b))"

text \<open>The outcome of an operation that uses at most \<open>k\<close> nodes: it is out of memory, or a tree of levels up to \<open>b\<close>.\<close>

definition inserted :: "bptree \<Rightarrow> nat \<Rightarrow> nat \<Rightarrow> (errno + unit) \<times> bptree \<Rightarrow> bool" where
  "inserted t k b rt \<longleftrightarrow> (fst rt = Inl ENOMEM \<and> bp_avail t < k) \<or>
     (fst rt = Inr () \<and> bp_within (snd rt) b \<and> bp_avail t \<le> bp_avail (snd rt) + k)"

lemma inserted_mono:
  "inserted t k b rt \<Longrightarrow> bp_avail t0 = bp_avail t + j \<Longrightarrow> k + j \<le> k0 \<Longrightarrow> inserted t0 k0 b rt"
  by (auto simp: inserted_def)

lemma bp_within_mono: "bp_within t b \<Longrightarrow> b \<le> b' \<Longrightarrow> bp_within t b'"
  unfolding bp_within_def by (meson le_trans)

lemma new_root_ok:
  assumes ok: "bp_ok t S lev" "left \<in> S" "newR \<in> S" "lev left = l" "lev newR = l"
  and bound: "\<forall>q \<in> S. lev q \<le> b"
  shows "inserted t 1 (b + 1) (new_root left sep newR t)"
proof -
  obtain nr t0 where al: "node_alloc False t = (nr, t0)" by (cases "node_alloc False t")
  show ?thesis
  proof (cases "nr = 0")
    case True
    then have "bp_avail t = 0" using al ok(1) by (auto simp: node_alloc_def bp_ok_def split: if_splits)
    then show ?thesis using al True by (simp add: new_root_def inserted_def)
  next
    case False
    have S: "S \<subseteq> {1..<bp_next t}" using ok(1) by (simp add: bp_ok_def)
    note fresh = node_alloc_fresh [OF S al False]
    obtain t' where t': "new_root left sep newR t = (Inr (), t')" using al False by (simp add: new_root_def Let_def)
    have ne: "left \<noteq> nr" "newR \<noteq> nr" using ok fresh(2) by auto
    have sel: "q \<noteq> nr \<Longrightarrow> q \<noteq> left \<Longrightarrow> q \<noteq> newR \<Longrightarrow> bp_nodes t' q = bp_nodes t q"
      "bp_nodes t' left = (bp_nodes t left)\<lparr>bn_parent := nr\<rparr>" "bp_nodes t' newR = (bp_nodes t newR)\<lparr>bn_parent := nr\<rparr>"
      "\<not> bn_leaf (bp_nodes t' nr)" "bn_nkeys (bp_nodes t' nr) = 1" "bn_parent (bp_nodes t' nr) = 0"
      "bn_children (bp_nodes t' nr) 0 = left" "bn_children (bp_nodes t' nr) (Suc 0) = newR"
      "bp_root t' = nr" "bp_next t' = nr + 1" "Suc (bp_avail t') = bp_avail t" for q
      using t' al False fresh ne by (auto simp: new_root_def Let_def)
    let ?S = "insert nr S" and ?lev = "lev(nr := l + 1)"
    have "node_ok ?S ?lev nr (bp_nodes t' nr)"
      using sel(4-8) ok(2-5) ne by (auto simp: node_ok_def nk_def le_Suc_eq)
    moreover have "node_ok ?S ?lev q (bp_nodes t' q)" if "q \<in> S" for q
    proof -
      have "node_ok ?S ?lev q (bp_nodes t q)"
        by (rule node_ok_mono [OF bp_okD [OF ok(1) that] that]) (use fresh(2) in auto)
      moreover have "bp_nodes t' q = bp_nodes t q \<or> bp_nodes t' q = (bp_nodes t q)\<lparr>bn_parent := nr\<rparr> \<and> lev q = l"
        using sel(1) [of q] sel(2,3) ok(4,5) that fresh(2) by (cases "q = left \<or> q = newR") auto
      moreover have "q \<noteq> nr" using that fresh(2) by auto
      ultimately show ?thesis using node_ok_reparent [of ?S ?lev q "bp_nodes t q" nr] by force
    qed
    ultimately have "\<forall>q \<in> ?S. node_ok ?S ?lev q (bp_nodes t' q)" by blast
    moreover have "0 < bp_next t'" "?S \<subseteq> {1..<bp_next t'}" using ok(1) sel(10) fresh(1) by (auto simp: bp_ok_def)
    ultimately have "bp_ok t' ?S ?lev" unfolding bp_ok_def using sel(9) by blast
    moreover have "\<forall>q \<in> ?S. ?lev q \<le> b + 1" using bound ok(2,4) by fastforce
    ultimately have "bp_within t' (b + 1)" unfolding bp_within_def by blast
    with t' sel(11) show ?thesis by (simp add: inserted_def)
  qed
qed

lemma ascend_ok:
  assumes "bp_ok t S lev" "parent = 0 \<or> parent \<in> S \<and> lev parent = l + 1" "left \<in> S" "newR \<in> S" "lev left = l" "lev newR = l"
    "\<forall>q \<in> S. lev q \<le> b"
  shows "\<exists>rt. ascend parent left sep newR t = Some rt \<and> inserted t (b - l + 1) (b + 1) rt"
  using assms
proof (induction "b - l" arbitrary: parent left sep newR t S lev l rule: less_induct)
  case less
  show ?case
  proof (cases "parent = 0")
    case True
    then show ?thesis
      using inserted_mono [OF new_root_ok [OF less.prems(1,3-7), of sep], of t 0] by (subst ascend.simps) simp
  next
    case False
    then have p: "parent \<in> S" "lev parent = l + 1" using less.prems(2) by auto
    let ?pos = "child_pos (bp_nodes t parent) sep"
    let ?t1 = "internal_insert parent ?pos sep newR t"
    have ok1: "nk (bp_nodes t parent) < 3 \<Longrightarrow> bp_ok ?t1 S lev" "nk (bp_nodes t parent) = 3 \<Longrightarrow> bp_over ?t1 S lev parent"
      using internal_insert_ok [OF less.prems(1) p(1) less.prems(4) _ child_pos_le] p(2) less.prems(6) by auto
    have nk: "nk (bp_nodes t parent) \<le> 3" using bp_okD [OF less.prems(1) p(1)] by (simp add: node_ok_def)
    have "parent \<noteq> newR" using p(2) less.prems(6) by auto
    then have same: "bp_avail ?t1 = bp_avail t" by (rule internal_insert_sel(8)) (rule child_pos_le)
    show ?thesis
    proof (cases "nk (bp_nodes t parent) < 3")
      case True
      have "bp_within ?t1 (b + 1)"
        using ok1(1) [OF True] less.prems(7) unfolding bp_within_def by (meson le_add1 le_trans)
      with same have "inserted t (b - l + 1) (b + 1) (Inr (), ?t1)" by (simp add: inserted_def)
      then show ?thesis using False True by (subst ascend.simps) (auto simp: BP_MAX_def Let_def)
    next
      case full: False
      then have ov: "bp_over ?t1 S lev parent" using nk ok1(2) by simp
      obtain promo R t2 where sp: "split_internal_node parent ?t1 = (promo, R, t2)" by (cases "split_internal_node parent ?t1") auto
      have asc: "ascend parent left sep newR t =
          (if R = 0 then Some (Inl ENOMEM, t2) else ascend (bn_parent (bp_nodes t2 parent)) parent promo R t2)"
        using False full sp by (subst ascend.simps) (simp add: BP_MAX_def Let_def)
      show ?thesis
      proof (cases "R = 0")
        case True
        then have "bp_avail ?t1 = 0" using sp ov by (auto simp: bp_over_def split_internal_node_def node_alloc_def Let_def split: if_splits)
        with same show ?thesis using asc True by (simp add: inserted_def)
      next
        case R: False
        note so = split_internal_ok [OF ov sp R]
        have "bn_parent (bp_nodes t2 parent) = 0 \<or> bn_parent (bp_nodes t2 parent) \<in> S \<and> lev (bn_parent (bp_nodes t2 parent)) = l + 2"
          using ov so(3) p(2) by (simp add: bp_over_def node_over_def)
        moreover have l: "l + 1 \<le> b" using less.prems(7) p by fastforce
        ultimately have "\<exists>rt. ascend (bn_parent (bp_nodes t2 parent)) parent promo R t2 = Some rt \<and> inserted t2 (b - (l + 1) + 1) (b + 1) rt"
          using less.prems(7) p so(1) by (intro less.hyps [OF _ so(2), of "l + 1"]) auto
        then obtain rt where "ascend (bn_parent (bp_nodes t2 parent)) parent promo R t2 = Some rt" "inserted t2 (b - (l + 1) + 1) (b + 1) rt" by blast
        moreover have "bp_avail t = bp_avail t2 + 1" using so(4) same by simp
        ultimately show ?thesis using asc R l inserted_mono [of t2 "b - (l + 1) + 1" "b + 1" rt t 1 "b - l + 1"] by simp
      qed
    qed
  qed
qed

lemma insert_empty_ok:
  assumes "bp_root t = 0" "0 < bp_next t"
  shows "\<exists>rt. hist_bpt_insert seq idx t = Some rt \<and> inserted t 1 b rt"
proof -
  obtain L t0 where al: "node_alloc True t = (L, t0)" by (cases "node_alloc True t")
  show ?thesis
  proof (cases "L = 0")
    case True
    then have "bp_avail t = 0" using al assms(2) by (auto simp: node_alloc_def split: if_splits)
    then show ?thesis using al True assms(1) by (simp add: hist_bpt_insert_def inserted_def)
  next
    case False
    note fresh = node_alloc_fresh [OF _ al False, of "{}"]
    define t' where "t' = (upd L (\<lambda>n. (wr_val 0 idx (wr_key 0 seq n))\<lparr>bn_nkeys := 1\<rparr>) t0)\<lparr>bp_root := L, bp_height := 1\<rparr>"
    have "bp_ok t' {L} (\<lambda>_. 0)" using fresh False by (simp add: bp_ok_def t'_def node_ok_def nk_def)
    then have "bp_within t' b" unfolding bp_within_def by (intro exI [of _ "{L}"] exI [of _ "\<lambda>_. 0"]) simp
    moreover have "hist_bpt_insert seq idx t = Some (Inr (), t')" using al assms(1) False by (simp add: hist_bpt_insert_def t'_def)
    moreover have "Suc (bp_avail t') = bp_avail t" using fresh by (simp add: t'_def)
    ultimately show ?thesis by (simp add: inserted_def)
  qed
qed

text \<open>Insertion into a leaf that has room, or that holds the key already.\<close>

lemma insert_leaf_ok:
  assumes ok: "bp_ok t S lev" "l \<in> S" "bn_leaf (bp_nodes t l)"
  shows "bp_ok (upd l (wr_val i idx) t) S lev" "nk (bp_nodes t l) < 3 \<Longrightarrow> bp_ok (upd l (leaf_insert_sorted seq idx) t) S lev"
proof -
  have nok: "node_ok S lev l (bp_nodes t l)" by (rule bp_okD [OF ok(1,2)])
  then show "bp_ok (upd l (wr_val i idx) t) S lev"
    by (intro bp_ok_upd [OF ok(1)]) (subst node_ok_fields [where n = "bp_nodes t l"], simp_all)
  assume less: "nk (bp_nodes t l) < 3"
  then have "nk (leaf_insert_sorted seq idx (bp_nodes t l)) = nk (bp_nodes t l) + 1" by (intro nk_plus1) simp_all
  then show "bp_ok (upd l (leaf_insert_sorted seq idx) t) S lev"
    using nok ok(3) less by (intro bp_ok_upd [OF ok(1)]) (auto simp: node_ok_def)
qed

lemma insert_split_ok:
  assumes ok: "bp_ok t S lev" "l \<in> S" "bn_leaf (bp_nodes t l)" "nk (bp_nodes t l) = 3" and b: "\<forall>q \<in> S. lev q \<le> b"
    and sp: "split_leaf_node l (upd l (leaf_insert_sorted seq idx) t) = (R, t1)"
  shows "\<exists>rt. (if R = 0 then Some (Inl ENOMEM, t1) else ascend (bn_parent (bp_nodes t1 l)) l (rd_key (bp_nodes t1 R) 0) R t1) = Some rt \<and>
     inserted t (b + 2) (b + 1) rt"
proof (cases "R = 0")
  case True
  have "bp_avail t = 0"
    using sp True ok(1) by (auto simp: bp_ok_def split_leaf_node_def node_alloc_def Let_def split: if_splits)
  then show ?thesis using True by (simp add: inserted_def)
next
  case False
  note so = split_leaf_ok [OF ok sp False]
  have par: "bn_parent (bp_nodes t1 l) = 0 \<or> bn_parent (bp_nodes t1 l) \<in> insert R S \<and> (lev(R := 0)) (bn_parent (bp_nodes t1 l)) = 0 + 1"
    using bp_okD [OF ok(1,2)] so by (auto simp: node_ok_def)
  have "l \<noteq> R" using so(1) ok(2) by auto
  moreover have "\<forall>q \<in> insert R S. (lev(R := 0)) q \<le> b" using b by auto
  ultimately obtain rt where "ascend (bn_parent (bp_nodes t1 l)) l (rd_key (bp_nodes t1 R) 0) R t1 = Some rt" "inserted t1 (b + 1) (b + 1) rt"
    using ascend_ok [OF so(2) par, of l R b "rd_key (bp_nodes t1 R) 0"] ok(2) so(4) by auto
  then show ?thesis using False so(5) inserted_mono [of t1 "b + 1" "b + 1" rt t 1 "b + 2"] by simp
qed

lemma insert_ok:
  assumes "bp_within t b"
  shows "\<exists>rt. hist_bpt_insert seq idx t = Some rt \<and> inserted t (b + 2) (b + 1) rt"
proof -
  obtain S lev where ok: "bp_ok t S lev" and b: "\<forall>q \<in> S. lev q \<le> b" using assms unfolding bp_within_def by blast
  have keep: "inserted t (b + 2) (b + 1) (Inr (), t')" if "bp_ok t' S lev" "bp_avail t' = bp_avail t" for t'
  proof -
    have "bp_within t' (b + 1)" unfolding bp_within_def using that(1) b by (meson le_add1 le_trans)
    then show ?thesis using that(2) by (simp add: inserted_def)
  qed
  show ?thesis
  proof (cases "bp_root t = 0")
    case True
    then show ?thesis
      using insert_empty_ok [of t seq idx "b + 1"] inserted_mono [of t 1 "b + 1" _ t 0 "b + 2"] ok by (auto simp: bp_ok_def)
  next
    case False
    then have root: "bp_root t \<in> S" using ok by (simp add: bp_ok_def)
    obtain l where l: "l \<in> S" "leaf_search (bp_nodes t) (bp_root t) seq = Some l" "bn_leaf (bp_nodes t l)"
      using leaf_search_ok [OF ok root] by blast
    have l0: "l \<noteq> 0" using bp_ok_nonzero [OF ok l(1)] by simp
    note leaf = insert_leaf_ok [OF ok l(1,3)]
    show ?thesis
    proof (cases "scan (\<lambda>i. rd_key (bp_nodes t l) i = seq) 0 (nk (bp_nodes t l))")
      case (Some i)
      then show ?thesis using False l l0 keep [OF leaf(1)] by (simp add: hist_bpt_insert_def)
    next
      case None
      obtain R t1 where sp: "split_leaf_node l (upd l (leaf_insert_sorted seq idx) t) = (R, t1)" by fastforce
      show ?thesis
      proof (cases "nk (bp_nodes t l) < 3")
        case True
        then show ?thesis using False l l0 None keep [OF leaf(2)] by (simp add: hist_bpt_insert_def BP_MAX_def)
      next
        case full: False
        then have "nk (bp_nodes t l) = 3" using bp_okD [OF ok l(1)] by (simp add: node_ok_def)
        from insert_split_ok [OF ok l(1,3) this b sp]
        show ?thesis using False l l0 None full sp by (simp add: hist_bpt_insert_def BP_MAX_def)
      qed
    qed
  qed
qed

text \<open>Freeing the tree visits each node below the root.\<close>

definition free_weight :: "(nat \<Rightarrow> nat) \<Rightarrow> nat \<Rightarrow> nat" where
  "free_weight lev p = (if p = 0 then 1 else 5 ^ (lev p))"

lemma count_children:
  assumes "node_ok S lev p n" "\<not> bn_leaf n" "0 \<notin> S"
  shows "sum_list (map (free_weight lev) (map (bn_children n) [0..<nk n + 1])) < 5 ^ lev p"
proof -
  obtain l where l: "lev p = Suc l" using assms by (cases "lev p") (auto simp: node_ok_def)
  have "free_weight lev (bn_children n i) = 5 ^ l" if "i \<le> nk n" for i
    using assms that l by (auto simp: node_ok_def free_weight_def)
  then have "map (free_weight lev) (map (bn_children n) [0..<nk n + 1]) = replicate (nk n + 1) (5 ^ l)"
    by (intro nth_equalityI) (auto simp del: upt_Suc replicate_Suc)
  then have "sum_list (map (free_weight lev) (map (bn_children n) [0..<nk n + 1])) = (nk n + 1) * 5 ^ l"
    by (simp only: sum_list_replicate of_nat_id)
  moreover have "nk n + 1 < 5" using assms(1) by (simp add: node_ok_def)
  ultimately show ?thesis by (simp add: l)
qed

lemma node_count_returns:
  assumes ok: "bp_ok t S lev" and ps: "set ps \<subseteq> insert 0 S"
  shows "\<exists>m. node_count_list (bp_nodes t) ps k = Some m"
  using ps
proof (induction "sum_list (map (free_weight lev) ps)" arbitrary: ps k rule: less_induct)
  case less
  show ?case
  proof (cases ps)
    case Nil
    then show ?thesis by (subst node_count_list.simps) simp
  next
    case (Cons p qs)
    have S0: "0 \<notin> S" using ok by (auto simp: bp_ok_def)
    show ?thesis
    proof (cases "p = 0")
      case True
      then have "\<exists>m. node_count_list (bp_nodes t) qs k = Some m"
        using less Cons by (intro less.hyps) (auto simp: free_weight_def)
      then show ?thesis using Cons True by (subst node_count_list.simps) simp
    next
      case False
      then have pS: "p \<in> S" using less.prems Cons by auto
      let ?n = "bp_nodes t p"
      have nok: "node_ok S lev p ?n" by (rule bp_okD [OF ok pS])
      define cs where "cs = (if bn_leaf ?n then [] else map (bn_children ?n) [0..<nk ?n + 1])"
      have w: "sum_list (map (free_weight lev) cs) < free_weight lev p"
        using count_children [OF nok _ S0] False by (simp add: cs_def free_weight_def del: upt_Suc)
      have "set cs \<subseteq> S" using nok by (auto simp: cs_def node_ok_def simp del: upt_Suc)
      then have "\<exists>m. node_count_list (bp_nodes t) (cs @ qs) (k + 1) = Some m"
        using w less Cons by (intro less.hyps) auto
      then show ?thesis using Cons False by (subst node_count_list.simps) (simp add: cs_def del: upt_Suc)
    qed
  qed
qed

lemma clear_ok:
  assumes "bp_within t b"
  shows "\<exists>t'. hist_bpt_clear t = Some t' \<and> bp_within t' 0 \<and> bp_root t' = 0 \<and> bp_avail t \<le> bp_avail t'"
proof -
  obtain S lev where ok: "bp_ok t S lev" using assms unfolding bp_within_def by blast
  then have "set [bp_root t] \<subseteq> insert 0 S" by (auto simp: bp_ok_def)
  then obtain m where m: "node_count_list (bp_nodes t) [bp_root t] 0 = Some m" using node_count_returns [OF ok] by blast
  define t' where "t' = t\<lparr>bp_avail := bp_avail t + m, bp_root := 0, bp_height := 0\<rparr>"
  have "bp_ok t' {} lev" using ok by (simp add: bp_ok_def t'_def)
  then have "bp_within t' 0" unfolding bp_within_def by blast
  moreover have "hist_bpt_clear t = Some t'"
    using m by (simp add: hist_bpt_clear_def hist_bpt_destroy_def node_free_recursive_def t'_def)
  ultimately show ?thesis by (simp add: t'_def)
qed

lemma four_inserts:
  assumes "bp_root t = 0" "bp_next t \<noteq> 0" "bp_avail t = n + 3" "k0 < k1" "k1 < k2" "k2 < k3"
  shows "\<exists>t1 t2 t3 t4. hist_bpt_insert k0 v0 t = Some (Inr (), t1) \<and> hist_bpt_insert k1 v1 t1 = Some (Inr (), t2) \<and>
     hist_bpt_insert k2 v2 t2 = Some (Inr (), t3) \<and> hist_bpt_range_from_seq t3 0 4 = Some [v0, v1, v2] \<and>
     hist_bpt_insert k3 v3 t3 = Some (Inr (), t4) \<and>
     hist_bpt_range_from_seq t4 0 4 = Some [ucast k3, ucast (drop_bit 32 k3), v2, v3]"
proof -
  obtain p where p: "bp_next t = p" "p \<noteq> 0" using assms(2) by blast
  obtain t1 where t1: "hist_bpt_insert k0 v0 t = Some (Inr (), t1)" "one_leaf t1 p [(k0, v0)]" "bp_avail t1 = n + 2"
    using insert_first [OF assms(1) p, of "n + 2" k0 v0] assms(3) by auto
  obtain t2 where t2: "hist_bpt_insert k1 v1 t1 = Some (Inr (), t2)" "one_leaf t2 p [(k0, v0), (k1, v1)]" "bp_avail t2 = n + 2"
    using insert_room [OF t1(2), of k1 v1] assms(4) t1(3) by auto
  obtain t3 where t3: "hist_bpt_insert k2 v2 t2 = Some (Inr (), t3)" "one_leaf t3 p [(k0, v0), (k1, v1), (k2, v2)]" "bp_avail t3 = n + 2"
    using insert_room [OF t2(2), of k2 v2] assms(5) less_trans [OF assms(4,5)] t2(3) by auto
  show ?thesis
    using t1(1) t2(1) t3(1) range_one_leaf [OF t3(2), of 4] insert_fourth [OF t3(2) assms(4-6), of n v3] t3(3)
    by auto
qed

section \<open>The property\<close>

text \<open>C20: an insertion into a well-formed tree of levels up to \<open>b\<close> always returns. It fails only when fewer than
  \<open>b + 2\<close> nodes can be allocated, and otherwise leaves a well-formed tree of at most one level more. Clearing a
  well-formed tree returns and leaves an empty one, and an empty tree answers a query with the ring slots of up to
  three entries; inserting a fourth entry splits the leaf, and the index then answers with the two halves of the
  fourth sequence number in the place of the first two slots.\<close>

lemma hist_bpt_terminates:
  assumes "bp_within t b"
  shows "(\<exists>r t'. hist_bpt_insert seq idx t = Some (r, t') \<and>
            (r = Inl ENOMEM \<and> bp_avail t < b + 2 \<or> r = Inr () \<and> bp_within t' (b + 1) \<and> bp_avail t \<le> bp_avail t' + b + 2)) \<and>
         (\<exists>t'. hist_bpt_clear t = Some t' \<and> bp_within t' 0 \<and> bp_root t' = 0) \<and>
         (\<forall>t n k0 k1 k2 k3 v0 v1 v2 v3.
            bp_root t = 0 \<and> bp_next t \<noteq> 0 \<and> bp_avail t = n + 3 \<and> k0 < k1 \<and> k1 < k2 \<and> k2 < k3 \<longrightarrow>
            (\<exists>t1 t2 t3 t4. hist_bpt_insert k0 v0 t = Some (Inr (), t1) \<and> hist_bpt_insert k1 v1 t1 = Some (Inr (), t2) \<and>
               hist_bpt_insert k2 v2 t2 = Some (Inr (), t3) \<and> hist_bpt_range_from_seq t3 0 4 = Some [v0, v1, v2] \<and>
               hist_bpt_insert k3 v3 t3 = Some (Inr (), t4) \<and>
               hist_bpt_range_from_seq t4 0 4 = Some [ucast k3, ucast (drop_bit 32 k3), v2, v3]))"
proof (intro conjI)
  show "\<exists>r t'. hist_bpt_insert seq idx t = Some (r, t') \<and>
      (r = Inl ENOMEM \<and> bp_avail t < b + 2 \<or> r = Inr () \<and> bp_within t' (b + 1) \<and> bp_avail t \<le> bp_avail t' + b + 2)"
    using insert_ok [OF assms, of seq idx] by (auto simp: inserted_def)
  show "\<exists>t'. hist_bpt_clear t = Some t' \<and> bp_within t' 0 \<and> bp_root t' = 0" using clear_ok [OF assms] by blast
qed (intro allI impI, elim conjE, rule four_inserts)

lemma hist_bpt_terminates_witness:
  "(\<exists>r t'. hist_bpt_insert 7 1 \<lparr>bp_root = 0, bp_height = 0, bp_nodes = \<lambda>_. leaf_of [], bp_next = 1, bp_avail = 3\<rparr> = Some (r, t')) \<and>
   (\<exists>t t4. hist_bpt_insert 14 24 t = Some (Inr (), t4) \<and> hist_bpt_range_from_seq t 0 4 = Some [21, 22, 23] \<and>
     hist_bpt_range_from_seq t4 0 4 = Some [14, 0, 23, 24])"
proof -
  define t where "t = \<lparr>bp_root = 0, bp_height = 0, bp_nodes = \<lambda>_. leaf_of [], bp_next = 1, bp_avail = 3\<rparr>"
  have "bp_ok t {} (\<lambda>_. 0)" by (simp add: bp_ok_def t_def)
  then have "bp_within t 0" unfolding bp_within_def by blast
  note all = hist_bpt_terminates [OF this, of 7 1]
  have "bp_root t = 0 \<and> bp_next t \<noteq> 0 \<and> bp_avail t = 0 + 3 \<and> (11 :: u64) < 12 \<and> (12 :: u64) < 13 \<and> (13 :: u64) < 14"
    by (simp add: t_def)
  from all [THEN conjunct2, THEN conjunct2, rule_format, OF this, of 21 22 23 24] all [THEN conjunct1]
  show ?thesis unfolding t_def by (auto simp: drop_bit_eq_div)
qed

end
