(* ===== verification/History.thy ===== *)
theory History
  imports CString Lz4 HistBptree
begin

text \<open>
  The conversation history of an agent, \<open>agent/history.c\<close>: a ring of 4096 entries compressed with LZ4,
  a token window that evicts the oldest entries, the B+ tree index, and the serialised form.

  \<open>head\<close> and \<open>tail\<close> are running 32-bit counters, as in the code. The data pointer of an entry is null, a
  block with its contents, or dangling: \<open>krealloc\<close> to zero bytes frees its block and returns null, and
  the code then keeps the old pointer. Freeing a dangling pointer is counted in \<open>h_double_frees\<close>.
  Whether \<open>kmalloc\<close> succeeds is an argument. Operations that use the index return \<open>None\<close> when an index
  operation does not return.
\<close>

unbundle bit_operations_syntax

abbreviation HIST_RING_SIZE :: u32 where "HIST_RING_SIZE \<equiv> 4096"
abbreviation HIST_ROLE_USER :: u8 where "HIST_ROLE_USER \<equiv> 0"
abbreviation HIST_ROLE_TOOL :: u8 where "HIST_ROLE_TOOL \<equiv> 3"

datatype hist_data = Null | Block bytes | Dangling

record hist_entry =
  he_timestamp :: u64
  he_seq :: u64
  he_role :: u8
  he_token_count :: u32
  he_data :: hist_data
  he_data_len :: u32
  he_raw_len :: u32

record history =
  h_ring :: "nat \<Rightarrow> hist_entry"
  h_head :: u32
  h_tail :: u32
  h_window_tokens :: u32
  h_max_tokens :: u32
  h_next_seq :: u64
  h_bpt :: bptree
  h_double_frees :: nat

definition zero_entry :: hist_entry where
  "zero_entry = \<lparr>he_timestamp = 0, he_seq = 0, he_role = 0, he_token_count = 0, he_data = Null, he_data_len = 0, he_raw_len = 0\<rparr>"

definition estimate_tokens :: "bytes \<Rightarrow> u32" where
  "estimate_tokens text = (of_nat (strlen text) + 3) div 4"

definition history_init :: "u32 \<Rightarrow> history \<Rightarrow> history" where
  "history_init max_tokens h = h\<lparr>h_ring := \<lambda>_. zero_entry, h_head := 0, h_tail := 0, h_window_tokens := 0,
     h_max_tokens := max_tokens, h_next_seq := 0, h_bpt := hist_bpt_init (h_bpt h)\<rparr>"

definition slot :: "u32 \<Rightarrow> nat" where "slot i = unat (i mod HIST_RING_SIZE)"

text \<open>\<open>entry_free\<close> on the entry of a slot.\<close>

definition entry_free :: "nat \<Rightarrow> history \<Rightarrow> history" where
  "entry_free s h = h\<lparr>h_double_frees := h_double_frees h + (if he_data (h_ring h s) = Dangling then 1 else 0),
     h_ring := (h_ring h)(s := (h_ring h s)\<lparr>he_data := Null, he_data_len := 0, he_raw_len := 0, he_token_count := 0\<rparr>)\<rparr>"

definition evict_oldest :: "history \<Rightarrow> history" where
  "evict_oldest h =
     (if h_head h = h_tail h then h
      else let s = slot (h_tail h);
               h = h\<lparr>h_window_tokens := h_window_tokens h - he_token_count (h_ring h s)\<rparr>;
               h = entry_free s h
           in h\<lparr>h_tail := h_tail h + 1\<rparr>)"

lemma evict_oldest_sel [simp]:
  "h_head (evict_oldest h) = h_head h" "h_max_tokens (evict_oldest h) = h_max_tokens h"
  "h_next_seq (evict_oldest h) = h_next_seq h" "h_bpt (evict_oldest h) = h_bpt h"
  by (simp_all add: evict_oldest_def entry_free_def Let_def)

lemma evict_measure: "h_head h \<noteq> h_tail h \<Longrightarrow> unat (h_head h - h_tail (evict_oldest h)) < unat (h_head h - h_tail h)"
proof -
  assume "h_head h \<noteq> h_tail h"
  then have "h_head h - h_tail h \<noteq> 0" by simp
  then have "unat (h_head h - h_tail h - 1) < unat (h_head h - h_tail h)"
    by (simp add: unat_minus_one unat_gt_0)
  then show ?thesis using \<open>h_head h \<noteq> h_tail h\<close> by (simp add: evict_oldest_def entry_free_def Let_def diff_diff_eq2 algebra_simps)
qed

text \<open>The two eviction loops of \<open>history_push\<close>; the flag is \<open>bpt_dirty\<close>.\<close>

function evict_full :: "bool \<times> history \<Rightarrow> bool \<times> history" where
  "evict_full (dirty, h) =
     (if HIST_RING_SIZE \<le> h_head h - h_tail h then evict_full (True, evict_oldest h) else (dirty, h))"
  by pat_completeness auto
termination
proof (relation "measure (\<lambda>(d, h). unat (h_head h - h_tail h))")
  fix dirty :: bool and h :: history
  assume "HIST_RING_SIZE \<le> h_head h - h_tail h"
  then have "h_head h \<noteq> h_tail h" by auto
  then show "((True, evict_oldest h), (dirty, h)) \<in> measure (\<lambda>(d, h). unat (h_head h - h_tail h))"
    using evict_measure [of h] by simp
qed simp

function evict_window :: "u32 \<Rightarrow> bool \<times> history \<Rightarrow> bool \<times> history" where
  "evict_window tok_cnt (dirty, h) =
     (if h_max_tokens h < h_window_tokens h + tok_cnt \<and> h_tail h < h_head h
      then evict_window tok_cnt (True, evict_oldest h) else (dirty, h))"
  by pat_completeness auto
termination
  by (relation "measure (\<lambda>(t, d, h). unat (h_head h - h_tail h))") (auto simp: evict_measure)

declare evict_full.simps [simp del] evict_window.simps [simp del]

section \<open>The index\<close>

text \<open>\<open>hist_bpt_rebuild\<close>: clear the tree and insert every entry that has data; insertion errors are ignored.\<close>

fun rebuild_loop :: "history \<Rightarrow> nat list \<Rightarrow> bptree \<Rightarrow> bptree option" where
  "rebuild_loop h [] t = Some t"
| "rebuild_loop h (i # js) t =
     (let abs_idx = slot (h_tail h + of_nat i); e = h_ring h abs_idx in
      if he_data e \<noteq> Null
      then case hist_bpt_insert (he_seq e) (of_nat abs_idx) t of None \<Rightarrow> None | Some (r, t) \<Rightarrow> rebuild_loop h js t
      else rebuild_loop h js t)"

definition hist_bpt_rebuild :: "history \<Rightarrow> bptree option" where
  "hist_bpt_rebuild h =
     (case hist_bpt_clear (h_bpt h) of
        None \<Rightarrow> None
      | Some t \<Rightarrow> rebuild_loop h [0..<unat (h_head h - h_tail h)] t)"

section \<open>Push and read\<close>

text \<open>The bytes stored for a text and the data pointer after \<open>krealloc\<close>.\<close>

definition stored_bytes :: "bytes \<Rightarrow> bytes" where
  "stored_bytes text =
     (case lz4_compress text (length text + length text div 255 + 16) of
        Some c \<Rightarrow> if length c = 0 then text else c
      | None \<Rightarrow> text)"

definition history_push :: "u64 \<Rightarrow> bool \<Rightarrow> u8 \<Rightarrow> bytes \<Rightarrow> history \<Rightarrow> ((errno + unit) \<times> history) option" where
  "history_push now mem role text h =
     (let raw = cval text; tok_cnt = estimate_tokens text in
      if \<not> mem then Some (Inl ENOMEM, h)
      else
        let comp = stored_bytes raw;
            data = (if length comp = 0 then Dangling else Block comp);
            (dirty, h) = evict_window tok_cnt (evict_full (False, h))
        in case (if dirty then hist_bpt_rebuild h else Some (h_bpt h)) of
          None \<Rightarrow> None
        | Some t \<Rightarrow>
            let h = h\<lparr>h_bpt := t\<rparr>;
                idx = slot (h_head h);
                h = entry_free idx h;
                seq = h_next_seq h;
                e = (h_ring h idx)\<lparr>he_timestamp := now, he_seq := seq, he_role := role, he_token_count := tok_cnt,
                      he_data := data, he_data_len := of_nat (length comp), he_raw_len := of_nat (length raw)\<rparr>;
                h = h\<lparr>h_next_seq := seq + 1, h_ring := (h_ring h)(idx := e), h_head := h_head h + 1,
                      h_window_tokens := h_window_tokens h + tok_cnt\<rparr>
            in case hist_bpt_insert seq (of_nat idx) (h_bpt h) of
              None \<Rightarrow> None
            | Some (r, t) \<Rightarrow> Some (Inr (), h\<lparr>h_bpt := t\<rparr>))"

definition history_count :: "history \<Rightarrow> u32" where
  "history_count h = h_head h - h_tail h"

text \<open>The text an entry decompresses to in a buffer of \<open>cap + 1\<close> bytes, or its raw data.\<close>

definition entry_text :: "hist_entry \<Rightarrow> nat \<Rightarrow> bytes" where
  "entry_text e cap =
     (case he_data e of
        Block d \<Rightarrow>
          (case lz4_decompress (take (unat (he_data_len e)) d) (min cap (unat (he_raw_len e))) of
             Some t \<Rightarrow> if length t = 0 then take (min (unat (he_data_len e)) cap) d else t
           | None \<Rightarrow> take (min (unat (he_data_len e)) cap) d)
      | _ \<Rightarrow> [])"

definition history_get :: "history \<Rightarrow> u32 \<Rightarrow> u32 \<Rightarrow> errno + bytes" where
  "history_get h index buf_size =
     (if buf_size = 0 then Inl EINVAL
      else if h_head h - h_tail h \<le> index then Inl ENOENT
      else let e = h_ring h (slot (h_tail h + index)) in
           if he_data e = Null \<or> he_data_len e = 0 then Inl ENOENT
           else Inr (entry_text e (unat buf_size - 1)))"

definition history_get_recent :: "bool \<Rightarrow> history \<Rightarrow> u32 \<Rightarrow> hist_entry list option" where
  "history_get_recent mem h count =
     (let total = h_head h - h_tail h;
          n = (if total < count then total else count)
      in if n = 0 \<or> \<not> mem then None
         else Some (map (\<lambda>i. h_ring h (slot (h_head h - n + of_nat i))) [0..<unat n]))"

definition history_get_window_tokens :: "history \<Rightarrow> u32" where
  "history_get_window_tokens h = h_window_tokens h"

definition history_seq_at :: "history \<Rightarrow> u32 \<Rightarrow> u64" where
  "history_seq_at h logical_index =
     (if h_head h - h_tail h \<le> logical_index then 0 else he_seq (h_ring h (slot (h_tail h + logical_index))))"

section \<open>Truncate and clear\<close>

definition drop_newest :: "history \<Rightarrow> history" where
  "drop_newest h =
     (let h = h\<lparr>h_head := h_head h - 1\<rparr>;
          idx = slot (h_head h);
          h = h\<lparr>h_window_tokens := h_window_tokens h - he_token_count (h_ring h idx)\<rparr>;
          h = entry_free idx h
      in h\<lparr>h_ring := (h_ring h)(idx := zero_entry)\<rparr>)"

primrec drop_loop :: "nat \<Rightarrow> history \<Rightarrow> history" where
  "drop_loop 0 h = h"
| "drop_loop (Suc n) h = (if h_head h \<le> h_tail h then h else drop_loop n (drop_newest h))"

definition history_truncate_keep :: "u32 \<Rightarrow> history \<Rightarrow> ((errno + unit) \<times> history) option" where
  "history_truncate_keep keep_count h =
     (let total = h_head h - h_tail h in
      if total \<le> keep_count then Some (Inr (), h)
      else
        let h = drop_loop (unat (total - keep_count)) h
        in case hist_bpt_rebuild h of
          None \<Rightarrow> None
        | Some t \<Rightarrow> Some (Inr (), h\<lparr>h_bpt := t\<rparr>))"

function clear_loop :: "history \<Rightarrow> history" where
  "clear_loop h = (if h_tail h < h_head h then clear_loop (evict_oldest h) else h)"
  by pat_completeness auto
termination
  by (relation "measure (\<lambda>h. unat (h_head h - h_tail h))") (auto simp: evict_measure)

declare clear_loop.simps [simp del]

definition history_clear :: "history \<Rightarrow> history option" where
  "history_clear h =
     (let h = clear_loop h;
          h = h\<lparr>h_head := 0, h_tail := 0, h_window_tokens := 0, h_next_seq := 0\<rparr>
      in case hist_bpt_clear (h_bpt h) of
        None \<Rightarrow> None
      | Some t \<Rightarrow> Some (h\<lparr>h_bpt := t\<rparr>))"

section \<open>Search\<close>

text \<open>
  The search loop over the entries from index \<open>i\<close> on, with the size of the temporary buffer; \<open>mem i\<close> says
  whether growing the buffer for entry \<open>i\<close> succeeds, and the loop ends when it does not.
\<close>

function search_loop :: "(nat \<Rightarrow> bool) \<Rightarrow> history \<Rightarrow> bytes \<Rightarrow> nat \<Rightarrow> nat \<Rightarrow> nat \<Rightarrow> u32 list \<Rightarrow> u32 list" where
  "search_loop mem h keyword max_results i buf_size results =
     (if i < unat (h_head h - h_tail h) \<and> length results < max_results then
        let e = h_ring h (slot (h_tail h + of_nat i)) in
        if he_data e = Null then search_loop mem h keyword max_results (i + 1) buf_size results
        else if buf_size < unat (he_raw_len e + 1) \<and> \<not> mem i then results
        else
          let buf_size = (if buf_size < unat (he_raw_len e + 1) then unat (he_raw_len e + 1) else buf_size);
              hit = (strstr (entry_text e (buf_size - 1)) keyword \<noteq> None)
          in search_loop mem h keyword max_results (i + 1) buf_size (if hit then results @ [of_nat i] else results)
      else results)"
  by pat_completeness auto
termination
  by (relation "measure (\<lambda>(mem, h, keyword, max_results, i, buf_size, results). unat (h_head h - h_tail h) - i)") auto

declare search_loop.simps [simp del]

definition history_search :: "bool \<Rightarrow> (nat \<Rightarrow> bool) \<Rightarrow> history \<Rightarrow> bytes \<Rightarrow> nat \<Rightarrow> errno + u32 list" where
  "history_search mem0 mem h keyword max_results =
     (if \<not> mem0 then Inl ENOMEM else Inr (search_loop mem h keyword max_results 0 8192 []))"

section \<open>The serialised form\<close>

abbreviation HIST_SERIAL_MAGIC :: u32 where "HIST_SERIAL_MAGIC \<equiv> 0x48495354"
abbreviation HIST_SERIAL_MAGIC_V2 :: u32 where "HIST_SERIAL_MAGIC_V2 \<equiv> 0x32534948"

definition entry_bytes :: "hist_entry \<Rightarrow> bytes" where
  "entry_bytes e = le_bytes 8 (he_timestamp e) @ le_bytes 8 (he_seq e) @ [he_role e] @ le_bytes 4 (he_token_count e) @
     le_bytes 4 (he_raw_len e) @ le_bytes 4 (he_data_len e) @
     (case he_data e of Block d \<Rightarrow> if 0 < he_data_len e then take (unat (he_data_len e)) d else [] | _ \<Rightarrow> [])"

text \<open>The size needed when the buffer is too small, or the bytes written.\<close>

definition hist_entries :: "history \<Rightarrow> hist_entry list" where
  "hist_entries h = map (\<lambda>i. h_ring h (slot (h_tail h + of_nat i))) [0..<unat (h_head h - h_tail h)]"

definition history_serialize :: "history \<Rightarrow> nat \<Rightarrow> nat + bytes" where
  "history_serialize h sz =
     (let needed = 24 + sum_list (map (\<lambda>e. 29 + unat (he_data_len e)) (hist_entries h)) in
      if sz < needed then Inl needed
      else Inr (le_bytes 4 HIST_SERIAL_MAGIC_V2 @ le_bytes 4 (h_head h - h_tail h) @ le_bytes 4 (h_max_tokens h) @
                le_bytes 4 (h_window_tokens h) @ le_bytes 8 (h_next_seq h) @ concat (map entry_bytes (hist_entries h))))"

text \<open>
  Reading one entry from the rest of the buffer: leave the loop (both \<open>break\<close>s), go on with the rest, or
  get stuck in the index; \<open>mem\<close> says whether the block of the entry can be allocated (\<open>kmalloc(0)\<close> is null).
\<close>

datatype de_result = Break | Stuck | Next bytes history

definition de_entry :: "bool \<Rightarrow> bool \<Rightarrow> bytes \<Rightarrow> history \<Rightarrow> de_result" where
  "de_entry mem v2 p h =
     (let hdr = (if v2 then 29 else 21) in
      if length p < hdr then Break
      else
        let ts = le_word (take 8 p);
            seq = (if v2 then le_word (take 8 (drop 8 p)) else 0);
            q = drop (hdr - 13) p;
            role = q ! 0;
            tok_cnt = le_word (take 4 (drop 1 q));
            raw_len = le_word (take 4 (drop 5 q));
            data_len = (le_word (take 4 (drop 9 q)) :: u32);
            q = drop 13 q
        in if length q < unat data_len then Break
           else
             let idx = slot (h_head h);
                 h = entry_free idx h;
                 sq = (if v2 then seq else h_next_seq h);
                 h = (if v2 then h else h\<lparr>h_next_seq := h_next_seq h + 1\<rparr>);
                 data = (if data_len = 0 \<or> \<not> mem then Null else Block (take (unat data_len) q));
                 e = (h_ring h idx)\<lparr>he_timestamp := ts, he_seq := sq, he_role := role, he_token_count := tok_cnt,
                       he_raw_len := raw_len, he_data_len := data_len, he_data := data\<rparr>;
                 h = h\<lparr>h_ring := (h_ring h)(idx := e), h_head := h_head h + 1, h_window_tokens := h_window_tokens h + tok_cnt\<rparr>
             in case hist_bpt_insert sq (of_nat idx) (h_bpt h) of
               None \<Rightarrow> Stuck
             | Some (r, t) \<Rightarrow> Next (drop (unat data_len) q) (h\<lparr>h_bpt := t\<rparr>))"

primrec de_loop :: "(nat \<Rightarrow> bool) \<Rightarrow> bool \<Rightarrow> nat \<Rightarrow> bytes \<Rightarrow> history \<Rightarrow> history option" where
  "de_loop mem v2 0 p h = Some h"
| "de_loop mem v2 (Suc n) p h =
     (case de_entry (mem n) v2 p h of
        Break \<Rightarrow> Some h
      | Stuck \<Rightarrow> None
      | Next p h \<Rightarrow> de_loop mem v2 n p h)"

definition history_deserialize :: "(nat \<Rightarrow> bool) \<Rightarrow> bytes \<Rightarrow> history \<Rightarrow> ((errno + unit) \<times> history) option" where
  "history_deserialize mem buf h =
     (if length buf < 16 then Some (Inl EINVAL, h)
      else
        let magic = le_word (take 4 buf);
            v2 = (magic = HIST_SERIAL_MAGIC_V2)
        in if magic \<noteq> HIST_SERIAL_MAGIC \<and> \<not> v2 then Some (Inl EINVAL, h)
           else
             let count = (le_word (take 4 (drop 4 buf)) :: u32);
                 max_tok = le_word (take 4 (drop 8 buf))
             in case history_clear h of
               None \<Rightarrow> None
             | Some h \<Rightarrow>
                 let h = h\<lparr>h_max_tokens := max_tok\<rparr>;
                     p = drop 16 buf
                 in if v2 \<and> length p < 8 then Some (Inl EINVAL, h)
                    else
                      let h = (if v2 then h\<lparr>h_next_seq := le_word (take 8 p)\<rparr> else h);
                          p = (if v2 then drop 8 p else p)
                      in case de_loop mem v2 (unat count) p h of
                        None \<Rightarrow> None
                      | Some h \<Rightarrow> Some (Inr (), h))"

section \<open>The entries in the ring\<close>

lemma slot_unat: "slot i = unat i mod 4096"
  by (simp add: slot_def unat_mod)

lemma slot_add: "slot (t + of_nat i) = (unat t + i) mod 4096"
proof -
  have "unat (t + of_nat i) mod 4096 = (unat t + i) mod 2 ^ 32 mod 4096"
    by (simp add: unat_word_ariths unat_of_nat take_bit_eq_mod mod_simps)
  also have "\<dots> = (unat t + i) mod 4096" by (rule mod_mod_cancel) (simp add: dvd_def)
  finally show ?thesis by (simp add: slot_unat)
qed

definition hist_len :: "history \<Rightarrow> nat" where
  "hist_len h = unat (h_head h - h_tail h)"

lemma hist_entries_view: "hist_entries h = ring_view 4096 (h_ring h) (unat (h_tail h)) (hist_len h)"
  by (simp add: hist_entries_def hist_len_def ring_view_def slot_add)

lemma length_hist_entries [simp]: "length (hist_entries h) = hist_len h"
  by (simp add: hist_entries_view)

text \<open>The counters are in order, the ring is not overfull, and the window is the sum of the entries' tokens.\<close>

definition hist_wf :: "history \<Rightarrow> bool" where
  "hist_wf h \<longleftrightarrow> h_tail h \<le> h_head h \<and> hist_len h \<le> 4096 \<and>
     h_window_tokens h = sum_list (map he_token_count (hist_entries h))"

lemma hist_len_diff: "h_tail h \<le> h_head h \<Longrightarrow> hist_len h = unat (h_head h) - unat (h_tail h)"
  by (simp add: hist_len_def unat_sub)

lemma evict_oldest_spec:
  assumes wf: "hist_wf h" and ne: "h_head h \<noteq> h_tail h"
  shows "hist_wf (evict_oldest h)" "hist_entries (evict_oldest h) = tl (hist_entries h)"
    "h_tail (evict_oldest h) = h_tail h + 1" "hist_len (evict_oldest h) = hist_len h - 1"
proof -
  let ?h = "evict_oldest h"
  have le: "h_tail h < h_head h" using wf ne by (auto simp: hist_wf_def)
  then have "unat (h_tail h) + 1 < 2 ^ 32" using unat32_less [of "h_head h"] by (simp add: word_less_nat_alt)
  then have "unat (h_tail h + 1) = unat (h_tail h) + 1" by (simp add: unat_word_ariths)
  then have tail: "h_tail ?h = h_tail h + 1" "unat (h_tail ?h) = unat (h_tail h) + 1"
    using ne by (simp_all add: evict_oldest_def entry_free_def Let_def)
  have len: "hist_len h = Suc (hist_len ?h)"
    using evict_measure [OF ne] tail le by (simp add: hist_len_def unat_sub word_le_nat_alt word_less_nat_alt)
  define x where "x = (h_ring h (slot (h_tail h)))\<lparr>he_data := Null, he_data_len := 0, he_raw_len := 0, he_token_count := 0\<rparr>"
  have "h_ring ?h = (h_ring h)(unat (h_tail h) mod 4096 := x)"
    using ne by (simp add: evict_oldest_def entry_free_def Let_def x_def slot_unat)
  then show ent: "hist_entries ?h = tl (hist_entries h)"
    using ring_view_pop [of "hist_len ?h" 4096 "h_ring h" "unat (h_tail h)" x] wf len tail(2)
    by (simp add: hist_entries_view hist_wf_def)
  have "hd (hist_entries h) = h_ring h (slot (h_tail h))" "hist_entries h \<noteq> []"
    using len by (simp_all add: hist_entries_view ring_view_def slot_unat upt_conv_Cons del: upt_Suc)
  then have "h_window_tokens h = he_token_count (h_ring h (slot (h_tail h))) + sum_list (map he_token_count (tl (hist_entries h)))"
    using wf by (cases "hist_entries h") (auto simp: hist_wf_def)
  then have "h_window_tokens ?h = sum_list (map he_token_count (tl (hist_entries h)))"
    using ne by (simp add: evict_oldest_def entry_free_def Let_def)
  then show "hist_wf ?h"
    using wf len le tail ent by (simp add: hist_wf_def word_le_nat_alt word_less_nat_alt)
  show "h_tail ?h = h_tail h + 1" "hist_len ?h = hist_len h - 1" using tail(1) len by simp_all
qed

text \<open>What an eviction loop leaves: a suffix of the entries.\<close>

definition evicted :: "history \<Rightarrow> history \<Rightarrow> bool" where
  "evicted h h' \<longleftrightarrow> hist_wf h' \<and> (\<exists>k. hist_entries h' = drop k (hist_entries h)) \<and> h_head h' = h_head h \<and>
     h_max_tokens h' = h_max_tokens h \<and> h_next_seq h' = h_next_seq h \<and> h_bpt h' = h_bpt h"

lemma evicted_refl: "hist_wf h \<Longrightarrow> evicted h h"
  by (auto simp: evicted_def intro: exI [of _ 0])

lemma evicted_step:
  assumes "hist_wf h" "h_head h \<noteq> h_tail h" "evicted (evict_oldest h) h'"
  shows "evicted h h'"
proof -
  obtain k where "hist_entries h' = drop k (tl (hist_entries h))"
    using assms(3) evict_oldest_spec(2) [OF assms(1,2)] by (auto simp: evicted_def)
  then have "hist_entries h' = drop (Suc k) (hist_entries h)" by (simp add: drop_Suc)
  with assms(3) show ?thesis by (auto simp: evicted_def simp del: drop_Suc)
qed

lemma evicted_trans: "evicted h h0 \<Longrightarrow> evicted h0 h1 \<Longrightarrow> evicted h h1"
  by (auto simp: evicted_def)

lemma evict_full_spec:
  assumes "hist_wf h"
  shows "evicted h (snd (evict_full (d, h))) \<and> hist_len (snd (evict_full (d, h))) < 4096 \<and> (hist_len h < 4096 \<longrightarrow> evict_full (d, h) = (d, h))"
  using assms
proof (induction "(d, h)" arbitrary: d h rule: evict_full.induct)
  case (1 d h)
  have full: "HIST_RING_SIZE \<le> h_head h - h_tail h \<longleftrightarrow> 4096 \<le> hist_len h"
    by (simp add: hist_len_def word_le_nat_alt)
  show ?case
  proof (cases "4096 \<le> hist_len h")
    case True
    then have ne: "h_head h \<noteq> h_tail h" by (auto simp: hist_len_def)
    have step: "evict_full (d, h) = evict_full (True, evict_oldest h)" using True full by (subst evict_full.simps) simp
    have "evicted (evict_oldest h) (snd (evict_full (True, evict_oldest h)))" "hist_len (snd (evict_full (True, evict_oldest h))) < 4096"
      using "1.hyps" True full evict_oldest_spec(1) [OF "1.prems" ne] by auto
    then show ?thesis using step True evicted_step [OF "1.prems" ne] by simp
  next
    case False
    then have "evict_full (d, h) = (d, h)" using full by (subst evict_full.simps) simp
    then show ?thesis using False evicted_refl [OF "1.prems"] by simp
  qed
qed

lemma evict_window_spec:
  assumes "hist_wf h"
  shows "evicted h (snd (evict_window tok (d, h))) \<and>
     (h_window_tokens (snd (evict_window tok (d, h))) + tok \<le> h_max_tokens h \<or> hist_entries (snd (evict_window tok (d, h))) = []) \<and>
     (h_window_tokens h + tok \<le> h_max_tokens h \<longrightarrow> evict_window tok (d, h) = (d, h))"
  using assms
proof (induction tok "(d, h)" arbitrary: d h rule: evict_window.induct)
  case (1 tok d h)
  show ?case
  proof (cases "h_max_tokens h < h_window_tokens h + tok \<and> h_tail h < h_head h")
    case True
    then have ne: "h_head h \<noteq> h_tail h" by auto
    have step: "evict_window tok (d, h) = evict_window tok (True, evict_oldest h)" using True by (subst evict_window.simps) simp
    then show ?thesis
      using "1.hyps" [OF True evict_oldest_spec(1) [OF "1.prems" ne]] evicted_step [OF "1.prems" ne] True by auto
  next
    case False
    have "evict_window tok (d, h) = (d, h)" using False by (subst evict_window.simps) auto
    moreover have "hist_entries h = []" if "\<not> h_tail h < h_head h"
    proof -
      have "h_head h = h_tail h" using that "1.prems" unfolding hist_wf_def by auto
      then show ?thesis by (simp add: hist_entries_def)
    qed
    ultimately show ?thesis using False evicted_refl [OF "1.prems"] by auto
  qed
qed

lemma evict_len: "evicted h h' \<Longrightarrow> hist_len h' \<le> hist_len h"
  by (metis evicted_def diff_le_self length_drop length_hist_entries)

text \<open>Both loops in a row, as \<open>history_push\<close> runs them.\<close>

lemma evict_both:
  assumes wf: "hist_wf h" and ev: "evict_window tok (evict_full (False, h)) = (dirty, h1)"
  shows "evicted h h1" "hist_len h1 < 4096" "h_window_tokens h1 + tok \<le> h_max_tokens h \<or> hist_entries h1 = []"
    "hist_len h < 4096 \<Longrightarrow> h_window_tokens h + tok \<le> h_max_tokens h \<Longrightarrow> \<not> dirty \<and> h1 = h"
proof -
  obtain d0 h0 where f: "evict_full (False, h) = (d0, h0)" by fastforce
  note F = evict_full_spec [OF wf, of False, unfolded f]
  have wf0: "hist_wf h0" using F by (simp add: evicted_def)
  note W = evict_window_spec [OF wf0, of tok d0, unfolded ev [unfolded f]]
  show "evicted h h1" using F W by (auto intro: evicted_trans)
  show "hist_len h1 < 4096" using F W evict_len [of h0 h1] by simp
  show "h_window_tokens h1 + tok \<le> h_max_tokens h \<or> hist_entries h1 = []" using F W by (simp add: evicted_def)
  show "\<not> dirty \<and> h1 = h" if "hist_len h < 4096" "h_window_tokens h + tok \<le> h_max_tokens h"
    using F W that by simp
qed

section \<open>Pushing an entry\<close>

text \<open>The entry that \<open>history_push\<close> stores.\<close>

definition new_entry :: "u64 \<Rightarrow> u64 \<Rightarrow> u8 \<Rightarrow> bytes \<Rightarrow> hist_entry" where
  "new_entry now seq role text =
     (let comp = stored_bytes (cval text)
      in \<lparr>he_timestamp = now, he_seq = seq, he_role = role, he_token_count = estimate_tokens text,
          he_data = (if length comp = 0 then Dangling else Block comp),
          he_data_len = of_nat (length comp), he_raw_len = of_nat (length (cval text))\<rparr>)"

lemma append_entry:
  assumes wf: "hist_wf h" and room: "hist_len h < 4096" and top: "h_head h \<noteq> UINT32_MAX"
    and h': "h_ring h' = (h_ring h)(slot (h_head h) := e)" "h_head h' = h_head h + 1" "h_tail h' = h_tail h"
      "h_window_tokens h' = h_window_tokens h + he_token_count e"
  shows "hist_wf h'" "hist_entries h' = hist_entries h @ [e]" "hist_len h' = Suc (hist_len h)"
proof -
  have "1 + h_head h \<noteq> 0" using top by (metis add.commute eq_neg_iff_add_eq_0)
  then have hd: "unat (h_head h') = unat (h_head h) + 1" using unatSuc [of "h_head h"] h'(2) by (simp add: add.commute)
  have le: "h_tail h \<le> h_head h" using wf by (simp add: hist_wf_def)
  then have le': "h_tail h' \<le> h_head h'" using hd h'(3) by (simp add: word_le_nat_alt)
  show len: "hist_len h' = Suc (hist_len h)"
    using hist_len_diff [OF le] hist_len_diff [OF le'] hd h'(3) le by (simp add: word_le_nat_alt)
  have slot: "slot (h_head h) = (unat (h_tail h) + hist_len h) mod 4096"
    using hist_len_diff [OF le] le by (simp add: slot_unat word_le_nat_alt)
  show ent: "hist_entries h' = hist_entries h @ [e]"
    using ring_view_append [OF room, of "h_ring h" "unat (h_tail h)" e] by (simp add: hist_entries_view h' len slot)
  show "hist_wf h'" using le' len room ent h'(4) wf by (simp add: hist_wf_def)
qed

lemma push_step:
  assumes "history_push now True role text h = Some (r, h')"
  shows "\<exists>dirty h1 t. evict_window (estimate_tokens text) (evict_full (False, h)) = (dirty, h1) \<and> r = Inr () \<and>
     h_ring h' = (h_ring h1)(slot (h_head h1) := new_entry now (h_next_seq h1) role text) \<and>
     h_head h' = h_head h1 + 1 \<and> h_tail h' = h_tail h1 \<and> h_window_tokens h' = h_window_tokens h1 + estimate_tokens text \<and>
     h_next_seq h' = h_next_seq h1 + 1 \<and> h_max_tokens h' = h_max_tokens h1 \<and> h_bpt h' = t"
proof -
  obtain dirty h1 where ev: "evict_window (estimate_tokens text) (evict_full (False, h)) = (dirty, h1)" by fastforce
  show ?thesis
    using assms unfolding history_push_def Let_def ev
    by (auto simp: ev entry_free_def new_entry_def Let_def intro!: hist_entry.equality ext split: option.splits)
qed

lemma push_entries:
  assumes wf: "hist_wf h" and top: "h_head h \<noteq> UINT32_MAX" and push: "history_push now True role text h = Some (r, h')"
  shows "r = Inr () \<and> hist_wf h' \<and> (\<exists>k. hist_entries h' = drop k (hist_entries h) @ [new_entry now (h_next_seq h) role text]) \<and>
     (h_window_tokens h' \<le> h_max_tokens h' \<or> hist_len h' = 1) \<and> h_max_tokens h' = h_max_tokens h \<and> h_next_seq h' = h_next_seq h + 1"
proof -
  obtain dirty h1 t where ev: "evict_window (estimate_tokens text) (evict_full (False, h)) = (dirty, h1)" and r: "r = Inr ()"
    and h': "h_ring h' = (h_ring h1)(slot (h_head h1) := new_entry now (h_next_seq h1) role text)"
      "h_head h' = h_head h1 + 1" "h_tail h' = h_tail h1" "h_window_tokens h' = h_window_tokens h1 + estimate_tokens text"
      "h_next_seq h' = h_next_seq h1 + 1" "h_max_tokens h' = h_max_tokens h1"
    using push_step [OF push] by blast
  note e = evict_both [OF wf ev]
  have wf1: "hist_wf h1" and hd1: "h_head h1 = h_head h" "h_next_seq h1 = h_next_seq h" "h_max_tokens h1 = h_max_tokens h"
    using e(1) by (simp_all add: evicted_def)
  have "he_token_count (new_entry now (h_next_seq h1) role text) = estimate_tokens text" by (simp add: new_entry_def Let_def)
  then have ent: "hist_entries h' = hist_entries h1 @ [new_entry now (h_next_seq h1) role text]" and len: "hist_len h' = Suc (hist_len h1)"
    and "hist_wf h'"
    using append_entry [OF wf1 e(2), of h' "new_entry now (h_next_seq h1) role text"] h' hd1 top by simp_all
  moreover have "h_window_tokens h' \<le> h_max_tokens h' \<or> hist_len h' = 1"
    using e(3) h'(4,6) len hd1 by (metis One_nat_def length_hist_entries list.size(3))
  ultimately show ?thesis using r ent e(1) h'(5,6) hd1 by (auto simp: evicted_def)
qed

section \<open>The index returns\<close>

lemma rebuild_loop_ok:
  assumes "bp_within t b" "length js * (b + length js + 1) \<le> bp_avail t"
  shows "\<exists>t'. rebuild_loop h js t = Some t' \<and> bp_within t' (b + length js) \<and> bp_avail t \<le> bp_avail t' + length js * (b + length js + 1)"
  using assms
proof (induction h js t arbitrary: b rule: rebuild_loop.induct)
  case (2 h i js t)
  define n where "n = length js"
  have big: "b + 2 + n * (b + 1 + n + 1) \<le> bp_avail t" "n * (b + n + 1) \<le> n * (b + 1 + n + 1)"
    "n * (b + 1 + n + 1) + b + 2 \<le> Suc n * (b + Suc n + 1)"
    using "2.prems"(2) by (simp_all add: n_def [symmetric] algebra_simps)
  let ?s = "slot (h_tail h + of_nat i)"
  show ?case
  proof (cases "he_data (h_ring h ?s) = Null")
    case True
    then obtain t' where "rebuild_loop h js t = Some t'" "bp_within t' (b + n)" "bp_avail t \<le> bp_avail t' + n * (b + n + 1)"
      using "2.IH"(2) [OF refl refl _ "2.prems"(1)] big n_def by force
    then show ?thesis using True big bp_within_mono [of t' "b + n" "b + Suc n"] by (auto simp: Let_def n_def [symmetric])
  next
    case False
    obtain r t1 where ins: "hist_bpt_insert (he_seq (h_ring h ?s)) (of_nat ?s) t = Some (r, t1)" and "inserted t (b + 2) (b + 1) (r, t1)"
      using insert_ok [OF "2.prems"(1)] by fast
    then have t1: "bp_within t1 (b + 1)" "bp_avail t \<le> bp_avail t1 + (b + 2)" using big by (auto simp: inserted_def)
    then obtain t' where "rebuild_loop h js t1 = Some t'" "bp_within t' (b + 1 + n)" "bp_avail t1 \<le> bp_avail t' + n * (b + 1 + n + 1)"
      using "2.IH"(1) [OF refl refl False ins refl t1(1)] big n_def by force
    then show ?thesis using False ins t1(2) big by (auto simp: Let_def n_def [symmetric])
  qed
qed simp

lemma rebuild_ok:
  assumes "bp_within (h_bpt h) b" "hist_len h * (hist_len h + 1) \<le> bp_avail (h_bpt h)"
  shows "\<exists>t. hist_bpt_rebuild h = Some t \<and> bp_within t (hist_len h)"
proof -
  obtain t where "hist_bpt_clear (h_bpt h) = Some t" "bp_within t 0" "bp_avail (h_bpt h) \<le> bp_avail t"
    using clear_ok [OF assms(1)] by blast
  then show ?thesis
    using rebuild_loop_ok [of t 0 "[0..<hist_len h]" h] assms(2) by (auto simp: hist_bpt_rebuild_def hist_len_def)
qed

text \<open>The index is well formed and there are nodes for rebuilding it over a full ring.\<close>

definition index_ready :: "history \<Rightarrow> bool" where
  "index_ready h \<longleftrightarrow> bp_within (h_bpt h) 4096 \<and> 4096 * 4097 \<le> bp_avail (h_bpt h)"

lemma index_rebuilds:
  assumes "index_ready h" "h_bpt h1 = h_bpt h" "hist_len h1 \<le> 4096"
  shows "\<exists>t. hist_bpt_rebuild h1 = Some t \<and> bp_within t (hist_len h1)"
proof -
  have "hist_len h1 * (hist_len h1 + 1) \<le> 4096 * 4097" using assms(3) by (intro mult_mono) auto
  then show ?thesis using assms by (intro rebuild_ok) (auto simp: index_ready_def)
qed

lemma push_returns:
  assumes wf: "hist_wf h" and ix: "index_ready h"
  shows "\<exists>rh. history_push now True role text h = Some rh"
proof -
  obtain dirty h1 where ev: "evict_window (estimate_tokens text) (evict_full (False, h)) = (dirty, h1)" by fastforce
  note e = evict_both [OF wf ev]
  have bpt: "h_bpt h1 = h_bpt h" using e(1) by (simp add: evicted_def)
  obtain t where t: "(if dirty then hist_bpt_rebuild h1 else Some (h_bpt h1)) = Some t" "bp_within t 4096"
    using index_rebuilds [OF ix bpt] e(2) ix bpt bp_within_mono [of _ "hist_len h1" 4096]
    by (cases dirty) (auto simp: index_ready_def less_imp_le)
  have "\<exists>rt. hist_bpt_insert s i t = Some rt" for s i using insert_ok [OF t(2)] by blast
  then show ?thesis using t(1) by (force simp: history_push_def Let_def ev entry_free_def split: option.splits)
qed

section \<open>Reading back a pushed entry\<close>

lemma stored_bytes_compress:
  assumes "raw \<noteq> []" "length raw \<le> LZ4_MAX_INPUT_SIZE"
  shows "lz4_compress raw (length raw + length raw div 255 + 16) = Some (stored_bytes raw)"
    "0 < length (stored_bytes raw)" "length (stored_bytes raw) < 2 ^ 32" "length raw < 2 ^ 32"
proof -
  obtain c where c: "lz4_compress raw (length raw + length raw div 255 + 16) = Some c" "0 < length c"
    "length c \<le> length raw + length raw div 255 + 16"
    using lz4_compress_within [OF assms order_refl] by blast
  then show "lz4_compress raw (length raw + length raw div 255 + 16) = Some (stored_bytes raw)" "0 < length (stored_bytes raw)"
    by (auto simp: stored_bytes_def)
  have "length raw div 255 \<le> length raw" by simp
  then show "length (stored_bytes raw) < 2 ^ 32" "length raw < 2 ^ 32"
    using c assms(2) by (simp_all add: stored_bytes_def)
qed

lemma new_entry_text:
  assumes "cval text \<noteq> []" "length (cval text) \<le> LZ4_MAX_INPUT_SIZE" "length (cval text) \<le> cap"
  shows "entry_text (new_entry now seq role text) cap =
     (if lz4_self_match (cval text) then take cap (stored_bytes (cval text)) else cval text)"
proof -
  note st = stored_bytes_compress [OF assms(1,2)]
  have "unat (of_nat (length (cval text)) :: u32) = length (cval text)"
    "unat (of_nat (length (stored_bytes (cval text))) :: u32) = length (stored_bytes (cval text))"
    using st by (simp_all add: unat_of_nat take_bit_nat_eq_self)
  moreover have "lz4_decompress (stored_bytes (cval text)) (length (cval text)) = (if lz4_self_match (cval text) then None else Some (cval text))"
    by (rule lz4_decompress_compress [OF st(1) order_refl])
  ultimately show ?thesis
    using st(2) assms by (simp add: entry_text_def new_entry_def Let_def min_def)
qed

lemma get_entry:
  assumes "i < hist_len h" "he_data (hist_entries h ! i) \<noteq> Null" "he_data_len (hist_entries h ! i) \<noteq> 0" "buf_size \<noteq> 0"
  shows "history_get h (of_nat i) buf_size = Inr (entry_text (hist_entries h ! i) (unat buf_size - 1))"
proof -
  have "unat (h_head h - h_tail h) < 2 ^ 32" by (rule unat32_less)
  then have "unat (of_nat i :: u32) = i" using assms(1) by (simp add: hist_len_def unat_of_nat take_bit_nat_eq_self)
  then have "\<not> h_head h - h_tail h \<le> of_nat i" using assms(1) by (simp add: word_le_nat_alt hist_len_def)
  moreover have "hist_entries h ! i = h_ring h (slot (h_tail h + of_nat i))"
    using assms(1) by (simp add: hist_entries_def hist_len_def)
  ultimately show ?thesis using assms(2-4) by (simp add: history_get_def)
qed

section \<open>Entries in a buffer\<close>

text \<open>An entry whose block is all there.\<close>

definition storable :: "hist_entry \<Rightarrow> bool" where
  "storable e \<longleftrightarrow> (\<exists>d. he_data e = Block d \<and> length d = unat (he_data_len e) \<and> d \<noteq> [])"

lemma de_entry_next:
  assumes st: "storable e" and wf: "hist_wf h" and room: "hist_len h < 4096" and top: "h_head h \<noteq> UINT32_MAX"
    and ix: "bp_within (h_bpt h) b" "b + 2 \<le> bp_avail (h_bpt h)"
  shows "\<exists>h'. de_entry True True (entry_bytes e @ rest) h = Next rest h' \<and> hist_wf h' \<and> hist_entries h' = hist_entries h @ [e] \<and>
     h_head h' = h_head h + 1 \<and> h_next_seq h' = h_next_seq h \<and> h_max_tokens h' = h_max_tokens h \<and>
     bp_within (h_bpt h') (b + 1) \<and> bp_avail (h_bpt h) \<le> bp_avail (h_bpt h') + b + 2"
proof -
  obtain d where d: "he_data e = Block d" "length d = unat (he_data_len e)" "d \<noteq> []" using st by (auto simp: storable_def)
  then have dl: "he_data_len e \<noteq> 0" by auto
  have bytes: "entry_bytes e @ rest = le_bytes 8 (he_timestamp e) @ le_bytes 8 (he_seq e) @ he_role e # le_bytes 4 (he_token_count e) @
     le_bytes 4 (he_raw_len e) @ le_bytes 4 (he_data_len e) @ d @ rest"
    using d dl by (simp add: entry_bytes_def word_neq_0_conv)
  obtain r t where ins: "hist_bpt_insert (he_seq e) (of_nat (slot (h_head h))) (h_bpt h) = Some (r, t)" and "inserted (h_bpt h) (b + 2) (b + 1) (r, t)"
    using insert_ok [OF ix(1)] by fast
  then have t: "bp_within t (b + 1)" "bp_avail (h_bpt h) \<le> bp_avail t + b + 2" using ix(2) by (auto simp: inserted_def)
  define h' where "h' = (entry_free (slot (h_head h)) h)\<lparr>h_ring := (h_ring h)(slot (h_head h) := e), h_head := h_head h + 1,
     h_window_tokens := h_window_tokens h + he_token_count e, h_bpt := t\<rparr>"
  have "de_entry True True (entry_bytes e @ rest) h = Next rest h'"
    unfolding bytes de_entry_def Let_def
    using d dl ins by (auto simp: h'_def entry_free_def intro!: history.equality hist_entry.equality)
  moreover have "hist_wf h'" "hist_entries h' = hist_entries h @ [e]"
    by (rule append_entry [OF wf room top]; simp add: h'_def entry_free_def)+
  ultimately show ?thesis using t by (simp add: h'_def entry_free_def)
qed

lemma de_loop_entries:
  assumes "\<forall>e \<in> set es. storable e" "hist_wf h" "hist_len h + length es \<le> 4096" "unat (h_head h) + length es < 2 ^ 32"
    "bp_within (h_bpt h) b" "length es * (b + length es + 1) \<le> bp_avail (h_bpt h)"
  shows "\<exists>h'. de_loop (\<lambda>_. True) True (length es) (concat (map entry_bytes es)) h = Some h' \<and> hist_wf h' \<and>
     hist_entries h' = hist_entries h @ es \<and> h_next_seq h' = h_next_seq h \<and> h_max_tokens h' = h_max_tokens h"
  using assms
proof (induction es arbitrary: h b)
  case (Cons e es)
  define n where "n = length es"
  have big: "b + 2 + n * (b + 1 + n + 1) \<le> bp_avail (h_bpt h)"
    using Cons.prems(6) by (simp add: n_def [symmetric] algebra_simps)
  have "h_head h \<noteq> UINT32_MAX" using Cons.prems(4) by (auto simp: unsigned_minus_1_eq_mask mask_eq_exp_minus_1)
  then obtain h1 where h1: "de_entry True True (entry_bytes e @ concat (map entry_bytes es)) h = Next (concat (map entry_bytes es)) h1"
    "hist_wf h1" "hist_entries h1 = hist_entries h @ [e]" "h_head h1 = h_head h + 1" "h_next_seq h1 = h_next_seq h" "h_max_tokens h1 = h_max_tokens h"
    "bp_within (h_bpt h1) (b + 1)" "bp_avail (h_bpt h) \<le> bp_avail (h_bpt h1) + b + 2"
    using de_entry_next [of e h b "concat (map entry_bytes es)"] Cons.prems big by auto
  have "unat (h_head h1) = unat (h_head h) + 1" using h1(4) Cons.prems(4) by (simp add: unat_word_ariths)
  moreover have "hist_len h1 = hist_len h + 1" using h1(3) by (metis length_append_singleton length_hist_entries Suc_eq_plus1)
  ultimately have "\<exists>h'. de_loop (\<lambda>_. True) True (length es) (concat (map entry_bytes es)) h1 = Some h' \<and> hist_wf h' \<and>
     hist_entries h' = hist_entries h1 @ es \<and> h_next_seq h' = h_next_seq h1 \<and> h_max_tokens h' = h_max_tokens h1"
    using Cons.prems(1,3,4) h1 big by (intro Cons.IH [where b = "b + 1"]) (auto simp: n_def)
  then show ?case using h1 by auto
qed simp

lemma clear_loop_bpt: "h_bpt (clear_loop h) = h_bpt h"
proof (induction h rule: clear_loop.induct)
  case (1 h)
  then show ?case by (subst clear_loop.simps) simp
qed

lemma clear_returns:
  assumes "bp_within (h_bpt h) b"
  shows "\<exists>h'. history_clear h = Some h' \<and> hist_wf h' \<and> hist_entries h' = [] \<and> h_head h' = 0 \<and> hist_len h' = 0 \<and>
     bp_within (h_bpt h') 0 \<and> bp_avail (h_bpt h) \<le> bp_avail (h_bpt h')"
proof -
  obtain t where t: "hist_bpt_clear (h_bpt h) = Some t" "bp_within t 0" "bp_avail (h_bpt h) \<le> bp_avail t"
    using clear_ok [OF assms] by blast
  then show ?thesis
    by (simp add: history_clear_def Let_def clear_loop_bpt hist_wf_def hist_len_def hist_entries_def)
qed

lemma deserialize_serialized:
  assumes "hist_wf h" "\<forall>e \<in> set (hist_entries h). storable e" "history_serialize h sz = Inr buf" "index_ready h0"
  shows "\<exists>h'. history_deserialize (\<lambda>_. True) buf h0 = Some (Inr (), h') \<and> hist_wf h' \<and> hist_entries h' = hist_entries h \<and>
     h_next_seq h' = h_next_seq h \<and> h_max_tokens h' = h_max_tokens h"
proof -
  define p where "p = concat (map entry_bytes (hist_entries h))"
  have buf: "buf = le_bytes 4 HIST_SERIAL_MAGIC_V2 @ le_bytes 4 (h_head h - h_tail h) @ le_bytes 4 (h_max_tokens h) @
      le_bytes 4 (h_window_tokens h) @ le_bytes 8 (h_next_seq h) @ p"
    using assms(3) by (auto simp: history_serialize_def Let_def p_def split: if_splits)
  obtain h1 where h1: "history_clear h0 = Some h1" "hist_wf h1" "hist_entries h1 = []" "h_head h1 = 0" "hist_len h1 = 0"
    "bp_within (h_bpt h1) 0" "4096 * 4097 \<le> bp_avail (h_bpt h1)"
    using clear_returns [of h0 4096] assms(4) by (auto simp: index_ready_def)
  define h2 where "h2 = h1\<lparr>h_max_tokens := h_max_tokens h, h_next_seq := h_next_seq h\<rparr>"
  have n: "hist_len h \<le> 4096" using assms(1) by (simp add: hist_wf_def)
  then have mem: "hist_len h * (0 + hist_len h + 1) \<le> 4096 * 4097" by (intro mult_mono) auto
  have "hist_wf h2" "hist_entries h2 = []" "hist_len h2 = 0" "h_head h2 = 0" "h_bpt h2 = h_bpt h1"
    using h1 by (simp_all add: h2_def hist_wf_def hist_entries_def hist_len_def)
  then obtain h' where "de_loop (\<lambda>_. True) True (hist_len h) p h2 = Some h'" "hist_wf h'" "hist_entries h' = hist_entries h"
    "h_next_seq h' = h_next_seq h" "h_max_tokens h' = h_max_tokens h"
    using de_loop_entries [OF assms(2), of h2 0] n h1(6,7) mem by (auto simp: p_def h2_def)
  moreover have "history_deserialize (\<lambda>_. True) buf h0 =
      (case de_loop (\<lambda>_. True) True (hist_len h) p h2 of None \<Rightarrow> None | Some h \<Rightarrow> Some (Inr (), h))"
    unfolding buf history_deserialize_def Let_def using h1(1) by (simp add: h2_def hist_len_def)
  ultimately show ?thesis by simp
qed

section \<open>Truncation\<close>

lemma drop_newest_spec:
  assumes wf: "hist_wf h" and ne: "h_tail h < h_head h"
  shows "hist_wf (drop_newest h)" "hist_entries (drop_newest h) = butlast (hist_entries h)" "hist_len h = Suc (hist_len (drop_newest h))"
    "h_bpt (drop_newest h) = h_bpt h" "h_tail (drop_newest h) = h_tail h"
proof -
  let ?h = "drop_newest h"
  have "h_head h \<noteq> 0" using ne by auto
  then have hd: "unat (h_head ?h) = unat (h_head h) - 1" "h_tail ?h = h_tail h"
    by (simp_all add: drop_newest_def entry_free_def Let_def unat_minus_one)
  have le: "h_tail h \<le> h_head h" "h_tail ?h \<le> h_head ?h" using ne hd by (simp_all add: word_le_nat_alt word_less_nat_alt)
  show len: "hist_len h = Suc (hist_len ?h)"
    using hist_len_diff [OF le(1)] hist_len_diff [OF le(2)] hd ne by (simp add: word_less_nat_alt)
  have "unat (h_tail h) + hist_len ?h = unat (h_head h) - 1"
    using hist_len_diff [OF le(2)] hd ne by (simp add: word_less_nat_alt)
  then have sl: "slot (h_head h - 1) = (unat (h_tail h) + hist_len ?h) mod 4096"
    using \<open>h_head h \<noteq> 0\<close> by (simp add: slot_unat unat_minus_one)
  have cap: "hist_len ?h < 4096" using wf len by (simp add: hist_wf_def)
  have "h_ring ?h = (h_ring h)(slot (h_head h - 1) := zero_entry)"
    by (simp add: drop_newest_def entry_free_def Let_def)
  then show ent: "hist_entries ?h = butlast (hist_entries h)"
    using ring_view_unpush [OF cap, of "h_ring h" "unat (h_tail h)" zero_entry] hd(2) by (simp add: hist_entries_view len sl)
  have "hist_entries h = butlast (hist_entries h) @ [h_ring h (slot (h_head h - 1))]"
    by (simp add: hist_entries_view ring_view_def len sl)
  from arg_cong [OF this, of "\<lambda>es. sum_list (map he_token_count es)"]
  have "h_window_tokens h = sum_list (map he_token_count (butlast (hist_entries h))) + he_token_count (h_ring h (slot (h_head h - 1)))"
    using wf by (simp add: hist_wf_def)
  then have "h_window_tokens ?h = sum_list (map he_token_count (butlast (hist_entries h)))"
    by (simp add: drop_newest_def entry_free_def Let_def)
  then show "hist_wf ?h" using le(2) cap ent by (simp add: hist_wf_def)
  show "h_bpt ?h = h_bpt h" "h_tail ?h = h_tail h" by (simp_all add: drop_newest_def entry_free_def Let_def)
qed

lemma drop_loop_spec:
  "hist_wf h \<Longrightarrow> n \<le> hist_len h \<Longrightarrow>
   hist_wf (drop_loop n h) \<and> hist_entries (drop_loop n h) = take (hist_len h - n) (hist_entries h) \<and> h_bpt (drop_loop n h) = h_bpt h"
proof (induction n arbitrary: h)
  case (Suc n)
  have "h_tail h \<le> h_head h" "hist_len h \<noteq> 0" using Suc.prems by (auto simp: hist_wf_def)
  then have lt: "h_tail h < h_head h" using hist_len_diff [of h] by (auto simp: word_le_nat_alt word_less_nat_alt)
  note d = drop_newest_spec [OF Suc.prems(1) lt]
  have "take (hist_len (drop_newest h) - n) (butlast (hist_entries h)) = take (hist_len h - Suc n) (hist_entries h)"
    using d(3) Suc.prems(2) by (simp add: take_butlast)
  then show ?case using Suc.IH [OF d(1)] d lt Suc.prems(2) by (simp add: not_le [symmetric])
qed simp

lemma truncate_spec:
  assumes wf: "hist_wf h" and ix: "index_ready h"
  shows "\<exists>h'. history_truncate_keep keep h = Some (Inr (), h') \<and> hist_wf h' \<and> hist_entries h' = take (unat keep) (hist_entries h)"
proof (cases "h_head h - h_tail h \<le> keep")
  case True
  then have "hist_len h \<le> unat keep" by (simp add: hist_len_def word_le_nat_alt)
  then show ?thesis using True wf by (simp add: history_truncate_keep_def Let_def)
next
  case False
  then have lt: "unat keep < hist_len h" by (simp add: hist_len_def word_le_nat_alt)
  have n: "unat (h_head h - h_tail h - keep) = hist_len h - unat keep"
    using False by (simp add: hist_len_def unat_sub)
  let ?h = "drop_loop (hist_len h - unat keep) h"
  have d: "hist_wf ?h" "hist_entries ?h = take (unat keep) (hist_entries h)" "h_bpt ?h = h_bpt h"
    using drop_loop_spec [OF wf, of "hist_len h - unat keep"] lt by auto
  obtain t where t: "hist_bpt_rebuild ?h = Some t" using index_rebuilds [OF ix d(3)] d(1) by (auto simp: hist_wf_def)
  have "hist_wf (?h\<lparr>h_bpt := t\<rparr>)" "hist_entries (?h\<lparr>h_bpt := t\<rparr>) = hist_entries ?h"
    using d(1) by (simp_all add: hist_wf_def hist_len_def hist_entries_def)
  then show ?thesis using False n t d(2) by (simp add: history_truncate_keep_def Let_def)
qed

section \<open>The properties\<close>

text \<open>A fresh history for the examples.\<close>

definition empty_history :: history where
  "empty_history = \<lparr>h_ring = \<lambda>_. zero_entry, h_head = 0, h_tail = 0, h_window_tokens = 0, h_max_tokens = 1000, h_next_seq = 0,
     h_bpt = \<lparr>bp_root = 0, bp_height = 0, bp_nodes = \<lambda>_. leaf_of [], bp_next = 1, bp_avail = 4096 * 4097\<rparr>, h_double_frees = 0\<rparr>"

lemma empty_history_ok: "hist_wf empty_history" "index_ready empty_history" "h_head empty_history \<noteq> UINT32_MAX"
proof -
  have "bp_ok (h_bpt empty_history) {} (\<lambda>_. 0)" by (simp add: bp_ok_def empty_history_def)
  then have "bp_within (h_bpt empty_history) 4096" unfolding bp_within_def by blast
  then show "index_ready empty_history" by (simp add: index_ready_def empty_history_def)
  show "hist_wf empty_history" "h_head empty_history \<noteq> UINT32_MAX"
    by (simp_all add: hist_wf_def hist_len_def hist_entries_def empty_history_def)
qed

lemma push_read_back:
  assumes "hist_wf h" "index_ready h" "h_head h \<noteq> UINT32_MAX" "cval text \<noteq> []" "length (cval text) \<le> LZ4_MAX_INPUT_SIZE"
    "length (cval text) < unat buf_size"
  shows "\<exists>h'. history_push now True role text h = Some (Inr (), h') \<and>
     history_get h' (history_count h' - 1) buf_size =
       Inr (if lz4_self_match (cval text) then take (unat buf_size - 1) (stored_bytes (cval text)) else cval text)"
proof -
  obtain r h' where push: "history_push now True role text h = Some (r, h')" using push_returns [OF assms(1,2)] by fast
  obtain k where e: "r = Inr ()" "hist_entries h' = drop k (hist_entries h) @ [new_entry now (h_next_seq h) role text]"
    using push_entries [OF assms(1,3) push] by blast
  define n where "n = length (drop k (hist_entries h))"
  have len: "hist_len h' = Suc n" using length_hist_entries [of h'] e(2) by (simp add: n_def)
  have last: "hist_entries h' ! n = new_entry now (h_next_seq h) role text" unfolding e(2) n_def by (rule nth_append_length)
  have "h_head h' - h_tail h' = of_nat (Suc n)" using arg_cong [OF len, of "of_nat :: nat \<Rightarrow> u32"] by (simp add: hist_len_def)
  then have idx: "history_count h' - 1 = of_nat n" by (simp add: history_count_def)
  note st = stored_bytes_compress [OF assms(4,5)]
  have "he_data (new_entry now (h_next_seq h) role text) \<noteq> Null" "he_data_len (new_entry now (h_next_seq h) role text) \<noteq> 0"
    using st(2,3) by (auto simp: new_entry_def Let_def word_unat_eq_iff unat_of_nat take_bit_nat_eq_self)
  moreover have "buf_size \<noteq> 0" using assms(6) by auto
  ultimately have "history_get h' (of_nat n) buf_size = Inr (entry_text (new_entry now (h_next_seq h) role text) (unat buf_size - 1))"
    using get_entry [of n h' buf_size] len last by simp
  then show ?thesis
    using push e(1) idx new_entry_text [OF assms(4,5), of "unat buf_size - 1"] assms(6) by auto
qed





end
