(* ===== verification/SepPlane.thy ===== *)
theory SepPlane
  imports Eventlog History
begin

text \<open>
  The self-evolution plane of an agent, \<open>agent/sep_plane.c\<close>: the planner's list of steps, the corrector
  with its checkpoint into the history, and the verifier that scans the tail of the history for
  consecutive failures of tools. It composes the history (\<open>History\<close>), the event log (\<open>Eventlog\<close>) and the
  string library (\<open>CString\<close>). The evolver takes what \<open>agent_evolve_skill\<close> does, which asks the language model for
  code, as an argument.
\<close>

datatype sep_planner_mode = SEP_PLAN_REACT | SEP_PLAN_TOT
datatype sep_step_kind = SEP_STEP_THOUGHT | SEP_STEP_ACTION | SEP_STEP_OBS

abbreviation SEP_MAX_PLAN_STEPS :: u32 where "SEP_MAX_PLAN_STEPS \<equiv> 16"
definition SEP_STEP_TEXT :: nat where "SEP_STEP_TEXT = 128"

record sep_plan_step =
  ps_kind :: sep_step_kind
  ps_text :: cmem

record sep_plane =
  sp_mode :: sep_planner_mode
  sp_step_count :: u32
  sp_steps :: "nat \<Rightarrow> sep_plan_step"
  sp_tot_branch :: u32
  sp_ctl_phase :: int
  sp_consecutive_tool_fail :: u32
  sp_last_incremental_ok :: bool
  sp_ckpt_hist_entries :: u32
  sp_ckpt_eventlog_seq :: u64
  sp_ckpt_valid :: bool
  sp_last_ok_task :: cmem
  sp_reuse_hits :: u32

text \<open>The part of \<open>agent_t\<close> that the plane uses, with the event log of the system.\<close>

record sep_agent =
  ag_id :: u64
  ag_history :: history
  ag_sep :: sep_plane
  ag_log :: eventlog
  ag_auto_evolve :: bool

definition sep_plane_init :: "sep_plane \<Rightarrow> sep_plane" where
  "sep_plane_init p = p\<lparr>sp_mode := SEP_PLAN_REACT, sp_step_count := 0, sp_steps := \<lambda>_. \<lparr>ps_kind = SEP_STEP_THOUGHT, ps_text = \<lambda>_. 0\<rparr>,
     sp_tot_branch := 0, sp_ctl_phase := 0, sp_consecutive_tool_fail := 0, sp_last_incremental_ok := True,
     sp_ckpt_hist_entries := 0, sp_ckpt_eventlog_seq := 0, sp_ckpt_valid := False, sp_last_ok_task := \<lambda>_. 0, sp_reuse_hits := 0\<rparr>"

definition sep_planner_set_mode :: "sep_planner_mode \<Rightarrow> sep_plane \<Rightarrow> sep_plane" where
  "sep_planner_set_mode mode p = p\<lparr>sp_mode := mode\<rparr>"

definition sep_planner_reset :: "sep_plane \<Rightarrow> sep_plane" where
  "sep_planner_reset p = p\<lparr>sp_step_count := 0, sp_steps := \<lambda>_. \<lparr>ps_kind = SEP_STEP_THOUGHT, ps_text = \<lambda>_. 0\<rparr>\<rparr>"

definition sep_planner_push :: "sep_step_kind \<Rightarrow> bytes option \<Rightarrow> sep_plane \<Rightarrow> (errno + unit) \<times> sep_plane" where
  "sep_planner_push kind text p =
     (if SEP_MAX_PLAN_STEPS \<le> sp_step_count p then (Inl ENOSPC, p)
      else
        let i = unat (sp_step_count p);
            s = (sp_steps p i)\<lparr>ps_kind := kind\<rparr>;
            s = (case text of
                   Some t \<Rightarrow> s\<lparr>ps_text := (strncpy 0 t (SEP_STEP_TEXT - 1) (ps_text s))(SEP_STEP_TEXT - 1 := 0)\<rparr>
                 | None \<Rightarrow> s\<lparr>ps_text := (ps_text s)(0 := 0)\<rparr>)
        in (Inr (), p\<lparr>sp_step_count := sp_step_count p + 1, sp_steps := (sp_steps p)(i := s)\<rparr>))"

abbreviation log_event :: "u64 \<Rightarrow> eventlog_type \<Rightarrow> bytes \<Rightarrow> sep_agent \<Rightarrow> sep_agent" where
  "log_event now ty payload a \<equiv> a\<lparr>ag_log := eventlog_append now ty (ag_id a) (Some payload) (ag_log a)\<rparr>"

abbreviation step_tag :: "sep_step_kind \<Rightarrow> bytes" where
  "step_tag k \<equiv> (case k of SEP_STEP_THOUGHT \<Rightarrow> str ''T'' | SEP_STEP_ACTION \<Rightarrow> str ''A'' | SEP_STEP_OBS \<Rightarrow> str ''O'')"

abbreviation step_string :: "sep_plan_step \<Rightarrow> bytes" where
  "step_string s \<equiv> map (ps_text s) [0..<SEP_STEP_TEXT]"

definition sep_planner_log_to_eventlog :: "u64 \<Rightarrow> sep_agent \<Rightarrow> sep_agent" where
  "sep_planner_log_to_eventlog now a =
     fold (\<lambda>i a. let s = sp_steps (ag_sep a) i in
             log_event now EVLOG_PLAN_STEP (fmt_buf 160 ''%s:%s'' [VStr (Some (step_tag (ps_kind s))), VStr (Some (step_string s))]) a)
       [0..<unat (sp_step_count (ag_sep a))] a"

section \<open>The corrector\<close>

definition sep_corrector_checkpoint :: "sep_agent \<Rightarrow> (errno + unit) \<times> sep_agent" where
  "sep_corrector_checkpoint a =
     (Inr (), a\<lparr>ag_sep := (ag_sep a)\<lparr>sp_ckpt_hist_entries := history_count (ag_history a),
                                     sp_ckpt_eventlog_seq := eventlog_seq (ag_log a), sp_ckpt_valid := True\<rparr>\<rparr>)"

definition sep_corrector_rollback :: "u64 \<Rightarrow> sep_agent \<Rightarrow> ((errno + unit) \<times> sep_agent) option" where
  "sep_corrector_rollback now a =
     (if \<not> sp_ckpt_valid (ag_sep a) then Some (Inl EINVAL, a)
      else
        let keep = sp_ckpt_hist_entries (ag_sep a) in
        case history_truncate_keep keep (ag_history a) of
          None \<Rightarrow> None
        | Some (Inl e, h) \<Rightarrow> Some (Inl e, a\<lparr>ag_history := h\<rparr>)
        | Some (Inr _, h) \<Rightarrow>
            let a = a\<lparr>ag_history := h\<rparr>;
                a = log_event now EVLOG_CORRECT_ROLLBACK
                      (fmt_buf 64 ''hist=%u evseq=%llu'' [VNum (ucast keep), VNum (sp_ckpt_eventlog_seq (ag_sep a))]) a
            in Some (Inr (), a\<lparr>ag_sep := (ag_sep a)\<lparr>sp_ckpt_valid := False\<rparr>\<rparr>))"

section \<open>The verifier\<close>

definition sep_verifier_reset :: "sep_plane \<Rightarrow> sep_plane" where
  "sep_verifier_reset p = p\<lparr>sp_ctl_phase := 0, sp_consecutive_tool_fail := 0, sp_last_incremental_ok := True\<rparr>"

definition line_has_fail :: "bytes \<Rightarrow> bool" where
  "line_has_fail line \<longleftrightarrow> strstr line (str ''[RESULT:FAIL]'') \<noteq> None \<or> strstr line (str ''RESULT:FAIL'') \<noteq> None"

definition line_has_ok :: "bytes \<Rightarrow> bool" where
  "line_has_ok line \<longleftrightarrow> strstr line (str ''[RESULT:OK]'') \<noteq> None"

text \<open>One tool line, as the verifier's state machine sees it.\<close>

definition verify_line :: "bytes \<Rightarrow> sep_plane \<Rightarrow> sep_plane" where
  "verify_line buf p =
     (if line_has_fail buf then
        let p = p\<lparr>sp_consecutive_tool_fail := sp_consecutive_tool_fail p + 1\<rparr>
        in if 2 \<le> sp_consecutive_tool_fail p then p\<lparr>sp_last_incremental_ok := False, sp_ctl_phase := 2\<rparr>
           else p\<lparr>sp_ctl_phase := 2\<rparr>
      else if line_has_ok buf then p\<lparr>sp_consecutive_tool_fail := 0, sp_ctl_phase := 1\<rparr>
      else p)"

text \<open>One round of the scan: entry \<open>idx\<close>, whose role comes from the copied records when there are any.\<close>

definition verify_entry :: "history \<Rightarrow> hist_entry list option \<Rightarrow> nat \<Rightarrow> sep_plane \<Rightarrow> sep_plane" where
  "verify_entry h meta idx p =
     (case history_get h (of_nat idx) 2048 of
        Inl e \<Rightarrow> p
      | Inr buf \<Rightarrow>
          if length buf = 0 then p
          else
            let role = (case meta of Some m \<Rightarrow> if idx < length m then he_role (m ! idx) else HIST_ROLE_USER
                        | None \<Rightarrow> HIST_ROLE_USER)
            in if role \<noteq> HIST_ROLE_TOOL then p else verify_line buf p)"

definition sep_verifier_check_history_tail :: "u64 \<Rightarrow> bool \<Rightarrow> u32 \<Rightarrow> sep_agent \<Rightarrow> bool \<times> sep_agent" where
  "sep_verifier_check_history_tail now mem max_scan a =
     (let n = history_count (ag_history a) in
      if n = 0 then (True, a\<lparr>ag_sep := (ag_sep a)\<lparr>sp_last_incremental_ok := True\<rparr>\<rparr>)
      else
        let scn = unat (if max_scan < n then max_scan else n);
            p = (ag_sep a)\<lparr>sp_last_incremental_ok := True, sp_consecutive_tool_fail := 0\<rparr>;
            meta = history_get_recent mem (ag_history a) n;
            p = fold (\<lambda>k. verify_entry (ag_history a) meta (unat n - scn + k)) [0..<scn] p;
            a = a\<lparr>ag_sep := p\<rparr>;
            a = log_event now EVLOG_VERIFY
                  (fmt_buf 96 ''ok=%d fail_streak=%u phase=%d''
                     [VNum (if sp_last_incremental_ok p then 1 else 0), VNum (ucast (sp_consecutive_tool_fail p)), VNum (of_int (sp_ctl_phase p))]) a
        in (sp_last_incremental_ok p, a))"

section \<open>The evolver\<close>

text \<open>\<open>evolve\<close> is the call of \<open>agent_evolve_skill\<close>: its return code and the agent that it leaves.\<close>

definition sep_evolver_on_verify_fail ::
    "u64 \<Rightarrow> (bytes \<Rightarrow> sep_agent \<Rightarrow> int \<times> sep_agent) \<Rightarrow> bytes option \<Rightarrow> sep_agent \<Rightarrow> int \<times> sep_agent" where
  "sep_evolver_on_verify_fail now evolve hint_task a =
     (let task = (case hint_task of Some t \<Rightarrow> if rd t \<noteq> 0 then t else str ''recover from verify failure''
                  | None \<Rightarrow> str ''recover from verify failure'') in
      if strncmp (map (sp_last_ok_task (ag_sep a)) [0..<128]) task 127 = 0 then
        let a = a\<lparr>ag_sep := (ag_sep a)\<lparr>sp_reuse_hits := sp_reuse_hits (ag_sep a) + 1\<rparr>\<rparr>
        in (0, log_event now EVLOG_EVOLVER (str ''reuse_skip'') a)
      else if \<not> ag_auto_evolve a then (0, log_event now EVLOG_EVOLVER (str ''auto_off'') a)
      else case evolve task a of (rc, a) \<Rightarrow>
        if rc = 0 then
          let a = a\<lparr>ag_sep := (ag_sep a)\<lparr>sp_last_ok_task := strncpy 0 task 127 (sp_last_ok_task (ag_sep a))\<rparr>\<rparr>
          in (rc, log_event now EVLOG_EVOLVER (str ''evolved'') a)
        else (rc, log_event now EVLOG_EVOLVER (fmt_buf 64 ''fail rc=%d'' [VNum (of_int rc)]) a))"

text \<open>A task that evolved once is not evolved again: the next failure with the same task only counts a reuse.\<close>

lemma sep_evolver_reuse:
  assumes "rd t \<noteq> 0" and "sep_evolver_on_verify_fail now evolve (Some t) a = (0, a')"
    and "strncmp (map (sp_last_ok_task (ag_sep a)) [0..<128]) t 127 \<noteq> 0" and "ag_auto_evolve a"
  shows "sep_evolver_on_verify_fail now' evolve' (Some t) a'
    = (0, log_event now' EVLOG_EVOLVER (str ''reuse_skip'')
            (a'\<lparr>ag_sep := (ag_sep a')\<lparr>sp_reuse_hits := sp_reuse_hits (ag_sep a') + 1\<rparr>\<rparr>))"
proof -
  obtain b where ev: "evolve t a = (0, b)"
    and a': "a' = log_event now EVLOG_EVOLVER (str ''evolved'')
      (b\<lparr>ag_sep := (ag_sep b)\<lparr>sp_last_ok_task := strncpy 0 t 127 (sp_last_ok_task (ag_sep b))\<rparr>\<rparr>)"
    using assms by (auto simp: sep_evolver_on_verify_fail_def Let_def split: prod.splits if_splits)
  have "strncmp (map (strncpy 0 t 127 m) [0..<128]) t 127 = 0" for m by (rule strncpy_strncmp) simp
  then show ?thesis
    using assms(1) by (simp add: sep_evolver_on_verify_fail_def a')
qed

section \<open>What the verifier decides\<close>

text \<open>The lines of tools in the last \<open>m\<close> entries, as \<open>history_get\<close> returns them, and two failures in a row.\<close>

definition tool_line :: "hist_entry \<Rightarrow> bool" where
  "tool_line e \<longleftrightarrow> he_role e = HIST_ROLE_TOOL \<and> he_data e \<noteq> Null \<and> he_data_len e \<noteq> 0 \<and> entry_text e 2047 \<noteq> []"

definition tool_lines :: "history \<Rightarrow> nat \<Rightarrow> bytes list" where
  "tool_lines h m = map (\<lambda>e. entry_text e 2047) (filter tool_line (lastn m (hist_entries h)))"

fun fail_twice :: "bool list \<Rightarrow> bool" where
  "fail_twice (x # y # zs) = (x \<and> y \<or> fail_twice (y # zs))"
| "fail_twice _ = False"

text \<open>The results among the lines, \<open>True\<close> for a failure.\<close>

definition results :: "bytes list \<Rightarrow> bool list" where
  "results ls = map line_has_fail (filter (\<lambda>l. line_has_fail l \<or> line_has_ok l) ls)"

lemma fail_twice_snoc: "fail_twice (xs @ [y]) \<longleftrightarrow> fail_twice xs \<or> (xs \<noteq> [] \<and> last xs \<and> y)"
  by (induction xs rule: fail_twice.induct) auto

lemma results_snoc: "results (ls @ [l]) = (if line_has_fail l \<or> line_has_ok l then results ls @ [line_has_fail l] else results ls)"
  by (simp add: results_def)

lemma verify_lines:
  assumes "length ls < 2 ^ 32" "p0 = p\<lparr>sp_last_incremental_ok := True, sp_consecutive_tool_fail := 0\<rparr>"
  shows "sp_last_incremental_ok (fold verify_line ls p0) = (\<not> fail_twice (results ls)) \<and>
     sp_consecutive_tool_fail (fold verify_line ls p0) = of_nat (length (takeWhile (\<lambda>x. x) (rev (results ls))))"
  using assms(1)
proof (induction ls rule: rev_induct)
  case Nil
  then show ?case by (simp add: assms(2) results_def)
next
  case (snoc l ls)
  define q where "q = fold verify_line ls p0"
  define k where "k = length (takeWhile (\<lambda>x. x) (rev (results ls)))"
  have q: "sp_last_incremental_ok q = (\<not> fail_twice (results ls))" "sp_consecutive_tool_fail q = of_nat k"
    using snoc by (simp_all add: q_def k_def)
  have "k \<le> length (results ls)" unfolding k_def by (metis length_rev length_takeWhile_le)
  also have "\<dots> \<le> length ls" by (simp add: results_def)
  finally have "unat (of_nat k + 1 :: u32) = k + 1" using snoc.prems by (simp add: unat_word_ariths unat_of_nat take_bit_nat_eq_self)
  then have two: "(2 :: u32) \<le> of_nat k + 1 \<longleftrightarrow> 0 < k" by (auto simp: word_le_nat_alt)
  have pos: "0 < k \<longleftrightarrow> results ls \<noteq> [] \<and> last (results ls)"
    by (cases "results ls" rule: rev_cases) (auto simp: k_def)
  have fold: "fold verify_line (ls @ [l]) p0 = verify_line l q" by (simp add: q_def)
  show ?case
  proof (cases "line_has_fail l")
    case True
    then have "results (ls @ [l]) = results ls @ [True]" by (simp add: results_snoc)
    then show ?thesis
      unfolding fold using q two pos True by (cases "0 < k") (auto simp: verify_line_def Let_def fail_twice_snoc k_def [symmetric])
  next
    case False
    then show ?thesis
      unfolding fold using q False by (simp add: verify_line_def Let_def results_snoc fail_twice_snoc k_def [symmetric])
  qed
qed

lemma recent_all:
  assumes "hist_wf h" "history_count h \<noteq> 0"
  shows "history_get_recent True h (history_count h) = Some (hist_entries h)"
  using assms by (simp add: history_get_recent_def history_count_def hist_entries_def Let_def algebra_simps)

lemma verify_entry_line:
  assumes "hist_wf h" "i < hist_len h"
  shows "verify_entry h (Some (hist_entries h)) i p =
     (if tool_line (hist_entries h ! i) then verify_line (entry_text (hist_entries h ! i) 2047) p else p)"
proof (cases "he_data (hist_entries h ! i) \<noteq> Null \<and> he_data_len (hist_entries h ! i) \<noteq> 0")
  case True
  then show ?thesis using get_entry [OF assms(2), of 2048] assms(2) by (auto simp: verify_entry_def tool_line_def Let_def)
next
  case False
  have "hist_entries h ! i = h_ring h (slot (h_tail h + of_nat i))" using assms(2) by (simp add: hist_entries_def hist_len_def)
  then have "\<exists>e. history_get h (of_nat i) 2048 = Inl e" using False by (auto simp: history_get_def Let_def)
  then show ?thesis using False by (auto simp: verify_entry_def tool_line_def)
qed

lemma verify_scan:
  assumes "hist_wf h" "m \<le> hist_len h"
  shows "fold (\<lambda>k. verify_entry h (Some (hist_entries h)) (hist_len h - m + k)) [0..<m] p = fold verify_line (tool_lines h m) p"
proof -
  define es where "es = lastn m (hist_entries h)"
  have es: "length es = m" "\<And>k. k < m \<Longrightarrow> es ! k = hist_entries h ! (hist_len h - m + k)"
    using assms(2) by (auto simp: es_def lastn_def)
  have "fold (\<lambda>k. verify_entry h (Some (hist_entries h)) (hist_len h - m + k)) [0..<m] p =
      fold (\<lambda>k. if tool_line (es ! k) then verify_line (entry_text (es ! k) 2047) else id) [0..<m] p"
  proof (rule fold_cong [OF refl refl])
    fix k assume "k \<in> set [0..<m]"
    then show "verify_entry h (Some (hist_entries h)) (hist_len h - m + k) = (if tool_line (es ! k) then verify_line (entry_text (es ! k) 2047) else id)"
      using es(2) [of k] assms(2) by (intro ext) (simp add: verify_entry_line [OF assms(1)])
  qed
  also have "\<dots> = fold (\<lambda>e. if tool_line e then verify_line (entry_text e 2047) else id) (map ((!) es) [0..<m]) p"
    by (simp add: fold_map comp_def)
  also have "map ((!) es) [0..<m] = es" using es(1) by (metis map_nth)
  also have "fold (\<lambda>e. if tool_line e then verify_line (entry_text e 2047) else id) es p =
      fold verify_line (map (\<lambda>e. entry_text e 2047) (filter tool_line es)) p"
    by (induction es arbitrary: p) auto
  finally show ?thesis by (simp add: tool_lines_def es_def)
qed

section \<open>The properties\<close>





end
