(* ===== verification/Hashmap.thy ===== *)
theory Hashmap
  imports CString
begin

text \<open>
  The chained hash table of \<open>lib/hashmap.c\<close>, which maps C strings to pointers.

  A chain is the list of its entries in link order. The key of an entry is the copy that \<open>dup_key\<close>
  makes, the bytes before the terminator. Values are pointers and \<open>0\<close> is null. The argument \<open>mem\<close> of an
  operation that allocates says which of its allocations succeed: \<open>mem 0\<close> is the bucket array, \<open>mem 1\<close> the
  entry (or the table itself) and \<open>mem 2\<close> the key. Null tables and null keys are left out.
\<close>

unbundle bit_operations_syntax

section \<open>Definitions\<close>

abbreviation FNV_OFFSET_BASIS :: u64 where "FNV_OFFSET_BASIS \<equiv> 0xcbf29ce484222325"
abbreviation FNV_PRIME :: u64 where "FNV_PRIME \<equiv> 0x100000001b3"
abbreviation DEFAULT_CAPACITY :: u64 where "DEFAULT_CAPACITY \<equiv> 16"

record hashmap_entry =
  he_key :: bytes
  he_value :: u64
  he_hash :: u64

record hashmap =
  hm_buckets :: "nat \<Rightarrow> hashmap_entry list"
  hm_count :: u64
  hm_capacity :: u64
  hm_load_threshold :: u64

fun fnv1a_loop :: "bytes \<Rightarrow> u64 \<Rightarrow> u64" where
  "fnv1a_loop [] h = h"
| "fnv1a_loop (c # s) h = (if c \<noteq> 0 then fnv1a_loop s ((h XOR ucast c) * FNV_PRIME) else h)"

definition fnv1a_hash :: "bytes \<Rightarrow> u64" where
  "fnv1a_hash key = fnv1a_loop key FNV_OFFSET_BASIS"

text \<open>One of the six statements \<open>v |= v >> n\<close>\<close>

definition smear :: "nat \<Rightarrow> u64 \<Rightarrow> u64" where
  "smear n v = v OR drop_bit n v"

definition next_power_of_2 :: "u64 \<Rightarrow> u64" where
  "next_power_of_2 v = smear 32 (smear 16 (smear 8 (smear 4 (smear 2 (smear 1 (v - 1)))))) + 1"

definition hashmap_create :: "(nat \<Rightarrow> bool) \<Rightarrow> u64 \<Rightarrow> hashmap option" where
  "hashmap_create mem initial_capacity =
     (let cap = next_power_of_2 (if initial_capacity < DEFAULT_CAPACITY then DEFAULT_CAPACITY else initial_capacity)
      in if \<not> mem 1 then None
         else if \<not> mem 0 then None
         else Some \<lparr>hm_buckets = (\<lambda>_. []), hm_count = 0, hm_capacity = cap, hm_load_threshold = cap * 75 div 100\<rparr>)"

text \<open>\<open>dup_key\<close> copies the bytes up to the terminator.\<close>

definition dup_key :: "(nat \<Rightarrow> bool) \<Rightarrow> bytes \<Rightarrow> bytes option" where
  "dup_key mem key = (if mem 2 then Some (take (strlen key) key) else None)"

text \<open>The bucket of a hash in a table of \<open>cap\<close> buckets.\<close>

definition bucket_of :: "u64 \<Rightarrow> u64 \<Rightarrow> nat" where
  "bucket_of h cap = unat (h AND (cap - 1))"

abbreviation rehash_entry :: "u64 \<Rightarrow> hashmap_entry \<Rightarrow> (nat \<Rightarrow> hashmap_entry list) \<Rightarrow> nat \<Rightarrow> hashmap_entry list" where
  "rehash_entry new_cap e b \<equiv> b(bucket_of (he_hash e) new_cap := e # b (bucket_of (he_hash e) new_cap))"

definition hashmap_resize :: "(nat \<Rightarrow> bool) \<Rightarrow> u64 \<Rightarrow> hashmap \<Rightarrow> errno option \<times> hashmap" where
  "hashmap_resize mem new_cap m =
     (if \<not> mem 0 then (Some ENOMEM, m)
      else (None, m\<lparr>hm_buckets := fold (\<lambda>i b. fold (rehash_entry new_cap) (hm_buckets m i) b) [0..<unat (hm_capacity m)] (\<lambda>_. []),
                    hm_capacity := new_cap,
                    hm_load_threshold := new_cap * 75 div 100\<rparr>))"

definition entry_match :: "u64 \<Rightarrow> bytes \<Rightarrow> hashmap_entry \<Rightarrow> bool" where
  "entry_match h key e \<longleftrightarrow> he_hash e = h \<and> strcmp (he_key e) key = 0"

text \<open>The three loops over a chain: overwrite the value, read it, unlink the entry.\<close>

fun chain_set :: "u64 \<Rightarrow> bytes \<Rightarrow> u64 \<Rightarrow> hashmap_entry list \<Rightarrow> hashmap_entry list option" where
  "chain_set h key v [] = None"
| "chain_set h key v (e # es) =
     (if entry_match h key e then Some (e\<lparr>he_value := v\<rparr> # es)
      else case chain_set h key v es of None \<Rightarrow> None | Some es' \<Rightarrow> Some (e # es'))"

fun chain_get :: "u64 \<Rightarrow> bytes \<Rightarrow> hashmap_entry list \<Rightarrow> u64 option" where
  "chain_get h key [] = None"
| "chain_get h key (e # es) = (if entry_match h key e then Some (he_value e) else chain_get h key es)"

fun chain_unlink :: "u64 \<Rightarrow> bytes \<Rightarrow> hashmap_entry list \<Rightarrow> (u64 \<times> hashmap_entry list) option" where
  "chain_unlink h key [] = None"
| "chain_unlink h key (e # es) =
     (if entry_match h key e then Some (he_value e, es)
      else case chain_unlink h key es of None \<Rightarrow> None | Some (v, es') \<Rightarrow> Some (v, e # es'))"

definition hashmap_insert :: "(nat \<Rightarrow> bool) \<Rightarrow> bytes \<Rightarrow> u64 \<Rightarrow> u64 \<Rightarrow> hashmap \<Rightarrow> errno option \<times> hashmap" where
  "hashmap_insert mem key h value m =
     (let idx = bucket_of h (hm_capacity m) in
      if \<not> mem 1 then (Some ENOMEM, m)
      else case dup_key mem key of
        None \<Rightarrow> (Some ENOMEM, m)
      | Some k \<Rightarrow>
          (None, m\<lparr>hm_buckets := (hm_buckets m)(idx := \<lparr>he_key = k, he_value = value, he_hash = h\<rparr> # hm_buckets m idx),
                   hm_count := hm_count m + 1\<rparr>))"

definition hashmap_put :: "(nat \<Rightarrow> bool) \<Rightarrow> bytes \<Rightarrow> u64 \<Rightarrow> hashmap \<Rightarrow> errno option \<times> hashmap" where
  "hashmap_put mem key value m =
     (let h = fnv1a_hash key; idx = bucket_of h (hm_capacity m)
      in case chain_set h key value (hm_buckets m idx) of
           Some es \<Rightarrow> (None, m\<lparr>hm_buckets := (hm_buckets m)(idx := es)\<rparr>)
         | None \<Rightarrow>
             (if hm_count m \<ge> hm_load_threshold m then
                case hashmap_resize mem (hm_capacity m * 2) m of
                  (Some rc, m') \<Rightarrow> (Some rc, m')
                | (None, m') \<Rightarrow> hashmap_insert mem key h value m'
              else hashmap_insert mem key h value m))"

definition hashmap_get :: "bytes \<Rightarrow> hashmap \<Rightarrow> u64" where
  "hashmap_get key m =
     (let h = fnv1a_hash key
      in case chain_get h key (hm_buckets m (bucket_of h (hm_capacity m))) of Some v \<Rightarrow> v | None \<Rightarrow> 0)"

definition hashmap_remove :: "bytes \<Rightarrow> hashmap \<Rightarrow> u64 \<times> hashmap" where
  "hashmap_remove key m =
     (let h = fnv1a_hash key; idx = bucket_of h (hm_capacity m)
      in case chain_unlink h key (hm_buckets m idx) of
           Some (v, es) \<Rightarrow> (v, m\<lparr>hm_buckets := (hm_buckets m)(idx := es), hm_count := hm_count m - 1\<rparr>)
         | None \<Rightarrow> (0, m))"

definition hashmap_contains :: "bytes \<Rightarrow> hashmap \<Rightarrow> bool" where
  "hashmap_contains key m =
     (let h = fnv1a_hash key in chain_get h key (hm_buckets m (bucket_of h (hm_capacity m))) \<noteq> None)"

definition hashmap_size :: "hashmap \<Rightarrow> u64" where
  "hashmap_size m = hm_count m"

definition hashmap_clear :: "hashmap \<Rightarrow> hashmap" where
  "hashmap_clear m =
     m\<lparr>hm_buckets := fold (\<lambda>i b. b(i := [])) [0..<unat (hm_capacity m)] (hm_buckets m), hm_count := 0\<rparr>"

text \<open>The callback is a parameter; \<open>u\<close> is the user data it changes.\<close>

definition hashmap_foreach :: "(bytes \<Rightarrow> u64 \<Rightarrow> 'u \<Rightarrow> 'u) \<Rightarrow> hashmap \<Rightarrow> 'u \<Rightarrow> 'u" where
  "hashmap_foreach callback m u =
     fold (\<lambda>i. fold (\<lambda>e. callback (he_key e) (he_value e)) (hm_buckets m i)) [0..<unat (hm_capacity m)] u"

section \<open>Rounding up to a power of two\<close>

lemma smear_bits:
  assumes "\<And>i. bit w' i \<longleftrightarrow> (\<exists>d<n. bit w (i + d))"
  shows "bit (smear n w') i \<longleftrightarrow> (\<exists>d<2 * n. bit w (i + d))"
proof
  assume "bit (smear n w') i"
  then have "bit w' i \<or> bit w' (i + n)" by (simp add: smear_def bit_simps add.commute)
  then obtain d where "(d < n \<and> bit w (i + d)) \<or> (d < n \<and> bit w (i + (n + d)))" unfolding assms by (auto simp: add.assoc)
  then show "\<exists>d<2 * n. bit w (i + d)" by (metis mult_2 add_strict_mono add_less_cancel_left trans_less_add1)
next
  assume "\<exists>d<2 * n. bit w (i + d)"
  then obtain d where d: "d < 2 * n" "bit w (i + d)" by blast
  have "bit w' i \<or> bit w' (i + n)"
  proof (cases "d < n")
    case True
    then show ?thesis using d assms by blast
  next
    case False
    then have "d - n < n" "i + n + (d - n) = i + d" using d by auto
    then show ?thesis using d assms by metis
  qed
  then show "bit (smear n w') i" by (auto simp: smear_def bit_simps add.commute)
qed

definition smear_all :: "u64 \<Rightarrow> u64" where
  "smear_all w = smear 32 (smear 16 (smear 8 (smear 4 (smear 2 (smear 1 w)))))"

lemma bit_smear_all: "bit (smear_all w) i \<longleftrightarrow> (\<exists>j\<ge>i. bit w j)"
proof -
  have 0: "bit w i \<longleftrightarrow> (\<exists>d<1. bit w (i + d))" for i by simp
  have 1: "bit (smear 1 w) i \<longleftrightarrow> (\<exists>d<2. bit w (i + d))" for i using smear_bits [OF 0] by simp
  have 2: "bit (smear 2 (smear 1 w)) i \<longleftrightarrow> (\<exists>d<4. bit w (i + d))" for i using smear_bits [OF 1] by simp
  have 3: "bit (smear 4 (smear 2 (smear 1 w))) i \<longleftrightarrow> (\<exists>d<8. bit w (i + d))" for i using smear_bits [OF 2] by simp
  have 4: "bit (smear 8 (smear 4 (smear 2 (smear 1 w)))) i \<longleftrightarrow> (\<exists>d<16. bit w (i + d))" for i using smear_bits [OF 3] by simp
  have 5: "bit (smear 16 (smear 8 (smear 4 (smear 2 (smear 1 w))))) i \<longleftrightarrow> (\<exists>d<32. bit w (i + d))" for i
    using smear_bits [OF 4] by simp
  have "bit (smear_all w) i \<longleftrightarrow> (\<exists>d<64. bit w (i + d))" unfolding smear_all_def using smear_bits [OF 5] by simp
  also have "\<dots> \<longleftrightarrow> (\<exists>j\<ge>i. bit w j)"
  proof
    assume "\<exists>j\<ge>i. bit w j"
    then obtain j where "j \<ge> i" "bit w j" by blast
    moreover have "j < 64" using \<open>bit w j\<close> by (auto dest: bit_imp_le_length)
    ultimately show "\<exists>d<64. bit w (i + d)" by (intro exI [of _ "j - i"]) auto
  qed (use le_add1 in blast)
  finally show ?thesis .
qed

lemma smear_all_mask:
  assumes "unat w < 2 ^ 63"
  obtains n where "n \<le> 63" "smear_all w = mask n" "unat w < 2 ^ n" "0 < n \<Longrightarrow> 2 ^ (n - 1) \<le> unat w"
proof -
  define n where "n = (LEAST n. unat w < 2 ^ n)"
  have lt: "unat w < 2 ^ n" unfolding n_def using assms by (rule LeastI)
  have le: "n \<le> 63" unfolding n_def using assms by (rule Least_le)
  have top: "2 ^ (n - 1) \<le> unat w" if "0 < n" using not_less_Least [of "n - 1" "\<lambda>n. unat w < 2 ^ n"] that by (simp add: n_def)
  have hi: "\<not> bit w j" if "n \<le> j" for j
  proof -
    have "unat w < 2 ^ j" using lt that by (meson less_le_trans one_le_numeral power_increasing)
    then have "\<not> bit (unat w) j" by (simp add: bit_iff_odd)
    then show ?thesis by (simp add: bit_unsigned_iff)
  qed
  have lo: "bit w (n - 1)" if "0 < n"
  proof -
    have "unat w div 2 ^ (n - 1) = 1"
    proof (rule div_nat_eqI)
      show "2 ^ (n - 1) * 1 \<le> unat w" using top [OF that] by simp
      have "2 ^ (n - 1) * Suc 1 = (2::nat) ^ n" using that by (cases n) auto
      then show "unat w < 2 ^ (n - 1) * Suc 1" using lt by simp
    qed
    then have "bit (unat w) (n - 1)" by (simp add: bit_iff_odd)
    then show ?thesis by (simp add: bit_unsigned_iff)
  qed
  have "bit (smear_all w) i \<longleftrightarrow> i < n" for i
    unfolding bit_smear_all using hi lo by (metis Suc_pred' le_less_trans less_Suc_eq_le linorder_not_le not_less0 neq0_conv)
  then have "smear_all w = mask n" using le by (intro bit_word_eqI) (simp add: bit_mask_iff)
  then show ?thesis using that le lt top by blast
qed

lemma next_power_of_2_spec:
  assumes "0 < v" "unat v \<le> 2 ^ 63"
  obtains n where "n \<le> 63" "next_power_of_2 v = 2 ^ n" "unat v \<le> 2 ^ n" "2 ^ n < 2 * unat v"
proof -
  have v: "unat (v - 1) = unat v - 1" "0 < unat v" using assms(1) by (simp_all add: unat_minus_one word_greater_zero_iff unat_gt_0)
  then have "unat (v - 1) < 2 ^ 63" using assms(2) by auto
  then obtain n where n: "n \<le> 63" "smear_all (v - 1) = mask n" "unat (v - 1) < 2 ^ n" "0 < n \<Longrightarrow> 2 ^ (n - 1) \<le> unat (v - 1)"
    by (rule smear_all_mask) blast
  have "next_power_of_2 v = 2 ^ n" using n(2) by (simp add: next_power_of_2_def smear_all_def mask_eq_exp_minus_1)
  moreover have "unat v \<le> 2 ^ n" using n(3) v by auto
  moreover have "2 ^ n < 2 * unat v"
  proof (cases n)
    case (Suc k)
    then show ?thesis using n(4) v by (auto simp: Suc_le_eq)
  qed (use v in simp)
  ultimately show ?thesis using that n(1) by blast
qed

section \<open>The invariant and the abstract map\<close>

definition hm_kv :: "hashmap_entry \<Rightarrow> bytes \<times> u64" where
  "hm_kv e = (he_key e, he_value e)"

definition hm_entries :: "hashmap \<Rightarrow> hashmap_entry list" where
  "hm_entries m = concat (map (hm_buckets m) [0..<unat (hm_capacity m)])"

text \<open>The finite map a table stands for; no hash or bucket occurs in it.\<close>

definition hm_view :: "hashmap \<Rightarrow> bytes \<rightharpoonup> u64" where
  "hm_view m = map_of (map hm_kv (hm_entries m))"

definition entry_ok :: "u64 \<Rightarrow> nat \<Rightarrow> hashmap_entry \<Rightarrow> bool" where
  "entry_ok cap i e \<longleftrightarrow> he_hash e = fnv1a_hash (he_key e) \<and> bucket_of (he_hash e) cap = i \<and> 0 \<notin> set (he_key e)"

definition bucket_ok :: "u64 \<Rightarrow> nat \<Rightarrow> hashmap_entry list \<Rightarrow> bool" where
  "bucket_ok cap i es \<longleftrightarrow> list_all (entry_ok cap i) es \<and> distinct (map he_key es)"

definition hm_inv :: "hashmap \<Rightarrow> bool" where
  "hm_inv m \<longleftrightarrow>
     (\<exists>k. 4 \<le> k \<and> k \<le> 57 \<and> hm_capacity m = 2 ^ k)
   \<and> hm_load_threshold m = hm_capacity m * 75 div 100
   \<and> hm_count m \<le> hm_load_threshold m
   \<and> (\<forall>i < unat (hm_capacity m). bucket_ok (hm_capacity m) i (hm_buckets m i))
   \<and> unat (hm_count m) = (\<Sum>i<unat (hm_capacity m). length (hm_buckets m i))"

lemma unat_exp64:
  assumes "k < 64"
  shows "unat (2 ^ k :: u64) = 2 ^ k"
proof -
  have "(2::nat) ^ k < 2 ^ 64" using assms by (intro power_strict_increasing) simp_all
  then have "unat (of_nat (2 ^ k) :: u64) = 2 ^ k" by (simp only: unat_of_nat take_bit_nat_eq_self len_num0 len_bit0 len_num1) (simp add: take_bit_nat_eq_self)
  then show ?thesis by simp
qed

lemma bucket_of_less:
  assumes "k < 64"
  shows "bucket_of h (2 ^ k) < unat (2 ^ k :: u64)"
proof -
  have "bucket_of h (2 ^ k) = unat (take_bit k h)"
    by (simp add: bucket_of_def take_bit_eq_mask mask_eq_exp_minus_1)
  also have "\<dots> < 2 ^ k" by (simp add: unsigned_take_bit_eq)
  finally show ?thesis using assms by (simp add: unat_exp64)
qed

lemma hm_invD:
  assumes "hm_inv m"
  shows "hm_load_threshold m = hm_capacity m * 75 div 100"
    and "bucket_of h (hm_capacity m) < unat (hm_capacity m)"
    and "i < unat (hm_capacity m) \<Longrightarrow> bucket_ok (hm_capacity m) i (hm_buckets m i)"
    and "bucket_ok (hm_capacity m) (bucket_of h (hm_capacity m)) (hm_buckets m (bucket_of h (hm_capacity m)))"
    and "unat (hm_count m) = (\<Sum>i<unat (hm_capacity m). length (hm_buckets m i))"
    and "hm_count m \<le> hm_load_threshold m"
proof -
  obtain k where k: "4 \<le> k" "k \<le> 57" "hm_capacity m = 2 ^ k" using assms by (auto simp: hm_inv_def)
  show b: "bucket_of h (hm_capacity m) < unat (hm_capacity m)" for h using bucket_of_less [of k h] k by simp
  show "bucket_ok (hm_capacity m) (bucket_of h (hm_capacity m)) (hm_buckets m (bucket_of h (hm_capacity m)))"
    using assms b [of h] by (simp add: hm_inv_def)
qed (use assms in \<open>auto simp: hm_inv_def\<close>)

lemma fnv1a_cval [simp]: "fnv1a_hash (cval key) = fnv1a_hash key"
proof -
  have "fnv1a_loop (cval key) h = fnv1a_loop key h" for h
    by (induction key arbitrary: h) (auto simp: cval_def)
  then show ?thesis by (simp add: fnv1a_hash_def)
qed

lemma dup_key_cval: "dup_key mem key = (if mem 2 then Some (cval key) else None)"
  by (simp add: dup_key_def strlen_cval cval_def flip: takeWhile_eq_take)

lemma cval_id: "0 \<notin> set s \<Longrightarrow> cval s = s"
  unfolding cval_def by (rule takeWhile_eq_all_conv [THEN iffD2]) metis

lemma cval_no_zero: "0 \<notin> set (cval s)"
  by (auto simp: cval_def dest: set_takeWhileD)

lemma entry_match_key:
  assumes "entry_ok cap i e"
  shows "entry_match (fnv1a_hash key) key e \<longleftrightarrow> he_key e = cval key"
proof -
  have "cval (he_key e) = he_key e" "he_hash e = fnv1a_hash (he_key e)" using assms by (auto simp: entry_ok_def cval_id)
  then show ?thesis using fnv1a_cval [of key] by (auto simp: entry_match_def strcmp_0_iff)
qed

lemma chain_get_map_of:
  "list_all (entry_ok cap i) es \<Longrightarrow> chain_get (fnv1a_hash key) key es = map_of (map hm_kv es) (cval key)"
  by (induction es) (auto simp: entry_match_key hm_kv_def)

lemma chain_set_None:
  "list_all (entry_ok cap i) es \<Longrightarrow> chain_set (fnv1a_hash key) key v es = None \<longleftrightarrow> cval key \<notin> he_key ` set es"
  by (induction es) (auto simp: entry_match_key split: option.splits)

lemma chain_set_Some:
  assumes "bucket_ok cap i es" "chain_set (fnv1a_hash key) key v es = Some es'"
  shows "bucket_ok cap i es'" "length es' = length es" "map he_key es' = map he_key es"
    "map_of (map hm_kv es') = (map_of (map hm_kv es))(cval key \<mapsto> v)" "cval key \<in> he_key ` set es"
proof -
  have "bucket_ok cap i es' \<and> length es' = length es \<and> map he_key es' = map he_key es
    \<and> map_of (map hm_kv es') = (map_of (map hm_kv es))(cval key \<mapsto> v) \<and> cval key \<in> he_key ` set es"
    using assms
  proof (induction es arbitrary: es')
    case (Cons e es)
    have e: "entry_match (fnv1a_hash key) key e \<longleftrightarrow> he_key e = cval key"
      using Cons.prems(1) by (intro entry_match_key [of cap i]) (simp add: bucket_ok_def)
    show ?case
    proof (cases "he_key e = cval key")
      case True
      then show ?thesis using Cons.prems e
        by (auto simp: bucket_ok_def hm_kv_def entry_ok_def fun_eq_iff)
    next
      case False
      then obtain es1 where es1: "chain_set (fnv1a_hash key) key v es = Some es1" "es' = e # es1"
        using Cons.prems(2) e by (auto split: option.splits)
      have "bucket_ok cap i es" using Cons.prems(1) by (simp add: bucket_ok_def)
      note IH = Cons.IH [OF this es1(1)]
      have keys: "he_key ` set es1 = he_key ` set es" using IH by (metis list.set_map)
      show ?thesis using IH Cons.prems(1) False keys unfolding es1(2) bucket_ok_def
        by (auto simp: hm_kv_def fun_upd_twist)
    qed
  qed simp
  then show "bucket_ok cap i es'" "length es' = length es" "map he_key es' = map he_key es"
    "map_of (map hm_kv es') = (map_of (map hm_kv es))(cval key \<mapsto> v)" "cval key \<in> he_key ` set es" by blast+
qed

lemma chain_unlink_None:
  "list_all (entry_ok cap i) es \<Longrightarrow> chain_unlink (fnv1a_hash key) key es = None \<longleftrightarrow> cval key \<notin> he_key ` set es"
  by (induction es) (auto simp: entry_match_key split: option.splits)

lemma chain_unlink_Some:
  assumes "bucket_ok cap i es" "chain_unlink (fnv1a_hash key) key es = Some (v, es')"
  shows "bucket_ok cap i es' \<and> length es = Suc (length es') \<and> map_of (map hm_kv es) (cval key) = Some v
    \<and> map_of (map hm_kv es') = (map_of (map hm_kv es))(cval key := None)"
  using assms
proof (induction es arbitrary: es')
  case (Cons e es)
  have ok: "bucket_ok cap i es" "he_key e \<notin> he_key ` set es" using Cons.prems(1) by (auto simp: bucket_ok_def)
  have e: "entry_match (fnv1a_hash key) key e \<longleftrightarrow> he_key e = cval key"
    using Cons.prems(1) by (intro entry_match_key [of cap i]) (simp add: bucket_ok_def)
  show ?case
  proof (cases "he_key e = cval key")
    case True
    then have "map_of (map hm_kv es) (cval key) = None" using ok(2) by (auto simp: map_of_eq_None_iff hm_kv_def image_iff)
    moreover have "hm_kv e = (cval key, he_value e)" using True by (simp add: hm_kv_def)
    moreover have "v = he_value e" "es' = es" using Cons.prems(2) e True by simp_all
    ultimately show ?thesis using ok by (simp add: fun_eq_iff)
  next
    case False
    then obtain es1 where es1: "chain_unlink (fnv1a_hash key) key es = Some (v, es1)" "es' = e # es1"
      using Cons.prems(2) e by (auto split: option.splits)
    note IH = Cons.IH [OF ok(1) es1(1)]
    have "map_of (map hm_kv es) (he_key e) = None" using ok(2) by (auto simp: map_of_eq_None_iff hm_kv_def image_iff)
    then have "map_of (map hm_kv es1) (he_key e) = None" using IH by simp
    then have "he_key e \<notin> he_key ` set es1" by (auto simp: map_of_eq_None_iff hm_kv_def image_iff)
    then show ?thesis using IH Cons.prems(1) False unfolding es1(2) bucket_ok_def
      by (auto simp: hm_kv_def fun_eq_iff)
  qed
qed simp

section \<open>The buckets hold the map\<close>

lemma set_hm_entries: "e \<in> set (hm_entries m) \<longleftrightarrow> (\<exists>i < unat (hm_capacity m). e \<in> set (hm_buckets m i))"
  by (auto simp: hm_entries_def)

lemma hm_entry_bucket:
  assumes "hm_inv m" "e \<in> set (hm_entries m)"
  shows "e \<in> set (hm_buckets m (bucket_of (fnv1a_hash (he_key e)) (hm_capacity m)))"
proof -
  obtain i where i: "i < unat (hm_capacity m)" "e \<in> set (hm_buckets m i)" using assms(2) by (auto simp: set_hm_entries)
  then have "entry_ok (hm_capacity m) i e" using hm_invD(3) [OF assms(1) i(1)] by (auto simp: bucket_ok_def list_all_iff)
  then show ?thesis using i by (auto simp: entry_ok_def)
qed

text \<open>Keys that lie in the bucket of their hash are distinct across the buckets.\<close>

lemma distinct_concat_buckets:
  assumes "\<And>i. i < n \<Longrightarrow> bucket_ok cap i (b i)"
  shows "distinct (map he_key (concat (map b [0..<n])))"
  using assms
proof (induction n)
  case (Suc n)
  have "he_key e \<noteq> he_key f" if "i < n" "e \<in> set (b i)" "f \<in> set (b n)" for i e f
  proof -
    have "entry_ok cap i e" "entry_ok cap n f"
      using Suc.prems [of i] Suc.prems [of n] that by (auto simp: bucket_ok_def list_all_iff)
    then show ?thesis using that by (auto simp: entry_ok_def)
  qed
  moreover have "distinct (map he_key (b n))" using Suc.prems [of n] by (simp add: bucket_ok_def)
  moreover have "distinct (map he_key (concat (map b [0..<n])))" using Suc by simp
  ultimately show ?case by fastforce
qed simp

lemma distinct_hm_keys: "hm_inv m \<Longrightarrow> distinct (map he_key (hm_entries m))"
  unfolding hm_entries_def by (rule distinct_concat_buckets) (rule hm_invD(3))

lemma map_of_kv:
  assumes "distinct (map he_key es)"
  shows "map_of (map hm_kv es) k = Some v \<longleftrightarrow> (\<exists>e \<in> set es. he_key e = k \<and> he_value e = v)"
proof -
  have "distinct (map fst (map hm_kv es))" using assms by (simp add: hm_kv_def comp_def)
  then have "map_of (map hm_kv es) k = Some v \<longleftrightarrow> (k, v) \<in> set (map hm_kv es)" by (rule map_of_eq_Some_iff)
  then show ?thesis by (auto simp: hm_kv_def)
qed

lemma hm_view_Some:
  "hm_inv m \<Longrightarrow> hm_view m k = Some v \<longleftrightarrow> (\<exists>e \<in> set (hm_entries m). he_key e = k \<and> he_value e = v)"
  unfolding hm_view_def by (rule map_of_kv) (rule distinct_hm_keys)

lemma hm_view_bucket:
  assumes "hm_inv m"
  shows "hm_view m k = map_of (map hm_kv (hm_buckets m (bucket_of (fnv1a_hash k) (hm_capacity m)))) k"
proof -
  let ?i = "bucket_of (fnv1a_hash k) (hm_capacity m)"
  have d: "distinct (map he_key (hm_buckets m ?i))" using hm_invD(4) [OF assms] by (simp add: bucket_ok_def)
  have "hm_view m k = Some v \<longleftrightarrow> map_of (map hm_kv (hm_buckets m ?i)) k = Some v" for v
    unfolding hm_view_Some [OF assms] map_of_kv [OF d]
    using hm_entry_bucket [OF assms] hm_invD(2) [OF assms] set_hm_entries [of _ m] by metis
  then show ?thesis by (metis not_None_eq)
qed

lemma chain_get_view:
  assumes "hm_inv m"
  shows "chain_get (fnv1a_hash key) key (hm_buckets m (bucket_of (fnv1a_hash key) (hm_capacity m))) = hm_view m (cval key)"
proof -
  let ?i = "bucket_of (fnv1a_hash key) (hm_capacity m)"
  have "list_all (entry_ok (hm_capacity m) ?i) (hm_buckets m ?i)" using hm_invD(4) [OF assms] by (simp add: bucket_ok_def)
  from chain_get_map_of [OF this] show ?thesis by (simp add: hm_view_bucket [OF assms])
qed

lemma length_hm_entries: "length (hm_entries m) = (\<Sum>i<unat (hm_capacity m). length (hm_buckets m i))"
  by (simp add: hm_entries_def length_concat comp_def sum_list_distinct_conv_sum_set atLeast0LessThan)

lemma hm_count_card:
  assumes "hm_inv m"
  shows "unat (hm_count m) = card (dom (hm_view m))"
proof -
  have "dom (hm_view m) = set (map he_key (hm_entries m))"
    by (auto simp: hm_view_def dom_map_of_conv_image_fst hm_kv_def image_iff)
  then have "card (dom (hm_view m)) = length (map he_key (hm_entries m))"
    using distinct_card [OF distinct_hm_keys [OF assms]] by simp
  then show ?thesis using hm_invD(5) [OF assms] by (simp add: length_hm_entries)
qed

text \<open>Replacing the bucket of a key by one that holds the old bucket's map, changed at the key.\<close>

lemma hm_bucket_update:
  assumes "hm_inv m" "i = bucket_of (fnv1a_hash k) (hm_capacity m)" "bucket_ok (hm_capacity m) i es"
    and "map_of (map hm_kv es) = (map_of (map hm_kv (hm_buckets m i)))(k := r)"
    and "unat c + length (hm_buckets m i) = unat (hm_count m) + length es" "c \<le> hm_load_threshold m"
  shows "hm_inv (m\<lparr>hm_buckets := (hm_buckets m)(i := es), hm_count := c\<rparr>)"
    and "hm_view (m\<lparr>hm_buckets := (hm_buckets m)(i := es), hm_count := c\<rparr>) = (hm_view m)(k := r)"
proof -
  let ?m = "m\<lparr>hm_buckets := (hm_buckets m)(i := es), hm_count := c\<rparr>"
  let ?n = "unat (hm_capacity m)"
  have i: "i < ?n" using hm_invD(2) [OF assms(1)] assms(2) by simp
  have "(\<Sum>j<?n. length (((hm_buckets m)(i := es)) j)) + length (hm_buckets m i) = (\<Sum>j<?n. length (hm_buckets m j)) + length es"
    using i by (subst (1 2) sum.remove [of "{..<?n}" i]) (auto intro!: sum.cong)
  then have "unat c = (\<Sum>j<?n. length (((hm_buckets m)(i := es)) j))" using assms(5) hm_invD(5) [OF assms(1)] by simp
  then show inv: "hm_inv ?m" using assms(1,3,6) by (simp add: hm_inv_def)
  have "hm_view ?m x = ((hm_view m)(k := r)) x" for x
  proof (cases "bucket_of (fnv1a_hash x) (hm_capacity m) = i")
    case True
    then show ?thesis using assms(4) by (simp add: hm_view_bucket [OF inv] hm_view_bucket [OF assms(1)])
  next
    case False
    then have "x \<noteq> k" using assms(2) by auto
    with False show ?thesis by (simp add: hm_view_bucket [OF inv] hm_view_bucket [OF assms(1)])
  qed
  then show "hm_view ?m = (hm_view m)(k := r)" by blast
qed

section \<open>Growing the table\<close>

lemma rehash_bucket:
  "fold (rehash_entry cap) es b j = rev (filter (\<lambda>e. bucket_of (he_hash e) cap = j) es) @ b j"
  by (induction es arbitrary: b) auto

lemma resize_buckets:
  "fold (\<lambda>i b. fold (rehash_entry cap) (f i) b) [0..<n] b = fold (rehash_entry cap) (concat (map f [0..<n])) b"
  by (induction n) simp_all

lemma sum_length_partition:
  assumes "\<And>e. e \<in> set es \<Longrightarrow> f e < (n::nat)"
  shows "(\<Sum>j<n. length (filter (\<lambda>e. f e = j) es)) = length es"
  using assms
proof (induction es)
  case (Cons e es)
  have "(\<Sum>j<n. length (filter (\<lambda>x. f x = j) (e # es)))
      = (\<Sum>j<n. (if f e = j then 1 else 0) + length (filter (\<lambda>x. f x = j) es))"
    by (rule sum.cong) auto
  also have "\<dots> = (\<Sum>j<n. if f e = j then 1 else 0) + length es" using Cons by (simp add: sum.distrib)
  also have "(\<Sum>j<n. if f e = j then 1 else 0) = (1::nat)" using Cons.prems [of e] by (subst sum.delta') simp_all
  finally show ?case by simp
qed simp

lemma threshold_grows:
  assumes "4 \<le> k" "Suc k \<le> 57"
  shows "(2 ^ k * 75 div 100 :: u64) < 2 ^ k * 2 * 75 div 100"
proof -
  have le: "(2::nat) ^ k \<le> 2 ^ 56" "(2::nat) ^ 4 \<le> 2 ^ k" by (rule power_increasing; use assms in simp)+
  have "unat (2 ^ k * 75 :: u64) = 2 ^ k * 75" "unat (2 ^ k * 2 * 75 :: u64) = 2 ^ k * 2 * 75"
    using le assms by (simp_all add: unat_word_ariths unat_exp64)
  then have "unat (2 ^ k * 75 div 100 :: u64) = 2 ^ k * 75 div 100" "unat (2 ^ k * 2 * 75 div 100 :: u64) = 2 ^ k * 2 * 75 div 100"
    by (simp_all add: unat_div)
  moreover have "(2::nat) ^ k * 75 div 100 < 2 ^ k * 2 * 75 div 100" using le(2) by simp
  ultimately show ?thesis by (simp add: word_less_nat_alt)
qed

lemma hashmap_resize_spec:
  assumes "hm_inv m" "hm_capacity m < 2 ^ 57" "hashmap_resize mem (hm_capacity m * 2) m = (None, m')"
  shows "hm_inv m'" and "hm_view m' = hm_view m" and "hm_count m' = hm_count m"
    and "hm_capacity m' = hm_capacity m * 2" and "hm_count m' < hm_load_threshold m'"
proof -
  let ?c = "hm_capacity m * 2"
  have m': "m' = m\<lparr>hm_buckets := fold (rehash_entry ?c) (hm_entries m) (\<lambda>_. []), hm_capacity := ?c, hm_load_threshold := ?c * 75 div 100\<rparr>"
    using assms(3) by (auto simp: hashmap_resize_def hm_entries_def resize_buckets split: if_splits)
  obtain k where k: "4 \<le> k" "k \<le> 57" "hm_capacity m = 2 ^ k" using assms(1) by (auto simp: hm_inv_def)
  have "k \<noteq> 57" using assms(2) k by auto
  then have c: "?c = 2 ^ Suc k" "Suc k \<le> 57" using k by simp_all
  have less: "bucket_of h ?c < unat ?c" for h unfolding c(1) by (rule bucket_of_less) (use c(2) in simp)
  have b: "hm_buckets m' j = rev (filter (\<lambda>e. bucket_of (he_hash e) ?c = j) (hm_entries m))" for j
    by (simp add: m' rehash_bucket)
  have ok: "he_hash e = fnv1a_hash (he_key e) \<and> 0 \<notin> set (he_key e)" if "e \<in> set (hm_entries m)" for e
    using that hm_invD(3) [OF assms(1)] by (auto simp: set_hm_entries bucket_ok_def list_all_iff entry_ok_def)
  have bok: "bucket_ok ?c j (hm_buckets m' j)" for j
    unfolding b bucket_ok_def using ok distinct_hm_keys [OF assms(1)]
    by (auto simp: list_all_iff entry_ok_def rev_map [symmetric] distinct_map_filter)
  have "(\<Sum>j<unat ?c. length (hm_buckets m' j)) = length (hm_entries m)"
    using sum_length_partition [of "hm_entries m" "\<lambda>e. bucket_of (he_hash e) ?c" "unat ?c"] less by (simp add: b)
  then have cnt: "unat (hm_count m') = (\<Sum>j<unat ?c. length (hm_buckets m' j))"
    using hm_invD(5) [OF assms(1)] by (simp add: m' length_hm_entries)
  have f: "hm_capacity m' = ?c" "hm_load_threshold m' = ?c * 75 div 100" by (simp_all add: m')
  have ex: "\<exists>k. 4 \<le> k \<and> k \<le> 57 \<and> hm_capacity m' = 2 ^ k" using c k(1) f by (intro exI [of _ "Suc k"]) simp
  show less_thr: "hm_count m' < hm_load_threshold m'"
    using hm_invD(6) [OF assms(1)] hm_invD(1) [OF assms(1)] threshold_grows [OF k(1) c(2)] k(3) by (simp add: m')
  show inv: "hm_inv m'" unfolding hm_inv_def using ex bok cnt f less_thr by simp
  have "e \<in> set (hm_entries m') \<longleftrightarrow> e \<in> set (hm_entries m)" for e
    using less by (auto simp: set_hm_entries [of e m'] f b)
  then have "hm_view m' x = Some v \<longleftrightarrow> hm_view m x = Some v" for x v
    unfolding hm_view_Some [OF inv] hm_view_Some [OF assms(1)] by blast
  then show "hm_view m' = hm_view m" by (metis not_None_eq ext)
  show "hm_count m' = hm_count m" and "hm_capacity m' = ?c" by (simp_all add: m')
qed

section \<open>The operations on the map\<close>

lemma hm_key_absent:
  assumes "hm_inv m" "hm_view m (cval key) = None"
  shows "cval key \<notin> he_key ` set (hm_buckets m (bucket_of (fnv1a_hash key) (hm_capacity m)))"
proof
  assume "cval key \<in> he_key ` set (hm_buckets m (bucket_of (fnv1a_hash key) (hm_capacity m)))"
  then obtain e where "e \<in> set (hm_entries m)" "he_key e = cval key"
    using hm_invD(2) [OF assms(1)] set_hm_entries [of _ m] by (metis imageE)
  then have "hm_view m (cval key) = Some (he_value e)" using hm_view_Some [OF assms(1)] by metis
  with assms(2) show False by simp
qed

lemma unat_Suc_less: "(a::u64) < b \<Longrightarrow> unat (a + 1) = Suc (unat a)"
  using unat64_less [of b] by (simp add: word_less_nat_alt unat_word_ariths)

lemma hashmap_insert_spec:
  assumes "hm_inv m" "hm_view m (cval key) = None" "hm_count m < hm_load_threshold m"
    and "hashmap_insert mem key (fnv1a_hash key) v m = (r, m')"
  shows "(r = None \<and> hm_inv m' \<and> hm_view m' = (hm_view m)(cval key \<mapsto> v)) \<or> (r = Some ENOMEM \<and> m' = m \<and> \<not> (mem 1 \<and> mem 2))"
proof (cases "mem 1 \<and> mem 2")
  case True
  let ?i = "bucket_of (fnv1a_hash key) (hm_capacity m)"
  let ?e = "\<lparr>he_key = cval key, he_value = v, he_hash = fnv1a_hash key\<rparr>"
  have m': "r = None" "m' = m\<lparr>hm_buckets := (hm_buckets m)(?i := ?e # hm_buckets m ?i), hm_count := hm_count m + 1\<rparr>"
    using assms(4) True by (simp_all add: hashmap_insert_def dup_key_cval Let_def)
  have ok: "bucket_ok (hm_capacity m) ?i (?e # hm_buckets m ?i)"
    using hm_invD(4) [OF assms(1)] hm_key_absent [OF assms(1,2)] cval_no_zero
    by (auto simp: bucket_ok_def entry_ok_def)
  have ge: "hm_count m + 1 \<le> hm_load_threshold m" and "unat (hm_count m + 1) = Suc (unat (hm_count m))"
    using assms(3) inc_le [OF assms(3)] by (auto simp: unat_Suc_less)
  then have c: "unat (hm_count m + 1) + length (hm_buckets m ?i) = unat (hm_count m) + length (?e # hm_buckets m ?i)" by simp
  have v: "map_of (map hm_kv (?e # hm_buckets m ?i)) = (map_of (map hm_kv (hm_buckets m ?i)))(cval key \<mapsto> v)"
    by (simp add: hm_kv_def)
  have i: "?i = bucket_of (fnv1a_hash (cval key)) (hm_capacity m)" by simp
  show ?thesis using hm_bucket_update [OF assms(1) i ok v c ge] m' by simp
next
  case False
  then show ?thesis using assms(4) by (auto simp: hashmap_insert_def dup_key_cval Let_def split: if_splits)
qed

lemma full_below_top:
  assumes "hm_inv m" "hm_load_threshold m \<le> hm_count m" "unat (hm_count m) < 2 ^ 56"
  shows "hm_capacity m < 2 ^ 57"
proof -
  obtain k where k: "4 \<le> k" "k \<le> 57" "hm_capacity m = 2 ^ k" using assms(1) by (auto simp: hm_inv_def)
  have "k \<noteq> 57"
  proof
    assume "k = 57"
    then have "unat (hm_load_threshold m) = 2 ^ 57 * 75 div 100" using k(3) hm_invD(1) [OF assms(1)] by simp
    then show False using assms(2,3) by (simp add: word_le_nat_alt)
  qed
  then have "(2::nat) ^ k < 2 ^ 57" using k(2) by (intro power_strict_increasing) simp_all
  then show ?thesis using k by (simp add: word_less_nat_alt unat_exp64)
qed

lemma hashmap_put_spec:
  assumes "hm_inv m" "unat (hm_count m) < 2 ^ 56" "hashmap_put mem key v m = (r, m')"
  shows "hm_inv m' \<and> (r = None \<and> hm_view m' = (hm_view m)(cval key \<mapsto> v)
    \<or> r = Some ENOMEM \<and> hm_view m' = hm_view m \<and> \<not> (mem 0 \<and> mem 1 \<and> mem 2))"
proof -
  let ?h = "fnv1a_hash key" let ?i = "bucket_of (fnv1a_hash key) (hm_capacity m)"
  have ok: "bucket_ok (hm_capacity m) ?i (hm_buckets m ?i)" by (rule hm_invD(4) [OF assms(1)])
  show ?thesis
  proof (cases "chain_set ?h key v (hm_buckets m ?i)")
    case (Some es)
    note c = chain_set_Some [OF ok Some]
    have i: "?i = bucket_of (fnv1a_hash (cval key)) (hm_capacity m)" by simp
    have "r = None" "m' = m\<lparr>hm_buckets := (hm_buckets m)(?i := es), hm_count := hm_count m\<rparr>"
      using assms(3) Some by (auto simp: hashmap_put_def Let_def)
    then show ?thesis using hm_bucket_update [OF assms(1) i c(1,4), of "hm_count m"] c(2) hm_invD(6) [OF assms(1)] by simp
  next
    case None
    have "cval key \<notin> he_key ` set (hm_buckets m ?i)"
      using None chain_set_None ok unfolding bucket_ok_def by blast
    then have "hm_view m (cval key) = None"
      by (auto simp: hm_view_bucket [OF assms(1)] map_of_eq_None_iff hm_kv_def image_iff)
    note absent = this
    show ?thesis
    proof (cases "hm_load_threshold m \<le> hm_count m")
      case True
      obtain r1 m1 where rs: "hashmap_resize mem (hm_capacity m * 2) m = (r1, m1)" by fastforce
      show ?thesis
      proof (cases r1)
        case None1: None
        note s = hashmap_resize_spec [OF assms(1) full_below_top [OF assms(1) True assms(2)] rs [unfolded None1]]
        have "hashmap_insert mem key ?h v m1 = (r, m')" using assms(3) None True rs None1 by (simp add: hashmap_put_def Let_def)
        from hashmap_insert_spec [OF s(1) _ s(5) this] absent s show ?thesis by auto
      next
        case (Some e)
        then have "r = Some ENOMEM" "m' = m" "\<not> mem 0"
          using assms(3) None True rs by (auto simp: hashmap_put_def hashmap_resize_def Let_def split: if_splits)
        then show ?thesis using assms(1) by simp
      qed
    next
      case False
      then have "hashmap_insert mem key ?h v m = (r, m')" using assms(3) None by (simp add: hashmap_put_def Let_def)
      moreover have "hm_count m < hm_load_threshold m" using False by (simp add: not_le)
      ultimately show ?thesis using hashmap_insert_spec [OF assms(1) absent] assms(1) by blast
    qed
  qed
qed

lemma hashmap_remove_spec:
  assumes "hm_inv m" "hashmap_remove key m = (v, m')"
  shows "hm_inv m'" "hm_view m' = (hm_view m)(cval key := None)"
    "v = (case hm_view m (cval key) of Some v \<Rightarrow> v | None \<Rightarrow> 0)"
proof -
  let ?i = "bucket_of (fnv1a_hash key) (hm_capacity m)"
  have ok: "bucket_ok (hm_capacity m) ?i (hm_buckets m ?i)" by (rule hm_invD(4) [OF assms(1)])
  have view: "hm_view m (cval key) = map_of (map hm_kv (hm_buckets m ?i)) (cval key)" by (simp add: hm_view_bucket [OF assms(1)])
  have "hm_inv m' \<and> hm_view m' = (hm_view m)(cval key := None) \<and> v = (case hm_view m (cval key) of Some v \<Rightarrow> v | None \<Rightarrow> 0)"
  proof (cases "chain_unlink (fnv1a_hash key) key (hm_buckets m ?i)")
    case None
    then have "cval key \<notin> he_key ` set (hm_buckets m ?i)" using chain_unlink_None ok unfolding bucket_ok_def by blast
    then have "hm_view m (cval key) = None" unfolding view by (auto simp: map_of_eq_None_iff hm_kv_def image_iff)
    then show ?thesis using assms None by (simp add: hashmap_remove_def Let_def fun_upd_idem)
  next
    case (Some p)
    then obtain w es where p: "chain_unlink (fnv1a_hash key) key (hm_buckets m ?i) = Some (w, es)" by (cases p) auto
    note u = chain_unlink_Some [OF ok p]
    have i: "?i = bucket_of (fnv1a_hash (cval key)) (hm_capacity m)" by simp
    have len: "length (hm_buckets m ?i) \<le> unat (hm_count m)"
      unfolding hm_invD(5) [OF assms(1)] by (rule member_le_sum) (use hm_invD(2) [OF assms(1)] in auto)
    then have pos: "hm_count m \<noteq> 0" using u by auto
    then have d: "unat (hm_count m - 1) = unat (hm_count m) - 1" by (simp add: unat_minus_one)
    then have c: "unat (hm_count m - 1) + length (hm_buckets m ?i) = unat (hm_count m) + length es" using u len by simp
    have "hm_count m - 1 \<le> hm_count m" using d by (simp add: word_le_nat_alt)
    then have ge: "hm_count m - 1 \<le> hm_load_threshold m" using hm_invD(6) [OF assms(1)] by (rule order_trans)
    have "v = w" "m' = m\<lparr>hm_buckets := (hm_buckets m)(?i := es), hm_count := hm_count m - 1\<rparr>"
      using assms(2) p by (simp_all add: hashmap_remove_def Let_def)
    then show ?thesis using hm_bucket_update [OF assms(1) i _ _ c ge] u view by simp
  qed
  then show "hm_inv m'" "hm_view m' = (hm_view m)(cval key := None)"
    "v = (case hm_view m (cval key) of Some v \<Rightarrow> v | None \<Rightarrow> 0)" by blast+
qed

lemma fold_clear: "fold (\<lambda>i b. b(i := [])) [0..<n] b = (\<lambda>i. if i < n then [] else b i)"
  by (induction n) (auto simp: fun_eq_iff)

lemma hashmap_clear_spec:
  assumes "hm_inv m"
  shows "hm_inv (hashmap_clear m)" and "hm_view (hashmap_clear m) = Map.empty"
proof -
  have e: "hm_entries (hashmap_clear m) = []" by (simp add: hm_entries_def hashmap_clear_def fold_clear)
  show "hm_view (hashmap_clear m) = Map.empty" by (simp add: hm_view_def e)
  show "hm_inv (hashmap_clear m)" using assms by (auto simp: hm_inv_def hashmap_clear_def fold_clear bucket_ok_def)
qed

lemma empty_hashmap_inv:
  assumes "4 \<le> k" "k \<le> 57" "hm_capacity m = 2 ^ k" "hm_buckets m = (\<lambda>_. [])" "hm_count m = 0"
    and "hm_load_threshold m = hm_capacity m * 75 div 100"
  shows "hm_inv m" and "hm_view m = Map.empty"
  using assms by (auto simp: hm_inv_def bucket_ok_def hm_view_def hm_entries_def)

lemma hashmap_create_spec:
  assumes "unat n \<le> 2 ^ 57" "hashmap_create mem n = Some m"
  shows "hm_inv m" and "hm_view m = Map.empty"
proof -
  let ?n = "if n < DEFAULT_CAPACITY then DEFAULT_CAPACITY else n"
  have n: "0 < ?n" "unat ?n \<le> 2 ^ 57" "16 \<le> unat ?n" using assms(1)
    by (auto simp: word_less_nat_alt)
  then obtain k where k: "next_power_of_2 ?n = 2 ^ k" "unat ?n \<le> 2 ^ k" "2 ^ k < 2 * unat ?n"
    by (rule_tac next_power_of_2_spec [of ?n]) (auto simp: word_less_nat_alt)
  have "(2::nat) ^ k < 2 ^ 58" "(2::nat) ^ 3 < 2 ^ k" using k n by simp_all
  then have "k < 58" "3 < k" by (simp_all only: power_strict_increasing_iff)
  then show "hm_inv m" and "hm_view m = Map.empty"
    using assms(2) k(1) by (intro empty_hashmap_inv [of k m]; auto simp: hashmap_create_def Let_def split: if_splits)+
qed

lemma fold_concat_map: "fold (\<lambda>i. fold g (f i)) xs u = fold g (concat (map f xs)) u"
  by (induction xs arbitrary: u) simp_all

lemma hashmap_foreach_entries:
  "hashmap_foreach callback m u = fold (\<lambda>(k, v). callback k v) (map hm_kv (hm_entries m)) u"
  by (simp add: hashmap_foreach_def fold_concat_map hm_entries_def fold_map comp_def hm_kv_def)

section \<open>The interface\<close>

text \<open>
  What the agent's tables rely on of a map from strings to pointers. \<open>sm_room\<close> bounds the number of keys
  that can still be added before the counters of the table wrap.
\<close>

locale string_map =
  fixes sm_inv :: "'s \<Rightarrow> bool"
    and sm_view :: "'s \<Rightarrow> bytes \<rightharpoonup> u64"
    and sm_room :: "'s \<Rightarrow> nat"
    and sm_put :: "(nat \<Rightarrow> bool) \<Rightarrow> bytes \<Rightarrow> u64 \<Rightarrow> 's \<Rightarrow> errno option \<times> 's"
    and sm_get :: "bytes \<Rightarrow> 's \<Rightarrow> u64"
    and sm_remove :: "bytes \<Rightarrow> 's \<Rightarrow> u64 \<times> 's"
  assumes put: "sm_inv s \<Longrightarrow> 0 < sm_room s \<Longrightarrow> sm_put mem k v s = (r, s') \<Longrightarrow>
      sm_inv s' \<and> sm_view s' = (if r = None then (sm_view s)(cval k \<mapsto> v) else sm_view s)"
    and put_room: "sm_inv s \<Longrightarrow> 0 < sm_room s \<Longrightarrow> sm_room s \<le> Suc (sm_room (snd (sm_put mem k v s)))"
    and put_succeeds: "sm_inv s \<Longrightarrow> 0 < sm_room s \<Longrightarrow> fst (sm_put (\<lambda>_. True) k v s) = None"
    and get: "sm_inv s \<Longrightarrow> sm_get k s = (case sm_view s (cval k) of Some v \<Rightarrow> v | None \<Rightarrow> 0)"
    and remove: "sm_inv s \<Longrightarrow> sm_remove k s = (v, s') \<Longrightarrow>
      sm_inv s' \<and> sm_view s' = (sm_view s)(cval k := None)"
begin

lemma put_snd:
  assumes "sm_inv s" "0 < sm_room s"
  shows "sm_inv (snd (sm_put mem k v s))"
    and "sm_view (snd (sm_put (\<lambda>_. True) k v s)) = (sm_view s)(cval k \<mapsto> v)"
proof -
  show "sm_inv (snd (sm_put mem k v s))" using put [OF assms prod.collapse [symmetric]] by blast
  show "sm_view (snd (sm_put (\<lambda>_. True) k v s)) = (sm_view s)(cval k \<mapsto> v)"
    using put [OF assms prod.collapse [symmetric], of "\<lambda>_. True" k v] put_succeeds [OF assms, of k v] by simp
qed

lemma puts_inv:
  "sm_inv s \<Longrightarrow> length xs \<le> sm_room s \<Longrightarrow> sm_inv (fold (\<lambda>(k, v) s. snd (sm_put mem k v s)) xs s)"
proof (induction xs arbitrary: s)
  case (Cons x xs)
  obtain k v where x: "x = (k, v)" by fastforce
  have room: "0 < sm_room s" using Cons.prems(2) by simp
  have "length xs \<le> sm_room (snd (sm_put mem k v s))" using put_room [OF Cons.prems(1) room, of mem k v] Cons.prems(2) by simp
  from Cons.IH [OF put_snd(1) [OF Cons.prems(1) room] this] show ?case by (simp add: x)
qed simp

lemma puts_view:
  "sm_inv s \<Longrightarrow> length xs \<le> sm_room s \<Longrightarrow>
     sm_view (fold (\<lambda>(k, v) s. snd (sm_put (\<lambda>_. True) k v s)) xs s) = sm_view s ++ map_of (rev (map (\<lambda>(k, v). (cval k, v)) xs))"
proof (induction xs arbitrary: s)
  case (Cons x xs)
  obtain k v where x: "x = (k, v)" by fastforce
  have room: "0 < sm_room s" using Cons.prems(2) by simp
  have "length xs \<le> sm_room (snd (sm_put (\<lambda>_. True) k v s))"
    using put_room [OF Cons.prems(1) room, of "\<lambda>_. True" k v] Cons.prems(2) by simp
  note IH = Cons.IH [OF put_snd(1) [OF Cons.prems(1) room] this, unfolded put_snd(2) [OF Cons.prems(1) room]]
  show ?case unfolding x list.map fold.simps comp_def case_prod_conv IH by simp
qed simp

end

definition hm_room :: "hashmap \<Rightarrow> nat" where
  "hm_room m = 2 ^ 56 - unat (hm_count m)"

lemma finite_hm_view: "finite (dom (hm_view m))"
  by (simp add: hm_view_def finite_dom_map_of)

interpretation hm: string_map hm_inv hm_view hm_room hashmap_put hashmap_get hashmap_remove
proof unfold_locales
  fix s s' :: hashmap and mem k v r
  assume inv: "hm_inv s"
  show "hashmap_get k s = (case hm_view s (cval k) of Some v \<Rightarrow> v | None \<Rightarrow> 0)"
    by (simp add: hashmap_get_def Let_def chain_get_view [OF inv])
  show "hm_inv s' \<and> hm_view s' = (hm_view s)(cval k := None)" if "hashmap_remove k s = (v, s')"
    using hashmap_remove_spec [OF inv that] by blast
  assume "0 < hm_room s"
  then have room: "unat (hm_count s) < 2 ^ 56" by (simp add: hm_room_def)
  show "hm_inv s' \<and> hm_view s' = (if r = None then (hm_view s)(cval k \<mapsto> v) else hm_view s)"
    if "hashmap_put mem k v s = (r, s')" using hashmap_put_spec [OF inv room that] by auto
  show "fst (hashmap_put (\<lambda>_. True) k v s) = None"
    using hashmap_put_spec [OF inv room prod.collapse [symmetric], of "\<lambda>_. True" k v] by blast
  let ?s = "snd (hashmap_put mem k v s)"
  note p = hashmap_put_spec [OF inv room prod.collapse [symmetric], of mem k v]
  have "card (dom (hm_view ?s)) \<le> card (insert (cval k) (dom (hm_view s)))"
    using p by (intro card_mono) (auto simp: finite_hm_view)
  also have "\<dots> \<le> Suc (card (dom (hm_view s)))" by (rule card_insert_le_m1 [OF zero_less_Suc]) simp
  finally have "unat (hm_count ?s) \<le> Suc (unat (hm_count s))" using hm_count_card [OF inv] hm_count_card [of ?s] p by simp
  then show "hm_room s \<le> Suc (hm_room ?s)" using room by (simp add: hm_room_def)
qed

section \<open>The table implements a finite map\<close>

text \<open>C25: The hash table refines a finite map from strings to pointers. For a well-formed table: lookup returns
  the bound pointer or null, membership and size are those of the map, put binds the key (growing and
  rehashing the table when it is three quarters full) or, only when an allocation fails, reports \<open>ENOMEM\<close> and
  leaves the map as it was, remove unbinds the key and returns its old value, clear empties the map, and
  foreach visits every binding once. All of them keep the table well formed.\<close>

theorem hashmap_refines_map:
  assumes "hm_inv m" "unat (hm_count m) < 2 ^ 56"
  shows "hashmap_get key m = (case hm_view m (cval key) of Some v \<Rightarrow> v | None \<Rightarrow> 0)
    \<and> (hashmap_contains key m \<longleftrightarrow> cval key \<in> dom (hm_view m))
    \<and> unat (hashmap_size m) = card (dom (hm_view m))
    \<and> (case hashmap_put mem key v m of
           (None, m') \<Rightarrow> hm_inv m' \<and> hm_view m' = (hm_view m)(cval key \<mapsto> v)
         | (Some e, m') \<Rightarrow> e = ENOMEM \<and> \<not> (mem 0 \<and> mem 1 \<and> mem 2) \<and> hm_inv m' \<and> hm_view m' = hm_view m)
    \<and> (case hashmap_remove key m of
           (v, m') \<Rightarrow> hm_inv m' \<and> hm_view m' = (hm_view m)(cval key := None) \<and> v = hashmap_get key m)
    \<and> hm_inv (hashmap_clear m) \<and> hm_view (hashmap_clear m) = Map.empty
    \<and> (\<exists>kvs. distinct (map fst kvs) \<and> map_of kvs = hm_view m
           \<and> (\<forall>callback u. hashmap_foreach callback m (u :: 'u) = fold (\<lambda>(k, v). callback k v) kvs u))"
proof (intro conjI)
  show "hashmap_get key m = (case hm_view m (cval key) of Some v \<Rightarrow> v | None \<Rightarrow> 0)" by (rule hm.get [OF assms(1)])
  show "hashmap_contains key m \<longleftrightarrow> cval key \<in> dom (hm_view m)"
    by (auto simp: hashmap_contains_def Let_def chain_get_view [OF assms(1)])
  show "unat (hashmap_size m) = card (dom (hm_view m))" using hm_count_card [OF assms(1)] by (simp add: hashmap_size_def)
  show "case hashmap_put mem key v m of
           (None, m') \<Rightarrow> hm_inv m' \<and> hm_view m' = (hm_view m)(cval key \<mapsto> v)
         | (Some e, m') \<Rightarrow> e = ENOMEM \<and> \<not> (mem 0 \<and> mem 1 \<and> mem 2) \<and> hm_inv m' \<and> hm_view m' = hm_view m"
    using hashmap_put_spec [OF assms prod.collapse [symmetric], of mem key v] by (auto split: prod.splits option.splits)
  show "case hashmap_remove key m of
           (v, m') \<Rightarrow> hm_inv m' \<and> hm_view m' = (hm_view m)(cval key := None) \<and> v = hashmap_get key m"
    using hashmap_remove_spec [OF assms(1)] hm.get [OF assms(1), of key] by (auto split: prod.splits)
  show "hm_inv (hashmap_clear m)" and "hm_view (hashmap_clear m) = Map.empty" by (rule hashmap_clear_spec [OF assms(1)])+
  show "\<exists>kvs. distinct (map fst kvs) \<and> map_of kvs = hm_view m
      \<and> (\<forall>callback u. hashmap_foreach callback m (u :: 'u) = fold (\<lambda>(k, v). callback k v) kvs u)"
    using distinct_hm_keys [OF assms(1)]
    by (intro exI [of _ "map hm_kv (hm_entries m)"]) (simp add: hashmap_foreach_entries hm_view_def hm_kv_def comp_def)
qed

theorem hashmap_refines_map_witness:
  "hashmap_get (str ''disk'')
     (snd (hashmap_put (\<lambda>_. True) (str ''disk'') 7 (the (hashmap_create (\<lambda>_. True) 64)))) = 7"
proof -
  let ?m = "the (hashmap_create (\<lambda>_. True) 64)"
  have "hashmap_create (\<lambda>_. True) 64 = Some ?m" by (simp add: hashmap_create_def Let_def)
  then have m: "hm_inv ?m" "hm_view ?m = Map.empty" by (rule hashmap_create_spec [rotated]; simp)+
  have c: "unat (hm_count ?m) < 2 ^ 56" using hm_count_card [OF m(1)] m(2) by simp
  note put = hashmap_refines_map [OF m(1) c, where mem = "\<lambda>_. True" and key = "str ''disk''" and v = 7]
  let ?n = "snd (hashmap_put (\<lambda>_. True) (str ''disk'') 7 ?m)"
  have n: "hm_inv ?n" "hm_view ?n = [cval (str ''disk'') \<mapsto> 7]" using put m(2) by (auto split: prod.splits option.splits)
  have "unat (hm_count ?n) < 2 ^ 56" using hm_count_card [OF n(1)] n(2) by simp
  then have "hashmap_get (str ''disk'') ?n = (case hm_view ?n (cval (str ''disk'')) of Some v \<Rightarrow> v | None \<Rightarrow> 0)"
    using hashmap_refines_map [OF n(1)] by blast
  with n(2) show ?thesis by simp
qed

end
