(* ===== verification/Float32.thy ===== *)
theory Float32
  imports AevPrelude Complex_Main
begin

text \<open>
  The single-precision arithmetic of the C type \<open>float\<close>, as far as the agent's statistics use it: a value is
  its 32-bit pattern, and an operation on finite values rounds the exact rational result to the nearest
  pattern, ties to even. No operation is contracted with another one, as in the kernel's builds without fused
  multiplication. Operations on infinities and NaNs, whose result patterns depend on the processor, and divisions by zero are \<open>None\<close>. A result of zero is the
  positive one, which is what operations on non-negative operands give.
\<close>

section \<open>Definitions\<close>

type_synonym f32 = u32

definition f32_finite :: "f32 \<Rightarrow> bool" where
  "f32_finite w \<longleftrightarrow> unat w mod 2 ^ 31 < 255 * 2 ^ 23"

text \<open>The magnitude of a pattern without its sign: the scale is that of the lowest normal exponent for
  subnormal numbers too.\<close>

definition f32_scale :: "nat \<Rightarrow> nat" where
  "f32_scale p = p div 2 ^ 23 - 1"

definition f32_mag :: "nat \<Rightarrow> rat" where
  "f32_mag p = of_nat (p - f32_scale p * 2 ^ 23) * 2 powi (int (f32_scale p) - 149)"

definition f32_val :: "f32 \<Rightarrow> rat" where
  "f32_val w = (if unat w < 2 ^ 31 then f32_mag (unat w) else - f32_mag (unat w - 2 ^ 31))"

definition round_half_even :: "rat \<Rightarrow> nat" where
  "round_half_even q =
     (let f = nat \<lfloor>q\<rfloor>; r = q - of_nat f
      in if r < 1 / 2 then f else if 1 / 2 < r then f + 1 else if even f then f else f + 1)"

text \<open>The scale of a positive number: the greatest one at which it is at least a normal number, or 0.\<close>

definition rat_scale :: "rat \<Rightarrow> nat" where
  "rat_scale x = (case scan (\<lambda>i. 2 powi (127 - int i) \<le> x) 0 254 of Some i \<Rightarrow> 253 - i | None \<Rightarrow> 0)"

definition round_mag :: "rat \<Rightarrow> nat" where
  "round_mag x = min (255 * 2 ^ 23) (rat_scale x * 2 ^ 23 + round_half_even (x / 2 powi (int (rat_scale x) - 149)))"

definition f32_round :: "rat \<Rightarrow> f32" where
  "f32_round x = (if x < 0 then of_nat (2 ^ 31 + round_mag (- x)) else of_nat (round_mag x))"

definition f32_of_u32 :: "u32 \<Rightarrow> f32" where
  "f32_of_u32 n = f32_round (of_nat (unat n))"

definition f32_of_u64 :: "u64 \<Rightarrow> f32" where
  "f32_of_u64 n = f32_round (of_nat (unat n))"

definition f32_op :: "(rat \<Rightarrow> rat \<Rightarrow> rat) \<Rightarrow> f32 \<Rightarrow> f32 \<Rightarrow> f32 option" where
  "f32_op f a b = (if f32_finite a \<and> f32_finite b then Some (f32_round (f (f32_val a) (f32_val b))) else None)"

abbreviation f32_mul :: "f32 \<Rightarrow> f32 \<Rightarrow> f32 option" where "f32_mul \<equiv> f32_op (*)"
abbreviation f32_add :: "f32 \<Rightarrow> f32 \<Rightarrow> f32 option" where "f32_add \<equiv> f32_op (+)"
abbreviation f32_sub :: "f32 \<Rightarrow> f32 \<Rightarrow> f32 option" where "f32_sub \<equiv> f32_op (-)"

definition f32_div :: "f32 \<Rightarrow> f32 \<Rightarrow> f32 option" where
  "f32_div a b = (if f32_val b = 0 then None else f32_op (/) a b)"

text \<open>Comparison is false when an operand is a NaN; infinities have a greater magnitude than all numbers.\<close>

definition f32_less :: "f32 \<Rightarrow> f32 \<Rightarrow> bool" where
  "f32_less a b \<longleftrightarrow> unat a mod 2 ^ 31 \<le> 255 * 2 ^ 23 \<and> unat b mod 2 ^ 31 \<le> 255 * 2 ^ 23 \<and> f32_val a < f32_val b"

text \<open>The constant \<open>1.0f\<close>.\<close>

abbreviation F32_ONE :: f32 where "F32_ONE \<equiv> 0x3f800000"

section \<open>Rounding respects the order of patterns\<close>

lemma round_half_even_le:
  assumes "0 \<le> q" "q \<le> of_nat n"
  shows "round_half_even q \<le> n"
proof (cases "nat \<lfloor>q\<rfloor> = n")
  case True
  then have "q = of_nat n" using assms by linarith
  then show ?thesis by (simp add: round_half_even_def Let_def)
next
  case False
  then have "nat \<lfloor>q\<rfloor> < n" using assms by linarith
  then show ?thesis by (auto simp: round_half_even_def Let_def)
qed

lemma round_half_even_ge:
  assumes "of_nat n \<le> q"
  shows "n \<le> round_half_even q"
proof -
  have "n \<le> nat \<lfloor>q\<rfloor>" using assms by linarith
  then show ?thesis by (auto simp: round_half_even_def Let_def)
qed

lemma powi_pos: "0 < (2::rat) powi k"
  by simp

lemma powi_le: "a \<le> b \<Longrightarrow> (2::rat) powi a \<le> 2 powi b"
  by (rule power_int_increasing) simp_all

lemma rat_scale_upper:
  assumes "x < 2 powi 128"
  shows "x < 2 powi (int (rat_scale x) - 125)"
proof (cases "scan (\<lambda>i. 2 powi (127 - int i) \<le> x) 0 254")
  case None
  have "x < 2 powi (127 - int 253)" using scan_None_iff [THEN iffD1, OF None, rule_format, of 253] by simp
  also have "\<dots> \<le> 2 powi (int (rat_scale x) - 125)" by (rule powi_le) (simp add: rat_scale_def None)
  finally show ?thesis .
next
  case (Some i)
  note s = scan_SomeD [OF Some]
  have e: "int (rat_scale x) - 125 = 128 - int i" using s(2) by (simp add: rat_scale_def Some of_nat_diff)
  show ?thesis
  proof (cases i)
    case 0
    then show ?thesis using assms e by simp
  next
    case (Suc j)
    then have "\<not> 2 powi (127 - int j) \<le> x" using s(4) [of j] by simp
    moreover have "127 - int j = 128 - int i" using Suc by simp
    ultimately show ?thesis unfolding e by simp
  qed
qed

lemma rat_scale_lower:
  assumes "0 < rat_scale x"
  shows "2 powi (int (rat_scale x) - 126) \<le> x"
proof (cases "scan (\<lambda>i. 2 powi (127 - int i) \<le> x) 0 254")
  case (Some i)
  then have "int (rat_scale x) - 126 = 127 - int i" using scan_SomeD(2) [OF Some] by (simp add: rat_scale_def of_nat_diff)
  then show ?thesis using scan_SomeD(3) [OF Some] by simp
qed (use assms in \<open>simp add: rat_scale_def\<close>)

lemma powi_shift: "(2::rat) ^ n * 2 powi (k - 149) = 2 powi (k + int n - 149)"
  by (simp add: power_int_add [symmetric] power_int_of_nat [symmetric] add.commute add.left_commute algebra_simps flip: power_int_of_nat)

lemma f32_mag_bounds:
  shows "f32_mag p < 2 powi (int (f32_scale p) - 125)"
    and "2 ^ 23 \<le> p \<Longrightarrow> 2 powi (int (f32_scale p) - 126) \<le> f32_mag p"
    and "p < (f32_scale p + 2) * 2 ^ 23"
    and "0 < f32_scale p \<Longrightarrow> (f32_scale p + 1) * 2 ^ 23 \<le> p"
proof -
  have dm: "p div 2 ^ 23 * 2 ^ 23 + p mod 2 ^ 23 = p" "p mod 2 ^ 23 < 2 ^ 23" by simp_all
  show a: "p < (f32_scale p + 2) * 2 ^ 23" using dm unfolding f32_scale_def by (cases "p div 2 ^ 23") auto
  show "0 < f32_scale p \<Longrightarrow> (f32_scale p + 1) * 2 ^ 23 \<le> p" using dm unfolding f32_scale_def by (cases "p div 2 ^ 23") auto
  have "p - f32_scale p * 2 ^ 23 < 2 ^ 24" using a by simp
  then have "(of_nat (p - f32_scale p * 2 ^ 23) :: rat) < of_nat (2 ^ 24)" by (simp only: of_nat_less_iff)
  then have "f32_mag p < 2 ^ 24 * 2 powi (int (f32_scale p) - 149)" unfolding f32_mag_def by (simp add: powi_pos)
  then show "f32_mag p < 2 powi (int (f32_scale p) - 125)" by (simp only: powi_shift) simp
  assume p: "2 ^ 23 \<le> p"
  then have "1 \<le> p div 2 ^ 23" using div_le_mono [OF p, of "2 ^ 23"] by simp
  then have "2 ^ 23 \<le> p - f32_scale p * 2 ^ 23" using dm unfolding f32_scale_def by (cases "p div 2 ^ 23") auto
  then have "(of_nat (2 ^ 23) :: rat) \<le> of_nat (p - f32_scale p * 2 ^ 23)" by (simp only: of_nat_le_iff)
  then have "2 ^ 23 * 2 powi (int (f32_scale p) - 149) \<le> f32_mag p" unfolding f32_mag_def by (simp add: powi_pos)
  then show "2 powi (int (f32_scale p) - 126) \<le> f32_mag p" by (simp only: powi_shift) simp
qed

lemma f32_mag_ge_zero: "0 \<le> f32_mag p"
  by (simp add: f32_mag_def powi_pos less_imp_le)

lemma scale_small: "f32_scale p * 2 ^ 23 \<le> p"
proof -
  have "p div 2 ^ 23 * 2 ^ 23 \<le> p" by simp
  moreover have "f32_scale p * 2 ^ 23 \<le> p div 2 ^ 23 * 2 ^ 23" by (simp add: f32_scale_def)
  ultimately show ?thesis by linarith
qed

lemma round_mag_le:
  assumes "0 \<le> x" "x \<le> f32_mag p" "x < 2 powi 128"
  shows "round_mag x \<le> p"
proof -
  let ?E = "rat_scale x" let ?P = "f32_scale p" let ?q = "x / 2 powi (int ?E - 149)"
  have q: "0 \<le> ?q" using assms(1) by (simp add: powi_pos less_imp_le)
  have "?E * 2 ^ 23 + round_half_even ?q \<le> p"
  proof (cases ?E ?P rule: linorder_cases)
    case equal
    then have "?q \<le> of_nat (p - ?P * 2 ^ 23)" using assms(2) unfolding f32_mag_def by (simp add: divide_le_eq powi_pos)
    then have "round_half_even ?q \<le> p - ?P * 2 ^ 23" by (rule round_half_even_le [OF q])
    then show ?thesis using equal scale_small [of p] by simp
  next
    case less
    have "x < 2 ^ 24 * 2 powi (int ?E - 149)" using rat_scale_upper [OF assms(3)] by (simp only: powi_shift) simp
    then have "?q \<le> of_nat (2 ^ 24)" by (simp add: divide_le_eq powi_pos less_imp_le)
    then have "round_half_even ?q \<le> 2 ^ 24" by (rule round_half_even_le [OF q])
    moreover have "(?E + 2) * 2 ^ 23 \<le> (?P + 1) * 2 ^ 23" using less by (intro mult_right_mono) auto
    moreover have "(?P + 1) * 2 ^ 23 \<le> p" using less by (intro f32_mag_bounds(4)) simp
    ultimately show ?thesis by simp
  next
    case greater
    then have "f32_mag p < 2 powi (int ?P - 125)" "2 powi (int ?P - 125) \<le> (2::rat) powi (int ?E - 126)" "2 powi (int ?E - 126) \<le> x"
      by (auto intro!: f32_mag_bounds(1) powi_le rat_scale_lower)
    then show ?thesis using assms(2) by linarith
  qed
  then show ?thesis by (simp add: round_mag_def)
qed

lemma round_mag_ge:
  assumes "f32_mag p \<le> x" "x < 2 powi 128" "p \<le> 255 * 2 ^ 23"
  shows "p \<le> round_mag x"
proof -
  let ?E = "rat_scale x" let ?P = "f32_scale p" let ?q = "x / 2 powi (int ?E - 149)"
  have "p \<le> ?E * 2 ^ 23 + round_half_even ?q"
  proof (cases ?E ?P rule: linorder_cases)
    case equal
    then have "of_nat (p - ?P * 2 ^ 23) \<le> ?q" using assms(1) unfolding f32_mag_def by (simp add: le_divide_eq powi_pos)
    then have "p - ?P * 2 ^ 23 \<le> round_half_even ?q" by (rule round_half_even_ge)
    then show ?thesis using equal by simp
  next
    case less
    then have "(0 + 1) * 2 ^ 23 \<le> p" using f32_mag_bounds(4) [of p] by simp
    then have "2 powi (int ?P - 126) \<le> f32_mag p" using f32_mag_bounds(2) [of p] by simp
    moreover have "2 powi (int ?E - 125) \<le> (2::rat) powi (int ?P - 126)" using less by (intro powi_le) auto
    ultimately show ?thesis using assms(1) rat_scale_upper [OF assms(2)] by linarith
  next
    case greater
    then have "2 powi (int ?E - 126) \<le> x" by (intro rat_scale_lower) simp
    then have "2 ^ 23 * 2 powi (int ?E - 149) \<le> x" by (simp only: powi_shift) simp
    then have "of_nat (2 ^ 23) \<le> ?q" by (simp add: le_divide_eq powi_pos)
    then have "2 ^ 23 \<le> round_half_even ?q" by (rule round_half_even_ge)
    moreover have "(?P + 2) * 2 ^ 23 \<le> (?E + 1) * 2 ^ 23" using greater by (intro mult_right_mono) auto
    moreover have "p < (?P + 2) * 2 ^ 23" by (rule f32_mag_bounds(3))
    ultimately show ?thesis by simp
  qed
  then show ?thesis using assms(3) by (simp add: round_mag_def)
qed

lemma f32_mag_mono: "p \<le> p' \<Longrightarrow> f32_mag p \<le> f32_mag p'"
proof (cases "f32_scale p = f32_scale p'")
  case True
  assume "p \<le> p'"
  then show ?thesis using True by (simp add: f32_mag_def powi_pos mult_right_mono diff_le_mono less_imp_le)
next
  case False
  assume le: "p \<le> p'"
  have "f32_scale p \<le> f32_scale p'" unfolding f32_scale_def using div_le_mono [OF le] by (simp add: diff_le_mono)
  with False have s: "f32_scale p < f32_scale p'" by simp
  then have "(0 + 1) * 2 ^ 23 \<le> p'" using f32_mag_bounds(4) [of p'] by simp
  then have "2 powi (int (f32_scale p') - 126) \<le> f32_mag p'" using f32_mag_bounds(2) [of p'] by simp
  moreover have "f32_mag p < 2 powi (int (f32_scale p) - 125)" by (rule f32_mag_bounds(1))
  moreover have "2 powi (int (f32_scale p) - 125) \<le> (2::rat) powi (int (f32_scale p') - 126)" using s by (intro powi_le) auto
  ultimately show ?thesis by linarith
qed

section \<open>Small natural numbers are represented exactly\<close>

lemma f32_mag_nat:
  assumes "n \<le> 2 ^ 24"
  obtains p where "p < 255 * 2 ^ 23" "f32_mag p = of_nat n"
proof (cases "n = 0")
  case True
  then show ?thesis using that [of 0] by (simp add: f32_mag_def f32_scale_def)
next
  case False
  define L where "L = (LEAST l. n < 2 ^ l)"
  have ex: "n < 2 ^ 25" using assms by simp
  have up: "n < 2 ^ L" unfolding L_def using ex by (rule LeastI)
  have L25: "L \<le> 25" unfolding L_def using ex by (rule Least_le)
  have L0: "0 < L" using up False by (cases L) auto
  have lo: "2 ^ (L - 1) \<le> n" using not_less_Least [of "L - 1" "\<lambda>l. n < 2 ^ l"] L0 by (simp add: L_def [symmetric])
  show ?thesis
  proof (cases "L = 25")
    case True
    then have "n = 2 ^ 24" using lo assms by simp
    then show ?thesis using that [of "151 * 2 ^ 23"] by (simp add: f32_mag_def f32_scale_def power_int_def)
  next
    case False
    then have L24: "L \<le> 24" using L25 by simp
    define m where "m = n * 2 ^ (24 - L)"
    have "2 ^ (L - 1) * 2 ^ (24 - L) \<le> m" unfolding m_def using lo by (rule mult_right_mono) simp
    then have mlo: "2 ^ 23 \<le> m" using L0 L24 by (simp flip: power_add)
    have "m < 2 ^ L * 2 ^ (24 - L)" unfolding m_def using up by (rule mult_strict_right_mono) simp
    then have mup: "m < 2 ^ 24" using L24 by (simp flip: power_add)
    let ?p = "(125 + L) * 2 ^ 23 + m"
    have "?p div 2 ^ 23 = 126 + L" using mlo mup by (intro div_nat_eqI) (auto simp: algebra_simps)
    then have s: "f32_scale ?p = 125 + L" by (simp add: f32_scale_def)
    have k: "int (125 + L) - 149 = - int (24 - L)" using L24 by (simp add: of_nat_diff)
    have "f32_mag ?p = of_nat n * (2 ^ (24 - L) * 2 powi (- int (24 - L)))" unfolding f32_mag_def s k by (simp add: m_def)
    also have "(2::rat) ^ (24 - L) * 2 powi (- int (24 - L)) = 1" by (simp add: power_int_minus)
    finally have "f32_mag ?p = of_nat n" by simp
    moreover have "?p < 255 * 2 ^ 23" using mup L24 by simp
    ultimately show ?thesis using that by blast
  qed
qed

lemma unat_round:
  assumes "0 \<le> x"
  shows "unat (f32_round x) = round_mag x"
proof -
  have "round_mag x \<le> 255 * 2 ^ 23" by (simp add: round_mag_def)
  then show ?thesis using assms by (simp add: f32_round_def unat_of_nat take_bit_nat_eq_self)
qed

lemma nat_below_top: "n \<le> 2 ^ 24 \<Longrightarrow> (of_nat n :: rat) < 2 powi 128"
proof -
  assume "n \<le> 2 ^ 24"
  then have "(of_nat n :: rat) \<le> of_nat (2 ^ 24)" by (simp only: of_nat_le_iff)
  then show ?thesis by (simp add: power_int_def)
qed

text \<open>Rounding a number between 0 and a small natural number stays in that range.\<close>

lemma f32_round_range:
  assumes "0 \<le> x" "x \<le> of_nat n" "n \<le> 2 ^ 24"
  shows "f32_finite (f32_round x)" and "0 \<le> f32_val (f32_round x)" and "f32_val (f32_round x) \<le> of_nat n"
proof -
  obtain p where p: "p < 255 * 2 ^ 23" "f32_mag p = of_nat n" using f32_mag_nat [OF assms(3)] .
  have top: "x < 2 powi 128" using assms nat_below_top [OF assms(3)] by linarith
  have r: "round_mag x \<le> p" using assms(1,2) p top by (intro round_mag_le) simp_all
  have u: "unat (f32_round x) = round_mag x" by (rule unat_round [OF assms(1)])
  have small: "round_mag x < 2 ^ 31" "round_mag x < 255 * 2 ^ 23" using r p(1) by simp_all
  show "f32_finite (f32_round x)" using small by (simp add: f32_finite_def u)
  have v: "f32_val (f32_round x) = f32_mag (round_mag x)" using small by (simp add: f32_val_def u)
  show "0 \<le> f32_val (f32_round x)" unfolding v by (rule f32_mag_ge_zero)
  show "f32_val (f32_round x) \<le> of_nat n" unfolding v p(2) [symmetric] by (rule f32_mag_mono [OF r])
qed

lemma f32_round_nat:
  assumes "n \<le> 2 ^ 24"
  shows "f32_val (f32_round (of_nat n)) = of_nat n"
proof -
  obtain p where p: "p < 255 * 2 ^ 23" "f32_mag p = of_nat n" using f32_mag_nat [OF assms] .
  have "round_mag (of_nat n) = p"
  proof (rule antisym)
    show "round_mag (of_nat n) \<le> p" using p nat_below_top [OF assms] by (intro round_mag_le) simp_all
    show "p \<le> round_mag (of_nat n)" using p nat_below_top [OF assms] by (intro round_mag_ge) simp_all
  qed
  then have "unat (f32_round (of_nat n)) = p" by (simp add: unat_round)
  then show ?thesis using p by (simp add: f32_val_def)
qed

lemma f32_one: "f32_finite F32_ONE" "f32_val F32_ONE = 1"
proof -
  show "f32_finite F32_ONE" by (simp add: f32_finite_def)
  show "f32_val F32_ONE = 1" by (simp add: f32_val_def f32_mag_def f32_scale_def power_int_def power_one_over)
qed

lemma f32_of_small:
  assumes "unat n \<le> 2 ^ 24"
  shows "f32_finite (f32_of_u32 n)" "f32_val (f32_of_u32 n) = of_nat (unat n)"
  unfolding f32_of_u32_def by (rule f32_round_range(1) [OF of_nat_0_le_iff order_refl assms], rule f32_round_nat [OF assms])

lemma f32_of_small64:
  assumes "unat n \<le> 2 ^ 24"
  shows "f32_finite (f32_of_u64 n)" "f32_val (f32_of_u64 n) = of_nat (unat n)"
  unfolding f32_of_u64_def by (rule f32_round_range(1) [OF of_nat_0_le_iff order_refl assms], rule f32_round_nat [OF assms])

text \<open>Division of a number by a greater or equal natural number gives a ratio between 0 and 1.\<close>

lemma f32_div_ratio:
  assumes "f32_finite a" "0 \<le> f32_val a" "f32_val a \<le> of_nat n" "f32_finite b" "f32_val b = of_nat n" "0 < n"
  shows "f32_div a b = Some (f32_round (f32_val a / of_nat n))" "f32_finite (f32_round (f32_val a / of_nat n))"
    "0 \<le> f32_val (f32_round (f32_val a / of_nat n))" "f32_val (f32_round (f32_val a / of_nat n)) \<le> 1"
proof -
  show "f32_div a b = Some (f32_round (f32_val a / of_nat n))" using assms by (simp add: f32_div_def f32_op_def)
  have le: "0 \<le> f32_val a / of_nat n" "f32_val a / of_nat n \<le> of_nat 1" using assms by (simp_all add: divide_le_eq)
  note range = f32_round_range [OF le, simplified]
  show "f32_finite (f32_round (f32_val a / of_nat n))" "0 \<le> f32_val (f32_round (f32_val a / of_nat n))"
    "f32_val (f32_round (f32_val a / of_nat n)) \<le> 1" by (rule range)+
qed

end
