(* ===== verification/Skill.thy ===== *)
theory Skill
  imports Hashmap History Float32
begin

text \<open>
  The skill engine of an agent, \<open>agent/skill.c\<close>: a table of up to 1024 skills with a hash table from names to
  slots, execution statistics, retirement of failing skills, and the serialised form.

  Function pointers, handles and slots are 64-bit words, \<open>0\<close> being null. The character arrays of a skill are
  byte lists of their size. \<open>kfree\<close> of a handle is recorded in \<open>se_freed\<close>. The clock, allocation results and
  the effect of calling a skill's function are arguments. Log output, the lock and the unused dependency
  graph are left out. Operations return \<open>None\<close> where the C code has no defined behaviour: a read behind the
  serialised buffer, the division by a call counter that wrapped to zero, and float operations on infinities
  or NaNs.
\<close>

unbundle bit_operations_syntax

section \<open>Definitions\<close>

definition MAX_SKILLS :: u32 where "MAX_SKILLS = 1024"
abbreviation SKILL_SUCCESS_THRESHOLD :: f32 where "SKILL_SUCCESS_THRESHOLD \<equiv> 0x3f19999a"
abbreviation SKILL_MIN_CALLS_EVAL :: u32 where "SKILL_MIN_CALLS_EVAL \<equiv> 10"

record skill_stats =
  st_success_rate :: f32
  st_call_count :: u32
  st_fail_count :: u32
  st_total_latency_us :: u64
  st_avg_latency_us :: u64

record skill =
  sk_id :: u64
  sk_name :: bytes
  sk_description :: bytes
  sk_signature :: bytes
  sk_fn :: u64
  sk_success_rate :: f32
  sk_call_count :: u32
  sk_fail_count :: u32
  sk_total_latency_us :: u64
  sk_avg_latency_us :: u64
  sk_is_sandboxed :: bool
  sk_elf_handle :: u64
  sk_created_at :: u64
  sk_last_used :: u64
  sk_version :: u32
  sk_active :: bool

abbreviation zero_skill :: skill where
  "zero_skill \<equiv> \<lparr>sk_id = 0, sk_name = replicate 64 0, sk_description = replicate 256 0, sk_signature = replicate 128 0,
     sk_fn = 0, sk_success_rate = 0, sk_call_count = 0, sk_fail_count = 0, sk_total_latency_us = 0,
     sk_avg_latency_us = 0, sk_is_sandboxed = False, sk_elf_handle = 0, sk_created_at = 0, sk_last_used = 0,
     sk_version = 0, sk_active = False\<rparr>"

record skill_engine =
  se_skills :: "nat \<Rightarrow> skill"
  se_count :: u32
  se_next_id :: u64
  se_registry :: "hashmap option"
  se_freed :: "u64 list"

definition skill_init :: "(nat \<Rightarrow> bool) \<Rightarrow> skill_engine" where
  "skill_init mem = \<lparr>se_skills = (\<lambda>_. zero_skill), se_count = 0, se_next_id = 1,
     se_registry = hashmap_create mem 64, se_freed = []\<rparr>"

abbreviation free_handle :: "u64 \<Rightarrow> skill_engine \<Rightarrow> skill_engine" where
  "free_handle p e \<equiv> (if p \<noteq> 0 then e\<lparr>se_freed := p # se_freed e\<rparr> else e)"

definition skill_destroy :: "skill_engine \<Rightarrow> skill_engine" where
  "skill_destroy e =
     (fold (\<lambda>i e. free_handle (sk_elf_handle (se_skills e i)) e) [0..<unat (se_count e)] e)
       \<lparr>se_count := 0, se_registry := None\<rparr>"

text \<open>The test for an active skill of a name, and the search loop over the table.\<close>

definition active_named :: "bytes \<Rightarrow> skill \<Rightarrow> bool" where
  "active_named name s \<longleftrightarrow> sk_active s \<and> strcmp (sk_name s) name = 0"

definition name_scan :: "bytes \<Rightarrow> skill_engine \<Rightarrow> nat option" where
  "name_scan name e = scan (\<lambda>i. active_named name (se_skills e i)) 0 (unat (se_count e))"

definition registry_put :: "(nat \<Rightarrow> bool) \<Rightarrow> bytes \<Rightarrow> nat \<Rightarrow> skill_engine \<Rightarrow> skill_engine" where
  "registry_put mem name i e =
     (case se_registry e of None \<Rightarrow> e | Some m \<Rightarrow> e\<lparr>se_registry := Some (snd (hashmap_put mem name (of_nat i) m))\<rparr>)"

abbreviation registry_remove :: "bytes \<Rightarrow> skill_engine \<Rightarrow> skill_engine" where
  "registry_remove name e \<equiv>
     (case se_registry e of None \<Rightarrow> e | Some m \<Rightarrow> e\<lparr>se_registry := Some (snd (hashmap_remove name m))\<rparr>)"

definition new_skill :: "u64 \<Rightarrow> u64 \<Rightarrow> u64 \<Rightarrow> bytes \<Rightarrow> bytes option \<Rightarrow> skill" where
  "new_skill now sid fn name description =
     zero_skill\<lparr>sk_id := sid,
       sk_name := map (strncpy 0 name 63 (\<lambda>_. 0)) [0..<64],
       sk_description := (case description of Some d \<Rightarrow> map (strncpy 0 d 255 (\<lambda>_. 0)) [0..<256] | None \<Rightarrow> replicate 256 0),
       sk_signature := fmt_buf 128 ''int %s(const char*, char*, size_t)'' [VStr (Some name)],
       sk_fn := fn, sk_success_rate := F32_ONE, sk_created_at := now, sk_version := 1, sk_active := True\<rparr>"

text \<open>The result is the slot of the new skill.\<close>

definition skill_register ::
  "u64 \<Rightarrow> (nat \<Rightarrow> bool) \<Rightarrow> u64 \<Rightarrow> bytes \<Rightarrow> bytes option \<Rightarrow> skill_engine \<Rightarrow> nat option \<times> skill_engine" where
  "skill_register now mem fn name description e =
     (if fn = 0 then (None, e)
      else if MAX_SKILLS \<le> se_count e then (None, e)
      else if name_scan name e \<noteq> None then (None, e)
      else
        let i = unat (se_count e);
            s = new_skill now (se_next_id e) fn name description;
            e = e\<lparr>se_skills := (se_skills e)(i := s), se_next_id := se_next_id e + 1, se_count := se_count e + 1\<rparr>
        in (Some i, registry_put mem name i e))"

definition skill_unregister :: "u64 \<Rightarrow> skill_engine \<Rightarrow> (errno + unit) \<times> skill_engine" where
  "skill_unregister skill_id e =
     (case scan (\<lambda>i. sk_id (se_skills e i) = skill_id) 0 (unat (se_count e)) of
        None \<Rightarrow> (Inl ENOENT, e)
      | Some i \<Rightarrow>
          let e = registry_remove (sk_name (se_skills e i)) e;
              e = free_handle (sk_elf_handle (se_skills e i)) e
          in (Inr (), e\<lparr>se_skills := (se_skills e)(i := (se_skills e i)\<lparr>sk_active := False, sk_fn := 0\<rparr>)\<rparr>))"

definition skill_find_by_name :: "bytes \<Rightarrow> skill_engine \<Rightarrow> nat option" where
  "skill_find_by_name name e =
     (let v = (case se_registry e of None \<Rightarrow> 0 | Some m \<Rightarrow> hashmap_get name m);
          idx = (ucast v :: u32)
      in if v \<noteq> 0 \<and> idx < se_count e \<and> active_named name (se_skills e (unat idx)) then Some (unat idx)
         else name_scan name e)"

definition skill_find_by_id :: "u64 \<Rightarrow> skill_engine \<Rightarrow> nat option" where
  "skill_find_by_id skill_id e =
     scan (\<lambda>i. sk_id (se_skills e i) = skill_id \<and> sk_active (se_skills e i)) 0 (unat (se_count e))"

text \<open>The new success rate after a call, \<open>calls\<close> being the incremented counter.\<close>

definition next_rate :: "f32 \<Rightarrow> u32 \<Rightarrow> bool \<Rightarrow> f32 option" where
  "next_rate rate calls ok =
     do { w \<leftarrow> f32_mul rate (f32_of_u32 (calls - 1));
          w \<leftarrow> (if ok then f32_add w F32_ONE else Some w);
          f32_div w (f32_of_u32 calls) }"

definition account_call :: "u64 \<Rightarrow> u64 \<Rightarrow> u32 \<Rightarrow> skill \<Rightarrow> skill option" where
  "account_call now elapsed_us result s =
     (let calls = sk_call_count s + 1; lat = sk_total_latency_us s + elapsed_us in
      if calls = 0 then None
      else do { r \<leftarrow> next_rate (sk_success_rate s) calls (result = 0);
                Some (s\<lparr>sk_call_count := calls, sk_total_latency_us := lat, sk_avg_latency_us := lat div ucast calls,
                        sk_last_used := now, sk_fail_count := sk_fail_count s + (if result = 0 then 0 else 1),
                        sk_success_rate := r\<rparr>) })"

text \<open>
  \<open>call\<close> is what running a function does: its result, its output and the engine afterwards, which the
  function may have changed. The three clock values are those read before and after the call and for the
  time stamp.
\<close>

definition skill_execute ::
  "(u64 \<Rightarrow> bytes \<Rightarrow> u64 \<Rightarrow> skill_engine \<Rightarrow> u32 \<times> bytes \<times> skill_engine) \<Rightarrow> u64 \<Rightarrow> u64 \<Rightarrow> u64 \<Rightarrow>
     u64 \<Rightarrow> bytes \<Rightarrow> u64 \<Rightarrow> skill_engine \<Rightarrow> ((errno + u32 \<times> bytes) \<times> skill_engine) option" where
  "skill_execute call t0 t1 t2 skill_id input out_max e =
     (case skill_find_by_id skill_id e of
        None \<Rightarrow> Some (Inl ENOENT, e)
      | Some i \<Rightarrow>
          if sk_fn (se_skills e i) = 0 then Some (Inl ENOENT, e)
          else case call (sk_fn (se_skills e i)) input out_max e of
            (result, out, e) \<Rightarrow>
              (case account_call t2 ((t1 - t0) * 1000) result (se_skills e i) of
                 None \<Rightarrow> None
               | Some s \<Rightarrow> Some (Inr (result, out), e\<lparr>se_skills := (se_skills e)(i := s)\<rparr>)))"

abbreviation active_count :: "skill_engine \<Rightarrow> nat" where
  "active_count e \<equiv> length (filter (\<lambda>i. sk_active (se_skills e i)) [0..<unat (se_count e)])"

definition skill_list :: "skill_engine \<Rightarrow> (nat \<Rightarrow> skill) \<times> u32" where
  "skill_list e = (se_skills e, of_nat (active_count e))"

definition skill_get_stats :: "u64 \<Rightarrow> skill_engine \<Rightarrow> skill_stats" where
  "skill_get_stats skill_id e =
     (case skill_find_by_id skill_id e of
        None \<Rightarrow> \<lparr>st_success_rate = 0, st_call_count = 0, st_fail_count = 0, st_total_latency_us = 0, st_avg_latency_us = 0\<rparr>
      | Some i \<Rightarrow> let s = se_skills e i in
          \<lparr>st_success_rate = sk_success_rate s, st_call_count = sk_call_count s, st_fail_count = sk_fail_count s,
           st_total_latency_us = sk_total_latency_us s, st_avg_latency_us = sk_avg_latency_us s\<rparr>)"

section \<open>Patterns in the history\<close>

text \<open>Recorded patterns with their counts; a new one is added while there is room for it.\<close>

fun bump_pattern :: "bytes \<Rightarrow> (bytes \<times> u32) list \<Rightarrow> (bytes \<times> u32) list option" where
  "bump_pattern sig [] = None"
| "bump_pattern sig ((s, c) # ps) =
     (if strcmp s sig = 0 then Some ((s, c + 1) # ps)
      else case bump_pattern sig ps of None \<Rightarrow> None | Some ps' \<Rightarrow> Some ((s, c) # ps'))"

definition note_pattern :: "bytes \<Rightarrow> (bytes \<times> u32) list \<Rightarrow> (bytes \<times> u32) list" where
  "note_pattern sig ps =
     (case bump_pattern sig ps of
        Some ps' \<Rightarrow> ps'
      | None \<Rightarrow> if length ps < 64 then ps @ [(map (strncpy 0 sig 127 (\<lambda>_. 0)) [0..<128], 1)] else ps)"

text \<open>
  One entry of the history. \<open>history_get\<close> fails or returns the text of the entry; \<open>mem\<close> says whether the copy
  of the recent entries can be allocated.
\<close>

definition extract_entry :: "history \<Rightarrow> bool \<Rightarrow> u32 \<Rightarrow> (bytes \<times> u32) list \<Rightarrow> (bytes \<times> u32) list" where
  "extract_entry h mem i ps =
     (case history_get h i 4096 of
        Inl _ \<Rightarrow> ps
      | Inr buf \<Rightarrow>
          if length buf = 0 then ps
          else case history_get_recent mem h (history_count h) of
            None \<Rightarrow> ps
          | Some recent \<Rightarrow>
              if unat i < length recent \<and> he_role (recent ! unat i) = HIST_ROLE_TOOL
              then note_pattern (take 127 buf) ps else ps)"

definition skill_extract_from_history :: "(nat \<Rightarrow> bool) \<Rightarrow> bool \<Rightarrow> bool \<Rightarrow> history \<Rightarrow> errno + nat" where
  "skill_extract_from_history mem mem_buf mem_pat h =
     (if history_count h < 4 then Inr 0
      else if \<not> mem_buf then Inl ENOMEM
      else if \<not> mem_pat then Inl ENOMEM
      else
        let ps = fold (\<lambda>i. extract_entry h (mem i) (of_nat i)) [0..<unat (history_count h)] []
        in Inr (length (filter (\<lambda>(s, c). 3 \<le> c) ps)))"

section \<open>Evaluation and retirement\<close>

abbreviation is_poor :: "skill \<Rightarrow> bool" where
  "is_poor s \<equiv> sk_active s \<and> \<not> sk_call_count s < SKILL_MIN_CALLS_EVAL \<and> f32_less (sk_success_rate s) SKILL_SUCCESS_THRESHOLD"

definition skill_evaluate_all :: "skill_engine \<Rightarrow> nat" where
  "skill_evaluate_all e = length (filter (\<lambda>i. is_poor (se_skills e i)) [0..<unat (se_count e)])"

definition retire_one :: "nat \<Rightarrow> nat \<times> skill_engine \<Rightarrow> nat \<times> skill_engine" where
  "retire_one i = (\<lambda>(retired, e).
     (let s = se_skills e i in
      if \<not> is_poor s then (retired, e)
      else
        let e = registry_remove (sk_name s) e;
            e = free_handle (sk_elf_handle s) e
        in (retired + 1, e\<lparr>se_skills := (se_skills e)(i := s\<lparr>sk_active := False, sk_fn := 0, sk_elf_handle := 0\<rparr>)\<rparr>)))"

definition skill_auto_retire :: "skill_engine \<Rightarrow> nat \<times> skill_engine" where
  "skill_auto_retire e = fold retire_one [0..<unat (se_count e)] (0, e)"

section \<open>The serialised form\<close>

abbreviation SKILL_SERIAL_MAGIC :: u32 where "SKILL_SERIAL_MAGIC \<equiv> 0x534B4C53"

abbreviation PER_SKILL :: nat where
  "PER_SKILL \<equiv> 8 + 64 + 256 + 128 + 4 + 4 + 4 + 8 + 8 + 8 + 4 + 4"

definition active_skills :: "skill_engine \<Rightarrow> skill list" where
  "active_skills e = filter sk_active (map (se_skills e) [0..<unat (se_count e)])"

definition skill_bytes :: "skill \<Rightarrow> bytes" where
  "skill_bytes s = le_bytes 8 (sk_id s) @ sk_name s @ sk_description s @ sk_signature s @ le_bytes 4 (sk_success_rate s) @
     le_bytes 4 (sk_call_count s) @ le_bytes 4 (sk_fail_count s) @ le_bytes 8 (sk_total_latency_us s) @
     le_bytes 8 (sk_avg_latency_us s) @ le_bytes 8 (sk_created_at s) @ le_bytes 4 (sk_version s) @
     le_bytes 4 (if sk_is_sandboxed s then 1 else 0 :: u32)"

text \<open>The size needed when the buffer is too small, or the bytes written from its start on.\<close>

definition skill_serialize :: "skill_engine \<Rightarrow> nat \<Rightarrow> nat + bytes" where
  "skill_serialize e sz =
     (let active = active_count e;
          needed = 12 + active * PER_SKILL
      in if sz < needed then Inl needed
         else Inr (le_bytes 4 SKILL_SERIAL_MAGIC @ le_bytes 4 (of_nat active :: u32) @ le_bytes 8 (se_next_id e) @
                   concat (map skill_bytes (active_skills e))))"

definition read_skill :: "bytes \<Rightarrow> skill" where
  "read_skill p =
     zero_skill\<lparr>sk_id := le_word (take 8 p),
       sk_name := take 64 (drop 8 p),
       sk_description := take 256 (drop 72 p),
       sk_signature := take 128 (drop 328 p),
       sk_success_rate := le_word (take 4 (drop 456 p)),
       sk_call_count := le_word (take 4 (drop 460 p)),
       sk_fail_count := le_word (take 4 (drop 464 p)),
       sk_total_latency_us := le_word (take 8 (drop 468 p)),
       sk_avg_latency_us := le_word (take 8 (drop 476 p)),
       sk_created_at := le_word (take 8 (drop 484 p)),
       sk_version := le_word (take 4 (drop 492 p)),
       sk_is_sandboxed := (le_word (take 4 (drop 496 p)) AND (1 :: u32) \<noteq> 0),
       sk_fn := 0,
       sk_active := True\<rparr>"

primrec read_skills :: "nat \<Rightarrow> bytes \<Rightarrow> skill_engine \<Rightarrow> skill_engine option" where
  "read_skills 0 p e = Some e"
| "read_skills (Suc n) p e =
     (if \<not> se_count e < MAX_SKILLS then Some e
      else if length p < PER_SKILL then None
      else read_skills n (drop PER_SKILL p)
             (e\<lparr>se_skills := (se_skills e)(unat (se_count e) := read_skill p), se_count := se_count e + 1\<rparr>))"

definition rebuild_registry :: "(nat \<Rightarrow> nat \<Rightarrow> bool) \<Rightarrow> skill_engine \<Rightarrow> skill_engine" where
  "rebuild_registry mem e =
     (case se_registry e of
        None \<Rightarrow> e
      | Some m \<Rightarrow>
          fold (\<lambda>i e. if sk_active (se_skills e i) then registry_put (mem i) (sk_name (se_skills e i)) i e else e)
            [0..<unat (se_count e)] (e\<lparr>se_registry := Some (hashmap_clear m)\<rparr>))"

definition skill_deserialize :: "(nat \<Rightarrow> nat \<Rightarrow> bool) \<Rightarrow> bytes \<Rightarrow> skill_engine \<Rightarrow> ((errno + unit) \<times> skill_engine) option" where
  "skill_deserialize mem buf e =
     (if length buf < 12 then Some (Inl EINVAL, e)
      else if le_word (take 4 buf) \<noteq> SKILL_SERIAL_MAGIC then Some (Inl EINVAL, e)
      else if length buf < 16 then None
      else
        let count = (le_word (take 4 (drop 4 buf)) :: u32);
            next_id = le_word (take 8 (drop 8 buf))
        in case read_skills (unat count) (drop 16 buf) (e\<lparr>se_next_id := next_id\<rparr>) of
             None \<Rightarrow> None
           | Some e \<Rightarrow> Some (Inr (), rebuild_registry mem e))"

section \<open>The table of skills\<close>

text \<open>No two active skills have the same name.\<close>

definition skills_wf :: "skill_engine \<Rightarrow> bool" where
  "skills_wf e \<longleftrightarrow> se_count e \<le> MAX_SKILLS \<and>
     (\<forall>i < unat (se_count e). \<forall>j < unat (se_count e).
        sk_active (se_skills e i) \<longrightarrow> active_named (sk_name (se_skills e i)) (se_skills e j) \<longrightarrow> i = j)"

lemma active_named_cval: "active_named name s \<longleftrightarrow> sk_active s \<and> cval (sk_name s) = cval name"
  by (simp add: active_named_def strcmp_0_iff)

lemma skills_wf_unique:
  assumes "skills_wf e" "i < unat (se_count e)" "j < unat (se_count e)"
    "active_named name (se_skills e i)" "active_named name (se_skills e j)"
  shows "i = j"
  using assms unfolding skills_wf_def active_named_cval by metis

lemma name_scan_Some:
  assumes "skills_wf e" "i < unat (se_count e)" "active_named name (se_skills e i)"
  shows "name_scan name e = Some i"
proof -
  obtain j where j: "name_scan name e = Some j"
    unfolding name_scan_def using scan_exists [of 0 i "unat (se_count e)" "\<lambda>i. active_named name (se_skills e i)"] assms(2,3) by auto
  then have "j < unat (se_count e)" "active_named name (se_skills e j)" unfolding name_scan_def by (auto dest: scan_SomeD)
  then show ?thesis using skills_wf_unique [OF assms(1) _ assms(2) _ assms(3)] j by blast
qed

lemma name_scan_iff:
  assumes "skills_wf e"
  shows "name_scan name e = Some i \<longleftrightarrow> i < unat (se_count e) \<and> active_named name (se_skills e i)"
  using name_scan_Some [OF assms] unfolding name_scan_def by (auto dest: scan_SomeD)

lemma name_scan_None: "name_scan name e = None \<longleftrightarrow> (\<forall>i < unat (se_count e). \<not> active_named name (se_skills e i))"
  by (simp add: name_scan_def scan_None_iff)

text \<open>The registry only short-cuts the search.\<close>

lemma find_by_name_scan:
  assumes "skills_wf e"
  shows "skill_find_by_name name e = name_scan name e"
proof -
  have "name_scan name e = Some (unat idx)" if "idx < se_count e" "active_named name (se_skills e (unat idx))" for idx
    using name_scan_Some [OF assms _ that(2)] that(1) by (simp add: word_less_nat_alt)
  then show ?thesis by (auto simp: skill_find_by_name_def Let_def)
qed

lemma registry_put_other [simp]:
  "se_skills (registry_put mem n i e) = se_skills e" "se_count (registry_put mem n i e) = se_count e"
  "se_next_id (registry_put mem n i e) = se_next_id e" "se_freed (registry_put mem n i e) = se_freed e"
  by (simp_all add: registry_put_def split: option.splits)

lemma registry_remove_other [simp]:
  "se_skills (registry_remove n e) = se_skills e" "se_count (registry_remove n e) = se_count e"
  "se_next_id (registry_remove n e) = se_next_id e" "se_freed (registry_remove n e) = se_freed e"
  by (simp_all split: option.splits)

lemma free_handle_other [simp]:
  "se_skills (free_handle p e) = se_skills e" "se_count (free_handle p e) = se_count e"
  "se_next_id (free_handle p e) = se_next_id e" "se_registry (free_handle p e) = se_registry e"
  by simp_all

lemma new_skill_name:
  assumes "strlen name < 64"
  shows "cval (sk_name (new_skill now sid fn name d)) = cval name"
proof -
  have "(strncpy 0 name 63 (\<lambda>_. 0)) 63 = 0" using assms by (simp add: strncpy_apply)
  then have "(strncpy 0 name 63 (\<lambda>_. 0))(63 := 0) = strncpy 0 name 63 (\<lambda>_. 0)" by (rule fun_upd_idem)
  then have "cval (map (strncpy 0 name 63 (\<lambda>_. 0)) [0..<64]) = take 63 (cval name)"
    using strncpy_field [of name 63 "\<lambda>_. 0"] by simp
  then show ?thesis using assms by (simp add: new_skill_def strlen_cval)
qed

lemma register_spec:
  assumes wf: "skills_wf e" and len: "strlen name < 64" and run: "skill_register now mem fn name d e = (Some i, e')"
  shows "skills_wf e'" and "name_scan name e = None" and "name_scan name e' = Some i"
    and "cval n \<noteq> cval name \<Longrightarrow> name_scan n e' = name_scan n e"
proof -
  have c: "fn \<noteq> 0" "se_count e < MAX_SKILLS" "name_scan name e = None" "i = unat (se_count e)"
    using run by (auto simp: skill_register_def Let_def not_le split: if_splits)
  show "name_scan name e = None" by fact
  let ?s = "new_skill now (se_next_id e) fn name d"
  have e': "se_skills e' = (se_skills e)(i := ?s)" "se_count e' = se_count e + 1"
    using run c not_le [THEN iffD2, OF c(2)] by (auto simp: skill_register_def Let_def)
  have n: "unat (se_count e') = Suc i" using c(2,4) unfolding e'(2) by (simp add: MAX_SKILLS_def word_less_nat_alt unat_word_ariths)
  have s: "sk_active ?s" "cval (sk_name ?s) = cval name" using new_skill_name [OF len] by (simp_all add: new_skill_def)
  have old: "cval (sk_name (se_skills e j)) \<noteq> cval name" if "j < i" "sk_active (se_skills e j)" for j
    using c(3) that unfolding name_scan_None active_named_cval c(4) by blast
  have "se_count e' \<le> MAX_SKILLS" unfolding e'(2) using inc_le [OF c(2)] .
  then show wf': "skills_wf e'"
    using wf old s unfolding skills_wf_def n e'(1) active_named_cval c(4) [symmetric]
    by (auto simp: less_Suc_eq) metis+
  show "name_scan name e' = Some i" using s n by (simp add: name_scan_iff [OF wf'] e'(1) active_named_cval)
  assume ne: "cval n \<noteq> cval name"
  have "name_scan n e' = Some k \<longleftrightarrow> name_scan n e = Some k" for k
    unfolding name_scan_iff [OF wf'] name_scan_iff [OF wf] n c(4) [symmetric] e'(1)
    using ne s(2) by (auto simp: active_named_cval less_Suc_eq)
  then show "name_scan n e' = name_scan n e" by (metis not_None_eq)
qed

lemma deactivate_wf:
  assumes "skills_wf e" "se_count e' = se_count e"
    and "\<And>j. sk_active (se_skills e' j) \<Longrightarrow> sk_active (se_skills e j)" "\<And>j. sk_name (se_skills e' j) = sk_name (se_skills e j)"
  shows "skills_wf e'"
  using assms unfolding skills_wf_def active_named_cval by metis

lemma unregister_spec:
  assumes wf: "skills_wf e" and run: "skill_unregister skill_id e = (r, e')"
  shows "(r = Inl ENOENT \<and> e' = e \<and> (\<forall>i < unat (se_count e). sk_id (se_skills e i) \<noteq> skill_id))
     \<or> (r = Inr () \<and> skills_wf e' \<and> (\<exists>i < unat (se_count e). sk_id (se_skills e i) = skill_id
          \<and> (\<forall>n. name_scan n e' = (if name_scan n e = Some i then None else name_scan n e))))"
proof (cases "scan (\<lambda>i. sk_id (se_skills e i) = skill_id) 0 (unat (se_count e))")
  case None
  then have "r = Inl ENOENT" "e' = e" using run by (auto simp: skill_unregister_def)
  then show ?thesis using None by (simp add: scan_None_iff)
next
  case (Some i)
  note i = scan_SomeD(2,3) [OF Some]
  have e': "r = Inr ()" "se_skills e' = (se_skills e)(i := (se_skills e i)\<lparr>sk_active := False, sk_fn := 0\<rparr>)" "se_count e' = se_count e"
    using run Some by (auto simp: skill_unregister_def Let_def)
  have wf': "skills_wf e'" by (rule deactivate_wf [OF wf e'(3)]) (auto simp: e'(2) split: if_splits)
  have "name_scan n e' = Some k \<longleftrightarrow> k \<noteq> i \<and> name_scan n e = Some k" for n k
    unfolding name_scan_iff [OF wf'] name_scan_iff [OF wf] e' by (auto simp: active_named_cval)
  then have "name_scan n e' = (if name_scan n e = Some i then None else name_scan n e)" for n
    by (metis not_None_eq)
  then show ?thesis using e'(1) wf' i by blast
qed

lemma retire_one_wf:
  assumes "skills_wf e"
  shows "skills_wf (snd (retire_one i (r, e)))" "se_count (snd (retire_one i (r, e))) = se_count e"
proof -
  show c: "se_count (snd (retire_one i (r, e))) = se_count e" by (simp add: retire_one_def Let_def)
  show "skills_wf (snd (retire_one i (r, e)))" by (rule deactivate_wf [OF assms c]) (auto simp: retire_one_def Let_def split: if_splits)
qed

lemma auto_retire_wf:
  assumes "skills_wf e"
  shows "skills_wf (snd (skill_auto_retire e))"
proof -
  have "skills_wf (snd (fold retire_one is p))" if "skills_wf (snd p)" for "is" p
    using that
  proof (induction "is" arbitrary: p)
    case (Cons i "is")
    then show ?case using retire_one_wf(1) [of "snd p" i "fst p"] by simp
  qed simp
  then show ?thesis using assms by (simp add: skill_auto_retire_def)
qed

text \<open>C26: In a table whose active skills have distinct names, looking up a name gives what a search of the
  whole table gives, whatever the registry contains. Registering a name of less than 64 characters keeps the
  names distinct, makes exactly that name found at the new slot, and is refused when the name is taken.
  Unregistering makes exactly the skill of that identifier unfindable, and retirement keeps the table well
  formed.\<close>

theorem skill_registry:
  assumes "skills_wf e"
  shows "skill_find_by_name name e = name_scan name e
    \<and> (strlen name < 64 \<longrightarrow> skill_register now mem fn name d e = (r, e') \<longrightarrow>
       (case r of
          None \<Rightarrow> e' = e \<and> (fn = 0 \<or> se_count e = MAX_SKILLS \<or> skill_find_by_name name e \<noteq> None)
        | Some i \<Rightarrow> skills_wf e' \<and> skill_find_by_name name e = None \<and>
            (\<forall>n. skill_find_by_name n e' = (if cval n = cval name then Some i else skill_find_by_name n e))))
    \<and> (skill_unregister skill_id e = (r', e'') \<longrightarrow>
       (case r' of
          Inl err \<Rightarrow> err = ENOENT \<and> e'' = e \<and> (\<forall>i < unat (se_count e). sk_id (se_skills e i) \<noteq> skill_id)
        | Inr _ \<Rightarrow> skills_wf e'' \<and> (\<exists>i < unat (se_count e). sk_id (se_skills e i) = skill_id \<and>
            (\<forall>n. skill_find_by_name n e'' = (if skill_find_by_name n e = Some i then None else skill_find_by_name n e)))))
    \<and> skills_wf (snd (skill_auto_retire e))"
proof (intro conjI impI)
  note find = find_by_name_scan [OF assms]
  show "skill_find_by_name name e = name_scan name e" by (rule find)
  show "skills_wf (snd (skill_auto_retire e))" by (rule auto_retire_wf [OF assms])
  show "case r' of
          Inl err \<Rightarrow> err = ENOENT \<and> e'' = e \<and> (\<forall>i < unat (se_count e). sk_id (se_skills e i) \<noteq> skill_id)
        | Inr _ \<Rightarrow> skills_wf e'' \<and> (\<exists>i < unat (se_count e). sk_id (se_skills e i) = skill_id \<and>
            (\<forall>n. skill_find_by_name n e'' = (if skill_find_by_name n e = Some i then None else skill_find_by_name n e)))"
    if "skill_unregister skill_id e = (r', e'')"
    using unregister_spec [OF assms that] find_by_name_scan [of e''] by (auto simp: find)
  assume len: "strlen name < 64" and run: "skill_register now mem fn name d e = (r, e')"
  show "case r of
          None \<Rightarrow> e' = e \<and> (fn = 0 \<or> se_count e = MAX_SKILLS \<or> skill_find_by_name name e \<noteq> None)
        | Some i \<Rightarrow> skills_wf e' \<and> skill_find_by_name name e = None \<and>
            (\<forall>n. skill_find_by_name n e' = (if cval n = cval name then Some i else skill_find_by_name n e))"
  proof (cases r)
    case None
    then have "e' = e" "fn = 0 \<or> MAX_SKILLS \<le> se_count e \<or> name_scan name e \<noteq> None"
      using run by (auto simp: skill_register_def Let_def split: if_splits)
    moreover have "se_count e \<le> MAX_SKILLS" using assms by (simp add: skills_wf_def)
    ultimately show ?thesis using None by (auto simp: find)
  next
    case (Some i)
    note reg = register_spec [OF assms len run [unfolded Some]]
    have "name_scan n e' = Some i" if "cval n = cval name" for n
      using reg(3) that by (simp add: name_scan_iff [OF reg(1)] active_named_cval)
    then show ?thesis using Some reg by (auto simp: find find_by_name_scan [OF reg(1)])
  qed
qed

lemma init_wf: "skills_wf (skill_init mem)"
  by (simp add: skills_wf_def skill_init_def MAX_SKILLS_def)

theorem skill_registry_witness:
  "skill_find_by_name (str ''grep'') (snd (skill_register 5 (\<lambda>_. True) 77 (str ''grep'') None (skill_init (\<lambda>_. True)))) = Some 0"
proof -
  let ?e = "skill_init (\<lambda>_. True)"
  have none: "name_scan (str ''grep'') ?e = None" by (simp add: name_scan_None skill_init_def)
  have len: "strlen (str ''grep'') < 64" by (simp add: str_def)
  have run: "skill_register 5 (\<lambda>_. True) 77 (str ''grep'') None ?e
      = (Some 0, snd (skill_register 5 (\<lambda>_. True) 77 (str ''grep'') None ?e))"
    using none by (simp add: skill_register_def Let_def skill_init_def MAX_SKILLS_def)
  show ?thesis using skill_registry [OF init_wf] len run by fastforce
qed

section \<open>The statistics\<close>

text \<open>A skill whose success rate is a number between 0 and 1 and which failed at most as often as it was called.\<close>

definition stats_ok :: "skill \<Rightarrow> bool" where
  "stats_ok s \<longleftrightarrow> f32_finite (sk_success_rate s) \<and> 0 \<le> f32_val (sk_success_rate s) \<and> f32_val (sk_success_rate s) \<le> 1
     \<and> sk_fail_count s \<le> sk_call_count s"

lemma next_rate_range:
  assumes r: "f32_finite r" "0 \<le> f32_val r" "f32_val r \<le> 1" and c: "0 < unat calls" "unat calls \<le> 2 ^ 24"
  shows "\<exists>r'. next_rate r calls ok = Some r' \<and> f32_finite r' \<and> 0 \<le> f32_val r' \<and> f32_val r' \<le> 1"
proof -
  let ?m = "unat calls - 1"
  have m: "unat (calls - 1) = ?m" using c(1) by (simp add: unat_minus_one unat_gt_0)
  then have cm: "f32_finite (f32_of_u32 (calls - 1))" "f32_val (f32_of_u32 (calls - 1)) = of_nat ?m"
    using f32_of_small [of "calls - 1"] c(2) by simp_all
  define w where "w = f32_round (f32_val r * of_nat ?m)"
  have mul: "f32_mul r (f32_of_u32 (calls - 1)) = Some w" using r(1) cm by (simp add: f32_op_def w_def)
  have "f32_val r * of_nat ?m \<le> 1 * of_nat ?m" using r(3) by (intro mult_right_mono) simp_all
  then have le: "0 \<le> f32_val r * of_nat ?m" "f32_val r * of_nat ?m \<le> of_nat ?m" "?m \<le> 2 ^ 24" using r(2) c(2) by simp_all
  note w = f32_round_range [OF le, folded w_def]
  define x where "x = (if ok then f32_round (f32_val w + 1) else w)"
  have add: "(if ok then f32_add w F32_ONE else Some w) = Some x" using w(1) f32_one by (simp add: f32_op_def x_def)
  have mc: "of_nat ?m + 1 = (of_nat (unat calls) :: rat)" using c(1) by (simp add: of_nat_diff)
  have sum: "f32_val w + 1 \<le> of_nat (unat calls)" "f32_val w \<le> of_nat (unat calls)" using w(3) mc by linarith+
  have x: "f32_finite x" "0 \<le> f32_val x" "f32_val x \<le> of_nat (unat calls)"
    using w(1,2) sum f32_round_range [OF add_nonneg_nonneg [OF w(2) zero_le_one] sum(1) c(2)] by (auto simp: x_def)
  note cc = f32_of_small [OF c(2)]
  define y where "y = f32_round (f32_val x / of_nat (unat calls))"
  note y = f32_div_ratio [OF x cc c(1), folded y_def]
  have "next_rate r calls ok = Some y" unfolding next_rate_def mul using add y(1) by simp
  then show ?thesis using y(2-4) by blast
qed

lemma account_call_ok:
  assumes "stats_ok s" "unat (sk_call_count s) < 2 ^ 24"
  shows "\<exists>s'. account_call now el result s = Some s' \<and> stats_ok s' \<and> sk_call_count s' = sk_call_count s + 1
    \<and> sk_fail_count s' = sk_fail_count s + (if result = 0 then 0 else 1)
    \<and> sk_id s' = sk_id s \<and> sk_name s' = sk_name s \<and> sk_active s' = sk_active s \<and> sk_fn s' = sk_fn s"
proof -
  have c: "unat (sk_call_count s + 1) = Suc (unat (sk_call_count s))" using assms(2) by (simp add: unat_word_ariths)
  then have nz: "sk_call_count s + 1 \<noteq> 0" by (metis unat_0 nat.distinct(1))
  have f: "unat (sk_fail_count s) \<le> unat (sk_call_count s)" using assms(1) by (simp add: stats_ok_def word_le_nat_alt)
  then have "unat (sk_fail_count s + 1) = Suc (unat (sk_fail_count s))" using assms(2) by (simp add: unat_word_ariths)
  then have fail: "sk_fail_count s + (if result = 0 then 0 else 1) \<le> sk_call_count s + 1" using f c by (simp add: word_le_nat_alt)
  obtain r where "next_rate (sk_success_rate s) (sk_call_count s + 1) (result = 0) = Some r" "f32_finite r" "0 \<le> f32_val r" "f32_val r \<le> 1"
    using next_rate_range [of "sk_success_rate s" "sk_call_count s + 1" "result = 0"] assms c by (auto simp: stats_ok_def)
  then show ?thesis using nz fail by (simp add: account_call_def Let_def stats_ok_def)
qed

text \<open>C27: Executing a skill returns as long as it was called fewer than \<open>2 ^ 24\<close> times: the statistics of the
  executed skill are updated without a float leaving the range from 0 to 1, the counters count the call and
  its failure, the result of the function is passed on, and no other skill changes beyond what the function
  itself did. An identifier without an active skill and a skill without a function give \<open>ENOENT\<close> and change
  nothing.\<close>

theorem skill_execute_stats:
  assumes find: "skill_find_by_id skill_id e = Some i" and fn: "sk_fn (se_skills e i) \<noteq> 0"
    and run: "call (sk_fn (se_skills e i)) input out_max e = (result, out, e1)"
    and ok: "stats_ok (se_skills e1 i)" and few: "unat (sk_call_count (se_skills e1 i)) < 2 ^ 24"
  shows "(\<exists>s. skill_execute call t0 t1 t2 skill_id input out_max e = Some (Inr (result, out), e1\<lparr>se_skills := (se_skills e1)(i := s)\<rparr>)
      \<and> stats_ok s \<and> sk_call_count s = sk_call_count (se_skills e1 i) + 1
      \<and> sk_fail_count s = sk_fail_count (se_skills e1 i) + (if result = 0 then 0 else 1))
    \<and> (skill_find_by_id other e = None \<or> sk_fn (se_skills e (the (skill_find_by_id other e))) = 0 \<longrightarrow>
      skill_execute call t0 t1 t2 other input out_max e = Some (Inl ENOENT, e))"
proof (intro conjI impI)
  obtain s where "account_call t2 ((t1 - t0) * 1000) result (se_skills e1 i) = Some s" "stats_ok s"
    "sk_call_count s = sk_call_count (se_skills e1 i) + 1"
    "sk_fail_count s = sk_fail_count (se_skills e1 i) + (if result = 0 then 0 else 1)"
    using account_call_ok [OF ok few] by blast
  then show "\<exists>s. skill_execute call t0 t1 t2 skill_id input out_max e = Some (Inr (result, out), e1\<lparr>se_skills := (se_skills e1)(i := s)\<rparr>)
      \<and> stats_ok s \<and> sk_call_count s = sk_call_count (se_skills e1 i) + 1
      \<and> sk_fail_count s = sk_fail_count (se_skills e1 i) + (if result = 0 then 0 else 1)"
    using find fn run by (auto simp: skill_execute_def)
  show "skill_find_by_id other e = None \<or> sk_fn (se_skills e (the (skill_find_by_id other e))) = 0 \<Longrightarrow>
      skill_execute call t0 t1 t2 other input out_max e = Some (Inl ENOENT, e)"
    by (auto simp: skill_execute_def split: option.splits)
qed

definition one_skill :: skill_engine where
  "one_skill = snd (skill_register 5 (\<lambda>_. True) 77 (str ''grep'') None (skill_init (\<lambda>_. False)))"

lemma one_skill_simps:
  "se_count one_skill = 1" "se_skills one_skill 0 = new_skill 5 1 77 (str ''grep'') None" "se_registry one_skill = None"
proof -
  have "name_scan (str ''grep'') (skill_init (\<lambda>_. False)) = None" by (simp add: name_scan_None skill_init_def)
  then show "se_count one_skill = 1" "se_skills one_skill 0 = new_skill 5 1 77 (str ''grep'') None" "se_registry one_skill = None"
    by (simp_all add: one_skill_def skill_register_def Let_def skill_init_def MAX_SKILLS_def registry_put_def hashmap_create_def)
qed

theorem skill_execute_stats_witness:
  "\<exists>s. skill_execute (\<lambda>fn inp n e. (0, inp, e)) 10 12 12 1 [65] 16 one_skill
     = Some (Inr (0, [65]), one_skill\<lparr>se_skills := (se_skills one_skill)(0 := s)\<rparr>) \<and> stats_ok s \<and> sk_call_count s = 1"
proof -
  have s: "stats_ok (se_skills one_skill 0)" "sk_call_count (se_skills one_skill 0) = 0" "sk_fn (se_skills one_skill 0) \<noteq> 0"
    "sk_id (se_skills one_skill 0) = 1" "sk_active (se_skills one_skill 0)"
    by (simp_all add: one_skill_simps new_skill_def stats_ok_def f32_one)
  have "skill_find_by_id 1 one_skill = Some 0" using s by (simp add: skill_find_by_id_def scan_Some_iff one_skill_simps)
  from skill_execute_stats [OF this s(3), of "\<lambda>fn inp n e. (0, inp, e)" "[65]" 16 0 "[65]" one_skill 10 12 12] s
  show ?thesis by auto
qed

section \<open>The serialised form\<close>

text \<open>The character arrays have their sizes.\<close>

definition skill_sized :: "skill \<Rightarrow> bool" where
  "skill_sized s \<longleftrightarrow> length (sk_name s) = 64 \<and> length (sk_description s) = 256 \<and> length (sk_signature s) = 128"

text \<open>What is kept of a skill: not its function, its handle and the time of its last use.\<close>

definition restored :: "skill \<Rightarrow> skill" where
  "restored s = s\<lparr>sk_fn := 0, sk_elf_handle := 0, sk_last_used := 0\<rparr>"

lemma length_skill_bytes: "skill_sized s \<Longrightarrow> length (skill_bytes s) = PER_SKILL"
  by (simp add: skill_bytes_def skill_sized_def)

lemma read_skill_bytes:
  assumes "skill_sized s" "sk_active s"
  shows "read_skill (skill_bytes s @ rest) = restored s"
  using assms unfolding read_skill_def skill_bytes_def skill_sized_def restored_def
  by (auto intro!: skill.equality)

lemma active_count_skills: "active_count e = length (active_skills e)"
  by (simp add: active_skills_def filter_map comp_def)

lemma active_skills_le: "length (active_skills e) \<le> unat (se_count e)"
  unfolding active_skills_def by (rule order_trans [OF length_filter_le]) simp

lemma length_serialized:
  assumes "\<forall>s \<in> set ss. skill_sized s"
  shows "length (concat (map skill_bytes ss)) = length ss * PER_SKILL"
  using assms by (induction ss) (simp_all add: length_skill_bytes)

lemma active_skills_snoc:
  assumes "se_count e < MAX_SKILLS" "sk_active s"
    and "e' = e\<lparr>se_skills := (se_skills e)(unat (se_count e) := s), se_count := se_count e + 1\<rparr>"
  shows "active_skills e' = active_skills e @ [s]" "unat (se_count e') = Suc (unat (se_count e))"
proof -
  show n: "unat (se_count e') = Suc (unat (se_count e))"
    using assms(1) by (simp add: assms(3) MAX_SKILLS_def word_less_nat_alt unat_word_ariths)
  show "active_skills e' = active_skills e @ [s]"
    unfolding active_skills_def n using assms(2) by (simp add: assms(3))
qed

lemma read_skills_all:
  assumes "\<forall>s \<in> set ss. skill_sized s \<and> sk_active s" "unat (se_count e) + length ss \<le> 1024"
  shows "\<exists>e'. read_skills (length ss) (concat (map skill_bytes ss) @ rest) e = Some e' \<and>
     active_skills e' = active_skills e @ map restored ss \<and> se_next_id e' = se_next_id e \<and> se_registry e' = se_registry e
     \<and> unat (se_count e') = unat (se_count e) + length ss \<and> se_freed e' = se_freed e"
  using assms
proof (induction ss arbitrary: e)
  case (Cons s ss)
  have lt: "se_count e < MAX_SKILLS" using Cons.prems(2) by (simp add: MAX_SKILLS_def word_less_nat_alt)
  let ?p = "skill_bytes s @ concat (map skill_bytes ss) @ rest"
  define e1 where "e1 = e\<lparr>se_skills := (se_skills e)(unat (se_count e) := restored s), se_count := se_count e + 1\<rparr>"
  have act: "sk_active (restored s)" using Cons.prems(1) by (simp add: restored_def)
  note e1 = active_skills_snoc [OF lt act e1_def]
  have len: "length (skill_bytes s) = PER_SKILL" using Cons.prems(1) by (simp add: length_skill_bytes)
  have step: "read_skills (length (s # ss)) ?p e = read_skills (length ss) (concat (map skill_bytes ss) @ rest) e1"
    using lt len Cons.prems(1) read_skill_bytes [of s] by (simp add: e1_def)
  have "unat (se_count e1) + length ss \<le> 1024" using Cons.prems(2) e1(2) by simp
  from Cons.IH [OF _ this] Cons.prems(1) obtain e' where
    "read_skills (length ss) (concat (map skill_bytes ss) @ rest) e1 = Some e'" "active_skills e' = active_skills e1 @ map restored ss"
    "se_next_id e' = se_next_id e1" "se_registry e' = se_registry e1" "unat (se_count e') = unat (se_count e1) + length ss" "se_freed e' = se_freed e1" by auto
  then show ?case using step e1 by (simp add: e1_def)
qed simp

lemma rebuild_registry_other:
  "se_skills (rebuild_registry mem e) = se_skills e" "se_count (rebuild_registry mem e) = se_count e"
  "se_next_id (rebuild_registry mem e) = se_next_id e"
proof -
  have "se_skills (fold (\<lambda>i e. if sk_active (se_skills e i) then registry_put (mem i) (sk_name (se_skills e i)) i e else e) is e1) = se_skills e1
    \<and> se_count (fold (\<lambda>i e. if sk_active (se_skills e i) then registry_put (mem i) (sk_name (se_skills e i)) i e else e) is e1) = se_count e1
    \<and> se_next_id (fold (\<lambda>i e. if sk_active (se_skills e i) then registry_put (mem i) (sk_name (se_skills e i)) i e else e) is e1) = se_next_id e1"
    for "is" e1
    by (induction "is" arbitrary: e1) auto
  then show "se_skills (rebuild_registry mem e) = se_skills e" "se_count (rebuild_registry mem e) = se_count e"
    "se_next_id (rebuild_registry mem e) = se_next_id e"
    by (auto simp: rebuild_registry_def split: option.splits)
qed

text \<open>C28: Serialising an engine and reading the result into an empty one restores the active skills in order, without
  their function, handle and last use, and the identifier counter. The size test of the serialiser is four bytes
  short: it accepts every buffer of \<open>12\<close> bytes plus \<open>500\<close> per skill and then writes \<open>16\<close> plus \<open>500\<close> per skill.\<close>

theorem skill_serialize_roundtrip:
  assumes "se_count e \<le> MAX_SKILLS" "\<forall>s \<in> set (active_skills e). skill_sized s"
    and "skill_serialize e sz = Inr buf" "se_count e0 = 0"
  shows "(\<exists>e'. skill_deserialize mem buf e0 = Some (Inr (), e') \<and> active_skills e' = map restored (active_skills e)
      \<and> se_next_id e' = se_next_id e)
    \<and> length buf = 16 + 500 * length (active_skills e)
    \<and> (12 + 500 * length (active_skills e) \<le> sz2 \<longrightarrow> (\<exists>b. skill_serialize e sz2 = Inr b))"
proof (intro conjI impI)
  let ?ss = "active_skills e"
  have n: "length ?ss \<le> 1024" using active_skills_le [of e] assms(1) by (simp add: MAX_SKILLS_def word_le_nat_alt)
  have buf: "buf = le_bytes 4 SKILL_SERIAL_MAGIC @ le_bytes 4 (of_nat (length ?ss) :: u32) @ le_bytes 8 (se_next_id e) @ concat (map skill_bytes ?ss)"
    using assms(3) by (auto simp: skill_serialize_def Let_def active_count_skills split: if_splits)
  then show len: "length buf = 16 + 500 * length ?ss" using length_serialized [OF assms(2)] by simp
  have "skill_serialize e k = Inr buf \<or> k < 12 + 500 * length ?ss" for k
    using buf by (auto simp: skill_serialize_def Let_def active_count_skills)
  then show "12 + 500 * length ?ss \<le> sz2 \<Longrightarrow> \<exists>b. skill_serialize e sz2 = Inr b" by (metis leD)
  have cnt: "unat (of_nat (length ?ss) :: u32) = length ?ss" using n by (simp add: unat_of_nat take_bit_nat_eq_self)
  have act: "\<forall>s \<in> set ?ss. skill_sized s \<and> sk_active s" using assms(2) by (auto simp: active_skills_def)
  let ?e0 = "e0\<lparr>se_next_id := se_next_id e\<rparr>"
  have none: "active_skills ?e0 = []" using assms(4) by (simp add: active_skills_def)
  obtain e1 where e1: "read_skills (length ?ss) (concat (map skill_bytes ?ss)) ?e0 = Some e1" "active_skills e1 = map restored ?ss"
    "se_next_id e1 = se_next_id e"
    using read_skills_all [OF act, of ?e0 "[]"] n assms(4) none by auto
  have "skill_deserialize mem buf e0 = Some (Inr (), rebuild_registry mem e1)"
    unfolding skill_deserialize_def using len e1(1) cnt by (simp add: buf Let_def)
  moreover have "active_skills (rebuild_registry mem e1) = active_skills e1" by (simp add: active_skills_def rebuild_registry_other)
  ultimately show "\<exists>e'. skill_deserialize mem buf e0 = Some (Inr (), e') \<and> active_skills e' = map restored ?ss \<and> se_next_id e' = se_next_id e"
    using e1 rebuild_registry_other(3) by simp
qed

lemma new_skill_sized: "skill_sized (new_skill now sid fn name d)"
proof -
  have "format_text (str ''int %s(const char*, char*, size_t)'') [VStr (Some name)]
      = Some (str ''int '' @ cval name @ str ''(const char*, char*, size_t)'')"
    by (simp add: str_def rd_def parse_spec_def conv_text_def)
  then have "length (fmt_buf 128 ''int %s(const char*, char*, size_t)'' [VStr (Some name)]) = 128"
    by (simp add: fmt_buf_text length_fit)
  then show ?thesis by (simp add: skill_sized_def new_skill_def split: option.splits)
qed

theorem skill_serialize_roundtrip_witness:
  "\<exists>buf e'. skill_serialize one_skill 512 = Inr buf \<and> length buf = 516
     \<and> skill_deserialize (\<lambda>_ _. True) buf (skill_init (\<lambda>_. True)) = Some (Inr (), e')
     \<and> active_skills e' = [restored (new_skill 5 1 77 (str ''grep'') None)]"
proof -
  have a: "active_skills one_skill = [new_skill 5 1 77 (str ''grep'') None]"
    by (simp add: active_skills_def one_skill_simps new_skill_def)
  then have "active_count one_skill = 1" by (simp add: active_count_skills)
  then obtain buf where b: "skill_serialize one_skill 512 = Inr buf" by (simp add: skill_serialize_def Let_def)
  have s: "\<forall>s \<in> set (active_skills one_skill). skill_sized s" by (simp add: a new_skill_sized)
  have c: "se_count one_skill \<le> MAX_SKILLS" by (simp add: one_skill_simps MAX_SKILLS_def)
  have z: "se_count (skill_init (\<lambda>_. True)) = 0" by (simp add: skill_init_def)
  show ?thesis using b skill_serialize_roundtrip [OF c s b z, of "\<lambda>_ _. True" 0] a by auto
qed

end
