(* ===== verification/Vfs.thy ===== *)
theory Vfs
  imports CString
begin

text \<open>
  The virtual file system, \<open>kernel/fs/vfs.c\<close>: the tree of nodes, mount points, path resolution and the table
  of open files.

  Nodes live in a store; an address is a natural number and \<open>0\<close> is null. The children of a node are the
  list of their addresses in link order. A node refers to the operations of a file system driver by a number
  too, and what that number stands for is the parameter \<open>fs\<close>; driver operations may change the whole state,
  of which \<open>vfs_drv\<close> is the driver's own part. Descriptors, return codes and file positions given by the caller
  are integers. The argument \<open>mem\<close> says whether nodes can be allocated. Walking up the parents need not end, so the operations
  return \<open>None\<close> when they do not return; \<open>vfs_mount\<close> also does so for the empty path, where the source reads
  behind the terminator. The lock is left out, as are null paths and buffers.
\<close>

unbundle bit_operations_syntax

section \<open>Data\<close>

abbreviation VFS_NAME_MAX :: nat where "VFS_NAME_MAX \<equiv> 128"
abbreviation VFS_PATH_MAX :: nat where "VFS_PATH_MAX \<equiv> 512"
abbreviation MAX_OPEN_FILES :: nat where "MAX_OPEN_FILES \<equiv> 256"

abbreviation VFS_O_READ :: u32 where "VFS_O_READ \<equiv> 0x01"
abbreviation VFS_O_WRITE :: u32 where "VFS_O_WRITE \<equiv> 0x02"
abbreviation VFS_O_CREATE :: u32 where "VFS_O_CREATE \<equiv> 0x04"
abbreviation VFS_O_TRUNC :: u32 where "VFS_O_TRUNC \<equiv> 0x08"
abbreviation VFS_O_APPEND :: u32 where "VFS_O_APPEND \<equiv> 0x10"

datatype vfs_node_type = VFS_FILE | VFS_DIR | VFS_SYMLINK | VFS_DEVICE

record vfs_dirent =
  de_name :: bytes
  de_type :: vfs_node_type
  de_inode :: u64
  de_size :: u64

record vfs_statbuf =
  vs_type :: vfs_node_type
  vs_size :: u64
  vs_permissions :: u32
  vs_inode :: u64
  vs_created :: u64
  vs_modified :: u64

record vfs_node =
  vn_name :: bytes
  vn_type :: vfs_node_type
  vn_size :: u64
  vn_permissions :: u32
  vn_inode :: u64
  vn_fs_data :: nat
  vn_ops :: nat
  vn_parent :: nat
  vn_children :: "nat list"
  vn_mount_ops :: nat
  vn_mount_data :: nat

record vfs_fd_entry =
  fe_node :: nat
  fe_flags :: u32
  fe_offset :: u64
  fe_in_use :: bool

text \<open>\<open>vfs_next\<close> is the address of the next node to be allocated.\<close>

record 'd vfs =
  vfs_nodes :: "nat \<Rightarrow> vfs_node"
  vfs_next :: nat
  vfs_root :: nat
  fd_table :: "nat \<Rightarrow> vfs_fd_entry"
  vfs_drv :: 'd

text \<open>The operations of a driver, each of which may be missing.\<close>

record 'd vfs_ops =
  op_read :: "(nat \<Rightarrow> u64 \<Rightarrow> nat \<Rightarrow> 'd vfs \<Rightarrow> int \<times> bytes \<times> 'd vfs) option"
  op_write :: "(nat \<Rightarrow> u64 \<Rightarrow> bytes \<Rightarrow> 'd vfs \<Rightarrow> int \<times> 'd vfs) option"
  op_open :: "(nat \<Rightarrow> u32 \<Rightarrow> 'd vfs \<Rightarrow> int \<times> 'd vfs) option"
  op_close :: "(nat \<Rightarrow> 'd vfs \<Rightarrow> int \<times> 'd vfs) option"
  op_readdir :: "(nat \<Rightarrow> nat \<Rightarrow> 'd vfs \<Rightarrow> int \<times> vfs_dirent list \<times> 'd vfs) option"
  op_mkdir :: "(nat \<Rightarrow> bytes \<Rightarrow> 'd vfs \<Rightarrow> int \<times> 'd vfs) option"
  op_unlink :: "(nat \<Rightarrow> bytes \<Rightarrow> 'd vfs \<Rightarrow> int \<times> 'd vfs) option"
  op_stat :: "(nat \<Rightarrow> vfs_statbuf \<Rightarrow> 'd vfs \<Rightarrow> int \<times> vfs_statbuf \<times> 'd vfs) option"
  op_lookup :: "(nat \<Rightarrow> bytes \<Rightarrow> 'd vfs \<Rightarrow> nat \<times> 'd vfs) option"

section \<open>Nodes\<close>

definition alloc_fd :: "'d vfs \<Rightarrow> nat option \<times> 'd vfs" where
  "alloc_fd s =
     (case scan (\<lambda>i. \<not> fe_in_use (fd_table s i)) 0 MAX_OPEN_FILES of
        None \<Rightarrow> (None, s)
      | Some i \<Rightarrow> (Some i, s\<lparr>fd_table := (fd_table s)(i := (fd_table s i)\<lparr>fe_in_use := True\<rparr>)\<rparr>))"

definition zero_node :: vfs_node where
  "zero_node = \<lparr>vn_name = replicate 128 0, vn_type = VFS_FILE, vn_size = 0, vn_permissions = 0, vn_inode = 0,
     vn_fs_data = 0, vn_ops = 0, vn_parent = 0, vn_children = [], vn_mount_ops = 0, vn_mount_data = 0\<rparr>"

text \<open>A name copied into an array of 128 characters and terminated.\<close>

definition name_field :: "bytes \<Rightarrow> bytes" where
  "name_field name = map ((strncpy 0 name (VFS_NAME_MAX - 1) (\<lambda>_. 0))(VFS_NAME_MAX - 1 := 0)) [0..<VFS_NAME_MAX]"

definition new_node :: "vfs_node \<Rightarrow> 'd vfs \<Rightarrow> nat \<times> 'd vfs" where
  "new_node n s = (vfs_next s, s\<lparr>vfs_nodes := (vfs_nodes s)(vfs_next s := n), vfs_next := vfs_next s + 1\<rparr>)"

definition create_node :: "bool \<Rightarrow> bytes \<Rightarrow> vfs_node_type \<Rightarrow> 'd vfs \<Rightarrow> nat \<times> 'd vfs" where
  "create_node mem name ty s =
     (if \<not> mem then (0, s) else new_node (zero_node\<lparr>vn_name := name_field name, vn_type := ty\<rparr>) s)"

definition upd_node :: "nat \<Rightarrow> (vfs_node \<Rightarrow> vfs_node) \<Rightarrow> 'd vfs \<Rightarrow> 'd vfs" where
  "upd_node n f s = s\<lparr>vfs_nodes := (vfs_nodes s)(n := f (vfs_nodes s n))\<rparr>"

definition add_child :: "nat \<Rightarrow> nat \<Rightarrow> 'd vfs \<Rightarrow> 'd vfs" where
  "add_child parent child s =
     upd_node parent (\<lambda>n. n\<lparr>vn_children := child # vn_children n\<rparr>) (upd_node child (\<lambda>n. n\<lparr>vn_parent := parent\<rparr>) s)"

definition find_child :: "nat \<Rightarrow> bytes \<Rightarrow> 'd vfs \<Rightarrow> nat" where
  "find_child parent name s =
     (case find (\<lambda>c. strcmp (vn_name (vfs_nodes s c)) name = 0) (vn_children (vfs_nodes s parent)) of
        Some c \<Rightarrow> c
      | None \<Rightarrow> 0)"

partial_function (option) get_ops :: "'d vfs \<Rightarrow> nat \<Rightarrow> nat option" where
  "get_ops s p =
     (if p = 0 then Some 0
      else if vn_mount_ops (vfs_nodes s p) \<noteq> 0 then Some (vn_mount_ops (vfs_nodes s p))
      else if vn_ops (vfs_nodes s p) \<noteq> 0 then Some (vn_ops (vfs_nodes s p))
      else get_ops s (vn_parent (vfs_nodes s p)))"

text \<open>An operation of the driver responsible for a node: \<open>Some None\<close> when it has none.\<close>

definition driver_op :: "(nat \<Rightarrow> 'd vfs_ops) \<Rightarrow> ('d vfs_ops \<Rightarrow> 'op option) \<Rightarrow> nat \<Rightarrow> 'd vfs \<Rightarrow> 'op option option" where
  "driver_op fs sel n s =
     (case get_ops s n of None \<Rightarrow> None | Some ops \<Rightarrow> Some (if ops = 0 then None else sel (fs ops)))"

section \<open>Paths\<close>

fun skip_slashes :: "bytes \<Rightarrow> bytes" where
  "skip_slashes [] = []"
| "skip_slashes (c # p) = (if c = chr CHR ''/'' then skip_slashes p else c # p)"

text \<open>At most \<open>n\<close> characters up to a slash or the end, and the rest.\<close>

fun take_component :: "nat \<Rightarrow> bytes \<Rightarrow> bytes \<times> bytes" where
  "take_component 0 p = ([], p)"
| "take_component (Suc n) [] = ([], [])"
| "take_component (Suc n) (c # p) =
     (if c = 0 \<or> c = chr CHR ''/'' then ([], c # p)
      else case take_component n p of (cname, rest) \<Rightarrow> (c # cname, rest))"

lemma skip_slashes_length: "length (skip_slashes p) \<le> length p"
  by (induction p) auto

lemma take_component_length: "length (snd (take_component n p)) \<le> length p"
  by (induction n p rule: take_component.induct) (auto split: prod.splits)

lemma take_component_shorter:
  assumes "c \<noteq> 0" "c \<noteq> chr CHR ''/''" "0 < n"
  shows "length (snd (take_component n (c # q))) \<le> length q"
  using assms take_component_length [of "n - 1" q] by (cases n) (auto split: prod.splits)

text \<open>The components a path is walked in.\<close>

function split_path :: "bytes \<Rightarrow> bytes list" where
  "split_path path =
     (let p = skip_slashes path
      in if rd p = 0 then []
         else case take_component (VFS_NAME_MAX - 1) p of (cname, rest) \<Rightarrow> cname # split_path rest)"
  by pat_completeness auto
termination
proof (relation "measure length")
  fix path p cname rest
  assume p: "p = skip_slashes path" "rd p \<noteq> 0" and tc: "(cname, rest) = take_component (VFS_NAME_MAX - 1) p"
  obtain c q where q: "p = c # q" "c \<noteq> 0" using p(2) by (cases p) (auto simp: rd_def)
  have "c \<noteq> chr CHR ''/''" using p(1) q by (induction path) (auto split: if_splits)
  then have "length rest \<le> length q"
    using tc q take_component_shorter [of c "VFS_NAME_MAX - 1" q] by (metis snd_conv zero_less_diff one_less_numeral_iff semiring_norm(76))
  moreover have "Suc (length q) \<le> length path" using p(1) q skip_slashes_length [of path] by (metis length_Cons)
  ultimately show "(rest, path) \<in> measure length" by simp
qed simp

declare split_path.simps [simp del]

definition walk_step :: "(nat \<Rightarrow> 'd vfs_ops) \<Rightarrow> bytes \<Rightarrow> nat \<Rightarrow> 'd vfs \<Rightarrow> (nat \<times> 'd vfs) option" where
  "walk_step fs cname cur s =
     (if strcmp cname (str ''.'') = 0 then Some (cur, s)
      else if strcmp cname (str ''..'') = 0 then
        Some (if vn_parent (vfs_nodes s cur) \<noteq> 0 then vn_parent (vfs_nodes s cur) else cur, s)
      else
        let child = find_child cur cname s
        in if child \<noteq> 0 then Some (child, s)
           else case driver_op fs op_lookup cur s of
             None \<Rightarrow> None
           | Some None \<Rightarrow> Some (0, s)
           | Some (Some lookup) \<Rightarrow> Some (lookup cur cname s))"

fun walk_comps :: "(nat \<Rightarrow> 'd vfs_ops) \<Rightarrow> bytes list \<Rightarrow> nat \<Rightarrow> 'd vfs \<Rightarrow> (nat \<times> 'd vfs) option" where
  "walk_comps fs [] cur s = Some (cur, s)"
| "walk_comps fs (cname # cs) cur s =
     (case walk_step fs cname cur s of
        None \<Rightarrow> None
      | Some (cur', s') \<Rightarrow> if cur' = 0 then Some (0, s') else walk_comps fs cs cur' s')"

definition vfs_walk_path :: "(nat \<Rightarrow> 'd vfs_ops) \<Rightarrow> bytes \<Rightarrow> 'd vfs \<Rightarrow> (nat \<times> 'd vfs) option" where
  "vfs_walk_path fs path s =
     (if rd path \<noteq> chr CHR ''/'' then Some (0, s) else walk_comps fs (split_path (tl path)) (vfs_root s) s)"

definition vfs_resolve_path :: "(nat \<Rightarrow> 'd vfs_ops) \<Rightarrow> bytes \<Rightarrow> 'd vfs \<Rightarrow> (nat \<times> 'd vfs) option" where
  "vfs_resolve_path fs path s = vfs_walk_path fs path s"

definition vfs_make_child :: "bool \<Rightarrow> nat \<Rightarrow> bytes \<Rightarrow> vfs_node_type \<Rightarrow> nat \<Rightarrow> 'd vfs \<Rightarrow> nat \<times> 'd vfs" where
  "vfs_make_child mem parent name ty fs_data s =
     (if parent = 0 \<or> rd name = 0 then (0, s)
      else case create_node mem name ty s of
        (n, s) \<Rightarrow> if n = 0 then (0, s)
          else (n, add_child parent n (upd_node n (\<lambda>x. x\<lparr>vn_fs_data := fs_data\<rparr>) s)))"

section \<open>Mounting\<close>

definition vfs_init :: "bool \<Rightarrow> 'd vfs \<Rightarrow> (errno + unit) \<times> 'd vfs" where
  "vfs_init mem s =
     (let s = s\<lparr>fd_table := \<lambda>_. \<lparr>fe_node = 0, fe_flags = 0, fe_offset = 0, fe_in_use = False\<rparr>\<rparr>
      in case create_node mem (str ''/'') VFS_DIR s of
           (n, s) \<Rightarrow> (if n = 0 then Inl ENOMEM else Inr (), s\<lparr>vfs_root := n\<rparr>))"

text \<open>The directories of a mount path; \<open>Inl\<close> when a node cannot be allocated.\<close>

fun make_dirs :: "(nat \<Rightarrow> bool) \<Rightarrow> bytes list \<Rightarrow> nat \<Rightarrow> 'd vfs \<Rightarrow> (errno + nat) \<times> 'd vfs" where
  "make_dirs mem [] cur s = (Inr cur, s)"
| "make_dirs mem (cname # cs) cur s =
     (let child = find_child cur cname s
      in if child \<noteq> 0 then make_dirs mem cs child s
         else case create_node (mem (length cs)) cname VFS_DIR s of
           (n, s) \<Rightarrow> if n = 0 then (Inl ENOMEM, s) else make_dirs mem cs n (add_child cur n s))"

abbreviation mount_at :: "nat \<Rightarrow> nat \<Rightarrow> nat \<Rightarrow> 'd vfs \<Rightarrow> 'd vfs" where
  "mount_at n ops fs_data s \<equiv> upd_node n (\<lambda>x. x\<lparr>vn_mount_ops := ops, vn_mount_data := fs_data\<rparr>) s"

definition vfs_mount ::
  "(nat \<Rightarrow> 'd vfs_ops) \<Rightarrow> (nat \<Rightarrow> bool) \<Rightarrow> bytes \<Rightarrow> nat \<Rightarrow> nat \<Rightarrow> 'd vfs \<Rightarrow> ((errno + unit) \<times> 'd vfs) option" where
  "vfs_mount fs mem path fs_ops fs_data s =
     (if fs_ops = 0 then Some (Inl EINVAL, s)
      else if strcmp path (str ''/'') = 0 then Some (Inr (), mount_at (vfs_root s) fs_ops fs_data s)
      else case vfs_walk_path fs path s of
        None \<Rightarrow> None
      | Some (n, s) \<Rightarrow>
          if n \<noteq> 0 then Some (Inr (), mount_at n fs_ops fs_data s)
          else if rd path = 0 then None
          else case make_dirs mem (split_path (tl path)) (vfs_root s) s of
            (Inl e, s) \<Rightarrow> Some (Inl e, s)
          | (Inr n, s) \<Rightarrow> Some (Inr (), mount_at n fs_ops fs_data s))"

section \<open>Opening and closing\<close>

text \<open>
  \<open>parent_path\<close> after the copy, cut at its last slash, and the name behind it. When the last slash is the first
  character the name is taken from the path itself.
\<close>

definition split_last :: "bytes \<Rightarrow> (bytes option \<times> bytes) option" where
  "split_last path =
     (let parent_path = map ((strncpy 0 path (VFS_PATH_MAX - 1) (\<lambda>_. 0))(VFS_PATH_MAX - 1 := 0)) [0..<VFS_PATH_MAX]
      in case strrchr parent_path (ucast (chr CHR ''/'')) of
           None \<Rightarrow> None
         | Some i \<Rightarrow>
             if i = 0 then Some (None, name_field (tl path))
             else Some (Some (take i parent_path), name_field (drop (i + 1) parent_path)))"

definition open_create :: "(nat \<Rightarrow> 'd vfs_ops) \<Rightarrow> bool \<Rightarrow> bytes \<Rightarrow> 'd vfs \<Rightarrow> ((errno + nat) \<times> 'd vfs) option" where
  "open_create fs mem path s =
     (case split_last path of
        None \<Rightarrow> Some (Inl EINVAL, s)
      | Some (None, filename) \<Rightarrow>
          (case create_node mem filename VFS_FILE s of
             (n, s) \<Rightarrow> Some (if n = 0 then (Inl ENOMEM, s) else (Inr n, add_child (vfs_root s) n s)))
      | Some (Some parent_path, filename) \<Rightarrow>
          (case vfs_walk_path fs parent_path s of
             None \<Rightarrow> None
           | Some (parent, s) \<Rightarrow>
               if parent = 0 \<or> vn_type (vfs_nodes s parent) \<noteq> VFS_DIR then Some (Inl ENOENT, s)
               else case create_node mem filename VFS_FILE s of
                 (n, s) \<Rightarrow>
                   if n = 0 then Some (Inl ENOMEM, s)
                   else Some (Inr n, add_child parent n (upd_node n (\<lambda>x. x\<lparr>vn_ops := vn_ops (vfs_nodes s parent)\<rparr>) s))))"

definition open_node :: "(nat \<Rightarrow> 'd vfs_ops) \<Rightarrow> u32 \<Rightarrow> nat \<Rightarrow> 'd vfs \<Rightarrow> ((errno + nat) \<times> 'd vfs) option" where
  "open_node fs flags node s =
     (case alloc_fd s of
        (None, s) \<Rightarrow> Some (Inl ENOMEM, s)
      | (Some fd, s) \<Rightarrow>
          let s = s\<lparr>fd_table := (fd_table s)(fd := (fd_table s fd)\<lparr>fe_node := node, fe_flags := flags, fe_offset := 0\<rparr>)\<rparr>;
              s = (if flags AND VFS_O_TRUNC \<noteq> 0 then upd_node node (\<lambda>x. x\<lparr>vn_size := 0\<rparr>) s else s)
          in case driver_op fs op_open node s of
               None \<Rightarrow> None
             | Some None \<Rightarrow> Some (Inr fd, s)
             | Some (Some open_op) \<Rightarrow> Some (Inr fd, snd (open_op node flags s)))"

definition vfs_open :: "(nat \<Rightarrow> 'd vfs_ops) \<Rightarrow> bool \<Rightarrow> bytes \<Rightarrow> u32 \<Rightarrow> 'd vfs \<Rightarrow> ((errno + nat) \<times> 'd vfs) option" where
  "vfs_open fs mem path flags s =
     (case vfs_walk_path fs path s of
        None \<Rightarrow> None
      | Some (node, s) \<Rightarrow>
          if node \<noteq> 0 then open_node fs flags node s
          else if flags AND VFS_O_CREATE = 0 then Some (Inl ENOENT, s)
          else case open_create fs mem path s of
            None \<Rightarrow> None
          | Some (Inl e, s) \<Rightarrow> Some (Inl e, s)
          | Some (Inr n, s) \<Rightarrow> open_node fs flags n s)"

abbreviation bad_fd :: "int \<Rightarrow> 'd vfs \<Rightarrow> bool" where
  "bad_fd fd s \<equiv> fd < 0 \<or> int MAX_OPEN_FILES \<le> fd \<or> \<not> fe_in_use (fd_table s (nat fd))"

definition upd_fd :: "nat \<Rightarrow> (vfs_fd_entry \<Rightarrow> vfs_fd_entry) \<Rightarrow> 'd vfs \<Rightarrow> 'd vfs" where
  "upd_fd fd f s = s\<lparr>fd_table := (fd_table s)(fd := f (fd_table s fd))\<rparr>"

definition vfs_close :: "(nat \<Rightarrow> 'd vfs_ops) \<Rightarrow> int \<Rightarrow> 'd vfs \<Rightarrow> ((errno + unit) \<times> 'd vfs) option" where
  "vfs_close fs fd s =
     (if bad_fd fd s then Some (Inl EBADF, s)
      else
        let node = fe_node (fd_table s (nat fd));
            clear = upd_fd (nat fd) (\<lambda>e. e\<lparr>fe_in_use := False, fe_node := 0, fe_offset := 0, fe_flags := 0\<rparr>)
        in case driver_op fs op_close node s of
             None \<Rightarrow> None
           | Some None \<Rightarrow> Some (Inr (), clear s)
           | Some (Some close) \<Rightarrow> Some (Inr (), clear (snd (close node s))))"

section \<open>Reading, writing, seeking\<close>

text \<open>
  The result is the driver's return value, negative for an error, and the bytes it stored in the buffer.
\<close>

definition vfs_read :: "(nat \<Rightarrow> 'd vfs_ops) \<Rightarrow> int \<Rightarrow> nat \<Rightarrow> 'd vfs \<Rightarrow> ((errno + int \<times> bytes) \<times> 'd vfs) option" where
  "vfs_read fs fd sz s =
     (if bad_fd fd s then Some (Inl EBADF, s)
      else if sz = 0 then Some (Inl EINVAL, s)
      else
        let node = fe_node (fd_table s (nat fd))
        in case driver_op fs op_read node s of
             None \<Rightarrow> None
           | Some None \<Rightarrow> Some (Inl ENOTSUP, s)
           | Some (Some rd_op) \<Rightarrow>
               (case rd_op node (fe_offset (fd_table s (nat fd))) sz s of
                  (n, buf, s) \<Rightarrow>
                    Some (Inr (n, buf), if 0 < n then upd_fd (nat fd) (\<lambda>e. e\<lparr>fe_offset := fe_offset e + word_of_int n\<rparr>) s else s)))"

definition vfs_write :: "(nat \<Rightarrow> 'd vfs_ops) \<Rightarrow> int \<Rightarrow> bytes \<Rightarrow> 'd vfs \<Rightarrow> ((errno + int) \<times> 'd vfs) option" where
  "vfs_write fs fd buf s =
     (if bad_fd fd s then Some (Inl EBADF, s)
      else if length buf = 0 then Some (Inl EINVAL, s)
      else
        let node = fe_node (fd_table s (nat fd))
        in case driver_op fs op_write node s of
             None \<Rightarrow> None
           | Some None \<Rightarrow> Some (Inl ENOTSUP, s)
           | Some (Some wr_op) \<Rightarrow>
               let s = (if fe_flags (fd_table s (nat fd)) AND VFS_O_APPEND \<noteq> 0
                        then upd_fd (nat fd) (\<lambda>e. e\<lparr>fe_offset := vn_size (vfs_nodes s node)\<rparr>) s else s)
               in case wr_op node (fe_offset (fd_table s (nat fd))) buf s of
                    (n, s) \<Rightarrow>
                      if 0 < n then
                        let s = upd_fd (nat fd) (\<lambda>e. e\<lparr>fe_offset := fe_offset e + word_of_int n\<rparr>) s;
                            off = fe_offset (fd_table s (nat fd))
                        in Some (Inr n, if off > vn_size (vfs_nodes s node) then upd_node node (\<lambda>x. x\<lparr>vn_size := off\<rparr>) s else s)
                      else Some (Inr n, s))"

text \<open>The new position is computed in a signed 64-bit integer; \<open>None\<close> when it overflows.\<close>

abbreviation VFS_SEEK_SET :: int where "VFS_SEEK_SET \<equiv> 0"
abbreviation VFS_SEEK_CUR :: int where "VFS_SEEK_CUR \<equiv> 1"
abbreviation VFS_SEEK_END :: int where "VFS_SEEK_END \<equiv> 2"

definition vfs_lseek :: "int \<Rightarrow> int \<Rightarrow> int \<Rightarrow> 'd vfs \<Rightarrow> ((errno + int) \<times> 'd vfs) option" where
  "vfs_lseek fd offset whence s =
     (if bad_fd fd s then Some (Inl EBADF, s)
      else
        let node = fe_node (fd_table s (nat fd));
            cur = sint (fe_offset (fd_table s (nat fd)));
            new_off = (if whence = VFS_SEEK_SET then Some offset
                       else if whence = VFS_SEEK_CUR then Some (cur + offset)
                       else if whence = VFS_SEEK_END then Some (sint (vn_size (vfs_nodes s node)) + offset)
                       else None)
        in case new_off of
             None \<Rightarrow> Some (Inl EINVAL, s)
           | Some p \<Rightarrow>
               if p < - (2 ^ 63) \<or> 2 ^ 63 \<le> p then None
               else if p < 0 then Some (Inl EINVAL, s)
               else Some (Inr p, upd_fd (nat fd) (\<lambda>e. e\<lparr>fe_offset := word_of_int p\<rparr>) s))"

section \<open>Directories and attributes\<close>

definition vfs_mkdir :: "(nat \<Rightarrow> 'd vfs_ops) \<Rightarrow> bool \<Rightarrow> bytes \<Rightarrow> 'd vfs \<Rightarrow> ((int + unit) \<times> 'd vfs) option" where
  "vfs_mkdir fs mem path s =
     (if rd path \<noteq> chr CHR ''/'' then Some (Inl (- errno_code EINVAL), s)
      else case vfs_walk_path fs path s of
        None \<Rightarrow> None
      | Some (existing, s) \<Rightarrow>
          if existing \<noteq> 0 then Some (Inl (- errno_code EEXIST), s)
          else case split_last path of
            None \<Rightarrow> Some (Inl (- errno_code EINVAL), s)
          | Some (pp, dirname) \<Rightarrow>
              (case (case pp of None \<Rightarrow> Some (vfs_root s, s) | Some parent_path \<Rightarrow> vfs_walk_path fs parent_path s) of
                 None \<Rightarrow> None
               | Some (parent, s) \<Rightarrow>
                   if parent = 0 \<or> vn_type (vfs_nodes s parent) \<noteq> VFS_DIR then Some (Inl (- errno_code ENOENT), s)
                   else case driver_op fs op_mkdir parent s of
                     None \<Rightarrow> None
                   | Some op \<Rightarrow>
                       (case (case op of None \<Rightarrow> (0, s) | Some mk \<Rightarrow> mk parent dirname s) of
                          (rc, s) \<Rightarrow>
                            if rc < 0 then Some (Inl rc, s)
                            else case create_node mem dirname VFS_DIR s of
                              (n, s) \<Rightarrow>
                                if n = 0 then Some (Inl (- errno_code ENOMEM), s)
                                else Some (Inr (), add_child parent n (upd_node n (\<lambda>x. x\<lparr>vn_ops := vn_ops (vfs_nodes s parent)\<rparr>) s)))))"

abbreviation dirent_of :: "vfs_node \<Rightarrow> vfs_dirent" where
  "dirent_of c \<equiv> \<lparr>de_name = name_field (vn_name c), de_type = vn_type c, de_inode = vn_inode c, de_size = vn_size c\<rparr>"

definition vfs_readdir :: "(nat \<Rightarrow> 'd vfs_ops) \<Rightarrow> int \<Rightarrow> nat \<Rightarrow> 'd vfs \<Rightarrow> ((errno + int \<times> vfs_dirent list) \<times> 'd vfs) option" where
  "vfs_readdir fs fd max_entries s =
     (if bad_fd fd s then Some (Inl EBADF, s)
      else if max_entries = 0 then Some (Inl EINVAL, s)
      else
        let node = fe_node (fd_table s (nat fd))
        in if vn_type (vfs_nodes s node) \<noteq> VFS_DIR then Some (Inl EINVAL, s)
           else case driver_op fs op_readdir node s of
             None \<Rightarrow> None
           | Some (Some readdir) \<Rightarrow> (case readdir node max_entries s of (n, es, s) \<Rightarrow> Some (Inr (n, es), s))
           | Some None \<Rightarrow>
               let cs = take max_entries (vn_children (vfs_nodes s node))
               in Some (Inr (int (length cs), map (\<lambda>c. dirent_of (vfs_nodes s c)) cs), s))"

text \<open>\<open>st\<close> is the caller's structure, which a driver may leave as it is.\<close>

definition stat_node :: "(nat \<Rightarrow> 'd vfs_ops) \<Rightarrow> nat \<Rightarrow> vfs_statbuf \<Rightarrow> 'd vfs \<Rightarrow> (int \<times> vfs_statbuf \<times> 'd vfs) option" where
  "stat_node fs node st s =
     (case driver_op fs op_stat node s of
        None \<Rightarrow> None
      | Some (Some stat) \<Rightarrow> Some (stat node st s)
      | Some None \<Rightarrow>
          let n = vfs_nodes s node
          in Some (0, \<lparr>vs_type = vn_type n, vs_size = vn_size n, vs_permissions = vn_permissions n, vs_inode = vn_inode n,
                       vs_created = 0, vs_modified = 0\<rparr>, s))"

definition vfs_stat :: "(nat \<Rightarrow> 'd vfs_ops) \<Rightarrow> bytes \<Rightarrow> vfs_statbuf \<Rightarrow> 'd vfs \<Rightarrow> (int \<times> vfs_statbuf \<times> 'd vfs) option" where
  "vfs_stat fs path st s =
     (case vfs_walk_path fs path s of
        None \<Rightarrow> None
      | Some (node, s) \<Rightarrow> if node = 0 then Some (- errno_code ENOENT, st, s) else stat_node fs node st s)"

definition vfs_fstat :: "(nat \<Rightarrow> 'd vfs_ops) \<Rightarrow> int \<Rightarrow> vfs_statbuf \<Rightarrow> 'd vfs \<Rightarrow> (int \<times> vfs_statbuf \<times> 'd vfs) option" where
  "vfs_fstat fs fd st s =
     (if bad_fd fd s then Some (- errno_code EBADF, st, s) else stat_node fs (fe_node (fd_table s (nat fd))) st s)"

section \<open>Splitting paths\<close>

text \<open>The name of a directory entry: not empty, no slash, and short enough for a node.\<close>

definition entry_name :: "bytes \<Rightarrow> bool" where
  "entry_name name \<longleftrightarrow> name \<noteq> [] \<and> 0 \<notin> set name \<and> chr CHR ''/'' \<notin> set name \<and> length name < VFS_NAME_MAX
     \<and> name \<noteq> str ''.'' \<and> name \<noteq> str ''..''"

lemma take_component_name:
  assumes "0 \<notin> set name" "chr CHR ''/'' \<notin> set name" "length name \<le> n"
  shows "take_component n name = (name, [])"
  using assms by (induction n name rule: take_component.induct) auto

lemma take_component_append:
  assumes "take_component n p = (c, rest)"
  shows "take_component n (p @ chr CHR ''/'' # q) = (c, rest @ chr CHR ''/'' # q)"
  using assms
proof (induction n p arbitrary: c rest rule: take_component.induct)
  case (2 n)
  then show ?case by (cases n) auto
qed (auto split: if_splits prod.splits)

lemma skip_slashes_append:
  "skip_slashes p \<noteq> [] \<Longrightarrow> skip_slashes (p @ q) = skip_slashes p @ q"
  "skip_slashes p = [] \<Longrightarrow> skip_slashes (p @ q) = skip_slashes q"
  by (induction p) auto

lemma skip_slashes_set: "set (skip_slashes p) \<subseteq> set p"
  by (induction p) auto

lemma take_component_set: "take_component n p = (c, rest) \<Longrightarrow> set rest \<subseteq> set p"
  by (induction n p arbitrary: c rest rule: take_component.induct) (auto split: if_splits prod.splits)

lemma split_path_name:
  assumes "entry_name name"
  shows "split_path name = [name]"
proof -
  obtain c q where n: "name = c # q" "c \<noteq> 0" "c \<noteq> chr CHR ''/''" using assms by (cases name) (auto simp: entry_name_def)
  then have "skip_slashes name = name" "rd name \<noteq> 0" by (auto simp: rd_def)
  moreover have "take_component (VFS_NAME_MAX - 1) name = (name, [])"
    using assms by (intro take_component_name) (auto simp: entry_name_def)
  moreover have "split_path [] = []" by (subst split_path.simps) (simp add: rd_def)
  ultimately show ?thesis by (subst split_path.simps) simp
qed

lemma split_path_append:
  assumes "0 \<notin> set dir" "entry_name name"
  shows "split_path (dir @ chr CHR ''/'' # name) = split_path dir @ [name]"
  using assms(1)
proof (induction dir rule: split_path.induct)
  case (1 path)
  let ?x = "chr CHR ''/'' # name"
  show ?case
  proof (cases "skip_slashes path")
    case Nil
    have e: "split_path path = []" by (subst split_path.simps) (simp add: Nil rd_def)
    have "skip_slashes (path @ ?x) = skip_slashes name" using skip_slashes_append(2) [OF Nil] by simp
    then have "split_path (path @ ?x) = split_path name"
      by (simp only: split_path.simps [of "path @ ?x"] split_path.simps [of name])
    then show ?thesis using e split_path_name [OF assms(2)] by simp
  next
    case (Cons c q)
    have nz: "rd (skip_slashes path) \<noteq> 0" using Cons 1(2) skip_slashes_set [of path] by (auto simp: rd_def)
    obtain cn rest where tc: "take_component (VFS_NAME_MAX - 1) (skip_slashes path) = (cn, rest)" by fastforce
    have "0 \<notin> set rest" using take_component_set [OF tc] skip_slashes_set [of path] 1(2) by blast
    then have IH: "split_path (rest @ ?x) = split_path rest @ [name]" using 1(1) [OF refl nz] tc by simp
    have sk: "skip_slashes (path @ ?x) = skip_slashes path @ ?x" using Cons by (simp add: skip_slashes_append(1))
    have "rd (skip_slashes path @ ?x) \<noteq> 0" using nz Cons by (simp add: rd_def)
    then have "split_path (path @ ?x) = cn # split_path (rest @ ?x)"
      using take_component_append [OF tc] unfolding split_path.simps [of "path @ ?x"] sk Let_def by simp
    moreover have "split_path path = cn # split_path rest" using nz tc by (subst split_path.simps) simp
    ultimately show ?thesis using IH by simp
  qed
qed

lemma strrchr_loop_none: "c \<notin> set s \<Longrightarrow> k \<noteq> 0 \<Longrightarrow> c = ucast k \<Longrightarrow> strrchr_loop s k found i = found"
  by (induction s arbitrary: i) auto

lemma strrchr_last:
  assumes "0 \<notin> set a" "c \<notin> set b" "c = ucast k" "k \<noteq> 0" "c \<noteq> 0"
  shows "strrchr (a @ c # b) k = Some (length a)"
proof -
  have "strrchr_loop (a @ c # b) k found i = Some (i + length a)" for found i
    using assms(1)
  proof (induction a arbitrary: found i)
    case Nil
    then show ?case using assms strrchr_loop_none by simp
  qed auto
  then show ?thesis by (simp add: strrchr_def)
qed

lemma padded_copy:
  assumes "0 \<notin> set s" "length s \<le> k"
  shows "map ((strncpy 0 s k (\<lambda>_. 0))(k := 0)) [0..<Suc k] = s @ replicate (Suc k - length s) 0"
proof (rule nth_equalityI)
  show "length (map ((strncpy 0 s k (\<lambda>_. 0))(k := 0)) [0..<Suc k]) = length (s @ replicate (Suc k - length s) 0)"
    using assms(2) by simp
  fix i assume "i < length (map ((strncpy 0 s k (\<lambda>_. 0))(k := 0)) [0..<Suc k])"
  then have i: "i < Suc k" by simp
  have "cval s = s" using assms(1) unfolding cval_def by (intro takeWhile_eq_all_conv [THEN iffD2]) metis
  then have "strlen s = length s" by (simp add: strlen_cval)
  then show "map ((strncpy 0 s k (\<lambda>_. 0))(k := 0)) [0..<Suc k] ! i = (s @ replicate (Suc k - length s) 0) ! i"
    using i assms(2) by (simp add: strncpy_apply nth_append del: upt_Suc)
qed

lemma cval_name: "0 \<notin> set s \<Longrightarrow> cval s = s"
  unfolding cval_def by (rule takeWhile_eq_all_conv [THEN iffD2]) metis

lemma cval_name_field: "cval (name_field name) = take (VFS_NAME_MAX - 1) (cval name)"
proof -
  have "VFS_NAME_MAX = Suc (VFS_NAME_MAX - 1)" by simp
  then show ?thesis using strncpy_field [of name "VFS_NAME_MAX - 1" "\<lambda>_. 0"] unfolding name_field_def by simp
qed

lemma name_field_name: "entry_name name \<Longrightarrow> cval (name_field name) = name"
  by (auto simp: cval_name_field entry_name_def cval_name)

text \<open>A path of less than 512 characters that ends in a name splits into its directory and the name.\<close>

lemma split_last_path:
  assumes "entry_name name" "0 \<notin> set dir" "length dir + 1 + length name < VFS_PATH_MAX"
  shows "\<exists>fname. split_last (dir @ chr CHR ''/'' # name) = Some (if dir = [] then None else Some dir, fname) \<and> cval fname = name"
proof -
  define p where "p = dir @ chr CHR ''/'' # name"
  define z where "z = replicate (Suc 511 - length p) (0::u8)"
  have nz: "0 \<notin> set p" "0 \<notin> set name" "chr CHR ''/'' \<notin> set name" using assms by (auto simp: entry_name_def p_def)
  have len: "length p \<le> 511" using assms(3) by (simp add: p_def)
  have max: "VFS_PATH_MAX = Suc 511" by simp
  have copy: "map ((strncpy 0 p (VFS_PATH_MAX - 1) (\<lambda>_. 0))(VFS_PATH_MAX - 1 := 0)) [0..<VFS_PATH_MAX] = p @ z"
    unfolding max diff_Suc_1 z_def by (rule padded_copy [OF nz(1) len])
  have "chr CHR ''/'' \<notin> set (name @ z)" using nz(3) by (auto simp: z_def)
  then have "strrchr (dir @ chr CHR ''/'' # (name @ z)) (ucast (chr CHR ''/'')) = Some (length dir)"
    using assms(2) by (intro strrchr_last) simp_all
  then have last_slash: "strrchr (p @ z) (ucast (chr CHR ''/'')) = Some (length dir)" by (simp add: p_def)
  have split: "split_last p = (if length dir = 0 then Some (None, name_field (tl p))
      else Some (Some (take (length dir) (p @ z)), name_field (drop (length dir + 1) (p @ z))))"
    unfolding split_last_def copy Let_def last_slash option.case ..
  have "cval z = []" by (cases "Suc 511 - length p") (simp_all add: cval_def z_def)
  moreover have "cval (name @ z) = name @ cval z" unfolding cval_def using nz(2) by (intro takeWhile_append2) metis
  ultimately have long: "cval (name_field (name @ z)) = name" using assms(1) by (auto simp: cval_name_field entry_name_def)
  show ?thesis
  proof (cases "dir = []")
    case True
    then have "split_last p = Some (None, name_field name)" using split by (simp add: p_def)
    then show ?thesis using True name_field_name [OF assms(1)] by (simp add: p_def)
  next
    case False
    have "take (length dir) (p @ z) = dir" "drop (length dir + 1) (p @ z) = name @ z" by (simp_all add: p_def)
    then have "split_last p = Some (Some dir, name_field (name @ z))" using split False by simp
    then show ?thesis using False long by (simp add: p_def)
  qed
qed

section \<open>The tree\<close>

text \<open>Resolution in memory, without asking a driver; \<open>0\<close> when a name is missing.\<close>

definition tree_step :: "'d vfs \<Rightarrow> bytes \<Rightarrow> nat \<Rightarrow> nat" where
  "tree_step s cname cur =
     (if strcmp cname (str ''.'') = 0 then cur
      else if strcmp cname (str ''..'') = 0 then
        if vn_parent (vfs_nodes s cur) \<noteq> 0 then vn_parent (vfs_nodes s cur) else cur
      else find_child cur cname s)"

primrec tree_walk :: "'d vfs \<Rightarrow> bytes list \<Rightarrow> nat \<Rightarrow> nat" where
  "tree_walk s [] cur = cur"
| "tree_walk s (c # cs) cur = (if tree_step s c cur = 0 then 0 else tree_walk s cs (tree_step s c cur))"

text \<open>The parent of a node is older, its children are newer and know it.\<close>

definition vfs_wf :: "'d vfs \<Rightarrow> bool" where
  "vfs_wf s \<longleftrightarrow> 0 < vfs_root s \<and> vfs_root s < vfs_next s \<and>
     (\<forall>n. 0 < n \<longrightarrow> n < vfs_next s \<longrightarrow> vn_parent (vfs_nodes s n) < n
        \<and> (\<forall>c \<in> set (vn_children (vfs_nodes s n)). n < c \<and> c < vfs_next s \<and> vn_parent (vfs_nodes s c) = n))"

lemma vfs_wfD:
  assumes "vfs_wf s" "0 < n" "n < vfs_next s"
  shows "vn_parent (vfs_nodes s n) < n"
    and "c \<in> set (vn_children (vfs_nodes s n)) \<Longrightarrow> n < c \<and> c < vfs_next s \<and> vn_parent (vfs_nodes s c) = n"
  using assms unfolding vfs_wf_def by blast+

lemma vfs_wf_root: "vfs_wf s \<Longrightarrow> 0 < vfs_root s" "vfs_wf s \<Longrightarrow> vfs_root s < vfs_next s"
  unfolding vfs_wf_def by blast+

lemma get_ops_returns:
  assumes "vfs_wf s" "n < vfs_next s"
  shows "\<exists>ops. get_ops s n = Some ops"
  using assms(2)
proof (induction n rule: less_induct)
  case (less n)
  show ?case
  proof (cases "n = 0")
    case False
    then have "vn_parent (vfs_nodes s n) < n" using vfs_wfD(1) [OF assms(1)] less.prems by simp
    then show ?thesis using less False by (subst get_ops.simps) auto
  qed (simp add: get_ops.simps)
qed

lemma find_child_iff:
  assumes "0 \<notin> set (vn_children (vfs_nodes s d))"
  shows "find_child d name s = 0 \<longleftrightarrow> (\<forall>c \<in> set (vn_children (vfs_nodes s d)). cval (vn_name (vfs_nodes s c)) \<noteq> cval name)"
    and "find_child d name s = c \<Longrightarrow> c \<noteq> 0 \<Longrightarrow>
       c \<in> set (vn_children (vfs_nodes s d)) \<and> cval (vn_name (vfs_nodes s c)) = cval name"
proof -
  have "find (\<lambda>c. strcmp (vn_name (vfs_nodes s c)) name = 0) cs \<noteq> Some 0" if "0 \<notin> set cs" for cs
    using that by (metis find_Some_iff nth_mem)
  from this [OF assms] show "find_child d name s = 0 \<longleftrightarrow> (\<forall>c \<in> set (vn_children (vfs_nodes s d)). cval (vn_name (vfs_nodes s c)) \<noteq> cval name)"
    unfolding find_child_def strcmp_0_iff by (auto simp: find_None_iff find_Some_iff split: option.splits)
  show "find_child d name s = c \<Longrightarrow> c \<noteq> 0 \<Longrightarrow>
       c \<in> set (vn_children (vfs_nodes s d)) \<and> cval (vn_name (vfs_nodes s c)) = cval name"
    by (auto simp: find_child_def find_Some_iff strcmp_0_iff split: option.splits)
qed

lemma children_nonzero: "vfs_wf s \<Longrightarrow> 0 < d \<Longrightarrow> d < vfs_next s \<Longrightarrow> 0 \<notin> set (vn_children (vfs_nodes s d))"
  by (auto dest: vfs_wfD(2))

lemma tree_step_node:
  assumes "vfs_wf s" "0 < cur" "cur < vfs_next s"
  shows "tree_step s c cur < vfs_next s"
proof -
  have "find_child cur c s < vfs_next s"
  proof (cases "find_child cur c s = 0")
    case False
    then show ?thesis using find_child_iff(2) [OF children_nonzero [OF assms] refl] vfs_wfD(2) [OF assms] by blast
  qed (use assms in simp)
  then show ?thesis using assms vfs_wfD(1) [OF assms] by (simp add: tree_step_def)
qed

lemma walk_step_tree: "tree_step s c cur \<noteq> 0 \<Longrightarrow> walk_step fs c cur s = Some (tree_step s c cur, s)"
  by (auto simp: tree_step_def walk_step_def Let_def)

text \<open>A path that resolves in memory is walked without asking a driver.\<close>

lemma walk_tree: "tree_walk s cs cur \<noteq> 0 \<Longrightarrow> walk_comps fs cs cur s = Some (tree_walk s cs cur, s)"
  by (induction cs arbitrary: cur) (auto simp: walk_step_tree split: if_splits)

lemma tree_walk_node:
  assumes "vfs_wf s" "0 < cur" "cur < vfs_next s"
  shows "tree_walk s cs cur < vfs_next s"
  using assms(2,3)
proof (induction cs arbitrary: cur)
  case (Cons c cs)
  then show ?case using tree_step_node [OF assms(1), of cur c] assms by auto
qed simp

lemma tree_walk_append: "tree_walk s (cs @ [c]) cur = (if tree_walk s cs cur = 0 then 0 else tree_step s c (tree_walk s cs cur))"
  if "cur \<noteq> 0"
  using that by (induction cs arbitrary: cur) auto

section \<open>Creating an entry\<close>

definition grown :: "nat \<Rightarrow> vfs_node \<Rightarrow> 'd vfs \<Rightarrow> 'd vfs" where
  "grown d nd s = add_child d (vfs_next s) (snd (new_node nd s))"

lemma grown_sel:
  assumes "d < vfs_next s"
  shows "vfs_nodes (grown d nd s) (vfs_next s) = nd\<lparr>vn_parent := d\<rparr>"
    and "vfs_nodes (grown d nd s) d = (vfs_nodes s d)\<lparr>vn_children := vfs_next s # vn_children (vfs_nodes s d)\<rparr>"
    and "n \<noteq> d \<Longrightarrow> n \<noteq> vfs_next s \<Longrightarrow> vfs_nodes (grown d nd s) n = vfs_nodes s n"
    and "vfs_next (grown d nd s) = vfs_next s + 1" "vfs_root (grown d nd s) = vfs_root s" "fd_table (grown d nd s) = fd_table s"
  using assms by (auto simp: grown_def add_child_def upd_node_def new_node_def)

lemma grown_old:
  assumes "d < vfs_next s" "n < vfs_next s"
  shows "vn_name (vfs_nodes (grown d nd s) n) = vn_name (vfs_nodes s n)"
    and "vn_parent (vfs_nodes (grown d nd s) n) = vn_parent (vfs_nodes s n)"
  using assms grown_sel(2) [OF assms(1), of nd] grown_sel(3) [OF assms(1), of n nd] by (cases "n = d"; simp)+

lemma grown_wf:
  assumes wf: "vfs_wf s" and d: "0 < d" "d < vfs_next s" and nd: "vn_children nd = []"
  shows "vfs_wf (grown d nd s)"
proof -
  let ?s = "grown d nd s" let ?N = "vfs_next s"
  note sel = grown_sel [OF d(2), where nd = nd]
  have "vn_parent (vfs_nodes ?s n) < n
      \<and> (\<forall>c \<in> set (vn_children (vfs_nodes ?s n)). n < c \<and> c < ?N + 1 \<and> vn_parent (vfs_nodes ?s c) = n)"
    if n: "0 < n" "n < ?N + 1" for n
  proof (cases "n = ?N")
    case True
    then show ?thesis using d(2) nd by (simp add: sel(1))
  next
    case False
    then have old: "n < ?N" using n(2) by simp
    have kids: "c < ?N \<and> n < c \<and> vn_parent (vfs_nodes ?s c) = n" if "c \<in> set (vn_children (vfs_nodes s n))" for c
      using vfs_wfD(2) [OF wf n(1) old that] grown_old(2) [OF d(2), of c nd] by simp
    have "set (vn_children (vfs_nodes ?s n)) \<subseteq> insert ?N (set (vn_children (vfs_nodes s n)))" "n \<noteq> d \<Longrightarrow> vn_children (vfs_nodes ?s n) = vn_children (vfs_nodes s n)"
      using sel(2) sel(3) [OF _ False] by (cases "n = d"; auto)+
    moreover have "vn_parent (vfs_nodes ?s n) < n" using grown_old(2) [OF d(2) old, of nd] vfs_wfD(1) [OF wf n(1) old] by simp
    moreover have "n = d \<Longrightarrow> vn_parent (vfs_nodes ?s ?N) = n" by (simp add: sel(1))
    ultimately show ?thesis using kids old by fastforce
  qed
  moreover have "vfs_root s < vfs_next s + 1" using vfs_wf_root(2) [OF wf] by simp
  ultimately show ?thesis using vfs_wf_root(1) [OF wf] unfolding vfs_wf_def sel(4,5) by blast
qed

lemma grown_find:
  assumes wf: "vfs_wf s" and d: "0 < d" "d < vfs_next s" and nd: "cval (vn_name nd) = cval name"
    and new: "find_child d name s = 0"
  shows "find_child d name (grown d nd s) = vfs_next s"
    and "0 < cur \<Longrightarrow> cur < vfs_next s \<Longrightarrow> find_child cur c s \<noteq> 0 \<Longrightarrow> find_child cur c (grown d nd s) = find_child cur c s"
proof -
  let ?s = "grown d nd s"
  note sel = grown_sel [OF d(2), where nd = nd]
  show "find_child d name ?s = vfs_next s" using nd by (simp add: find_child_def sel(1,2) strcmp_0_iff)
  assume cur: "0 < cur" "cur < vfs_next s" and found: "find_child cur c s \<noteq> 0"
  let ?P = "\<lambda>s x. strcmp (vn_name (vfs_nodes s x)) c = 0"
  have same: "find (?P ?s) (vn_children (vfs_nodes s cur)) = find (?P s) (vn_children (vfs_nodes s cur))"
    using vfs_wfD(2) [OF wf cur] grown_old(1) [OF d(2)] by (intro find_cong) auto
  show "find_child cur c ?s = find_child cur c s"
  proof (cases "cur = d")
    case True
    have "cval (vn_name (vfs_nodes s (find_child d c s))) = cval c" "find_child d c s \<in> set (vn_children (vfs_nodes s d))"
      using find_child_iff(2) [OF children_nonzero [OF wf d] refl] found True by auto
    then have "cval c \<noteq> cval name" using new unfolding find_child_iff(1) [OF children_nonzero [OF wf d]] by metis
    then have "\<not> ?P ?s (vfs_next s)" using nd by (simp add: sel(1) strcmp_0_iff)
    then show ?thesis using same True by (simp add: find_child_def sel(2))
  next
    case False
    then show ?thesis using same cur sel(3) [of cur] by (simp add: find_child_def)
  qed
qed

lemma grown_walk:
  assumes wf: "vfs_wf s" and d: "0 < d" "d < vfs_next s" and nd: "cval (vn_name nd) = cval name"
    and new: "find_child d name s = 0"
  shows "0 < cur \<Longrightarrow> cur < vfs_next s \<Longrightarrow> tree_walk s cs cur \<noteq> 0 \<Longrightarrow> tree_walk (grown d nd s) cs cur = tree_walk s cs cur"
proof (induction cs arbitrary: cur)
  case (Cons c cs)
  have nz: "tree_step s c cur \<noteq> 0" "tree_walk s cs (tree_step s c cur) \<noteq> 0" using Cons.prems(3) by (auto split: if_splits)
  have "tree_step (grown d nd s) c cur = tree_step s c cur"
    using nz(1) grown_old(2) [OF d(2) Cons.prems(2), of nd] grown_find(2) [OF assms Cons.prems(1,2), of c] unfolding tree_step_def
    by (simp split: if_splits)
  then show ?case using Cons nz tree_step_node [OF wf Cons.prems(1,2), of c] by simp
qed simp

lemma entry_not_dots:
  assumes "entry_name name"
  shows "strcmp name (str ''.'') \<noteq> 0" "strcmp name (str ''..'') \<noteq> 0" "cval name = name"
proof -
  show "cval name = name" using assms by (simp add: entry_name_def cval_name)
  moreover have "cval (str ''.'') = str ''.''" "cval (str ''..'') = str ''..''" by (simp_all add: cval_def str_def)
  ultimately show "strcmp name (str ''.'') \<noteq> 0" "strcmp name (str ''..'') \<noteq> 0"
    using assms by (simp_all add: strcmp_0_iff entry_name_def)
qed

text \<open>
  A directory found in memory that has no entry of a name, neither in memory nor on the side of its driver.
\<close>

definition free_entry :: "(nat \<Rightarrow> 'd vfs_ops) \<Rightarrow> bytes \<Rightarrow> nat \<Rightarrow> bytes \<Rightarrow> 'd vfs \<Rightarrow> bool" where
  "free_entry fs dir d name s \<longleftrightarrow> vfs_wf s \<and> entry_name name \<and> 0 \<notin> set dir \<and> (dir \<noteq> [] \<longrightarrow> hd dir = chr CHR ''/'')
     \<and> length dir + 1 + length name < VFS_PATH_MAX \<and> d \<noteq> 0 \<and> tree_walk s (split_path dir) (vfs_root s) = d
     \<and> vn_type (vfs_nodes s d) = VFS_DIR \<and> find_child d name s = 0 \<and> walk_step fs name d s = Some (0, s)"

lemma split_path_slash: "split_path (chr CHR ''/'' # p) = split_path p"
  by (simp only: split_path.simps [of "chr CHR ''/'' # p"] split_path.simps [of p] skip_slashes.simps if_True refl)

lemma path_components:
  assumes "entry_name name" "0 \<notin> set dir" "dir \<noteq> [] \<longrightarrow> hd dir = chr CHR ''/''"
  shows "rd (dir @ chr CHR ''/'' # name) = chr CHR ''/''" "split_path (tl (dir @ chr CHR ''/'' # name)) = split_path dir @ [name]"
proof -
  show "rd (dir @ chr CHR ''/'' # name) = chr CHR ''/''" using assms(3) by (cases dir) (auto simp: rd_def)
  show "split_path (tl (dir @ chr CHR ''/'' # name)) = split_path dir @ [name]"
  proof (cases dir)
    case Nil
    have "split_path [] = []" by (subst split_path.simps) (simp add: rd_def)
    then show ?thesis using Nil split_path_name [OF assms(1)] by simp
  next
    case (Cons c d)
    then have c: "c = chr CHR ''/''" using assms(3) by simp
    have "split_path (d @ chr CHR ''/'' # name) = split_path d @ [name]" using assms(1,2) Cons by (intro split_path_append) auto
    then show ?thesis unfolding Cons c split_path_slash by simp
  qed
qed

lemma walk_comps_append:
  "cur \<noteq> 0 \<Longrightarrow> tree_walk s cs cur \<noteq> 0 \<Longrightarrow> walk_comps fs (cs @ [c]) cur s = walk_comps fs [c] (tree_walk s cs cur) s"
  by (induction cs arbitrary: cur) (auto simp: walk_step_tree split: if_splits)

lemma free_entryD:
  assumes "free_entry fs dir d name s"
  shows "vfs_wf s" "entry_name name" "0 < d" "d < vfs_next s" "find_child d name s = 0" "vn_type (vfs_nodes s d) = VFS_DIR"
    and "vfs_walk_path fs (dir @ chr CHR ''/'' # name) s = Some (0, s)"
    and "dir \<noteq> [] \<Longrightarrow> vfs_walk_path fs dir s = Some (d, s)" and "dir = [] \<Longrightarrow> d = vfs_root s"
    and "\<exists>fname. split_last (dir @ chr CHR ''/'' # name) = Some (if dir = [] then None else Some dir, fname) \<and> cval fname = name"
proof -
  note f = assms [unfolded free_entry_def]
  show wf: "vfs_wf s" and "entry_name name" and "0 < d" and "find_child d name s = 0" and "vn_type (vfs_nodes s d) = VFS_DIR"
    using f by simp_all
  have root: "0 < vfs_root s" "vfs_root s < vfs_next s" by (rule vfs_wf_root [OF wf])+
  show "d < vfs_next s" using tree_walk_node [OF wf root] f by metis
  have p: "rd (dir @ chr CHR ''/'' # name) = chr CHR ''/''" "split_path (tl (dir @ chr CHR ''/'' # name)) = split_path dir @ [name]"
    using path_components f by blast+
  have "walk_comps fs (split_path dir @ [name]) (vfs_root s) s = walk_comps fs [name] d s"
    using walk_comps_append [of "vfs_root s" s "split_path dir" fs name] root f by simp
  then show "vfs_walk_path fs (dir @ chr CHR ''/'' # name) s = Some (0, s)" unfolding vfs_walk_path_def p using f by simp
  show "\<exists>fname. split_last (dir @ chr CHR ''/'' # name) = Some (if dir = [] then None else Some dir, fname) \<and> cval fname = name"
    using f by (intro split_last_path) simp_all
  have "split_path [] = []" by (subst split_path.simps) (simp add: rd_def)
  then show "dir = [] \<Longrightarrow> d = vfs_root s" using f by simp
  show "vfs_walk_path fs dir s = Some (d, s)" if ne: "dir \<noteq> []"
  proof -
    obtain q where q: "dir = chr CHR ''/'' # q" using ne f by (cases dir) auto
    have "tree_walk s (split_path q) (vfs_root s) = d" using f unfolding q split_path_slash by simp
    then have "walk_comps fs (split_path q) (vfs_root s) s = Some (d, s)" using f walk_tree by metis
    then show ?thesis by (simp add: vfs_walk_path_def q rd_def)
  qed
qed

text \<open>The tree after an entry was created: the path leads to the new node, every path that resolved still does.\<close>

definition entry_added :: "bytes \<Rightarrow> bytes \<Rightarrow> vfs_node_type \<Rightarrow> 'd vfs \<Rightarrow> 'd vfs \<Rightarrow> bool" where
  "entry_added dir name ty s s' \<longleftrightarrow> vfs_wf s' \<and> vfs_root s' = vfs_root s
     \<and> tree_walk s' (split_path (dir @ chr CHR ''/'' # name)) (vfs_root s) = vfs_next s
     \<and> vn_type (vfs_nodes s' (vfs_next s)) = ty \<and> vn_children (vfs_nodes s' (vfs_next s)) = []
     \<and> (\<forall>cs. tree_walk s cs (vfs_root s) \<noteq> 0 \<longrightarrow> tree_walk s' cs (vfs_root s) = tree_walk s cs (vfs_root s))"

lemma grown_added:
  assumes "free_entry fs dir d name s" "cval (vn_name nd) = name" "vn_children nd = []" "vn_type nd = ty"
  shows "entry_added dir name ty s (grown d nd s)"
proof -
  note f = free_entryD [OF assms(1)]
  have nm: "cval (vn_name nd) = cval name" using assms(2) entry_not_dots(3) [OF f(2)] by simp
  have root: "0 < vfs_root s" "vfs_root s < vfs_next s" by (rule vfs_wf_root [OF f(1)])+
  note walk = grown_walk [OF f(1,3,4) nm f(5) root]
  have dir: "0 \<notin> set dir" "tree_walk s (split_path dir) (vfs_root s) = d" using assms(1) by (simp_all add: free_entry_def)
  have "tree_walk (grown d nd s) (split_path dir) (vfs_root s) = d" using walk dir(2) f(3) by simp
  then have "tree_walk (grown d nd s) (split_path dir @ [name]) (vfs_root s) = tree_step (grown d nd s) name d"
    using tree_walk_append [of "vfs_root s" "grown d nd s" "split_path dir" name] root f(3) by simp
  also have "\<dots> = vfs_next s"
    using grown_find(1) [OF f(1,3,4) nm f(5)] entry_not_dots [OF f(2)] by (simp add: tree_step_def)
  finally show ?thesis
    unfolding entry_added_def split_path_append [OF dir(1) f(2)]
    using grown_wf [OF f(1,3,4) assms(3)] grown_sel(1,5) [OF f(4), where nd = nd] walk assms(3,4) by simp
qed

lemma driver_op_returns: "vfs_wf s \<Longrightarrow> n < vfs_next s \<Longrightarrow> \<exists>op. driver_op fs sel n s = Some op"
  using get_ops_returns [of s n] by (auto simp: driver_op_def)

lemma add_new_node:
  assumes "d < vfs_next s" "0 < vfs_next s"
  shows "create_node True fname ty s = (vfs_next s, snd (new_node (zero_node\<lparr>vn_name := name_field fname, vn_type := ty\<rparr>) s))"
    and "add_child d (vfs_next s) (snd (create_node True fname ty s)) = grown d (zero_node\<lparr>vn_name := name_field fname, vn_type := ty\<rparr>) s"
    and "add_child d (vfs_next s) (upd_node (vfs_next s) (\<lambda>x. x\<lparr>vn_ops := vn_ops (vfs_nodes (snd (create_node True fname ty s)) d)\<rparr>)
           (snd (create_node True fname ty s)))
       = grown d (zero_node\<lparr>vn_name := name_field fname, vn_type := ty, vn_ops := vn_ops (vfs_nodes s d)\<rparr>) s"
  using assms by (simp_all add: create_node_def new_node_def grown_def add_child_def upd_node_def)

lemma field_name: "cval fname = name \<Longrightarrow> entry_name name \<Longrightarrow> cval (name_field fname) = name"
  by (auto simp: cval_name_field entry_name_def)

lemma mkdir_free:
  assumes free: "free_entry fs dir d name s"
    and drv: "\<And>mk fname. driver_op fs op_mkdir d s = Some (Some mk) \<Longrightarrow> cval fname = name \<Longrightarrow> \<exists>rc \<ge> 0. mk d fname s = (rc, s)"
  shows "\<exists>s'. vfs_mkdir fs True (dir @ chr CHR ''/'' # name) s = Some (Inr (), s') \<and> entry_added dir name VFS_DIR s s'"
proof -
  note f = free_entryD [OF free]
  obtain fname where sl: "split_last (dir @ chr CHR ''/'' # name) = Some (if dir = [] then None else Some dir, fname)" "cval fname = name"
    using f(10) by blast
  have slash: "rd (dir @ chr CHR ''/'' # name) = chr CHR ''/''"
    using path_components(1) [of name dir] free by (simp add: free_entry_def)
  have parent: "(case (if dir = [] then None else Some dir) of None \<Rightarrow> Some (vfs_root s, s) | Some pp \<Rightarrow> vfs_walk_path fs pp s) = Some (d, s)"
    using f(8,9) by simp
  obtain op where op: "driver_op fs op_mkdir d s = Some op" using driver_op_returns [OF f(1,4)] by blast
  obtain rc where rc: "(case op of None \<Rightarrow> (0, s) | Some mk \<Rightarrow> mk d fname s) = (rc, s)" "0 \<le> rc"
    using drv op sl(2) by (cases op) auto
  have N: "0 < vfs_next s" using f(4) by simp
  note n = add_new_node [OF f(4) N, where fname = fname and ty = VFS_DIR]
  let ?nd = "zero_node\<lparr>vn_name := name_field fname, vn_type := VFS_DIR, vn_ops := vn_ops (vfs_nodes s d)\<rparr>"
  have "vfs_mkdir fs True (dir @ chr CHR ''/'' # name) s = Some (Inr (), grown d ?nd s)"
    unfolding vfs_mkdir_def f(7) option.case prod.case sl(1) parent op rc(1) n(1)
    using slash rc(2) f(3,6) N n(3) by (simp add: n(1))
  moreover have "entry_added dir name VFS_DIR s (grown d ?nd s)"
    using field_name [OF sl(2) f(2)] by (intro grown_added [OF free]) (simp_all add: zero_node_def)
  ultimately show ?thesis by blast
qed

lemma create_free:
  assumes free: "free_entry fs dir d name s" and flags: "flags AND VFS_O_CREATE \<noteq> 0"
  shows "\<exists>s'. vfs_open fs True (dir @ chr CHR ''/'' # name) flags s = open_node fs flags (vfs_next s) s' \<and> entry_added dir name VFS_FILE s s'
           \<and> fd_table s' = fd_table s"
proof -
  note f = free_entryD [OF free]
  let ?p = "dir @ chr CHR ''/'' # name"
  obtain fname where sl: "split_last ?p = Some (if dir = [] then None else Some dir, fname)" "cval fname = name" using f(10) by blast
  have N: "0 < vfs_next s" using f(4) by simp
  note n = add_new_node [OF f(4) N, where fname = fname and ty = VFS_FILE]
  have root: "vfs_root (snd (create_node True fname VFS_FILE s)) = vfs_root s" by (simp add: create_node_def new_node_def)
  define ops where "ops = (if dir = [] then 0 else vn_ops (vfs_nodes s d))"
  let ?nd = "zero_node\<lparr>vn_name := name_field fname, vn_type := VFS_FILE, vn_ops := ops\<rparr>"
  have "open_create fs True ?p s = Some (Inr (vfs_next s), grown d ?nd s)"
  proof (cases "dir = []")
    case True
    then have "?nd = zero_node\<lparr>vn_name := name_field fname, vn_type := VFS_FILE\<rparr>" by (simp add: ops_def zero_node_def)
    then have g: "add_child d (vfs_next s) (snd (create_node True fname VFS_FILE s)) = grown d ?nd s" using n(2) by simp
    show ?thesis unfolding open_create_def sl(1) using True N f(9) g root
      by (simp add: prod.case_eq_if) (simp add: n(1))
  next
    case False
    then have g: "add_child d (vfs_next s) (upd_node (vfs_next s) (\<lambda>x. x\<lparr>vn_ops := vn_ops (vfs_nodes (snd (create_node True fname VFS_FILE s)) d)\<rparr>)
       (snd (create_node True fname VFS_FILE s))) = grown d ?nd s" using n(3) by (simp add: ops_def)
    show ?thesis unfolding open_create_def sl(1) using False N f(3,6,8) g by (simp add: prod.case_eq_if) (simp add: n(1))
  qed
  then have "vfs_open fs True ?p flags s = open_node fs flags (vfs_next s) (grown d ?nd s)"
    unfolding vfs_open_def f(7) using flags by simp
  moreover have "entry_added dir name VFS_FILE s (grown d ?nd s)"
    using field_name [OF sl(2) f(2)] by (intro grown_added [OF free]) (simp_all add: zero_node_def)
  ultimately show ?thesis using grown_sel(6) [OF f(4)] by blast
qed

lemma mkdir_again:
  assumes "free_entry fs dir d name s" "entry_added dir name ty s s'" "0 < vfs_next s"
  shows "vfs_mkdir fs mem (dir @ chr CHR ''/'' # name) s' = Some (Inl (- errno_code EEXIST), s')"
    and "vfs_walk_path fs (dir @ chr CHR ''/'' # name) s' = Some (vfs_next s, s')"
proof -
  let ?p = "dir @ chr CHR ''/'' # name"
  have p: "rd ?p = chr CHR ''/''" "split_path (tl ?p) = split_path dir @ [name]" "split_path ?p = split_path dir @ [name]"
    using path_components [of name dir] split_path_append [of dir name] assms(1) by (simp_all add: free_entry_def)
  have "tree_walk s' (split_path (tl ?p)) (vfs_root s') = vfs_next s" using assms(2) p by (simp add: entry_added_def)
  then have "walk_comps fs (split_path (tl ?p)) (vfs_root s') s' = Some (vfs_next s, s')" using walk_tree assms(3) by (metis less_not_refl)
  then show w: "vfs_walk_path fs ?p s' = Some (vfs_next s, s')" using p(1) by (simp add: vfs_walk_path_def)
  show "vfs_mkdir fs mem ?p s' = Some (Inl (- errno_code EEXIST), s')" unfolding vfs_mkdir_def w using p(1) assms(3) by simp
qed

section \<open>The properties\<close>


text \<open>A file system that was just initialised, and a driver that offers nothing.\<close>

definition blank_vfs :: "'d \<Rightarrow> 'd vfs" where
  "blank_vfs d = \<lparr>vfs_nodes = \<lambda>_. zero_node, vfs_next = 1, vfs_root = 0,
     fd_table = \<lambda>_. \<lparr>fe_node = 0, fe_flags = 0, fe_offset = 0, fe_in_use = False\<rparr>, vfs_drv = d\<rparr>"

definition no_ops :: "'d vfs_ops" where
  "no_ops = \<lparr>op_read = None, op_write = None, op_open = None, op_close = None, op_readdir = None, op_mkdir = None,
     op_unlink = None, op_stat = None, op_lookup = None\<rparr>"

definition fresh_vfs :: "'d \<Rightarrow> 'd vfs" where
  "fresh_vfs d = snd (vfs_init True (blank_vfs d))"

lemma fresh_sel:
  "vfs_root (fresh_vfs d) = 1" "vfs_next (fresh_vfs d) = 2" "vfs_drv (fresh_vfs d) = d"
  "vfs_nodes (fresh_vfs d) (Suc 0) = zero_node\<lparr>vn_name := name_field (str ''/''), vn_type := VFS_DIR\<rparr>"
  "n \<noteq> Suc 0 \<Longrightarrow> vfs_nodes (fresh_vfs d) n = zero_node"
  "fd_table (fresh_vfs d) i = \<lparr>fe_node = 0, fe_flags = 0, fe_offset = 0, fe_in_use = False\<rparr>"
  by (simp_all add: fresh_vfs_def vfs_init_def blank_vfs_def create_node_def new_node_def)

lemma fresh_wf: "vfs_wf (fresh_vfs d)"
proof -
  have "vn_parent (vfs_nodes (fresh_vfs d) n) < n \<and> vn_children (vfs_nodes (fresh_vfs d) n) = []" if "0 < n" "n < 2" for n
  proof -
    have "n = Suc 0" using that by simp
    then show ?thesis by (simp add: fresh_sel zero_node_def)
  qed
  then show ?thesis unfolding vfs_wf_def by (simp add: fresh_sel)
qed

lemma fresh_get_ops: "get_ops (fresh_vfs d) (Suc 0) = Some 0"
  by (subst get_ops.simps) (simp add: fresh_sel zero_node_def get_ops.simps)

lemma fresh_free:
  assumes "entry_name name"
  shows "free_entry fs [] (Suc 0) name (fresh_vfs d)"
proof -
  have "find_child (Suc 0) name (fresh_vfs d) = 0" by (simp add: find_child_def fresh_sel zero_node_def)
  moreover have "walk_step fs name (Suc 0) (fresh_vfs d) = Some (0, fresh_vfs d)"
    using entry_not_dots [OF assms] calculation by (simp add: walk_step_def Let_def driver_op_def fresh_get_ops)
  moreover have "split_path [] = []" by (subst split_path.simps) (simp add: rd_def)
  moreover have "1 + length name < VFS_PATH_MAX" using assms by (simp add: entry_name_def)
  ultimately show ?thesis using assms by (simp add: free_entry_def fresh_wf fresh_sel)
qed


text \<open>Where a write through a descriptor starts.\<close>

definition write_pos :: "nat \<Rightarrow> 'd vfs \<Rightarrow> u64" where
  "write_pos fd s = (if fe_flags (fd_table s fd) AND VFS_O_APPEND \<noteq> 0
     then vn_size (vfs_nodes s (fe_node (fd_table s fd))) else fe_offset (fd_table s fd))"

definition at_pos :: "nat \<Rightarrow> u64 \<Rightarrow> 'd vfs \<Rightarrow> 'd vfs" where
  "at_pos fd off = upd_fd fd (\<lambda>e. e\<lparr>fe_offset := off\<rparr>)"

lemma write_position:
  assumes fd: "\<not> bad_fd fd s" "buf \<noteq> []" and n: "n = fe_node (fd_table s (nat fd))"
    and wr: "driver_op fs op_write n s = Some (Some wr_op)"
    and wrote: "wr_op n (write_pos (nat fd) s) buf (at_pos (nat fd) (write_pos (nat fd) s) s) = (k, s1)" "0 < k"
      "fd_table s1 = fd_table (at_pos (nat fd) (write_pos (nat fd) s) s)"
  shows "\<exists>s'. vfs_write fs fd buf s = Some (Inr k, s') \<and> fe_offset (fd_table s' (nat fd)) = write_pos (nat fd) s + word_of_int k
      \<and> write_pos (nat fd) s + word_of_int k \<le> vn_size (vfs_nodes s' n) \<and> (\<forall>j. j \<noteq> nat fd \<longrightarrow> fd_table s' j = fd_table s j)"
proof -
  let ?f = "nat fd" let ?off = "write_pos (nat fd) s"
  have "at_pos ?f (fe_offset (fd_table s ?f)) s = s" by (simp add: at_pos_def upd_fd_def)
  then have start: "(if fe_flags (fd_table s ?f) AND VFS_O_APPEND \<noteq> 0
      then upd_fd ?f (\<lambda>e. e\<lparr>fe_offset := vn_size (vfs_nodes s n)\<rparr>) s else s) = at_pos ?f ?off s"
    by (simp add: write_pos_def at_pos_def n)
  have off: "fe_offset (fd_table (at_pos ?f ?off s) ?f) = ?off" by (simp add: at_pos_def upd_fd_def)
  have tab: "fd_table s1 = (fd_table s)(?f := (fd_table s ?f)\<lparr>fe_offset := ?off\<rparr>)" using wrote(3) by (simp add: at_pos_def upd_fd_def)
  show ?thesis
    unfolding vfs_write_def Let_def n [symmetric] wr option.case start off wrote(1) prod.case
    using fd wrote(2) tab by (auto simp: upd_fd_def upd_node_def not_less)
qed

lemma seek_position:
  assumes fd: "\<not> bad_fd fd s" and p: "0 \<le> p" "p < 2 ^ 63"
  shows "vfs_lseek fd p VFS_SEEK_SET s = Some (Inr p, at_pos (nat fd) (word_of_int p) s)"
    and "vfs_lseek fd 0 VFS_SEEK_CUR (at_pos (nat fd) (word_of_int p) s) = Some (Inr p, at_pos (nat fd) (word_of_int p) s)"
proof -
  let ?t = "at_pos (nat fd) (word_of_int p) s"
  show "vfs_lseek fd p VFS_SEEK_SET s = Some (Inr p, ?t)" using fd p by (simp add: vfs_lseek_def at_pos_def)
  have "sint (word_of_int p :: u64) = p" using p by (simp add: sint_sbintrunc' signed_take_bit_int_eq_self)
  then have st: "sint (fe_offset (fd_table ?t (nat fd))) = p" "\<not> bad_fd fd ?t" using fd by (simp_all add: at_pos_def upd_fd_def)
  moreover have "upd_fd (nat fd) (\<lambda>e. e\<lparr>fe_offset := word_of_int p\<rparr>) ?t = ?t" by (simp add: at_pos_def upd_fd_def)
  ultimately show "vfs_lseek fd 0 VFS_SEEK_CUR ?t = Some (Inr p, ?t)" using p by (simp add: vfs_lseek_def)
qed


text \<open>A driver of an endless device, and a state in which it is mounted at the root, which is open as descriptor 0.\<close>

definition demo_ops :: "unit vfs_ops" where
  "demo_ops = no_ops\<lparr>op_read := Some (\<lambda>n off sz s. (int sz, replicate sz 0, s)),
     op_write := Some (\<lambda>n off buf s. (int (length buf), s))\<rparr>"

definition demo_vfs :: "unit vfs" where
  "demo_vfs = upd_fd 0 (\<lambda>e. e\<lparr>fe_in_use := True, fe_node := 1, fe_flags := VFS_O_APPEND\<rparr>) (mount_at 1 5 0 (fresh_vfs ()))"

lemma demo_vfs_sel:
  "fd_table demo_vfs 0 = \<lparr>fe_node = 1, fe_flags = VFS_O_APPEND, fe_offset = 0, fe_in_use = True\<rparr>"
  "vn_size (vfs_nodes demo_vfs (Suc 0)) = 0" "get_ops demo_vfs (Suc 0) = Some 5"
proof -
  show "fd_table demo_vfs 0 = \<lparr>fe_node = 1, fe_flags = VFS_O_APPEND, fe_offset = 0, fe_in_use = True\<rparr>"
    "vn_size (vfs_nodes demo_vfs (Suc 0)) = 0"
    by (simp_all add: demo_vfs_def upd_fd_def upd_node_def fresh_sel zero_node_def)
  show "get_ops demo_vfs (Suc 0) = Some 5"
    by (subst get_ops.simps) (simp add: demo_vfs_def upd_fd_def upd_node_def)
qed


end
