(* ===== verification/Devfs.thy ===== *)
theory Devfs
  imports Vfs
begin

text \<open>
  The device file system, \<open>kernel/fs/devfs.c\<close>, a driver below the virtual file system that offers
  \<open>/dev/null\<close> and \<open>/dev/zero\<close>.

  The driver's state is the store of its \<open>dev_data_t\<close> objects; address \<open>0\<close> is null. \<open>DEVFS_OPS\<close> is the
  number that stands for its operation table. \<open>mem\<close> says whether the two allocations of an operation succeed;
  what is freed again after a failure stays in the stores, whose addresses are not reused.
\<close>

section \<open>Definitions\<close>

datatype dev_kind = DEV_ROOT | DEV_NULL | DEV_ZERO

record devfs =
  dv_data :: "nat \<Rightarrow> dev_kind"
  dv_next :: nat

type_synonym dvfs = "devfs vfs"

definition DEVFS_OPS :: nat where "DEVFS_OPS = 1"

definition dev_resolve :: "nat \<Rightarrow> dvfs \<Rightarrow> dev_kind option" where
  "dev_resolve node s =
     (if node = 0 then None
      else if vn_fs_data (vfs_nodes s node) \<noteq> 0 then Some (dv_data (vfs_drv s) (vn_fs_data (vfs_nodes s node)))
      else if vn_mount_data (vfs_nodes s node) \<noteq> 0 then
        let mr = vn_mount_data (vfs_nodes s node)
        in if vn_fs_data (vfs_nodes s mr) \<noteq> 0 then Some (dv_data (vfs_drv s) (vn_fs_data (vfs_nodes s mr))) else None
      else None)"

definition devfs_read :: "nat \<Rightarrow> u64 \<Rightarrow> nat \<Rightarrow> dvfs \<Rightarrow> int \<times> bytes \<times> dvfs" where
  "devfs_read node offset sz s =
     (case dev_resolve node s of
        None \<Rightarrow> (- errno_code EISDIR, [], s)
      | Some DEV_ROOT \<Rightarrow> (- errno_code EISDIR, [], s)
      | Some DEV_NULL \<Rightarrow> (0, [], s)
      | Some DEV_ZERO \<Rightarrow> (int sz, replicate sz 0, s))"

definition devfs_write :: "nat \<Rightarrow> u64 \<Rightarrow> bytes \<Rightarrow> dvfs \<Rightarrow> int \<times> dvfs" where
  "devfs_write node offset buf s =
     (case dev_resolve node s of
        None \<Rightarrow> (- errno_code EISDIR, s)
      | Some DEV_ROOT \<Rightarrow> (- errno_code EISDIR, s)
      | Some _ \<Rightarrow> (int (length buf), s))"

definition devfs_open :: "nat \<Rightarrow> u32 \<Rightarrow> dvfs \<Rightarrow> int \<times> dvfs" where
  "devfs_open node flags s = (case dev_resolve node s of None \<Rightarrow> (- errno_code ENOENT, s) | Some _ \<Rightarrow> (0, s))"

definition devfs_close :: "nat \<Rightarrow> dvfs \<Rightarrow> int \<times> dvfs" where
  "devfs_close node s = (0, s)"

abbreviation dev_names :: "bytes list" where
  "dev_names \<equiv> [str ''null'', str ''zero'']"

definition devfs_readdir :: "nat \<Rightarrow> nat \<Rightarrow> dvfs \<Rightarrow> int \<times> vfs_dirent list \<times> dvfs" where
  "devfs_readdir node max_entries s =
     (if dev_resolve node s \<noteq> Some DEV_ROOT then (- errno_code ENOTDIR, [], s)
      else
        let n = (if max_entries < length dev_names then max_entries else length dev_names)
        in (int n,
            map (\<lambda>i. \<lparr>de_name = name_field (dev_names ! i), de_type = VFS_DEVICE, de_inode = of_nat i + 1, de_size = 0\<rparr>) [0..<n],
            s))"

definition devfs_stat :: "nat \<Rightarrow> vfs_statbuf \<Rightarrow> dvfs \<Rightarrow> int \<times> vfs_statbuf \<times> dvfs" where
  "devfs_stat node st s =
     (case dev_resolve node s of
        None \<Rightarrow> (- errno_code ENOENT, st, s)
      | Some k \<Rightarrow> (0, \<lparr>vs_type = (if k = DEV_ROOT then VFS_DIR else VFS_DEVICE), vs_size = 0, vs_permissions = 0,
                     vs_inode = 0, vs_created = 0, vs_modified = 0\<rparr>, s))"

text \<open>A new \<open>dev_data_t\<close>\<close>

abbreviation new_data :: "dev_kind \<Rightarrow> dvfs \<Rightarrow> nat \<times> dvfs" where
  "new_data k s \<equiv>
     (let d = vfs_drv s in (dv_next d, s\<lparr>vfs_drv := d\<lparr>dv_data := (dv_data d)(dv_next d := k), dv_next := dv_next d + 1\<rparr>\<rparr>))"

definition devfs_lookup :: "bool \<Rightarrow> nat \<Rightarrow> bytes \<Rightarrow> dvfs \<Rightarrow> nat \<times> dvfs" where
  "devfs_lookup mem parent name s =
     (if dev_resolve parent s \<noteq> Some DEV_ROOT then (0, s)
      else
        let k = (if strcmp name (str ''null'') = 0 then DEV_NULL else if strcmp name (str ''zero'') = 0 then DEV_ZERO else DEV_ROOT)
        in if k = DEV_ROOT \<or> \<not> mem then (0, s)
           else case new_data k s of
             (cd, s) \<Rightarrow> new_node (zero_node\<lparr>vn_name := name_field name, vn_type := VFS_DEVICE,
                          vn_ops := vn_ops (vfs_nodes s parent), vn_fs_data := cd\<rparr>) s)"

definition devfs_ops :: "bool \<Rightarrow> devfs vfs_ops" where
  "devfs_ops mem = \<lparr>op_read = Some devfs_read, op_write = Some devfs_write, op_open = Some devfs_open,
     op_close = Some devfs_close, op_readdir = Some devfs_readdir, op_mkdir = None, op_unlink = None,
     op_stat = Some devfs_stat, op_lookup = Some (devfs_lookup mem)\<rparr>"

definition devfs_init :: "(nat \<Rightarrow> devfs vfs_ops) \<Rightarrow> bool \<Rightarrow> (nat \<Rightarrow> bool) \<Rightarrow> dvfs \<Rightarrow> ((errno + unit) \<times> dvfs) option" where
  "devfs_init fs mem mem_dirs s =
     (if \<not> mem then Some (Inl ENOMEM, s)
      else case new_data DEV_ROOT s of
        (pd, s) \<Rightarrow>
          (case new_node (zero_node\<lparr>vn_name := name_field (str ''dev''), vn_type := VFS_DIR, vn_ops := DEVFS_OPS, vn_fs_data := pd\<rparr>) s of
             (root, s) \<Rightarrow> vfs_mount fs mem_dirs (str ''/dev'') DEVFS_OPS root s))"

section \<open>Devices cannot be read or written\<close>

text \<open>The file system after it and the device driver were initialised.\<close>

definition devfs_env :: "nat \<Rightarrow> devfs vfs_ops" where
  "devfs_env = (\<lambda>_. devfs_ops True)"

definition devfs_booted :: dvfs where
  "devfs_booted = snd (the (devfs_init devfs_env True (\<lambda>_. True) (fresh_vfs \<lparr>dv_data = \<lambda>_. DEV_ROOT, dv_next = 1\<rparr>)))"

lemma split_dev: "split_path (str ''dev'') = [str ''dev'']"
  by (rule split_path_name) (simp add: entry_name_def str_def)

text \<open>The state in which the driver mounts itself: the root of the tree is node 1, the driver's own root node 2.\<close>

definition dev_before :: dvfs where
  "dev_before = snd (new_node (zero_node\<lparr>vn_name := name_field (str ''dev''), vn_type := VFS_DIR, vn_ops := DEVFS_OPS, vn_fs_data := 1\<rparr>)
     (snd (new_data DEV_ROOT (fresh_vfs \<lparr>dv_data = \<lambda>_. DEV_ROOT, dv_next = 1\<rparr>))))"

lemma dev_before_sel:
  "vfs_root dev_before = Suc 0" "vfs_next dev_before = 3" "vfs_nodes dev_before (Suc 0) = zero_node\<lparr>vn_name := name_field (str ''/''), vn_type := VFS_DIR\<rparr>"
  "vfs_nodes dev_before 2 = zero_node\<lparr>vn_name := name_field (str ''dev''), vn_type := VFS_DIR, vn_ops := DEVFS_OPS, vn_fs_data := 1\<rparr>"
  "dv_data (vfs_drv dev_before) (Suc 0) = DEV_ROOT" "dv_next (vfs_drv dev_before) = 2"
  "fd_table dev_before i = \<lparr>fe_node = 0, fe_flags = 0, fe_offset = 0, fe_in_use = False\<rparr>"
  by (simp_all add: dev_before_def new_node_def Let_def fresh_sel)

lemma devfs_booted_run:
  "devfs_booted = mount_at 3 DEVFS_OPS 2 (grown 1 (zero_node\<lparr>vn_name := name_field (str ''dev''), vn_type := VFS_DIR\<rparr>) dev_before)"
proof -
  have fc: "find_child (Suc 0) (str ''dev'') dev_before = 0" by (simp add: find_child_def dev_before_sel zero_node_def)
  have ops: "get_ops dev_before (Suc 0) = Some 0"
    by (subst get_ops.simps) (simp add: dev_before_sel zero_node_def get_ops.simps)
  have dots: "strcmp (str ''dev'') (str ''.'') \<noteq> 0" "strcmp (str ''dev'') (str ''..'') \<noteq> 0" "strcmp (str ''/dev'') (str ''/'') \<noteq> 0"
    "rd (str ''/dev'') = chr CHR ''/''" "tl (str ''/dev'') = str ''dev''"
    by (simp_all add: str_def rd_def)
  have walk: "vfs_walk_path devfs_env (str ''/dev'') dev_before = Some (0, dev_before)"
    using dots fc by (simp add: vfs_walk_path_def split_dev walk_step_def Let_def driver_op_def ops dev_before_sel)
  have "create_node True (str ''dev'') VFS_DIR dev_before
      = (3, snd (new_node (zero_node\<lparr>vn_name := name_field (str ''dev''), vn_type := VFS_DIR\<rparr>) dev_before))"
    by (simp add: create_node_def new_node_def dev_before_sel)
  then have md: "make_dirs (\<lambda>_. True) [str ''dev''] (Suc 0) dev_before
      = (Inr 3, grown 1 (zero_node\<lparr>vn_name := name_field (str ''dev''), vn_type := VFS_DIR\<rparr>) dev_before)"
    using fc by (simp add: grown_def dev_before_sel)
  have "vfs_mount devfs_env (\<lambda>_. True) (str ''/dev'') DEVFS_OPS 2 dev_before
      = Some (Inr (), mount_at 3 DEVFS_OPS 2 (grown 1 (zero_node\<lparr>vn_name := name_field (str ''dev''), vn_type := VFS_DIR\<rparr>) dev_before))"
    unfolding vfs_mount_def walk option.case prod.case dots(5) split_dev dev_before_sel(1) md using dots
    by (simp add: DEVFS_OPS_def)
  moreover have "devfs_init devfs_env True (\<lambda>_. True) (fresh_vfs \<lparr>dv_data = \<lambda>_. DEV_ROOT, dv_next = 1\<rparr>)
      = vfs_mount devfs_env (\<lambda>_. True) (str ''/dev'') DEVFS_OPS 2 dev_before"
    by (simp add: devfs_init_def dev_before_def new_node_def Let_def fresh_sel)
  ultimately show ?thesis by (simp add: devfs_booted_def)
qed

lemma devfs_booted_sel:
  "vfs_root devfs_booted = Suc 0" "vfs_next devfs_booted = 4" "vn_children (vfs_nodes devfs_booted (Suc 0)) = [3]"
  "vfs_nodes devfs_booted 3 = zero_node\<lparr>vn_name := name_field (str ''dev''), vn_type := VFS_DIR, vn_parent := 1,
     vn_mount_ops := DEVFS_OPS, vn_mount_data := 2\<rparr>"
  "vn_fs_data (vfs_nodes devfs_booted 2) = 1" "dv_data (vfs_drv devfs_booted) (Suc 0) = DEV_ROOT" "dv_next (vfs_drv devfs_booted) = 2"
  "fd_table devfs_booted i = \<lparr>fe_node = 0, fe_flags = 0, fe_offset = 0, fe_in_use = False\<rparr>"
  by (simp_all add: devfs_booted_run grown_def add_child_def upd_node_def new_node_def dev_before_sel zero_node_def)

text \<open>A device that was looked up: its node has neither operations nor a parent.\<close>

definition dev_opened :: "bytes \<Rightarrow> dev_kind \<Rightarrow> dvfs" where
  "dev_opened name k = snd (new_node (zero_node\<lparr>vn_name := name_field name, vn_type := VFS_DEVICE, vn_fs_data := 2\<rparr>)
     (snd (new_data k devfs_booted)))"

lemma dev_walk:
  assumes "name = str ''null'' \<and> k = DEV_NULL \<or> name = str ''zero'' \<and> k = DEV_ZERO"
  shows "vfs_walk_path devfs_env (str ''/dev/'' @ name) devfs_booted = Some (4, dev_opened name k)"
proof -
  have name: "entry_name name" using assms by (auto simp: entry_name_def str_def)
  have "0 \<notin> set (str ''dev'')" by (simp add: str_def)
  from split_path_append [OF this name]
  have sp: "split_path (tl (str ''/dev/'' @ name)) = [str ''dev'', name]" "rd (str ''/dev/'' @ name) = chr CHR ''/''"
    by (simp_all add: split_dev) (simp_all add: str_def rd_def)
  have dev: "entry_name (str ''dev'')" by (simp add: entry_name_def str_def)
  have s1: "walk_step devfs_env (str ''dev'') (Suc 0) devfs_booted = Some (3, devfs_booted)"
    using entry_not_dots [OF dev] name_field_name [OF dev]
    by (simp add: walk_step_def Let_def find_child_def devfs_booted_sel strcmp_0_iff)
  have ops: "driver_op devfs_env op_lookup 3 devfs_booted = Some (Some (devfs_lookup True))"
    by (simp add: driver_op_def get_ops.simps [of devfs_booted 3] devfs_booted_sel DEVFS_OPS_def devfs_env_def devfs_ops_def)
  have root: "dev_resolve 3 devfs_booted = Some DEV_ROOT" by (simp add: dev_resolve_def Let_def devfs_booted_sel zero_node_def)
  have kind: "(if strcmp name (str ''null'') = 0 then DEV_NULL else if strcmp name (str ''zero'') = 0 then DEV_ZERO else DEV_ROOT) = k"
    using assms by (auto simp: strcmp_0_iff cval_def str_def)
  have "k \<noteq> DEV_ROOT" using assms by auto
  then have "devfs_lookup True 3 name devfs_booted = (4, dev_opened name k)"
    unfolding devfs_lookup_def kind using root
    by (simp add: dev_opened_def new_node_def Let_def devfs_booted_sel zero_node_def)
  then have s2: "walk_step devfs_env name 3 devfs_booted = Some (4, dev_opened name k)"
    using entry_not_dots [OF name] ops by (simp add: walk_step_def Let_def find_child_def devfs_booted_sel zero_node_def)
  show ?thesis using sp s1 s2 by (simp add: vfs_walk_path_def devfs_booted_sel)
qed

lemma dev_opened_sel:
  "get_ops (dev_opened name k) 4 = Some 0" "fd_table (dev_opened name k) i = \<lparr>fe_node = 0, fe_flags = 0, fe_offset = 0, fe_in_use = False\<rparr>"
  "dev_resolve 4 (dev_opened name k) = Some k"
proof -
  show "get_ops (dev_opened name k) 4 = Some 0"
    by (subst get_ops.simps) (simp add: dev_opened_def new_node_def Let_def devfs_booted_sel zero_node_def get_ops.simps)
  show "fd_table (dev_opened name k) i = \<lparr>fe_node = 0, fe_flags = 0, fe_offset = 0, fe_in_use = False\<rparr>"
    "dev_resolve 4 (dev_opened name k) = Some k"
    by (simp_all add: dev_opened_def new_node_def Let_def devfs_booted_sel dev_resolve_def)
qed

lemma dev_open:
  assumes "name = str ''null'' \<and> k = DEV_NULL \<or> name = str ''zero'' \<and> k = DEV_ZERO"
  shows "\<exists>s1. vfs_open devfs_env mem (str ''/dev/'' @ name) flags devfs_booted = Some (Inr 0, s1)
      \<and> vfs_read devfs_env 0 (Suc n) s1 = Some (Inl ENOTSUP, s1) \<and> vfs_write devfs_env 0 (b # bs) s1 = Some (Inl ENOTSUP, s1)
      \<and> dev_resolve (fe_node (fd_table s1 0)) s1 = Some k"
proof -
  let ?e = "\<lparr>fe_node = 4, fe_flags = flags, fe_offset = 0, fe_in_use = True\<rparr>"
  define s0 where "s0 = (dev_opened name k)\<lparr>fd_table := (fd_table (dev_opened name k))(0 := ?e)\<rparr>"
  define s1 where "s1 = (if flags AND VFS_O_TRUNC \<noteq> 0 then upd_node 4 (\<lambda>x. x\<lparr>vn_size := 0\<rparr>) s0 else s0)"
  have al: "alloc_fd (dev_opened name k) = (Some 0, (dev_opened name k)\<lparr>fd_table := (fd_table (dev_opened name k))
      (0 := \<lparr>fe_node = 0, fe_flags = 0, fe_offset = 0, fe_in_use = True\<rparr>)\<rparr>)"
    by (simp add: alloc_fd_def scan.simps dev_opened_sel)
  have fields: "vn_mount_ops (vfs_nodes s1 4) = 0" "vn_ops (vfs_nodes s1 4) = 0" "vn_parent (vfs_nodes s1 4) = 0"
    "fd_table s1 0 = ?e" "vn_fs_data (vfs_nodes s1 4) = 2" "dv_data (vfs_drv s1) 2 = k"
    by (simp_all add: s1_def s0_def upd_node_def dev_opened_def new_node_def Let_def devfs_booted_sel zero_node_def)
  have ops: "driver_op devfs_env sel 4 s1 = Some None" for sel :: "devfs vfs_ops \<Rightarrow> 'x option"
    by (simp add: driver_op_def get_ops.simps fields)
  have "open_node devfs_env flags 4 (dev_opened name k) = Some (Inr 0, s1)"
    using ops [of op_open] unfolding open_node_def al by (simp add: s1_def s0_def Let_def split: if_splits)
  then have "vfs_open devfs_env mem (str ''/dev/'' @ name) flags devfs_booted = Some (Inr 0, s1)"
    using dev_walk [OF assms] by (simp add: vfs_open_def)
  moreover have "\<not> bad_fd 0 s1" by (simp add: fields)
  ultimately show ?thesis
    using ops [of op_read] ops [of op_write] by (auto simp: vfs_read_def vfs_write_def fields dev_resolve_def)
qed

end
