(* ===== verification/Posix.thy ===== *)
theory Posix
  imports Devfs
begin

text \<open>
  The POSIX layer over the virtual file system: \<open>posix/posix_io.c\<close>, \<open>posix/posix_errno.c\<close> and \<open>posix/posix_process.c\<close>.

  The state is that of the virtual file system with \<open>posix_errno_storage\<close>. Functions return their C result, \<open>-1\<close>
  for an error, and \<open>None\<close> where the virtual file system does not return. Null pointers are left out; the mode
  arguments, which the source ignores, too.
\<close>

unbundle bit_operations_syntax

section \<open>Definitions\<close>

abbreviation O_ACCMODE :: u32 where "O_ACCMODE \<equiv> 3"
abbreviation O_RDONLY :: u32 where "O_RDONLY \<equiv> 0"
abbreviation O_WRONLY :: u32 where "O_WRONLY \<equiv> 1"
abbreviation O_RDWR :: u32 where "O_RDWR \<equiv> 2"
abbreviation O_CREAT :: u32 where "O_CREAT \<equiv> 0x40"
abbreviation O_EXCL :: u32 where "O_EXCL \<equiv> 0x80"
abbreviation O_TRUNC :: u32 where "O_TRUNC \<equiv> 0x200"
abbreviation O_APPEND :: u32 where "O_APPEND \<equiv> 0x400"
abbreviation S_IFDIR :: u32 where "S_IFDIR \<equiv> 0x4000"
abbreviation S_IFREG :: u32 where "S_IFREG \<equiv> 0x8000"
abbreviation P_EEXIST :: int where "P_EEXIST \<equiv> 17"

record 'd posix =
  px_vfs :: "'d vfs"
  px_errno :: int

record pstat =
  st_dev :: u64
  st_ino :: u64
  st_mode :: u32
  st_nlink :: u32
  st_uid :: u32
  st_gid :: u32
  st_rdev :: u64
  st_size :: u64
  st_blksize :: u64
  st_blocks :: u64
  st_atime :: u64
  st_mtime :: u64
  st_ctime :: u64

fun kerr_to_posix :: "int \<Rightarrow> int" where
  "kerr_to_posix k =
     (if k = errno_code EPERM then 1
      else if k = errno_code ENOENT then 2
      else if k = errno_code EIO then 5
      else if k = errno_code EBADF then 9
      else if k = errno_code ENOMEM then 12
      else if k = errno_code EBUSY then 16
      else if k = errno_code EEXIST then 17
      else if k = errno_code EINVAL then 22
      else if k = errno_code ENOSPC then 28
      else if k = errno_code ENOTSUP then 95
      else if k = errno_code ESKILL_FAIL then 5
      else 5)"

definition posix_seterr_from_kerr :: "int \<Rightarrow> 'd posix \<Rightarrow> 'd posix" where
  "posix_seterr_from_kerr kret p = p\<lparr>px_errno := if 0 \<le> kret then 0 else kerr_to_posix (- kret)\<rparr>"

definition posix_init :: "'d posix \<Rightarrow> 'd posix" where
  "posix_init p = p\<lparr>px_errno := 0\<rparr>"

definition oflag_to_vfs :: "u32 \<Rightarrow> u32" where
  "oflag_to_vfs oflag =
     (let acc = oflag AND O_ACCMODE;
          vf = (if acc = O_RDONLY then VFS_O_READ
                else if acc = O_WRONLY then VFS_O_WRITE
                else if acc = O_RDWR then VFS_O_READ OR VFS_O_WRITE
                else 0);
          vf = (if oflag AND O_CREAT \<noteq> 0 then vf OR VFS_O_CREATE else vf);
          vf = (if oflag AND O_TRUNC \<noteq> 0 then vf OR VFS_O_TRUNC else vf)
      in if oflag AND O_APPEND \<noteq> 0 then vf OR VFS_O_APPEND else vf)"

text \<open>The common tail of the calls: a negative result of the kernel sets the error number and becomes \<open>-1\<close>.\<close>

definition kresult :: "int \<Rightarrow> 'd posix \<Rightarrow> int \<times> 'd posix" where
  "kresult r p = (if r < 0 then (-1, posix_seterr_from_kerr r p) else (r, p))"

definition kcode :: "errno + 'a \<Rightarrow> ('a \<Rightarrow> int) \<Rightarrow> int" where
  "kcode r ok = (case r of Inl e \<Rightarrow> - errno_code e | Inr x \<Rightarrow> ok x)"

definition blank_stat :: vfs_statbuf where
  "blank_stat = \<lparr>vs_type = VFS_FILE, vs_size = 0, vs_permissions = 0, vs_inode = 0, vs_created = 0, vs_modified = 0\<rparr>"

definition posix_open :: "(nat \<Rightarrow> 'd vfs_ops) \<Rightarrow> bool \<Rightarrow> bytes \<Rightarrow> u32 \<Rightarrow> 'd posix \<Rightarrow> (int \<times> 'd posix) option" where
  "posix_open fs mem path oflag p =
     (let p = posix_seterr_from_kerr 0 p;
          opened = (\<lambda>p. case vfs_open fs mem path (oflag_to_vfs oflag) (px_vfs p) of
                          None \<Rightarrow> None
                        | Some (r, s) \<Rightarrow> Some (kresult (kcode r int) (p\<lparr>px_vfs := s\<rparr>)))
      in if oflag AND O_CREAT \<noteq> 0 \<and> oflag AND O_EXCL \<noteq> 0 then
           (case vfs_stat fs path blank_stat (px_vfs p) of
              None \<Rightarrow> None
            | Some (rc, st, s) \<Rightarrow>
                if rc = 0 then Some (-1, p\<lparr>px_vfs := s, px_errno := P_EEXIST\<rparr>) else opened (p\<lparr>px_vfs := s\<rparr>))
         else opened p)"

definition posix_close :: "(nat \<Rightarrow> 'd vfs_ops) \<Rightarrow> int \<Rightarrow> 'd posix \<Rightarrow> (int \<times> 'd posix) option" where
  "posix_close fs fd p =
     (case vfs_close fs fd (px_vfs p) of
        None \<Rightarrow> None
      | Some (r, s) \<Rightarrow> Some (kresult (kcode r (\<lambda>_. 0)) (p\<lparr>px_vfs := s\<rparr>)))"

definition posix_read :: "(nat \<Rightarrow> 'd vfs_ops) \<Rightarrow> int \<Rightarrow> nat \<Rightarrow> 'd posix \<Rightarrow> (int \<times> bytes \<times> 'd posix) option" where
  "posix_read fs fd count p =
     (case vfs_read fs fd count (px_vfs p) of
        None \<Rightarrow> None
      | Some (r, s) \<Rightarrow>
          (case kresult (kcode r fst) (p\<lparr>px_vfs := s\<rparr>) of
             (n, p) \<Rightarrow> Some (n, case r of Inl _ \<Rightarrow> [] | Inr (_, buf) \<Rightarrow> buf, p)))"

definition posix_write :: "(nat \<Rightarrow> 'd vfs_ops) \<Rightarrow> int \<Rightarrow> bytes \<Rightarrow> 'd posix \<Rightarrow> (int \<times> 'd posix) option" where
  "posix_write fs fd buf p =
     (case vfs_write fs fd buf (px_vfs p) of
        None \<Rightarrow> None
      | Some (r, s) \<Rightarrow> Some (kresult (kcode r id) (p\<lparr>px_vfs := s\<rparr>)))"

definition posix_lseek :: "int \<Rightarrow> int \<Rightarrow> int \<Rightarrow> 'd posix \<Rightarrow> (int \<times> 'd posix) option" where
  "posix_lseek fd offset whence p =
     (case vfs_lseek fd offset whence (px_vfs p) of
        None \<Rightarrow> None
      | Some (r, s) \<Rightarrow> Some (kresult (kcode r id) (p\<lparr>px_vfs := s\<rparr>)))"

definition vfs_stat_to_posix :: "vfs_statbuf \<Rightarrow> pstat" where
  "vfs_stat_to_posix vs =
     \<lparr>st_dev = 1, st_ino = vs_inode vs,
      st_mode = (vs_permissions vs AND 0x1ff) OR (if vs_type vs = VFS_DIR then S_IFDIR else S_IFREG),
      st_nlink = 1, st_uid = 0, st_gid = 0, st_rdev = 0, st_size = vs_size vs, st_blksize = 512,
      st_blocks = (if vs_size vs > 0 then (vs_size vs + 511) div 512 else 0),
      st_atime = 0, st_mtime = 0, st_ctime = 0\<rparr>"

text \<open>\<open>None\<close> for the structure when the call failed and left it alone.\<close>

definition stat_result :: "(int \<times> vfs_statbuf \<times> 'd vfs) option \<Rightarrow> 'd posix \<Rightarrow> (int \<times> pstat option \<times> 'd posix) option" where
  "stat_result r p =
     (case r of
        None \<Rightarrow> None
      | Some (rc, vs, s) \<Rightarrow>
          let p = p\<lparr>px_vfs := s\<rparr>
          in if rc < 0 then Some (-1, None, posix_seterr_from_kerr rc p) else Some (0, Some (vfs_stat_to_posix vs), p))"

definition posix_stat :: "(nat \<Rightarrow> 'd vfs_ops) \<Rightarrow> bytes \<Rightarrow> 'd posix \<Rightarrow> (int \<times> pstat option \<times> 'd posix) option" where
  "posix_stat fs path p = stat_result (vfs_stat fs path blank_stat (px_vfs p)) p"

definition posix_fstat :: "(nat \<Rightarrow> 'd vfs_ops) \<Rightarrow> int \<Rightarrow> 'd posix \<Rightarrow> (int \<times> pstat option \<times> 'd posix) option" where
  "posix_fstat fs fd p = stat_result (vfs_fstat fs fd blank_stat (px_vfs p)) p"

definition posix_mkdir :: "(nat \<Rightarrow> 'd vfs_ops) \<Rightarrow> bool \<Rightarrow> bytes \<Rightarrow> 'd posix \<Rightarrow> (int \<times> 'd posix) option" where
  "posix_mkdir fs mem path p =
     (case vfs_mkdir fs mem path (px_vfs p) of
        None \<Rightarrow> None
      | Some (r, s) \<Rightarrow> Some (kresult (case r of Inl rc \<Rightarrow> rc | Inr _ \<Rightarrow> 0) (p\<lparr>px_vfs := s\<rparr>)))"

definition posix_getpid :: int where "posix_getpid = 1"

text \<open>\<open>timer_sleep_ms\<close> is the wait of the timer, on a state of its own.\<close>

definition posix_sleep :: "(u32 \<Rightarrow> 's \<Rightarrow> 's) \<Rightarrow> u32 \<Rightarrow> 's \<Rightarrow> u32 \<times> 's" where
  "posix_sleep timer_sleep_ms seconds s = (0, timer_sleep_ms (seconds * 1000) s)"

text \<open>The product wraps around: a sleep of 4294968 seconds lasts 704 milliseconds, and returns 0 as if it had been slept.\<close>

lemma posix_sleep_wraps: "posix_sleep (\<lambda>ms _. unat ms) 4294968 0 = (0, 704)"
  by (simp add: posix_sleep_def)

section \<open>Devices through the POSIX calls\<close>

lemma posix_dev:
  assumes "name = str ''null'' \<and> k = DEV_NULL \<or> name = str ''zero'' \<and> k = DEV_ZERO"
  shows "\<exists>p1. posix_open devfs_env mem (str ''/dev/'' @ name) O_RDWR \<lparr>px_vfs = devfs_booted, px_errno = 0\<rparr> = Some (0, p1)
      \<and> posix_read devfs_env 0 (Suc n) p1 = Some (-1, [], p1\<lparr>px_errno := 95\<rparr>)
      \<and> posix_write devfs_env 0 (b # bs) p1 = Some (-1, p1\<lparr>px_errno := 95\<rparr>)
      \<and> dev_resolve (fe_node (fd_table (px_vfs p1) 0)) (px_vfs p1) = Some k"
proof -
  obtain s1 where "vfs_open devfs_env mem (str ''/dev/'' @ name) (oflag_to_vfs O_RDWR) devfs_booted = Some (Inr 0, s1)"
    "vfs_read devfs_env 0 (Suc n) s1 = Some (Inl ENOTSUP, s1)" "vfs_write devfs_env 0 (b # bs) s1 = Some (Inl ENOTSUP, s1)"
    "dev_resolve (fe_node (fd_table s1 0)) s1 = Some k"
    using dev_open [OF assms] by blast
  then show ?thesis
    by (intro exI [of _ "\<lparr>px_vfs = s1, px_errno = 0\<rparr>"])
      (simp add: posix_open_def posix_read_def posix_write_def posix_seterr_from_kerr_def kresult_def kcode_def Let_def)
qed


end
