(* ===== verification/Evolution.thy ===== *)
theory Evolution
  imports CString Float32 "HOL-Library.Monad_Syntax"
begin

text \<open>
  The evolution plane: the counters and the score of \<open>evolution/evolution_metrics.c\<close>, the snapshot table of
  \<open>evolution/evolution_snapshot.c\<close> and their initialisation in \<open>evolution/evolution_plane.c\<close>. The clock is an
  argument; the log lines and the four services of the plane, which only log, are left out.
\<close>

section \<open>Metrics\<close>

record evolution_metrics_t =
  crash_events :: u64
  syscall_samples :: u64
  syscall_latency_ticks_sum :: u64
  skill_success :: u32
  skill_attempts :: u32
  patch_apply_ok :: u32
  patch_revert_count :: u32

definition evolution_metrics_init :: evolution_metrics_t where
  "evolution_metrics_init = \<lparr>crash_events = 0, syscall_samples = 0, syscall_latency_ticks_sum = 0, skill_success = 0,
     skill_attempts = 0, patch_apply_ok = 0, patch_revert_count = 0\<rparr>"

definition evolution_metrics_note_crash :: "evolution_metrics_t \<Rightarrow> evolution_metrics_t" where
  "evolution_metrics_note_crash m = m\<lparr>crash_events := crash_events m + 1\<rparr>"

definition evolution_metrics_note_syscall_latency :: "u64 \<Rightarrow> evolution_metrics_t \<Rightarrow> evolution_metrics_t" where
  "evolution_metrics_note_syscall_latency delta_ticks m =
     m\<lparr>syscall_samples := syscall_samples m + 1,
       syscall_latency_ticks_sum := syscall_latency_ticks_sum m + delta_ticks\<rparr>"

definition evolution_metrics_note_skill_outcome :: "bool \<Rightarrow> evolution_metrics_t \<Rightarrow> evolution_metrics_t" where
  "evolution_metrics_note_skill_outcome success m =
     (let m = m\<lparr>skill_attempts := skill_attempts m + 1\<rparr>
      in if success then m\<lparr>skill_success := skill_success m + 1\<rparr> else m)"

definition evolution_metrics_note_patch :: "bool \<Rightarrow> bool \<Rightarrow> evolution_metrics_t \<Rightarrow> evolution_metrics_t" where
  "evolution_metrics_note_patch applied_ok reverted m =
     (let m = (if applied_ok then m\<lparr>patch_apply_ok := patch_apply_ok m + 1\<rparr> else m)
      in if reverted then m\<lparr>patch_revert_count := patch_revert_count m + 1\<rparr> else m)"

text \<open>The constant \<open>1000.0f\<close>, and the score. The divisors \<open>1u + crash_events\<close> and \<open>1u + patch_apply_ok\<close> wrap
  to zero at the greatest counter value, where the score is \<open>None\<close>.\<close>

abbreviation F32_THOUSAND :: f32 where "F32_THOUSAND \<equiv> 0x447a0000"

abbreviation score_stability :: "evolution_metrics_t \<Rightarrow> f32 option" where
  "score_stability m \<equiv>
     (if crash_events m = 0 then Some F32_ONE else f32_div F32_ONE (f32_of_u64 (1 + crash_events m)))"

definition score_perf :: "evolution_metrics_t \<Rightarrow> f32 option" where
  "score_perf m =
     (if 0 < syscall_samples m
      then do { avg \<leftarrow> f32_div (f32_of_u64 (syscall_latency_ticks_sum m)) (f32_of_u64 (syscall_samples m));
                q \<leftarrow> f32_div avg F32_THOUSAND;
                d \<leftarrow> f32_add F32_ONE q;
                f32_div F32_ONE d }
      else Some F32_ONE)"

abbreviation score_coverage :: "evolution_metrics_t \<Rightarrow> f32 option" where
  "score_coverage m \<equiv>
     (if skill_attempts m = 0 then Some 0 else f32_div (f32_of_u32 (skill_success m)) (f32_of_u32 (skill_attempts m)))"

abbreviation score_revert_pen :: "evolution_metrics_t \<Rightarrow> f32 option" where
  "score_revert_pen m \<equiv>
     (if patch_apply_ok m = 0 then Some 0 else f32_div (f32_of_u32 (patch_revert_count m)) (f32_of_u32 (1 + patch_apply_ok m)))"

definition evolution_metrics_score_E :: "evolution_metrics_t \<Rightarrow> f32 option" where
  "evolution_metrics_score_E m =
     do { stability \<leftarrow> score_stability m;
          perf \<leftarrow> score_perf m;
          coverage \<leftarrow> score_coverage m;
          revert_pen \<leftarrow> score_revert_pen m;
          t \<leftarrow> f32_add stability perf;
          t \<leftarrow> f32_add t coverage;
          f32_sub t revert_pen }"

section \<open>Snapshots\<close>

abbreviation EV_SNAPSHOT_MAX :: nat where "EV_SNAPSHOT_MAX \<equiv> 8"
abbreviation EV_SNAPSHOT_MAX_LABEL :: nat where "EV_SNAPSHOT_MAX_LABEL \<equiv> 64"

record evolution_snapshot_meta_t =
  ev_version :: u32
  ev_kernel_elf_crc :: u64
  ev_label :: bytes
  ev_created_tick :: u64

record snapshot_table =
  g_snaps :: "nat \<Rightarrow> evolution_snapshot_meta_t"
  g_snap_count :: nat

definition evolution_snapshot_init :: snapshot_table where
  "evolution_snapshot_init =
     \<lparr>g_snaps = (\<lambda>_. \<lparr>ev_version = 0, ev_kernel_elf_crc = 0, ev_label = replicate EV_SNAPSHOT_MAX_LABEL 0, ev_created_tick = 0\<rparr>),
      g_snap_count = 0\<rparr>"

definition evolution_snapshot_register_current ::
  "bytes option \<Rightarrow> u64 \<Rightarrow> snapshot_table \<Rightarrow> (errno + nat) \<times> snapshot_table" where
  "evolution_snapshot_register_current label now t =
     (if EV_SNAPSHOT_MAX \<le> g_snap_count t then (Inl ENOSPC, t)
      else let k = g_snap_count t;
               text = (case label of Some l \<Rightarrow> if rd l \<noteq> 0 then l else str ''unnamed'' | None \<Rightarrow> str ''unnamed'');
               m = (g_snaps t k)\<lparr>ev_version := 1, ev_kernel_elf_crc := 0, ev_created_tick := now,
                                 ev_label := (case snprintf (ev_label (g_snaps t k)) (str ''%s'') [VStr (Some text)] of
                                                Some (_, b) \<Rightarrow> b | None \<Rightarrow> ev_label (g_snaps t k))\<rparr>
           in (Inr k, t\<lparr>g_snaps := (g_snaps t)(k := m), g_snap_count := k + 1\<rparr>))"

definition evolution_snapshot_rollback :: "int \<Rightarrow> snapshot_table \<Rightarrow> errno + unit" where
  "evolution_snapshot_rollback snapshot_id t =
     (if snapshot_id < 0 \<or> int (g_snap_count t) \<le> snapshot_id then Inl ENOENT else Inr ())"

record evolution_plane =
  ev_metrics :: evolution_metrics_t
  ev_snapshots :: snapshot_table

definition evolution_plane_init :: "u64 \<Rightarrow> evolution_plane" where
  "evolution_plane_init now =
     \<lparr>ev_metrics = evolution_metrics_init,
      ev_snapshots = snd (evolution_snapshot_register_current (Some (str ''boot-baseline'')) now evolution_snapshot_init)\<rparr>"

section \<open>The score is bounded\<close>

text \<open>The counters of a plane that did not count to \<open>2 ^ 24\<close> yet.\<close>

definition metrics_ok :: "evolution_metrics_t \<Rightarrow> bool" where
  "metrics_ok m \<longleftrightarrow> unat (crash_events m) < 2 ^ 24 \<and> unat (syscall_samples m) \<le> 2 ^ 24
     \<and> unat (syscall_latency_ticks_sum m) \<le> 2 ^ 24 \<and> skill_success m \<le> skill_attempts m
     \<and> unat (skill_attempts m) \<le> 2 ^ 24 \<and> patch_revert_count m \<le> patch_apply_ok m \<and> unat (patch_apply_ok m) < 2 ^ 24"

definition unit_f32 :: "f32 \<Rightarrow> bool" where
  "unit_f32 w \<longleftrightarrow> f32_finite w \<and> 0 \<le> f32_val w \<and> f32_val w \<le> 1"

lemma f32_round_lower:
  assumes "of_nat k \<le> x" "x \<le> of_nat n" "n \<le> 2 ^ 24"
  shows "of_nat k \<le> f32_val (f32_round x)"
proof -
  have x: "0 \<le> x" using assms(1) of_nat_0_le_iff [of k] by linarith
  have "(of_nat k :: rat) \<le> of_nat n" using assms(1,2) by linarith
  then have "k \<le> 2 ^ 24" using assms(3) by simp
  then obtain p where p: "p < 255 * 2 ^ 23" "f32_mag p = of_nat k" using f32_mag_nat by blast
  have top: "x < 2 powi 128" using assms nat_below_top [OF assms(3)] by linarith
  obtain p' where p': "p' < 255 * 2 ^ 23" "f32_mag p' = of_nat n" using f32_mag_nat [OF assms(3)] .
  have "round_mag x \<le> p'" using x assms(2) p' top by (intro round_mag_le) simp_all
  then have v: "f32_val (f32_round x) = f32_mag (round_mag x)" using p'(1) by (simp add: f32_val_def unat_round [OF x])
  have "p \<le> round_mag x" using p assms(1) top by (intro round_mag_ge) simp_all
  then show ?thesis unfolding v p(2) [symmetric] by (rule f32_mag_mono)
qed

lemma f32_round_upper:
  assumes "- 1 \<le> x" "x \<le> of_nat n" "n \<le> 2 ^ 24"
  shows "f32_finite (f32_round x)" "f32_val (f32_round x) \<le> of_nat n"
proof -
  have "f32_finite (f32_round x) \<and> f32_val (f32_round x) \<le> of_nat n"
  proof (cases "x < 0")
    case True
    obtain p where p: "p < 255 * 2 ^ 23" "f32_mag p = of_nat 1" using f32_mag_nat [of 1] by auto
    have "round_mag (- x) \<le> p" using True assms(1) p nat_below_top [of 1] by (intro round_mag_le) simp_all
    then have small: "round_mag (- x) < 255 * 2 ^ 23" using p(1) by simp
    then have "2 ^ 31 + round_mag (- x) < 2 ^ LENGTH(32)" by simp
    then have u: "unat (f32_round x) = 2 ^ 31 + round_mag (- x)"
      using True by (simp only: f32_round_def if_True unat_of_nat mod_less)
    have "0 \<le> f32_mag (round_mag (- x))" by (rule f32_mag_ge_zero)
    moreover have "(0::rat) \<le> of_nat n" by simp
    ultimately have "- f32_mag (round_mag (- x)) \<le> of_nat n" by linarith
    then show ?thesis using small by (simp add: f32_finite_def f32_val_def u)
  next
    case False
    then show ?thesis using f32_round_range [of x n] assms by simp
  qed
  then show "f32_finite (f32_round x)" "f32_val (f32_round x) \<le> of_nat n" by simp_all
qed

lemma unit_f32_const: "unit_f32 F32_ONE" "unit_f32 0"
  by (simp_all add: unit_f32_def f32_one) (simp_all add: f32_finite_def f32_val_def f32_mag_def f32_scale_def)

lemma unit_div:
  assumes "f32_finite a" "0 \<le> f32_val a" "f32_val a \<le> of_nat n" "f32_finite b" "f32_val b = of_nat n" "0 < n"
  shows "\<exists>r. f32_div a b = Some r \<and> unit_f32 r"
  using f32_div_ratio [OF assms] unfolding unit_f32_def by blast

lemma unit_ratio:
  assumes "unat a \<le> unat b" "0 < unat b" "unat b \<le> 2 ^ 24"
  shows "\<exists>r. f32_div (f32_of_u32 a) (f32_of_u32 b) = Some r \<and> unit_f32 r"
proof -
  have "unat a \<le> 2 ^ 24" using assms by linarith
  note a = f32_of_small [OF this] and b = f32_of_small [OF assms(3)]
  show ?thesis by (rule unit_div [OF a(1) _ _ b assms(2)]) (simp_all only: a(2) of_nat_0_le_iff of_nat_le_iff assms(1))
qed

lemma one_le_Suc_rat: "0 < k \<Longrightarrow> (1::rat) \<le> of_nat k"
  by (cases k) simp_all

lemma stability_unit:
  assumes "unat (crash_events m) < 2 ^ 24"
  shows "\<exists>r. f32_div F32_ONE (f32_of_u64 (1 + crash_events m)) = Some r \<and> unit_f32 r"
proof -
  have n: "unat (1 + crash_events m) = Suc (unat (crash_events m))" using assms by (simp add: unat_word_ariths)
  then have "unat (1 + crash_events m) \<le> 2 ^ 24" using assms by simp
  note b = f32_of_small64 [OF this]
  have "(1::rat) \<le> of_nat (Suc (unat (crash_events m)))" by (rule one_le_Suc_rat) simp
  then show ?thesis by (intro unit_div [OF f32_one(1) _ _ b]) (simp_all only: f32_one(2) n zero_le_one zero_less_Suc)
qed

lemma f32_thousand: "f32_finite F32_THOUSAND" "f32_val F32_THOUSAND = 1000"
  by (simp_all add: f32_finite_def f32_val_def f32_mag_def f32_scale_def power_int_def power_one_over)

lemma perf_unit:
  assumes "0 < unat n" "unat n \<le> 2 ^ 24" "unat s \<le> 2 ^ 24"
  shows "\<exists>r. do { avg \<leftarrow> f32_div (f32_of_u64 s) (f32_of_u64 n); q \<leftarrow> f32_div avg F32_THOUSAND;
                  d \<leftarrow> f32_add F32_ONE q; f32_div F32_ONE d } = Some r \<and> unit_f32 r"
proof -
  note sv = f32_of_small64 [OF assms(3)] and nv = f32_of_small64 [OF assms(2)]
  define a where "a = f32_round (of_nat (unat s) / of_nat (unat n))"
  have nz: "(1::rat) \<le> of_nat (unat n)" by (rule one_le_Suc_rat [OF assms(1)])
  then have "of_nat (unat s) / of_nat (unat n) \<le> (of_nat (unat s) :: rat) / 1"
    using of_nat_0_le_iff [of "unat s", where 'a = rat] by (intro divide_left_mono) linarith+
  moreover have "(of_nat (unat s) :: rat) \<le> of_nat (2 ^ 24)" using assms(3) by (simp only: of_nat_le_iff)
  ultimately have "of_nat (unat s) / of_nat (unat n) \<le> (of_nat (2 ^ 24) :: rat)" by simp
  moreover have "0 \<le> of_nat (unat s) / (of_nat (unat n) :: rat)" by (simp only: divide_nonneg_nonneg of_nat_0_le_iff)
  ultimately have a: "f32_finite a" "0 \<le> f32_val a" "f32_val a \<le> of_nat (2 ^ 24)"
    unfolding a_def using f32_round_range [of "of_nat (unat s) / of_nat (unat n)" "2 ^ 24"] by blast+
  have avg: "f32_div (f32_of_u64 s) (f32_of_u64 n) = Some a" using sv nv nz by (simp only: f32_div_def f32_op_def a_def) auto
  define q where "q = f32_round (f32_val a / 1000)"
  have "f32_val a / 1000 \<le> of_nat 16778" "0 \<le> f32_val a / 1000" using a(2,3) by simp_all
  then have q: "f32_finite q" "0 \<le> f32_val q" "f32_val q \<le> of_nat 16778"
    unfolding q_def using f32_round_range [of "f32_val a / 1000" 16778] by simp_all
  have dq: "f32_div a F32_THOUSAND = Some q" using a(1) f32_thousand by (simp add: f32_div_def f32_op_def q_def)
  define d where "d = f32_round (1 + f32_val q)"
  have d: "f32_finite d" "1 \<le> f32_val d"
    unfolding d_def using f32_round_range [of "1 + f32_val q" 16779] f32_round_lower [of 1 "1 + f32_val q" 16779] q by simp_all
  have dd: "f32_add F32_ONE q = Some d" using q(1) f32_one by (simp add: f32_op_def d_def)
  have "f32_div F32_ONE d = Some (f32_round (1 / f32_val d))" using d f32_one by (simp add: f32_div_def f32_op_def)
  moreover have "unit_f32 (f32_round (1 / f32_val d))"
    unfolding unit_f32_def using f32_round_range [of "1 / f32_val d" 1] d by (simp add: divide_le_eq)
  ultimately show ?thesis using avg dq dd by simp
qed

lemma f32_add_bounded:
  assumes "f32_finite a" "0 \<le> f32_val a" "f32_val a \<le> of_nat n" "unit_f32 b" "n < 2 ^ 24"
  shows "\<exists>r. f32_add a b = Some r \<and> f32_finite r \<and> 0 \<le> f32_val r \<and> f32_val r \<le> of_nat (Suc n)"
proof -
  have "0 \<le> f32_val a + f32_val b" "f32_val a + f32_val b \<le> of_nat (Suc n)" using assms by (simp_all add: unit_f32_def)
  then show ?thesis using f32_round_range [of "f32_val a + f32_val b" "Suc n"] assms by (simp add: f32_op_def unit_f32_def)
qed

lemma sum_bounded:
  assumes "unit_f32 a" "unit_f32 b" "unit_f32 c" "unit_f32 e"
  shows "\<exists>r. do { t \<leftarrow> f32_add a b; t \<leftarrow> f32_add t c; f32_sub t e } = Some r \<and> f32_finite r \<and> f32_val r \<le> 3"
proof -
  obtain t where t: "f32_add a b = Some t" "f32_finite t" "0 \<le> f32_val t" "f32_val t \<le> of_nat 2"
    using f32_add_bounded [of a 1 b] assms by (auto simp: unit_f32_def)
  then obtain u where u: "f32_add t c = Some u" "f32_finite u" "0 \<le> f32_val u" "f32_val u \<le> of_nat 3"
    using f32_add_bounded [of t 2 c] assms by auto
  have "- 1 \<le> f32_val u - f32_val e" "f32_val u - f32_val e \<le> of_nat 3" using u assms(4) by (simp_all add: unit_f32_def)
  then show ?thesis using f32_round_upper [of "f32_val u - f32_val e" 3] t u assms(4) by (simp add: f32_op_def unit_f32_def)
qed

text \<open>While no counter reaches \<open>2 ^ 24\<close>, skills succeed no more often than they are tried and patches are
  reverted no more often than applied, the score is a number of at most 3.\<close>

lemma score_parts_unit:
  assumes "metrics_ok m"
  shows "\<exists>r. score_stability m = Some r \<and> unit_f32 r" "\<exists>r. score_perf m = Some r \<and> unit_f32 r"
    "\<exists>r. score_coverage m = Some r \<and> unit_f32 r" "\<exists>r. score_revert_pen m = Some r \<and> unit_f32 r"
proof -
  show "\<exists>r. score_stability m = Some r \<and> unit_f32 r"
    using stability_unit [of m] assms unit_f32_const by (simp add: metrics_ok_def)
  show "\<exists>r. score_perf m = Some r \<and> unit_f32 r"
    using perf_unit [of "syscall_samples m" "syscall_latency_ticks_sum m"] assms unit_f32_const
    by (simp add: metrics_ok_def score_perf_def word_less_nat_alt)
  show "\<exists>r. score_coverage m = Some r \<and> unit_f32 r"
    using unit_ratio [of "skill_success m" "skill_attempts m"] assms unit_f32_const
    by (simp add: metrics_ok_def word_le_nat_alt unat_gt_0)
  have "unat (1 + patch_apply_ok m) = Suc (unat (patch_apply_ok m))" using assms by (simp add: metrics_ok_def unat_word_ariths)
  then show "\<exists>r. score_revert_pen m = Some r \<and> unit_f32 r"
    using unit_ratio [of "patch_revert_count m" "1 + patch_apply_ok m"] assms unit_f32_const
    by (simp add: metrics_ok_def word_le_nat_alt)
qed

lemma evolution_score_bounded:
  assumes "metrics_ok m"
  shows "\<exists>e. evolution_metrics_score_E m = Some e \<and> f32_finite e \<and> f32_val e \<le> 3"
proof -
  obtain a b c d where "score_stability m = Some a" "score_perf m = Some b" "score_coverage m = Some c" "score_revert_pen m = Some d"
    and u: "unit_f32 a" "unit_f32 b" "unit_f32 c" "unit_f32 d" using score_parts_unit [OF assms] by blast
  then show ?thesis unfolding evolution_metrics_score_E_def using sum_bounded [OF u] by simp
qed

section \<open>Snapshot identifiers\<close>

text \<open>Eight snapshots can be registered: the first \<open>k\<close> registrations get the identifiers \<open>0, \<dots>, k - 1\<close>, later
  ones fail, and exactly the registered identifiers can be rolled back to.\<close>

definition registered :: "(bytes option \<times> u64) list \<Rightarrow> snapshot_table" where
  "registered ls = fold (\<lambda>(l, now) t. snd (evolution_snapshot_register_current l now t)) ls evolution_snapshot_init"

lemma snapshot_ids:
  "g_snap_count (registered ls) = min (length ls) EV_SNAPSHOT_MAX"
  "fst (evolution_snapshot_register_current l now (registered ls)) =
     (if length ls < EV_SNAPSHOT_MAX then Inr (length ls) else Inl ENOSPC)"
  "evolution_snapshot_rollback (int i) (registered ls) = Inr () \<longleftrightarrow> i < min (length ls) EV_SNAPSHOT_MAX"
proof -
  show n: "g_snap_count (registered ls) = min (length ls) EV_SNAPSHOT_MAX"
    by (induction ls rule: rev_induct)
      (auto simp: registered_def evolution_snapshot_init_def evolution_snapshot_register_current_def Let_def)
  show "fst (evolution_snapshot_register_current l now (registered ls)) =
      (if length ls < EV_SNAPSHOT_MAX then Inr (length ls) else Inl ENOSPC)"
    by (simp add: evolution_snapshot_register_current_def n Let_def)
  show "evolution_snapshot_rollback (int i) (registered ls) = Inr () \<longleftrightarrow> i < min (length ls) EV_SNAPSHOT_MAX"
    by (auto simp: evolution_snapshot_rollback_def n min_def)
qed

lemma plane_baseline: "g_snap_count (ev_snapshots (evolution_plane_init now)) = 1"
  by (simp add: evolution_plane_init_def evolution_snapshot_register_current_def evolution_snapshot_init_def Let_def)

end
