(* ===== verification/LinuxAbi.thy ===== *)
theory LinuxAbi
  imports Evolution
begin

text \<open>
  The Linux system call tables of \<open>linux/linux_syscall_dispatch.c\<close> and \<open>linux/linux_syscall_x86_64.c\<close>: the
  domain that serves a number, the name of a number and the dispatch stub, which counts the call in the
  evolution metrics and refuses it.
\<close>

datatype linux_dispatch_domain_t = LINUX_DISPATCH_VFS | LINUX_DISPATCH_MM | LINUX_DISPATCH_PROC | LINUX_DISPATCH_NET
  | LINUX_DISPATCH_SIGNAL | LINUX_DISPATCH_STUB | LINUX_DISPATCH_ENOSYS

definition linux_syscall_dispatch_domain :: "u32 \<Rightarrow> linux_dispatch_domain_t" where
  "linux_syscall_dispatch_domain nr =
     (if nr \<in> set [0, 1, 2, 3, 4, 5, 6, 7, 8, 13, 14, 17, 72, 78, 79, 89, 97, 102, 131, 217, 257, 262, 263, 267, 269] then LINUX_DISPATCH_VFS
      else if nr \<in> set [9, 10, 11, 12, 23, 24, 28] then LINUX_DISPATCH_MM
      else if nr \<in> set [35, 39, 56, 57, 59, 60, 63, 186, 231, 234, 237, 281] then LINUX_DISPATCH_PROC
      else if nr \<in> set [41, 42, 44, 45, 46, 47, 48, 49, 50, 51, 52, 53, 291, 293, 318] then LINUX_DISPATCH_NET
      else if nr \<in> set [16, 96, 158, 202, 230, 270, 271, 273] then LINUX_DISPATCH_SIGNAL
      else LINUX_DISPATCH_ENOSYS)"

definition linux_syscall_dispatch_stub :: "u32 \<Rightarrow> evolution_metrics_t \<Rightarrow> (errno + nat) \<times> evolution_metrics_t" where
  "linux_syscall_dispatch_stub linux_nr m = (Inl ENOTSUP, evolution_metrics_note_syscall_latency 1 m)"

definition g_x64_names :: "(u32 \<times> string) list" where
  "g_x64_names =
    [(0, ''read''),
     (1, ''write''),
     (2, ''open''),
     (3, ''close''),
     (9, ''mmap''),
     (10, ''mprotect''),
     (11, ''munmap''),
     (12, ''brk''),
     (39, ''getpid''),
     (56, ''clone''),
     (57, ''fork''),
     (59, ''execve''),
     (60, ''exit''),
     (63, ''uname''),
     (89, ''readlink''),
     (96, ''gettimeofday''),
     (158, ''arch_prctl''),
     (186, ''gettid''),
     (202, ''futex''),
     (217, ''getdents64''),
     (230, ''clock_nanosleep''),
     (231, ''exit_group''),
     (257, ''openat''),
     (262, ''newfstatat''),
     (263, ''unlinkat''),
     (267, ''readlinkat''),
     (269, ''faccessat''),
     (270, ''pselect6''),
     (271, ''ppoll''),
     (281, ''execveat'')]"

definition linux_abi_x64_syscall_name :: "u32 \<Rightarrow> bytes" where
  "linux_abi_x64_syscall_name nr =
     (case scan (\<lambda>i. fst (g_x64_names ! i) = nr) 0 (length g_x64_names) of
        Some i \<Rightarrow> str (snd (g_x64_names ! i)) | None \<Rightarrow> str ''unknown'')"

section \<open>The tables agree\<close>

text \<open>The name table holds every number once, so each named number gets its own name, and every named number
  has a domain.\<close>

lemma g_x64_names_distinct: "distinct (map fst g_x64_names)"
  by (simp add: g_x64_names_def)

lemma syscall_name_lookup:
  assumes "(nr, s) \<in> set g_x64_names"
  shows "linux_abi_x64_syscall_name nr = str s"
proof -
  obtain i where i: "i < length g_x64_names" "g_x64_names ! i = (nr, s)" using assms by (auto simp: in_set_conv_nth)
  have "fst (g_x64_names ! j) \<noteq> nr" if "j < i" for j
    using nth_eq_iff_index_eq [OF g_x64_names_distinct, of j i] that i by auto
  then have "scan (\<lambda>i. fst (g_x64_names ! i) = nr) 0 (length g_x64_names) = Some i"
    unfolding scan_Some_iff using i by auto
  then show ?thesis by (simp add: linux_abi_x64_syscall_name_def i)
qed

lemma named_syscall_routed: "\<forall>(nr, s) \<in> set g_x64_names. linux_syscall_dispatch_domain nr \<noteq> LINUX_DISPATCH_ENOSYS"
  by (simp add: g_x64_names_def linux_syscall_dispatch_domain_def)

text \<open>Every call through the stub is counted with one tick of latency and refused.\<close>

lemma dispatch_stub_counts:
  "fst (linux_syscall_dispatch_stub nr m) = Inl ENOTSUP"
  "syscall_samples (snd (linux_syscall_dispatch_stub nr m)) = syscall_samples m + 1"
  by (simp_all add: linux_syscall_dispatch_stub_def evolution_metrics_note_syscall_latency_def)

end
