(* ===== verification/Sandbox.thy ===== *)
theory Sandbox
  imports LinuxAbi
begin

text \<open>
  The information-flow policy (\<open>container/ifc.c\<close>) and the system call sandbox (\<open>container/sandbox.c\<close>) of the
  container layer. The policy is a matrix of operation masks; its abstraction is the set of permitted
  (source, sink, operation) triples.
\<close>

unbundle bit_operations_syntax

section \<open>Information-flow policy\<close>

datatype lc_ifc_domain_t = LC_IFC_DOM_HOST | LC_IFC_DOM_CONTAINER | LC_IFC_DOM_SKILL | LC_IFC_DOM_LLM | LC_IFC_DOM_HMS
  | LC_IFC_DOM_COUNT

abbreviation LC_IFC_OP_READ :: u32 where "LC_IFC_OP_READ \<equiv> 1"
abbreviation LC_IFC_OP_WRITE :: u32 where "LC_IFC_OP_WRITE \<equiv> 2"
abbreviation LC_IFC_OP_EXEC :: u32 where "LC_IFC_OP_EXEC \<equiv> 4"

type_synonym ifc_policy = "lc_ifc_domain_t \<Rightarrow> lc_ifc_domain_t \<Rightarrow> u32"

text \<open>The domains in the order of their numbers, over which the loops of \<open>lc_ifc_init\<close> run.\<close>

abbreviation ifc_domains :: "lc_ifc_domain_t list" where
  "ifc_domains \<equiv> [LC_IFC_DOM_HOST, LC_IFC_DOM_CONTAINER, LC_IFC_DOM_SKILL, LC_IFC_DOM_LLM, LC_IFC_DOM_HMS]"

abbreviation IFC_ALL :: u32 where "IFC_ALL \<equiv> LC_IFC_OP_READ OR LC_IFC_OP_WRITE OR LC_IFC_OP_EXEC"

definition ifc_set :: "lc_ifc_domain_t \<Rightarrow> lc_ifc_domain_t \<Rightarrow> u32 \<Rightarrow> ifc_policy \<Rightarrow> ifc_policy" where
  "ifc_set a b v p = p(a := (p a)(b := v))"

definition lc_ifc_init :: "ifc_policy \<Rightarrow> ifc_policy" where
  "lc_ifc_init p =
     (let p = fold (\<lambda>i. fold (\<lambda>j. ifc_set i j 0) ifc_domains) ifc_domains p;
          p = fold (\<lambda>j. ifc_set LC_IFC_DOM_HOST j IFC_ALL) ifc_domains p;
          p = ifc_set LC_IFC_DOM_CONTAINER LC_IFC_DOM_HOST (LC_IFC_OP_READ OR LC_IFC_OP_WRITE) p;
          p = ifc_set LC_IFC_DOM_CONTAINER LC_IFC_DOM_HMS LC_IFC_OP_READ p;
          p = ifc_set LC_IFC_DOM_CONTAINER LC_IFC_DOM_LLM 0 p;
          p = ifc_set LC_IFC_DOM_SKILL LC_IFC_DOM_LLM LC_IFC_OP_READ p;
          p = ifc_set LC_IFC_DOM_SKILL LC_IFC_DOM_HMS (LC_IFC_OP_READ OR LC_IFC_OP_WRITE) p;
          p = ifc_set LC_IFC_DOM_SKILL LC_IFC_DOM_HOST 0 p;
          p = ifc_set LC_IFC_DOM_LLM LC_IFC_DOM_HMS LC_IFC_OP_READ p;
          p = ifc_set LC_IFC_DOM_LLM LC_IFC_DOM_HOST LC_IFC_OP_WRITE p;
          p = ifc_set LC_IFC_DOM_HMS LC_IFC_DOM_HOST (LC_IFC_OP_READ OR LC_IFC_OP_WRITE) p
      in ifc_set LC_IFC_DOM_HMS LC_IFC_DOM_SKILL LC_IFC_OP_READ p)"

definition lc_ifc_flow_allowed :: "lc_ifc_domain_t \<Rightarrow> lc_ifc_domain_t \<Rightarrow> u32 \<Rightarrow> ifc_policy \<Rightarrow> bool" where
  "lc_ifc_flow_allowed a b ops p \<longleftrightarrow> \<not> (a = LC_IFC_DOM_COUNT \<or> b = LC_IFC_DOM_COUNT) \<and> p a b AND ops = ops"

definition lc_ifc_grant :: "lc_ifc_domain_t \<Rightarrow> lc_ifc_domain_t \<Rightarrow> u32 \<Rightarrow> ifc_policy \<Rightarrow> ifc_policy" where
  "lc_ifc_grant a b ops p =
     (if a = LC_IFC_DOM_COUNT \<or> b = LC_IFC_DOM_COUNT then p else ifc_set a b (p a b OR ops) p)"

definition lc_ifc_revoke :: "lc_ifc_domain_t \<Rightarrow> lc_ifc_domain_t \<Rightarrow> u32 \<Rightarrow> ifc_policy \<Rightarrow> ifc_policy" where
  "lc_ifc_revoke a b ops p =
     (if a = LC_IFC_DOM_COUNT \<or> b = LC_IFC_DOM_COUNT then p else ifc_set a b (p a b AND NOT ops) p)"

section \<open>System call sandbox\<close>

datatype lc_sb_profile_t = LC_SB_PROFILE_SKILL | LC_SB_PROFILE_DOCKER | LC_SB_PROFILE_COUNT

definition g_skill_allow :: "u32 list" where
  "g_skill_allow = [0, 1, 2, 3, 9, 10, 11, 12, 60, 231, UINT32_MAX]"

definition g_docker_allow :: "u32 list" where
  "g_docker_allow =
    [0, 1, 2, 3, 4, 5, 6, 7, 8, 9, 10, 11, 12,
     13, 14, 16, 17, 23, 24, 28, 35, 39, 41, 42, 56, 57, 59, 60, 63, 72, 78,
     79, 89, 96, 97, 102, 131, 158, 186, 202, 217, 230, 231, 234, 237, 270,
     273, 281, 291, 293, 318,
     257, 262, 263, 267, 269, 270, 271, 273, 281, UINT32_MAX]"

text \<open>The list ends at \<open>UINT32_MAX\<close>.\<close>

fun in_list :: "u32 list \<Rightarrow> u32 \<Rightarrow> bool" where
  "in_list [] nr = False"
| "in_list (x # xs) nr = (if x \<noteq> UINT32_MAX then if x = nr then True else in_list xs nr else False)"

definition lc_sandbox_syscall_allow :: "lc_sb_profile_t \<Rightarrow> u32 \<Rightarrow> bool" where
  "lc_sandbox_syscall_allow prof linux_nr =
     (case prof of LC_SB_PROFILE_SKILL \<Rightarrow> in_list g_skill_allow linux_nr
      | LC_SB_PROFILE_DOCKER \<Rightarrow> in_list g_docker_allow linux_nr
      | LC_SB_PROFILE_COUNT \<Rightarrow> False)"

definition lc_linux_syscall_gate :: "lc_sb_profile_t \<Rightarrow> lc_ifc_domain_t \<Rightarrow> u32 \<Rightarrow> ifc_policy \<Rightarrow> int" where
  "lc_linux_syscall_gate prof from_dom linux_nr p =
     (if \<not> lc_sandbox_syscall_allow prof linux_nr then - 1
      else if prof = LC_SB_PROFILE_DOCKER \<and> from_dom = LC_IFC_DOM_CONTAINER
        \<and> \<not> lc_ifc_flow_allowed from_dom LC_IFC_DOM_HOST (LC_IFC_OP_READ OR LC_IFC_OP_WRITE) p then - 1
      else 0)"

section \<open>The policy as a set of permissions\<close>

definition perms :: "ifc_policy \<Rightarrow> (lc_ifc_domain_t \<times> lc_ifc_domain_t \<times> nat) set" where
  "perms p = {(a, b, i). a \<noteq> LC_IFC_DOM_COUNT \<and> b \<noteq> LC_IFC_DOM_COUNT \<and> bit (p a b) i}"

definition flow :: "lc_ifc_domain_t \<Rightarrow> lc_ifc_domain_t \<Rightarrow> u32 \<Rightarrow> (lc_ifc_domain_t \<times> lc_ifc_domain_t \<times> nat) set" where
  "flow a b ops = {(a, b, i) |i. bit ops i}"

lemma bit_u32_bound: "bit (v :: u32) i \<Longrightarrow> i < 32"
  by (drule bit_imp_le_length) simp

lemma and_eq_subset: "(w AND v = v) \<longleftrightarrow> (\<forall>i. bit v i \<longrightarrow> bit w i)" for v w :: u32
  by (auto simp: bit_eq_iff bit_and_iff dest: bit_u32_bound)

lemma flow_allowed_perms:
  "a \<noteq> LC_IFC_DOM_COUNT \<Longrightarrow> b \<noteq> LC_IFC_DOM_COUNT \<Longrightarrow> lc_ifc_flow_allowed a b ops p \<longleftrightarrow> flow a b ops \<subseteq> perms p"
  by (auto simp: lc_ifc_flow_allowed_def and_eq_subset flow_def perms_def)

lemma grant_perms:
  "a \<noteq> LC_IFC_DOM_COUNT \<Longrightarrow> b \<noteq> LC_IFC_DOM_COUNT \<Longrightarrow> perms (lc_ifc_grant a b ops p) = perms p \<union> flow a b ops"
  by (auto simp: lc_ifc_grant_def ifc_set_def flow_def perms_def bit_or_iff split: if_splits)

lemma revoke_perms:
  "a \<noteq> LC_IFC_DOM_COUNT \<Longrightarrow> b \<noteq> LC_IFC_DOM_COUNT \<Longrightarrow> perms (lc_ifc_revoke a b ops p) = perms p - flow a b ops"
  by (auto simp: lc_ifc_revoke_def ifc_set_def flow_def perms_def bit_and_iff bit_not_iff split: if_splits dest: bit_u32_bound)

lemma init_entry:
  assumes "a \<noteq> LC_IFC_DOM_COUNT" "b \<noteq> LC_IFC_DOM_COUNT"
  shows "lc_ifc_init p a b =
    (case a of LC_IFC_DOM_HOST \<Rightarrow> 7
     | LC_IFC_DOM_CONTAINER \<Rightarrow> if b = LC_IFC_DOM_HOST then 3 else if b = LC_IFC_DOM_HMS then 1 else 0
     | LC_IFC_DOM_SKILL \<Rightarrow> if b = LC_IFC_DOM_LLM then 1 else if b = LC_IFC_DOM_HMS then 3 else 0
     | LC_IFC_DOM_LLM \<Rightarrow> if b = LC_IFC_DOM_HMS then 1 else if b = LC_IFC_DOM_HOST then 2 else 0
     | LC_IFC_DOM_HMS \<Rightarrow> if b = LC_IFC_DOM_HOST then 3 else if b = LC_IFC_DOM_SKILL then 1 else 0
     | LC_IFC_DOM_COUNT \<Rightarrow> 0)"
  using assms by (cases a; cases b) (simp_all add: lc_ifc_init_def ifc_set_def)

lemma bit_masks:
  "bit (1::u32) i \<longleftrightarrow> i = 0" "bit (2::u32) i \<longleftrightarrow> i = 1" "bit (3::u32) i \<longleftrightarrow> i < 2" "bit (7::u32) i \<longleftrightarrow> i < 3"
proof -
  show "bit (1::u32) i \<longleftrightarrow> i = 0" by (simp add: bit_1_iff)
  show "bit (2::u32) i \<longleftrightarrow> i = 1" by (auto simp: bit_2_iff simp del: bit_numeral_word_iff)
  have m: "(3::u32) = mask 2" "(7::u32) = mask 3" by (simp_all add: mask_eq_exp_minus_1)
  show "bit (3::u32) i \<longleftrightarrow> i < 2" "bit (7::u32) i \<longleftrightarrow> i < 3" unfolding m by (auto simp: bit_mask_iff)
qed

lemma init_perms:
  "perms (lc_ifc_init p) =
     {(LC_IFC_DOM_HOST, b, i) |b i. b \<noteq> LC_IFC_DOM_COUNT \<and> i < 3} \<union>
     {(LC_IFC_DOM_CONTAINER, LC_IFC_DOM_HOST, 0), (LC_IFC_DOM_CONTAINER, LC_IFC_DOM_HOST, 1),
      (LC_IFC_DOM_CONTAINER, LC_IFC_DOM_HMS, 0), (LC_IFC_DOM_SKILL, LC_IFC_DOM_LLM, 0),
      (LC_IFC_DOM_SKILL, LC_IFC_DOM_HMS, 0), (LC_IFC_DOM_SKILL, LC_IFC_DOM_HMS, 1),
      (LC_IFC_DOM_LLM, LC_IFC_DOM_HMS, 0), (LC_IFC_DOM_LLM, LC_IFC_DOM_HOST, 1),
      (LC_IFC_DOM_HMS, LC_IFC_DOM_HOST, 0), (LC_IFC_DOM_HMS, LC_IFC_DOM_HOST, 1),
      (LC_IFC_DOM_HMS, LC_IFC_DOM_SKILL, 0)}"
proof (intro set_eqI)
  fix x :: "lc_ifc_domain_t \<times> lc_ifc_domain_t \<times> nat"
  obtain a b i where x: "x = (a, b, i)" by (metis prod_cases3)
  have two: "i < 2 \<longleftrightarrow> i = 0 \<or> i = 1" for i :: nat by auto
  show "x \<in> perms (lc_ifc_init p) \<longleftrightarrow> x \<in>
     {(LC_IFC_DOM_HOST, b, i) |b i. b \<noteq> LC_IFC_DOM_COUNT \<and> i < 3} \<union>
     {(LC_IFC_DOM_CONTAINER, LC_IFC_DOM_HOST, 0), (LC_IFC_DOM_CONTAINER, LC_IFC_DOM_HOST, 1),
      (LC_IFC_DOM_CONTAINER, LC_IFC_DOM_HMS, 0), (LC_IFC_DOM_SKILL, LC_IFC_DOM_LLM, 0),
      (LC_IFC_DOM_SKILL, LC_IFC_DOM_HMS, 0), (LC_IFC_DOM_SKILL, LC_IFC_DOM_HMS, 1),
      (LC_IFC_DOM_LLM, LC_IFC_DOM_HMS, 0), (LC_IFC_DOM_LLM, LC_IFC_DOM_HOST, 1),
      (LC_IFC_DOM_HMS, LC_IFC_DOM_HOST, 0), (LC_IFC_DOM_HMS, LC_IFC_DOM_HOST, 1),
      (LC_IFC_DOM_HMS, LC_IFC_DOM_SKILL, 0)}"
    unfolding x by (cases a; cases b) (simp_all add: perms_def init_entry bit_masks two del: bit_numeral_word_iff)
qed

section \<open>What the gate lets through\<close>

text \<open>Every number the gate lets through is routed to a domain, and the skill profile allows no more than the
  docker profile.\<close>

lemma in_list_set: "in_list xs nr \<Longrightarrow> nr \<in> set (takeWhile (\<lambda>x. x \<noteq> UINT32_MAX) xs)"
  by (induction xs nr rule: in_list.induct) (auto split: if_splits)

lemma docker_routed:
  assumes "in_list g_docker_allow nr"
  shows "linux_syscall_dispatch_domain nr \<noteq> LINUX_DISPATCH_ENOSYS"
proof -
  have "\<forall>x \<in> set (takeWhile (\<lambda>x. x \<noteq> UINT32_MAX) g_docker_allow). linux_syscall_dispatch_domain x \<noteq> LINUX_DISPATCH_ENOSYS"
    by (simp add: g_docker_allow_def linux_syscall_dispatch_domain_def)
  then show ?thesis using in_list_set [OF assms] by blast
qed

lemma skill_within_docker:
  assumes "in_list g_skill_allow nr"
  shows "in_list g_docker_allow nr"
proof -
  have "\<forall>x \<in> set (takeWhile (\<lambda>x. x \<noteq> UINT32_MAX) g_skill_allow). in_list g_docker_allow x"
    by (simp add: g_skill_allow_def g_docker_allow_def)
  then show ?thesis using in_list_set [OF assms] by blast
qed

lemma gate_routed:
  "lc_linux_syscall_gate prof a nr p = 0 \<Longrightarrow> linux_syscall_dispatch_domain nr \<noteq> LINUX_DISPATCH_ENOSYS"
  using docker_routed skill_within_docker
  by (auto simp: lc_linux_syscall_gate_def lc_sandbox_syscall_allow_def split: lc_sb_profile_t.splits if_splits)

text \<open>The commands that change the policy at run time.\<close>

datatype ifc_cmd = Grant lc_ifc_domain_t lc_ifc_domain_t u32 | Revoke lc_ifc_domain_t lc_ifc_domain_t u32

fun ifc_exec :: "ifc_cmd \<Rightarrow> ifc_policy \<Rightarrow> ifc_policy" where
  "ifc_exec (Grant a b ops) p = lc_ifc_grant a b ops p"
| "ifc_exec (Revoke a b ops) p = lc_ifc_revoke a b ops p"

lemma never_granted:
  assumes "p a b = 0" "\<forall>ops. Grant a b ops \<notin> set cmds"
  shows "fold ifc_exec cmds p a b = 0"
  using assms
proof (induction cmds arbitrary: p)
  case (Cons c cs)
  have "ifc_exec c p a b = 0"
    using Cons.prems by (cases c) (auto simp: lc_ifc_grant_def lc_ifc_revoke_def ifc_set_def)
  then show ?case using Cons by simp
qed simp

text \<open>C32: the policy matrix implements a set of permitted flows: a flow is allowed exactly when all of its
  operations are permitted, a grant adds exactly its flow and a revocation removes exactly its flow. After the
  initialisation a container has no way to the language model, whatever is granted or revoked elsewhere, and
  every system call that passes the gate has a domain to serve it.\<close>

lemma lc_ifc_refines:
  assumes "a \<noteq> LC_IFC_DOM_COUNT" "b \<noteq> LC_IFC_DOM_COUNT"
    "\<forall>ops. Grant LC_IFC_DOM_CONTAINER LC_IFC_DOM_LLM ops \<notin> set cmds"
  shows "(lc_ifc_flow_allowed a b ops p \<longleftrightarrow> flow a b ops \<subseteq> perms p)
    \<and> perms (lc_ifc_grant a b ops p) = perms p \<union> flow a b ops
    \<and> perms (lc_ifc_revoke a b ops p) = perms p - flow a b ops
    \<and> (lc_ifc_flow_allowed LC_IFC_DOM_CONTAINER LC_IFC_DOM_LLM w (fold ifc_exec cmds (lc_ifc_init p)) \<longleftrightarrow> w = 0)
    \<and> (lc_linux_syscall_gate prof a nr p = 0 \<longrightarrow> linux_syscall_dispatch_domain nr \<noteq> LINUX_DISPATCH_ENOSYS)"
proof -
  have "lc_ifc_init p LC_IFC_DOM_CONTAINER LC_IFC_DOM_LLM = 0" by (simp add: init_entry)
  then have "fold ifc_exec cmds (lc_ifc_init p) LC_IFC_DOM_CONTAINER LC_IFC_DOM_LLM = 0" using assms(3) by (rule never_granted)
  then have "lc_ifc_flow_allowed LC_IFC_DOM_CONTAINER LC_IFC_DOM_LLM w (fold ifc_exec cmds (lc_ifc_init p)) \<longleftrightarrow> w = 0"
    by (auto simp: lc_ifc_flow_allowed_def)
  then show ?thesis using assms(1,2) gate_routed by (simp add: flow_allowed_perms grant_perms revoke_perms)
qed

lemma lc_ifc_refines_witness:
  "\<not> lc_ifc_flow_allowed LC_IFC_DOM_CONTAINER LC_IFC_DOM_LLM LC_IFC_OP_READ
       (fold ifc_exec [Grant LC_IFC_DOM_SKILL LC_IFC_DOM_LLM 2, Revoke LC_IFC_DOM_CONTAINER LC_IFC_DOM_HOST 2] (lc_ifc_init (\<lambda>_ _. 0)))"
  using lc_ifc_refines [of LC_IFC_DOM_SKILL LC_IFC_DOM_LLM
      "[Grant LC_IFC_DOM_SKILL LC_IFC_DOM_LLM 2, Revoke LC_IFC_DOM_CONTAINER LC_IFC_DOM_HOST 2]" 0 "\<lambda>_ _. 0" 1 LC_SB_PROFILE_SKILL 0]
  by simp

end
