(* ===== verification/Container.thy ===== *)
theory Container
  imports Sandbox
begin

text \<open>
  The containers of \<open>container/\<close>: the OCI bundle table (\<open>oci_runtime.c\<close>) and the docker commands on the
  container table (\<open>lc_container.c\<close>), with the policy of \<open>Sandbox\<close>, initialised by \<open>lc_layer.c\<close>. A pointer to
  text that may be NULL is an option; the buffer of a command is a list of bytes, and a command returns the
  buffer as it leaves it. The log lines are left out. The identifiers of containers instantiate the locale
  \<open>id_issuer\<close>.
\<close>

unbundle bit_operations_syntax

section \<open>State\<close>

abbreviation LC_MAX_CONTAINERS :: nat where "LC_MAX_CONTAINERS \<equiv> 16"
abbreviation LC_IMAGE_NAME_LEN :: nat where "LC_IMAGE_NAME_LEN \<equiv> 96"
abbreviation LC_CTR_NAME_LEN :: nat where "LC_CTR_NAME_LEN \<equiv> 64"
abbreviation LC_ID_STR_LEN :: nat where "LC_ID_STR_LEN \<equiv> 24"
abbreviation LC_OCI_MAX_BUNDLES :: nat where "LC_OCI_MAX_BUNDLES \<equiv> 16"

datatype lc_ctr_state_t = LC_CTR_CREATED | LC_CTR_RUNNING | LC_CTR_STOPPED

record lc_container_slot_t =
  ctr_id :: u64
  ctr_id_str :: bytes
  ctr_name :: bytes
  ctr_image :: bytes
  ctr_state :: lc_ctr_state_t

record lc_oci_bundle_t =
  ob_ctr_id :: u64
  ob_image :: bytes
  ob_lower :: bytes
  ob_upper :: bytes
  ob_work :: bytes
  ob_rootfs :: bytes
  ob_used :: bool

record lc_layer =
  lc_slots :: "nat \<Rightarrow> lc_container_slot_t"
  lc_next_id :: u64
  lc_bundles :: "nat \<Rightarrow> lc_oci_bundle_t"
  lc_policy :: ifc_policy

section \<open>OCI bundles\<close>

abbreviation empty_bundle :: lc_oci_bundle_t where
  "empty_bundle \<equiv> \<lparr>ob_ctr_id = 0, ob_image = replicate LC_IMAGE_NAME_LEN 0, ob_lower = replicate 128 0, ob_upper = replicate 128 0,
     ob_work = replicate 128 0, ob_rootfs = replicate 128 0, ob_used = False\<rparr>"

definition oci_alloc_slot :: "lc_layer \<Rightarrow> (nat \<times> lc_layer) option" where
  "oci_alloc_slot g =
     (case scan (\<lambda>i. \<not> ob_used (lc_bundles g i)) 0 LC_OCI_MAX_BUNDLES of
        Some i \<Rightarrow> Some (i, g\<lparr>lc_bundles := (lc_bundles g)(i := empty_bundle\<lparr>ob_used := True\<rparr>)\<rparr>)
      | None \<Rightarrow> None)"

definition lc_oci_register_bundle :: "u64 \<Rightarrow> bytes option \<Rightarrow> bytes option \<Rightarrow> lc_layer \<Rightarrow> lc_layer" where
  "lc_oci_register_bundle ctr img lower_root g =
     (case oci_alloc_slot g of
        None \<Rightarrow> g
      | Some (i, g) \<Rightarrow>
          let b = (lc_bundles g i)\<lparr>ob_ctr_id := ctr\<rparr>;
              b = (case img of Some s \<Rightarrow> b\<lparr>ob_image := text_field LC_IMAGE_NAME_LEN s\<rparr> | None \<Rightarrow> b);
              b = (case lower_root of Some s \<Rightarrow> b\<lparr>ob_lower := text_field 128 s\<rparr> | None \<Rightarrow> b);
              b = b\<lparr>ob_upper := fmt_buf 128 ''/lc/overlay/%llu/upper'' [VNum ctr],
                    ob_work := fmt_buf 128 ''/lc/overlay/%llu/work'' [VNum ctr],
                    ob_rootfs := fmt_buf 128 ''/lc/overlay/%llu/merged'' [VNum ctr]\<rparr>
          in g\<lparr>lc_bundles := (lc_bundles g)(i := b)\<rparr>)"

definition lc_oci_init :: "lc_layer \<Rightarrow> lc_layer" where
  "lc_oci_init g = g\<lparr>lc_bundles := (\<lambda>_. empty_bundle)\<rparr>"

definition lc_layer_init :: "lc_layer \<Rightarrow> lc_layer" where
  "lc_layer_init g = lc_oci_init (g\<lparr>lc_policy := lc_ifc_init (lc_policy g)\<rparr>)"

section \<open>Docker commands\<close>

abbreviation empty_slot :: lc_container_slot_t where
  "empty_slot \<equiv> \<lparr>ctr_id = 0, ctr_id_str = replicate LC_ID_STR_LEN 0, ctr_name = replicate LC_CTR_NAME_LEN 0,
     ctr_image = replicate LC_IMAGE_NAME_LEN 0, ctr_state = LC_CTR_CREATED\<rparr>"

definition slot_alloc :: "lc_layer \<Rightarrow> nat option" where
  "slot_alloc g = scan (\<lambda>i. ctr_id (lc_slots g i) = 0) 0 LC_MAX_CONTAINERS"

abbreviation slot_free :: "nat \<Rightarrow> lc_layer \<Rightarrow> lc_layer" where
  "slot_free i g \<equiv> g\<lparr>lc_slots := (lc_slots g)(i := empty_slot)\<rparr>"

fun find_loop :: "lc_layer \<Rightarrow> bytes \<Rightarrow> nat list \<Rightarrow> nat option \<Rightarrow> nat \<Rightarrow> nat option" where
  "find_loop g q [] prefix hits = (if hits = 1 then prefix else None)"
| "find_loop g q (i # is) prefix hits =
     (let s = lc_slots g i in
      if ctr_id s = 0 then find_loop g q is prefix hits
      else if strcmp (ctr_id_str s) q = 0 \<or> strcmp (ctr_name s) q = 0 then Some i
      else if 4 \<le> strlen q \<and> strncmp (ctr_id_str s) q (strlen q) = 0 then find_loop g q is (Some i) (hits + 1)
      else find_loop g q is prefix hits)"

definition find_slot :: "bytes option \<Rightarrow> lc_layer \<Rightarrow> nat option" where
  "find_slot q g = (case q of None \<Rightarrow> None | Some q \<Rightarrow> if rd q = 0 then None else find_loop g q [0..<LC_MAX_CONTAINERS] None 0)"

text \<open>The text that a command leaves in its buffer. Every format of a command has its arguments, so the
  branch for a format without them is never taken.\<close>

definition print :: "bytes \<Rightarrow> string \<Rightarrow> vararg list \<Rightarrow> bytes" where
  "print buf fmt args = (case snprintf buf (str fmt) args of Some (n, b) \<Rightarrow> b | None \<Rightarrow> buf)"

text \<open>The arrow and the dash that the messages hold in UTF-8.\<close>

definition arrow :: string where "arrow = [CHR 0xE2, CHR 0x86, CHR 0x92]"
definition dash :: string where "dash = [CHR 0xE2, CHR 0x80, CHR 0x94]"

abbreviation nl :: string where "nl \<equiv> [CHR 0x0A]"

definition lower_path_for_image :: "bytes \<Rightarrow> bytes \<Rightarrow> bytes" where
  "lower_path_for_image img out = print out ''/lc/images/%s/rootfs'' [VStr (Some img)]"

definition lc_docker_version :: "bytes option \<Rightarrow> int \<times> bytes option" where
  "lc_docker_version out =
     (case out of None \<Rightarrow> (- 1, out)
      | Some b \<Rightarrow> if b = [] then (- 1, out)
          else (0, Some (print b (''Client: AevOS-LC 0.1 (docker CLI subset)'' @ nl
             @ ''Server: AevOS OCI shim / Linux ABI bridge'' @ nl
             @ '' API version: 1.41 (compatible surface)'' @ nl
             @ '' OS/Arch: AevOS / multi-arch kernel + x86_64 syscall table'' @ nl) [])))"

definition lc_docker_info :: "bytes option \<Rightarrow> int \<times> bytes option" where
  "lc_docker_info out =
     (case out of None \<Rightarrow> (- 1, out)
      | Some b \<Rightarrow> if b = [] then (- 1, out)
          else (0, Some (print b (''Containers: running (LC slots=%d)'' @ nl
             @ '' LC: OCI bundle + overlayfs semantics (shim)'' @ nl
             @ '' Kernel heap: %llu MiB'' @ nl
             @ '' IFC: container'' @ arrow @ ''LLM default deny'' @ nl
             @ '' Sandbox: skill vs docker syscall profiles active'' @ nl)
             [VNum (of_nat LC_MAX_CONTAINERS), VNum 256])))"

fun ps_loop :: "lc_layer \<Rightarrow> nat list \<Rightarrow> nat \<Rightarrow> lc_container_slot_t list" where
  "ps_loop g [] k = []"
| "ps_loop g (i # is) k =
     (if k = 0 then []
      else if ctr_id (lc_slots g i) = 0 then ps_loop g is k
      else lc_slots g i # ps_loop g is (k - 1))"

text \<open>\<open>docker ps\<close> stores the containers in the caller's array; the count it returns is their number.\<close>

definition lc_docker_ps :: "int \<Rightarrow> lc_layer \<Rightarrow> int \<times> lc_container_slot_t list" where
  "lc_docker_ps max_slots g =
     (if max_slots \<le> 0 then (- 1, []) else (0, ps_loop g [0..<LC_MAX_CONTAINERS] (nat max_slots)))"

definition image_catalog :: "string list" where
  "image_catalog = [''busybox    latest    ca1f010a0a01   LC catalog   1.2 MiB'',
     ''alpine     latest    c1a4a0b0c2d3   LC catalog   3.4 MiB'',
     ''hello-world latest   feb5d9fea6a5   LC catalog   16 KiB'']"

text \<open>The two loops of \<open>docker images\<close> print a row at the end of the text so far and stop at the first row that
  does not fit. A position behind the end of the buffer, where \<open>cap - pos\<close> wraps and the next row is written
  outside the buffer, gives \<open>None\<close>.\<close>

fun print_rows :: "(string \<times> vararg list) list \<Rightarrow> bytes \<times> nat \<Rightarrow> (bytes \<times> nat) option" where
  "print_rows [] (b, pos) = Some (b, pos)"
| "print_rows ((fmt, args) # rs) (b, pos) =
     (if length b < pos then None
      else case snprintf (drop pos b) (str fmt) args of
        None \<Rightarrow> None
      | Some (n, b') \<Rightarrow>
          let b = take pos b @ b' in
          if sint n < 0 \<or> length b - pos \<le> unat n then Some (b, pos) else print_rows rs (b, pos + unat n))"

definition used_rows :: "lc_layer \<Rightarrow> (string \<times> vararg list) list" where
  "used_rows g =
     map (\<lambda>s. (''%-12s (in-use)  slot %-6llu  container   '' @ dash @ nl, [VStr (Some (ctr_image s)), VNum (ctr_id s)]))
       (filter (\<lambda>s. ctr_id s \<noteq> 0) (map (lc_slots g) [0..<LC_MAX_CONTAINERS]))"

definition lc_docker_images :: "bytes \<Rightarrow> lc_layer \<Rightarrow> (int \<times> bytes) option" where
  "lc_docker_images out g =
     (if out = [] then Some (- 1, out)
      else do { (n, b) \<leftarrow> snprintf out (str (''REPOSITORY   TAG       IMAGE ID      SOURCE      SIZE'' @ nl)) [];
                let pos = (if 0 < sint n then unat n else 0);
                (b, pos) \<leftarrow> print_rows (map (\<lambda>c. (''%s'' @ nl, [VStr (Some (str c))])) image_catalog) (b, pos);
                (b, pos) \<leftarrow> print_rows (used_rows g) (b, pos);
                Some (0, b) })"

definition lc_docker_run ::
  "bytes option \<Rightarrow> bytes option \<Rightarrow> bytes option \<Rightarrow> lc_layer \<Rightarrow> (int \<times> bytes option) \<times> lc_layer" where
  "lc_docker_run img cmdline_rest msg_out g =
     (case (img, msg_out) of
        (Some img, Some msg) \<Rightarrow>
          if rd img = 0 \<or> msg = [] then ((- 1, msg_out), g)
          else if \<not> lc_ifc_flow_allowed LC_IFC_DOM_CONTAINER LC_IFC_DOM_HOST (LC_IFC_OP_READ OR LC_IFC_OP_WRITE) (lc_policy g)
          then ((- 1, Some (print msg (''LC: IFC denied container'' @ arrow @ ''host I/O; start aborted'') [])), g)
          else (case slot_alloc g of
                  None \<Rightarrow> ((- 1, Some (print msg ''LC: no free container slots (max=%d)'' [VNum (of_nat LC_MAX_CONTAINERS)])), g)
                | Some i \<Rightarrow>
                    let k = lc_next_id g;
                        s = lc_slots g i;
                        s = s\<lparr>ctr_id := k, ctr_id_str := print (ctr_id_str s) ''aevos_lc_%llu'' [VNum k],
                              ctr_name := print (ctr_name s) ''focused_%llu'' [VNum k],
                              ctr_image := text_field LC_IMAGE_NAME_LEN img, ctr_state := LC_CTR_RUNNING\<rparr>;
                        g = g\<lparr>lc_next_id := k + 1, lc_slots := (lc_slots g)(i := s)\<rparr>;
                        lower = lower_path_for_image img (replicate 160 0);
                        g = lc_oci_register_bundle k (Some img) (Some lower) g;
                        cmd = (case cmdline_rest of
                                 Some c \<Rightarrow> if rd c \<noteq> 0 then c else str ''(default)'' | None \<Rightarrow> str ''(default)'')
                    in ((0, Some (print msg (''LC: started %s as %s [%s]'' @ nl @ ''    image=%s cmd=%s'' @ nl
                          @ ''    OCI: bundle registered; exec is shim-only on bare-metal AevOS.'')
                          [VStr (Some (ctr_name s)), VStr (Some (ctr_id_str s)),
                           VStr (Some (str (if ctr_state s = LC_CTR_RUNNING then ''running'' else ''?''))),
                           VStr (Some img), VStr (Some cmd)])), g))
      | _ \<Rightarrow> ((- 1, msg_out), g))"

definition lc_docker_stop :: "bytes option \<Rightarrow> bytes \<Rightarrow> lc_layer \<Rightarrow> (int \<times> bytes) \<times> lc_layer" where
  "lc_docker_stop id_or_name err g =
     (case find_slot id_or_name g of
        None \<Rightarrow> ((- 1, print err ''Error: no such container: %s'' [VStr id_or_name]), g)
      | Some i \<Rightarrow>
          if ctr_state (lc_slots g i) = LC_CTR_STOPPED
          then ((- 1, print err ''Container %s already stopped'' [VStr id_or_name]), g)
          else let s = (lc_slots g i)\<lparr>ctr_state := LC_CTR_STOPPED\<rparr>
               in ((0, print err ''Stopped %s'' [VStr (Some (ctr_id_str s))]), g\<lparr>lc_slots := (lc_slots g)(i := s)\<rparr>))"

definition lc_docker_rm :: "bytes option \<Rightarrow> bytes \<Rightarrow> lc_layer \<Rightarrow> (int \<times> bytes) \<times> lc_layer" where
  "lc_docker_rm id_or_name err g =
     (case find_slot id_or_name g of
        None \<Rightarrow> ((- 1, print err ''Error: no such container: %s'' [VStr id_or_name]), g)
      | Some i \<Rightarrow>
          if ctr_state (lc_slots g i) \<noteq> LC_CTR_STOPPED
          then ((- 1, print err (''Error: container %s is running '' @ dash @ '' `docker stop` first'') [VStr id_or_name]), g)
          else ((0, print err ''Removed %s'' [VStr (Some (ctr_id_str (lc_slots g i)))]), slot_free i g))"

section \<open>Names of containers\<close>

lemma print_text:
  assumes "buf \<noteq> []" "format_text (str fmt) args = Some t"
  shows "print buf fmt args = fit t buf"
  using assms by (simp add: print_def snprintf_text)

lemma cval_fit:
  assumes "0 \<notin> set t" "buf \<noteq> []"
  shows "cval (fit t buf) = take (length buf - 1) t"
proof -
  have nz: "\<forall>x \<in> set (take k t). x \<noteq> 0" for k using assms(1) by (metis in_set_takeD)
  show ?thesis using nz by (simp add: fit_def Let_def cval_def takeWhile_append2 min_def)
qed

definition id_text :: "u64 \<Rightarrow> bytes" where
  "id_text k = str ''aevos_lc_'' @ num_text 10 False (unat k)"

definition name_text :: "u64 \<Rightarrow> bytes" where
  "name_text k = str ''focused_'' @ num_text 10 False (unat k)"

lemma dec_length: "length (num_text 10 False (unat (k :: u64))) \<le> 20"
  using nat_digits_length [of 20 "unat k" 10] unsigned_less [of k, where 'a = nat] by (simp add: num_text_def)

lemma lo_digits_nz: "d < 10 \<Longrightarrow> lo_digits ! d \<noteq> 0"
proof -
  assume "d < 10"
  then have "d \<in> {0, 1, 2, 3, 4, 5, 6, 7, 8, 9}" by auto
  then show ?thesis by (auto simp: str_def)
qed

lemma num_text_nz: "0 \<notin> set (num_text 10 False n)"
  using nat_digits_less [of 10 _ n] lo_digits_nz by (auto simp: num_text_def)

lemma lo_digits_inj: "inj_on ((!) lo_digits) {..<10}"
proof -
  have "{..<10} = {0, 1, 2, 3, 4, 5, 6, 7, 8, 9 :: nat}" by auto
  then show ?thesis by (simp add: inj_on_def str_def)
qed

lemma num_text_inj: "num_text 10 False m = num_text 10 False n \<longleftrightarrow> m = n"
proof
  assume "num_text 10 False m = num_text 10 False n"
  then have "map ((!) lo_digits) (nat_digits 10 m) = map ((!) lo_digits) (nat_digits 10 n)" by (simp add: num_text_def)
  moreover have "set (nat_digits 10 m) \<union> set (nat_digits 10 n) \<subseteq> {..<10}" using nat_digits_less [of 10] by auto
  ultimately have "nat_digits 10 m = nat_digits 10 n"
    using map_inj_on [OF _ inj_on_subset [OF lo_digits_inj]] by blast
  then show "m = n" by (metis digits_value_nat_digits)
qed simp

lemma id_format: "format_text (str ''aevos_lc_%llu'') [VNum k] = Some (id_text k)"
  using dec_length [of k]
  by (simp add: str_def rd_def parse_spec_def conv_text_def field_def id_text_def)

lemma name_format: "format_text (str ''focused_%llu'') [VNum k] = Some (name_text k)"
  using dec_length [of k]
  by (simp add: str_def rd_def parse_spec_def conv_text_def field_def name_text_def)

section \<open>The invariant of the container table\<close>

definition slot_ok :: "lc_container_slot_t \<Rightarrow> bool" where
  "slot_ok s \<longleftrightarrow> length (ctr_id_str s) = LC_ID_STR_LEN \<and> length (ctr_name s) = LC_CTR_NAME_LEN
     \<and> (if ctr_id s = 0 then s = empty_slot
        else cval (ctr_id_str s) = take (LC_ID_STR_LEN - 1) (id_text (ctr_id s)) \<and> cval (ctr_name s) = name_text (ctr_id s))"

definition lc_inv :: "lc_layer \<Rightarrow> bool" where
  "lc_inv g \<longleftrightarrow> lc_next_id g \<noteq> 0
     \<and> (\<forall>i < LC_MAX_CONTAINERS. slot_ok (lc_slots g i) \<and> ctr_id (lc_slots g i) < lc_next_id g)
     \<and> (\<forall>i < LC_MAX_CONTAINERS. \<forall>j < LC_MAX_CONTAINERS.
          ctr_id (lc_slots g i) = ctr_id (lc_slots g j) \<longrightarrow> ctr_id (lc_slots g i) \<noteq> 0 \<longrightarrow> i = j)"

definition started :: "u64 \<Rightarrow> bytes \<Rightarrow> lc_container_slot_t \<Rightarrow> lc_container_slot_t" where
  "started k img s = s\<lparr>ctr_id := k, ctr_id_str := print (ctr_id_str s) ''aevos_lc_%llu'' [VNum k],
     ctr_name := print (ctr_name s) ''focused_%llu'' [VNum k],
     ctr_image := text_field LC_IMAGE_NAME_LEN img, ctr_state := LC_CTR_RUNNING\<rparr>"

lemma started_ok:
  assumes "slot_ok s" "k \<noteq> 0"
  shows "slot_ok (started k img s)"
proof -
  have ne: "ctr_id_str s \<noteq> []" "ctr_name s \<noteq> []"
    using assms(1) by (auto simp: slot_ok_def)
  have nz: "0 \<notin> set (id_text k)" "0 \<notin> set (name_text k)"
    using num_text_nz by (auto simp: id_text_def name_text_def str_def)
  have "length (name_text k) \<le> LC_CTR_NAME_LEN - 1" using dec_length [of k] by (simp add: name_text_def str_def)
  then show ?thesis
    using assms by (simp add: slot_ok_def started_def print_text [OF ne(1) id_format] print_text [OF ne(2) name_format]
        cval_fit [OF nz(1) ne(1)] cval_fit [OF nz(2) ne(2)] length_fit ne)
qed

lemma register_bundle_slots [simp]:
  "lc_slots (lc_oci_register_bundle k a b g) = lc_slots g"
  "lc_next_id (lc_oci_register_bundle k a b g) = lc_next_id g"
  "lc_policy (lc_oci_register_bundle k a b g) = lc_policy g"
  by (auto simp: lc_oci_register_bundle_def oci_alloc_slot_def Let_def split: option.splits)

abbreviation io_allowed :: "lc_layer \<Rightarrow> bool" where
  "io_allowed g \<equiv> lc_ifc_flow_allowed LC_IFC_DOM_CONTAINER LC_IFC_DOM_HOST (LC_IFC_OP_READ OR LC_IFC_OP_WRITE) (lc_policy g)"

lemma docker_run_started:
  assumes "rd img \<noteq> 0" "msg \<noteq> []" "io_allowed g" "slot_alloc g = Some i"
  shows "fst (fst (lc_docker_run (Some img) cmd (Some msg) g)) = 0"
    "snd (lc_docker_run (Some img) cmd (Some msg) g) =
       lc_oci_register_bundle (lc_next_id g) (Some img) (Some (lower_path_for_image img (replicate 160 0)))
         (g\<lparr>lc_next_id := lc_next_id g + 1, lc_slots := (lc_slots g)(i := started (lc_next_id g) img (lc_slots g i))\<rparr>)"
  using assms by (simp_all add: lc_docker_run_def started_def Let_def)

definition run_accepted :: "bytes option \<Rightarrow> bytes option \<Rightarrow> lc_layer \<Rightarrow> bool" where
  "run_accepted img msg g \<longleftrightarrow> (\<exists>im m i. img = Some im \<and> msg = Some m \<and> rd im \<noteq> 0 \<and> m \<noteq> [] \<and> io_allowed g \<and> slot_alloc g = Some i)"

lemma docker_run_refused:
  assumes "\<not> run_accepted img msg g"
  shows "snd (lc_docker_run img cmd msg g) = g \<and> fst (fst (lc_docker_run img cmd msg g)) = - 1"
  using assms by (cases img; cases msg; cases "slot_alloc g") (auto simp: lc_docker_run_def run_accepted_def)

lemma slot_alloc_free:
  "slot_alloc g = Some i \<Longrightarrow> i < LC_MAX_CONTAINERS \<and> ctr_id (lc_slots g i) = 0"
  by (auto simp: slot_alloc_def scan_Some_iff)

lemma find_loop_bound: "find_loop g q is pf h = Some i \<Longrightarrow> (\<And>j. pf = Some j \<Longrightarrow> j \<in> A \<and> ctr_id (lc_slots g j) \<noteq> 0)
    \<Longrightarrow> set is \<subseteq> A \<Longrightarrow> i \<in> A \<and> ctr_id (lc_slots g i) \<noteq> 0"
  by (induction g q "is" pf h rule: find_loop.induct) (auto simp: Let_def split: if_splits)

lemma find_slot_used: "find_slot q g = Some i \<Longrightarrow> i < LC_MAX_CONTAINERS \<and> ctr_id (lc_slots g i) \<noteq> 0"
  using find_loop_bound [of g "the q" "[0..<LC_MAX_CONTAINERS]" None 0 i "{0..<LC_MAX_CONTAINERS}"]
  by (auto simp: find_slot_def split: option.splits if_splits)

text \<open>A container whose text is the query, and no other one, is found whatever prefixes match.\<close>

lemma find_loop_exact:
  assumes "i \<in> set is" "ctr_id (lc_slots g i) \<noteq> 0" "strcmp (ctr_id_str (lc_slots g i)) q = 0 \<or> strcmp (ctr_name (lc_slots g i)) q = 0"
    "\<And>j. j \<in> set is \<Longrightarrow> ctr_id (lc_slots g j) \<noteq> 0 \<Longrightarrow>
       strcmp (ctr_id_str (lc_slots g j)) q = 0 \<or> strcmp (ctr_name (lc_slots g j)) q = 0 \<Longrightarrow> j = i"
  shows "find_loop g q is pf h = Some i"
  using assms
proof (induction "is" arbitrary: pf h)
  case Nil
  from Nil.prems(1) show ?case by simp
next
  case (Cons k ks)
  show ?case
  proof (cases "k = i")
    case True
    then show ?thesis using Cons.prems(2,3) by (simp add: Let_def)
  next
    case False
    have "find_loop g q ks pf h = Some i" for pf h
      by (rule Cons.IH) (use Cons.prems False in simp_all)
    moreover have "\<not> (strcmp (ctr_id_str (lc_slots g k)) q = 0 \<or> strcmp (ctr_name (lc_slots g k)) q = 0)" if "ctr_id (lc_slots g k) \<noteq> 0"
      using Cons.prems(4) [of k] that False by auto
    ultimately show ?thesis by (simp add: Let_def)
  qed
qed

section \<open>Commands keep the invariant\<close>

datatype lc_op = Run "bytes option" "bytes option" "bytes option" | Stop "bytes option" bytes | Rm "bytes option" bytes | Policy ifc_cmd

fun lc_step :: "lc_op \<Rightarrow> lc_layer \<Rightarrow> lc_layer" where
  "lc_step (Run img cmd msg) g = snd (lc_docker_run img cmd msg g)"
| "lc_step (Stop q err) g = snd (lc_docker_stop q err g)"
| "lc_step (Rm q err) g = snd (lc_docker_rm q err g)"
| "lc_step (Policy c) g = g\<lparr>lc_policy := ifc_exec c (lc_policy g)\<rparr>"

definition lc_room :: "lc_layer \<Rightarrow> nat" where
  "lc_room g = 2 ^ 64 - 1 - unat (lc_next_id g)"

definition lc_issued :: "lc_layer \<Rightarrow> u64 \<Rightarrow> bool" where
  "lc_issued g k \<longleftrightarrow> 0 < k \<and> k < lc_next_id g"

definition lc_live :: "lc_layer \<Rightarrow> u64 \<Rightarrow> bool" where
  "lc_live g k \<longleftrightarrow> (\<exists>i < LC_MAX_CONTAINERS. ctr_id (lc_slots g i) = k)"

text \<open>What a command does to the table: nothing, or it starts, stops or clears one slot.\<close>

lemma lc_step_cases:
  obtains (same) "lc_slots (lc_step x g) = lc_slots g" "lc_next_id (lc_step x g) = lc_next_id g"
  | (start) i im where "i < LC_MAX_CONTAINERS" "ctr_id (lc_slots g i) = 0" "lc_next_id (lc_step x g) = lc_next_id g + 1"
      "lc_slots (lc_step x g) = (lc_slots g)(i := started (lc_next_id g) im (lc_slots g i))"
  | (stop) i where "i < LC_MAX_CONTAINERS" "ctr_id (lc_slots g i) \<noteq> 0" "lc_next_id (lc_step x g) = lc_next_id g"
      "lc_slots (lc_step x g) = (lc_slots g)(i := (lc_slots g i)\<lparr>ctr_state := LC_CTR_STOPPED\<rparr>)"
  | (clear) i where "i < LC_MAX_CONTAINERS" "lc_next_id (lc_step x g) = lc_next_id g"
      "lc_slots (lc_step x g) = (lc_slots g)(i := empty_slot)"
proof (cases x)
  case (Run img cmd msg)
  show ?thesis
  proof (cases "run_accepted img msg g")
    case True
    then obtain im m i where "img = Some im" "msg = Some m" and acc: "rd im \<noteq> 0" "m \<noteq> []" "io_allowed g" "slot_alloc g = Some i"
      unfolding run_accepted_def by blast
    then show ?thesis using start [of i im] slot_alloc_free [OF acc(4)] docker_run_started(2) [OF acc, of cmd] by (simp add: Run)
  next
    case False
    then show ?thesis using same docker_run_refused [OF False, of cmd] by (simp add: Run)
  qed
next
  case (Stop q err)
  show ?thesis
  proof (cases "find_slot q g")
    case None
    then show ?thesis using same by (simp add: Stop lc_docker_stop_def)
  next
    case (Some i)
    then show ?thesis using same stop [of i] find_slot_used [OF Some]
      by (cases "ctr_state (lc_slots g i) = LC_CTR_STOPPED") (simp_all add: Stop lc_docker_stop_def Let_def)
  qed
next
  case (Rm q err)
  show ?thesis
  proof (cases "find_slot q g")
    case None
    then show ?thesis using same by (simp add: Rm lc_docker_rm_def)
  next
    case (Some i)
    then show ?thesis using same clear [of i] find_slot_used [OF Some]
      by (cases "ctr_state (lc_slots g i) = LC_CTR_STOPPED") (simp_all add: Rm lc_docker_rm_def)
  qed
next
  case (Policy c)
  then show ?thesis using same by simp
qed

lemma next_id_Suc:
  assumes "0 < lc_room g"
  shows "unat (lc_next_id g + 1) = Suc (unat (lc_next_id g))"
proof -
  have "unat (lc_next_id g) + 1 < 2 ^ 64" using assms by (simp add: lc_room_def)
  then show ?thesis by (simp add: unat_word_ariths)
qed

lemma empty_slot_ok: "slot_ok empty_slot"
  by (simp add: slot_ok_def)

lemma lc_invD:
  assumes "lc_inv g" "i < LC_MAX_CONTAINERS"
  shows "slot_ok (lc_slots g i)" "ctr_id (lc_slots g i) < lc_next_id g"
    "j < LC_MAX_CONTAINERS \<Longrightarrow> ctr_id (lc_slots g i) = ctr_id (lc_slots g j) \<Longrightarrow> ctr_id (lc_slots g i) \<noteq> 0 \<Longrightarrow> i = j"
  using assms unfolding lc_inv_def by blast+

lemma lc_inv_update:
  assumes "lc_inv g" "lc_slots g' = (lc_slots g)(i := s)" "lc_next_id g \<le> lc_next_id g'" "slot_ok s" "ctr_id s < lc_next_id g'"
    "\<And>j. j < LC_MAX_CONTAINERS \<Longrightarrow> j \<noteq> i \<Longrightarrow> ctr_id s \<noteq> 0 \<Longrightarrow> ctr_id (lc_slots g j) \<noteq> ctr_id s"
  shows "lc_inv g'"
  unfolding lc_inv_def
proof (intro conjI allI impI)
  show "lc_next_id g' \<noteq> 0" using assms(5) by auto
  fix a assume a: "a < LC_MAX_CONTAINERS"
  show "slot_ok (lc_slots g' a)" using lc_invD(1) [OF assms(1) a] assms(2,4) by simp
  show "ctr_id (lc_slots g' a) < lc_next_id g'" using lc_invD(2) [OF assms(1) a] assms(2,3,5) by (simp add: less_le_trans)
  fix b assume b: "b < LC_MAX_CONTAINERS" and eq: "ctr_id (lc_slots g' a) = ctr_id (lc_slots g' b)" and nz: "ctr_id (lc_slots g' a) \<noteq> 0"
  show "a = b"
  proof (cases "a = i \<or> b = i")
    case True
    then show ?thesis using assms(6) [of a] assms(6) [of b] a b eq nz assms(2) by (cases "a = b") auto
  next
    case False
    then show ?thesis using lc_invD(3) [OF assms(1) a b] eq nz assms(2) by simp
  qed
qed

lemma lc_step_inv:
  assumes "lc_inv g" "0 < lc_room g"
  shows "lc_inv (lc_step x g)"
proof (cases rule: lc_step_cases [of x g])
  case same
  then show ?thesis using assms(1) by (simp add: lc_inv_def)
next
  case (start i im)
  have k: "lc_next_id g \<noteq> 0" "lc_next_id g < lc_next_id g + 1"
    using assms next_id_Suc [OF assms(2)] by (auto simp: lc_inv_def word_less_nat_alt)
  show ?thesis
  proof (rule lc_inv_update [OF assms(1) start(4)])
    show "slot_ok (started (lc_next_id g) im (lc_slots g i))" by (rule started_ok [OF lc_invD(1) [OF assms(1) start(1)] k(1)])
    show "ctr_id (lc_slots g j) \<noteq> ctr_id (started (lc_next_id g) im (lc_slots g i))" if "j < LC_MAX_CONTAINERS" for j
      using lc_invD(2) [OF assms(1) that] by (auto simp: started_def)
  qed (use k(2) in \<open>simp_all add: start(3) started_def\<close>)
next
  case (stop i)
  have ok: "slot_ok ((lc_slots g i)\<lparr>ctr_state := LC_CTR_STOPPED\<rparr>)"
    using lc_invD(1) [OF assms(1) stop(1)] stop(2) by (simp add: slot_ok_def)
  show ?thesis
    by (rule lc_inv_update [OF assms(1) stop(4) _ ok])
      (use stop lc_invD(2) [OF assms(1) stop(1)] lc_invD(3) [OF assms(1) _ stop(1)] in auto)
next
  case (clear i)
  have "0 < lc_next_id g" using assms(1) by (simp add: lc_inv_def word_neq_0_conv)
  then show ?thesis
    by (intro lc_inv_update [OF assms(1) clear(3) _ empty_slot_ok]) (simp_all add: clear(2))
qed

text \<open>Identifiers are never issued twice before the counter wraps.\<close>

interpretation lc_ids: id_issuer lc_inv lc_room lc_issued lc_live lc_step
proof
  fix g :: lc_layer and x :: lc_op and k :: u64
  assume inv: "lc_inv g" and room: "0 < lc_room g"
  note suc = next_id_Suc [OF room]
  show "lc_inv (lc_step x g)" by (rule lc_step_inv [OF inv room])
  show "lc_room g \<le> Suc (lc_room (lc_step x g))"
    by (cases rule: lc_step_cases [of x g]) (use suc room in \<open>simp_all add: lc_room_def\<close>)
  show "lc_issued (lc_step x g) k" if "lc_issued g k"
    by (cases rule: lc_step_cases [of x g]) (use suc that in \<open>auto simp: lc_issued_def word_less_nat_alt\<close>)
  show "lc_live g k" if issued: "lc_issued g k" and live: "lc_live (lc_step x g) k"
  proof -
    obtain j where j: "j < LC_MAX_CONTAINERS" "ctr_id (lc_slots (lc_step x g) j) = k" using live by (auto simp: lc_live_def)
    have k: "k \<noteq> 0" "k \<noteq> lc_next_id g" using issued by (auto simp: lc_issued_def)
    have "ctr_id (lc_slots g j) = k"
      by (cases rule: lc_step_cases [of x g]) (use j k in \<open>auto simp: started_def split: if_splits\<close>)
    then show ?thesis using j(1) by (auto simp: lc_live_def)
  qed
qed

section \<open>The life of a container\<close>

text \<open>Identifiers of up to fourteen digits fit the text field of a container.\<close>

abbreviation short_id :: "u64 \<Rightarrow> bool" where "short_id k \<equiv> unat k < 10 ^ 14"

lemma short_id_text: "short_id k \<Longrightarrow> take (LC_ID_STR_LEN - 1) (id_text k) = id_text k"
  using nat_digits_length [of 14 "unat k" 10] by (simp add: id_text_def num_text_def str_def)

lemma id_text_inj: "id_text k = id_text l \<longleftrightarrow> k = l"
  by (simp add: id_text_def num_text_inj word_unat_eq_iff)

lemma name_not_id: "name_text k \<noteq> id_text l"
  by (simp add: id_text_def name_text_def str_def)

lemma cval_id_text: "cval (id_text k) = id_text k"
  using num_text_nz [of "unat k"] by (auto simp: id_text_def str_def cval_def)

lemma find_by_id:
  assumes "lc_inv g" "i < LC_MAX_CONTAINERS" "ctr_id (lc_slots g i) = k" "k \<noteq> 0"
    "\<forall>j < LC_MAX_CONTAINERS. short_id (ctr_id (lc_slots g j))"
  shows "find_slot (Some (id_text k)) g = Some i"
proof -
  have m: "strcmp (ctr_id_str (lc_slots g j)) (id_text k) = 0 \<or> strcmp (ctr_name (lc_slots g j)) (id_text k) = 0
      \<longleftrightarrow> ctr_id (lc_slots g j) = k" if "j < LC_MAX_CONTAINERS" "ctr_id (lc_slots g j) \<noteq> 0" for j
  proof -
    have "slot_ok (lc_slots g j)" using assms(1) that(1) by (simp add: lc_inv_def)
    then have "cval (ctr_id_str (lc_slots g j)) = id_text (ctr_id (lc_slots g j))"
      "cval (ctr_name (lc_slots g j)) = name_text (ctr_id (lc_slots g j))"
      using that assms(5) short_id_text by (simp_all add: slot_ok_def)
    then show ?thesis by (simp add: strcmp_0_iff cval_id_text id_text_inj name_not_id)
  qed
  have "find_loop g (id_text k) [0..<LC_MAX_CONTAINERS] None 0 = Some i"
  proof (rule find_loop_exact)
    show "strcmp (ctr_id_str (lc_slots g i)) (id_text k) = 0 \<or> strcmp (ctr_name (lc_slots g i)) (id_text k) = 0"
      using m [OF assms(2)] assms(3,4) by simp
    fix j assume "j \<in> set [0..<LC_MAX_CONTAINERS]" "ctr_id (lc_slots g j) \<noteq> 0"
      "strcmp (ctr_id_str (lc_slots g j)) (id_text k) = 0 \<or> strcmp (ctr_name (lc_slots g j)) (id_text k) = 0"
    then show "j = i" using m [of j] assms(2-4) lc_invD(3) [OF assms(1), of j i] by simp
  qed (use assms in simp_all)
  moreover have "rd (id_text k) \<noteq> 0" by (simp add: id_text_def str_def rd_def)
  ultimately show ?thesis by (simp add: find_slot_def)
qed

lemma stop_by_id:
  assumes "find_slot q g = Some i" "ctr_state (lc_slots g i) \<noteq> LC_CTR_STOPPED"
  shows "fst (fst (lc_docker_stop q err g)) = 0"
    "snd (lc_docker_stop q err g) = g\<lparr>lc_slots := (lc_slots g)(i := (lc_slots g i)\<lparr>ctr_state := LC_CTR_STOPPED\<rparr>)\<rparr>"
  using assms by (simp_all add: lc_docker_stop_def Let_def)

lemma rm_by_id:
  assumes "find_slot q g = Some i"
  shows "ctr_state (lc_slots g i) \<noteq> LC_CTR_STOPPED \<Longrightarrow> fst (fst (lc_docker_rm q err g)) = - 1 \<and> snd (lc_docker_rm q err g) = g"
    "ctr_state (lc_slots g i) = LC_CTR_STOPPED \<Longrightarrow> fst (fst (lc_docker_rm q err g)) = 0 \<and> snd (lc_docker_rm q err g) = slot_free i g"
  using assms by (simp_all add: lc_docker_rm_def)

lemma short_ids_below:
  assumes "lc_inv g" "unat (lc_next_id g) \<le> 10 ^ 14" "j < LC_MAX_CONTAINERS"
  shows "short_id (ctr_id (lc_slots g j))"
  using lc_invD(2) [OF assms(1,3)] assms(2) by (simp add: word_less_nat_alt)

text \<open>A start, seen from the table, and the way from a running container to a removed one.\<close>

lemma run_found:
  assumes "lc_inv g" "unat (lc_next_id g) < 10 ^ 14" "rd img \<noteq> 0" "msg \<noteq> []" "io_allowed g" "slot_alloc g = Some i"
  shows "lc_inv (snd (lc_docker_run (Some img) cmd (Some msg) g))"
    "find_slot (Some (id_text (lc_next_id g))) (snd (lc_docker_run (Some img) cmd (Some msg) g)) = Some i"
    "lc_slots (snd (lc_docker_run (Some img) cmd (Some msg) g)) = (lc_slots g)(i := started (lc_next_id g) img (lc_slots g i))"
    "lc_next_id (snd (lc_docker_run (Some img) cmd (Some msg) g)) = lc_next_id g + 1"
    "unat (lc_next_id g + 1) = Suc (unat (lc_next_id g))"
proof -
  define g1 where "g1 = snd (lc_docker_run (Some img) cmd (Some msg) g)"
  have g1: "lc_slots g1 = (lc_slots g)(i := started (lc_next_id g) img (lc_slots g i))" "lc_next_id g1 = lc_next_id g + 1"
    by (simp_all add: g1_def docker_run_started(2) [OF assms(3-6), of cmd])
  have room: "0 < lc_room g" using assms(2) by (simp add: lc_room_def)
  note suc = next_id_Suc [OF room]
  have inv: "lc_inv g1" using lc_step_inv [OF assms(1) room, of "Run (Some img) cmd (Some msg)"] by (simp add: g1_def)
  have "unat (lc_next_id g1) \<le> 10 ^ 14" using assms(2) suc by (simp add: g1)
  note short = short_ids_below [OF inv this]
  have "find_slot (Some (id_text (lc_next_id g))) g1 = Some i"
    by (rule find_by_id [OF inv])
      (use slot_alloc_free [OF assms(6)] short assms(1) in \<open>auto simp: g1 started_def lc_inv_def\<close>)
  then show "lc_inv (snd (lc_docker_run (Some img) cmd (Some msg) g))"
    "find_slot (Some (id_text (lc_next_id g))) (snd (lc_docker_run (Some img) cmd (Some msg) g)) = Some i"
    "lc_slots (snd (lc_docker_run (Some img) cmd (Some msg) g)) = (lc_slots g)(i := started (lc_next_id g) img (lc_slots g i))"
    "lc_next_id (snd (lc_docker_run (Some img) cmd (Some msg) g)) = lc_next_id g + 1"
    "unat (lc_next_id g + 1) = Suc (unat (lc_next_id g))" using inv g1 suc by (simp_all add: g1_def)
qed

lemma stop_rm_found:
  assumes "lc_inv g" "unat (lc_next_id g) \<le> 10 ^ 14" "find_slot (Some (id_text k)) g = Some i" "k \<noteq> 0"
    "ctr_id (lc_slots g i) = k" "ctr_state (lc_slots g i) = LC_CTR_RUNNING"
  shows "fst (fst (lc_docker_stop (Some (id_text k)) err g)) = 0"
    "fst (fst (lc_docker_rm (Some (id_text k)) err (snd (lc_docker_stop (Some (id_text k)) err g)))) = 0"
    "snd (lc_docker_rm (Some (id_text k)) err (snd (lc_docker_stop (Some (id_text k)) err g))) =
       g\<lparr>lc_slots := (lc_slots g)(i := empty_slot)\<rparr>"
    "lc_inv (g\<lparr>lc_slots := (lc_slots g)(i := empty_slot)\<rparr>)"
proof -
  define g2 where "g2 = snd (lc_docker_stop (Some (id_text k)) err g)"
  note stopped = stop_by_id [OF assms(3), of err, folded g2_def]
  have g2: "g2 = g\<lparr>lc_slots := (lc_slots g)(i := (lc_slots g i)\<lparr>ctr_state := LC_CTR_STOPPED\<rparr>)\<rparr>" using stopped(2) assms(6) by simp
  have room: "0 < lc_room g" using assms(2) by (simp add: lc_room_def)
  then have room2: "0 < lc_room g2" by (simp add: lc_room_def g2)
  have inv2: "lc_inv g2" using lc_step_inv [OF assms(1) room, of "Stop (Some (id_text k)) err"] by (simp add: g2_def)
  have "find_slot (Some (id_text k)) g2 = Some i"
    by (rule find_by_id [OF inv2 _ _ assms(4)])
      (use find_slot_used [OF assms(3)] short_ids_below [OF inv2] assms(2,5) in \<open>auto simp: g2\<close>)
  then have rm: "fst (fst (lc_docker_rm (Some (id_text k)) err g2)) = 0" "snd (lc_docker_rm (Some (id_text k)) err g2) = slot_free i g2"
    using rm_by_id(2) [of _ g2 i err] by (simp_all add: g2)
  have inv3: "lc_inv (slot_free i g2)" using lc_step_inv [OF inv2 room2, of "Rm (Some (id_text k)) err"] rm(2) by simp
  have g3: "slot_free i g2 = g\<lparr>lc_slots := (lc_slots g)(i := empty_slot)\<rparr>" by (simp add: g2)
  show "fst (fst (lc_docker_stop (Some (id_text k)) err g)) = 0" using stopped(1) assms(6) by simp
  show "fst (fst (lc_docker_rm (Some (id_text k)) err (snd (lc_docker_stop (Some (id_text k)) err g)))) = 0"
    "snd (lc_docker_rm (Some (id_text k)) err (snd (lc_docker_stop (Some (id_text k)) err g))) =
       g\<lparr>lc_slots := (lc_slots g)(i := empty_slot)\<rparr>" using rm g3 by (simp_all add: g2_def)
  show "lc_inv (g\<lparr>lc_slots := (lc_slots g)(i := empty_slot)\<rparr>)" using inv3 by (simp only: g3)
qed


definition lc_booted :: lc_layer where
  "lc_booted = lc_layer_init \<lparr>lc_slots = (\<lambda>_. empty_slot), lc_next_id = 1, lc_bundles = (\<lambda>_. empty_bundle), lc_policy = (\<lambda>_ _. 0)\<rparr>"


section \<open>Bundles are never released\<close>

lemma register_keeps_used:
  "ob_used (lc_bundles g i) \<Longrightarrow> lc_bundles (lc_oci_register_bundle k a b g) i = lc_bundles g i"
  by (auto simp: lc_oci_register_bundle_def oci_alloc_slot_def Let_def scan_Some_iff split: option.splits)

text \<open>No command gives an OCI bundle back: the sixteen bundles serve the first sixteen starts, and a container
  started when they are in use has none, although the start reports one.\<close>

lemma bundle_kept:
  assumes "ob_used (lc_bundles g i)"
  shows "lc_bundles (lc_step x g) i = lc_bundles g i"
proof (cases x)
  case (Run img cmd msg)
  show ?thesis
  proof (cases "run_accepted img msg g")
    case True
    then obtain im m j where r: "img = Some im" "msg = Some m" and acc: "rd im \<noteq> 0" "m \<noteq> []" "io_allowed g" "slot_alloc g = Some j"
      unfolding run_accepted_def by blast
    show ?thesis using assms by (simp add: Run r docker_run_started(2) [OF acc] register_keeps_used)
  next
    case False
    then show ?thesis using docker_run_refused [OF False, of cmd] by (simp add: Run)
  qed
next
  case (Stop q err)
  then show ?thesis by (cases "find_slot q g") (simp_all add: lc_docker_stop_def Let_def)
next
  case (Rm q err)
  then show ?thesis by (cases "find_slot q g") (simp_all add: lc_docker_rm_def)
qed simp

lemma bundles_exhausted:
  assumes "\<forall>i < LC_OCI_MAX_BUNDLES. ob_used (lc_bundles g i)"
  shows "lc_oci_register_bundle k a b g = g"
proof -
  have "scan (\<lambda>i. \<not> ob_used (lc_bundles g i)) 0 LC_OCI_MAX_BUNDLES = None" using assms by (simp add: scan_None_iff)
  then show ?thesis by (simp add: lc_oci_register_bundle_def oci_alloc_slot_def)
qed

text \<open>\<open>docker images\<close> on a buffer shorter than its heading continues behind the end of the buffer.\<close>

lemma images_overrun:
  assumes "out \<noteq> []" "length out < 54"
  shows "lc_docker_images out g = None"
proof -
  let ?h = "''REPOSITORY   TAG       IMAGE ID      SOURCE      SIZE'' @ nl"
  have "format_text (str ?h) [] = Some (str ?h)" by (simp add: str_def)
  then have "snprintf out (str ?h) [] = Some (54, fit (str ?h) out)" using assms(1) by (simp add: snprintf_text str_def)
  then show ?thesis using assms by (simp add: lc_docker_images_def image_catalog_def length_fit)
qed

end
