(* ===== verification/Json.thy ===== *)
theory Json
  imports CString Float32
begin

text \<open>
  The JSON parser of \<open>lib/json.c\<close>. A position in the text is the list of bytes from it to the terminator, so the
  empty list is the position of the terminator. Calls of the heap are numbered, and an oracle says which of them
  succeed; the state counts the blocks in use. A pointer that moves behind the terminator and a second release of
  a block give the result \<open>Undefined\<close>. The recursion has fuel; one more than the length of the text is enough, as
  the theorem at the end shows.

  Numbers are the values of the C type \<open>double\<close>: the exact result of an operation is rounded to the nearest
  double, ties to even, with no operation contracted with another one. The sign of a zero is not represented.
\<close>

section \<open>Double-precision numbers\<close>

datatype f64 = Fin rat | Inf bool | NaN

text \<open>The exponent of a positive number, at least that of the smallest normal double, and its last place.\<close>

definition f64_exp :: "rat \<Rightarrow> int" where
  "f64_exp x = (case scan (\<lambda>i. 2 powi (1023 - int i) \<le> x) 0 2046 of Some i \<Rightarrow> 1023 - int i | None \<Rightarrow> - 1022)"

definition f64_mag :: "rat \<Rightarrow> rat" where
  "f64_mag x = of_nat (round_half_even (x / 2 powi (f64_exp x - 52))) * 2 powi (f64_exp x - 52)"

definition f64_round :: "rat \<Rightarrow> f64" where
  "f64_round x = (let m = f64_mag \<bar>x\<bar> in if 2 ^ 1024 \<le> m then Inf (x < 0) else Fin (if x < 0 then - m else m))"

fun f64_add :: "f64 \<Rightarrow> f64 \<Rightarrow> f64" where
  "f64_add (Fin a) (Fin b) = f64_round (a + b)"
| "f64_add (Inf s) (Inf t) = (if s = t then Inf s else NaN)"
| "f64_add (Inf s) (Fin b) = Inf s"
| "f64_add (Fin a) (Inf t) = Inf t"
| "f64_add _ _ = NaN"

fun f64_mul :: "f64 \<Rightarrow> f64 \<Rightarrow> f64" where
  "f64_mul (Fin a) (Fin b) = f64_round (a * b)"
| "f64_mul (Inf s) (Inf t) = Inf (s \<noteq> t)"
| "f64_mul (Inf s) (Fin b) = (if b = 0 then NaN else Inf (s \<noteq> (b < 0)))"
| "f64_mul (Fin a) (Inf t) = (if a = 0 then NaN else Inf (t \<noteq> (a < 0)))"
| "f64_mul _ _ = NaN"

text \<open>Division; the parser's divisor is a power of ten and never zero.\<close>

fun f64_div :: "f64 \<Rightarrow> f64 \<Rightarrow> f64" where
  "f64_div (Fin a) (Fin b) = (if b = 0 then NaN else f64_round (a / b))"
| "f64_div (Inf s) (Fin b) = Inf (s \<noteq> (b < 0))"
| "f64_div (Fin a) (Inf t) = Fin 0"
| "f64_div _ _ = NaN"

section \<open>Values and the heap\<close>

datatype json_value =
    JSON_NULL
  | JSON_BOOL bool
  | JSON_NUMBER f64
  | JSON_STRING bytes
  | JSON_ARRAY "json_value list"
  | JSON_OBJECT "(bytes \<times> json_value) list"

record alloc =
  al_ok :: "nat \<Rightarrow> bool"
  al_calls :: nat
  al_live :: int

definition al_alloc :: "alloc \<Rightarrow> bool \<times> alloc" where
  "al_alloc al = (al_ok al (al_calls al),
     al\<lparr>al_calls := al_calls al + 1, al_live := al_live al + (if al_ok al (al_calls al) then 1 else 0)\<rparr>)"

text \<open>\<open>krealloc\<close> replaces the block by a larger one or fails and keeps it.\<close>

definition al_realloc :: "alloc \<Rightarrow> bool \<times> alloc" where
  "al_realloc al = (al_ok al (al_calls al), al\<lparr>al_calls := al_calls al + 1\<rparr>)"

definition al_free :: "alloc \<Rightarrow> alloc" where
  "al_free al = al\<lparr>al_live := al_live al - 1\<rparr>"

fun json_free :: "json_value \<Rightarrow> alloc \<Rightarrow> alloc" where
  "json_free (JSON_STRING s) al = al_free (al_free al)"
| "json_free (JSON_ARRAY vs) al = al_free (al_free (fold json_free vs al))"
| "json_free (JSON_OBJECT kvs) al = al_free (al_free (al_free (fold (\<lambda>kv al. json_free (snd kv) (al_free al)) kvs al)))"
| "json_free v al = al_free al"

datatype 'a result = OutOfFuel | Undefined | Null alloc | Parsed 'a bytes alloc

section \<open>Lexer and scalars\<close>

fun skip_whitespace :: "bytes \<Rightarrow> bytes" where
  "skip_whitespace [] = []"
| "skip_whitespace (c # p) = (if c = 32 \<or> c = 9 \<or> c = 10 \<or> c = 13 then skip_whitespace p else c # p)"

definition alloc_value :: "json_value \<Rightarrow> bytes \<Rightarrow> alloc \<Rightarrow> json_value result" where
  "alloc_value v p al = (case al_alloc al of (ok, al) \<Rightarrow> if ok then Parsed v p al else Null al)"

abbreviation QUOTE :: u8 where "QUOTE \<equiv> 34"
abbreviation BACKSLASH :: u8 where "BACKSLASH \<equiv> 92"

text \<open>The first pass computes the length of the string and stops at the closing quote or at the terminator;
  \<open>None\<close> when an escape leads behind the terminator.\<close>

function string_length :: "bytes \<Rightarrow> nat \<Rightarrow> (nat \<times> bytes) option" where
  "string_length [] len = Some (len, [])"
| "string_length (c # p) len =
     (if c = QUOTE then Some (len, c # p)
      else if c = BACKSLASH then
        if rd p = chr CHR ''u'' then (if length p < 4 then None else string_length (drop 4 p) (len + 1))
        else if p = [] then None else string_length (tl p) (len + 1)
      else string_length p (len + 1))"
  by pat_completeness auto
termination
  by (relation "measure (\<lambda>(p, len). length p)") auto

definition unescape :: "u8 \<Rightarrow> u8" where
  "unescape c =
     (if c = chr CHR ''b'' then 8 else if c = chr CHR ''f'' then 12 else if c = chr CHR ''n'' then 10
      else if c = chr CHR ''r'' then 13 else if c = chr CHR ''t'' then 9 else c)"

text \<open>The second pass copies; it runs only when the first one found the closing quote.\<close>

function string_copy :: "bytes \<Rightarrow> bytes" where
  "string_copy [] = []"
| "string_copy (c # p) =
     (if c = QUOTE then []
      else if c = BACKSLASH then
        if rd p = chr CHR ''u'' then chr CHR ''?'' # string_copy (drop 4 p)
        else unescape (rd p) # string_copy (tl p)
      else c # string_copy p)"
  by pat_completeness auto
termination
  by (relation "measure length") auto

definition parse_string_raw :: "bytes \<Rightarrow> alloc \<Rightarrow> bytes result" where
  "parse_string_raw p al =
     (if rd p \<noteq> QUOTE then Null al
      else case string_length (tl p) 0 of
        None \<Rightarrow> Undefined
      | Some (len, q) \<Rightarrow>
          if rd q \<noteq> QUOTE then Null al
          else case al_alloc al of (ok, al) \<Rightarrow>
            if ok then Parsed (string_copy (tl p)) (tl q) al else Null al)"

definition parse_string :: "bytes \<Rightarrow> alloc \<Rightarrow> json_value result" where
  "parse_string p al =
     (case parse_string_raw p al of
        Parsed s p al \<Rightarrow> (case al_alloc al of (ok, al) \<Rightarrow> if ok then Parsed (JSON_STRING s) p al else Null (al_free al))
      | Null al \<Rightarrow> Null al
      | Undefined \<Rightarrow> Undefined
      | OutOfFuel \<Rightarrow> OutOfFuel)"

abbreviation is_digit :: "u8 \<Rightarrow> bool" where "is_digit c \<equiv> 48 \<le> c \<and> c \<le> 57"

fun int_digits :: "f64 \<Rightarrow> bytes \<Rightarrow> f64 \<times> bytes" where
  "int_digits n [] = (n, [])"
| "int_digits n (c # p) =
     (if is_digit c then int_digits (f64_add (f64_mul n (Fin 10)) (Fin (of_nat (unat (c - 48))))) p else (n, c # p))"

fun frac_digits :: "f64 \<Rightarrow> f64 \<Rightarrow> bytes \<Rightarrow> f64 \<times> bytes" where
  "frac_digits fr place [] = (fr, [])"
| "frac_digits fr place (c # p) =
     (if is_digit c
      then frac_digits (f64_add fr (f64_mul (Fin (of_nat (unat (c - 48)))) place)) (f64_mul place (f64_round (1 / 10))) p
      else (fr, c # p))"

text \<open>The exponent part. The conversion of an exponent outside the range of \<open>int\<close> has no defined result.\<close>

definition scale_exp :: "f64 \<Rightarrow> bytes \<Rightarrow> (f64 \<times> bytes) option" where
  "scale_exp r p =
     (let (neg, p) = (if rd p = chr CHR ''+'' then (False, tl p) else if rd p = chr CHR ''-'' then (True, tl p) else (False, p))
      in case int_digits (Fin 0) p of
           (Fin e, p) \<Rightarrow>
             if 2 ^ 31 \<le> e then None
             else let m = ((\<lambda>m. f64_mul m (Fin 10)) ^^ nat \<lfloor>e\<rfloor>) (Fin 1)
                  in Some (if neg then f64_div r m else f64_mul r m, p)
         | _ \<Rightarrow> None)"

definition parse_number :: "bytes \<Rightarrow> alloc \<Rightarrow> json_value result" where
  "parse_number p al =
     (let (s, p) = (if rd p = chr CHR ''-'' then (Fin (- 1), tl p) else (Fin 1, p));
          (integer, p) = int_digits (Fin 0) p;
          (fr, p) = (if rd p = chr CHR ''.'' then frac_digits (Fin 0) (f64_round (1 / 10)) (tl p) else (Fin 0, p));
          r = f64_mul s (f64_add integer fr)
      in case (if rd p = chr CHR ''e'' \<or> rd p = chr CHR ''E'' then scale_exp r (tl p) else Some (r, p)) of
           None \<Rightarrow> Undefined
         | Some (r, p) \<Rightarrow> alloc_value (JSON_NUMBER r) p al)"

section \<open>Values\<close>

text \<open>An object whose key array was moved by \<open>krealloc\<close> keeps the old pointer when the second \<open>krealloc\<close> fails,
  and \<open>json_free\<close> releases that block again.\<close>

definition grow_array :: "nat \<Rightarrow> nat \<Rightarrow> alloc \<Rightarrow> bool \<times> nat \<times> alloc" where
  "grow_array count capacity al =
     (if capacity \<le> count then case al_realloc al of (ok, al) \<Rightarrow> (ok, capacity * 2, al) else (True, capacity, al))"

datatype grow_outcome = Grown | Refused | Stale

definition grow_object :: "nat \<Rightarrow> nat \<Rightarrow> alloc \<Rightarrow> grow_outcome \<times> nat \<times> alloc" where
  "grow_object count capacity al =
     (if capacity \<le> count then
        case al_realloc al of (ok_keys, al) \<Rightarrow>
        case al_realloc al of (ok_vals, al) \<Rightarrow>
          (if ok_keys \<and> ok_vals then Grown else if ok_keys \<or> ok_vals then Stale else Refused, capacity * 2, al)
      else (Grown, capacity, al))"

definition parse_literal :: "bytes \<Rightarrow> alloc \<Rightarrow> json_value result" where
  "parse_literal p al =
     (if take 4 p = str ''true'' then
        alloc_value (JSON_BOOL True) (drop 4 p) al
      else if take 5 p = str ''false'' then alloc_value (JSON_BOOL False) (drop 5 p) al
      else if take 4 p = str ''null'' then alloc_value JSON_NULL (drop 4 p) al
      else if rd p = chr CHR ''-'' \<or> is_digit (rd p) then parse_number p al
      else Null al)"

text \<open>\<open>parse_items\<close> and \<open>parse_members\<close> are the loops of \<open>parse_array\<close> and \<open>parse_object\<close>, with the elements
  read so far and the capacity of the arrays. Their first argument is the recursive call.\<close>

type_synonym parser = "bytes \<Rightarrow> alloc \<Rightarrow> json_value result"

primrec parse_items :: "parser \<Rightarrow> nat \<Rightarrow> bytes \<Rightarrow> json_value list \<Rightarrow> nat \<Rightarrow> alloc \<Rightarrow> json_value result" where
  "parse_items pv 0 p items capacity al = OutOfFuel"
| "parse_items pv (Suc n) p items capacity al =
     (case pv (skip_whitespace p) al of
        Parsed v p al \<Rightarrow>
          (case grow_array (length items) capacity al of (ok, capacity, al) \<Rightarrow>
             if \<not> ok then Null (json_free (JSON_ARRAY items) (json_free v al))
             else let items = items @ [v]; p = skip_whitespace p
                  in if rd p = chr CHR '','' then parse_items pv n (tl p) items capacity al
                     else if rd p = chr CHR '']'' then Parsed (JSON_ARRAY items) (tl p) al
                     else Null (json_free (JSON_ARRAY items) al))
      | Null al \<Rightarrow> Null (json_free (JSON_ARRAY items) al)
      | Undefined \<Rightarrow> Undefined
      | OutOfFuel \<Rightarrow> OutOfFuel)"

definition parse_array :: "parser \<Rightarrow> nat \<Rightarrow> parser" where
  "parse_array pv n p al =
     (if rd p \<noteq> chr CHR ''['' then Null al
      else case al_alloc al of (ok, al) \<Rightarrow>
        if \<not> ok then Null al
        else case al_alloc al of (ok, al) \<Rightarrow>
          if \<not> ok then Null (al_free al)
          else let p = skip_whitespace (tl p)
               in if rd p = chr CHR '']'' then Parsed (JSON_ARRAY []) (tl p) al else parse_items pv n p [] 8 al)"

primrec parse_members ::
  "parser \<Rightarrow> nat \<Rightarrow> bytes \<Rightarrow> (bytes \<times> json_value) list \<Rightarrow> nat \<Rightarrow> alloc \<Rightarrow> json_value result" where
  "parse_members pv 0 p kvs capacity al = OutOfFuel"
| "parse_members pv (Suc n) p kvs capacity al =
     (case parse_string_raw (skip_whitespace p) al of
        Parsed key p al \<Rightarrow>
          (let p = skip_whitespace p
           in if rd p \<noteq> chr CHR '':'' then Null (json_free (JSON_OBJECT kvs) (al_free al))
              else case pv (skip_whitespace (tl p)) al of
                Parsed v p al \<Rightarrow>
                  (case grow_object (length kvs) capacity al of
                     (Stale, capacity, al) \<Rightarrow> Undefined
                   | (Refused, capacity, al) \<Rightarrow> Null (json_free (JSON_OBJECT kvs) (json_free v (al_free al)))
                   | (Grown, capacity, al) \<Rightarrow>
                       let kvs = kvs @ [(key, v)]; p = skip_whitespace p
                       in if rd p = chr CHR '','' then parse_members pv n (tl p) kvs capacity al
                          else if rd p = chr CHR ''}'' then Parsed (JSON_OBJECT kvs) (tl p) al
                          else Null (json_free (JSON_OBJECT kvs) al))
              | Null al \<Rightarrow> Null (json_free (JSON_OBJECT kvs) (al_free al))
              | Undefined \<Rightarrow> Undefined
              | OutOfFuel \<Rightarrow> OutOfFuel)
      | Null al \<Rightarrow> Null (json_free (JSON_OBJECT kvs) al)
      | Undefined \<Rightarrow> Undefined
      | OutOfFuel \<Rightarrow> OutOfFuel)"

definition parse_object :: "parser \<Rightarrow> nat \<Rightarrow> parser" where
  "parse_object pv n p al =
     (if rd p \<noteq> chr CHR ''{'' then Null al
      else case al_alloc al of (ok, al) \<Rightarrow>
        if \<not> ok then Null al
        else case al_alloc al of (ok_keys, al) \<Rightarrow>
        case al_alloc al of (ok_vals, al) \<Rightarrow>
          if \<not> ok_keys \<or> \<not> ok_vals
          then Null (al_free ((if ok_vals then al_free else id) ((if ok_keys then al_free else id) al)))
          else let p = skip_whitespace (tl p)
               in if rd p = chr CHR ''}'' then Parsed (JSON_OBJECT []) (tl p) al else parse_members pv n p [] 8 al)"

primrec parse_value :: "nat \<Rightarrow> parser" where
  "parse_value 0 = (\<lambda>p al. OutOfFuel)"
| "parse_value (Suc n) = (\<lambda>p al.
     let p = skip_whitespace p
     in if rd p = QUOTE then parse_string p al
        else if rd p = chr CHR ''{'' then parse_object (parse_value n) n p al
        else if rd p = chr CHR ''['' then parse_array (parse_value n) n p al
        else parse_literal p al)"

definition json_parse :: "bytes option \<Rightarrow> alloc \<Rightarrow> json_value result" where
  "json_parse text al =
     (case text of None \<Rightarrow> Null al | Some s \<Rightarrow> parse_value (length (cval s) + 1) (cval s) al)"

definition json_get :: "json_value option \<Rightarrow> bytes option \<Rightarrow> json_value option" where
  "json_get obj key =
     (case (obj, key) of
        (Some (JSON_OBJECT kvs), Some k) \<Rightarrow> map_option snd (find (\<lambda>kv. strcmp (fst kv) k = 0) kvs)
      | _ \<Rightarrow> None)"

definition json_get_string :: "json_value option \<Rightarrow> bytes option \<Rightarrow> bytes option" where
  "json_get_string obj key = (case json_get obj key of Some (JSON_STRING s) \<Rightarrow> Some s | _ \<Rightarrow> None)"

definition json_get_number :: "json_value option \<Rightarrow> bytes option \<Rightarrow> f64" where
  "json_get_number obj key = (case json_get obj key of Some (JSON_NUMBER x) \<Rightarrow> x | _ \<Rightarrow> Fin 0)"

definition json_get_bool :: "json_value option \<Rightarrow> bytes option \<Rightarrow> bool" where
  "json_get_bool obj key = (case json_get obj key of Some (JSON_BOOL b) \<Rightarrow> b | _ \<Rightarrow> False)"

section \<open>The parser returns and accounts for every block\<close>

text \<open>The blocks that a value occupies, which are those that \<open>json_free\<close> releases.\<close>

fun blocks :: "json_value \<Rightarrow> int" where
  "blocks (JSON_STRING s) = 2"
| "blocks (JSON_ARRAY vs) = 2 + sum_list (map blocks vs)"
| "blocks (JSON_OBJECT kvs) = 3 + sum_list (map (\<lambda>kv. 1 + blocks (snd kv)) kvs)"
| "blocks v = 1"

lemma al_free_live [simp]: "al_live (al_free al) = al_live al - 1"
  by (simp add: al_free_def)

lemma al_alloc_live: "al_alloc al = (ok, al') \<Longrightarrow> al_live al' = al_live al + (if ok then 1 else 0)"
  by (auto simp: al_alloc_def)

lemma grow_live [simp]:
  "grow_array c cap al = (ok, cap', al') \<Longrightarrow> al_live al' = al_live al"
  "grow_object c cap al = (g, cap', al') \<Longrightarrow> al_live al' = al_live al"
  by (auto simp: grow_array_def grow_object_def al_realloc_def split: if_splits)

lemma fold_live:
  "(\<And>x al. x \<in> set xs \<Longrightarrow> al_live (f x al) = al_live al - (g x :: int)) \<Longrightarrow> al_live (fold f xs al) = al_live al - sum_list (map g xs)"
  by (induction xs arbitrary: al) simp_all

lemma json_free_live [simp]: "al_live (json_free v al) = al_live al - blocks v"
proof (induction v arbitrary: al)
  case (JSON_ARRAY vs)
  then show ?case using fold_live [of vs json_free blocks al] by simp
next
  case (JSON_OBJECT kvs)
  have "al_live (json_free (snd kv) (al_free al)) = al_live al - (1 + blocks (snd kv))" if "kv \<in> set kvs" for kv al
    using JSON_OBJECT [OF that, of "snd kv"] by (cases kv) simp
  then show ?case using fold_live [of kvs "\<lambda>kv al. json_free (snd kv) (al_free al)" "\<lambda>kv. 1 + blocks (snd kv)" al] by simp
qed simp_all

declare json_free.simps [simp del]

text \<open>A parser started at a text of at most \<open>k\<close> bytes returns with \<open>b\<close> blocks in use, plus those of the value,
  and has consumed some of the text if there is a value.\<close>

definition returns :: "nat \<Rightarrow> int \<Rightarrow> json_value result \<Rightarrow> bool" where
  "returns k b r =
     (case r of OutOfFuel \<Rightarrow> False | Undefined \<Rightarrow> True | Null al \<Rightarrow> al_live al = b
      | Parsed v p al \<Rightarrow> length p < k \<and> al_live al = b + blocks v)"

lemma returns_simps [simp]:
  "\<not> returns k b OutOfFuel" "returns k b Undefined" "returns k b (Null al) \<longleftrightarrow> al_live al = b"
  "returns k b (Parsed v p al) \<longleftrightarrow> length p < k \<and> al_live al = b + blocks v"
  by (simp_all add: returns_def)

lemma returns_mono: "returns k b r \<Longrightarrow> k \<le> k' \<Longrightarrow> returns k' b r"
  by (auto simp: returns_def split: result.splits)

lemma skip_whitespace_length: "length (skip_whitespace p) \<le> length p"
  by (induction p) auto

lemma rd_nonempty: "rd p = c \<Longrightarrow> c \<noteq> 0 \<Longrightarrow> p \<noteq> []"
  by (auto simp: rd_def)

lemma tl_shorter: "rd p = c \<Longrightarrow> c \<noteq> 0 \<Longrightarrow> length (tl p) < length p"
  by (cases p) (auto simp: rd_def)

text \<open>The two passes over a string agree: the second one writes as many bytes as the first one counted.\<close>

lemma string_length_copy:
  "string_length p len = Some (n, q) \<Longrightarrow> length q \<le> length p \<and> (rd q = QUOTE \<longrightarrow> n = len + length (string_copy p))"
proof (induction p len rule: string_length.induct)
  case (1 len)
  then show ?case by (auto simp: rd_def)
next
  case (2 c p len)
  then show ?case by (auto split: if_splits dest: le_trans [OF _ diff_le_self])
qed

lemma parse_string_raw_returns:
  "parse_string_raw p al = Parsed s q al' \<Longrightarrow> length q < length p \<and> al_live al' = al_live al + 1"
  "parse_string_raw p al = Null al' \<Longrightarrow> al_live al' = al_live al"
  "parse_string_raw p al \<noteq> OutOfFuel"
proof -
  show "parse_string_raw p al \<noteq> OutOfFuel"
    by (auto simp: parse_string_raw_def split: option.splits prod.splits)
  show "al_live al' = al_live al" if "parse_string_raw p al = Null al'"
    using that by (auto simp: parse_string_raw_def split: option.splits prod.splits if_splits dest: al_alloc_live)
  assume a: "parse_string_raw p al = Parsed s q al'"
  then obtain n r where r: "rd p = QUOTE" "string_length (tl p) 0 = Some (n, r)" "rd r = QUOTE" "q = tl r" "al_alloc al = (True, al')"
    by (auto simp: parse_string_raw_def split: option.splits prod.splits if_splits)
  have "length q < length r" using tl_shorter [OF r(3)] r(4) by simp
  then show "length q < length p \<and> al_live al' = al_live al + 1"
    using string_length_copy [OF r(2)] al_alloc_live [OF r(5)] by auto
qed

lemma parse_string_returns: "returns (length p) (al_live al) (parse_string p al)"
  using parse_string_raw_returns [of p al]
  by (auto simp: parse_string_def split: result.splits prod.splits dest!: al_alloc_live)

lemma int_digits_length: "length (snd (int_digits n p)) \<le> length p"
  by (induction n p rule: int_digits.induct) auto

lemma frac_digits_length: "length (snd (frac_digits x y p)) \<le> length p"
  by (induction x y p rule: frac_digits.induct) auto

lemma alloc_value_returns: "length p < k \<Longrightarrow> blocks v = 1 \<Longrightarrow> returns k (al_live al) (alloc_value v p al)"
  by (auto simp: alloc_value_def split: prod.splits dest: al_alloc_live)

lemma scale_exp_length: "scale_exp r p = Some (x, q) \<Longrightarrow> length q \<le> length p"
proof -
  assume a: "scale_exp r p = Some (x, q)"
  define p' where "p' = (if rd p = chr CHR ''+'' then tl p else if rd p = chr CHR ''-'' then tl p else p)"
  have "q = snd (int_digits (Fin 0) p')"
    using a by (auto simp: scale_exp_def p'_def Let_def split: prod.splits f64.splits if_splits)
  moreover have "length p' \<le> length p" by (simp add: p'_def)
  ultimately show ?thesis using int_digits_length [of "Fin 0" p'] by simp
qed

text \<open>The text behind a number, as a function of the text before the exponent.\<close>

definition number_mantissa :: "bytes \<Rightarrow> f64 \<times> bytes" where
  "number_mantissa p =
     (let (s, p) = (if rd p = chr CHR ''-'' then (Fin (- 1), tl p) else (Fin 1, p));
          (integer, p) = int_digits (Fin 0) p;
          (fr, p) = (if rd p = chr CHR ''.'' then frac_digits (Fin 0) (f64_round (1 / 10)) (tl p) else (Fin 0, p))
      in (f64_mul s (f64_add integer fr), p))"

lemma parse_number_mantissa:
  "parse_number p al =
     (case number_mantissa p of (r, p) \<Rightarrow>
        case (if rd p = chr CHR ''e'' \<or> rd p = chr CHR ''E'' then scale_exp r (tl p) else Some (r, p)) of
          None \<Rightarrow> Undefined | Some (r, p) \<Rightarrow> alloc_value (JSON_NUMBER r) p al)"
  by (simp add: parse_number_def number_mantissa_def Let_def split: prod.splits)

lemma frac_part_length:
  "length (snd (if rd p = chr CHR ''.'' then frac_digits (Fin 0) x (tl p) else (Fin 0, p))) \<le> length p"
  using frac_digits_length [of "Fin 0" x "tl p"] by auto

lemma number_mantissa_length:
  assumes "rd p = chr CHR ''-'' \<or> is_digit (rd p)"
  shows "length (snd (number_mantissa p)) < length p"
proof -
  define q where "q = (if rd p = chr CHR ''-'' then tl p else p)"
  define r where "r = snd (int_digits (Fin 0) q)"
  have "rd p \<noteq> 0" using assms by auto
  then have "length (tl p) < length p" using tl_shorter by blast
  have "length r < length p"
  proof (cases "rd p = chr CHR ''-''")
    case True
    then show ?thesis using \<open>length (tl p) < length p\<close> int_digits_length [of "Fin 0" "tl p"] by (simp add: r_def q_def)
  next
    case False
    then obtain c p' where p: "p = c # p'" "is_digit c" using assms \<open>rd p \<noteq> 0\<close> by (cases p) (auto simp: rd_def)
    then show ?thesis using False int_digits_length [of _ p'] by (simp add: r_def q_def le_imp_less_Suc)
  qed
  moreover have "snd (number_mantissa p) =
      snd (if rd r = chr CHR ''.'' then frac_digits (Fin 0) (f64_round (1 / 10)) (tl r) else (Fin 0, r))"
    unfolding number_mantissa_def r_def q_def Let_def by (simp split: prod.splits)
  ultimately show ?thesis using frac_part_length [of r "f64_round (1 / 10)"] by simp
qed

lemma parse_number_returns:
  assumes "rd p = chr CHR ''-'' \<or> is_digit (rd p)"
  shows "returns (length p) (al_live al) (parse_number p al)"
proof -
  obtain r q where m: "number_mantissa p = (r, q)" by (cases "number_mantissa p")
  have q: "length q < length p" using number_mantissa_length [OF assms] m by simp
  have "length q' \<le> length (tl q)" if "scale_exp r (tl q) = Some (x, q')" for x q' using scale_exp_length [OF that] .
  then show ?thesis using q unfolding parse_number_mantissa m
    by (auto split: option.splits intro!: alloc_value_returns)
qed

lemma parse_literal_returns: "returns (length p) (al_live al) (parse_literal p al)"
proof (cases p)
  case Nil
  then show ?thesis by (simp add: parse_literal_def str_def rd_def)
next
  case (Cons c q)
  then have "length (drop 4 p) < length p" "length (drop 5 p) < length p" by simp_all
  then show ?thesis unfolding parse_literal_def
    using parse_number_returns [of p al] by (simp add: alloc_value_returns del: length_drop drop_append)
qed

text \<open>A recursive call that returns on texts of at most \<open>k\<close> bytes.\<close>

definition sound_upto :: "nat \<Rightarrow> parser \<Rightarrow> bool" where
  "sound_upto k pv \<longleftrightarrow> (\<forall>p al. length p \<le> k \<longrightarrow> returns (length p) (al_live al) (pv p al))"

lemma sound_uptoD: "sound_upto k pv \<Longrightarrow> length p \<le> k \<Longrightarrow> returns (length p) (al_live al) (pv p al)"
  by (simp add: sound_upto_def)

lemma parse_items_returns:
  assumes "sound_upto k pv" "length p \<le> k" "length p < n"
  shows "returns (length p) (al_live al - blocks (JSON_ARRAY items)) (parse_items pv n p items capacity al)"
  using assms(2,3)
proof (induction n arbitrary: p items capacity al)
  case (Suc n)
  note ws = skip_whitespace_length [of p]
  have pv: "returns (length p) (al_live al) (pv (skip_whitespace p) al)"
    using sound_uptoD [OF assms(1), of "skip_whitespace p" al] ws Suc.prems(1) by (blast intro: returns_mono le_trans)
  show ?case
  proof (cases "pv (skip_whitespace p) al")
    case (Parsed v q al1)
    with pv have q: "length q < length p" and live: "al_live al1 = al_live al + blocks v" by simp_all
    obtain ok cap al2 where g: "grow_array (length items) capacity al1 = (ok, cap, al2)" by (cases "grow_array (length items) capacity al1")
    let ?q = "skip_whitespace q"
    have wq: "length ?q \<le> length q" by (rule skip_whitespace_length)
    have "returns (length (tl ?q)) (al_live al2 - blocks (JSON_ARRAY (items @ [v]))) (parse_items pv n (tl ?q) (items @ [v]) cap al2)"
      by (rule Suc.IH) (use q wq Suc.prems in auto)
    then have "returns (length p) (al_live al - blocks (JSON_ARRAY items)) (parse_items pv n (tl ?q) (items @ [v]) cap al2)"
      using q wq live grow_live(1) [OF g] by (auto intro: returns_mono simp: algebra_simps)
    then show ?thesis using q wq live grow_live(1) [OF g] by (auto simp: Parsed g Let_def)
  qed (use pv in simp_all)
qed simp

lemma parse_members_returns:
  assumes "sound_upto k pv" "length p \<le> k" "length p < n"
  shows "returns (length p) (al_live al - blocks (JSON_OBJECT kvs)) (parse_members pv n p kvs capacity al)"
  using assms(2,3)
proof (induction n arbitrary: p kvs capacity al)
  case (Suc n)
  note ws = skip_whitespace_length [of p] and key = parse_string_raw_returns [of "skip_whitespace p" al]
  show ?case
  proof (cases "parse_string_raw (skip_whitespace p) al")
    case (Parsed s r al0)
    then have r: "length r < length p" and live0: "al_live al0 = al_live al + 1" using key(1) ws by fastforce+
    define r' where "r' = skip_whitespace (tl (skip_whitespace r))"
    have r': "length r' \<le> length r"
      using skip_whitespace_length [of "tl (skip_whitespace r)"] skip_whitespace_length [of r] unfolding r'_def by simp
    have pv: "returns (length r') (al_live al0) (pv r' al0)" by (rule sound_uptoD [OF assms(1)]) (use r r' Suc.prems in simp)
    show ?thesis
    proof (cases "pv r' al0")
      case (Parsed v q al1)
      with pv have q: "length q < length r'" and live: "al_live al1 = al_live al0 + blocks v" by simp_all
      obtain g cap al2 where g: "grow_object (length kvs) capacity al1 = (g, cap, al2)" by (cases "grow_object (length kvs) capacity al1")
      let ?q = "skip_whitespace q"
      have wq: "length ?q \<le> length q" by (rule skip_whitespace_length)
      have "returns (length (tl ?q)) (al_live al2 - blocks (JSON_OBJECT (kvs @ [(s, v)]))) (parse_members pv n (tl ?q) (kvs @ [(s, v)]) cap al2)"
        by (rule Suc.IH) (use q wq r r' Suc.prems in auto)
      then have "returns (length p) (al_live al - blocks (JSON_OBJECT kvs)) (parse_members pv n (tl ?q) (kvs @ [(s, v)]) cap al2)"
        using q wq r r' live live0 grow_live(2) [OF g] by (auto intro: returns_mono simp: algebra_simps)
      then show ?thesis using q wq r r' live live0 grow_live(2) [OF g] \<open>parse_string_raw (skip_whitespace p) al = Parsed s r al0\<close> Parsed
        by (cases g) (auto simp: g Let_def r'_def)
    qed (use pv live0 \<open>parse_string_raw (skip_whitespace p) al = Parsed s r al0\<close> in \<open>simp_all add: Let_def r'_def\<close>)
  next
    case (Null al0)
    then show ?thesis using key(2) by simp
  qed (use key(3) in simp_all)
qed simp

lemma parse_array_returns:
  assumes "sound_upto k pv" "length p \<le> Suc k" "length p \<le> n"
  shows "returns (length p) (al_live al) (parse_array pv n p al)"
proof (cases "rd p = chr CHR ''[''")
  case True
  then have tl: "length (tl p) < length p" by (rule tl_shorter) simp
  define q where "q = skip_whitespace (tl p)"
  have q: "length q < length p" using skip_whitespace_length [of "tl p"] tl unfolding q_def by simp
  have items: "returns (length p) (al_live al2 - 2) (parse_items pv n q [] 8 al2)" for al2
    using parse_items_returns [OF assms(1), of q n al2 "[]" 8] q assms(2,3) by (auto intro: returns_mono)
  obtain ok1 al1 where a1: "al_alloc al = (ok1, al1)" by (cases "al_alloc al")
  obtain ok2 al2 where a2: "al_alloc al1 = (ok2, al2)" by (cases "al_alloc al1")
  show ?thesis unfolding parse_array_def a1 a2 q_def [symmetric] Let_def
    using True q items [of al2] al_alloc_live [OF a1] al_alloc_live [OF a2] by (auto simp: a2)
qed (simp add: parse_array_def)

lemma parse_object_returns:
  assumes "sound_upto k pv" "length p \<le> Suc k" "length p \<le> n"
  shows "returns (length p) (al_live al) (parse_object pv n p al)"
proof (cases "rd p = chr CHR ''{''")
  case True
  then have tl: "length (tl p) < length p" by (rule tl_shorter) simp
  define q where "q = skip_whitespace (tl p)"
  have q: "length q < length p" using skip_whitespace_length [of "tl p"] tl unfolding q_def by simp
  have members: "returns (length p) (al_live al3 - 3) (parse_members pv n q [] 8 al3)" for al3
    using parse_members_returns [OF assms(1), of q n al3 "[]" 8] q assms(2,3) by (auto intro: returns_mono)
  obtain ok1 al1 where a1: "al_alloc al = (ok1, al1)" by (cases "al_alloc al")
  obtain ok2 al2 where a2: "al_alloc al1 = (ok2, al2)" by (cases "al_alloc al1")
  obtain ok3 al3 where a3: "al_alloc al2 = (ok3, al3)" by (cases "al_alloc al2")
  show ?thesis unfolding parse_object_def a1 q_def [symmetric] Let_def
    using True q members [of al3] al_alloc_live [OF a1] al_alloc_live [OF a2] al_alloc_live [OF a3] by (auto simp: a2 a3)
qed (simp add: parse_object_def)

lemma parse_value_sound: "sound_upto n (parse_value (Suc n))"
proof (induction n)
  case 0
  then show ?case by (auto simp: sound_upto_def rd_def parse_literal_def alloc_value_def str_def)
next
  case (Suc n)
  have "returns (length p) (al_live al) (parse_value (Suc (Suc n)) p al)" if "length p \<le> Suc n" for p al
  proof -
    define q where "q = skip_whitespace p"
    have q: "length q \<le> length p" unfolding q_def by (rule skip_whitespace_length)
    have "returns (length q) (al_live al) (parse_value (Suc (Suc n)) p al)"
      using parse_string_returns [of q al] parse_literal_returns [of q al] q that
        parse_object_returns [OF Suc, of q "Suc n" al] parse_array_returns [OF Suc, of q "Suc n" al]
      unfolding parse_value.simps(2) [of "Suc n"] q_def [symmetric] Let_def by (simp del: parse_value.simps)
    then show ?thesis using q by (rule returns_mono)
  qed
  then show ?case by (simp add: sound_upto_def del: parse_value.simps)
qed

lemma json_parse_returns:
  "case json_parse s al of OutOfFuel \<Rightarrow> False | Undefined \<Rightarrow> True | Null al' \<Rightarrow> al_live al' = al_live al
   | Parsed v p al' \<Rightarrow> al_live al' = al_live al + blocks v"
proof (cases s)
  case (Some q)
  have "returns (length (cval q)) (al_live al) (parse_value (Suc (length (cval q))) (cval q) al)"
    by (rule sound_uptoD [OF parse_value_sound]) simp
  then show ?thesis using Some by (simp add: json_parse_def returns_def del: parse_value.simps split: result.splits)
qed (simp add: json_parse_def)

section \<open>Integers are read exactly\<close>

lemma round_half_even_nat: "round_half_even (of_nat n) = n"
  by (simp add: round_half_even_def Let_def)

lemma f64_exp_le:
  assumes "n < 2 ^ 53"
  shows "f64_exp (of_nat n) \<le> 52"
proof (cases "scan (\<lambda>i. 2 powi (1023 - int i) \<le> (of_nat n :: rat)) 0 2046")
  case None
  then show ?thesis by (simp add: f64_exp_def)
next
  case (Some i)
  have le: "2 powi (1023 - int i) \<le> (of_nat n :: rat)" using scan_SomeD [OF Some] by simp
  have "(of_nat n :: rat) < of_nat (2 ^ 53)" using assms by (simp only: of_nat_less_iff)
  then have "(of_nat n :: rat) < 2 powi 53" by (simp add: power_int_def)
  then have "\<not> 53 \<le> 1023 - int i" using le powi_le [of 53 "1023 - int i"] by linarith
  then show ?thesis by (simp add: f64_exp_def Some)
qed

lemma f64_mag_nat:
  assumes "n < 2 ^ 53"
  shows "f64_mag (of_nat n) = of_nat n"
proof -
  define e where "e = f64_exp (of_nat n)"
  define k where "k = nat (52 - e)"
  have e: "e - 52 = - int k" using f64_exp_le [OF assms] by (simp add: e_def k_def)
  have p: "(2::rat) powi (e - 52) = 1 / 2 ^ k" unfolding e by (simp add: power_int_minus inverse_eq_divide)
  have "of_nat n / (2::rat) powi (e - 52) = of_nat (n * 2 ^ k)" unfolding p by simp
  then show ?thesis unfolding f64_mag_def e_def [symmetric] by (simp add: round_half_even_nat p del: of_nat_mult) simp
qed

lemma f64_round_int:
  assumes "\<bar>i\<bar> < 2 ^ 53"
  shows "f64_round (of_int i) = Fin (of_int i)"
proof -
  have n: "\<bar>of_int i :: rat\<bar> = of_nat (nat \<bar>i\<bar>)" by simp
  have "nat \<bar>i\<bar> < 2 ^ 53" using assms by simp
  note m = f64_mag_nat [OF this]
  have "(of_nat (nat \<bar>i\<bar>) :: rat) < of_nat (2 ^ 53)" using \<open>nat \<bar>i\<bar> < 2 ^ 53\<close> by (simp only: of_nat_less_iff)
  also have "of_nat (2 ^ 53) \<le> (2 ^ 1024 :: rat)" by simp
  finally have "\<not> 2 ^ 1024 \<le> (of_nat (nat \<bar>i\<bar>) :: rat)" by simp
  then show ?thesis unfolding f64_round_def n m Let_def by simp
qed

lemma f64_round_nat: "n < 2 ^ 53 \<Longrightarrow> f64_round (of_nat n) = Fin (of_nat n)"
  using f64_round_int [of "int n"] by simp

definition ends :: "bytes \<Rightarrow> bool" where
  "ends r \<longleftrightarrow> \<not> is_digit (rd r) \<and> rd r \<noteq> 46 \<and> rd r \<noteq> 101 \<and> rd r \<noteq> 69"

lemma lo_digit: "d < 10 \<Longrightarrow> lo_digits ! d = of_nat (48 + d)"
proof -
  assume "d < 10"
  then have "d \<in> {0, 1, 2, 3, 4, 5, 6, 7, 8, 9}" by auto
  then show ?thesis by (auto simp: str_def)
qed

lemma digit_word:
  assumes "d < 10"
  shows "is_digit (of_nat (48 + d) :: u8)" "unat (of_nat (48 + d) - 48 :: u8) = d"
proof -
  have "d \<in> {0, 1, 2, 3, 4, 5, 6, 7, 8, 9}" using assms by auto
  then show "is_digit (of_nat (48 + d) :: u8)" "unat (of_nat (48 + d) - 48 :: u8) = d" by auto
qed

lemma foldl_dec_le: "a \<le> foldl (\<lambda>v d. v * 10 + d) (a :: nat) ds"
proof (induction ds arbitrary: a)
  case (Cons d ds)
  have "a \<le> a * 10 + d" by simp
  then show ?case using Cons [of "a * 10 + d"] by simp
qed simp

lemma int_digits_exact:
  assumes "\<forall>d \<in> set ds. d < 10" "foldl (\<lambda>v d. v * 10 + d) a ds < 2 ^ 53" "\<not> is_digit (rd r)"
  shows "int_digits (Fin (of_nat a)) (map ((!) lo_digits) ds @ r) = (Fin (of_nat (foldl (\<lambda>v d. v * 10 + d) a ds)), r)"
  using assms(1,2)
proof (induction ds arbitrary: a)
  case Nil
  then show ?case using assms(3) by (cases r) (auto simp: rd_def)
next
  case (Cons d ds)
  have d: "d < 10" using Cons.prems by simp
  have le: "a * 10 + d < 2 ^ 53" using Cons.prems(2) foldl_dec_le [of "a * 10 + d" ds] by simp
  have m: "f64_mul (Fin (of_nat a)) (Fin 10) = Fin (of_nat (a * 10))" using f64_round_nat [of "a * 10"] le by simp
  have "f64_add (Fin (of_nat (a * 10))) (Fin (of_nat d)) = Fin (of_nat (a * 10 + d))" using f64_round_nat [OF le] by simp
  then have step: "int_digits (Fin (of_nat a)) (map ((!) lo_digits) (d # ds) @ r) =
      int_digits (Fin (of_nat (a * 10 + d))) (map ((!) lo_digits) ds @ r)"
    by (simp only: list.map append_Cons int_digits.simps lo_digit [OF d] digit_word [OF d] m if_True simp_thms)
  have "int_digits (Fin (of_nat (a * 10 + d))) (map ((!) lo_digits) ds @ r) =
      (Fin (of_nat (foldl (\<lambda>v d. v * 10 + d) (a * 10 + d) ds)), r)" by (rule Cons.IH) (use Cons.prems in simp_all)
  then show ?case unfolding step by simp
qed

section \<open>Printing and parsing\<close>

text \<open>The text of a value, without white space. Numbers are integers.\<close>

definition escape :: "bytes \<Rightarrow> bytes" where
  "escape s = concat (map (\<lambda>c. if c = QUOTE \<or> c = BACKSLASH then [BACKSLASH, c] else [c]) s)"

definition quoted :: "bytes \<Rightarrow> bytes" where
  "quoted s = QUOTE # escape s @ [QUOTE]"

definition int_dec :: "int \<Rightarrow> bytes" where
  "int_dec i = (if i < 0 then chr CHR ''-'' # num_text 10 False (nat (- i)) else num_text 10 False (nat i))"

fun commas :: "bytes list \<Rightarrow> bytes" where
  "commas [] = []"
| "commas [x] = x"
| "commas (x # xs) = x @ chr CHR '','' # commas xs"

fun json_text :: "json_value \<Rightarrow> bytes" where
  "json_text JSON_NULL = str ''null''"
| "json_text (JSON_BOOL b) = (if b then str ''true'' else str ''false'')"
| "json_text (JSON_NUMBER x) = (case x of Fin q \<Rightarrow> int_dec \<lfloor>q\<rfloor> | _ \<Rightarrow> [])"
| "json_text (JSON_STRING s) = quoted s"
| "json_text (JSON_ARRAY vs) = chr CHR ''['' # commas (map json_text vs) @ [chr CHR '']'']"
| "json_text (JSON_OBJECT kvs) =
     chr CHR ''{'' # commas (map (\<lambda>kv. quoted (fst kv) @ chr CHR '':'' # json_text (snd kv)) kvs) @ [chr CHR ''}'']"

text \<open>Values whose numbers are integers below \<open>2 ^ 53\<close> in magnitude and whose strings are C strings.\<close>

fun json_ok :: "json_value \<Rightarrow> bool" where
  "json_ok (JSON_NUMBER x) = (case x of Fin q \<Rightarrow> q = of_int \<lfloor>q\<rfloor> \<and> \<bar>\<lfloor>q\<rfloor>\<bar> < 2 ^ 53 | _ \<Rightarrow> False)"
| "json_ok (JSON_STRING s) = (0 \<notin> set s)"
| "json_ok (JSON_ARRAY vs) = (\<forall>v \<in> set vs. json_ok v)"
| "json_ok (JSON_OBJECT kvs) = (\<forall>kv \<in> set kvs. 0 \<notin> set (fst kv) \<and> json_ok (snd kv))"
| "json_ok _ = True"

definition plenty :: "alloc \<Rightarrow> bool" where
  "plenty al \<longleftrightarrow> (\<forall>i. al_ok al i)"

lemma plenty_alloc: "plenty al \<Longrightarrow> \<exists>al'. al_alloc al = (True, al') \<and> plenty al'"
  by (simp add: plenty_def al_alloc_def)

lemma plenty_grow:
  "plenty al \<Longrightarrow> \<exists>cap al'. grow_array c k al = (True, cap, al') \<and> plenty al'"
  "plenty al \<Longrightarrow> \<exists>cap al'. grow_object c k al = (Grown, cap, al') \<and> plenty al'"
  by (simp_all add: plenty_def grow_array_def grow_object_def al_realloc_def)

lemma escape_simps: "escape [] = []" "escape (c # s) = (if c = QUOTE \<or> c = BACKSLASH then [BACKSLASH, c] else [c]) @ escape s"
  by (simp_all add: escape_def)

lemma string_length_escape: "string_length (escape s @ QUOTE # r) len = Some (len + length s, QUOTE # r)"
  by (induction s arbitrary: len) (simp_all add: escape_simps rd_def)

lemma string_copy_escape: "string_copy (escape s @ QUOTE # r) = s"
  by (induction s) (simp_all add: escape_simps rd_def unescape_def)

lemma parse_quoted: "plenty al \<Longrightarrow> \<exists>al'. parse_string_raw (quoted s @ r) al = Parsed s r al' \<and> plenty al'"
  using plenty_alloc [of al]
  by (auto simp: parse_string_raw_def quoted_def string_length_escape string_copy_escape rd_def)

lemma num_text_start: "\<exists>c s. num_text 10 False n = c # s \<and> is_digit c"
proof -
  obtain d ds where ds: "nat_digits 10 n = d # ds" by (cases "nat_digits 10 n") simp_all
  then have "d < 10" using nat_digits_less [of 10 d n] by simp
  then show ?thesis using ds digit_word(1) [of d] by (simp add: num_text_def lo_digit)
qed

lemma nat_dec_exact:
  assumes "n < 2 ^ 53" "ends r"
  shows "int_digits (Fin 0) (num_text 10 False n @ r) = (Fin (of_nat n), r)"
  using int_digits_exact [of "nat_digits 10 n" 0 r] nat_digits_less [of 10 _ n] digits_value_nat_digits [of 10 n] assms
  by (simp add: num_text_def digits_value_def ends_def)

lemma mantissa_int:
  assumes "\<bar>i\<bar> < 2 ^ 53" "ends r"
  shows "number_mantissa (int_dec i @ r) = (Fin (of_int i), r)"
proof -
  obtain c s where cs: "num_text 10 False (nat i) = c # s" "is_digit c" using num_text_start by blast
  have dot: "rd r \<noteq> 46" using assms(2) by (simp add: ends_def)
  have n: "nat \<bar>i\<bar> < 2 ^ 53" using assms(1) by simp
  have exact: "f64_add (Fin (of_nat (nat \<bar>i\<bar>))) (Fin 0) = Fin (of_nat (nat \<bar>i\<bar>))" using f64_round_nat [OF n] by simp
  show ?thesis
  proof (cases "i < 0")
    case True
    have "f64_mul (Fin (- 1)) (Fin (of_nat (nat \<bar>i\<bar>))) = Fin (of_int i)" using f64_round_int [OF assms(1)] True by simp
    then show ?thesis using True nat_dec_exact [OF n assms(2)] dot exact
      by (simp add: number_mantissa_def int_dec_def rd_def Let_def)
  next
    case False
    have "f64_mul (Fin 1) (Fin (of_nat (nat \<bar>i\<bar>))) = Fin (of_int i)" using f64_round_int [OF assms(1)] False by simp
    moreover have "rd (num_text 10 False (nat i) @ r) \<noteq> 45" using cs by (auto simp: rd_def)
    ultimately show ?thesis using False nat_dec_exact [OF n assms(2)] dot exact
      by (simp add: number_mantissa_def int_dec_def Let_def)
  qed
qed

lemma int_dec_start: "\<exists>c s. int_dec i = c # s \<and> (c = 45 \<or> is_digit c)"
  using num_text_start [of "nat i"] by (auto simp: int_dec_def)

text \<open>The first byte of a text, which is never white space and selects the right parser.\<close>

lemma digit_not_letter: "is_digit c \<Longrightarrow> c \<notin> {0, 9, 10, 13, 32, 34, 91, 102, 110, 116, 123 :: u8}"
  by auto

lemma parse_int:
  assumes "\<bar>i\<bar> < 2 ^ 53" "ends r" "plenty al"
  shows "\<exists>al'. parse_value (Suc n) (int_dec i @ r) al = Parsed (JSON_NUMBER (Fin (of_int i))) r al' \<and> plenty al'"
proof -
  obtain c s where cs: "int_dec i @ r = c # s" "c = 45 \<or> is_digit c" using int_dec_start [of i] by auto
  have c: "c \<notin> {0, 9, 10, 13, 32, 34, 91, 102, 110, 116, 123}" using cs(2) digit_not_letter [of c] by auto
  have "parse_value (Suc n) (int_dec i @ r) al = parse_number (int_dec i @ r) al"
    using c cs(2) unfolding cs(1) by (auto simp: rd_def parse_literal_def str_def Let_def)
  also have "\<dots> = alloc_value (JSON_NUMBER (Fin (of_int i))) r al"
    using mantissa_int [OF assms(1,2)] assms(2) by (simp add: parse_number_mantissa ends_def)
  finally show ?thesis using plenty_alloc [OF assms(3)] by (auto simp: alloc_value_def)
qed

lemma text_start:
  assumes "json_ok v"
  shows "\<exists>c s. json_text v = c # s \<and> c \<notin> {9, 10, 13, 32, 93, 125}"
proof (cases v)
  case (JSON_NUMBER x)
  then show ?thesis using assms int_dec_start digit_not_letter by (cases x) fastforce+
qed (simp_all add: str_def quoted_def)

lemma skip_text: "json_ok v \<Longrightarrow> skip_whitespace (json_text v @ r) = json_text v @ r"
  using text_start [of v] by auto

lemma skip_quoted: "skip_whitespace (quoted s @ r) = quoted s @ r"
  by (simp add: quoted_def)

definition reads :: "parser \<Rightarrow> json_value \<Rightarrow> bool" where
  "reads pv v \<longleftrightarrow> (\<forall>r al. ends r \<longrightarrow> plenty al \<longrightarrow> (\<exists>al'. pv (json_text v @ r) al = Parsed v r al' \<and> plenty al'))"

lemma readsD: "reads pv v \<Longrightarrow> ends r \<Longrightarrow> plenty al \<Longrightarrow> \<exists>al'. pv (json_text v @ r) al = Parsed v r al' \<and> plenty al'"
  by (simp add: reads_def)

lemma ends_delim: "c \<in> {44, 93, 125} \<Longrightarrow> ends (c # r)"
  by (auto simp: ends_def rd_def)

lemma parse_items_text:
  assumes "\<forall>v \<in> set vs. reads pv v \<and> json_ok v" "vs \<noteq> []" "length vs \<le> n" "plenty al"
  shows "\<exists>al'. parse_items pv n (commas (map json_text vs) @ chr CHR '']'' # r) items cap al
    = Parsed (JSON_ARRAY (items @ vs)) r al' \<and> plenty al'"
  using assms
proof (induction vs arbitrary: n items cap al)
  case (Cons v vs)
  obtain m where n: "n = Suc m" "length vs \<le> m" using Cons.prems(3) by (cases n) simp_all
  show ?case
  proof (cases vs)
    case Nil
    obtain al1 where v: "pv (json_text v @ chr CHR '']'' # r) al = Parsed v (chr CHR '']'' # r) al1" "plenty al1"
      using readsD [of pv v "chr CHR '']'' # r" al] Cons.prems ends_delim by auto
    obtain cap' al2 where "grow_array (length items) cap al1 = (True, cap', al2)" "plenty al2" using plenty_grow(1) [OF v(2)] by blast
    then show ?thesis using v(1) skip_text [of v] Cons.prems(1) by (simp add: n Nil rd_def Let_def)
  next
    case (Cons w ws)
    let ?t = "commas (map json_text vs) @ chr CHR '']'' # r"
    obtain al1 where v: "pv (json_text v @ chr CHR '','' # ?t) al = Parsed v (chr CHR '','' # ?t) al1" "plenty al1"
      using readsD [of pv v "chr CHR '','' # ?t" al] Cons.prems ends_delim by auto
    obtain cap' al2 where g: "grow_array (length items) cap al1 = (True, cap', al2)" "plenty al2" using plenty_grow(1) [OF v(2)] by blast
    have "\<exists>al'. parse_items pv m ?t (items @ [v]) cap' al2 = Parsed (JSON_ARRAY ((items @ [v]) @ vs)) r al' \<and> plenty al'"
      by (rule Cons.IH) (use Cons Cons.prems n g in simp_all)
    then show ?thesis using v(1) g skip_text [of v] Cons.prems(1) by (simp add: n Cons rd_def Let_def)
  qed
qed simp

abbreviation member_text :: "bytes \<times> json_value \<Rightarrow> bytes" where
  "member_text kv \<equiv> quoted (fst kv) @ chr CHR '':'' # json_text (snd kv)"

text \<open>One member: the key, the colon and the value.\<close>

lemma parse_member_step:
  assumes "reads pv v" "json_ok v" "plenty al" "ends r"
  shows "\<exists>cap' al'. plenty al' \<and> parse_members pv (Suc m) (member_text (k, v) @ r) kvs cap al =
    (let p = skip_whitespace r
     in if rd p = chr CHR '','' then parse_members pv m (tl p) (kvs @ [(k, v)]) cap' al'
        else if rd p = chr CHR ''}'' then Parsed (JSON_OBJECT (kvs @ [(k, v)])) (tl p) al'
        else Null (json_free (JSON_OBJECT (kvs @ [(k, v)])) al'))"
proof -
  obtain al1 where key: "parse_string_raw (quoted k @ chr CHR '':'' # json_text v @ r) al = Parsed k (chr CHR '':'' # json_text v @ r) al1" "plenty al1"
    using parse_quoted [OF assms(3)] by blast
  obtain al2 where v: "pv (json_text v @ r) al1 = Parsed v r al2" "plenty al2" using readsD [OF assms(1,4) key(2)] by blast
  obtain cap' al3 where g: "grow_object (length kvs) cap al2 = (Grown, cap', al3)" "plenty al3" using plenty_grow(2) [OF v(2)] by blast
  show ?thesis using key(1) v(1) g skip_text [OF assms(2)] by (intro exI [of _ cap'] exI [of _ al3]) (simp add: skip_quoted rd_def Let_def)
qed

lemma parse_members_text:
  assumes "\<forall>kv \<in> set ms. reads pv (snd kv) \<and> json_ok (snd kv)" "ms \<noteq> []" "length ms \<le> n" "plenty al"
  shows "\<exists>al'. parse_members pv n (commas (map member_text ms) @ chr CHR ''}'' # r) kvs cap al
    = Parsed (JSON_OBJECT (kvs @ ms)) r al' \<and> plenty al'"
  using assms
proof (induction ms arbitrary: n kvs cap al)
  case (Cons kv ms)
  obtain k v where kv: "kv = (k, v)" by (cases kv)
  obtain m where n: "n = Suc m" "length ms \<le> m" using Cons.prems(3) by (cases n) simp_all
  have v: "reads pv v" "json_ok v" using Cons.prems(1) kv by simp_all
  show ?case
  proof (cases ms)
    case Nil
    then show ?thesis using parse_member_step [OF v Cons.prems(4) ends_delim [of 125 r], of m k kvs cap]
      by (auto simp: n kv rd_def Let_def)
  next
    case (Cons w ws)
    let ?t = "commas (map member_text ms) @ chr CHR ''}'' # r"
    obtain cap' al' where s: "plenty al'" "parse_members pv (Suc m) (member_text (k, v) @ chr CHR '','' # ?t) kvs cap al =
        parse_members pv m ?t (kvs @ [(k, v)]) cap' al'"
      using parse_member_step [OF v Cons.prems(4) ends_delim [of 44 ?t], of m k kvs cap] by (auto simp: rd_def Let_def)
    have "\<exists>al''. parse_members pv m ?t (kvs @ [(k, v)]) cap' al' = Parsed (JSON_OBJECT ((kvs @ [(k, v)]) @ ms)) r al'' \<and> plenty al''"
      by (rule Cons.IH) (use Cons Cons.prems n s(1) in simp_all)
    then show ?thesis using s(2) by (simp add: n kv Cons)
  qed
qed simp

lemma commas_length: "x \<in> set xs \<Longrightarrow> length x \<le> length (commas xs)" "\<forall>x \<in> set xs. x \<noteq> [] \<Longrightarrow> length xs \<le> length (commas xs)"
proof -
  show "length x \<le> length (commas xs)" if "x \<in> set xs" using that by (induction xs rule: commas.induct) auto
  show "length xs \<le> length (commas xs)" if "\<forall>x \<in> set xs. x \<noteq> []"
    using that
  proof (induction xs rule: commas.induct)
    case (2 x)
    then show ?case by (cases x) simp_all
  next
    case (3 x y ys)
    then show ?case by (cases x) simp_all
  qed simp
qed

lemma json_text_nonempty: "json_ok v \<Longrightarrow> json_text v \<noteq> []"
  using text_start by fastforce

lemma commas_start:
  assumes "xs \<noteq> []" "hd xs = c # s"
  shows "\<exists>s. commas xs = c # s"
  using assms by (cases xs rule: commas.cases) auto

lemma parse_array_text:
  assumes "\<forall>v \<in> set vs. reads (parse_value m) v \<and> json_ok v" "length vs \<le> m"
  shows "reads (parse_value (Suc m)) (JSON_ARRAY vs)"
  unfolding reads_def
proof (intro allI impI)
  fix r al assume "plenty al"
  then obtain al1 al2 where a: "al_alloc al = (True, al1)" "al_alloc al1 = (True, al2)" "plenty al2" using plenty_alloc by blast
  let ?t = "commas (map json_text vs) @ chr CHR '']'' # r"
  have arr: "parse_value (Suc m) (json_text (JSON_ARRAY vs) @ r) al = parse_array (parse_value m) m (chr CHR ''['' # ?t) al"
    by (simp add: rd_def Let_def)
  show "\<exists>al'. parse_value (Suc m) (json_text (JSON_ARRAY vs) @ r) al = Parsed (JSON_ARRAY vs) r al' \<and> plenty al'"
  proof (cases vs)
    case Nil
    then show ?thesis unfolding arr using a by (simp add: parse_array_def rd_def)
  next
    case (Cons v ws)
    obtain c s where c: "json_text v = c # s" "c \<notin> {9, 10, 13, 32, 93, 125}" using text_start [of v] assms(1) Cons by auto
    then obtain s' where "commas (map json_text vs) = c # s'" using commas_start [of "map json_text vs" c s] Cons by auto
    then have "skip_whitespace ?t = ?t" "rd ?t \<noteq> chr CHR '']''" using c(2) by (auto simp: rd_def)
    then show ?thesis unfolding arr
      using a parse_items_text [OF assms(1) _ assms(2), of al2 r "[]" 8] Cons by (simp add: parse_array_def Let_def) (simp add: rd_def)
  qed
qed

lemma parse_object_text:
  assumes "\<forall>kv \<in> set kvs. reads (parse_value m) (snd kv) \<and> json_ok (snd kv)" "length kvs \<le> m"
  shows "reads (parse_value (Suc m)) (JSON_OBJECT kvs)"
  unfolding reads_def
proof (intro allI impI)
  fix r al assume "plenty al"
  then obtain al1 al2 al3 where a: "al_alloc al = (True, al1)" "al_alloc al1 = (True, al2)" "al_alloc al2 = (True, al3)" "plenty al3"
    using plenty_alloc by blast
  let ?t = "commas (map member_text kvs) @ chr CHR ''}'' # r"
  have obj: "parse_value (Suc m) (json_text (JSON_OBJECT kvs) @ r) al = parse_object (parse_value m) m (chr CHR ''{'' # ?t) al"
    by (simp add: rd_def Let_def)
  show "\<exists>al'. parse_value (Suc m) (json_text (JSON_OBJECT kvs) @ r) al = Parsed (JSON_OBJECT kvs) r al' \<and> plenty al'"
  proof (cases kvs)
    case Nil
    then show ?thesis unfolding obj using a by (simp add: parse_object_def rd_def)
  next
    case (Cons kv ws)
    obtain s' where "commas (map member_text kvs) = QUOTE # s'"
      using commas_start [of "map member_text kvs" QUOTE] Cons by (auto simp: quoted_def)
    then have "skip_whitespace ?t = ?t" "rd ?t \<noteq> chr CHR ''}''" by (auto simp: rd_def)
    then show ?thesis unfolding obj
      using a parse_members_text [OF assms(1) _ assms(2), of al3 r "[]" 8] Cons by (simp add: parse_object_def Let_def) (simp add: rd_def)
  qed
qed

lemma parse_string_text: "reads (parse_value (Suc m)) (JSON_STRING s)"
  unfolding reads_def
proof (intro allI impI)
  fix r al assume al: "plenty al"
  obtain al1 where r1: "parse_string_raw (quoted s @ r) al = Parsed s r al1" "plenty al1" using parse_quoted [OF al] by blast
  obtain al2 where r2: "al_alloc al1 = (True, al2)" "plenty al2" using plenty_alloc [OF r1(2)] by blast
  have "parse_value (Suc m) (quoted s @ r) al = parse_string (quoted s @ r) al"
    by (simp add: skip_quoted Let_def) (simp add: quoted_def rd_def)
  then show "\<exists>al'. parse_value (Suc m) (json_text (JSON_STRING s) @ r) al = Parsed (JSON_STRING s) r al' \<and> plenty al'"
    using r1 r2 by (simp add: parse_string_def del: parse_value.simps)
qed

lemma parse_word_text: "reads (parse_value (Suc m)) JSON_NULL" "reads (parse_value (Suc m)) (JSON_BOOL b)"
  using plenty_alloc by (auto simp: reads_def str_def rd_def parse_literal_def alloc_value_def Let_def dest: plenty_alloc)

lemma parse_value_text: "json_ok v \<Longrightarrow> length (json_text v) < n \<Longrightarrow> reads (parse_value n) v"
proof (induction v arbitrary: n)
  case (JSON_NUMBER x)
  then obtain q m where "x = Fin q" "q = of_int \<lfloor>q\<rfloor>" "\<bar>\<lfloor>q\<rfloor>\<bar> < 2 ^ 53" "n = Suc m" by (cases x; cases n) auto
  then show ?case using parse_int [of "\<lfloor>q\<rfloor>" _ _ m] by (auto simp: reads_def simp del: parse_value.simps)
next
  case (JSON_ARRAY vs)
  then obtain m where n: "n = Suc m" by (cases n) simp_all
  have len: "length (commas (map json_text vs)) + 1 < m" using JSON_ARRAY.prems(2) n by simp
  have each: "reads (parse_value m) v \<and> json_ok v" if v: "v \<in> set vs" for v
  proof -
    have "length (json_text v) < m" using commas_length(1) [of "json_text v" "map json_text vs"] v len by simp
    then show ?thesis using JSON_ARRAY.IH [OF v] JSON_ARRAY.prems(1) v by simp
  qed
  have "length vs \<le> m" using commas_length(2) [of "map json_text vs"] each json_text_nonempty len by fastforce
  then show ?case unfolding n using each by (blast intro: parse_array_text)
next
  case (JSON_OBJECT kvs)
  then obtain m where n: "n = Suc m" by (cases n) simp_all
  have len: "length (commas (map member_text kvs)) + 1 < m" using JSON_OBJECT.prems(2) n by simp
  have each: "reads (parse_value m) (snd kv) \<and> json_ok (snd kv)" if kv: "kv \<in> set kvs" for kv
  proof -
    have "length (json_text (snd kv)) < m" using commas_length(1) [of "member_text kv" "map member_text kvs"] kv len by simp
    then show ?thesis using JSON_OBJECT.IH [OF kv, of "snd kv"] JSON_OBJECT.prems(1) kv by (cases kv) auto
  qed
  have "length kvs \<le> m" using commas_length(2) [of "map member_text kvs"] len by (auto simp: quoted_def)
  then show ?case unfolding n using each by (blast intro: parse_object_text)
next
  case (JSON_STRING s)
  then obtain m where "n = Suc m" by (cases n) simp_all
  then show ?case using parse_string_text by blast
next
  case JSON_NULL
  then obtain m where "n = Suc m" by (cases n) simp_all
  then show ?case using parse_word_text(1) by blast
next
  case (JSON_BOOL b)
  then obtain m where "n = Suc m" by (cases n) simp_all
  then show ?case using parse_word_text(2) by blast
qed

text \<open>A text holds no terminator, so that it is the C string of its own bytes.\<close>

lemma commas_nz: "\<forall>x \<in> set xs. 0 \<notin> set x \<Longrightarrow> (0 :: u8) \<notin> set (commas xs)"
  by (induction xs rule: commas.induct) auto

lemma quoted_nz: "0 \<notin> set s \<Longrightarrow> 0 \<notin> set (quoted s)"
  by (auto simp: quoted_def escape_def split: if_splits)

lemma num_text_no_zero: "0 \<notin> set (num_text 10 False n)"
proof
  assume "0 \<in> set (num_text 10 False n)"
  then obtain d where d: "d \<in> set (nat_digits 10 n)" "lo_digits ! d = 0" by (auto simp: num_text_def)
  then have "d < 10" using nat_digits_less [of 10 d n] by simp
  then show False using d(2) digit_word(1) [of d] by (simp add: lo_digit)
qed

lemma json_text_nz: "json_ok v \<Longrightarrow> 0 \<notin> set (json_text v)"
proof (induction v)
  case (JSON_NUMBER x)
  then show ?case using num_text_no_zero by (cases x) (auto simp: int_dec_def)
next
  case (JSON_ARRAY vs)
  then show ?case using commas_nz [of "map json_text vs"] by auto
next
  case (JSON_OBJECT kvs)
  have "0 \<notin> set (member_text kv)" if "kv \<in> set kvs" for kv
    using JSON_OBJECT.IH [OF that, of "snd kv"] JSON_OBJECT.prems that quoted_nz [of "fst kv"] by (cases kv) auto
  then show ?case using commas_nz [of "map member_text kvs"] by auto
qed (auto simp: str_def quoted_nz)

lemma cval_json_text: "json_ok v \<Longrightarrow> cval (json_text v) = json_text v"
  using json_text_nz [of v] by (auto simp: cval_def takeWhile_eq_all_conv)

lemma json_parse_text:
  assumes "json_ok v" "plenty al"
  shows "\<exists>al'. json_parse (Some (json_text v)) al = Parsed v [] al'"
  using readsD [OF parse_value_text [OF assms(1), of "length (json_text v) + 1"] _ assms(2), of "[]"]
  by (auto simp: json_parse_def cval_json_text [OF assms(1)] ends_def rd_def simp del: parse_value.simps)

lemma unicode_escape: "string_copy (str ''u0041'' @ [QUOTE]) = str ''u0041''"
  "string_copy (BACKSLASH # str ''u0041'' @ [QUOTE]) = str ''?1''"
  by (simp_all add: str_def rd_def)

lemma short_unicode_undefined: "parse_string_raw (QUOTE # BACKSLASH # str ''u0\"'') al = Undefined"
  by (simp add: parse_string_raw_def str_def rd_def)



end
