(* ===== verification/Dns.thy ===== *)
theory Dns
  imports CString "HOL-Library.Monad_Syntax"
begin

text \<open>
  The DNS client of \<open>kernel/net/dns.c\<close>. A packet is the list of its bytes. What the client gets from the network
  layer and the clock is an argument: the server address, the results of the calls, and for every round of the
  waiting loop the time and the datagrams that \<open>net_poll\<close> hands to the handler. \<open>None\<close> as an outer result says that
  the function does not return.
\<close>

unbundle bit_operations_syntax

section \<open>Names\<close>

abbreviation DNS_TYPE_A :: u16 where "DNS_TYPE_A \<equiv> 1"
abbreviation DNS_TYPE_CNAME :: u16 where "DNS_TYPE_CNAME \<equiv> 5"
abbreviation DNS_TYPE_AAAA :: u16 where "DNS_TYPE_AAAA \<equiv> 28"

definition dns_read_u16 :: "bytes \<Rightarrow> nat \<Rightarrow> u16" where
  "dns_read_u16 p k = push_bit 8 (ucast (p ! k)) OR ucast (p ! (k + 1))"

abbreviation DOT :: u8 where "DOT \<equiv> 46"

lemma drop_label_shorter: "takeWhile P name \<noteq> [] \<Longrightarrow> length (dropWhile P name) < length name"
  using length_dropWhile_le [of P "tl name"] by (cases name) (auto split: if_splits)

text \<open>\<open>out\<close> holds the bytes written so far.\<close>

function dns_encode_name :: "nat \<Rightarrow> bytes \<Rightarrow> bytes \<Rightarrow> bytes option" where
  "dns_encode_name cap out name =
     (if rd name = 0 then if cap \<le> length out + 1 then None else Some (out @ [0])
      else let label = takeWhile (\<lambda>c. c \<noteq> 0 \<and> c \<noteq> DOT) name; dot = dropWhile (\<lambda>c. c \<noteq> 0 \<and> c \<noteq> DOT) name
           in if length label = 0 \<or> 63 < length label \<or> cap \<le> length out + 1 + length label then None
              else dns_encode_name cap (out @ of_nat (length label) # label) (if rd dot = DOT then tl dot else dot))"
  by pat_completeness auto
termination
  by (relation "measure (\<lambda>(cap, out, name). length name)") (auto dest: drop_label_shorter)

declare dns_encode_name.simps [simp del]

text \<open>Storing bytes into a buffer.\<close>

definition store :: "bytes \<Rightarrow> nat \<Rightarrow> bytes \<Rightarrow> bytes" where
  "store dst k bs = take k dst @ bs @ drop (k + length bs) dst"

text \<open>The loop of \<open>dns_name_unpack\<close>: \<open>back\<close> is the offset behind the first pointer. The result tells success and
  gives the buffer and the offset.\<close>

partial_function (option) unpack_loop ::
  "nat \<Rightarrow> bytes \<Rightarrow> nat \<Rightarrow> bytes \<Rightarrow> nat \<Rightarrow> nat option \<Rightarrow> (bool \<times> bytes \<times> nat) option" where
  "unpack_loop dcap pkt off dst k back =
     (if length pkt \<le> off then Some (False, dst, off)
      else let lab = pkt ! off in
        if lab = 0 then Some (True, store dst k [0], case back of Some b \<Rightarrow> b | None \<Rightarrow> off + 1)
        else if lab AND 0xC0 = 0xC0 then
          if length pkt \<le> off + 1 then Some (False, dst, off)
          else let ptr = unat (push_bit 8 (ucast (lab AND 0x3F)) OR ucast (pkt ! (off + 1)) :: u16);
                   back = (case back of Some b \<Rightarrow> Some b | None \<Rightarrow> Some (off + 2))
               in if length pkt \<le> ptr then Some (False, dst, ptr) else unpack_loop dcap pkt ptr dst k back
        else if length pkt < off + 1 + unat lab \<or> dcap \<le> k + unat lab + 2 then Some (False, dst, off + 1)
        else let (dst, k) = (if k \<noteq> 0 then (store dst k [DOT], k + 1) else (dst, k));
                 dst = store dst k (take (unat lab) (drop (off + 1) pkt))
             in unpack_loop dcap pkt (off + 1 + unat lab) dst (k + unat lab) back)"

definition dns_name_unpack :: "bytes \<Rightarrow> nat \<Rightarrow> bytes \<Rightarrow> nat \<Rightarrow> nat \<Rightarrow> (bool \<times> bytes \<times> nat) option" where
  "dns_name_unpack dst dcap pkt off depth =
     (if 12 < depth then Some (False, dst, off) else unpack_loop dcap pkt off dst 0 None)"

section \<open>Records\<close>

text \<open>The loop over the labels of a name that \<open>dns_skip_question\<close> and \<open>dns_read_rr\<close> share.\<close>

function skip_labels :: "bytes \<Rightarrow> nat \<Rightarrow> nat option" where
  "skip_labels pkt off =
     (if length pkt \<le> off then None
      else let l = pkt ! off in
        if l = 0 then Some (off + 1)
        else if l AND 0xC0 = 0xC0 then Some (off + 2)
        else skip_labels pkt (off + 1 + unat l))"
  by pat_completeness auto
termination
  by (relation "measure (\<lambda>(pkt, off). length pkt - off)") auto

declare skip_labels.simps [simp del]

definition dns_skip_question :: "bytes \<Rightarrow> nat \<Rightarrow> nat option" where
  "dns_skip_question pkt off =
     do { off \<leftarrow> skip_labels pkt off;
          if length pkt < off + 4 then None else Some (off + 4) }"

definition dns_read_rr :: "bytes \<Rightarrow> nat \<Rightarrow> (u16 \<times> u16 \<times> nat \<times> nat) option" where
  "dns_read_rr pkt off =
     do { off \<leftarrow> skip_labels pkt off;
          if length pkt < off + 10 then None
          else let rtype = dns_read_u16 pkt off; rdlen = dns_read_u16 pkt (off + 8); rdata_off = off + 10
               in if length pkt < rdata_off + unat rdlen then None
                  else Some (rtype, rdlen, rdata_off, rdata_off + unat rdlen) }"

section \<open>Exchange with the server\<close>

record dns_rx_t =
  rx_waiting :: bool
  rx_tid :: u16
  rx_got :: bool
  rx_len :: nat
  rx_buf :: bytes

definition dns_udp_handler :: "bytes \<Rightarrow> dns_rx_t \<Rightarrow> dns_rx_t" where
  "dns_udp_handler data rx =
     (if \<not> rx_waiting rx \<or> length data < 12 \<or> 1536 < length data then rx
      else if dns_read_u16 data 0 \<noteq> rx_tid rx then rx
      else rx\<lparr>rx_buf := store (rx_buf rx) 0 data, rx_len := length data, rx_got := True\<rparr>)"

record dns_env =
  ev_server :: u32
  ev_arp :: bool
  ev_bind :: bool
  ev_tick1 :: u64
  ev_tick2 :: u64
  ev_send :: bool
  ev_start :: u64
  ev_rounds :: "(u64 \<times> bytes list) list"

text \<open>The waiting loop. Every element is the time of the test and the datagrams of the poll after it.\<close>

fun dns_wait :: "u64 \<Rightarrow> (u64 \<times> bytes list) list \<Rightarrow> dns_rx_t \<Rightarrow> dns_rx_t option" where
  "dns_wait deadline [] rx = None"
| "dns_wait deadline ((now, ds) # rounds) rx =
     (if \<not> 0 <s deadline - now then Some rx
      else if rx_got rx then Some rx
      else dns_wait deadline rounds (fold dns_udp_handler ds rx))"

definition dns_query :: "u16 \<Rightarrow> u16 \<Rightarrow> bytes \<Rightarrow> bytes" where
  "dns_query tid qtype enc =
     [ucast (drop_bit 8 tid), ucast tid, 1, 0, 0, 1, 0, 0, 0, 0, 0, 0] @ enc @ [ucast (drop_bit 8 qtype), ucast qtype, 0, 1]"

text \<open>The result, the query that was sent, and the state of the receiver. The clock has 1000 ticks per second
  (\<open>TIMER_FREQ_HZ\<close>).\<close>

definition dns_exchange ::
  "dns_env \<Rightarrow> u16 \<Rightarrow> bytes \<Rightarrow> u32 \<Rightarrow> dns_rx_t \<Rightarrow> ((errno + unit) \<times> bytes option \<times> dns_rx_t) option" where
  "dns_exchange ev qtype name timeout_ms rx =
     (if ev_server ev = 0 then Some (Inl EIO, None, rx)
      else if \<not> ev_arp ev then Some (Inl ETIMEDOUT, None, rx)
      else if \<not> ev_bind ev then Some (Inl ENOMEM, None, rx)
      else let t = ucast (ev_tick1 ev XOR drop_bit 16 (ev_tick2 ev));
               rx = rx\<lparr>rx_tid := (if t = 0 then 0xACE1 else t)\<rparr>
           in case dns_encode_name (512 - 12 - 4) [] name of
                None \<Rightarrow> Some (Inl EINVAL, None, rx)
              | Some enc \<Rightarrow>
                  let rx = rx\<lparr>rx_waiting := True, rx_got := False, rx_len := 0\<rparr>
                  in if \<not> ev_send ev then Some (Inl EIO, None, rx)
                     else do { rx \<leftarrow> dns_wait (ev_start ev + ucast timeout_ms * 1000 div 1000) (ev_rounds ev) rx;
                               let rx = rx\<lparr>rx_waiting := False\<rparr>;
                               Some (if rx_got rx then Inr () else Inl ETIMEDOUT, Some (dns_query (rx_tid rx) qtype enc), rx) })"

section \<open>Answers\<close>

datatype dns_answer = GotA bytes | GotAAAA bytes | FollowCname

text \<open>The loop over the answer records with the buffer for an alias. The bytes of a failed \<open>dns_name_unpack\<close> stay
  in that buffer.\<close>

primrec dns_answers :: "nat \<Rightarrow> bool \<Rightarrow> bool \<Rightarrow> bytes \<Rightarrow> nat \<Rightarrow> bytes \<Rightarrow> ((errno + dns_answer) \<times> bytes) option" where
  "dns_answers 0 want_a want_aaaa pkt off cname = Some (if rd cname \<noteq> 0 then Inr FollowCname else Inl ENOTFOUND, cname)"
| "dns_answers (Suc n) want_a want_aaaa pkt off cname =
     (case dns_read_rr pkt off of
        None \<Rightarrow> Some (Inl EIO, cname)
      | Some (rtype, rdlen, rdoff, off) \<Rightarrow>
          if rtype = DNS_TYPE_A \<and> rdlen = 4 \<and> want_a then Some (Inr (GotA (take 4 (drop rdoff pkt))), cname)
          else if rtype = DNS_TYPE_AAAA \<and> rdlen = 16 \<and> want_aaaa then Some (Inr (GotAAAA (take 16 (drop rdoff pkt))), cname)
          else if rtype = DNS_TYPE_CNAME then
            (case dns_name_unpack cname 256 pkt rdoff 0 of
               None \<Rightarrow> None
             | Some (ok, cname, _) \<Rightarrow> dns_answers n want_a want_aaaa pkt off cname)
          else dns_answers n want_a want_aaaa pkt off cname)"

definition dns_parse_response :: "bool \<Rightarrow> bool \<Rightarrow> bytes \<Rightarrow> dns_rx_t \<Rightarrow> ((errno + dns_answer) \<times> bytes) option" where
  "dns_parse_response want_a want_aaaa cname rx =
     (let pkt = take (rx_len rx) (rx_buf rx) in
      if rx_len rx < 12 then Some (Inl EIO, cname)
      else let rcode = dns_read_u16 pkt 2 AND 0x0F
           in if rcode = 3 then Some (Inl ENOTFOUND, cname)
              else if rcode \<noteq> 0 then Some (Inl EIO, cname)
              else case dns_skip_question pkt 12 of
                None \<Rightarrow> Some (Inl EIO, cname)
              | Some off \<Rightarrow> dns_answers (unat (dns_read_u16 pkt 6)) want_a want_aaaa pkt off (cname[0 := 0]))"

text \<open>The loop over the hops. Each hop has its exchange and the contents that the uninitialised buffer for the
  alias happens to have.\<close>

fun dns_hops :: "bool \<Rightarrow> u32 \<Rightarrow> (dns_env \<times> bytes) list \<Rightarrow> nat \<Rightarrow> bytes \<Rightarrow> dns_rx_t \<Rightarrow> ((errno + bytes) \<times> dns_rx_t) option" where
  "dns_hops v4 timeout_ms evs 0 n rx = Some (Inl ENOTFOUND, rx)"
| "dns_hops v4 timeout_ms [] (Suc hops) n rx = None"
| "dns_hops v4 timeout_ms ((ev, junk) # evs) (Suc hops) n rx =
     (case dns_exchange ev (if v4 then DNS_TYPE_A else DNS_TYPE_AAAA) n timeout_ms rx of
        None \<Rightarrow> None
      | Some (Inl e, _, rx) \<Rightarrow> Some (Inl e, rx)
      | Some (Inr _, _, rx) \<Rightarrow>
          (case dns_parse_response v4 (\<not> v4) junk rx of
             None \<Rightarrow> None
           | Some (Inr (GotA a), _) \<Rightarrow> Some (Inr a, rx)
           | Some (Inr (GotAAAA a), _) \<Rightarrow> Some (Inr a, rx)
           | Some (Inr FollowCname, cname) \<Rightarrow> dns_hops v4 timeout_ms evs hops (text_field 256 cname) rx
           | Some (Inl e, _) \<Rightarrow> Some (Inl e, rx)))"

definition dns_resolve_a ::
  "bytes option \<Rightarrow> u32 \<Rightarrow> (dns_env \<times> bytes) list \<Rightarrow> dns_rx_t \<Rightarrow> ((errno + bytes) \<times> dns_rx_t) option" where
  "dns_resolve_a name timeout_ms evs rx =
     (case name of
        None \<Rightarrow> Some (Inl EINVAL, rx)
      | Some s \<Rightarrow> if rd s = 0 then Some (Inl EINVAL, rx) else dns_hops True timeout_ms evs 8 (text_field 256 s) rx)"

definition dns_resolve_aaaa ::
  "bytes option \<Rightarrow> u32 \<Rightarrow> (dns_env \<times> bytes) list \<Rightarrow> dns_rx_t \<Rightarrow> ((errno + bytes) \<times> dns_rx_t) option" where
  "dns_resolve_aaaa name timeout_ms evs rx =
     (case name of
        None \<Rightarrow> Some (Inl EINVAL, rx)
      | Some s \<Rightarrow> if rd s = 0 then Some (Inl EINVAL, rx) else dns_hops False timeout_ms evs 8 (text_field 256 s) rx)"

section \<open>Offsets stay inside the packet\<close>

lemma skip_labels_bound: "skip_labels pkt off = Some q \<Longrightarrow> off < q \<and> q \<le> length pkt + 1"
proof (induction pkt off rule: skip_labels.induct)
  case (1 pkt off)
  then show ?case by (subst (asm) (2) skip_labels.simps) (fastforce simp: Let_def split: if_splits)
qed

lemma read_rr_bound:
  "dns_read_rr pkt off = Some (rtype, rdlen, rdoff, q) \<Longrightarrow> off < q \<and> rdoff + unat rdlen = q \<and> q \<le> length pkt"
  using skip_labels_bound [of pkt off]
  by (auto simp: dns_read_rr_def Let_def bind_eq_Some_conv split: if_splits)

section \<open>Names on the wire\<close>

definition label_ok :: "bytes \<Rightarrow> bool" where
  "label_ok l \<longleftrightarrow> l \<noteq> [] \<and> length l \<le> 63 \<and> 0 \<notin> set l \<and> DOT \<notin> set l"

definition wire :: "bytes list \<Rightarrow> bytes" where
  "wire ls = concat (map (\<lambda>l. of_nat (length l) # l) ls) @ [0]"

text \<open>The text of a name after further labels.\<close>

fun dotted :: "bytes \<Rightarrow> bytes list \<Rightarrow> bytes" where
  "dotted s [] = s"
| "dotted s (l # ls) = dotted (if s = [] then l else s @ DOT # l) ls"

lemma dotted_append: "s \<noteq> [] \<Longrightarrow> dotted s ls = s @ concat (map (\<lambda>l. DOT # l) ls)"
  by (induction ls arbitrary: s) simp_all

lemma dotted_Cons: "l \<noteq> [] \<Longrightarrow> dotted [] (l # ls) = l @ concat (map (\<lambda>l. DOT # l) ls)"
  by (simp add: dotted_append)

lemma wire_simps: "wire [] = [0]" "wire (l # ls) = of_nat (length l) # l @ wire ls"
  by (simp_all add: wire_def)

lemma label_run:
  assumes "label_ok l" "rd r = 0 \<or> rd r = DOT"
  shows "takeWhile (\<lambda>c. c \<noteq> 0 \<and> c \<noteq> DOT) (l @ r) = l" "dropWhile (\<lambda>c. c \<noteq> 0 \<and> c \<noteq> DOT) (l @ r) = r"
proof -
  have l: "\<forall>c \<in> set l. c \<noteq> 0 \<and> c \<noteq> DOT" using assms(1) by (auto simp: label_ok_def)
  show "takeWhile (\<lambda>c. c \<noteq> 0 \<and> c \<noteq> DOT) (l @ r) = l" using l assms(2) by (cases r) (auto simp: rd_def takeWhile_append2)
  show "dropWhile (\<lambda>c. c \<noteq> 0 \<and> c \<noteq> DOT) (l @ r) = r" using l assms(2) by (cases r) (auto simp: rd_def)
qed

lemma encode_wire:
  assumes "\<forall>l \<in> set ls. label_ok l" "length out + length (wire ls) < cap"
  shows "dns_encode_name cap out (dotted [] ls) = Some (out @ wire ls)"
  using assms
proof (induction ls arbitrary: out)
  case Nil
  then show ?case by (subst dns_encode_name.simps) (simp add: rd_def wire_simps)
next
  case (Cons l ls)
  define r where "r = concat (map (\<lambda>l. DOT # l) ls)"
  have l: "label_ok l" "l \<noteq> []" "length l \<le> 63" "rd (l @ r) \<noteq> 0"
    using Cons.prems(1) by (cases l; auto simp: label_ok_def rd_def)+
  have name: "dotted [] (l # ls) = l @ r" using dotted_Cons [OF l(2)] by (simp add: r_def)
  have r: "rd r = 0 \<or> rd r = DOT" "(if rd r = DOT then tl r else r) = dotted [] ls"
    using Cons.prems(1) by (cases ls; auto simp: r_def rd_def label_ok_def dotted_append)+
  have "dns_encode_name cap out (l @ r) = dns_encode_name cap (out @ of_nat (length l) # l) (dotted [] ls)"
    using l Cons.prems(2) unfolding r(2) [symmetric]
    by (subst dns_encode_name.simps) (simp add: label_run [OF l(1) r(1)] Let_def wire_simps)
  also have "\<dots> = Some ((out @ of_nat (length l) # l) @ wire ls)"
    by (rule Cons.IH) (use Cons.prems in \<open>simp_all add: wire_simps\<close>)
  finally show ?case by (simp only: name wire_simps append_assoc append_Cons)
qed

lemma length_byte:
  assumes "length l \<le> 63" "l \<noteq> []"
  shows "(of_nat (length l) :: u8) \<noteq> 0" "unat (of_nat (length l) :: u8) = length l" "(of_nat (length l) :: u8) AND 0xC0 \<noteq> 0xC0"
proof -
  have "\<forall>n \<in> set [0..<64]. (of_nat n :: u8) AND 0xC0 \<noteq> 0xC0" by (simp add: upt_rec)
  then show "(of_nat (length l) :: u8) AND 0xC0 \<noteq> 0xC0" using assms(1) by simp
  show u: "unat (of_nat (length l) :: u8) = length l" using assms(1) by (simp add: unat_of_nat)
  show "(of_nat (length l) :: u8) \<noteq> 0" using u assms(2) by (metis length_0_conv unat_0)
qed

lemma store_take: "k + length bs \<le> length dst \<Longrightarrow> take (k + length bs) (store dst k bs) = take k dst @ bs"
  by (simp add: store_def)

lemma store_length: "k + length bs \<le> length dst \<Longrightarrow> length (store dst k bs) = length dst"
  by (simp add: store_def)

lemma dotted_length: "length s \<le> length (dotted s ls)"
proof (induction ls arbitrary: s)
  case (Cons l ls)
  have "length s \<le> length (if s = [] then l else s @ DOT # l)" by simp
  then show ?case using Cons [of "if s = [] then l else s @ DOT # l"] by (metis dotted.simps(2) le_trans)
qed simp

text \<open>One label of a name that is read back.\<close>

lemma unpack_label:
  assumes "label_ok l" "length dst = dcap" "take (length s) dst = s"
    "length (if s = [] then l else s @ DOT # l) + 2 < dcap" "off + 1 + length l \<le> length pkt"
    "pkt ! off = of_nat (length l)" "take (length l) (drop (off + 1) pkt) = l"
  shows "\<exists>dst'. length dst' = dcap \<and> take (length (if s = [] then l else s @ DOT # l)) dst' = (if s = [] then l else s @ DOT # l)
    \<and> unpack_loop dcap pkt off dst (length s) back
      = unpack_loop dcap pkt (off + 1 + length l) dst' (length (if s = [] then l else s @ DOT # l)) back"
proof -
  have l: "length l \<le> 63" "l \<noteq> []" using assms(1) by (simp_all add: label_ok_def)
  note b = length_byte [OF l]
  have room: "\<not> (length pkt < off + 1 + length l \<or> dcap \<le> length s + length l + 2)" "off < length pkt"
    using assms(4,5) by (auto split: if_splits)
  define d1 where "d1 = (if s = [] then dst else store dst (length s) [DOT])"
  define k1 where "k1 = (if s = [] then 0 else length s + 1)"
  have d1: "length d1 = dcap" "take k1 d1 = (if s = [] then [] else s @ [DOT])" "k1 + length l < dcap"
    using assms(2-4) store_take [of "length s" "[DOT]" dst] store_length [of "length s" "[DOT]" dst] by (auto simp: d1_def k1_def)
  have bytes: "take (length l) (drop (Suc off) pkt) = l" using assms(7) by simp
  have step: "unpack_loop dcap pkt off dst (length s) back = unpack_loop dcap pkt (off + 1 + length l) (store d1 k1 l) (k1 + length l) back"
    using room by (subst unpack_loop.simps) (simp add: assms(6) bytes b Let_def d1_def k1_def)
  have "take (k1 + length l) (store d1 k1 l) = (if s = [] then l else s @ DOT # l)" using store_take [of k1 l d1] d1 by simp
  moreover have "k1 + length l = length (if s = [] then l else s @ DOT # l)" by (simp add: k1_def)
  moreover have "length (store d1 k1 l) = dcap" using store_length [of k1 l d1] d1 by simp
  ultimately show ?thesis using step by (metis (no_types))
qed

lemma unpack_wire:
  assumes "\<forall>l \<in> set ls. label_ok l" "length dst = dcap" "take (length s) dst = s" "length (dotted s ls) + 2 < dcap"
  shows "\<exists>dst'. unpack_loop dcap (pre @ wire ls @ suf) (length pre) dst (length s) back =
      Some (True, dst', case back of Some b \<Rightarrow> b | None \<Rightarrow> length pre + length (wire ls))
    \<and> take (length (dotted s ls) + 1) dst' = dotted s ls @ [0]"
  using assms
proof (induction ls arbitrary: pre dst s)
  case Nil
  have "take (length s + 1) (store dst (length s) [0]) = s @ [0]" using store_take [of "length s" "[0]" dst] Nil.prems by simp
  then show ?case by (subst unpack_loop.simps) (cases "back"; simp add: wire_simps nth_append)
next
  case (Cons l ls)
  let ?pkt = "pre @ wire (l # ls) @ suf" and ?s = "if s = [] then l else s @ DOT # l"
  have l: "label_ok l" using Cons.prems(1) by simp
  have len: "length ?s + 2 < dcap" using Cons.prems(4) dotted_length [of ?s ls] by simp
  have pkt: "length pre + 1 + length l \<le> length ?pkt" "?pkt ! length pre = of_nat (length l)"
      "take (length l) (drop (length pre + 1) ?pkt) = l" by (simp_all add: wire_simps nth_append)
  obtain dst1 where d: "length dst1 = dcap" "take (length ?s) dst1 = ?s"
      "unpack_loop dcap ?pkt (length pre) dst (length s) back = unpack_loop dcap ?pkt (length pre + 1 + length l) dst1 (length ?s) back"
    using unpack_label [OF l Cons.prems(2,3) len pkt] by blast
  have p: "?pkt = (pre @ of_nat (length l) # l) @ wire ls @ suf" "length pre + 1 + length l = length (pre @ of_nat (length l) # l)"
    by (simp_all add: wire_simps)
  have "\<exists>dst'. unpack_loop dcap ((pre @ of_nat (length l) # l) @ wire ls @ suf) (length (pre @ of_nat (length l) # l)) dst1 (length ?s) back =
      Some (True, dst', case back of Some b \<Rightarrow> b | None \<Rightarrow> length (pre @ of_nat (length l) # l) + length (wire ls))
    \<and> take (length (dotted ?s ls) + 1) dst' = dotted ?s ls @ [0]"
    by (rule Cons.IH) (use Cons.prems d in simp_all)
  moreover have "length (pre @ of_nat (length l) # l) + length (wire ls) = length pre + length (wire (l # ls))" by (simp add: wire_simps)
  ultimately show ?case unfolding dotted.simps(2) d(3) unfolding p by (simp only:)
qed

text \<open>A pointer to itself is followed forever.\<close>

lemma self_pointer_loops:
  assumes "off + 1 < length pkt" "pkt ! off AND 0xC0 = 0xC0" "pkt ! off \<noteq> 0"
    "unat (push_bit 8 (ucast (pkt ! off AND 0x3F)) OR ucast (pkt ! (off + 1)) :: u16) = off"
  shows "unpack_loop dcap pkt off dst k back = None"
proof -
  have "pkt' = pkt \<longrightarrow> off' \<noteq> off" if "unpack_loop dcap' pkt' off' dst' k' back' = Some r" for dcap' pkt' off' dst' k' back' r
  proof (rule unpack_loop.raw_induct [OF _ that, where P = "\<lambda>_ pkt' off' _ _ _ _. pkt' = pkt \<longrightarrow> off' \<noteq> off"])
    fix f :: "nat \<Rightarrow> bytes \<Rightarrow> nat \<Rightarrow> bytes \<Rightarrow> nat \<Rightarrow> nat option \<Rightarrow> (bool \<times> bytes \<times> nat) option" and d p x a k b y
    assume IH: "\<And>d p x a k b y. f d p x a k b = Some y \<Longrightarrow> p = pkt \<longrightarrow> x \<noteq> off"
      and ret: "(if length p \<le> x then Some (False, a, x)
        else let lab = p ! x in
          if lab = 0 then Some (True, store a k [0], case b of None \<Rightarrow> x + 1 | Some b \<Rightarrow> b)
          else if lab AND 0xC0 = 0xC0 then
            if length p \<le> x + 1 then Some (False, a, x)
            else let ptr = unat (push_bit 8 (ucast (lab AND 0x3F)) OR ucast (p ! (x + 1)) :: u16);
                     back = (case b of None \<Rightarrow> Some (x + 2) | Some b \<Rightarrow> Some b)
                 in if length p \<le> ptr then Some (False, a, ptr) else f d p ptr a k back
          else if length p < x + 1 + unat lab \<or> d \<le> k + unat lab + 2 then Some (False, a, x + 1)
          else let (dst, k) = (if k \<noteq> 0 then (store a k [DOT], k + 1) else (a, k));
                   dst = store dst k (take (unat lab) (drop (x + 1) p))
               in f d p (x + 1 + unat lab) dst (k + unat lab) b) = Some y"
    show "p = pkt \<longrightarrow> x \<noteq> off"
    proof (intro impI notI)
      assume "p = pkt" "x = off"
      then have "f d pkt off a k (case b of None \<Rightarrow> Some (x + 2) | Some b \<Rightarrow> Some b) = Some y"
        using ret assms by (simp add: Let_def)
      then show False using IH by blast
    qed
  qed
  then show ?thesis by (cases "unpack_loop dcap pkt off dst k back") blast+
qed

text \<open>A name that ends with the packet is reported as an error, with its first labels already in the buffer and no
  terminator behind them; \<open>dns_answers\<close> goes on with that buffer.\<close>

lemma truncated_name:
  assumes "length dst = 256"
  shows "dns_name_unpack dst 256 [1, 97] 0 0 = Some (False, 97 # tl dst, 2)"
  using assms by (cases dst) (simp_all add: dns_name_unpack_def unpack_loop.simps store_def)



end
