(* ===== verification/Vmm.thy ===== *)
theory Vmm
  imports Pmm "HOL-Library.Monad_Syntax"
begin

text \<open>
  The page tables of \<open>kernel/mm/vmm.c\<close>, as built for x86-64, over the page allocator. A table is the frame at its
  physical address, with 512 entries: \<open>ptov\<close> reaches the same frame through the identity map during boot and
  through the direct map afterwards, so the model names frames by their physical addresses throughout. The
  contents of frames that are no tables do not matter here. Loading the root register and flushing the translation
  buffer have no effect in the model.

  An allocator of the page allocator's state may be empty; \<open>map_huge_range\<close> does not look at the result and then
  uses frame 0 as a table, which the definitions do too.
\<close>

unbundle bit_operations_syntax

section \<open>Entries and indices\<close>

abbreviation PTE_PRESENT :: u64 where "PTE_PRESENT \<equiv> 0x1"
abbreviation PTE_WRITABLE :: u64 where "PTE_WRITABLE \<equiv> 0x2"
abbreviation PTE_USER :: u64 where "PTE_USER \<equiv> 0x4"
abbreviation PTE_NO_CACHE :: u64 where "PTE_NO_CACHE \<equiv> 0x10"
abbreviation PTE_HUGE :: u64 where "PTE_HUGE \<equiv> 0x80"
abbreviation PTE_GLOBAL :: u64 where "PTE_GLOBAL \<equiv> 0x100"
abbreviation PTE_ADDR_MASK :: u64 where "PTE_ADDR_MASK \<equiv> 0x000FFFFFFFFFF000"

abbreviation PML4_INDEX :: "u64 \<Rightarrow> nat" where "PML4_INDEX a \<equiv> unat (drop_bit 39 a AND 0x1FF)"
abbreviation PDPT_INDEX :: "u64 \<Rightarrow> nat" where "PDPT_INDEX a \<equiv> unat (drop_bit 30 a AND 0x1FF)"
abbreviation PD_INDEX :: "u64 \<Rightarrow> nat" where "PD_INDEX a \<equiv> unat (drop_bit 21 a AND 0x1FF)"
abbreviation PT_INDEX :: "u64 \<Rightarrow> nat" where "PT_INDEX a \<equiv> unat (drop_bit 12 a AND 0x1FF)"

abbreviation VM_PHYS_MAP_BASE :: u64 where "VM_PHYS_MAP_BASE \<equiv> 0xFFFF800000000000"
abbreviation FRAMEBUFFER_VBASE :: u64 where "FRAMEBUFFER_VBASE \<equiv> 0xFFFF900000000000"
abbreviation PCI_MMIO64_LO :: u64 where "PCI_MMIO64_LO \<equiv> 0xC000000000"
abbreviation HUGE_PAGE :: u64 where "HUGE_PAGE \<equiv> 0x200000"
abbreviation GIB4 :: u64 where "GIB4 \<equiv> 0x100000000"

section \<open>State\<close>

record vmm =
  vm_pmm :: pmm_t
  vm_tab :: "u64 \<Rightarrow> nat \<Rightarrow> u64"
  vm_kernel :: u64

text \<open>A context is known by the frame that holds it; the kernel's own, \<open>kernel_ctx\<close>, is static and has none.\<close>

record vmm_ctx_t =
  cx_cr3 :: u64
  cx_self :: "u64 option"

definition set_entry :: "u64 \<Rightarrow> nat \<Rightarrow> u64 \<Rightarrow> vmm \<Rightarrow> vmm" where
  "set_entry t i e s = s\<lparr>vm_tab := (vm_tab s)(t := (vm_tab s t)(i := e))\<rparr>"

section \<open>Operations\<close>

definition zero_page :: "u64 \<Rightarrow> vmm \<Rightarrow> vmm" where
  "zero_page paddr s = fold (\<lambda>i. set_entry paddr i 0) [0..<512] s"

definition alloc_table :: "vmm \<Rightarrow> u64 \<times> vmm" where
  "alloc_table s =
     (case pmm_alloc_page (vm_pmm s) of (paddr, p) \<Rightarrow>
        let s = s\<lparr>vm_pmm := p\<rparr> in (paddr, if paddr \<noteq> 0 then zero_page paddr s else s))"

abbreviation table_entry :: "u64 \<Rightarrow> u64" where
  "table_entry t \<equiv> t OR PTE_PRESENT OR PTE_WRITABLE OR PTE_USER"

text \<open>The loop of \<open>vmm_walk\<close> over the indices of the upper three levels. The result is the place of the entry.\<close>

fun walk_levels :: "bool \<Rightarrow> nat list \<Rightarrow> nat \<Rightarrow> u64 \<Rightarrow> vmm \<Rightarrow> (u64 \<times> nat) option \<times> vmm" where
  "walk_levels create [] last_index table s = (Some (table, last_index), s)"
| "walk_levels create (i # is) last_index table s =
     (let entry = vm_tab s table i in
      if entry AND PTE_HUGE \<noteq> 0 then (Some (table, i), s)
      else if entry AND PTE_PRESENT = 0 then
        if \<not> create then (None, s)
        else case alloc_table s of (new_table, s) \<Rightarrow>
          if new_table = 0 then (None, s)
          else let s = set_entry table i (table_entry new_table) s
               in walk_levels create is last_index (table_entry new_table AND PTE_ADDR_MASK) s
      else walk_levels create is last_index (entry AND PTE_ADDR_MASK) s)"

definition vmm_walk :: "vmm_ctx_t \<Rightarrow> u64 \<Rightarrow> bool \<Rightarrow> vmm \<Rightarrow> (u64 \<times> nat) option \<times> vmm" where
  "vmm_walk ctx vaddr create s =
     walk_levels create [PML4_INDEX vaddr, PDPT_INDEX vaddr, PD_INDEX vaddr] (PT_INDEX vaddr) (cx_cr3 ctx) s"

definition vmm_map_page :: "vmm_ctx_t \<Rightarrow> u64 \<Rightarrow> u64 \<Rightarrow> u64 \<Rightarrow> vmm \<Rightarrow> vmm" where
  "vmm_map_page ctx vaddr paddr flags s =
     (case vmm_walk ctx vaddr True s of
        (None, s) \<Rightarrow> s
      | (Some (t, i), s) \<Rightarrow> set_entry t i ((paddr AND PTE_ADDR_MASK) OR (flags AND NOT PTE_ADDR_MASK)) s)"

definition vmm_unmap_page :: "vmm_ctx_t \<Rightarrow> u64 \<Rightarrow> vmm \<Rightarrow> vmm" where
  "vmm_unmap_page ctx vaddr s =
     (case vmm_walk ctx vaddr False s of
        (None, s) \<Rightarrow> s
      | (Some (t, i), s) \<Rightarrow> if vm_tab s t i AND PTE_PRESENT \<noteq> 0 then set_entry t i 0 s else s)"

definition vmm_get_phys :: "vmm_ctx_t \<Rightarrow> u64 \<Rightarrow> vmm \<Rightarrow> u64" where
  "vmm_get_phys ctx vaddr s =
     (case fst (vmm_walk ctx vaddr False s) of
        None \<Rightarrow> 0
      | Some (t, i) \<Rightarrow>
          let pte = vm_tab s t i
          in if pte AND PTE_PRESENT = 0 then 0
             else if pte AND PTE_HUGE \<noteq> 0 then (pte AND PTE_ADDR_MASK) OR (vaddr AND 0x1FFFFF)
             else (pte AND PTE_ADDR_MASK) OR (vaddr AND 0xFFF))"

text \<open>The two upper levels of \<open>map_huge_range\<close>: the table that an entry leads to, made if it is missing.\<close>

definition ensure_table :: "u64 \<Rightarrow> nat \<Rightarrow> vmm \<Rightarrow> u64 \<times> vmm" where
  "ensure_table t i s =
     (let s = (if vm_tab s t i AND PTE_PRESENT = 0
               then case alloc_table s of (n, s) \<Rightarrow> set_entry t i (table_entry n) s else s)
      in (vm_tab s t i AND PTE_ADDR_MASK, s))"

definition map_huge_page :: "vmm_ctx_t \<Rightarrow> u64 \<Rightarrow> u64 \<Rightarrow> u64 \<Rightarrow> vmm \<Rightarrow> vmm" where
  "map_huge_page ctx vaddr phys flags s =
     (case ensure_table (cx_cr3 ctx) (PML4_INDEX vaddr) s of (pdpt, s) \<Rightarrow>
      case ensure_table pdpt (PDPT_INDEX vaddr) s of (pd, s) \<Rightarrow>
        set_entry pd (PD_INDEX vaddr) (phys OR flags OR PTE_HUGE) s)"

text \<open>The loop of \<open>map_huge_range\<close>; it does not end when the address wraps around before it reaches the end.\<close>

partial_function (option) huge_loop :: "vmm_ctx_t \<Rightarrow> u64 \<Rightarrow> u64 \<Rightarrow> u64 \<Rightarrow> u64 \<Rightarrow> u64 \<Rightarrow> vmm \<Rightarrow> vmm option" where
  "huge_loop ctx vbase pbase end_addr flags phys s =
     (if phys < end_addr
      then huge_loop ctx vbase pbase end_addr flags (phys + HUGE_PAGE) (map_huge_page ctx (vbase + (phys - pbase)) phys flags s)
      else Some s)"

definition map_huge_range :: "vmm_ctx_t \<Rightarrow> u64 \<Rightarrow> u64 \<Rightarrow> u64 \<Rightarrow> u64 \<Rightarrow> vmm \<Rightarrow> vmm option" where
  "map_huge_range ctx vbase pbase sz flags s = huge_loop ctx vbase pbase (pbase + sz) flags pbase s"

text \<open>\<open>fb_base\<close>, \<open>fb_pitch\<close> and \<open>fb_height\<close> are the fields of the frame buffer of the boot information.\<close>

definition vmm_init :: "boot_info \<Rightarrow> u64 \<Rightarrow> u32 \<Rightarrow> u32 \<Rightarrow> vmm \<Rightarrow> vmm option" where
  "vmm_init bi fb_base fb_pitch fb_height s =
     (case alloc_table s of (pml4_phys, s) \<Rightarrow>
        let ctx = \<lparr>cx_cr3 = pml4_phys, cx_self = None\<rparr>;
            map_size = align_up (total_memory bi) HUGE_PAGE;
            map_size = (if map_size < GIB4 then GIB4 else map_size);
            flags = PTE_PRESENT OR PTE_WRITABLE OR PTE_GLOBAL
        in do { s \<leftarrow> map_huge_range ctx 0 0 GIB4 flags s;
                s \<leftarrow> map_huge_range ctx VM_PHYS_MAP_BASE 0 map_size flags s;
                s \<leftarrow> map_huge_range ctx (VM_PHYS_MAP_BASE + PCI_MMIO64_LO) PCI_MMIO64_LO 0x40000000 (flags OR PTE_NO_CACHE) s;
                s \<leftarrow> (if fb_base \<noteq> 0
                      then let fb_size = align_up (ucast fb_pitch * ucast fb_height) HUGE_PAGE;
                               fb_size = (if fb_size = 0 then HUGE_PAGE else fb_size)
                           in map_huge_range ctx FRAMEBUFFER_VBASE fb_base fb_size (flags OR PTE_NO_CACHE) s
                      else Some s);
                Some (s\<lparr>vm_kernel := pml4_phys\<rparr>) })"

definition vmm_create_ctx :: "vmm \<Rightarrow> vmm_ctx_t option \<times> vmm" where
  "vmm_create_ctx s =
     (case alloc_table s of (pml4_phys, s) \<Rightarrow>
        if pml4_phys = 0 then (None, s)
        else let s = fold (\<lambda>i s. set_entry pml4_phys i (vm_tab s (vm_kernel s) i) s) [256..<512] s
             in case pmm_alloc_page (vm_pmm s) of (ctx_phys, p) \<Rightarrow>
                  if ctx_phys = 0 then (None, s\<lparr>vm_pmm := pmm_free_page pml4_phys p\<rparr>)
                  else (Some \<lparr>cx_cr3 = pml4_phys, cx_self = Some ctx_phys\<rparr>, s\<lparr>vm_pmm := p\<rparr>))"

text \<open>The three nested loops of \<open>vmm_destroy_ctx\<close>. The top level looks at the presence of an entry only.\<close>

definition free_pd :: "(u64 \<Rightarrow> nat \<Rightarrow> u64) \<Rightarrow> u64 \<Rightarrow> pmm_t \<Rightarrow> pmm_t" where
  "free_pd tab pd p =
     fold (\<lambda>i p. if tab pd i AND PTE_PRESENT = 0 \<or> tab pd i AND PTE_HUGE \<noteq> 0 then p
                 else pmm_free_page (tab pd i AND PTE_ADDR_MASK) p) [0..<512] p"

definition free_pdpt :: "(u64 \<Rightarrow> nat \<Rightarrow> u64) \<Rightarrow> u64 \<Rightarrow> pmm_t \<Rightarrow> pmm_t" where
  "free_pdpt tab pdpt p =
     fold (\<lambda>i p. if tab pdpt i AND PTE_PRESENT = 0 \<or> tab pdpt i AND PTE_HUGE \<noteq> 0 then p
                 else let pd = tab pdpt i AND PTE_ADDR_MASK in pmm_free_page pd (free_pd tab pd p)) [0..<512] p"

definition vmm_destroy_ctx :: "vmm_ctx_t option \<Rightarrow> vmm \<Rightarrow> vmm" where
  "vmm_destroy_ctx ctx s =
     (case ctx of
        None \<Rightarrow> s
      | Some c \<Rightarrow>
         (case cx_self c of
            None \<Rightarrow> s
          | Some self \<Rightarrow>
              let p = fold (\<lambda>i p. if vm_tab s (cx_cr3 c) i AND PTE_PRESENT = 0 then p
                                  else let pdpt = vm_tab s (cx_cr3 c) i AND PTE_ADDR_MASK
                                       in pmm_free_page pdpt (free_pdpt (vm_tab s) pdpt p)) [0..<256] (vm_pmm s)
              in s\<lparr>vm_pmm := pmm_free_page self (pmm_free_page (cx_cr3 c) p)\<rparr>))"

section \<open>The address space of a root\<close>

text \<open>
  The table that a path of indices leads to, the entry that a walk ends at, and whether a walk stops at a large
  page. A path is valid when it has at most three indices below 512.
\<close>

fun node_at :: "(u64 \<Rightarrow> nat \<Rightarrow> u64) \<Rightarrow> u64 \<Rightarrow> nat list \<Rightarrow> u64 option" where
  "node_at tab t [] = Some t"
| "node_at tab t (i # is) =
     (if tab t i AND PTE_HUGE \<noteq> 0 \<or> tab t i AND PTE_PRESENT = 0 then None
      else node_at tab (tab t i AND PTE_ADDR_MASK) is)"

fun lookup :: "(u64 \<Rightarrow> nat \<Rightarrow> u64) \<Rightarrow> nat list \<Rightarrow> nat \<Rightarrow> u64 \<Rightarrow> (u64 \<times> nat) option" where
  "lookup tab [] l t = Some (t, l)"
| "lookup tab (i # is) l t =
     (if tab t i AND PTE_HUGE \<noteq> 0 then Some (t, i)
      else if tab t i AND PTE_PRESENT = 0 then None
      else lookup tab is l (tab t i AND PTE_ADDR_MASK))"

fun in_large :: "(u64 \<Rightarrow> nat \<Rightarrow> u64) \<Rightarrow> nat list \<Rightarrow> u64 \<Rightarrow> bool" where
  "in_large tab [] t = False"
| "in_large tab (i # is) t =
     (tab t i AND PTE_HUGE \<noteq> 0 \<or> (tab t i AND PTE_PRESENT \<noteq> 0 \<and> in_large tab is (tab t i AND PTE_ADDR_MASK)))"

definition pte_of :: "(u64 \<Rightarrow> nat \<Rightarrow> u64) \<Rightarrow> nat list \<Rightarrow> nat \<Rightarrow> u64 \<Rightarrow> u64" where
  "pte_of tab is l t = (case lookup tab is l t of None \<Rightarrow> 0 | Some (u, i) \<Rightarrow> tab u i)"

definition valid_path :: "nat list \<Rightarrow> bool" where
  "valid_path p \<longleftrightarrow> length p \<le> 3 \<and> set p \<subseteq> {..<512}"

definition vpath :: "u64 \<Rightarrow> nat list" where
  "vpath v = [PML4_INDEX v, PDPT_INDEX v, PD_INDEX v]"

text \<open>The tables of a root form a tree, and their frames are in use.\<close>

definition in_use :: "pmm_t \<Rightarrow> u64 \<Rightarrow> bool" where
  "in_use p t \<longleftrightarrow> 0 < unat t div 4096 \<and> unat t div 4096 < unat (total_pages p) \<and> unat t div 4096 \<notin> frames p"

definition tree_inv :: "u64 \<Rightarrow> vmm \<Rightarrow> bool" where
  "tree_inv root s \<longleftrightarrow> pmm_inv (vm_pmm s)
     \<and> (\<forall>p t. valid_path p \<longrightarrow> node_at (vm_tab s) root p = Some t \<longrightarrow> in_use (vm_pmm s) t)
     \<and> (\<forall>p q t. valid_path p \<longrightarrow> valid_path q \<longrightarrow> node_at (vm_tab s) root p = Some t
          \<longrightarrow> node_at (vm_tab s) root q = Some t \<longrightarrow> p = q)"

lemma tree_invD:
  assumes "tree_inv root s"
  shows "pmm_inv (vm_pmm s)"
    and "valid_path p \<Longrightarrow> node_at (vm_tab s) root p = Some t \<Longrightarrow> in_use (vm_pmm s) t"
    and "valid_path p \<Longrightarrow> valid_path q \<Longrightarrow> node_at (vm_tab s) root p = Some t
      \<Longrightarrow> node_at (vm_tab s) root q = Some t \<Longrightarrow> p = q"
  using assms unfolding tree_inv_def by blast+

lemma tree_invI:
  assumes "pmm_inv (vm_pmm s)"
    and "\<And>p t. valid_path p \<Longrightarrow> node_at (vm_tab s) root p = Some t \<Longrightarrow> in_use (vm_pmm s) t"
    and "\<And>p q t. valid_path p \<Longrightarrow> valid_path q \<Longrightarrow> node_at (vm_tab s) root p = Some t
      \<Longrightarrow> node_at (vm_tab s) root q = Some t \<Longrightarrow> p = q"
  shows "tree_inv root s"
  using assms unfolding tree_inv_def by blast

lemma valid_path_snoc: "valid_path (p @ [i]) \<longleftrightarrow> length p < 3 \<and> valid_path p \<and> i < 512"
  by (auto simp: valid_path_def)

lemma valid_path_append: "valid_path (p @ q) \<Longrightarrow> valid_path p"
  by (auto simp: valid_path_def)

lemma index_bound: "unat ((a :: u64) AND 0x1FF) < 512"
proof -
  have "a AND 0x1FF = take_bit 9 a" by (simp add: take_bit_eq_mask mask_eq_exp_minus_1)
  then show ?thesis by (simp add: unat_mod take_bit_eq_mod)
qed

lemma valid_vpath: "valid_path (vpath v)" "length (vpath v) = 3"
  by (simp_all add: valid_path_def vpath_def index_bound)

lemma node_at_snoc:
  "node_at tab t (p @ [i]) = (case node_at tab t p of
     None \<Rightarrow> None
   | Some u \<Rightarrow> if tab u i AND PTE_HUGE \<noteq> 0 \<or> tab u i AND PTE_PRESENT = 0 then None else Some (tab u i AND PTE_ADDR_MASK))"
  by (induction p arbitrary: t) auto

lemma node_at_append:
  "node_at tab t p = Some u \<Longrightarrow> node_at tab t (p @ q) = node_at tab u q"
  by (induction p arbitrary: t) (auto split: if_splits)

lemma lookup_append:
  "node_at tab t p = Some u \<Longrightarrow> lookup tab (p @ q) l t = lookup tab q l u"
  by (induction p arbitrary: t) (auto split: if_splits)

lemma walk_lookup: "walk_levels False is l t s = (lookup (vm_tab s) is l t, s)"
  by (induction "is" arbitrary: t) (auto simp: Let_def)

text \<open>The place of a walk: the last level, or a large page on the way.\<close>

lemma lookup_place:
  assumes "lookup tab is l t = Some (u, i)"
  shows "\<exists>p. node_at tab t p = Some u \<and> (p = is \<and> i = l \<or> (\<exists>r. is = p @ i # r \<and> tab u i AND PTE_HUGE \<noteq> 0))"
  using assms
proof (induction "is" arbitrary: t)
  case Nil
  then show ?case by (intro exI [of _ "[]"]) simp
next
  case (Cons j js)
  show ?case
  proof (cases "tab t j AND PTE_HUGE \<noteq> 0")
    case True
    then show ?thesis using Cons.prems by (intro exI [of _ "[]"]) simp
  next
    case False
    then have "lookup tab js l (tab t j AND PTE_ADDR_MASK) = Some (u, i)" and pr: "tab t j AND PTE_PRESENT \<noteq> 0"
      using Cons.prems by (auto split: if_splits)
    from Cons.IH [OF this(1)] obtain p where "node_at tab (tab t j AND PTE_ADDR_MASK) p = Some u"
      "p = js \<and> i = l \<or> (\<exists>r. js = p @ i # r \<and> tab u i AND PTE_HUGE \<noteq> 0)" by blast
    then show ?thesis using False pr by (intro exI [of _ "j # p"]) auto
  qed
qed

section \<open>New tables\<close>

lemma huge_bit: "bit PTE_HUGE j \<longleftrightarrow> j = 7"
proof -
  have "PTE_HUGE = push_bit 7 (1 :: u64)" by (simp add: push_bit_eq_mult)
  then show ?thesis by (simp only: bit_push_bit_iff bit_1_iff) auto
qed

lemma table_entry_bits:
  fixes n :: u64
  assumes "take_bit 12 n = 0" and "take_bit 52 n = n"
  shows "table_entry n AND PTE_ADDR_MASK = n" and "table_entry n AND PTE_HUGE = 0"
    and "table_entry n AND PTE_PRESENT \<noteq> 0"
proof -
  have low: "12 \<le> j" if "bit n j" for j
    using arg_cong [OF assms(1), of "\<lambda>w. bit w j"] that by (simp add: bit_take_bit_iff)
  have high: "j < 52" if "bit n j" for j
    using arg_cong [OF assms(2), of "\<lambda>w. bit w j"] that by (simp add: bit_take_bit_iff)
  have seven: "table_entry n = n OR mask 3" by (simp add: or.assoc mask_eq_exp_minus_1)
  have addr: "PTE_ADDR_MASK = push_bit 12 (mask 40 :: u64)" by (simp add: push_bit_eq_mult mask_eq_exp_minus_1)
  have "bit ((n OR mask 3) AND push_bit 12 (mask 40)) j = bit n j" if "j < 64" for j
    using low [of j] high [of j] that
    by (auto simp: bit_and_iff bit_or_iff bit_push_bit_iff bit_mask_iff not_less)
  then show "table_entry n AND PTE_ADDR_MASK = n" unfolding seven addr
    by (intro bit_word_eqI) simp
  have "\<not> bit ((n OR mask 3) AND PTE_HUGE) j" if "j < 64" for j
    using low [of j] huge_bit [of j] that by (auto simp: bit_and_iff bit_or_iff bit_mask_iff)
  then show "table_entry n AND PTE_HUGE = 0" unfolding seven
    by (intro bit_word_eqI) simp
  have "bit ((n OR mask 3) AND 1) 0" by (simp add: bit_and_iff bit_or_iff bit_mask_iff bit_1_iff)
  then show "table_entry n AND PTE_PRESENT \<noteq> 0" unfolding seven by (metis bit_0_eq bot_apply bot_bool_def)
qed

lemma set_entry_simps [simp]:
  "vm_pmm (set_entry t i e s) = vm_pmm s" "vm_kernel (set_entry t i e s) = vm_kernel s"
  "vm_tab (set_entry t i e s) u j = (if u = t \<and> j = i then e else vm_tab s u j)"
  by (simp_all add: set_entry_def)

lemma zero_entries:
  "vm_pmm (fold (\<lambda>i. set_entry t i 0) xs s) = vm_pmm s \<and> vm_kernel (fold (\<lambda>i. set_entry t i 0) xs s) = vm_kernel s
     \<and> vm_tab (fold (\<lambda>i. set_entry t i 0) xs s) u j = (if u = t \<and> j \<in> set xs then 0 else vm_tab s u j)"
  by (induction xs arbitrary: s) auto

lemma zero_page_simps [simp]:
  "vm_pmm (zero_page t s) = vm_pmm s" "vm_kernel (zero_page t s) = vm_kernel s"
  "vm_tab (zero_page t s) u j = (if u = t \<and> j < 512 then 0 else vm_tab s u j)"
  using zero_entries [of t "[0..<512]"] by (simp_all add: zero_page_def)

text \<open>A frame just taken, and a table made of it: its entries are zero and everything else is as it was.\<close>

definition fresh_frame :: "u64 \<Rightarrow> vmm \<Rightarrow> vmm \<Rightarrow> bool" where
  "fresh_frame n s s' \<longleftrightarrow> pmm_inv (vm_pmm s') \<and> unat n div 4096 \<in> frames (vm_pmm s)
     \<and> frames (vm_pmm s') = frames (vm_pmm s) - {unat n div 4096}
     \<and> total_pages (vm_pmm s') = total_pages (vm_pmm s) \<and> take_bit 12 n = 0 \<and> take_bit 52 n = n"

definition fresh_table :: "u64 \<Rightarrow> vmm \<Rightarrow> vmm \<Rightarrow> bool" where
  "fresh_table n s s' \<longleftrightarrow> fresh_frame n s s' \<and> vm_kernel s' = vm_kernel s
     \<and> (\<forall>j < 512. vm_tab s' n j = 0) \<and> (\<forall>u j. u \<noteq> n \<longrightarrow> vm_tab s' u j = vm_tab s u j)"

lemma pmm_alloc_page_fresh:
  assumes inv: "pmm_inv p" and "pmm_alloc_page p = (n, p')"
  shows "n = 0 \<Longrightarrow> p' = p \<and> frames p = {}"
    and "n \<noteq> 0 \<Longrightarrow> pmm_inv p' \<and> unat n div 4096 \<in> frames p \<and> frames p' = frames p - {unat n div 4096}
      \<and> total_pages p' = total_pages p \<and> take_bit 12 n = 0 \<and> take_bit 52 n = n"
proof -
  have out: "alloc_outcome 1 p (n, p')" and inv': "pmm_inv p'"
    using pmm_alloc_page_outcome [OF inv] assms(2) by simp_all
  note D = alloc_outcomeD [OF inv out zero_less_one]
  show "p' = p \<and> frames p = {}" if "n = 0"
    using D(1,2) that by (auto simp: frames_run_fits) (auto simp: frames_def)
  assume "n \<noteq> 0"
  note E = D(3) [OF this]
  have fr: "unat n div 4096 \<in> frames p" using E by (auto simp: frames_run_fits)
  then have "unat n div 4096 < 1048576" using pmm_invD(1) [OF inv] by (auto simp: frames_def PMM_MAX_PAGES_def)
  moreover have al: "unat n = unat n div 4096 * 4096" using E by blast
  ultimately have "unat n < 4294967296" by linarith
  then have lt: "unat n < 2 ^ 52" by simp
  have "take_bit 12 n = 0" unfolding unat_eq_0 [symmetric]
    using al mod_mult_self2_is_0 [of "unat n div 4096" 4096] by (simp add: take_bit_eq_mod unat_mod)
  moreover have "take_bit 52 n = n"
    using lt by (simp add: word_unat_eq_iff unsigned_take_bit_eq take_bit_nat_eq_self)
  ultimately show "pmm_inv p' \<and> unat n div 4096 \<in> frames p \<and> frames p' = frames p - {unat n div 4096}
      \<and> total_pages p' = total_pages p \<and> take_bit 12 n = 0 \<and> take_bit 52 n = n"
    using inv' fr E by simp
qed

lemma alloc_table_fresh:
  assumes "pmm_inv (vm_pmm s)" and "alloc_table s = (n, s')"
  shows "n = 0 \<Longrightarrow> s' = s \<and> frames (vm_pmm s) = {}"
    and "n \<noteq> 0 \<Longrightarrow> fresh_table n s s'"
proof -
  obtain p where p: "pmm_alloc_page (vm_pmm s) = (n, p)"
    and s': "s' = (if n \<noteq> 0 then zero_page n (s\<lparr>vm_pmm := p\<rparr>) else s\<lparr>vm_pmm := p\<rparr>)"
    using assms(2) by (auto simp: alloc_table_def Let_def split: prod.splits)
  show "s' = s \<and> frames (vm_pmm s) = {}" if "n = 0"
    using pmm_alloc_page_fresh(1) [OF assms(1) p that] s' that by simp
  show "fresh_table n s s'" if "n \<noteq> 0"
    using pmm_alloc_page_fresh(2) [OF assms(1) p that] s' that by (auto simp: fresh_table_def fresh_frame_def)
qed

lemma tree_fresh_neq:
  assumes "tree_inv root s" and "fresh_frame n s s'" and "valid_path q" and "node_at (vm_tab s) root q = Some u"
  shows "u \<noteq> n"
  using tree_invD(2) [OF assms(1,3,4)] assms(2) unfolding fresh_frame_def in_use_def by blast

lemma fresh_in_use:
  assumes "pmm_inv (vm_pmm s)" and "fresh_frame n s s'"
  shows "in_use (vm_pmm s') n" and "in_use (vm_pmm s) t \<Longrightarrow> in_use (vm_pmm s') t"
proof -
  have "unat n div 4096 \<in> frames (vm_pmm s)" using assms(2) by (simp add: fresh_frame_def)
  then have "0 < unat n div 4096" "unat n div 4096 < unat (total_pages (vm_pmm s))"
    using pmm_invD(3) [OF assms(1)] by (auto simp: frames_def intro!: Nat.gr0I)
  then show "in_use (vm_pmm s') n" and "in_use (vm_pmm s) t \<Longrightarrow> in_use (vm_pmm s') t"
    using assms(2) by (simp_all add: fresh_frame_def in_use_def)
qed

text \<open>
  Linking a fresh table adds one node to the tree and translates nothing new.
\<close>

definition links :: "u64 \<Rightarrow> nat list \<Rightarrow> nat \<Rightarrow> u64 \<Rightarrow> u64 \<Rightarrow> vmm \<Rightarrow> vmm \<Rightarrow> bool" where
  "links root p i t n s s' \<longleftrightarrow> tree_inv root s \<and> valid_path (p @ [i]) \<and> node_at (vm_tab s) root p = Some t
     \<and> vm_tab s t i AND PTE_HUGE = 0 \<and> vm_tab s t i AND PTE_PRESENT = 0
     \<and> vm_tab s' t i = table_entry n \<and> (\<forall>j < 512. vm_tab s' n j = 0)
     \<and> (\<forall>u j. u \<noteq> n \<longrightarrow> \<not> (u = t \<and> j = i) \<longrightarrow> vm_tab s' u j = vm_tab s u j)
     \<and> fresh_frame n s s' \<and> t \<noteq> n"

lemma linksD:
  assumes "links root p i t n s s'"
  shows "tree_inv root s" and "valid_path (p @ [i])" and "node_at (vm_tab s) root p = Some t"
    and "vm_tab s t i AND PTE_HUGE = 0" and "vm_tab s t i AND PTE_PRESENT = 0"
    and "vm_tab s' t i = table_entry n" and "\<And>j. j < 512 \<Longrightarrow> vm_tab s' n j = 0"
    and "\<And>u j. u \<noteq> n \<Longrightarrow> \<not> (u = t \<and> j = i) \<Longrightarrow> vm_tab s' u j = vm_tab s u j"
    and "fresh_frame n s s'" and "t \<noteq> n"
  using assms unfolding links_def by blast+

lemma links_set:
  assumes "tree_inv root s" and "valid_path (p @ [i])" and "node_at (vm_tab s) root p = Some t"
    and "vm_tab s t i AND PTE_HUGE = 0" and "vm_tab s t i AND PTE_PRESENT = 0" and new: "fresh_table n s s1"
  shows "links root p i t n s (set_entry t i (table_entry n) s1)"
proof -
  have ff: "fresh_frame n s s1" using new by (simp add: fresh_table_def)
  have "t \<noteq> n" using tree_fresh_neq [OF assms(1) ff _ assms(3)] assms(2) valid_path_append by blast
  then show ?thesis using assms ff by (simp add: links_def fresh_table_def fresh_frame_def)
qed

lemma fresh_entry:
  assumes "fresh_frame n s s'"
  shows "table_entry n AND PTE_ADDR_MASK = n" and "table_entry n AND PTE_HUGE = 0"
    and "table_entry n AND PTE_PRESENT \<noteq> 0"
  using table_entry_bits [of n] assms unfolding fresh_frame_def by blast+

lemma links_node:
  assumes L: "links root p i t n s s'" and "valid_path q"
  shows "node_at (vm_tab s') root q = (if q = p @ [i] then Some n else node_at (vm_tab s) root q)"
  using assms(2)
proof (induction q rule: rev_induct)
  case Nil
  then show ?case by simp
next
  case (snoc j q)
  note T = linksD [OF L]
  have v: "valid_path q" "j < 512" using snoc.prems by (auto simp: valid_path_snoc)
  note IH = snoc.IH [OF v(1)]
  show ?case
  proof (cases "q = p @ [i]")
    case True
    then have "node_at (vm_tab s) root q = None" using T(3,5) by (simp add: node_at_snoc)
    moreover have "node_at (vm_tab s') root q = Some n" "q @ [j] \<noteq> p @ [i]" using IH True by simp_all
    ultimately show ?thesis unfolding node_at_snoc [of _ _ q j] using T(7) [OF v(2)] by simp
  next
    case False
    show ?thesis
    proof (cases "node_at (vm_tab s) root q")
      case None
      then show ?thesis using IH False T(3) by (auto simp: node_at_snoc)
    next
      case (Some u)
      have "u \<noteq> n" by (rule tree_fresh_neq [OF T(1,9) v(1) Some])
      have eq: "q = p \<longleftrightarrow> u = t"
        using tree_invD(3) [OF T(1) v(1) _ Some, of p] T(2,3) Some valid_path_append by auto
      show ?thesis
      proof (cases "u = t \<and> j = i")
        case True
        then show ?thesis using IH False Some eq T(6) fresh_entry [OF T(9)] by (simp add: node_at_snoc)
      next
        case other: False
        then show ?thesis using IH False Some eq T(8) [OF \<open>u \<noteq> n\<close> other] by (auto simp: node_at_snoc)
      qed
    qed
  qed
qed

lemma links_pte:
  assumes L: "links root p i t n s s'" and "node_at (vm_tab s) root q = Some u"
    and "length q + length is = 3" and "valid_path (q @ is)" and "l < 512"
  shows "pte_of (vm_tab s') is l u = pte_of (vm_tab s) is l u"
  using assms(2-4)
proof (induction "is" arbitrary: q u)
  case Nil
  note T = linksD [OF L]
  have v: "valid_path q" using Nil.prems by simp
  then have "u \<noteq> n" using tree_fresh_neq [OF T(1,9)] Nil.prems(1) by blast
  moreover have "u \<noteq> t"
  proof
    assume "u = t"
    then have "q = p" using tree_invD(3) [OF T(1) v _ Nil.prems(1)] T(2,3) valid_path_append by blast
    then show False using T(2) Nil.prems(2) by (simp add: valid_path_def)
  qed
  ultimately show ?case using T(8) by (simp add: pte_of_def)
next
  case (Cons j js)
  note T = linksD [OF L]
  have v: "valid_path q" "j < 512" and v': "valid_path ((q @ [j]) @ js)"
    using Cons.prems(3) by (auto simp: valid_path_def)
  have un: "u \<noteq> n" using tree_fresh_neq [OF T(1,9) v(1)] Cons.prems(1) by blast
  show ?case
  proof (cases "u = t \<and> j = i")
    case True
    have "pte_of (vm_tab s') js l n = 0"
      using T(7) v' assms(5) by (cases js) (auto simp: pte_of_def valid_path_def)
    then show ?thesis using True T(4-6) fresh_entry [OF T(9)] by (simp add: pte_of_def)
  next
    case False
    note same = T(8) [OF un False]
    show ?thesis
    proof (cases "vm_tab s u j AND PTE_HUGE \<noteq> 0 \<or> vm_tab s u j AND PTE_PRESENT = 0")
      case True
      then show ?thesis using same by (auto simp: pte_of_def)
    next
      case tab: False
      then have "node_at (vm_tab s) root (q @ [j]) = Some (vm_tab s u j AND PTE_ADDR_MASK)"
        using Cons.prems(1) by (simp add: node_at_snoc)
      from Cons.IH [OF this _ v'] show ?thesis using Cons.prems(2) tab same by (simp add: pte_of_def)
    qed
  qed
qed

lemma links_inv:
  assumes L: "links root p i t n s s'"
  shows "tree_inv root s'"
proof (rule tree_invI)
  note T = linksD [OF L] and N = links_node [OF L]
  show "pmm_inv (vm_pmm s')" using T(9) by (simp add: fresh_frame_def)
  show "in_use (vm_pmm s') u" if "valid_path q" "node_at (vm_tab s') root q = Some u" for q u
    using N [OF that(1)] that(2) fresh_in_use [OF tree_invD(1) [OF T(1)] T(9)] tree_invD(2) [OF T(1) that(1)]
    by (auto split: if_splits)
  have old: "node_at (vm_tab s) root q \<noteq> Some n" if "valid_path q" for q
    using tree_fresh_neq [OF T(1,9) that] by blast
  show "q = r" if "valid_path q" "valid_path r" "node_at (vm_tab s') root q = Some u"
      "node_at (vm_tab s') root r = Some u" for q r u
    using that N [OF that(1)] N [OF that(2)] old [OF that(1)] old [OF that(2)] tree_invD(3) [OF T(1) that(1,2)]
    by (auto split: if_splits)
qed

section \<open>Walking and writing\<close>

lemma fresh_card: "fresh_frame n s s' \<Longrightarrow> card (frames (vm_pmm s)) = Suc (card (frames (vm_pmm s')))"
  unfolding fresh_frame_def using card.remove [OF frames_finite] by metis

lemma not_in_large_zero: "(\<And>j. j < 512 \<Longrightarrow> tab n j = 0) \<Longrightarrow> set is \<subseteq> {..<512} \<Longrightarrow> \<not> in_large tab is n"
  by (cases "is") auto

lemma walk_create:
  assumes "tree_inv root s" and "node_at (vm_tab s) root p = Some t" and "length p + length is = 3"
    and "valid_path (p @ is)" and "\<not> in_large (vm_tab s) is t" and "walk_levels True is l t s = (r, s')"
  shows "tree_inv root s'"
    and "valid_path js \<Longrightarrow> length js = 3 \<Longrightarrow> k < 512 \<Longrightarrow> pte_of (vm_tab s') js k root = pte_of (vm_tab s) js k root"
    and "case r of None \<Rightarrow> card (frames (vm_pmm s)) < length is
         | Some (u, j) \<Rightarrow> j = l \<and> node_at (vm_tab s') root (p @ is) = Some u"
proof -
  have "tree_inv root s' \<and> (\<forall>js k. valid_path js \<longrightarrow> length js = 3 \<longrightarrow> k < 512 \<longrightarrow>
      pte_of (vm_tab s') js k root = pte_of (vm_tab s) js k root)
    \<and> (case r of None \<Rightarrow> card (frames (vm_pmm s)) < length is
         | Some (u, j) \<Rightarrow> j = l \<and> node_at (vm_tab s') root (p @ is) = Some u)"
    using assms
  proof (induction "is" arbitrary: p t s)
    case Nil
    then show ?case by auto
  next
    case (Cons i "is")
    have v: "valid_path (p @ [i])" "valid_path ((p @ [i]) @ is)" "length (p @ [i]) + length is = 3" "set is \<subseteq> {..<512}"
      using Cons.prems(3,4) by (auto simp: valid_path_def)
    have nh: "vm_tab s t i AND PTE_HUGE = 0" using Cons.prems(5) by simp
    show ?case
    proof (cases "vm_tab s t i AND PTE_PRESENT = 0")
      case False
      have "node_at (vm_tab s) root (p @ [i]) = Some (vm_tab s t i AND PTE_ADDR_MASK)"
        using Cons.prems(2) nh False by (simp add: node_at_snoc)
      from Cons.IH [OF Cons.prems(1) this v(3,2)] show ?thesis
        using Cons.prems(5,6) nh False by (simp add: Let_def split: option.splits prod.splits)
    next
      case True
      obtain n s1 where al: "alloc_table s = (n, s1)" by fastforce
      note A = alloc_table_fresh [OF tree_invD(1) [OF Cons.prems(1)] al]
      show ?thesis
      proof (cases "n = 0")
        case n0: True
        then show ?thesis using A(1) [OF n0] al Cons.prems(1,6) nh True by simp
      next
        case False
        define s2 where "s2 = set_entry t i (table_entry n) s1"
        have L: "links root p i t n s s2"
          unfolding s2_def by (rule links_set [OF Cons.prems(1) v(1) Cons.prems(2) nh True A(2) [OF False]])
        have w: "walk_levels True is l n s2 = (r, s')"
          using Cons.prems(6) al nh True False fresh_entry(1) [OF linksD(9) [OF L]] by (simp add: Let_def s2_def)
        have nd: "node_at (vm_tab s2) root (p @ [i]) = Some n" using links_node [OF L v(1)] by simp
        have nl: "\<not> in_large (vm_tab s2) is n"
          by (rule not_in_large_zero [OF _ v(4)]) (rule linksD(7) [OF L])
        have "card (frames (vm_pmm s)) = Suc (card (frames (vm_pmm s2)))"
          by (rule fresh_card [OF linksD(9) [OF L]])
        moreover have "pte_of (vm_tab s2) js k root = pte_of (vm_tab s) js k root"
          if "valid_path js" "length js = 3" "k < 512" for js k
          using links_pte [OF L, of "[]"] that by simp
        ultimately show ?thesis
          using Cons.IH [OF links_inv [OF L] nd v(3,2) nl w] by (simp split: option.splits prod.splits)
      qed
    qed
  qed
  then show "tree_inv root s'"
    and "valid_path js \<Longrightarrow> length js = 3 \<Longrightarrow> k < 512 \<Longrightarrow> pte_of (vm_tab s') js k root = pte_of (vm_tab s) js k root"
    and "case r of None \<Rightarrow> card (frames (vm_pmm s)) < length is
         | Some (u, j) \<Rightarrow> j = l \<and> node_at (vm_tab s') root (p @ is) = Some u"
    by blast+
qed

text \<open>Writing a page entry, or clearing the entry of a large page, changes that entry's translation only.\<close>

definition leaf_write :: "u64 \<Rightarrow> nat list \<Rightarrow> nat \<Rightarrow> u64 \<Rightarrow> u64 \<Rightarrow> vmm \<Rightarrow> bool" where
  "leaf_write root p i t e s \<longleftrightarrow> tree_inv root s \<and> valid_path p \<and> node_at (vm_tab s) root p = Some t
     \<and> (length p < 3 \<longrightarrow> vm_tab s t i AND PTE_HUGE \<noteq> 0 \<and> e = 0)"

lemma leaf_write_here:
  assumes "leaf_write root p i t e s" and "valid_path q" and "length q < 3" and "node_at (vm_tab s) root q = Some t"
  shows "vm_tab s t i AND PTE_HUGE \<noteq> 0" and "e = 0"
  using assms tree_invD(3) [of root s p q t] unfolding leaf_write_def by blast+

lemma leaf_write_node:
  assumes L: "leaf_write root p i t e s" and "valid_path q"
  shows "node_at (vm_tab (set_entry t i e s)) root q = node_at (vm_tab s) root q"
  using assms(2)
proof (induction q rule: rev_induct)
  case Nil
  then show ?case by simp
next
  case (snoc j q)
  have v: "valid_path q" "length q < 3" using snoc.prems by (simp_all add: valid_path_snoc)
  show ?case
  proof (cases "node_at (vm_tab s) root q")
    case None
    then show ?thesis using snoc.IH [OF v(1)] by (simp add: node_at_snoc)
  next
    case (Some u)
    show ?thesis
    proof (cases "u = t \<and> j = i")
      case True
      then show ?thesis using Some snoc.IH [OF v(1)] leaf_write_here [OF L v] by (simp add: node_at_snoc)
    next
      case False
      then show ?thesis using Some snoc.IH [OF v(1)] by (auto simp: node_at_snoc)
    qed
  qed
qed

lemma leaf_write_inv:
  assumes L: "leaf_write root p i t e s"
  shows "tree_inv root (set_entry t i e s)"
proof (rule tree_invI)
  note N = leaf_write_node [OF L]
  have inv: "tree_inv root s" using L by (simp add: leaf_write_def)
  show "pmm_inv (vm_pmm (set_entry t i e s))" using tree_invD(1) [OF inv] by simp
  show "in_use (vm_pmm (set_entry t i e s)) u"
    if "valid_path q" "node_at (vm_tab (set_entry t i e s)) root q = Some u" for q u
    using tree_invD(2) [OF inv that(1)] that(2) unfolding N [OF that(1)] by simp
  show "q = r" if "valid_path q" "valid_path r" "node_at (vm_tab (set_entry t i e s)) root q = Some u"
      "node_at (vm_tab (set_entry t i e s)) root r = Some u" for q r u
    using tree_invD(3) [OF inv that(1,2)] that(3,4) unfolding N [OF that(1)] N [OF that(2)] by blast
qed

lemma leaf_write_pte:
  assumes L: "leaf_write root p i t e s" and "node_at (vm_tab s) root q = Some u"
    and "length q + length is = 3" and "valid_path (q @ is)"
  shows "pte_of (vm_tab (set_entry t i e s)) is l u
    = (if lookup (vm_tab s) is l u = Some (t, i) then e else pte_of (vm_tab s) is l u)"
  using assms(2-4)
proof (induction "is" arbitrary: q u)
  case Nil
  then show ?case by (simp add: pte_of_def)
next
  case (Cons j js)
  have v: "valid_path q" "length q < 3" and v': "valid_path ((q @ [j]) @ js)"
    using Cons.prems(2,3) by (auto simp: valid_path_def)
  show ?case
  proof (cases "u = t \<and> j = i")
    case True
    then show ?thesis using leaf_write_here [OF L v] Cons.prems(1) by (simp add: pte_of_def)
  next
    case False
    then have same: "vm_tab (set_entry t i e s) u j = vm_tab s u j" by auto
    show ?thesis
    proof (cases "vm_tab s u j AND PTE_HUGE \<noteq> 0 \<or> vm_tab s u j AND PTE_PRESENT = 0")
      case True
      then show ?thesis using same False by (auto simp: pte_of_def)
    next
      case tab: False
      then have "node_at (vm_tab s) root (q @ [j]) = Some (vm_tab s u j AND PTE_ADDR_MASK)"
        using Cons.prems(1) by (simp add: node_at_snoc)
      from Cons.IH [OF this _ v'] show ?thesis
        using Cons.prems(2) tab same by (simp add: pte_of_def del: set_entry_simps)
    qed
  qed
qed

section \<open>Translations\<close>

definition phys_of :: "u64 \<Rightarrow> u64 \<Rightarrow> u64" where
  "phys_of e v = (if e AND PTE_PRESENT = 0 then 0
     else if e AND PTE_HUGE \<noteq> 0 then (e AND PTE_ADDR_MASK) OR (v AND 0x1FFFFF)
     else (e AND PTE_ADDR_MASK) OR (v AND 0xFFF))"

text \<open>The page of an address: its bits 12 to 47.\<close>

definition page_of :: "u64 \<Rightarrow> u64" where
  "page_of v = take_bit 36 (drop_bit 12 v)"

lemma vmm_walk_lookup: "vmm_walk ctx v False s = (lookup (vm_tab s) (vpath v) (PT_INDEX v) (cx_cr3 ctx), s)"
  by (simp add: vmm_walk_def walk_lookup vpath_def)

lemma get_phys_pte: "vmm_get_phys ctx v s = phys_of (pte_of (vm_tab s) (vpath v) (PT_INDEX v) (cx_cr3 ctx)) v"
  by (simp add: vmm_get_phys_def vmm_walk_lookup phys_of_def pte_of_def Let_def split: option.splits prod.splits)

lemma index_eq: "unat ((a :: u64) AND 0x1FF) = unat (b AND 0x1FF) \<longleftrightarrow> take_bit 9 a = take_bit 9 b"
proof -
  have "x AND 0x1FF = take_bit 9 x" for x :: u64 by (simp add: take_bit_eq_mask mask_eq_exp_minus_1)
  then show ?thesis by (simp add: word_unat_eq_iff)
qed

lemma field_eq:
  fixes v w :: u64
  shows "take_bit k (drop_bit n v) = take_bit k (drop_bit n w) \<longleftrightarrow> (\<forall>j. n \<le> j \<longrightarrow> j < n + k \<longrightarrow> bit v j = bit w j)"
proof -
  have "take_bit k (drop_bit n v) = take_bit k (drop_bit n w) \<longleftrightarrow> (\<forall>j. j < k \<longrightarrow> bit v (n + j) = bit w (n + j))"
  proof (rule iffI, intro allI impI)
    show "bit v (n + j) = bit w (n + j)" if "take_bit k (drop_bit n v) = take_bit k (drop_bit n w)" "j < k" for j
      using arg_cong [OF that(1), of "\<lambda>x. bit x j"] that(2) by (simp add: bit_take_bit_iff bit_drop_bit_eq)
  qed (auto intro!: bit_word_eqI simp: bit_take_bit_iff bit_drop_bit_eq)
  also have "\<dots> \<longleftrightarrow> (\<forall>j. n \<le> j \<longrightarrow> j < n + k \<longrightarrow> bit v j = bit w j)"
    by (metis le_Suc_ex nat_add_left_cancel_less le_add1)
  finally show ?thesis .
qed

lemma page_of_eq: "vpath v = vpath w \<and> PT_INDEX v = PT_INDEX w \<longleftrightarrow> page_of v = page_of w"
proof
  assume "vpath v = vpath w \<and> PT_INDEX v = PT_INDEX w"
  then have *: "\<And>j. 39 \<le> j \<Longrightarrow> j < 48 \<Longrightarrow> bit v j = bit w j" "\<And>j. 30 \<le> j \<Longrightarrow> j < 39 \<Longrightarrow> bit v j = bit w j"
    "\<And>j. 21 \<le> j \<Longrightarrow> j < 30 \<Longrightarrow> bit v j = bit w j" "\<And>j. 12 \<le> j \<Longrightarrow> j < 21 \<Longrightarrow> bit v j = bit w j"
    by (simp_all add: vpath_def index_eq field_eq)
  have "bit v j = bit w j" if "12 \<le> j" "j < 48" for j
    using * [of j] that by linarith
  then show "page_of v = page_of w" by (simp add: page_of_def field_eq)
next
  assume "page_of v = page_of w"
  then have "bit v j = bit w j" if "12 \<le> j" "j < 48" for j
    using that by (simp add: page_of_def field_eq)
  then show "vpath v = vpath w \<and> PT_INDEX v = PT_INDEX w" by (simp add: vpath_def index_eq field_eq)
qed

lemma merge_bits:
  fixes a f m x :: u64
  shows "((a AND m) OR (f AND NOT m)) AND m = a AND m"
    and "m AND x = 0 \<Longrightarrow> ((a AND m) OR (f AND NOT m)) AND x = f AND x"
proof -
  show "((a AND m) OR (f AND NOT m)) AND m = a AND m"
    by (rule bit_word_eqI) (auto simp: bit_and_iff bit_or_iff bit_not_iff)
  assume "m AND x = 0"
  then have "\<not> (bit m j \<and> bit x j)" for j using bit_and_iff [of m x j] by simp
  then show "((a AND m) OR (f AND NOT m)) AND x = f AND x"
    by (intro bit_word_eqI) (auto simp: bit_and_iff bit_or_iff bit_not_iff)
qed

lemma phys_of_page_entry:
  assumes "flags AND PTE_PRESENT \<noteq> 0" and "flags AND PTE_HUGE = 0"
  shows "phys_of ((pa AND PTE_ADDR_MASK) OR (flags AND NOT PTE_ADDR_MASK)) w = (pa AND PTE_ADDR_MASK) OR (w AND 0xFFF)"
proof -
  note m = merge_bits [where a = pa and f = flags and m = PTE_ADDR_MASK]
  have "PTE_ADDR_MASK AND PTE_PRESENT = 0" "PTE_ADDR_MASK AND PTE_HUGE = 0" by simp_all
  then show ?thesis unfolding phys_of_def m(1) m(2) [OF \<open>PTE_ADDR_MASK AND PTE_PRESENT = 0\<close>]
      m(2) [OF \<open>PTE_ADDR_MASK AND PTE_HUGE = 0\<close>]
    using assms by (simp only: if_False not_True_eq_False simp_thms)
qed

lemma lookup_page:
  assumes "tree_inv root s" and "node_at (vm_tab s) root (vpath v) = Some u"
  shows "lookup (vm_tab s) (vpath w) (PT_INDEX w) root = Some (u, PT_INDEX v) \<longleftrightarrow> page_of w = page_of v"
proof
  assume "lookup (vm_tab s) (vpath w) (PT_INDEX w) root = Some (u, PT_INDEX v)"
  from lookup_place [OF this] obtain p where p: "node_at (vm_tab s) root p = Some u"
    "p = vpath w \<and> PT_INDEX v = PT_INDEX w \<or> (\<exists>r. vpath w = p @ PT_INDEX v # r)" by blast
  have "valid_path p" using p(2) valid_vpath(1) [of w] valid_path_append by metis
  then have "p = vpath v" using tree_invD(3) [OF assms(1) _ _ p(1) assms(2)] valid_vpath by blast
  moreover have "length (vpath w) = length (vpath v)" by (simp add: valid_vpath)
  ultimately have "vpath w = vpath v \<and> PT_INDEX w = PT_INDEX v" using p(2) by auto
  then show "page_of w = page_of v" by (simp add: page_of_eq)
next
  assume "page_of w = page_of v"
  then have "vpath w = vpath v \<and> PT_INDEX w = PT_INDEX v" by (simp add: page_of_eq)
  then show "lookup (vm_tab s) (vpath w) (PT_INDEX w) root = Some (u, PT_INDEX v)"
    using lookup_append [OF assms(2), of "[]"] by simp
qed

lemma vmm_map_page_spec:
  assumes inv: "tree_inv (cx_cr3 ctx) s" and fl: "flags AND PTE_PRESENT \<noteq> 0" "flags AND PTE_HUGE = 0"
    and nl: "\<not> in_large (vm_tab s) (vpath v) (cx_cr3 ctx)"
  shows "tree_inv (cx_cr3 ctx) (vmm_map_page ctx v pa flags s)"
    and "(\<forall>w. vmm_get_phys ctx w (vmm_map_page ctx v pa flags s) =
            (if page_of w = page_of v then (pa AND PTE_ADDR_MASK) OR (w AND 0xFFF) else vmm_get_phys ctx w s))
      \<or> card (frames (vm_pmm s)) < 3
        \<and> (\<forall>w. vmm_get_phys ctx w (vmm_map_page ctx v pa flags s) = vmm_get_phys ctx w s)"
proof -
  let ?root = "cx_cr3 ctx" and ?s' = "vmm_map_page ctx v pa flags s"
  let ?e = "(pa AND PTE_ADDR_MASK) OR (flags AND NOT PTE_ADDR_MASK)"
  obtain r s1 where w: "walk_levels True (vpath v) (PT_INDEX v) ?root s = (r, s1)" by fastforce
  have s': "?s' = (case r of None \<Rightarrow> s1 | Some (t, i) \<Rightarrow> set_entry t i ?e s1)"
    using w by (simp add: vmm_map_page_def vmm_walk_def vpath_def split: option.splits)
  note W = walk_create [OF inv _ _ _ nl w, of "[]"]
  have inv1: "tree_inv ?root s1" by (rule W(1)) (simp_all add: valid_vpath)
  have same: "pte_of (vm_tab s1) (vpath w) (PT_INDEX w) ?root = pte_of (vm_tab s) (vpath w) (PT_INDEX w) ?root" for w
    by (rule W(2)) (simp_all add: valid_vpath index_bound)
  have end_of: "case r of None \<Rightarrow> card (frames (vm_pmm s)) < 3
      | Some (u, j) \<Rightarrow> j = PT_INDEX v \<and> node_at (vm_tab s1) ?root (vpath v) = Some u"
    using W(3) unfolding append_Nil valid_vpath(2) by (simp add: valid_vpath)
  have "tree_inv ?root ?s' \<and> ((\<forall>w. vmm_get_phys ctx w ?s' =
            (if page_of w = page_of v then (pa AND PTE_ADDR_MASK) OR (w AND 0xFFF) else vmm_get_phys ctx w s))
      \<or> card (frames (vm_pmm s)) < 3 \<and> (\<forall>w. vmm_get_phys ctx w ?s' = vmm_get_phys ctx w s))"
  proof (cases r)
    case None
    then show ?thesis using s' inv1 end_of same by (simp add: get_phys_pte)
  next
    case (Some a)
    then obtain u where r: "r = Some (u, PT_INDEX v)" and nd: "node_at (vm_tab s1) ?root (vpath v) = Some u"
      using end_of by (cases a) auto
    have L: "leaf_write ?root (vpath v) (PT_INDEX v) u ?e s1"
      using inv1 nd by (simp add: leaf_write_def valid_vpath)
    have "pte_of (vm_tab ?s') (vpath w) (PT_INDEX w) ?root
        = (if page_of w = page_of v then ?e else pte_of (vm_tab s) (vpath w) (PT_INDEX w) ?root)" for w
      using leaf_write_pte [OF L, of "[]" ?root "vpath w" "PT_INDEX w"]
      by (simp add: s' r valid_vpath lookup_page [OF inv1 nd] same del: set_entry_simps)
    then show ?thesis using leaf_write_inv [OF L] phys_of_page_entry [OF fl]
      by (simp add: s' r get_phys_pte del: set_entry_simps)
  qed
  then show "tree_inv ?root ?s'" and "(\<forall>w. vmm_get_phys ctx w ?s' =
            (if page_of w = page_of v then (pa AND PTE_ADDR_MASK) OR (w AND 0xFFF) else vmm_get_phys ctx w s))
      \<or> card (frames (vm_pmm s)) < 3 \<and> (\<forall>w. vmm_get_phys ctx w ?s' = vmm_get_phys ctx w s)"
    by blast+
qed

lemma vmm_unmap_page_spec:
  assumes inv: "tree_inv (cx_cr3 ctx) s"
  shows "tree_inv (cx_cr3 ctx) (vmm_unmap_page ctx v s)"
    and "vmm_get_phys ctx w (vmm_unmap_page ctx v s) =
      (if fst (vmm_walk ctx w False s) = fst (vmm_walk ctx v False s) then 0 else vmm_get_phys ctx w s)"
proof -
  let ?root = "cx_cr3 ctx" and ?s' = "vmm_unmap_page ctx v s"
  have "tree_inv ?root ?s' \<and> pte_of (vm_tab ?s') (vpath w) (PT_INDEX w) ?root AND PTE_PRESENT =
      (if lookup (vm_tab s) (vpath w) (PT_INDEX w) ?root = lookup (vm_tab s) (vpath v) (PT_INDEX v) ?root then 0
       else pte_of (vm_tab s) (vpath w) (PT_INDEX w) ?root AND PTE_PRESENT)
    \<and> (lookup (vm_tab s) (vpath w) (PT_INDEX w) ?root \<noteq> lookup (vm_tab s) (vpath v) (PT_INDEX v) ?root
      \<longrightarrow> pte_of (vm_tab ?s') (vpath w) (PT_INDEX w) ?root = pte_of (vm_tab s) (vpath w) (PT_INDEX w) ?root)"
  proof (cases "\<exists>t i. lookup (vm_tab s) (vpath v) (PT_INDEX v) ?root = Some (t, i) \<and> vm_tab s t i AND PTE_PRESENT \<noteq> 0")
    case False
    then have "?s' = s"
      by (auto simp: vmm_unmap_page_def vmm_walk_lookup split: option.splits prod.splits)
    then show ?thesis using False inv by (auto simp: pte_of_def split: option.splits)
  next
    case True
    then obtain t i where lk: "lookup (vm_tab s) (vpath v) (PT_INDEX v) ?root = Some (t, i)"
      and pr: "vm_tab s t i AND PTE_PRESENT \<noteq> 0" by blast
    have s': "?s' = set_entry t i 0 s" using lk pr by (simp add: vmm_unmap_page_def vmm_walk_lookup)
    obtain p where p: "node_at (vm_tab s) ?root p = Some t"
      "p = vpath v \<or> (\<exists>r. vpath v = p @ i # r \<and> vm_tab s t i AND PTE_HUGE \<noteq> 0)"
      using lookup_place [OF lk] by blast
    have "valid_path p" using p(2) valid_vpath(1) [of v] valid_path_append by metis
    then have L: "leaf_write ?root p i t 0 s"
      using inv p valid_vpath(2) [of v] by (auto simp: leaf_write_def)
    show ?thesis using leaf_write_inv [OF L] leaf_write_pte [OF L, of "[]" ?root "vpath w" "PT_INDEX w"]
      by (simp add: s' lk valid_vpath del: set_entry_simps)
  qed
  then show "tree_inv ?root ?s'" and "vmm_get_phys ctx w ?s' =
      (if fst (vmm_walk ctx w False s) = fst (vmm_walk ctx v False s) then 0 else vmm_get_phys ctx w s)"
    by (auto simp: get_phys_pte vmm_walk_lookup phys_of_def split: if_splits)
qed

section \<open>Contexts\<close>

declare upt_rec_numeral [simp del]

text \<open>Changing a frame that is no table of a root changes nothing for the root.\<close>

lemma untouched_node:
  assumes "\<And>u j. u \<noteq> n \<Longrightarrow> tab' u j = tab u j" and "\<And>p. valid_path p \<Longrightarrow> node_at tab root p \<noteq> Some n"
    and "valid_path q"
  shows "node_at tab' root q = node_at tab root q"
  using assms(3)
proof (induction q rule: rev_induct)
  case Nil
  then show ?case by simp
next
  case (snoc j q)
  have v: "valid_path q" using snoc.prems by (simp add: valid_path_snoc)
  show ?case
  proof (cases "node_at tab root q")
    case None
    then show ?thesis using snoc.IH [OF v] by (simp add: node_at_snoc)
  next
    case (Some u)
    then have "u \<noteq> n" using assms(2) [OF v] by auto
    then show ?thesis using Some snoc.IH [OF v] assms(1) by (simp add: node_at_snoc)
  qed
qed

lemma untouched_pte:
  assumes "\<And>u j. u \<noteq> n \<Longrightarrow> tab' u j = tab u j" and "\<And>p. valid_path p \<Longrightarrow> node_at tab root p \<noteq> Some n"
    and "node_at tab root q = Some u" and "valid_path (q @ is)"
  shows "pte_of tab' is l u = pte_of tab is l u"
  using assms(3,4)
proof (induction "is" arbitrary: q u)
  case Nil
  then show ?case using assms(1,2) by (force simp: pte_of_def)
next
  case (Cons j js)
  have v: "valid_path q" "valid_path ((q @ [j]) @ js)" using Cons.prems(2) valid_path_append by auto
  then have "u \<noteq> n" using assms(2) Cons.prems(1) by auto
  note same = assms(1) [OF this, of j]
  show ?case
  proof (cases "tab u j AND PTE_HUGE \<noteq> 0 \<or> tab u j AND PTE_PRESENT = 0")
    case True
    then show ?thesis using same by (auto simp: pte_of_def)
  next
    case False
    then have "node_at tab root (q @ [j]) = Some (tab u j AND PTE_ADDR_MASK)"
      using Cons.prems(1) by (simp add: node_at_snoc)
    from Cons.IH [OF this v(2)] show ?thesis using False same by (simp add: pte_of_def)
  qed
qed

lemma fresh_untouched:
  assumes inv: "tree_inv root s" and new: "fresh_frame n s s'" and same: "\<And>u j. u \<noteq> n \<Longrightarrow> vm_tab s' u j = vm_tab s u j"
  shows "valid_path q \<Longrightarrow> node_at (vm_tab s') root q = node_at (vm_tab s) root q"
    and "valid_path is \<Longrightarrow> pte_of (vm_tab s') is l root = pte_of (vm_tab s) is l root"
    and "tree_inv root s'"
proof -
  have no: "node_at (vm_tab s) root p \<noteq> Some n" if "valid_path p" for p
    using tree_fresh_neq [OF inv new that] by blast
  show N: "node_at (vm_tab s') root q = node_at (vm_tab s) root q" if "valid_path q" for q
    by (rule untouched_node [OF same no that])
  show "valid_path is \<Longrightarrow> pte_of (vm_tab s') is l root = pte_of (vm_tab s) is l root"
    using untouched_pte [OF same no, of "[]" root] by simp
  show "tree_inv root s'"
  proof (rule tree_invI)
    show "pmm_inv (vm_pmm s')" using new by (simp add: fresh_frame_def)
    show "in_use (vm_pmm s') t" if "valid_path p" "node_at (vm_tab s') root p = Some t" for p t
      using fresh_in_use(2) [OF tree_invD(1) [OF inv] new] tree_invD(2) [OF inv that(1)] that(2) N [OF that(1)] by simp
    show "p = q" if "valid_path p" "valid_path q" "node_at (vm_tab s') root p = Some t"
        "node_at (vm_tab s') root q = Some t" for p q t
      using tree_invD(3) [OF inv that(1,2)] that(3,4) N [OF that(1)] N [OF that(2)] by simp
  qed
qed

text \<open>A new root that shares the upper half of another.\<close>

definition shares :: "u64 \<Rightarrow> u64 \<Rightarrow> (u64 \<Rightarrow> nat \<Rightarrow> u64) \<Rightarrow> bool" where
  "shares n k tab \<longleftrightarrow> (\<forall>j < 512. tab n j = (if 256 \<le> j then tab k j else 0))"

lemma shares_node:
  assumes "shares n k tab" and "valid_path (i # q)"
  shows "node_at tab n (i # q) = (if 256 \<le> i then node_at tab k (i # q) else None)"
  using assms by (simp add: shares_def valid_path_def)

lemma shares_pte:
  assumes "shares n k tab" and "valid_path (i # is)"
  shows "pte_of tab (i # is) l n = (if 256 \<le> i then pte_of tab (i # is) l k else 0)"
  using assms by (simp add: shares_def valid_path_def pte_of_def)

lemma shares_inv:
  assumes sh: "shares n k (vm_tab s)" and inv: "tree_inv k s" and "in_use (vm_pmm s) n"
    and no: "\<And>p. valid_path p \<Longrightarrow> node_at (vm_tab s) k p \<noteq> Some n"
  shows "tree_inv n s"
proof (rule tree_invI)
  show "pmm_inv (vm_pmm s)" by (rule tree_invD(1) [OF inv])
  have in_k: "p = [] \<and> t = n \<or> p \<noteq> [] \<and> node_at (vm_tab s) k p = Some t"
    if "valid_path p" "node_at (vm_tab s) n p = Some t" for p t
    using that shares_node [OF sh] by (cases p) (auto split: if_splits)
  show "in_use (vm_pmm s) t" if "valid_path p" "node_at (vm_tab s) n p = Some t" for p t
    using in_k [OF that] assms(3) tree_invD(2) [OF inv that(1)] by blast
  show "p = q" if "valid_path p" "valid_path q" "node_at (vm_tab s) n p = Some t" "node_at (vm_tab s) n q = Some t" for p q t
    using in_k [OF that(1,3)] in_k [OF that(2,4)] no [OF that(1)] no [OF that(2)] tree_invD(3) [OF inv that(1,2)] by blast
qed

lemma copy_entries:
  assumes "n \<noteq> vm_kernel s"
  shows "vm_pmm (fold (\<lambda>i s. set_entry n i (vm_tab s (vm_kernel s) i) s) xs s) = vm_pmm s
    \<and> vm_kernel (fold (\<lambda>i s. set_entry n i (vm_tab s (vm_kernel s) i) s) xs s) = vm_kernel s
    \<and> vm_tab (fold (\<lambda>i s. set_entry n i (vm_tab s (vm_kernel s) i) s) xs s) u j =
        (if u = n \<and> j \<in> set xs then vm_tab s (vm_kernel s) j else vm_tab s u j)"
  using assms by (induction xs arbitrary: s) auto

lemma pmm_free_page_frames:
  assumes "pmm_inv p" and "0 < unat t div 4096" and "unat t div 4096 < unat (total_pages p)"
  shows "frames (pmm_free_page t p) = insert (unat t div 4096) (frames p)"
    and "pmm_inv (pmm_free_page t p)" and "total_pages (pmm_free_page t p) = total_pages p"
proof -
  have lt: "t div PAGE_SIZE < total_pages p" using assms(3) by (simp add: word_less_nat_alt)
  note r = pmm_release_frames [OF assms(1) lt]
  show "frames (pmm_free_page t p) = insert (unat t div 4096) (frames p)"
    and "pmm_inv (pmm_free_page t p)" and "total_pages (pmm_free_page t p) = total_pages p"
    using lt r assms(2) by (simp_all add: pmm_free_page_def Let_def linorder_not_less [symmetric])
qed

abbreviation kernel_ctx :: "vmm \<Rightarrow> vmm_ctx_t" where
  "kernel_ctx s \<equiv> \<lparr>cx_cr3 = vm_kernel s, cx_self = None\<rparr>"

text \<open>The root of a new context: a fresh frame, zero below and the kernel's entries above.\<close>

lemma new_root:
  assumes inv: "tree_inv (vm_kernel s) s" and new: "fresh_table n s s1"
    and s2: "s2 = fold (\<lambda>i s. set_entry n i (vm_tab s (vm_kernel s) i) s) [256..<512] s1"
  shows "fresh_frame n s s2" and "vm_kernel s2 = vm_kernel s" and "vm_pmm s2 = vm_pmm s1"
    and "\<And>u j. u \<noteq> n \<Longrightarrow> vm_tab s2 u j = vm_tab s u j" and "shares n (vm_kernel s) (vm_tab s2)"
proof -
  have ff: "fresh_frame n s s1" and k: "vm_kernel s1 = vm_kernel s" using new by (simp_all add: fresh_table_def)
  have ne: "n \<noteq> vm_kernel s" using tree_fresh_neq [OF inv ff, of "[]"] by (auto simp: valid_path_def)
  note C = copy_entries [of n s1 "[256..<512]", folded s2]
  show "vm_kernel s2 = vm_kernel s" and pm: "vm_pmm s2 = vm_pmm s1" using C ne k by simp_all
  show "fresh_frame n s s2" using ff pm by (simp add: fresh_frame_def)
  show "vm_tab s2 u j = vm_tab s u j" if "u \<noteq> n" for u j using C ne k new that by (simp add: fresh_table_def)
  show "shares n (vm_kernel s) (vm_tab s2)" using C ne k new by (auto simp: shares_def fresh_table_def)
qed

lemma vmm_create_ctx_None:
  assumes inv: "tree_inv (vm_kernel s) s" and cr: "vmm_create_ctx s = (None, s')"
  shows "card (frames (vm_pmm s)) < 2" and "frames (vm_pmm s') = frames (vm_pmm s)"
    and "vm_kernel s' = vm_kernel s" and "vmm_get_phys (kernel_ctx s) w s' = vmm_get_phys (kernel_ctx s) w s"
proof -
  obtain n s1 where al: "alloc_table s = (n, s1)" by fastforce
  note A = alloc_table_fresh [OF tree_invD(1) [OF inv] al]
  have "card (frames (vm_pmm s)) < 2 \<and> frames (vm_pmm s') = frames (vm_pmm s) \<and> vm_kernel s' = vm_kernel s
    \<and> vmm_get_phys (kernel_ctx s) w s' = vmm_get_phys (kernel_ctx s) w s"
  proof (cases "n = 0")
    case True
    then show ?thesis using A(1) cr al by (simp add: vmm_create_ctx_def)
  next
    case False
    define s2 where "s2 = fold (\<lambda>i s. set_entry n i (vm_tab s (vm_kernel s) i) s) [256..<512] s1"
    note R = new_root [OF inv A(2) [OF False] s2_def]
    obtain c p where pa: "pmm_alloc_page (vm_pmm s2) = (c, p)" by fastforce
    have c0: "c = 0" and s': "s' = s2\<lparr>vm_pmm := pmm_free_page n p\<rparr>"
      using cr al False pa by (auto simp: vmm_create_ctx_def s2_def [symmetric] Let_def split: if_splits)
    have i2: "pmm_inv (vm_pmm s2)" using R(1) by (simp add: fresh_frame_def)
    have p: "p = vm_pmm s2" "frames (vm_pmm s2) = {}" using pmm_alloc_page_fresh(1) [OF i2 pa c0] by simp_all
    have u: "in_use (vm_pmm s2) n" by (rule fresh_in_use(1) [OF tree_invD(1) [OF inv] R(1)])
    have "frames (vm_pmm s') = insert (unat n div 4096) (frames (vm_pmm s2))"
      using pmm_free_page_frames(1) [OF i2] u by (simp add: s' p(1) in_use_def)
    also have "\<dots> = frames (vm_pmm s)" using R(1) by (auto simp: fresh_frame_def)
    finally have "frames (vm_pmm s') = frames (vm_pmm s)" .
    moreover have "pte_of (vm_tab s2) (vpath w) (PT_INDEX w) (vm_kernel s) = pte_of (vm_tab s) (vpath w) (PT_INDEX w) (vm_kernel s)"
      by (rule fresh_untouched(2) [OF inv R(1,4)]) (simp_all add: valid_vpath)
    ultimately show ?thesis using fresh_card [OF R(1)] p(2) R(2) by (simp add: s' get_phys_pte)
  qed
  then show "card (frames (vm_pmm s)) < 2" and "frames (vm_pmm s') = frames (vm_pmm s)"
    and "vm_kernel s' = vm_kernel s" and "vmm_get_phys (kernel_ctx s) w s' = vmm_get_phys (kernel_ctx s) w s" by blast+
qed

lemma vmm_create_ctx_Some:
  assumes inv: "tree_inv (vm_kernel s) s" and cr: "vmm_create_ctx s = (Some c, s')"
  obtains self where "cx_self c = Some self" "in_use (vm_pmm s') self" "vm_kernel s' = vm_kernel s"
    "tree_inv (vm_kernel s) s'" "tree_inv (cx_cr3 c) s'" "shares (cx_cr3 c) (vm_kernel s) (vm_tab s')"
    "frames (vm_pmm s) = frames (vm_pmm s') \<union> {unat (cx_cr3 c) div 4096, unat self div 4096}"
    "\<And>w. pte_of (vm_tab s') (vpath w) (PT_INDEX w) (vm_kernel s) = pte_of (vm_tab s) (vpath w) (PT_INDEX w) (vm_kernel s)"
proof -
  obtain n s1 where al: "alloc_table s = (n, s1)" by fastforce
  have n0: "n \<noteq> 0" using cr al by (auto simp: vmm_create_ctx_def)
  define s2 where "s2 = fold (\<lambda>i s. set_entry n i (vm_tab s (vm_kernel s) i) s) [256..<512] s1"
  note R = new_root [OF inv alloc_table_fresh(2) [OF tree_invD(1) [OF inv] al n0] s2_def]
  obtain x p where pa: "pmm_alloc_page (vm_pmm s2) = (x, p)" by fastforce
  have x0: "x \<noteq> 0" and c: "c = \<lparr>cx_cr3 = n, cx_self = Some x\<rparr>" and s': "s' = s2\<lparr>vm_pmm := p\<rparr>"
    using cr al n0 pa by (auto simp: vmm_create_ctx_def s2_def [symmetric] Let_def split: if_splits)
  have i2: "pmm_inv (vm_pmm s2)" using R(1) by (simp add: fresh_frame_def)
  have fx: "fresh_frame x s2 s'" using pmm_alloc_page_fresh(2) [OF i2 pa x0] by (simp add: s' fresh_frame_def)
  have k2: "tree_inv (vm_kernel s) s2" by (rule fresh_untouched(3) [OF inv R(1,4)])
  have "node_at (vm_tab s2) (vm_kernel s) q \<noteq> Some n" if "valid_path q" for q
    using tree_fresh_neq [OF inv R(1) that] fresh_untouched(1) [OF inv R(1,4) that] by auto
  then have n2: "tree_inv n s2"
    using shares_inv [OF R(5) k2 fresh_in_use(1) [OF tree_invD(1) [OF inv] R(1)]] by blast
  have same: "vm_tab s' u j = vm_tab s2 u j" for u j by (simp add: s')
  show thesis
  proof (rule that [of x])
    show "cx_self c = Some x" "vm_kernel s' = vm_kernel s" using R(2) by (simp_all add: c s')
    show "in_use (vm_pmm s') x" by (rule fresh_in_use(1) [OF i2 fx])
    show "tree_inv (vm_kernel s) s'" by (rule fresh_untouched(3) [OF k2 fx same])
    show "tree_inv (cx_cr3 c) s'" unfolding c using fresh_untouched(3) [OF n2 fx same] by simp
    show "shares (cx_cr3 c) (vm_kernel s) (vm_tab s')" using R(5) by (simp add: c s')
    show "frames (vm_pmm s) = frames (vm_pmm s') \<union> {unat (cx_cr3 c) div 4096, unat x div 4096}"
      using R(1) fx by (auto simp: c fresh_frame_def)
    show "pte_of (vm_tab s') (vpath w) (PT_INDEX w) (vm_kernel s) = pte_of (vm_tab s) (vpath w) (PT_INDEX w) (vm_kernel s)" for w
      using fresh_untouched(2) [OF inv R(1,4) valid_vpath(1)] by (simp add: s')
  qed
qed

text \<open>Destroying a context gives back the tables of its lower half.\<close>

definition subtree :: "(u64 \<Rightarrow> nat \<Rightarrow> u64) \<Rightarrow> nat \<Rightarrow> u64 \<Rightarrow> nat set" where
  "subtree tab k t = {unat u div 4096 | q u. length q \<le> k \<and> set q \<subseteq> {..<512} \<and> node_at tab t q = Some u}"

abbreviation is_table :: "u64 \<Rightarrow> bool" where
  "is_table e \<equiv> e AND PTE_PRESENT \<noteq> 0 \<and> e AND PTE_HUGE = 0"

lemma subtree_0: "subtree tab 0 t = {unat t div 4096}"
  by (auto simp: subtree_def)

lemma subtree_Suc:
  "subtree tab (Suc k) t = insert (unat t div 4096)
     (\<Union>i \<in> {..<512}. if is_table (tab t i) then subtree tab k (tab t i AND PTE_ADDR_MASK) else {})"
proof (intro equalityI subsetI)
  fix x
  assume "x \<in> subtree tab (Suc k) t"
  then obtain q u where q: "x = unat u div 4096" "length q \<le> Suc k" "set q \<subseteq> {..<512}" "node_at tab t q = Some u"
    unfolding subtree_def by blast
  show "x \<in> insert (unat t div 4096) (\<Union>i \<in> {..<512}. if is_table (tab t i) then subtree tab k (tab t i AND PTE_ADDR_MASK) else {})"
  proof (cases q)
    case Nil
    then show ?thesis using q by simp
  next
    case (Cons i r)
    then have "i < 512" "is_table (tab t i)" "x \<in> subtree tab k (tab t i AND PTE_ADDR_MASK)"
      using q by (auto simp: subtree_def split: if_splits)
    then show ?thesis by (intro insertI2 UN_I [of i]) simp_all
  qed
next
  fix x
  assume "x \<in> insert (unat t div 4096) (\<Union>i \<in> {..<512}. if is_table (tab t i) then subtree tab k (tab t i AND PTE_ADDR_MASK) else {})"
  then consider "x = unat t div 4096"
    | i where "i < 512" "is_table (tab t i)" "x \<in> subtree tab k (tab t i AND PTE_ADDR_MASK)"
    by (auto split: if_splits)
  then show "x \<in> subtree tab (Suc k) t"
  proof cases
    case 1
    then show ?thesis unfolding subtree_def by (intro CollectI exI [of _ "[]"] exI [of _ t]) simp
  next
    case 2
    then obtain q u where "x = unat u div 4096" "length q \<le> k" "set q \<subseteq> {..<512}"
      "node_at tab (tab t i AND PTE_ADDR_MASK) q = Some u" unfolding subtree_def by blast
    then show ?thesis using 2 unfolding subtree_def by (intro CollectI exI [of _ "i # q"] exI [of _ u]) simp
  qed
qed

text \<open>A step that gives back the frames \<open>A\<close>, as long as they are frames of memory.\<close>

definition releases :: "u64 \<Rightarrow> (pmm_t \<Rightarrow> pmm_t) \<Rightarrow> nat set \<Rightarrow> bool" where
  "releases T f A \<longleftrightarrow> (A \<subseteq> {0<..<unat T} \<longrightarrow> (\<forall>p. pmm_inv p \<longrightarrow> total_pages p = T \<longrightarrow>
     frames (f p) = frames p \<union> A \<and> pmm_inv (f p) \<and> total_pages (f p) = T))"

lemma releases_page: "releases T (pmm_free_page t) {unat t div 4096}"
  using pmm_free_page_frames [of _ t] by (auto simp: releases_def)

lemma releases_comp: "releases T f A \<Longrightarrow> releases T g B \<Longrightarrow> releases T (\<lambda>p. g (f p)) (A \<union> B)"
  unfolding releases_def by auto

lemma releases_if: "releases T f A \<Longrightarrow> releases T (\<lambda>p. if b then p else f p) (if b then {} else A)"
  by (auto simp: releases_def)

lemma releases_fold: "(\<And>i. i \<in> set xs \<Longrightarrow> releases T (f i) (A i)) \<Longrightarrow> releases T (fold f xs) (\<Union>i \<in> set xs. A i)"
proof (induction xs)
  case Nil
  then show ?case by (simp add: releases_def)
next
  case (Cons x xs)
  then show ?case using releases_comp [of T "f x" "A x" "fold f xs"] by (simp add: comp_def)
qed

lemma releases_tables:
  assumes "\<And>t. releases T (g t) (subtree tab k t)"
  shows "releases T (\<lambda>p. pmm_free_page t (fold (\<lambda>i p. if tab t i AND PTE_PRESENT = 0 \<or> tab t i AND PTE_HUGE \<noteq> 0 then p
      else g (tab t i AND PTE_ADDR_MASK) p) [0..<512] p)) (subtree tab (Suc k) t)"
proof -
  let ?f = "\<lambda>i p. if tab t i AND PTE_PRESENT = 0 \<or> tab t i AND PTE_HUGE \<noteq> 0 then p else g (tab t i AND PTE_ADDR_MASK) p"
  let ?A = "\<lambda>i. if is_table (tab t i) then subtree tab k (tab t i AND PTE_ADDR_MASK) else {}"
  have "releases T (?f i) (?A i)" for i
    using releases_if [OF assms [of "tab t i AND PTE_ADDR_MASK"], of "tab t i AND PTE_PRESENT = 0 \<or> tab t i AND PTE_HUGE \<noteq> 0"]
    by (auto split: if_splits)
  then have "releases T (fold ?f [0..<512]) (\<Union>i \<in> set [0..<512]. ?A i)" by (intro releases_fold)
  from releases_comp [OF this releases_page [of T t]] show ?thesis by (simp add: subtree_Suc atLeast0LessThan)
qed

lemma releases_pd: "releases T (\<lambda>p. pmm_free_page pd (free_pd tab pd p)) (subtree tab 1 pd)"
  using releases_tables [of T pmm_free_page tab 0 pd] releases_page
  by (simp add: free_pd_def subtree_0 One_nat_def [symmetric] del: One_nat_def)

lemma releases_pdpt: "releases T (\<lambda>p. pmm_free_page t (free_pdpt tab t p)) (subtree tab 2 t)"
  using releases_tables [of T "\<lambda>pd p. pmm_free_page pd (free_pd tab pd p)" tab 1 t] releases_pd
  unfolding free_pdpt_def Let_def Suc_1 by blast

text \<open>The frames of the tables that only this root has: the root, and those below its first 256 entries.\<close>

definition lower_tables :: "u64 \<Rightarrow> vmm \<Rightarrow> nat set" where
  "lower_tables root s =
     {unat t div 4096 | p t. valid_path p \<and> (\<forall>i \<in> set (take 1 p). i < 256) \<and> node_at (vm_tab s) root p = Some t}"

lemma lower_tables_subtree:
  assumes "\<And>i. i < 256 \<Longrightarrow> vm_tab s root i AND PTE_HUGE = 0"
  shows "lower_tables root s = insert (unat root div 4096)
    (\<Union>i \<in> {..<256}. if vm_tab s root i AND PTE_PRESENT = 0 then {} else subtree (vm_tab s) 2 (vm_tab s root i AND PTE_ADDR_MASK))"
    (is "_ = insert ?r (\<Union>i \<in> _. ?A i)")
proof (intro equalityI subsetI)
  fix x
  assume "x \<in> lower_tables root s"
  then obtain p t where p: "x = unat t div 4096" "valid_path p" "\<forall>i \<in> set (take 1 p). i < 256"
    "node_at (vm_tab s) root p = Some t" unfolding lower_tables_def by blast
  show "x \<in> insert ?r (\<Union>i \<in> {..<256}. ?A i)"
  proof (cases p)
    case Nil
    then show ?thesis using p by simp
  next
    case (Cons i q)
    then have "i < 256" "x \<in> ?A i"
      using p unfolding subtree_def valid_path_def by (auto split: if_splits)
    then show ?thesis by blast
  qed
next
  fix x
  assume "x \<in> insert ?r (\<Union>i \<in> {..<256}. ?A i)"
  then consider "x = ?r" | i where "i < 256" "vm_tab s root i AND PTE_PRESENT \<noteq> 0"
      "x \<in> subtree (vm_tab s) 2 (vm_tab s root i AND PTE_ADDR_MASK)" by (auto split: if_splits)
  then show "x \<in> lower_tables root s"
  proof cases
    case 1
    then show ?thesis unfolding lower_tables_def
      by (intro CollectI exI [of _ "[]"] exI [of _ root]) (simp add: valid_path_def)
  next
    case 2
    then obtain q u where "x = unat u div 4096" "length q \<le> 2" "set q \<subseteq> {..<512}"
      "node_at (vm_tab s) (vm_tab s root i AND PTE_ADDR_MASK) q = Some u" unfolding subtree_def by blast
    then show ?thesis using 2 assms [of i] unfolding lower_tables_def
      by (intro CollectI exI [of _ "i # q"] exI [of _ u]) (simp add: valid_path_def)
  qed
qed

lemma vmm_destroy_ctx_spec:
  assumes inv: "tree_inv (cx_cr3 c) s" and self: "cx_self c = Some self" "in_use (vm_pmm s) self"
    and low: "\<And>i. i < 256 \<Longrightarrow> vm_tab s (cx_cr3 c) i AND PTE_HUGE = 0"
  shows "frames (vm_pmm (vmm_destroy_ctx (Some c) s))
    = frames (vm_pmm s) \<union> lower_tables (cx_cr3 c) s \<union> {unat self div 4096}"
    and "pmm_inv (vm_pmm (vmm_destroy_ctx (Some c) s))"
proof -
  let ?root = "cx_cr3 c" and ?T = "total_pages (vm_pmm s)"
  let ?f = "\<lambda>i p. if vm_tab s ?root i AND PTE_PRESENT = 0 then p
    else pmm_free_page (vm_tab s ?root i AND PTE_ADDR_MASK) (free_pdpt (vm_tab s) (vm_tab s ?root i AND PTE_ADDR_MASK) p)"
  let ?A = "\<lambda>i. if vm_tab s ?root i AND PTE_PRESENT = 0 then {} else subtree (vm_tab s) 2 (vm_tab s ?root i AND PTE_ADDR_MASK)"
  have "releases ?T (fold ?f [0..<256]) (\<Union>i \<in> set [0..<256]. ?A i)"
    by (intro releases_fold releases_if releases_pdpt)
  from releases_comp [OF releases_comp [OF this releases_page [of ?T ?root]] releases_page [of ?T self]]
  have R: "releases ?T (\<lambda>p. pmm_free_page self (pmm_free_page ?root (fold ?f [0..<256] p)))
      (lower_tables ?root s \<union> {unat self div 4096})"
    by (simp add: lower_tables_subtree [OF low] atLeast0LessThan Un_commute)
  have "lower_tables ?root s \<subseteq> {0<..<unat ?T}"
    using tree_invD(2) [OF inv] unfolding lower_tables_def in_use_def by auto
  moreover have "unat self div 4096 \<in> {0<..<unat ?T}" using self(2) by (simp add: in_use_def)
  ultimately have "frames (vm_pmm (vmm_destroy_ctx (Some c) s))
      = frames (vm_pmm s) \<union> (lower_tables ?root s \<union> {unat self div 4096})
    \<and> pmm_inv (vm_pmm (vmm_destroy_ctx (Some c) s))"
    using R tree_invD(1) [OF inv] unfolding releases_def vmm_destroy_ctx_def Let_def by (simp add: self(1))
  then show "frames (vm_pmm (vmm_destroy_ctx (Some c) s))
    = frames (vm_pmm s) \<union> lower_tables ?root s \<union> {unat self div 4096}"
    and "pmm_inv (vm_pmm (vmm_destroy_ctx (Some c) s))" by (simp_all add: Un_assoc)
qed

lemma shares_lower:
  assumes "shares n k (vm_tab s)"
  shows "i < 256 \<Longrightarrow> vm_tab s n i AND PTE_HUGE = 0" and "lower_tables n s = {unat n div 4096}"
proof -
  have zero: "vm_tab s n i = 0" if "i < 256" for i using assms that by (simp add: shares_def)
  then show "i < 256 \<Longrightarrow> vm_tab s n i AND PTE_HUGE = 0" by simp
  show "lower_tables n s = {unat n div 4096}" using zero by (subst lower_tables_subtree) auto
qed

lemma new_ctx_facts:
  assumes inv: "tree_inv (vm_kernel s) s" and cr: "vmm_create_ctx s = (Some c, s')"
  shows "tree_inv (cx_cr3 c) s' \<and> tree_inv (vm_kernel s) s'
    \<and> (\<forall>w. vmm_get_phys c w s' = (if 256 \<le> PML4_INDEX w then vmm_get_phys (kernel_ctx s) w s else 0))
    \<and> (\<forall>w. vmm_get_phys (kernel_ctx s) w s' = vmm_get_phys (kernel_ctx s) w s)
    \<and> frames (vm_pmm (vmm_destroy_ctx (Some c) s')) = frames (vm_pmm s)"
proof (rule vmm_create_ctx_Some [OF inv cr])
  fix self
  assume self: "cx_self c = Some self" "in_use (vm_pmm s') self" and "vm_kernel s' = vm_kernel s"
    and k: "tree_inv (vm_kernel s) s'" and n: "tree_inv (cx_cr3 c) s'" and sh: "shares (cx_cr3 c) (vm_kernel s) (vm_tab s')"
    and fr: "frames (vm_pmm s) = frames (vm_pmm s') \<union> {unat (cx_cr3 c) div 4096, unat self div 4096}"
    and same: "\<And>w. pte_of (vm_tab s') (vpath w) (PT_INDEX w) (vm_kernel s) = pte_of (vm_tab s) (vpath w) (PT_INDEX w) (vm_kernel s)"
  have "pte_of (vm_tab s') (vpath w) (PT_INDEX w) (cx_cr3 c)
      = (if 256 \<le> PML4_INDEX w then pte_of (vm_tab s) (vpath w) (PT_INDEX w) (vm_kernel s) else 0)" for w
    using shares_pte [OF sh, of "PML4_INDEX w" "tl (vpath w)"] valid_vpath(1) [of w] same [of w]
    by (simp add: vpath_def)
  then have "vmm_get_phys c w s' = (if 256 \<le> PML4_INDEX w then vmm_get_phys (kernel_ctx s) w s else 0)" for w
    by (simp add: get_phys_pte phys_of_def)
  moreover have "frames (vm_pmm (vmm_destroy_ctx (Some c) s')) = frames (vm_pmm s)"
    using vmm_destroy_ctx_spec(1) [OF n self shares_lower(1) [OF sh]] shares_lower(2) [OF sh] fr by auto
  ultimately show ?thesis using k n same by (simp add: get_phys_pte)
qed

section \<open>The properties\<close>

text \<open>A machine of eight frames, of which the second is an empty root.\<close>

definition vmm_demo :: vmm where
  "vmm_demo = \<lparr>vm_pmm = \<lparr>bitmap = (\<lambda>_. 3), total_pages = 8, free_pages = 6\<rparr>, vm_tab = (\<lambda>_ _. 0), vm_kernel = 0x1000\<rparr>"

lemma vmm_demo_frames: "frames (vm_pmm vmm_demo) = {2, 3, 4, 5, 6, 7}"
  by code_simp

lemma vmm_demo_inv: "tree_inv 0x1000 vmm_demo"
proof (rule tree_invI)
  show "pmm_inv (vm_pmm vmm_demo)" using vmm_demo_frames by (simp add: pmm_inv_def vmm_demo_def PMM_MAX_PAGES_def)
  have root: "p = [] \<and> t = 0x1000" if "node_at (vm_tab vmm_demo) 0x1000 p = Some t" for p t
    using that by (cases p) (simp_all add: vmm_demo_def)
  show "in_use (vm_pmm vmm_demo) t" if "node_at (vm_tab vmm_demo) 0x1000 p = Some t" for p t
    using root [OF that] vmm_demo_frames by (simp add: in_use_def) (simp add: vmm_demo_def)
  show "p = q" if "node_at (vm_tab vmm_demo) 0x1000 p = Some t" "node_at (vm_tab vmm_demo) 0x1000 q = Some t" for p q t
    using root [OF that(1)] root [OF that(2)] by simp
qed

text \<open>C10: Page tables implement an address space. When the tables of a root form a tree of frames in use, mapping a page
  with present flags, outside the large pages, makes exactly the addresses of that page translate to the new frame and
  leaves every other translation as it was; it gives up only when fewer than three frames are left, and then no
  translation changes. Unmapping an address takes away the translation of exactly the addresses that the same entry
  serves. Both keep the tables a tree of frames in use.\<close>

theorem vmm_map_unmap:
  assumes "tree_inv (cx_cr3 ctx) s" and "flags AND PTE_PRESENT \<noteq> 0" and "flags AND PTE_HUGE = 0"
    and "\<not> in_large (vm_tab s) (vpath v) (cx_cr3 ctx)"
  shows "tree_inv (cx_cr3 ctx) (vmm_map_page ctx v pa flags s)
    \<and> ((\<forall>w. vmm_get_phys ctx w (vmm_map_page ctx v pa flags s) =
            (if page_of w = page_of v then (pa AND PTE_ADDR_MASK) OR (w AND 0xFFF) else vmm_get_phys ctx w s))
       \<or> card (frames (vm_pmm s)) < 3
         \<and> (\<forall>w. vmm_get_phys ctx w (vmm_map_page ctx v pa flags s) = vmm_get_phys ctx w s))
    \<and> tree_inv (cx_cr3 ctx) (vmm_unmap_page ctx u s)
    \<and> (\<forall>w. vmm_get_phys ctx w (vmm_unmap_page ctx u s) =
          (if fst (vmm_walk ctx w False s) = fst (vmm_walk ctx u False s) then 0 else vmm_get_phys ctx w s))"
  using vmm_map_page_spec [OF assms] vmm_unmap_page_spec [OF assms(1)] by blast

theorem vmm_map_unmap_witness:
  "vmm_get_phys (kernel_ctx vmm_demo) 0x400123 (vmm_map_page (kernel_ctx vmm_demo) 0x400000 0x5000 3 vmm_demo) = 0x5123"
proof -
  have "tree_inv (cx_cr3 (kernel_ctx vmm_demo)) vmm_demo" using vmm_demo_inv by (simp add: vmm_demo_def)
  moreover have "\<not> in_large (vm_tab vmm_demo) (vpath 0x400000) (cx_cr3 (kernel_ctx vmm_demo))"
    by (simp add: vmm_demo_def vpath_def)
  moreover have "\<not> card (frames (vm_pmm vmm_demo)) < 3" by (simp add: vmm_demo_frames)
  moreover have "page_of 0x400123 = page_of 0x400000" by (simp add: page_of_def drop_bit_eq_div)
  ultimately show ?thesis
    using vmm_map_unmap [of "kernel_ctx vmm_demo" vmm_demo 3 "0x400000" "0x5000" 0] by simp
qed

text \<open>C11: A new context shares the kernel's half of the address space and has an empty lower half, and the kernel's own
  translations stay; creation fails only when fewer than two frames are left, and takes none then. Destroying a context
  gives back exactly its root, the tables below the first 256 entries of the root and the frame of the context; for a
  context just created these are all the frames that its creation took.\<close>

theorem vmm_contexts:
  assumes "tree_inv (vm_kernel s) s"
  shows "(case vmm_create_ctx s of
      (None, s') \<Rightarrow> card (frames (vm_pmm s)) < 2 \<and> frames (vm_pmm s') = frames (vm_pmm s)
        \<and> (\<forall>w. vmm_get_phys (kernel_ctx s) w s' = vmm_get_phys (kernel_ctx s) w s)
    | (Some c, s') \<Rightarrow> tree_inv (cx_cr3 c) s' \<and> tree_inv (vm_kernel s) s'
        \<and> (\<forall>w. vmm_get_phys c w s' = (if 256 \<le> PML4_INDEX w then vmm_get_phys (kernel_ctx s) w s else 0))
        \<and> (\<forall>w. vmm_get_phys (kernel_ctx s) w s' = vmm_get_phys (kernel_ctx s) w s)
        \<and> frames (vm_pmm (vmm_destroy_ctx (Some c) s')) = frames (vm_pmm s))
    \<and> (\<forall>d self. tree_inv (cx_cr3 d) s \<longrightarrow> cx_self d = Some self \<longrightarrow> in_use (vm_pmm s) self
        \<longrightarrow> (\<forall>i < 256. vm_tab s (cx_cr3 d) i AND PTE_HUGE = 0)
        \<longrightarrow> frames (vm_pmm (vmm_destroy_ctx (Some d) s))
            = frames (vm_pmm s) \<union> lower_tables (cx_cr3 d) s \<union> {unat self div 4096})"
proof (intro conjI allI impI)
  show "frames (vm_pmm (vmm_destroy_ctx (Some d) s)) = frames (vm_pmm s) \<union> lower_tables (cx_cr3 d) s \<union> {unat self div 4096}"
    if "tree_inv (cx_cr3 d) s" "cx_self d = Some self" "in_use (vm_pmm s) self"
      "\<forall>i < 256. vm_tab s (cx_cr3 d) i AND PTE_HUGE = 0" for d self
    using vmm_destroy_ctx_spec(1) [OF that(1-3)] that(4) by blast
  obtain r s' where cr: "vmm_create_ctx s = (r, s')" by fastforce
  show "case vmm_create_ctx s of
      (None, s') \<Rightarrow> card (frames (vm_pmm s)) < 2 \<and> frames (vm_pmm s') = frames (vm_pmm s)
        \<and> (\<forall>w. vmm_get_phys (kernel_ctx s) w s' = vmm_get_phys (kernel_ctx s) w s)
    | (Some c, s') \<Rightarrow> tree_inv (cx_cr3 c) s' \<and> tree_inv (vm_kernel s) s'
        \<and> (\<forall>w. vmm_get_phys c w s' = (if 256 \<le> PML4_INDEX w then vmm_get_phys (kernel_ctx s) w s else 0))
        \<and> (\<forall>w. vmm_get_phys (kernel_ctx s) w s' = vmm_get_phys (kernel_ctx s) w s)
        \<and> frames (vm_pmm (vmm_destroy_ctx (Some c) s')) = frames (vm_pmm s)"
  proof (cases r)
    case None
    then show ?thesis using vmm_create_ctx_None [OF assms] cr by simp
  next
    case (Some c)
    show ?thesis unfolding cr Some using new_ctx_facts [OF assms cr [unfolded Some]] by simp
  qed
qed

theorem vmm_contexts_witness:
  "\<exists>c s'. vmm_create_ctx vmm_demo = (Some c, s') \<and> frames (vm_pmm (vmm_destroy_ctx (Some c) s')) = {2, 3, 4, 5, 6, 7}"
proof -
  obtain r s' where cr: "vmm_create_ctx vmm_demo = (r, s')" by fastforce
  have "tree_inv (vm_kernel vmm_demo) vmm_demo" using vmm_demo_inv by (simp add: vmm_demo_def)
  note W = vmm_contexts [OF this, unfolded cr vmm_demo_frames]
  show ?thesis
  proof (cases r)
    case None
    then show ?thesis using conjunct1 [OF W] by simp
  next
    case (Some c)
    then show ?thesis using conjunct1 [OF W] cr by simp
  qed
qed

end
