(* ===== verification/VmmLarge.thy ===== *)
theory VmmLarge
  imports Vmm
begin

text \<open>
  The kernel's address space: what \<open>map_huge_range\<close> and \<open>vmm_init\<close> of \<open>kernel/mm/vmm.c\<close> build. The definitions are
  in the theory of the page tables; here is the invariant of tables that hold large pages only, the effect of mapping
  a range of them, and the direct map that the kernel has after initialisation.
\<close>

unbundle bit_operations_syntax

section \<open>Large pages\<close>

text \<open>
  Tables built of large pages only: no table below the third level, and no large page above it.
\<close>

definition flat_inv :: "u64 \<Rightarrow> vmm \<Rightarrow> bool" where
  "flat_inv root s \<longleftrightarrow> tree_inv root s
     \<and> (\<forall>p t i. length p < 2 \<longrightarrow> valid_path (p @ [i]) \<longrightarrow> node_at (vm_tab s) root p = Some t \<longrightarrow> vm_tab s t i AND PTE_HUGE = 0)
     \<and> (\<forall>p. valid_path p \<longrightarrow> length p = 3 \<longrightarrow> node_at (vm_tab s) root p = None)"

lemma flat_invD:
  assumes "flat_inv root s"
  shows "tree_inv root s"
    and "length p < 2 \<Longrightarrow> valid_path (p @ [i]) \<Longrightarrow> node_at (vm_tab s) root p = Some t \<Longrightarrow> vm_tab s t i AND PTE_HUGE = 0"
    and "valid_path p \<Longrightarrow> length p = 3 \<Longrightarrow> node_at (vm_tab s) root p = None"
  using assms unfolding flat_inv_def by blast+

lemma flat_invI:
  assumes "tree_inv root s"
    and "\<And>p t i. length p < 2 \<Longrightarrow> valid_path (p @ [i]) \<Longrightarrow> node_at (vm_tab s) root p = Some t \<Longrightarrow> vm_tab s t i AND PTE_HUGE = 0"
    and "\<And>p. valid_path p \<Longrightarrow> length p = 3 \<Longrightarrow> node_at (vm_tab s) root p = None"
  shows "flat_inv root s"
  using assms unfolding flat_inv_def by blast

lemma links_flat:
  assumes L: "links root p i t n s s'" and flat: "flat_inv root s" and "length p < 2"
  shows "flat_inv root s'"
proof (rule flat_invI)
  note T = linksD [OF L] and N = links_node [OF L]
  show "tree_inv root s'" by (rule links_inv [OF L])
  show "node_at (vm_tab s') root q = None" if "valid_path q" "length q = 3" for q
    using N [OF that(1)] flat_invD(3) [OF flat that] that(2) assms(3) by auto
  show "vm_tab s' u j AND PTE_HUGE = 0"
    if q: "length q < 2" "valid_path (q @ [j])" and nd: "node_at (vm_tab s') root q = Some u" for q u j
  proof -
    have v: "valid_path q" "j < 512" using q(2) by (simp_all add: valid_path_snoc)
    show ?thesis
    proof (cases "q = p @ [i]")
      case True
      then have "u = n" using N [OF v(1)] nd by simp
      then show ?thesis using T(7) v(2) by simp
    next
      case False
      then have old: "node_at (vm_tab s) root q = Some u" using N [OF v(1)] nd by simp
      then have "u \<noteq> n" using tree_fresh_neq [OF T(1,9) v(1)] by blast
      then show ?thesis
        using T(6) T(8) [of u j] fresh_entry(2) [OF T(9)] flat_invD(2) [OF flat q old] by (cases "u = t \<and> j = i") auto
    qed
  qed
qed

definition same_ptes :: "u64 \<Rightarrow> vmm \<Rightarrow> vmm \<Rightarrow> bool" where
  "same_ptes root s s' \<longleftrightarrow> (\<forall>is l. valid_path is \<longrightarrow> length is = 3 \<longrightarrow> l < 512
     \<longrightarrow> pte_of (vm_tab s') is l root = pte_of (vm_tab s) is l root)"

lemma ensure_table_spec:
  assumes flat: "flat_inv root s" and nd: "node_at (vm_tab s) root p = Some t" and "length p < 2"
    and v: "valid_path (p @ [i])" and mem: "frames (vm_pmm s) \<noteq> {}" and en: "ensure_table t i s = (r, s')"
  shows "flat_inv root s'" and "node_at (vm_tab s') root (p @ [i]) = Some r" and "same_ptes root s s'"
    and "card (frames (vm_pmm s)) \<le> Suc (card (frames (vm_pmm s')))"
proof -
  note inv = flat_invD(1) [OF flat]
  have nh: "vm_tab s t i AND PTE_HUGE = 0" by (rule flat_invD(2) [OF flat assms(3) v nd])
  have "flat_inv root s' \<and> node_at (vm_tab s') root (p @ [i]) = Some r \<and> same_ptes root s s'
    \<and> card (frames (vm_pmm s)) \<le> Suc (card (frames (vm_pmm s')))"
  proof (cases "vm_tab s t i AND PTE_PRESENT = 0")
    case False
    then have "s' = s" "r = vm_tab s t i AND PTE_ADDR_MASK" using en by (auto simp: ensure_table_def)
    then show ?thesis using flat nd nh False by (simp add: node_at_snoc same_ptes_def)
  next
    case True
    obtain n s1 where al: "alloc_table s = (n, s1)" by fastforce
    note A = alloc_table_fresh [OF tree_invD(1) [OF inv] al]
    have "n \<noteq> 0" using A(1) mem by blast
    then have L: "links root p i t n s (set_entry t i (table_entry n) s1)"
      by (intro links_set inv v nd nh True A(2))
    have s': "s' = set_entry t i (table_entry n) s1" using en True al by (simp add: ensure_table_def Let_def)
    have r: "r = n" using en True al fresh_entry(1) [OF linksD(9) [OF L]] by (simp add: ensure_table_def Let_def)
    note L' = L [folded s']
    have "same_ptes root s s'" using links_pte [OF L', of "[]"] by (simp add: same_ptes_def)
    then show ?thesis
      using links_flat [OF L' flat assms(3)] links_node [OF L' v] fresh_card [OF linksD(9) [OF L']] r by simp
  qed
  then show "flat_inv root s'" and "node_at (vm_tab s') root (p @ [i]) = Some r" and "same_ptes root s s'"
    and "card (frames (vm_pmm s)) \<le> Suc (card (frames (vm_pmm s')))" by blast+
qed

text \<open>Writing a large page over an entry that leads to no table.\<close>

definition large_write :: "u64 \<Rightarrow> nat list \<Rightarrow> nat \<Rightarrow> u64 \<Rightarrow> u64 \<Rightarrow> vmm \<Rightarrow> bool" where
  "large_write root p i t e s \<longleftrightarrow> flat_inv root s \<and> valid_path (p @ [i]) \<and> length p = 2
     \<and> node_at (vm_tab s) root p = Some t \<and> e AND PTE_HUGE \<noteq> 0"

lemma large_write_here:
  assumes "large_write root p i t e s" and "valid_path q" and "node_at (vm_tab s) root q = Some t"
  shows "q = p"
  using assms tree_invD(3) [of root s q p t] flat_invD(1) [of root s] valid_path_append unfolding large_write_def by blast

lemma large_write_node:
  assumes L: "large_write root p i t e s" and "valid_path q"
  shows "node_at (vm_tab (set_entry t i e s)) root q = node_at (vm_tab s) root q"
  using assms(2)
proof (induction q rule: rev_induct)
  case Nil
  then show ?case by simp
next
  case (snoc j q)
  have v: "valid_path q" using snoc.prems by (simp add: valid_path_snoc)
  show ?case
  proof (cases "node_at (vm_tab s) root q")
    case None
    then show ?thesis using snoc.IH [OF v] by (simp add: node_at_snoc)
  next
    case (Some u)
    show ?thesis
    proof (cases "u = t \<and> j = i")
      case True
      then have "q = p" using large_write_here [OF L v] Some by simp
      then have "node_at (vm_tab s) root (q @ [j]) = None"
        using L snoc.prems flat_invD(3) [of root s "q @ [j]"] by (simp add: large_write_def)
      then show ?thesis using Some snoc.IH [OF v] True L by (simp add: node_at_snoc large_write_def)
    next
      case False
      then show ?thesis using Some snoc.IH [OF v] by (auto simp: node_at_snoc)
    qed
  qed
qed

lemma large_write_flat:
  assumes L: "large_write root p i t e s"
  shows "flat_inv root (set_entry t i e s)"
proof -
  note N = large_write_node [OF L]
  have flat: "flat_inv root s" using L by (simp add: large_write_def)
  note inv = flat_invD(1) [OF flat]
  have tree: "tree_inv root (set_entry t i e s)"
  proof (rule tree_invI)
    show "pmm_inv (vm_pmm (set_entry t i e s))" using tree_invD(1) [OF inv] by simp
    show "in_use (vm_pmm (set_entry t i e s)) u"
      if "valid_path q" "node_at (vm_tab (set_entry t i e s)) root q = Some u" for q u
      using tree_invD(2) [OF inv that(1)] that(2) unfolding N [OF that(1)] by simp
    show "q = r" if "valid_path q" "valid_path r" "node_at (vm_tab (set_entry t i e s)) root q = Some u"
        "node_at (vm_tab (set_entry t i e s)) root r = Some u" for q r u
      using tree_invD(3) [OF inv that(1,2)] that(3,4) unfolding N [OF that(1)] N [OF that(2)] by blast
  qed
  show ?thesis
  proof (rule flat_invI [OF tree])
    show "node_at (vm_tab (set_entry t i e s)) root q = None" if "valid_path q" "length q = 3" for q
      unfolding N [OF that(1)] by (rule flat_invD(3) [OF flat that])
    show "vm_tab (set_entry t i e s) u j AND PTE_HUGE = 0"
      if q: "length q < 2" "valid_path (q @ [j])" and nd: "node_at (vm_tab (set_entry t i e s)) root q = Some u" for q u j
    proof -
      have v: "valid_path q" using q(2) by (simp add: valid_path_snoc)
      have old: "node_at (vm_tab s) root q = Some u" using nd unfolding N [OF v] .
      then have "u \<noteq> t" using large_write_here [OF L v] L q(1) by (auto simp: large_write_def)
      then show ?thesis using flat_invD(2) [OF flat q old] by simp
    qed
  qed
qed

lemma large_write_other:
  assumes L: "large_write root p i t e s" and "node_at (vm_tab s) root q = Some u"
    and "length q + length is = 3" and "valid_path (q @ is)" and "q @ is \<noteq> p @ [i]"
  shows "pte_of (vm_tab (set_entry t i e s)) is l u = pte_of (vm_tab s) is l u"
  using assms(2-5)
proof (induction "is" arbitrary: q u)
  case Nil
  then show ?case using large_write_here [OF L] L by (auto simp: pte_of_def large_write_def)
next
  case (Cons j js)
  have v: "valid_path q" "valid_path ((q @ [j]) @ js)" using Cons.prems(3) valid_path_append by auto
  have "\<not> (u = t \<and> j = i)"
  proof
    assume "u = t \<and> j = i"
    moreover from this have "q = p" using large_write_here [OF L v(1)] Cons.prems(1) by simp
    ultimately show False using Cons.prems(2,4) L by (simp add: large_write_def)
  qed
  then have same: "vm_tab (set_entry t i e s) u j = vm_tab s u j" by auto
  show ?case
  proof (cases "vm_tab s u j AND PTE_HUGE \<noteq> 0 \<or> vm_tab s u j AND PTE_PRESENT = 0")
    case True
    then show ?thesis using same by (auto simp: pte_of_def)
  next
    case False
    then have "node_at (vm_tab s) root (q @ [j]) = Some (vm_tab s u j AND PTE_ADDR_MASK)"
      using Cons.prems(1) by (simp add: node_at_snoc)
    from Cons.IH [OF this _ v(2)] show ?thesis
      using Cons.prems(2,4) False same by (simp add: pte_of_def del: set_entry_simps)
  qed
qed

lemma large_write_pte:
  assumes L: "large_write root p i t e s" and "valid_path is" and "length is = 3"
  shows "pte_of (vm_tab (set_entry t i e s)) is l root = (if is = p @ [i] then e else pte_of (vm_tab s) is l root)"
proof (cases "is = p @ [i]")
  case True
  have "node_at (vm_tab (set_entry t i e s)) root p = Some t"
    using large_write_node [OF L, of p] L valid_path_append by (auto simp: large_write_def)
  from lookup_append [OF this, of "[i]"] show ?thesis using True L by (simp add: pte_of_def large_write_def)
next
  case False
  then show ?thesis using large_write_other [OF L, of "[]" root "is"] assms(2,3) by simp
qed

lemma map_huge_page_spec:
  assumes flat: "flat_inv (cx_cr3 ctx) s" and mem: "2 \<le> card (frames (vm_pmm s))"
    and s': "s' = map_huge_page ctx v phys flags s"
  shows "flat_inv (cx_cr3 ctx) s'" and "card (frames (vm_pmm s)) \<le> card (frames (vm_pmm s')) + 2"
    and "l < 512 \<Longrightarrow> pte_of (vm_tab s') (vpath w) l (cx_cr3 ctx)
      = (if vpath w = vpath v then phys OR flags OR PTE_HUGE else pte_of (vm_tab s) (vpath w) l (cx_cr3 ctx))"
proof -
  let ?root = "cx_cr3 ctx" and ?e = "phys OR flags OR PTE_HUGE"
  let ?p4 = "PML4_INDEX v" and ?p3 = "PDPT_INDEX v" and ?p2 = "PD_INDEX v"
  obtain pdpt s1 where e1: "ensure_table ?root ?p4 s = (pdpt, s1)" by fastforce
  obtain pd s2 where e2: "ensure_table pdpt ?p3 s1 = (pd, s2)" by fastforce
  have v: "valid_path ([] @ [?p4])" "valid_path ([?p4] @ [?p3])" "valid_path ([?p4, ?p3] @ [?p2])"
    by (simp_all add: valid_path_def index_bound)
  have "frames (vm_pmm s) \<noteq> {}" using mem by auto
  note E1 = ensure_table_spec [OF flat _ _ v(1) this e1]
  have "frames (vm_pmm s1) \<noteq> {}" using E1(4) mem by auto
  note E2 = ensure_table_spec [OF E1(1) _ _ v(2) this e2]
  have f1: "flat_inv ?root s1" "node_at (vm_tab s1) ?root [?p4] = Some pdpt" "same_ptes ?root s s1"
    "card (frames (vm_pmm s)) \<le> Suc (card (frames (vm_pmm s1)))" using E1 by simp_all
  have f2: "flat_inv ?root s2" "node_at (vm_tab s2) ?root [?p4, ?p3] = Some pd" "same_ptes ?root s1 s2"
    "card (frames (vm_pmm s1)) \<le> Suc (card (frames (vm_pmm s2)))" using E2 f1(2) by simp_all
  have "bit ?e 7" by (simp add: bit_or_iff huge_bit)
  then have "?e AND PTE_HUGE \<noteq> 0" using bit_and_iff [of ?e PTE_HUGE 7] huge_bit [of 7] by (metis bit_0_eq bot_apply bot_bool_def)
  then have L: "large_write ?root [?p4, ?p3] ?p2 pd ?e s2" using f2 v(3) by (simp add: large_write_def)
  have eq: "s' = set_entry pd ?p2 ?e s2" using e1 e2 by (simp add: s' map_huge_page_def)
  show "flat_inv ?root s'" unfolding eq by (rule large_write_flat [OF L])
  show "card (frames (vm_pmm s)) \<le> card (frames (vm_pmm s')) + 2" using f1(4) f2(4) by (simp add: eq)
  show "pte_of (vm_tab s') (vpath w) l ?root = (if vpath w = vpath v then ?e else pte_of (vm_tab s) (vpath w) l ?root)"
    if "l < 512"
    using large_write_pte [OF L valid_vpath, of w l] f1(3) f2(3) that valid_vpath [of w]
    unfolding eq same_ptes_def by (simp add: vpath_def [of v])
qed

section \<open>Ranges\<close>

text \<open>The large page of an address: its bits 21 to 47.\<close>

lemma vpath_eq: "vpath v = vpath w \<longleftrightarrow> take_bit 27 (drop_bit 21 v) = take_bit 27 (drop_bit 21 w)"
proof
  assume "vpath v = vpath w"
  then have *: "\<And>j. 39 \<le> j \<Longrightarrow> j < 48 \<Longrightarrow> bit v j = bit w j" "\<And>j. 30 \<le> j \<Longrightarrow> j < 39 \<Longrightarrow> bit v j = bit w j"
    "\<And>j. 21 \<le> j \<Longrightarrow> j < 30 \<Longrightarrow> bit v j = bit w j"
    by (simp_all add: vpath_def index_eq field_eq)
  have "bit v j = bit w j" if "21 \<le> j" "j < 48" for j
    using * [of j] that by linarith
  then show "take_bit 27 (drop_bit 21 v) = take_bit 27 (drop_bit 21 w)" by (simp add: field_eq)
next
  assume "take_bit 27 (drop_bit 21 v) = take_bit 27 (drop_bit 21 w)"
  then have "bit v j = bit w j" if "21 \<le> j" "j < 48" for j
    using that by (simp add: field_eq)
  then show "vpath v = vpath w" by (simp add: vpath_def index_eq field_eq)
qed

lemma uint_large_page: "uint (take_bit 27 (drop_bit 21 (word_of_int x :: u64))) = (x div 2 ^ 21) mod 2 ^ 27"
proof -
  have "uint (take_bit 27 (drop_bit 21 (word_of_int x :: u64))) = take_bit 27 (drop_bit 21 (take_bit 64 x))"
    by (simp add: unsigned_take_bit_eq unsigned_drop_bit_eq uint_word_of_int_eq)
  also have "\<dots> = take_bit 27 (drop_bit 21 x)" by (simp add: drop_bit_take_bit)
  finally show ?thesis by (simp add: take_bit_eq_mod drop_bit_eq_div)
qed

lemma range_page:
  fixes w vb :: u64
  assumes "take_bit 21 vb = 0" and "k < 2 ^ 27"
  shows "vpath w = vpath (vb + of_nat k * HUGE_PAGE) \<longleftrightarrow> unat (take_bit 48 (w - vb)) div 2 ^ 21 = k"
proof -
  define b where "b = uint vb div 2 ^ 21"
  have "uint vb mod 2 ^ 21 = 0"
    using arg_cong [OF assms(1), of uint] unfolding unsigned_take_bit_eq by (simp add: take_bit_eq_mod)
  then have vb: "uint vb = b * 2 ^ 21" unfolding b_def by (metis add.right_neutral div_mult_mod_eq)
  have "vb + of_nat k * HUGE_PAGE = word_of_int (uint vb + int k * 2 ^ 21)"
    by simp
  also have "\<dots> = word_of_int ((b + int k) * 2 ^ 21)" by (simp add: vb algebra_simps)
  finally have there: "uint (take_bit 27 (drop_bit 21 (vb + of_nat k * HUGE_PAGE))) = (b + int k) mod 2 ^ 27"
    using uint_large_page [of "(b + int k) * 2 ^ 21"] by simp
  have here: "uint (take_bit 27 (drop_bit 21 w)) = (uint w div 2 ^ 21) mod 2 ^ 27"
    using uint_large_page [of "uint w"] by simp
  have "int (unat (take_bit 48 (w - vb)) div 2 ^ 21) = uint (drop_bit 21 (take_bit 48 (w - vb)))"
    by (simp add: drop_bit_eq_div zdiv_int uint_div)
  also have "\<dots> = uint (take_bit 27 (drop_bit 21 (word_of_int (uint w - b * 2 ^ 21) :: u64)))"
    unfolding drop_bit_take_bit vb [symmetric] by simp
  also have "\<dots> = (uint w div 2 ^ 21 - b) mod 2 ^ 27"
  proof -
    have "(uint w - b * 2 ^ 21) div 2 ^ 21 = uint w div 2 ^ 21 - b"
      using div_mult_self1 [of "2 ^ 21" "uint w" "- b"] by (simp add: algebra_simps)
    then show ?thesis by (simp only: uint_large_page)
  qed
  finally have off: "int (unat (take_bit 48 (w - vb)) div 2 ^ 21) = (uint w div 2 ^ 21 - b) mod 2 ^ 27" .
  have "(uint w div 2 ^ 21) mod 2 ^ 27 = (b + int k) mod 2 ^ 27 \<longleftrightarrow> (uint w div 2 ^ 21 - b) mod 2 ^ 27 = int k mod 2 ^ 27"
    by (simp add: mod_eq_dvd_iff algebra_simps)
  moreover have "int k mod 2 ^ 27 = int k" using assms(2) by simp
  ultimately show ?thesis
    unfolding vpath_eq word_uint_eq_iff here there by (metis off of_nat_eq_iff)
qed

lemma aligned_bits:
  fixes p :: u64
  assumes "take_bit n p = 0" and "bit p j"
  shows "n \<le> j"
  using arg_cong [OF assms(1), of "\<lambda>x. bit x j"] assms(2) by (simp add: bit_take_bit_iff)

lemma bounded_bits:
  fixes p :: u64
  assumes "take_bit n p = p" and "bit p j"
  shows "j < n"
  using arg_cong [OF assms(1), of "\<lambda>x. bit x j"] assms(2) by (simp add: bit_take_bit_iff)

lemma bit_nonzero: "bit (x :: u64) j \<Longrightarrow> x \<noteq> 0"
  by auto

lemma large_entry_phys:
  fixes p w :: u64
  assumes "take_bit 21 p = 0" and "take_bit 52 p = p" and "flags AND PTE_ADDR_MASK = 0" and "flags AND PTE_PRESENT \<noteq> 0"
  shows "phys_of (p OR flags OR PTE_HUGE) w = p + take_bit 21 w"
proof -
  note low = aligned_bits [OF assms(1)] and high = bounded_bits [OF assms(2)]
  have addr: "PTE_ADDR_MASK = push_bit 12 (mask 40 :: u64)" by (simp add: push_bit_eq_mult mask_eq_exp_minus_1)
  have m: "bit PTE_ADDR_MASK j \<longleftrightarrow> 12 \<le> j \<and> j < 52" for j
    unfolding addr by (auto simp: bit_push_bit_iff bit_mask_iff)
  have fl: "\<not> (bit flags j \<and> bit PTE_ADDR_MASK j)" for j
    using arg_cong [OF assms(3), of "\<lambda>x. bit x j"] by (simp add: bit_and_iff)
  have "bit ((p OR flags OR PTE_HUGE) AND PTE_ADDR_MASK) j = bit p j" for j
    using low [of j] high [of j] fl [of j] m [of j] huge_bit [of j] unfolding bit_and_iff bit_or_iff by linarith
  then have 1: "(p OR flags OR PTE_HUGE) AND PTE_ADDR_MASK = p" by (intro bit_word_eqI) simp
  have "bit flags 0"
  proof (rule ccontr)
    assume "\<not> bit flags 0"
    then have "flags AND PTE_PRESENT = 0" by (intro bit_word_eqI) (auto simp: bit_and_iff bit_1_iff intro!: Nat.gr0I)
    then show False using assms(4) by simp
  qed
  then have 2: "(p OR flags OR PTE_HUGE) AND PTE_PRESENT \<noteq> 0"
    by (intro bit_nonzero [of _ 0]) (simp add: bit_and_iff bit_or_iff bit_1_iff)
  have 3: "(p OR flags OR PTE_HUGE) AND PTE_HUGE \<noteq> 0"
    by (intro bit_nonzero [of _ 7]) (simp add: bit_and_iff bit_or_iff huge_bit)
  have "w AND 0x1FFFFF = take_bit 21 w" by (simp add: take_bit_eq_mask mask_eq_exp_minus_1)
  moreover have "p AND take_bit 21 w = 0"
    by (rule bit_word_eqI) (auto simp: bit_and_iff bit_take_bit_iff dest: low)
  ultimately show ?thesis using 1 2 3 disjunctive_add_eq_or [of p "take_bit 21 w"] by (simp add: phys_of_def)
qed

lemma large_page_phys:
  fixes w vb pb :: u64
  assumes "take_bit 21 vb = 0" and "take_bit 21 pb = 0" and "flags AND PTE_ADDR_MASK = 0" and "flags AND PTE_PRESENT \<noteq> 0"
    and d: "d = take_bit 48 (w - vb)" and k: "k = unat d div 2 ^ 21" and lt: "unat pb + k * 2 ^ 21 < 2 ^ 52"
  shows "phys_of ((pb + of_nat k * HUGE_PAGE) OR flags OR PTE_HUGE) w = pb + d"
proof -
  let ?p = "pb + of_nat k * HUGE_PAGE"
  have u: "unat ?p = unat pb + k * 2 ^ 21"
    using lt by (simp add: unat_word_ariths unat_of_nat)
  have "unat pb mod 2 ^ 21 = 0"
    using arg_cong [OF assms(2), of unat] unfolding unsigned_take_bit_eq by (simp add: take_bit_eq_mod)
  then have "take_bit 21 ?p = 0"
    unfolding word_unat_eq_iff unsigned_take_bit_eq u by (simp add: take_bit_eq_mod)
  moreover have "take_bit 52 ?p = ?p"
    unfolding word_unat_eq_iff unsigned_take_bit_eq u using lt by (simp add: take_bit_nat_eq_self)
  ultimately have "phys_of (?p OR flags OR PTE_HUGE) w = ?p + take_bit 21 w"
    using assms(3,4) by (rule large_entry_phys)
  moreover have "take_bit 21 d = take_bit 21 w"
  proof -
    have vb: "take_bit 21 (uint vb) = 0"
      using arg_cong [OF assms(1), of uint] unfolding unsigned_take_bit_eq by simp
    have "take_bit 21 (uint (w - vb)) = take_bit 21 (take_bit 64 (uint w - uint vb))"
      by (simp add: uint_word_ariths take_bit_eq_mod)
    also have "\<dots> = take_bit 21 (uint w - uint vb)" by (simp only: take_bit_take_bit)
    also have "\<dots> = take_bit 21 (take_bit 21 (uint w) - take_bit 21 (uint vb))" by (simp only: take_bit_diff)
    finally have "take_bit 21 (w - vb) = take_bit 21 w"
      unfolding vb word_uint_eq_iff unsigned_take_bit_eq by simp
    then show ?thesis by (simp add: d)
  qed
  moreover have "d = of_nat k * HUGE_PAGE + take_bit 21 d"
  proof -
    have "unat d = k * 2 ^ 21 + unat d mod 2 ^ 21" unfolding k by simp
    then have "of_nat (unat d) = (of_nat k * 2 ^ 21 + of_nat (unat d mod 2 ^ 21) :: u64)" by (metis of_nat_add of_nat_mult of_nat_numeral of_nat_power)
    moreover have "take_bit 21 d = of_nat (unat d mod 2 ^ 21)"
      by (metis of_nat_unat take_bit_eq_mod ucast_id unsigned_take_bit_eq)
    ultimately show ?thesis by simp
  qed
  ultimately show ?thesis by (metis add.assoc)
qed

text \<open>The large page of a range that serves an address, counted from the start of the range.\<close>

definition range_index :: "u64 \<Rightarrow> u64 \<Rightarrow> nat" where
  "range_index vb w = unat (take_bit 48 (w - vb)) div 2 ^ 21"

definition range_entry :: "u64 \<Rightarrow> u64 \<Rightarrow> nat \<Rightarrow> u64" where
  "range_entry pb flags k = (pb + of_nat k * HUGE_PAGE) OR flags OR PTE_HUGE"

lemma huge_loop_spec:
  assumes "flat_inv (cx_cr3 ctx) s" and "2 * m \<le> card (frames (vm_pmm s))" and "take_bit 21 vb = 0"
    and "unat pb + (k + m) * 2 ^ 21 < 2 ^ 64" and "k + m \<le> 2 ^ 27"
  shows "\<exists>s'. huge_loop ctx vb pb (pb + of_nat (k + m) * HUGE_PAGE) flags (pb + of_nat k * HUGE_PAGE) s = Some s'
    \<and> flat_inv (cx_cr3 ctx) s' \<and> card (frames (vm_pmm s)) \<le> card (frames (vm_pmm s')) + 2 * m
    \<and> (\<forall>w l. l < 512 \<longrightarrow> pte_of (vm_tab s') (vpath w) l (cx_cr3 ctx) =
        (if k \<le> range_index vb w \<and> range_index vb w < k + m then range_entry pb flags (range_index vb w)
         else pte_of (vm_tab s) (vpath w) l (cx_cr3 ctx)))"
  using assms
proof (induction m arbitrary: k s)
  case 0
  then show ?case by (subst huge_loop.simps) auto
next
  case (Suc m)
  let ?phys = "pb + of_nat k * HUGE_PAGE" and ?root = "cx_cr3 ctx"
  have u: "unat (pb + of_nat j * HUGE_PAGE) = unat pb + j * 2 ^ 21" if "j \<le> k + Suc m" for j
  proof -
    have "unat pb + j * 2 ^ 21 < 2 ^ 64"
      using that Suc.prems(4) by (meson add_left_mono le_less_trans mult_le_mono1)
    then show ?thesis by (simp add: unat_word_ariths unat_of_nat)
  qed
  have lt: "?phys < pb + of_nat (k + Suc m) * HUGE_PAGE"
    unfolding word_less_nat_alt using u [of k] u [of "k + Suc m"] by (simp only: le_add1 order_refl) simp
  define s1 where "s1 = map_huge_page ctx (vb + of_nat k * HUGE_PAGE) ?phys flags s"
  have "2 \<le> card (frames (vm_pmm s))" using Suc.prems(2) by simp
  note P = map_huge_page_spec [OF Suc.prems(1) this s1_def]
  have one: "pte_of (vm_tab s1) (vpath w) l ?root =
      (if range_index vb w = k then range_entry pb flags k else pte_of (vm_tab s) (vpath w) l ?root)" if "l < 512" for w l
    using P(3) [OF that, of w] range_page [OF Suc.prems(3), of k w] Suc.prems(5)
    by (simp add: range_index_def range_entry_def)
  have step: "huge_loop ctx vb pb (pb + of_nat (k + Suc m) * HUGE_PAGE) flags ?phys s
      = huge_loop ctx vb pb (pb + of_nat (Suc k + m) * HUGE_PAGE) flags (pb + of_nat (Suc k) * HUGE_PAGE) s1"
    using lt by (subst huge_loop.simps) (simp add: s1_def algebra_simps)
  have "2 * m \<le> card (frames (vm_pmm s1))" using P(2) Suc.prems(2) by simp
  moreover have "unat pb + (Suc k + m) * 2 ^ 21 < 2 ^ 64" "Suc k + m \<le> 2 ^ 27" using Suc.prems(4,5) by simp_all
  ultimately obtain s' where s': "huge_loop ctx vb pb (pb + of_nat (Suc k + m) * HUGE_PAGE) flags (pb + of_nat (Suc k) * HUGE_PAGE) s1 = Some s'"
    "flat_inv ?root s'" "card (frames (vm_pmm s1)) \<le> card (frames (vm_pmm s')) + 2 * m"
    "\<forall>w l. l < 512 \<longrightarrow> pte_of (vm_tab s') (vpath w) l ?root =
        (if Suc k \<le> range_index vb w \<and> range_index vb w < Suc k + m then range_entry pb flags (range_index vb w)
         else pte_of (vm_tab s1) (vpath w) l ?root)"
    using Suc.IH [OF P(1) _ Suc.prems(3)] by blast
  show ?case
    unfolding step using s' P(2) one by (intro exI [of _ s']) (auto simp: not_less_eq_eq)
qed

definition range_ok :: "u64 \<Rightarrow> u64 \<Rightarrow> u64 \<Rightarrow> u64 \<Rightarrow> bool" where
  "range_ok vb pb sz flags \<longleftrightarrow> take_bit 21 vb = 0 \<and> take_bit 21 pb = 0 \<and> take_bit 21 sz = 0
     \<and> unat pb + unat sz \<le> 2 ^ 52 \<and> unat sz \<le> 2 ^ 48 \<and> flags AND PTE_ADDR_MASK = 0 \<and> flags AND PTE_PRESENT \<noteq> 0"

lemma map_huge_range_spec:
  assumes flat: "flat_inv (cx_cr3 ctx) s" and mem: "2 * (unat sz div 2 ^ 21) \<le> card (frames (vm_pmm s))"
    and ok: "range_ok vb pb sz flags"
  shows "\<exists>s'. map_huge_range ctx vb pb sz flags s = Some s' \<and> flat_inv (cx_cr3 ctx) s'
    \<and> card (frames (vm_pmm s)) \<le> card (frames (vm_pmm s')) + 2 * (unat sz div 2 ^ 21)
    \<and> (\<forall>w. vmm_get_phys ctx w s' = (if take_bit 48 (w - vb) < sz then pb + take_bit 48 (w - vb) else vmm_get_phys ctx w s))"
proof -
  let ?m = "unat sz div 2 ^ 21"
  have al: "take_bit 21 vb = 0" "take_bit 21 pb = 0" and fl: "flags AND PTE_ADDR_MASK = 0" "flags AND PTE_PRESENT \<noteq> 0"
    and top: "unat pb + unat sz \<le> 2 ^ 52" "unat sz \<le> 2 ^ 48" using ok by (simp_all add: range_ok_def)
  have "take_bit 21 sz = 0" using ok by (simp add: range_ok_def)
  then have "unat sz mod 2 ^ 21 = 0"
    using arg_cong [of "take_bit 21 sz" 0 unat] unfolding unsigned_take_bit_eq by (simp add: take_bit_eq_mod)
  then have sz: "unat sz = ?m * 2 ^ 21" by (metis add.right_neutral div_mult_mod_eq)
  have szw: "sz = of_nat ?m * HUGE_PAGE"
    using arg_cong [OF sz, of "of_nat :: nat \<Rightarrow> u64"] by simp
  have "unat pb + (0 + ?m) * 2 ^ 21 < 2 ^ 64" using top(1) sz by simp
  moreover have "0 + ?m \<le> 2 ^ 27" using top(2) sz by simp
  ultimately obtain s' where s': "huge_loop ctx vb pb (pb + of_nat (0 + ?m) * HUGE_PAGE) flags (pb + of_nat 0 * HUGE_PAGE) s = Some s'"
    "flat_inv (cx_cr3 ctx) s'" "card (frames (vm_pmm s)) \<le> card (frames (vm_pmm s')) + 2 * ?m"
    "\<forall>w l. l < 512 \<longrightarrow> pte_of (vm_tab s') (vpath w) l (cx_cr3 ctx) =
        (if 0 \<le> range_index vb w \<and> range_index vb w < 0 + ?m then range_entry pb flags (range_index vb w)
         else pte_of (vm_tab s) (vpath w) l (cx_cr3 ctx))"
    using huge_loop_spec [OF flat mem al(1), where k = 0] by blast
  have "vmm_get_phys ctx w s' = (if take_bit 48 (w - vb) < sz then pb + take_bit 48 (w - vb) else vmm_get_phys ctx w s)" for w
  proof -
    have lt: "take_bit 48 (w - vb) < sz \<longleftrightarrow> range_index vb w < ?m"
      unfolding range_index_def word_less_nat_alt by (subst sz) (simp add: div_less_iff_less_mult)
    have "pb + take_bit 48 (w - vb) = phys_of (range_entry pb flags (range_index vb w)) w" if "range_index vb w < ?m"
    proof -
      have "range_index vb w * 2 ^ 21 < unat sz" using that sz by simp
      then show ?thesis unfolding range_entry_def
        by (intro large_page_phys [symmetric, OF al fl refl]) (use top in \<open>simp_all add: range_index_def\<close>)
    qed
    then show ?thesis using s'(4) lt by (simp add: get_phys_pte index_bound)
  qed
  then show ?thesis using s' szw by (intro exI [of _ s']) (simp add: map_huge_range_def)
qed

section \<open>The address space of the kernel\<close>

abbreviation direct_size :: "boot_info \<Rightarrow> u64" where
  "direct_size bi \<equiv> (if align_up (total_memory bi) HUGE_PAGE < GIB4 then GIB4 else align_up (total_memory bi) HUGE_PAGE)"

abbreviation fb_size :: "u32 \<Rightarrow> u32 \<Rightarrow> u64" where
  "fb_size pitch height \<equiv> (if align_up (ucast pitch * ucast height) HUGE_PAGE = 0 then HUGE_PAGE
     else align_up (ucast pitch * ucast height) HUGE_PAGE)"

lemma align_up_large: "take_bit 21 (align_up x HUGE_PAGE) = 0"
proof -
  have "HUGE_PAGE - 1 = (mask 21 :: u64)" by (simp add: mask_eq_exp_minus_1)
  then have "align_up x HUGE_PAGE = (x + HUGE_PAGE - 1) AND NOT (mask 21)" by (simp only: align_up_def)
  then show ?thesis by (intro bit_word_eqI) (simp add: bit_take_bit_iff bit_and_iff bit_not_iff bit_mask_iff)
qed

lemma direct_size_bounds:
  assumes "unat (total_memory bi) \<le> 2 ^ 40"
  shows "take_bit 21 (direct_size bi) = 0" and "unat (direct_size bi) \<le> 2 ^ 41"
proof -
  show "take_bit 21 (direct_size bi) = 0" using align_up_large by simp
  let ?x = "total_memory bi"
  have "align_up ?x HUGE_PAGE \<le> ?x + HUGE_PAGE - 1" unfolding align_up_def by (rule word_and_le2)
  also have "?x + HUGE_PAGE - 1 = ?x + 0x1FFFFF" by simp
  finally have "unat (align_up ?x HUGE_PAGE) \<le> unat (?x + 0x1FFFFF)" by (simp only: word_le_nat_alt)
  also have "\<dots> \<le> 2 ^ 41" using assms by (simp add: unat_word_ariths)
  finally show "unat (direct_size bi) \<le> 2 ^ 41" by simp
qed

lemma offset_below:
  fixes x c :: u64
  assumes "unat x < unat c" and "unat c \<le> 2 ^ 48"
  shows "unat (take_bit 48 (x - c)) = 2 ^ 48 + unat x - unat c"
proof -
  have "uint (x - c) = take_bit 64 (uint x - uint c)" by (simp add: uint_word_ariths take_bit_eq_mod)
  then have "uint (take_bit 48 (x - c)) = take_bit 48 (uint x - uint c)"
    unfolding unsigned_take_bit_eq by (simp add: take_bit_take_bit)
  also have "\<dots> = (uint x - uint c + 2 ^ 48) mod 2 ^ 48" by (simp add: take_bit_eq_mod)
  also have "\<dots> = uint x - uint c + 2 ^ 48"
  proof (rule mod_pos_pos_trivial)
    have "0 \<le> int a - int b + 2 ^ 48 \<and> int a - int b + 2 ^ 48 < 2 ^ 48" if "a < b" "b \<le> 2 ^ 48" for a b :: nat
      using that by simp
    from this [OF assms] show "0 \<le> uint x - uint c + 2 ^ 48" "uint x - uint c + 2 ^ 48 < 2 ^ 48" by simp_all
  qed
  finally have "int (unat (take_bit 48 (x - c))) = int (unat x) - int (unat c) + 2 ^ 48" by simp
  moreover have "d = 2 ^ 48 + a - b" if "int d = int a - int b + 2 ^ 48" "a < b" "b \<le> 2 ^ 48" for a b d :: nat
    using that by simp
  ultimately show ?thesis using assms by blast
qed

lemma offset_within: "unat (x :: u64) < 2 ^ 48 \<Longrightarrow> take_bit 48 x = x"
  by (simp add: word_unat_eq_iff unsigned_take_bit_eq take_bit_nat_eq_self)

lemma new_flat:
  assumes "pmm_inv (vm_pmm s)" and new: "fresh_table n s s1"
  shows "flat_inv n s1"
proof -
  have zero: "vm_tab s1 n j = 0" if "j < 512" for j using new that by (simp add: fresh_table_def)
  have root: "p = [] \<and> t = n" if "valid_path p" "node_at (vm_tab s1) n p = Some t" for p t
    using that zero by (cases p) (auto simp: valid_path_def)
  have ff: "fresh_frame n s s1" using new by (simp add: fresh_table_def)
  have "tree_inv n s1"
  proof (rule tree_invI)
    show "pmm_inv (vm_pmm s1)" using ff by (simp add: fresh_frame_def)
    show "in_use (vm_pmm s1) t" if "valid_path p" "node_at (vm_tab s1) n p = Some t" for p t
      using root [OF that] fresh_in_use(1) [OF assms(1) ff] by simp
    show "p = q" if "valid_path p" "valid_path q" "node_at (vm_tab s1) n p = Some t" "node_at (vm_tab s1) n q = Some t" for p q t
      using root [OF that(1,3)] root [OF that(2,4)] by simp
  qed
  then show ?thesis
  proof (rule flat_invI)
    show "vm_tab s1 t i AND PTE_HUGE = 0" if "valid_path (p @ [i])" "node_at (vm_tab s1) n p = Some t" for p t i
      using root [of p t] that zero [of i] by (simp add: valid_path_snoc)
    show "node_at (vm_tab s1) n p = None" if "valid_path p" "length p = 3" for p
      using root [OF that(1)] that(2) by (cases "node_at (vm_tab s1) n p") auto
  qed
qed

text \<open>The four ranges of \<open>vmm_init\<close>; the last one is there if the boot information names a frame buffer.\<close>

definition fb_ok :: "u64 \<Rightarrow> u64 \<Rightarrow> bool" where
  "fb_ok base sz \<longleftrightarrow> base = 0 \<or> take_bit 21 base = 0 \<and> unat base + unat sz \<le> 2 ^ 52 \<and> unat sz \<le> 2 ^ 44"

lemma init_ranges:
  assumes "unat (total_memory bi) \<le> 2 ^ 40" and "fb_ok fb_base (fb_size pitch height)"
  shows "range_ok 0 0 GIB4 0x103" and "range_ok VM_PHYS_MAP_BASE 0 (direct_size bi) 0x103"
    and "range_ok (VM_PHYS_MAP_BASE + PCI_MMIO64_LO) PCI_MMIO64_LO 0x40000000 0x113"
    and "fb_base \<noteq> 0 \<Longrightarrow> range_ok FRAMEBUFFER_VBASE fb_base (fb_size pitch height) 0x113"
proof -
  show "range_ok 0 0 GIB4 0x103" by (simp add: range_ok_def take_bit_eq_mod)
  show "range_ok (VM_PHYS_MAP_BASE + PCI_MMIO64_LO) PCI_MMIO64_LO 0x40000000 0x113" by (simp add: range_ok_def take_bit_eq_mod)
  have "take_bit 21 VM_PHYS_MAP_BASE = 0" "take_bit 21 FRAMEBUFFER_VBASE = 0" by (simp_all add: take_bit_eq_mod)
  moreover have "take_bit 21 (fb_size pitch height) = 0" using align_up_large by simp
  ultimately show "range_ok VM_PHYS_MAP_BASE 0 (direct_size bi) 0x103"
    and "fb_base \<noteq> 0 \<Longrightarrow> range_ok FRAMEBUFFER_VBASE fb_base (fb_size pitch height) 0x113"
    using direct_size_bounds [OF assms(1)] assms(2) unfolding range_ok_def fb_ok_def by simp_all
qed

definition init_frames :: "boot_info \<Rightarrow> u64 \<Rightarrow> nat" where
  "init_frames bi fb_sz = 1 + 2 * (2048 + unat (direct_size bi) div 2 ^ 21 + 512 + unat fb_sz div 2 ^ 21)"

lemma vmm_init_steps:
  assumes inv: "pmm_inv (vm_pmm s)" and tm: "unat (total_memory bi) \<le> 2 ^ 40" and fb: "fb_ok fb_base (fb_size pitch height)"
    and mem: "init_frames bi (fb_size pitch height) \<le> card (frames (vm_pmm s))"
  shows "\<exists>s'. vmm_init bi fb_base pitch height s = Some s' \<and> tree_inv (vm_kernel s') s'
    \<and> (\<forall>w. vmm_get_phys (kernel_ctx s') w s' =
        (if fb_base \<noteq> 0 \<and> take_bit 48 (w - FRAMEBUFFER_VBASE) < fb_size pitch height
         then fb_base + take_bit 48 (w - FRAMEBUFFER_VBASE)
         else if take_bit 48 (w - (VM_PHYS_MAP_BASE + PCI_MMIO64_LO)) < 0x40000000
         then PCI_MMIO64_LO + take_bit 48 (w - (VM_PHYS_MAP_BASE + PCI_MMIO64_LO))
         else if take_bit 48 (w - VM_PHYS_MAP_BASE) < direct_size bi then take_bit 48 (w - VM_PHYS_MAP_BASE)
         else if take_bit 48 w < GIB4 then take_bit 48 w else 0))"
proof -
  note ok = init_ranges [OF tm fb]
  obtain n s0 where al: "alloc_table s = (n, s0)" by fastforce
  note A = alloc_table_fresh [OF inv al]
  have "n \<noteq> 0" using A(1) mem by (auto simp: init_frames_def)
  note new = A(2) [OF this]
  have c0: "card (frames (vm_pmm s)) = Suc (card (frames (vm_pmm s0)))"
    using fresh_card [of n s s0] new by (simp add: fresh_table_def)
  let ?ctx = "\<lparr>cx_cr3 = n, cx_self = None\<rparr>"
  have f0: "flat_inv (cx_cr3 ?ctx) s0" using new_flat [OF inv new] by simp
  have t0: "vmm_get_phys ?ctx w s0 = 0" for w
    using new by (simp add: get_phys_pte pte_of_def vpath_def fresh_table_def phys_of_def index_bound)
  define a b where "a = unat (direct_size bi) div 2 ^ 21" and "b = unat (fb_size pitch height) div 2 ^ 21"
  have m: "2 * 2048 + 2 * a + 2 * 512 + 2 * b \<le> card (frames (vm_pmm s0))"
    using mem unfolding init_frames_def c0 a_def [symmetric] b_def [symmetric] by simp
  have g: "unat GIB4 div 2 ^ 21 = 2048" "unat (0x40000000 :: u64) div 2 ^ 21 = 512" by simp_all
  have "2 * 2048 \<le> card (frames (vm_pmm s0))" using m by linarith
  then obtain s1 where s1: "map_huge_range ?ctx 0 0 GIB4 0x103 s0 = Some s1" "flat_inv (cx_cr3 ?ctx) s1"
      "card (frames (vm_pmm s0)) \<le> card (frames (vm_pmm s1)) + 2 * 2048"
      "\<forall>w. vmm_get_phys ?ctx w s1 = (if take_bit 48 (w - 0) < GIB4 then 0 + take_bit 48 (w - 0) else vmm_get_phys ?ctx w s0)"
    using map_huge_range_spec [OF f0 _ ok(1), unfolded g] by blast
  have "2 * a \<le> card (frames (vm_pmm s1))" using m s1(3) by linarith
  then obtain s2 where s2: "map_huge_range ?ctx VM_PHYS_MAP_BASE 0 (direct_size bi) 0x103 s1 = Some s2" "flat_inv (cx_cr3 ?ctx) s2"
      "card (frames (vm_pmm s1)) \<le> card (frames (vm_pmm s2)) + 2 * a"
      "\<forall>w. vmm_get_phys ?ctx w s2 = (if take_bit 48 (w - VM_PHYS_MAP_BASE) < direct_size bi
        then 0 + take_bit 48 (w - VM_PHYS_MAP_BASE) else vmm_get_phys ?ctx w s1)"
    using map_huge_range_spec [OF s1(2) _ ok(2), folded a_def] by blast
  have "2 * 512 \<le> card (frames (vm_pmm s2))" using m s1(3) s2(3) by linarith
  then obtain s3 where s3: "map_huge_range ?ctx (VM_PHYS_MAP_BASE + PCI_MMIO64_LO) PCI_MMIO64_LO 0x40000000 0x113 s2 = Some s3"
      "flat_inv (cx_cr3 ?ctx) s3" "card (frames (vm_pmm s2)) \<le> card (frames (vm_pmm s3)) + 2 * 512"
      "\<forall>w. vmm_get_phys ?ctx w s3 = (if take_bit 48 (w - (VM_PHYS_MAP_BASE + PCI_MMIO64_LO)) < 0x40000000
        then PCI_MMIO64_LO + take_bit 48 (w - (VM_PHYS_MAP_BASE + PCI_MMIO64_LO)) else vmm_get_phys ?ctx w s2)"
    using map_huge_range_spec [OF s2(2) _ ok(3), unfolded g] by blast
  have "2 * b \<le> card (frames (vm_pmm s3))" using m s1(3) s2(3) s3(3) by linarith
  then obtain s4 where s4: "(if fb_base \<noteq> 0 then map_huge_range ?ctx FRAMEBUFFER_VBASE fb_base (fb_size pitch height) 0x113 s3 else Some s3) = Some s4"
      "flat_inv (cx_cr3 ?ctx) s4"
      "\<forall>w. vmm_get_phys ?ctx w s4 = (if fb_base \<noteq> 0 \<and> take_bit 48 (w - FRAMEBUFFER_VBASE) < fb_size pitch height
        then fb_base + take_bit 48 (w - FRAMEBUFFER_VBASE) else vmm_get_phys ?ctx w s3)"
    using map_huge_range_spec [OF s3(2) _ ok(4), folded b_def] s3(2) by (cases "fb_base = 0") auto
  have "vmm_init bi fb_base pitch height s = Some (s4\<lparr>vm_kernel := n\<rparr>)"
    using al s1(1) s2(1) s3(1) s4(1) by (auto simp: vmm_init_def Let_def split: if_splits)
  moreover have "tree_inv n (s4\<lparr>vm_kernel := n\<rparr>)" using flat_invD(1) [OF s4(2)] by (simp add: tree_inv_def)
  moreover have "vmm_get_phys ?ctx w (s4\<lparr>vm_kernel := n\<rparr>) = vmm_get_phys ?ctx w s4" for w by (simp add: get_phys_pte)
  ultimately show ?thesis using s4(3) s3(4) s2(4) s1(4) t0 by (intro exI [of _ "s4\<lparr>vm_kernel := n\<rparr>"]) simp
qed

lemma offset_outside:
  fixes x c sz :: u64
  assumes "unat x + unat c < 2 ^ 48" and "unat sz \<le> unat c"
  shows "\<not> take_bit 48 (x + c) < sz"
proof -
  have u: "unat (x + c) = unat x + unat c" using assms(1) by (simp add: unat_word_ariths)
  then have "take_bit 48 (x + c) = x + c" using assms(1) by (intro offset_within) simp
  then show ?thesis using u assms(2) by (simp add: word_less_nat_alt)
qed

lemma direct_offsets:
  fixes x sz :: u64
  assumes x: "unat x < 2 ^ 44" and sz: "unat sz \<le> 2 ^ 44"
  shows "\<not> take_bit 48 (VM_PHYS_MAP_BASE + x - FRAMEBUFFER_VBASE) < sz" and "take_bit 48 (VM_PHYS_MAP_BASE + x - VM_PHYS_MAP_BASE) = x"
    and "take_bit 48 (VM_PHYS_MAP_BASE + x - (VM_PHYS_MAP_BASE + PCI_MMIO64_LO)) < 0x40000000 \<Longrightarrow>
      PCI_MMIO64_LO + take_bit 48 (VM_PHYS_MAP_BASE + x - (VM_PHYS_MAP_BASE + PCI_MMIO64_LO)) = x"
    and "PCI_MMIO64_LO \<le> x \<Longrightarrow> x < PCI_MMIO64_LO + 0x40000000 \<Longrightarrow>
      take_bit 48 (VM_PHYS_MAP_BASE + x - (VM_PHYS_MAP_BASE + PCI_MMIO64_LO)) < 0x40000000"
proof -
  have "VM_PHYS_MAP_BASE + x - FRAMEBUFFER_VBASE = x - 0x100000000000" by simp
  moreover have "unat (take_bit 48 (x - 0x100000000000)) = 2 ^ 48 + unat x - 2 ^ 44"
    using offset_below [of x "0x100000000000"] x by simp
  ultimately show "\<not> take_bit 48 (VM_PHYS_MAP_BASE + x - FRAMEBUFFER_VBASE) < sz"
    using x sz by (simp add: word_less_nat_alt)
  show "take_bit 48 (VM_PHYS_MAP_BASE + x - VM_PHYS_MAP_BASE) = x" using offset_within [of x] x by simp
  have pci: "VM_PHYS_MAP_BASE + x - (VM_PHYS_MAP_BASE + PCI_MMIO64_LO) = x - PCI_MMIO64_LO" by simp
  have above: "take_bit 48 (x - PCI_MMIO64_LO) = x - PCI_MMIO64_LO" if "PCI_MMIO64_LO \<le> x"
    using that x by (intro offset_within) (simp add: unat_sub word_le_nat_alt)
  show "PCI_MMIO64_LO + take_bit 48 (VM_PHYS_MAP_BASE + x - (VM_PHYS_MAP_BASE + PCI_MMIO64_LO)) = x"
    if "take_bit 48 (VM_PHYS_MAP_BASE + x - (VM_PHYS_MAP_BASE + PCI_MMIO64_LO)) < 0x40000000"
  proof (cases "PCI_MMIO64_LO \<le> x")
    case True
    then show ?thesis unfolding pci by (simp add: above)
  next
    case False
    then have "unat (take_bit 48 (x - PCI_MMIO64_LO)) = 2 ^ 48 + unat x - unat PCI_MMIO64_LO"
      by (intro offset_below) (simp_all add: word_le_nat_alt)
    then show ?thesis using that unfolding pci word_less_nat_alt by simp
  qed
  show "take_bit 48 (VM_PHYS_MAP_BASE + x - (VM_PHYS_MAP_BASE + PCI_MMIO64_LO)) < 0x40000000"
    if "PCI_MMIO64_LO \<le> x" "x < PCI_MMIO64_LO + 0x40000000"
    unfolding pci above [OF that(1)] using that by (simp add: word_less_nat_alt word_le_nat_alt unat_sub)
qed

lemma identity_offsets:
  fixes x sz :: u64
  assumes x: "x < GIB4" and sz: "unat sz \<le> 2 ^ 44"
  shows "\<not> take_bit 48 (x - FRAMEBUFFER_VBASE) < sz" and "\<not> take_bit 48 (x - VM_PHYS_MAP_BASE) < sz"
    and "\<not> take_bit 48 (x - (VM_PHYS_MAP_BASE + PCI_MMIO64_LO)) < 0x40000000" and "take_bit 48 x = x"
proof -
  have u: "unat x < 2 ^ 32" using x by (simp add: word_less_nat_alt)
  have off: "x - FRAMEBUFFER_VBASE = x + 0x700000000000" "x - VM_PHYS_MAP_BASE = x + 0x800000000000"
    "x - (VM_PHYS_MAP_BASE + PCI_MMIO64_LO) = x + 0x7F4000000000" by simp_all
  show "\<not> take_bit 48 (x - FRAMEBUFFER_VBASE) < sz" and "\<not> take_bit 48 (x - VM_PHYS_MAP_BASE) < sz"
    and "\<not> take_bit 48 (x - (VM_PHYS_MAP_BASE + PCI_MMIO64_LO)) < 0x40000000"
    unfolding off using offset_outside [of x "0x700000000000" sz] offset_outside [of x "0x800000000000" sz]
      offset_outside [of x "0x7F4000000000" "0x40000000"] u sz by simp_all
  show "take_bit 48 x = x" using u by (intro offset_within) simp
qed

section \<open>The property\<close>

text \<open>A machine of 64 megabytes, all free but the first frame.\<close>

definition boot_demo :: boot_info where
  "boot_demo = \<lparr>mmap_entries = (\<lambda>_. \<lparr>me_base = 0, me_length = 0, me_type = 0\<rparr>), mmap_count = 0, kernel_phys_base = 0, kernel_size = 0, total_memory = 0x4000000\<rparr>"

definition boot_state :: vmm where
  "boot_state = \<lparr>vm_pmm = \<lparr>bitmap = (\<lambda>i. if i = 0 then 1 else 0), total_pages = 16384, free_pages = 16383\<rparr>,
     vm_tab = (\<lambda>_ _. 0), vm_kernel = 0\<rparr>"

lemma boot_state_frames: "frames (vm_pmm boot_state) = {0<..<16384}"
proof -
  have "bm_test (\<lambda>i. if i = 0 then 1 else 0) k \<longleftrightarrow> k = 0" for k
    by (auto simp: bm_test_bit bit_1_iff)
  then have "frames (vm_pmm boot_state) = {k. k < 16384 \<and> k \<noteq> 0}" by (simp add: frames_def boot_state_def)
  then show ?thesis by (intro set_eqI) (simp only: mem_Collect_eq greaterThanLessThan_iff neq0_conv conj_commute)
qed

lemma boot_state_inv: "pmm_inv (vm_pmm boot_state)"
  using boot_state_frames by (simp add: pmm_inv_def boot_state_def PMM_MAX_PAGES_def)

lemma boot_address: "(0x12345678 :: u64) < GIB4"
  by simp

text \<open>C12: After initialisation the kernel's address space is what the header of the module promises. With memory of at most
  one terabyte, a frame buffer that is aligned to large pages and two free frames for every large page to map,
  \<open>vmm_init\<close> returns, its tables form a tree of frames in use, the direct map translates \<open>VM_PHYS_MAP_BASE + x\<close> to \<open>x\<close> for
  every address of memory (and at least the first four gigabytes) and of the window of the PCI devices, the first
  four gigabytes are mapped to themselves, and the frame buffer is at its place.\<close>

theorem vmm_init_direct_map:
  assumes "pmm_inv (vm_pmm s)" and "unat (total_memory bi) \<le> 2 ^ 40" and "fb_ok fb_base (fb_size pitch height)"
    and "init_frames bi (fb_size pitch height) \<le> card (frames (vm_pmm s))"
  shows "\<exists>s'. vmm_init bi fb_base pitch height s = Some s' \<and> tree_inv (vm_kernel s') s'
    \<and> (\<forall>x. x < direct_size bi \<or> PCI_MMIO64_LO \<le> x \<and> x < PCI_MMIO64_LO + 0x40000000
        \<longrightarrow> vmm_get_phys (kernel_ctx s') (VM_PHYS_MAP_BASE + x) s' = x)
    \<and> (\<forall>x. x < GIB4 \<longrightarrow> vmm_get_phys (kernel_ctx s') x s' = x)
    \<and> (\<forall>x. fb_base \<noteq> 0 \<longrightarrow> x < fb_size pitch height
        \<longrightarrow> vmm_get_phys (kernel_ctx s') (FRAMEBUFFER_VBASE + x) s' = fb_base + x)"
proof -
  obtain s' where s': "vmm_init bi fb_base pitch height s = Some s'" "tree_inv (vm_kernel s') s'"
    "\<forall>w. vmm_get_phys (kernel_ctx s') w s' =
        (if fb_base \<noteq> 0 \<and> take_bit 48 (w - FRAMEBUFFER_VBASE) < fb_size pitch height
         then fb_base + take_bit 48 (w - FRAMEBUFFER_VBASE)
         else if take_bit 48 (w - (VM_PHYS_MAP_BASE + PCI_MMIO64_LO)) < 0x40000000
         then PCI_MMIO64_LO + take_bit 48 (w - (VM_PHYS_MAP_BASE + PCI_MMIO64_LO))
         else if take_bit 48 (w - VM_PHYS_MAP_BASE) < direct_size bi then take_bit 48 (w - VM_PHYS_MAP_BASE)
         else if take_bit 48 w < GIB4 then take_bit 48 w else 0)"
    using vmm_init_steps [OF assms] by blast
  define m b where "m = direct_size bi" and "b = fb_size pitch height"
  note T = s'(3) [folded m_def b_def]
  have m: "unat m \<le> 2 ^ 41" unfolding m_def by (rule direct_size_bounds(2) [OF assms(2)])
  have fb: "fb_base = 0 \<or> unat b \<le> 2 ^ 44" using assms(3) unfolding b_def fb_ok_def by blast
  have 1: "vmm_get_phys (kernel_ctx s') (VM_PHYS_MAP_BASE + x) s' = x"
    if "x < m \<or> PCI_MMIO64_LO \<le> x \<and> x < PCI_MMIO64_LO + 0x40000000" for x
  proof -
    have "unat x < 2 ^ 44" using that m by (auto simp: word_less_nat_alt)
    note D = direct_offsets [OF this]
    show ?thesis using fb that D(1) [of b] D(2) [of 0] D(3) [of 0] D(4) [of 0] unfolding T [rule_format] by auto
  qed
  have 2: "vmm_get_phys (kernel_ctx s') x s' = x" if "x < GIB4" for x
  proof -
    note D = identity_offsets [OF that]
    show ?thesis using fb m that D(1) [of b] D(2) [of m] D(3) [of 0] D(4) [of 0] unfolding T [rule_format] by auto
  qed
  have 3: "vmm_get_phys (kernel_ctx s') (FRAMEBUFFER_VBASE + x) s' = fb_base + x" if "fb_base \<noteq> 0" "x < b" for x
  proof -
    have "unat x < 2 ^ 44" using fb that by (simp add: word_less_nat_alt)
    then have "take_bit 48 (FRAMEBUFFER_VBASE + x - FRAMEBUFFER_VBASE) = x" using offset_within [of x] by simp
    then show ?thesis using that unfolding T [rule_format] by simp
  qed
  show ?thesis using s'(1,2) 1 2 3 unfolding m_def b_def by blast
qed

theorem vmm_init_direct_map_witness:
  "\<exists>s'. vmm_init boot_demo 0 0 0 boot_state = Some s'
     \<and> vmm_get_phys (kernel_ctx s') (VM_PHYS_MAP_BASE + 0x12345678) s' = 0x12345678"
proof -
  have d: "direct_size boot_demo = GIB4" by (simp add: boot_demo_def align_up_def)
  have b: "fb_size 0 0 = HUGE_PAGE" by (simp add: align_up_def)
  have "init_frames boot_demo (fb_size 0 0) \<le> card (frames (vm_pmm boot_state))"
    unfolding init_frames_def d b boot_state_frames by simp
  moreover have "unat (total_memory boot_demo) \<le> 2 ^ 40" by (simp add: boot_demo_def)
  moreover have "fb_ok 0 (fb_size 0 0)" by (simp add: fb_ok_def)
  ultimately show ?thesis
    using vmm_init_direct_map [OF boot_state_inv, of boot_demo 0 0 0] unfolding d
    by (metis (no_types, lifting) boot_address)
qed

end
