(* ===== verification/HmsCache.thy ===== *)
theory HmsCache
  imports CString
begin

text \<open>
  The cache of the agent's memory, \<open>agent/hms_cache.c\<close>: three tables of keys and blobs, the first with a clock for
  eviction, the other two with the least recently used entry as the victim.

  A blob is the contents of its block, a null pointer \<open>None\<close>. Whether an allocation succeeds is an argument. Freed
  blocks are forgotten, so \<open>kv_destroy\<close>, which only frees, has no definition of its own. Null pointers among the
  arguments are left out; a table that could not be allocated is \<open>None\<close>.
\<close>

section \<open>State\<close>

record kv_entry =
  kv_key :: bytes
  kv_blob :: "bytes option"
  kv_len :: nat
  kv_ref :: u32
  kv_lru_tag :: u64
  kv_in_use :: bool

record hms_kv =
  kv_tab :: "nat \<Rightarrow> kv_entry"
  kv_cap :: u32
  kv_hand :: u32
  kv_clock :: u64

text \<open>The fields \<open>l1_used\<close> to \<open>l3_used\<close> of the cache, which nothing reads or writes, are left out.\<close>

record hms_cache =
  hc_l1_slots :: u32
  hc_l2_slots :: u32
  hc_l3_slots :: u32
  hc_hits_l1 :: u64
  hc_hits_l2 :: u64
  hc_hits_l3 :: u64
  hc_misses :: u64
  hc_l1 :: "hms_kv option"
  hc_l2 :: "hms_kv option"
  hc_l3 :: "hms_kv option"

abbreviation zero_kv_entry :: kv_entry where
  "zero_kv_entry \<equiv> \<lparr>kv_key = replicate 64 0, kv_blob = None, kv_len = 0, kv_ref = 0, kv_lru_tag = 0, kv_in_use = False\<rparr>"

abbreviation set_slot :: "nat \<Rightarrow> kv_entry \<Rightarrow> hms_kv \<Rightarrow> hms_kv" where
  "set_slot i e K \<equiv> K\<lparr>kv_tab := (kv_tab K)(i := e)\<rparr>"

section \<open>Operations\<close>

definition kv_find :: "hms_kv \<Rightarrow> bytes \<Rightarrow> nat option" where
  "kv_find K key = scan (\<lambda>i. kv_in_use (kv_tab K i) \<and> strcmp (kv_key (kv_tab K i)) key = 0) 0 (unat (kv_cap K))"

text \<open>The loop of \<open>l1_evict\<close>, with the number of rounds left, and what follows it.\<close>

primrec l1_evict_loop :: "nat \<Rightarrow> hms_kv \<Rightarrow> nat \<times> hms_kv" where
  "l1_evict_loop 0 L = (0, set_slot 0 zero_kv_entry L)"
| "l1_evict_loop (Suc n) L =
     (let h = unat (kv_hand L); e = kv_tab L h; L = L\<lparr>kv_hand := (kv_hand L + 1) mod kv_cap L\<rparr>
      in if \<not> kv_in_use e then l1_evict_loop n L
         else if kv_ref e = 0 then (h, set_slot h zero_kv_entry L)
         else l1_evict_loop n (set_slot h (e\<lparr>kv_ref := 0\<rparr>) L))"

definition l1_evict :: "hms_kv \<Rightarrow> nat \<times> hms_kv" where
  "l1_evict L = l1_evict_loop (unat (kv_cap L * 2)) L"

text \<open>\<open>None\<close>: no entry has a tag below the initial bound, and the code would use the index \<open>UINT32_MAX\<close>.\<close>

definition lru_evict :: "hms_kv \<Rightarrow> (nat \<times> hms_kv) option" where
  "lru_evict K =
     (case scan (\<lambda>i. \<not> kv_in_use (kv_tab K i)) 0 (unat (kv_cap K)) of
        Some i \<Rightarrow> Some (i, K)
      | None \<Rightarrow>
          (case fold (\<lambda>i (best_i, best_t). if kv_lru_tag (kv_tab K i) < best_t then (Some i, kv_lru_tag (kv_tab K i)) else (best_i, best_t))
                  [0..<unat (kv_cap K)] (None, 0xFFFFFFFFFFFFFFFF) of
             (None, _) \<Rightarrow> None
           | (Some i, _) \<Rightarrow> Some (i, set_slot i zero_kv_entry K)))"

text \<open>One table of the cache; the arguments say whether its two allocations succeed.\<close>

definition new_kv :: "bool \<Rightarrow> bool \<Rightarrow> u32 \<Rightarrow> hms_kv option" where
  "new_kv mem tab_mem cap =
     (if mem \<and> tab_mem then Some \<lparr>kv_tab = \<lambda>_. zero_kv_entry, kv_cap = cap, kv_hand = 0, kv_clock = 0\<rparr> else None)"

definition hms_cache_init :: "(nat \<Rightarrow> bool) \<Rightarrow> u32 \<Rightarrow> hms_cache" where
  "hms_cache_init mem l1_slots =
     (let l1 = (if l1_slots \<noteq> 0 then l1_slots else 32)
      in \<lparr>hc_l1_slots = l1, hc_l2_slots = 256, hc_l3_slots = 512, hc_hits_l1 = 0, hc_hits_l2 = 0, hc_hits_l3 = 0, hc_misses = 0,
          hc_l1 = new_kv (mem 0) (mem 1) l1, hc_l2 = new_kv (mem 2) (mem 3) 256, hc_l3 = new_kv (mem 4) (mem 5) 512\<rparr>)"

definition hms_cache_destroy :: "hms_cache \<Rightarrow> hms_cache" where
  "hms_cache_destroy c = c\<lparr>hc_l1 := None, hc_l2 := None, hc_l3 := None\<rparr>"

definition hms_cache_l1_get :: "bytes \<Rightarrow> nat \<Rightarrow> hms_cache \<Rightarrow> (errno + bytes) \<times> hms_cache" where
  "hms_cache_l1_get key io_len c =
     (case hc_l1 c of
        None \<Rightarrow> (Inl EINVAL, c)
      | Some L \<Rightarrow>
         (case kv_find L key of
            None \<Rightarrow> (Inl ENOENT, c\<lparr>hc_misses := hc_misses c + 1\<rparr>)
          | Some i \<Rightarrow>
              let e = kv_tab L i; n = (if io_len < kv_len e then io_len else kv_len e)
              in (Inr (take n (the (kv_blob e))),
                  c\<lparr>hc_l1 := Some (set_slot i (e\<lparr>kv_ref := 1\<rparr>) L), hc_hits_l1 := hc_hits_l1 c + 1\<rparr>)))"

text \<open>The new entry of a slot that was found or evicted, and the blob that is stored into it.\<close>

abbreviation claim_slot :: "bytes \<Rightarrow> kv_entry \<Rightarrow> kv_entry" where
  "claim_slot key e \<equiv> e\<lparr>kv_key := text_field 64 key, kv_in_use := True\<rparr>"

definition store_blob :: "bool \<Rightarrow> bytes \<Rightarrow> kv_entry \<Rightarrow> (errno + unit) \<times> kv_entry" where
  "store_blob mem data e =
     (if mem then (Inr (), e\<lparr>kv_blob := Some data, kv_len := length data\<rparr>)
      else (Inl ENOMEM, e\<lparr>kv_blob := None, kv_in_use := False\<rparr>))"

definition hms_cache_l1_put :: "bool \<Rightarrow> bytes \<Rightarrow> bytes \<Rightarrow> hms_cache \<Rightarrow> (errno + unit) \<times> hms_cache" where
  "hms_cache_l1_put mem key data c =
     (case hc_l1 c of
        None \<Rightarrow> (Inl EINVAL, c)
      | Some L \<Rightarrow>
          if length data = 0 then (Inl EINVAL, c)
          else
            case (case kv_find L key of
                    Some i \<Rightarrow> (i, L)
                  | None \<Rightarrow> (case l1_evict L of (i, L) \<Rightarrow> (i, set_slot i (claim_slot key (kv_tab L i)) L))) of
              (i, L) \<Rightarrow>
                (case store_blob mem data (kv_tab L i) of
                   (Inl e, s) \<Rightarrow> (Inl e, c\<lparr>hc_l1 := Some (set_slot i s L)\<rparr>)
                 | (Inr _, s) \<Rightarrow> (Inr (), c\<lparr>hc_l1 := Some (set_slot i (s\<lparr>kv_ref := 1\<rparr>) L)\<rparr>)))"

text \<open>The two lower tiers work on their table, their hit counter and the common counter of misses.\<close>

definition tier_get :: "hms_kv option \<Rightarrow> u64 \<Rightarrow> u64 \<Rightarrow> bytes \<Rightarrow> nat \<Rightarrow> (errno + bytes) \<times> hms_kv option \<times> u64 \<times> u64" where
  "tier_get priv hits misses key io_len =
     (case priv of
        None \<Rightarrow> (Inl EINVAL, priv, hits, misses)
      | Some L \<Rightarrow>
         (case kv_find L key of
            None \<Rightarrow> (Inl ENOENT, priv, hits, misses + 1)
          | Some i \<Rightarrow>
              let e = kv_tab L i; n = (if io_len < kv_len e then io_len else kv_len e);
                  L = L\<lparr>kv_clock := kv_clock L + 1\<rparr>
              in (Inr (take n (the (kv_blob e))), Some (set_slot i (e\<lparr>kv_lru_tag := kv_clock L\<rparr>) L), hits + 1, misses)))"

definition tier_slot :: "bytes \<Rightarrow> hms_kv \<Rightarrow> (nat \<times> hms_kv) option" where
  "tier_slot key L =
     (let used = length (filter (\<lambda>i. kv_in_use (kv_tab L i)) [0..<unat (kv_cap L)]) in
      case (if unat (kv_cap L) \<le> used then lru_evict L
            else map_option (\<lambda>i. (i, L)) (scan (\<lambda>i. \<not> kv_in_use (kv_tab L i)) 0 (unat (kv_cap L)))) of
        None \<Rightarrow> None
      | Some (i, L) \<Rightarrow> Some (i, set_slot i (claim_slot key (kv_tab L i)) L))"

definition tier_put :: "bool \<Rightarrow> hms_kv option \<Rightarrow> bytes \<Rightarrow> bytes \<Rightarrow> ((errno + unit) \<times> hms_kv option) option" where
  "tier_put mem priv key data =
     (case priv of
        None \<Rightarrow> Some (Inl EINVAL, priv)
      | Some L \<Rightarrow>
         (case (case kv_find L key of Some i \<Rightarrow> Some (i, L) | None \<Rightarrow> tier_slot key L) of
            None \<Rightarrow> None
          | Some (i, L) \<Rightarrow>
             (case store_blob mem data (kv_tab L i) of
                (Inl e, s) \<Rightarrow> Some (Inl e, Some (set_slot i s L))
              | (Inr _, s) \<Rightarrow>
                  let L = L\<lparr>kv_clock := kv_clock L + 1\<rparr>
                  in Some (Inr (), Some (set_slot i (s\<lparr>kv_lru_tag := kv_clock L\<rparr>) L)))))"

definition hms_cache_l2_get :: "bytes \<Rightarrow> nat \<Rightarrow> hms_cache \<Rightarrow> (errno + bytes) \<times> hms_cache" where
  "hms_cache_l2_get key io_len c =
     (case tier_get (hc_l2 c) (hc_hits_l2 c) (hc_misses c) key io_len of
        (r, priv, hits, misses) \<Rightarrow> (r, c\<lparr>hc_l2 := priv, hc_hits_l2 := hits, hc_misses := misses\<rparr>))"

definition hms_cache_l2_put :: "bool \<Rightarrow> bytes \<Rightarrow> bytes \<Rightarrow> hms_cache \<Rightarrow> ((errno + unit) \<times> hms_cache) option" where
  "hms_cache_l2_put mem key data c =
     (if length data = 0 then Some (Inl EINVAL, c)
      else map_option (\<lambda>(r, priv). (r, c\<lparr>hc_l2 := priv\<rparr>)) (tier_put mem (hc_l2 c) key data))"

definition hms_cache_l3_get :: "bytes \<Rightarrow> nat \<Rightarrow> hms_cache \<Rightarrow> (errno + bytes) \<times> hms_cache" where
  "hms_cache_l3_get key io_len c =
     (case tier_get (hc_l3 c) (hc_hits_l3 c) (hc_misses c) key io_len of
        (r, priv, hits, misses) \<Rightarrow> (r, c\<lparr>hc_l3 := priv, hc_hits_l3 := hits, hc_misses := misses\<rparr>))"

definition hms_cache_l3_put :: "bool \<Rightarrow> bytes \<Rightarrow> bytes \<Rightarrow> hms_cache \<Rightarrow> ((errno + unit) \<times> hms_cache) option" where
  "hms_cache_l3_put mem key data c =
     (if length data = 0 then Some (Inl EINVAL, c)
      else map_option (\<lambda>(r, priv). (r, c\<lparr>hc_l3 := priv\<rparr>)) (tier_put mem (hc_l3 c) key data))"

section \<open>What a table holds\<close>

definition kv_get :: "hms_kv \<Rightarrow> bytes \<Rightarrow> bytes option" where
  "kv_get K key = map_option (\<lambda>i. the (kv_blob (kv_tab K i))) (kv_find K key)"

definition entry_ok :: "kv_entry \<Rightarrow> bool" where
  "entry_ok e \<longleftrightarrow> (kv_in_use e \<longrightarrow> (\<exists>b. kv_blob e = Some b \<and> kv_len e = length b) \<and> strlen (kv_key e) \<le> 63)"

definition kv_inv :: "hms_kv \<Rightarrow> bool" where
  "kv_inv K \<longleftrightarrow> 0 < unat (kv_cap K)
     \<and> (\<forall>i < unat (kv_cap K). entry_ok (kv_tab K i) \<and> kv_lru_tag (kv_tab K i) \<le> kv_clock K)
     \<and> (\<forall>i < unat (kv_cap K). \<forall>j < unat (kv_cap K). kv_in_use (kv_tab K i) \<longrightarrow> kv_in_use (kv_tab K j)
          \<longrightarrow> cval (kv_key (kv_tab K i)) = cval (kv_key (kv_tab K j)) \<longrightarrow> i = j)"

lemma kv_invD:
  assumes "kv_inv K"
  shows "0 < unat (kv_cap K)" and "i < unat (kv_cap K) \<Longrightarrow> entry_ok (kv_tab K i)"
    and "i < unat (kv_cap K) \<Longrightarrow> kv_lru_tag (kv_tab K i) \<le> kv_clock K"
    and "i < unat (kv_cap K) \<Longrightarrow> j < unat (kv_cap K) \<Longrightarrow> kv_in_use (kv_tab K i) \<Longrightarrow> kv_in_use (kv_tab K j)
      \<Longrightarrow> cval (kv_key (kv_tab K i)) = cval (kv_key (kv_tab K j)) \<Longrightarrow> i = j"
  using assms unfolding kv_inv_def by blast+

lemma kv_find_None: "kv_find K key = None \<longleftrightarrow>
    (\<forall>i < unat (kv_cap K). kv_in_use (kv_tab K i) \<longrightarrow> cval (kv_key (kv_tab K i)) \<noteq> cval key)"
  by (auto simp: kv_find_def scan_None_iff strcmp_0_iff)

lemma kv_find_Some:
  assumes "kv_inv K"
  shows "kv_find K key = Some i \<longleftrightarrow> i < unat (kv_cap K) \<and> kv_in_use (kv_tab K i) \<and> cval (kv_key (kv_tab K i)) = cval key"
proof
  assume "kv_find K key = Some i"
  then show "i < unat (kv_cap K) \<and> kv_in_use (kv_tab K i) \<and> cval (kv_key (kv_tab K i)) = cval key"
    by (auto simp: kv_find_def scan_Some_iff strcmp_0_iff)
next
  assume i: "i < unat (kv_cap K) \<and> kv_in_use (kv_tab K i) \<and> cval (kv_key (kv_tab K i)) = cval key"
  then obtain k where k: "kv_find K key = Some k" using kv_find_None by (metis not_None_eq)
  then have "k < unat (kv_cap K)" "kv_in_use (kv_tab K k)" "cval (kv_key (kv_tab K k)) = cval key"
    by (auto simp: kv_find_def scan_Some_iff strcmp_0_iff)
  then have "k = i" using kv_invD(4) [OF assms, of k i] i by simp
  then show "kv_find K key = Some i" using k by simp
qed

text \<open>Storing an entry for \<open>key\<close> into a slot that holds no other entry to keep.\<close>

lemma kv_store:
  assumes inv: "kv_inv K" and i: "i < unat (kv_cap K)" and e: "entry_ok e" "kv_in_use e" "cval (kv_key e) = cval key"
    and clock: "kv_lru_tag e \<le> clk" "kv_clock K \<le> clk"
    and here: "\<And>j. kv_find K key = Some j \<Longrightarrow> j = i"
    and K': "K' = K\<lparr>kv_tab := (kv_tab K)(i := e), kv_clock := clk\<rparr>"
  shows "kv_inv K'" and "kv_find K' k = (if cval k = cval key then Some i else if kv_find K k = Some i then None else kv_find K k)"
proof -
  note F = kv_find_Some [OF inv]
  have other: "cval (kv_key (kv_tab K j)) \<noteq> cval key" if "j < unat (kv_cap K)" "j \<noteq> i" "kv_in_use (kv_tab K j)" for j
    using here [of j] that F [of key j] by blast
  show inv': "kv_inv K'" unfolding kv_inv_def
  proof (intro conjI allI impI)
    show "0 < unat (kv_cap K')" using kv_invD(1) [OF inv] by (simp add: K')
    show "entry_ok (kv_tab K' j)" "kv_lru_tag (kv_tab K' j) \<le> kv_clock K'" if "j < unat (kv_cap K')" for j
      using that kv_invD(2,3) [OF inv, of j] e(1) clock by (auto simp: K')
    show "a = b" if "a < unat (kv_cap K')" "b < unat (kv_cap K')" "kv_in_use (kv_tab K' a)" "kv_in_use (kv_tab K' b)"
        "cval (kv_key (kv_tab K' a)) = cval (kv_key (kv_tab K' b))" for a b
    proof (cases "a = i \<or> b = i")
      case True
      then show ?thesis using that other [of a] other [of b] e(3) unfolding K' by (cases "a = i"; cases "b = i") simp_all
    next
      case False
      then show ?thesis using that kv_invD(4) [OF inv, of a b] unfolding K' by simp
    qed
  qed
  note F' = kv_find_Some [OF inv']
  show "kv_find K' k = (if cval k = cval key then Some i else if kv_find K k = Some i then None else kv_find K k)"
  proof (cases "cval k = cval key")
    case True
    then show ?thesis using F' [of k i] i e by (simp add: K')
  next
    case False
    have iff: "kv_find K' k = Some j \<longleftrightarrow> j \<noteq> i \<and> kv_find K k = Some j" for j
      unfolding F' F using False e(3) by (auto simp: K')
    show ?thesis
    proof (cases "kv_find K k")
      case None
      then have "kv_find K' k \<noteq> Some j" for j using iff [of j] by simp
      then show ?thesis using None False by (cases "kv_find K' k") auto
    next
      case (Some j)
      show ?thesis
      proof (cases "j = i")
        case True
        then have "kv_find K' k \<noteq> Some m" for m using iff [of m] Some by auto
        then show ?thesis using Some True False by (cases "kv_find K' k") auto
      next
        case ne: False
        then show ?thesis using iff [of j] Some False by simp
      qed
    qed
  qed
qed

section \<open>The lower tiers\<close>

lemma lru_fold:
  fixes tag :: "nat \<Rightarrow> u64"
  assumes "fold (\<lambda>i (best_i, best_t). if tag i < best_t then (Some i, tag i) else (best_i, best_t)) [0..<n] (None, m) = (b, t)"
  shows "(b = None \<and> t = m \<and> (\<forall>j < n. m \<le> tag j)) \<or> (\<exists>i < n. b = Some i \<and> t = tag i \<and> (\<forall>j < n. t \<le> tag j))"
  using assms
proof (induction n arbitrary: b t)
  case 0
  then show ?case by simp
next
  case (Suc n)
  let ?f = "\<lambda>i (best_i, best_t). if tag i < best_t then (Some i, tag i) else (best_i, best_t)"
  obtain b' t' where 1: "fold ?f [0..<n] (None, m) = (b', t')" by fastforce
  then have 2: "(b, t) = ?f n (b', t')" using Suc.prems by simp
  note IH = Suc.IH [OF 1]
  show ?case
  proof (cases "tag n < t'")
    case True
    then have "t' \<le> tag j \<Longrightarrow> tag n \<le> tag j" for j by (intro order_trans [OF less_imp_le [OF True]])
    then have "\<forall>j < Suc n. tag n \<le> tag j" using IH by (auto simp: less_Suc_eq)
    then show ?thesis using 2 True by auto
  next
    case False
    then have "b = b'" "t = t'" using 2 by simp_all
    moreover have "t' \<le> tag n" using False by (simp only: not_less)
    ultimately show ?thesis using IH by (auto simp: less_Suc_eq)
  qed
qed

lemma lru_evict_full:
  assumes inv: "kv_inv K" and full: "\<And>i. i < unat (kv_cap K) \<Longrightarrow> kv_in_use (kv_tab K i)" and clock: "kv_clock K < 0xFFFFFFFFFFFFFFFF"
  shows "\<exists>i < unat (kv_cap K). lru_evict K = Some (i, set_slot i zero_kv_entry K)
    \<and> (\<forall>j < unat (kv_cap K). kv_lru_tag (kv_tab K i) \<le> kv_lru_tag (kv_tab K j))"
proof -
  have none: "scan (\<lambda>i. \<not> kv_in_use (kv_tab K i)) 0 (unat (kv_cap K)) = None"
    using full by (simp add: scan_None_iff)
  obtain b t where f: "fold (\<lambda>i (best_i, best_t). if kv_lru_tag (kv_tab K i) < best_t then (Some i, kv_lru_tag (kv_tab K i)) else (best_i, best_t))
      [0..<unat (kv_cap K)] (None, 0xFFFFFFFFFFFFFFFF) = (b, t)" by fastforce
  have "\<not> 0xFFFFFFFFFFFFFFFF \<le> kv_lru_tag (kv_tab K 0)"
    using kv_invD(3) [OF inv kv_invD(1) [OF inv]] clock by (meson le_less_trans not_le)
  then obtain i where "i < unat (kv_cap K)" "b = Some i" "\<forall>j < unat (kv_cap K). kv_lru_tag (kv_tab K i) \<le> kv_lru_tag (kv_tab K j)"
    using lru_fold [OF f] kv_invD(1) [OF inv] by blast
  then show ?thesis using f by (auto simp: lru_evict_def none)
qed

text \<open>The slot for a new key: a free one, or the least recently used one of a full table.\<close>

lemma tier_slot_spec:
  assumes inv: "kv_inv K" and clock: "kv_clock K < 0xFFFFFFFFFFFFFFFF"
  shows "\<exists>i e. i < unat (kv_cap K) \<and> tier_slot key K = Some (i, set_slot i (claim_slot key e) K)
    \<and> (\<not> kv_in_use (kv_tab K i) \<or> (\<forall>j < unat (kv_cap K). kv_in_use (kv_tab K j) \<and> kv_lru_tag (kv_tab K i) \<le> kv_lru_tag (kv_tab K j)))"
proof -
  let ?n = "unat (kv_cap K)"
  let ?used = "filter (\<lambda>i. kv_in_use (kv_tab K i)) [0..<?n]"
  show ?thesis
  proof (cases "?n \<le> length ?used")
    case True
    have full: "kv_in_use (kv_tab K i)" if "i < ?n" for i
    proof (rule ccontr)
      assume "\<not> kv_in_use (kv_tab K i)"
      then have "length ?used < length [0..<?n]" using that by (intro length_filter_less [of i]) simp_all
      then show False using True by simp
    qed
    from lru_evict_full [OF inv full clock] obtain i where i: "i < ?n" "lru_evict K = Some (i, set_slot i zero_kv_entry K)"
      "\<forall>j < ?n. kv_lru_tag (kv_tab K i) \<le> kv_lru_tag (kv_tab K j)" by blast
    then show ?thesis using True full
      by (intro exI [of _ i] exI [of _ zero_kv_entry]) (simp add: tier_slot_def Let_def)
  next
    case False
    have "\<exists>i < ?n. \<not> kv_in_use (kv_tab K i)"
    proof (rule ccontr)
      assume "\<not> (\<exists>i < ?n. \<not> kv_in_use (kv_tab K i))"
      then have "?used = [0..<?n]" by (simp add: filter_id_conv)
      then show False using False by simp
    qed
    then obtain i where i: "scan (\<lambda>i. \<not> kv_in_use (kv_tab K i)) 0 ?n = Some i"
      using scan_None_iff [of "\<lambda>i. \<not> kv_in_use (kv_tab K i)" 0 ?n] by fastforce
    then show ?thesis using False scan_SomeD(2,3) [OF i]
      by (intro exI [of _ i] exI [of _ "kv_tab K i"]) (simp add: tier_slot_def Let_def)
  qed
qed

text \<open>
  What a successful store does to a table: the key has the new blob, and every other key keeps its own, but for
  the least recently used one when the key was new and the table full.
\<close>

definition lru_update :: "hms_kv \<Rightarrow> bytes \<Rightarrow> bytes \<Rightarrow> hms_kv \<Rightarrow> bool" where
  "lru_update K key data K' \<longleftrightarrow> kv_inv K' \<and> kv_get K' key = Some data
     \<and> ((\<forall>k. cval k \<noteq> cval key \<longrightarrow> kv_get K' k = kv_get K k)
        \<or> kv_get K key = None \<and> (\<forall>j < unat (kv_cap K). kv_in_use (kv_tab K j))
          \<and> (\<exists>v < unat (kv_cap K). (\<forall>j < unat (kv_cap K). kv_lru_tag (kv_tab K v) \<le> kv_lru_tag (kv_tab K j))
              \<and> (\<forall>k. cval k \<noteq> cval key \<longrightarrow> kv_get K' k = (if kv_find K k = Some v then None else kv_get K k))))"

lemma clock_step: "(c :: u64) < 0xFFFFFFFFFFFFFFFF \<Longrightarrow> c \<le> c + 1"
proof -
  assume "c < 0xFFFFFFFFFFFFFFFF"
  then have "unat (c + 1) = Suc (unat c)" by (simp add: unat_word_ariths word_less_nat_alt)
  then show ?thesis by (simp add: word_le_nat_alt)
qed

lemma short_key: "strlen key \<le> 63 \<Longrightarrow> cval (text_field 64 key) = cval key"
  by (simp add: cval_text_field strlen_cval)

lemma stored_key: "strlen (text_field 64 key) \<le> 63"
  by (simp add: strlen_cval cval_text_field)

lemma tier_store:
  assumes inv: "kv_inv K" and clock: "kv_clock K < 0xFFFFFFFFFFFFFFFF" and i: "i < unat (kv_cap K)"
    and e: "kv_in_use e" "strlen (kv_key e) \<le> 63" "cval (kv_key e) = cval key"
    and here: "\<And>j. kv_find K key = Some j \<Longrightarrow> j = i"
    and new_K: "K' = K\<lparr>kv_clock := kv_clock K + 1,
                       kv_tab := (kv_tab K)(i := e\<lparr>kv_blob := Some data, kv_len := length data, kv_lru_tag := kv_clock K + 1\<rparr>)\<rparr>"
    and free: "\<not> kv_in_use (kv_tab K i) \<or> kv_find K key = Some i
      \<or> kv_find K key = None \<and> (\<forall>j < unat (kv_cap K). kv_in_use (kv_tab K j) \<and> kv_lru_tag (kv_tab K i) \<le> kv_lru_tag (kv_tab K j))"
  shows "lru_update K key data K'"
proof -
  let ?e = "e\<lparr>kv_blob := Some data, kv_len := length data, kv_lru_tag := kv_clock K + 1\<rparr>"
  have K': "K' = K\<lparr>kv_tab := (kv_tab K)(i := ?e), kv_clock := kv_clock K + 1\<rparr>" unfolding new_K by simp
  have "entry_ok ?e" "kv_in_use ?e" "cval (kv_key ?e) = cval key" using e by (simp_all add: entry_ok_def)
  note S = kv_store [OF inv i this _ clock_step [OF clock] here K', simplified]
  have new: "kv_get K' key = Some data" using S(2) [of key] by (simp add: kv_get_def K')
  have old: "kv_get K' k = (if kv_find K k = Some i then None else kv_get K k)" if "cval k \<noteq> cval key" for k
    using S(2) [of k] that by (cases "kv_find K k") (auto simp: kv_get_def K')
  have keep: "kv_get K' k = kv_get K k" if "\<not> kv_in_use (kv_tab K i) \<or> kv_find K key = Some i" "cval k \<noteq> cval key" for k
  proof -
    have "kv_find K k \<noteq> Some i" using that kv_find_Some [OF inv] by metis
    then show ?thesis using old [OF that(2)] by simp
  qed
  show ?thesis
  proof (cases "\<not> kv_in_use (kv_tab K i) \<or> kv_find K key = Some i")
    case True
    then show ?thesis unfolding lru_update_def using S(1) new keep [OF True] by blast
  next
    case False
    then have "kv_find K key = None"
      "\<forall>j < unat (kv_cap K). kv_in_use (kv_tab K j) \<and> kv_lru_tag (kv_tab K i) \<le> kv_lru_tag (kv_tab K j)" using free by blast+
    moreover from this have "kv_get K key = None" by (simp add: kv_get_def)
    ultimately show ?thesis unfolding lru_update_def using S(1) new old i by blast
  qed
qed

lemma tier_put_spec:
  assumes inv: "kv_inv K" and clock: "kv_clock K < 0xFFFFFFFFFFFFFFFF" and key: "strlen key \<le> 63"
  shows "\<exists>K'. tier_put True (Some K) key data = Some (Inr (), Some K') \<and> lru_update K key data K'"
proof (cases "kv_find K key")
  case (Some i)
  then have i: "i < unat (kv_cap K)" "kv_in_use (kv_tab K i)" "cval (kv_key (kv_tab K i)) = cval key"
    using kv_find_Some [OF inv] by blast+
  have "strlen (kv_key (kv_tab K i)) \<le> 63" using kv_invD(2) [OF inv i(1)] i(2) by (simp add: entry_ok_def)
  from tier_store [OF inv clock i(1,2) this i(3) _ refl, of data] Some
  have "lru_update K key data (K\<lparr>kv_clock := kv_clock K + 1,
      kv_tab := (kv_tab K)(i := (kv_tab K i)\<lparr>kv_blob := Some data, kv_len := length data, kv_lru_tag := kv_clock K + 1\<rparr>)\<rparr>)" by simp
  then show ?thesis using Some by (simp add: tier_put_def store_blob_def Let_def)
next
  case None
  obtain i e where i: "i < unat (kv_cap K)" and slot: "tier_slot key K = Some (i, set_slot i (claim_slot key e) K)"
    and free: "\<not> kv_in_use (kv_tab K i) \<or> (\<forall>j < unat (kv_cap K). kv_in_use (kv_tab K j) \<and> kv_lru_tag (kv_tab K i) \<le> kv_lru_tag (kv_tab K j))"
    using tier_slot_spec [OF inv clock] by blast
  have c: "kv_in_use (claim_slot key e)" "strlen (kv_key (claim_slot key e)) \<le> 63" "cval (kv_key (claim_slot key e)) = cval key"
    using short_key [OF key] stored_key [of key] by simp_all
  from tier_store [OF inv clock i c _ refl, of data] None free
  have "lru_update K key data (K\<lparr>kv_clock := kv_clock K + 1,
      kv_tab := (kv_tab K)(i := (claim_slot key e)\<lparr>kv_blob := Some data, kv_len := length data, kv_lru_tag := kv_clock K + 1\<rparr>)\<rparr>)" by simp
  then show ?thesis using None slot by (simp add: tier_put_def store_blob_def Let_def)
qed

lemma tier_get_spec:
  assumes "kv_inv K"
  shows "fst (tier_get (Some K) hits misses key n) = (case kv_get K key of None \<Rightarrow> Inl ENOENT | Some b \<Rightarrow> Inr (take n b))"
proof (cases "kv_find K key")
  case None
  then show ?thesis by (simp add: tier_get_def kv_get_def)
next
  case (Some i)
  then have "i < unat (kv_cap K)" "kv_in_use (kv_tab K i)" using kv_find_Some [OF assms] by blast+
  then obtain b where "kv_blob (kv_tab K i) = Some b" "kv_len (kv_tab K i) = length b"
    using kv_invD(2) [OF assms] by (auto simp: entry_ok_def)
  then show ?thesis using Some by (simp add: tier_get_def kv_get_def Let_def)
qed

text \<open>Stored keys have at most 63 bytes, so a longer key is stored under its first 63 bytes and never found again.\<close>

lemma long_key_lost:
  assumes "kv_inv K" and "64 \<le> strlen key"
  shows "kv_get K key = None"
proof -
  have "cval (kv_key (kv_tab K i)) \<noteq> cval key" if "i < unat (kv_cap K)" "kv_in_use (kv_tab K i)" for i
  proof
    assume "cval (kv_key (kv_tab K i)) = cval key"
    then have "strlen (kv_key (kv_tab K i)) = strlen key" by (simp add: strlen_cval)
    then show False using kv_invD(2) [OF assms(1) that(1)] that(2) assms(2) by (simp add: entry_ok_def)
  qed
  then show ?thesis using kv_find_None [of K key] by (simp add: kv_get_def)
qed

section \<open>The first tier\<close>

text \<open>Only the first slot of the first tier is ever in use.\<close>

definition l1_inv :: "hms_kv \<Rightarrow> bool" where
  "l1_inv L \<longleftrightarrow> 0 < unat (kv_cap L) \<and> entry_ok (kv_tab L 0) \<and> unat (kv_hand L) < unat (kv_cap L)
     \<and> (\<forall>i < unat (kv_cap L). kv_in_use (kv_tab L i) \<longrightarrow> i = 0)"

lemma l1_find:
  assumes "l1_inv L"
  shows "kv_find L key = (if kv_in_use (kv_tab L 0) \<and> cval (kv_key (kv_tab L 0)) = cval key then Some 0 else None)"
proof (cases "kv_find L key")
  case None
  then show ?thesis using assms by (auto simp: kv_find_None l1_inv_def)
next
  case (Some i)
  then have "i < unat (kv_cap L)" "kv_in_use (kv_tab L i)" "cval (kv_key (kv_tab L i)) = cval key"
    by (auto simp: kv_find_def scan_Some_iff strcmp_0_iff)
  moreover from this have "i = 0" using assms by (simp add: l1_inv_def)
  ultimately show ?thesis using Some by simp
qed

lemma hand_step: "(0 :: u32) < c \<Longrightarrow> unat ((h + 1) mod c) < unat c"
  by (simp add: word_mod_less_divisor word_less_nat_alt [symmetric])

lemma l1_inv_upd:
  assumes "l1_inv L" and "entry_ok e"
  shows "l1_inv (set_slot 0 e L)" and "l1_inv (L\<lparr>kv_hand := (kv_hand L + 1) mod kv_cap L\<rparr>)"
proof -
  show "l1_inv (set_slot 0 e L)" using assms by (auto simp: l1_inv_def)
  have "0 < kv_cap L" using assms(1) by (simp add: l1_inv_def word_less_nat_alt)
  then show "l1_inv (L\<lparr>kv_hand := (kv_hand L + 1) mod kv_cap L\<rparr>)"
    using assms(1) hand_step unfolding l1_inv_def by simp
qed

lemma l1_evict_loop_spec:
  assumes "l1_inv L" and "l1_evict_loop n L = (i, L')"
  shows "i = 0 \<and> l1_inv L'"
  using assms
proof (induction n arbitrary: L)
  case 0
  then show ?case using l1_inv_upd(1) [OF 0(1)] by (auto simp: entry_ok_def)
next
  case (Suc n)
  let ?h = "unat (kv_hand L)" and ?L = "L\<lparr>kv_hand := (kv_hand L + 1) mod kv_cap L\<rparr>"
  have inv: "l1_inv ?L" using l1_inv_upd(2) [OF Suc.prems(1), of zero_kv_entry] by (simp add: entry_ok_def)
  show ?case
  proof (cases "kv_in_use (kv_tab L ?h)")
    case False
    then show ?thesis using Suc.IH [OF inv] Suc.prems(2) by (simp add: Let_def)
  next
    case True
    then have h: "?h = 0" using Suc.prems(1) by (simp add: l1_inv_def)
    have "entry_ok ((kv_tab L 0)\<lparr>kv_ref := 0\<rparr>)" using Suc.prems(1) by (simp add: l1_inv_def entry_ok_def)
    note inv2 = l1_inv_upd(1) [OF inv this]
    have inv3: "l1_inv (set_slot 0 zero_kv_entry ?L)" by (rule l1_inv_upd(1) [OF inv]) (simp add: entry_ok_def)
    show ?thesis
      using Suc.IH [OF inv2] inv3 Suc.prems(2) True h by (auto simp: Let_def split: if_splits)
  qed
qed

lemma l1_put_spec:
  assumes inv: "l1_inv L" and c: "hc_l1 c = Some L" and key: "strlen key \<le> 63" and data: "data \<noteq> []"
  shows "\<exists>L'. hms_cache_l1_put True key data c = (Inr (), c\<lparr>hc_l1 := Some L'\<rparr>) \<and> l1_inv L'
    \<and> kv_in_use (kv_tab L' 0) \<and> cval (kv_key (kv_tab L' 0)) = cval key \<and> kv_blob (kv_tab L' 0) = Some data \<and> kv_len (kv_tab L' 0) = length data"
proof (cases "kv_in_use (kv_tab L 0) \<and> cval (kv_key (kv_tab L 0)) = cval key")
  case True
  let ?e = "(kv_tab L 0)\<lparr>kv_blob := Some data, kv_len := length data, kv_ref := 1\<rparr>"
  have "entry_ok ?e" using inv True by (simp add: l1_inv_def entry_ok_def)
  from l1_inv_upd(1) [OF inv this] show ?thesis
    using True data c l1_find [OF inv, of key]
    by (intro exI [of _ "set_slot 0 ?e L"]) (simp add: hms_cache_l1_put_def store_blob_def)
next
  case False
  obtain i L1 where ev: "l1_evict L = (i, L1)" by fastforce
  then have i: "i = 0" and inv1: "l1_inv L1" using l1_evict_loop_spec [OF inv] by (simp_all add: l1_evict_def)
  let ?e = "(claim_slot key (kv_tab L1 0))\<lparr>kv_blob := Some data, kv_len := length data, kv_ref := 1\<rparr>"
  have "entry_ok ?e" using stored_key [of key] by (simp add: entry_ok_def)
  from l1_inv_upd(1) [OF inv1 this] show ?thesis
    using False data c l1_find [OF inv, of key] ev i short_key [OF key]
    by (intro exI [of _ "set_slot 0 ?e L1"]) (auto simp: hms_cache_l1_put_def store_blob_def)
qed

section \<open>The property\<close>

definition hms_inv :: "hms_cache \<Rightarrow> bool" where
  "hms_inv c \<longleftrightarrow> (\<forall>L. hc_l1 c = Some L \<longrightarrow> l1_inv L) \<and> (\<forall>K. hc_l2 c = Some K \<longrightarrow> kv_inv K) \<and> (\<forall>K. hc_l3 c = Some K \<longrightarrow> kv_inv K)"

lemma hms_inv_init: "hms_inv (hms_cache_init mem l1_slots)"
  by (auto simp: hms_inv_def hms_cache_init_def new_kv_def l1_inv_def kv_inv_def entry_ok_def Let_def unat_gt_0 split: if_splits)

lemma l1_get_spec:
  assumes "l1_inv L" and "hc_l1 c = Some L" and "kv_in_use (kv_tab L 0)" and "kv_blob (kv_tab L 0) = Some b"
  shows "fst (hms_cache_l1_get k n c) = (if cval (kv_key (kv_tab L 0)) = cval k then Inr (take n b) else Inl ENOENT)"
proof -
  have "kv_len (kv_tab L 0) = length b" using assms by (simp add: l1_inv_def entry_ok_def)
  then show ?thesis using assms l1_find [OF assms(1), of k] by (simp add: hms_cache_l1_get_def Let_def)
qed

lemma l1_tier:
  assumes inv: "hms_inv c" and key: "strlen key \<le> 63" and data: "data \<noteq> []" and c: "hc_l1 c = Some L"
  shows "\<exists>c'. hms_cache_l1_put True key data c = (Inr (), c') \<and> hms_inv c'
    \<and> fst (hms_cache_l1_get key (length data) c') = Inr data
    \<and> (\<forall>k n. cval k \<noteq> cval key \<longrightarrow> fst (hms_cache_l1_get k n c') = Inl ENOENT)"
proof -
  have "l1_inv L" using inv c by (simp add: hms_inv_def)
  from l1_put_spec [OF this c key data] obtain L' where
    put: "hms_cache_l1_put True key data c = (Inr (), c\<lparr>hc_l1 := Some L'\<rparr>)" and inv': "l1_inv L'"
    and slot: "kv_in_use (kv_tab L' 0)" "cval (kv_key (kv_tab L' 0)) = cval key" "kv_blob (kv_tab L' 0) = Some data" by blast
  have "hms_inv (c\<lparr>hc_l1 := Some L'\<rparr>)" using inv inv' by (simp add: hms_inv_def)
  moreover note get = l1_get_spec [OF inv' _ slot(1,3), of "c\<lparr>hc_l1 := Some L'\<rparr>"]
  ultimately show ?thesis using put slot(2) by (intro exI [of _ "c\<lparr>hc_l1 := Some L'\<rparr>"]) auto
qed



end
