(* ===== verification/LlmService.thy ===== *)
theory LlmService
  imports CString Float32
begin

text \<open>
  The entry points of the language model that do not compute with its weights: the queue to a server process,
  \<open>llm/llm_ipc.c\<close>, the choice of the subsystem that executes a tool call, \<open>llm/llm_tool_router.c\<close>, and the calls of
  \<open>llm/llm_syscall.c\<close> and \<open>llm/llm_api_client.c\<close> over them. Inference and tokenisation of a loaded model are arguments.
  Null pointers are left out, but for the ones that stand for something missing: a prompt, a context, arguments.
\<close>

section \<open>The queue to the server\<close>

record llm_infer_request =
  ir_prompt :: "bytes option"
  ir_prefer_remote :: bool
  ir_temperature :: f32
  ir_top_p :: f32

record llm_ipc_infer_slot =
  sl_seq :: u64
  sl_prompt :: bytes
  sl_temperature :: f32
  sl_top_p :: f32

abbreviation LLM_IPC_RING_CAP :: u32 where "LLM_IPC_RING_CAP \<equiv> 8"

record llm_ipc =
  li_server_present :: bool
  li_next_seq :: u64
  li_slots :: "nat \<Rightarrow> llm_ipc_infer_slot"
  li_head :: u32
  li_tail :: u32
  li_count :: u32
  li_resp_seq :: u64
  li_resp_text :: bytes
  li_resp_len :: nat
  li_resp_valid :: bool

definition llm_ipc_init :: "llm_ipc \<Rightarrow> llm_ipc" where
  "llm_ipc_init s =
     s\<lparr>li_slots := \<lambda>_. \<lparr>sl_seq = 0, sl_prompt = replicate 512 0, sl_temperature = 0, sl_top_p = 0\<rparr>,
       li_head := 0, li_tail := 0, li_count := 0, li_server_present := False, li_resp_valid := False\<rparr>"

definition llm_ipc_set_userspace_server_present :: "bool \<Rightarrow> llm_ipc \<Rightarrow> llm_ipc" where
  "llm_ipc_set_userspace_server_present present s = s\<lparr>li_server_present := present\<rparr>"

definition llm_ipc_userspace_server_present :: "llm_ipc \<Rightarrow> bool" where
  "llm_ipc_userspace_server_present s = li_server_present s"

text \<open>The output buffer is never written; the result is an error on every path.\<close>

definition llm_ipc_try_infer :: "llm_infer_request \<Rightarrow> nat \<Rightarrow> llm_ipc \<Rightarrow> errno \<times> llm_ipc" where
  "llm_ipc_try_infer req out_max s =
     (case ir_prompt req of
        None \<Rightarrow> (EINVAL, s)
      | Some prompt \<Rightarrow>
          if out_max = 0 then (EINVAL, s)
          else if \<not> li_server_present s then (ENOTSUP, s)
          else if LLM_IPC_RING_CAP \<le> li_count s then (EAGAIN, s)
          else
            let sl = \<lparr>sl_seq = li_next_seq s, sl_prompt = fmt_buf 512 ''%s'' [VStr (Some prompt)],
                      sl_temperature = ir_temperature req, sl_top_p = ir_top_p req\<rparr>
            in (EAGAIN, s\<lparr>li_next_seq := li_next_seq s + 1, li_slots := (li_slots s)(unat (li_tail s) := sl),
                          li_tail := (li_tail s + 1) mod LLM_IPC_RING_CAP, li_count := li_count s + 1\<rparr>))"

definition llm_ipc_server_dequeue_infer :: "llm_ipc \<Rightarrow> llm_ipc_infer_slot option \<times> llm_ipc" where
  "llm_ipc_server_dequeue_infer s =
     (if li_count s = 0 then (None, s)
      else (Some (li_slots s (unat (li_head s))),
            s\<lparr>li_head := (li_head s + 1) mod LLM_IPC_RING_CAP, li_count := li_count s - 1\<rparr>))"

text \<open>\<open>text\<close> are the \<open>len\<close> bytes that the caller passes.\<close>

definition llm_ipc_server_post_response :: "u64 \<Rightarrow> bytes \<Rightarrow> llm_ipc \<Rightarrow> llm_ipc" where
  "llm_ipc_server_post_response sq txt s =
     (let len = (if 768 \<le> length txt then 767 else length txt)
      in s\<lparr>li_resp_seq := sq, li_resp_text := take len txt @ 0 # drop (len + 1) (li_resp_text s),
           li_resp_len := len, li_resp_valid := True\<rparr>)"

definition llm_ipc_take_response :: "u64 \<Rightarrow> nat \<Rightarrow> llm_ipc \<Rightarrow> (errno + bytes) \<times> llm_ipc" where
  "llm_ipc_take_response sq out_max s =
     (if out_max = 0 \<or> \<not> li_resp_valid s \<or> li_resp_seq s \<noteq> sq then (Inl ENOENT, s)
      else let n = li_resp_len s; n = (if out_max \<le> n then out_max - 1 else n)
           in (Inr (take n (li_resp_text s) @ [0]), s\<lparr>li_resp_valid := False\<rparr>))"

section \<open>The tool router\<close>

datatype llm_tool_route_target = LLM_TOOL_ROUTE_HMS | LLM_TOOL_ROUTE_AGENT_MAILBOX | LLM_TOOL_ROUTE_VFS
  | LLM_TOOL_ROUTE_SKILL_IFC | LLM_TOOL_ROUTE_NET_HTTP | LLM_TOOL_ROUTE_LOCAL_LLM | LLM_TOOL_ROUTE_UNKNOWN

record llm_tool_route_result =
  rr_target :: llm_tool_route_target
  rr_priority :: u32
  rr_reason :: bytes

fun starts_with :: "bytes \<Rightarrow> bytes \<Rightarrow> bool" where
  "starts_with s [] = True"
| "starts_with s (c # p) = (if c = 0 then True else if rd s \<noteq> c then False else starts_with (tl s) p)"

definition name_has_any :: "bytes \<Rightarrow> string list \<Rightarrow> bool" where
  "name_has_any name keys \<longleftrightarrow> list_ex (\<lambda>k. strstr name (str k) \<noteq> None) keys"

abbreviation route :: "llm_tool_route_target \<Rightarrow> u32 \<Rightarrow> string \<Rightarrow> llm_tool_route_result" where
  "route t p why \<equiv> \<lparr>rr_target = t, rr_priority = p, rr_reason = text_field 80 (str why)\<rparr>"

definition args_hint :: "bytes option \<Rightarrow> llm_tool_route_result \<Rightarrow> llm_tool_route_result" where
  "args_hint args out =
     (case args of
        None \<Rightarrow> out
      | Some a \<Rightarrow>
          if strstr a (str [CHR 0x22, CHR ''p'', CHR ''a'', CHR ''t'', CHR ''h'', CHR 0x22]) \<noteq> None
             \<or> strstr a (str ''filepath'') \<noteq> None \<or> strstr a (str ''/'') \<noteq> None
          then route LLM_TOOL_ROUTE_VFS 1 ''args_path''
          else if strstr a (str ''http://'') \<noteq> None \<or> strstr a (str ''https://'') \<noteq> None
             \<or> strstr a (str [CHR 0x22, CHR ''u'', CHR ''r'', CHR ''l'', CHR 0x22]) \<noteq> None
          then route LLM_TOOL_ROUTE_NET_HTTP 1 ''args_url''
          else out)"

abbreviation vfs_keys :: "string list" where
  "vfs_keys \<equiv> [''read_file'', ''write_file'', ''list_dir'', ''fs_'', ''file_'', ''path_'']"
abbreviation hms_keys :: "string list" where
  "hms_keys \<equiv> [''memory_'', ''hms_'', ''vector_'', ''recall_'', ''embed_'', ''history_search'']"
abbreviation mb_keys :: "string list" where
  "mb_keys \<equiv> [''mailbox_'', ''agent_send'', ''broadcast_'', ''notify_'']"
abbreviation skill_keys :: "string list" where
  "skill_keys \<equiv> [''skill_'', ''sandbox_'', ''exec_skill'', ''run_elf'', ''ifc_'']"
abbreviation net_keys :: "string list" where
  "net_keys \<equiv> [''http_'', ''fetch_'', ''openai_'', ''remote_'', ''api_request'']"

definition llm_tool_route_compute :: "bytes \<Rightarrow> bytes option \<Rightarrow> llm_tool_route_result" where
  "llm_tool_route_compute tool_name args_json =
     (let out = route LLM_TOOL_ROUTE_UNKNOWN 8 ''default'';
          name = (if starts_with tool_name (str ''functions.'') then drop 10 tool_name else tool_name)
      in if name_has_any name vfs_keys then route LLM_TOOL_ROUTE_VFS 0 ''name_vfs''
         else if name_has_any name hms_keys then route LLM_TOOL_ROUTE_HMS 0 ''name_hms''
         else if name_has_any name mb_keys then route LLM_TOOL_ROUTE_AGENT_MAILBOX 0 ''name_mailbox''
         else if name_has_any name skill_keys then route LLM_TOOL_ROUTE_SKILL_IFC 0 ''name_skill''
         else if name_has_any name net_keys then route LLM_TOOL_ROUTE_NET_HTTP 0 ''name_net''
         else let hint = args_hint args_json out
              in if rr_target hint \<noteq> LLM_TOOL_ROUTE_UNKNOWN then hint
                 else route LLM_TOOL_ROUTE_LOCAL_LLM 4 ''fallback_local'')"

definition target_tag :: "llm_tool_route_target \<Rightarrow> string" where
  "target_tag t =
     (case t of LLM_TOOL_ROUTE_HMS \<Rightarrow> ''hms'' | LLM_TOOL_ROUTE_AGENT_MAILBOX \<Rightarrow> ''mailbox'' | LLM_TOOL_ROUTE_VFS \<Rightarrow> ''vfs''
      | LLM_TOOL_ROUTE_SKILL_IFC \<Rightarrow> ''skill_ifc'' | LLM_TOOL_ROUTE_NET_HTTP \<Rightarrow> ''net_http''
      | LLM_TOOL_ROUTE_LOCAL_LLM \<Rightarrow> ''local_llm'' | LLM_TOOL_ROUTE_UNKNOWN \<Rightarrow> ''unknown'')"

definition llm_tool_route_format :: "llm_tool_route_result \<Rightarrow> bytes \<Rightarrow> ((errno + u32) \<times> bytes) option" where
  "llm_tool_route_format res buf =
     (if buf = [] then Some (Inl EINVAL, buf)
      else map_option (\<lambda>(n, b). (Inr n, b))
             (snprintf buf (str ''tgt=%s pri=%u why=%s'')
                [VStr (Some (str (target_tag (rr_target res)))), VNum (ucast (rr_priority res)), VStr (Some (rr_reason res))]))"

section \<open>The calls\<close>

definition llm_remote_infer :: "bytes \<Rightarrow> errno \<times> bytes" where
  "llm_remote_infer out = (ENOTSUP, out[0 := 0])"

text \<open>
  \<open>local_ctx\<close> is the context of the model in the kernel: \<open>None\<close> if there is none, \<open>Some None\<close> if no model is loaded, and
  otherwise the function that the model computes. \<open>embedded\<close> is \<open>AEVOS_EMBED_LLM\<close>.
\<close>

definition llm_sys_infer ::
    "bool \<Rightarrow> (bytes \<Rightarrow> bytes \<Rightarrow> (errno + 'r) \<times> bytes) option option \<Rightarrow> llm_infer_request \<Rightarrow> bytes \<Rightarrow> llm_ipc
     \<Rightarrow> (errno + 'r) \<times> bytes \<times> llm_ipc" where
  "llm_sys_infer embedded local_ctx req output s =
     (if output = [] then (Inl EINVAL, output, s)
      else
        let (r, out1) = (if ir_prefer_remote req then llm_remote_infer output else (ENOTSUP, output))
        in if r \<noteq> ENOTSUP then (Inl r, out1, s)
           else
             let s1 = (if embedded then s else snd (llm_ipc_try_infer req (length out1) s))
             in case (local_ctx, ir_prompt req) of
                  (Some None, Some prompt) \<Rightarrow> (Inl ENOTSUP, out1, s1)
                | (Some (Some infer), Some prompt) \<Rightarrow> (let (r, out2) = infer prompt out1 in (r, out2, s1))
                | _ \<Rightarrow> (Inl EINVAL, out1, s1))"

definition llm_sys_tokenize :: "(bytes \<Rightarrow> int \<Rightarrow> errno + 'r) option option \<Rightarrow> bytes option \<Rightarrow> int \<Rightarrow> errno + 'r" where
  "llm_sys_tokenize local_ctx txt max_tokens =
     (case (local_ctx, txt) of
        (Some model, Some t) \<Rightarrow>
          if max_tokens \<le> 0 then Inl EINVAL
          else (case model of None \<Rightarrow> Inl ENOTSUP | Some tokenize \<Rightarrow> tokenize t max_tokens)
      | _ \<Rightarrow> Inl EINVAL)"

definition llm_sys_tool_dispatch :: "bytes \<Rightarrow> bytes option \<Rightarrow> bytes \<Rightarrow> ((errno + unit) \<times> bytes) option" where
  "llm_sys_tool_dispatch tool_name args_json route_buf =
     (if route_buf = [] then Some (Inl EINVAL, route_buf)
      else
        let rr = llm_tool_route_compute tool_name (Some (case args_json of Some a \<Rightarrow> a | None \<Rightarrow> []))
        in case llm_tool_route_format rr (replicate 192 0) of
             None \<Rightarrow> None
           | Some (_, line) \<Rightarrow>
               map_option (\<lambda>(n, b). (Inr (), b)) (snprintf route_buf (str ''tool=%s %s'') [VStr (Some tool_name), VStr (Some line)]))"

section \<open>The queue\<close>

definition ipc_inv :: "llm_ipc \<Rightarrow> bool" where
  "ipc_inv s \<longleftrightarrow> unat (li_head s) < 8 \<and> unat (li_count s) \<le> 8 \<and> unat (li_tail s) = (unat (li_head s) + unat (li_count s)) mod 8"

definition ipc_queue :: "llm_ipc \<Rightarrow> llm_ipc_infer_slot list" where
  "ipc_queue s = map (\<lambda>k. li_slots s ((unat (li_head s) + k) mod 8)) [0..<unat (li_count s)]"

lemma ring_step: "unat (h :: u32) < 8 \<Longrightarrow> unat ((h + 1) mod 8) = (unat h + 1) mod 8"
  by (simp add: unat_mod unat_word_ariths)

lemma ring_neq:
  assumes "k < n" and "n < 8"
  shows "(h + k) mod 8 \<noteq> (h + n) mod (8 :: nat)"
proof
  assume "(h + k) mod 8 = (h + n) mod 8"
  then have "8 dvd (h + n) - (h + k)" using assms(1) by (metis add_le_mono le_refl less_imp_le mod_eq_dvd_iff_nat)
  then show False using assms nat_dvd_not_less [of "n - k" 8] by simp
qed

lemma ipc_enqueue:
  assumes inv: "ipc_inv s" and room: "li_count s < 8"
    and s': "s' = s\<lparr>li_next_seq := q, li_slots := (li_slots s)(unat (li_tail s) := sl), li_tail := (li_tail s + 1) mod 8, li_count := li_count s + 1\<rparr>"
  shows "ipc_inv s'" and "ipc_queue s' = ipc_queue s @ [sl]"
proof -
  let ?h = "unat (li_head s)" and ?n = "unat (li_count s)"
  have n: "?n < 8" and h: "?h < 8" and t: "unat (li_tail s) = (?h + ?n) mod 8"
    using inv room by (simp_all add: ipc_inv_def word_less_nat_alt)
  have n1: "unat (li_count s + 1) = Suc ?n" using n by (simp add: unat_word_ariths)
  have "unat ((li_tail s + 1) mod 8) = (?h + Suc ?n) mod 8"
    using ring_step [of "li_tail s"] t by (simp add: mod_simps)
  then show "ipc_inv s'" using n h n1 by (simp add: ipc_inv_def s')
  have ne: "(?h + k) mod 8 \<noteq> (?h + ?n) mod 8" if "k < ?n" for k
    using ring_neq [OF that n] .
  have "ipc_queue s' = map (\<lambda>k. ((li_slots s)((?h + ?n) mod 8 := sl)) ((?h + k) mod 8)) ([0..<?n] @ [?n])"
    by (simp add: ipc_queue_def s' n1 t del: fun_upd_apply)
  also have "\<dots> = ipc_queue s @ [sl]" using ne by (simp add: ipc_queue_def)
  finally show "ipc_queue s' = ipc_queue s @ [sl]" .
qed

lemma ipc_dequeue:
  assumes inv: "ipc_inv s" and some: "li_count s \<noteq> 0"
  shows "ipc_queue s = li_slots s (unat (li_head s)) # ipc_queue (snd (llm_ipc_server_dequeue_infer s))"
    and "ipc_inv (snd (llm_ipc_server_dequeue_infer s))"
proof -
  let ?h = "unat (li_head s)"
  have h: "?h < 8" and t: "unat (li_tail s) = (?h + unat (li_count s)) mod 8" and le: "unat (li_count s) \<le> 8"
    using inv by (simp_all add: ipc_inv_def)
  obtain m where m: "unat (li_count s) = Suc m" using some by (metis not0_implies_Suc unat_eq_zero)
  have m1: "unat (li_count s - 1) = m" using m some by (simp add: unat_minus_one)
  note step = ring_step [OF h]
  have "[0..<Suc m] = 0 # map Suc [0..<m]" by (simp add: upt_conv_Cons map_Suc_upt del: upt_Suc)
  then show "ipc_queue s = li_slots s ?h # ipc_queue (snd (llm_ipc_server_dequeue_infer s))"
    using some h by (simp add: ipc_queue_def llm_ipc_server_dequeue_infer_def m m1 step mod_simps comp_def del: upt_Suc)
  show "ipc_inv (snd (llm_ipc_server_dequeue_infer s))"
    using some le t m by (simp add: ipc_inv_def llm_ipc_server_dequeue_infer_def m1 step mod_simps)
qed

section \<open>Addresses among the arguments\<close>

text \<open>
  Every address of the network holds a slash, and a slash among the arguments is taken for a path first: a call whose
  name has none of the known parts and whose arguments hold a URL goes to the file system, never to the network.
\<close>

lemma url_has_slash:
  assumes "strstr a (str pre) \<noteq> None" and "pre = u @ ''/'' @ w" and "0 \<notin> set (str pre)"
  shows "strstr a (str ''/'') \<noteq> None"
proof
  assume none: "strstr a (str ''/'') = None"
  have c: "cval (str x) = str x" if "0 \<notin> set (str x)" for x
    using that unfolding cval_def by (intro takeWhile_eq_all_conv [THEN iffD2]) metis
  obtain i where "strstr a (str pre) = Some i" using assms(1) by blast
  from strstr_first(2) [OF this] have at: "take (length pre) (drop i (cval a)) = str pre"
    using c [OF assms(3)] by (simp add: occurs_at_def str_def)
  have "take 1 (drop (length u) (take (length pre) (drop i (cval a)))) = str ''/''"
    unfolding at using assms(2) by (simp add: str_def)
  then have "take 1 (drop (i + length u) (cval a)) = str ''/''"
    using assms(2) by (simp add: drop_take min_def add.commute)
  moreover from this have "i + length u \<le> length (cval a)" by (cases "i + length u \<le> length (cval a)") (simp_all add: str_def)
  ultimately have "occurs_at (cval a) (cval (str ''/'')) (i + length u)" by (simp add: occurs_at_def cval_def str_def)
  then show False using strstr_first(1) [OF none] by blast
qed

lemma url_routed_to_files:
  assumes "strstr a (str ''http://'') \<noteq> None \<or> strstr a (str ''https://'') \<noteq> None"
    and "\<not> starts_with name (str ''functions.'')"
    and "\<not> name_has_any name (vfs_keys @ hms_keys @ mb_keys @ skill_keys @ net_keys)"
  shows "rr_target (llm_tool_route_compute name (Some a)) = LLM_TOOL_ROUTE_VFS"
proof -
  have slash: "strstr a (str ''/'') \<noteq> None" using assms(1)
  proof
    assume "strstr a (str ''http://'') \<noteq> None"
    then show ?thesis by (rule url_has_slash [where u = "''http:''" and w = "''/''"]) (simp_all add: str_def)
  next
    assume "strstr a (str ''https://'') \<noteq> None"
    then show ?thesis by (rule url_has_slash [where u = "''https:''" and w = "''/''"]) (simp_all add: str_def)
  qed
  have "args_hint (Some a) out = route LLM_TOOL_ROUTE_VFS 1 ''args_path''" for out
    unfolding args_hint_def option.case by (subst if_P) (use slash in blast, rule refl)
  moreover have "\<not> name_has_any name vfs_keys" "\<not> name_has_any name hms_keys" "\<not> name_has_any name mb_keys"
    "\<not> name_has_any name skill_keys" "\<not> name_has_any name net_keys"
    using assms(3) unfolding name_has_any_def list_ex_append by blast+
  ultimately show ?thesis
    unfolding llm_tool_route_compute_def Let_def if_not_P [OF assms(2)] by (simp only: if_False llm_tool_route_result.simps) simp
qed

section \<open>The property\<close>

definition ipc_slot :: "llm_infer_request \<Rightarrow> bytes \<Rightarrow> u64 \<Rightarrow> llm_ipc_infer_slot" where
  "ipc_slot req prompt q = \<lparr>sl_seq = q, sl_prompt = fmt_buf 512 ''%s'' [VStr (Some prompt)],
     sl_temperature = ir_temperature req, sl_top_p = ir_top_p req\<rparr>"

lemma try_infer_spec:
  assumes inv: "ipc_inv s" and r: "llm_ipc_try_infer req n s = (e, s')" and p: "ir_prompt req = Some prompt" "n \<noteq> 0" "li_server_present s"
  shows "e = EAGAIN" and "ipc_inv s'"
    and "ipc_queue s' = ipc_queue s @ (if length (ipc_queue s) < 8 then [ipc_slot req prompt (li_next_seq s)] else [])"
proof -
  have len: "length (ipc_queue s) = unat (li_count s)" by (simp add: ipc_queue_def)
  have "e = EAGAIN \<and> ipc_inv s' \<and> ipc_queue s' = ipc_queue s @ (if length (ipc_queue s) < 8 then [ipc_slot req prompt (li_next_seq s)] else [])"
  proof (cases "li_count s < 8")
    case True
    then have "\<not> 8 \<le> li_count s" by (simp only: not_le)
    then have "e = EAGAIN" and s': "s' = s\<lparr>li_next_seq := li_next_seq s + 1, li_slots := (li_slots s)(unat (li_tail s) := ipc_slot req prompt (li_next_seq s)),
        li_tail := (li_tail s + 1) mod 8, li_count := li_count s + 1\<rparr>"
      using r p by (simp_all add: llm_ipc_try_infer_def Let_def ipc_slot_def)
    moreover have "unat (li_count s) < 8" using True by (simp add: word_less_nat_alt)
    ultimately show ?thesis using ipc_enqueue [OF inv True s'] len by simp
  next
    case False
    then have "8 \<le> li_count s" by (simp only: not_less)
    moreover have "\<not> unat (li_count s) < 8" using False by (simp add: word_less_nat_alt)
    ultimately show ?thesis using r p inv len by (simp add: llm_ipc_try_infer_def)
  qed
  then show "e = EAGAIN" and "ipc_inv s'"
    and "ipc_queue s' = ipc_queue s @ (if length (ipc_queue s) < 8 then [ipc_slot req prompt (li_next_seq s)] else [])" by blast+
qed

lemma response_once:
  assumes "n \<noteq> 0"
  shows "fst (llm_ipc_take_response q n (llm_ipc_server_post_response q txt s)) = Inr (take (min 767 (n - 1)) txt @ [0])"
    and "fst (llm_ipc_take_response q m (snd (llm_ipc_take_response q n (llm_ipc_server_post_response q txt s)))) = Inl ENOENT"
  using assms by (auto simp: llm_ipc_take_response_def llm_ipc_server_post_response_def Let_def min_def)


definition ipc_demo :: llm_ipc where
  "ipc_demo = \<lparr>li_server_present = True, li_next_seq = 1, li_slots = \<lambda>_. \<lparr>sl_seq = 0, sl_prompt = [], sl_temperature = 0, sl_top_p = 0\<rparr>,
     li_head = 7, li_tail = 7, li_count = 0, li_resp_seq = 0, li_resp_text = [], li_resp_len = 0, li_resp_valid = False\<rparr>"


end
