(* ===== verification/Aevosfs.thy ===== *)
theory Aevosfs
  imports Vfs
begin

text \<open>
  The log-structured file system, \<open>kernel/fs/aevosfs.c\<close>, and its operations for the virtual file system.

  The block device is the pair of functions that \<open>aevosfs_init\<close> stores: \<open>af_read\<close> gives the block, or \<open>None\<close> when the
  transfer fails; \<open>af_write\<close> says whether the block was written. An inode is named by its place in the inode table;
  the \<open>fs_data\<close> of a node of the virtual file system is that place plus one, \<open>0\<close> being the null pointer. Paths are split by
  \<open>split_path\<close> and \<open>split_last\<close>, which model the same loops in \<open>vfs.c\<close>. The lock is left out, as are null paths and
  buffers and log output.
\<close>

section \<open>Data\<close>

abbreviation AEVOSFS_MAGIC :: u32 where "AEVOSFS_MAGIC \<equiv> 0xAE05F5A1"
abbreviation AEVOSFS_BLOCK_SIZE :: nat where "AEVOSFS_BLOCK_SIZE \<equiv> 4096"
abbreviation AEVOSFS_DIRECT_BLOCKS :: nat where "AEVOSFS_DIRECT_BLOCKS \<equiv> 16"
abbreviation AEVOSFS_MAX_INODES :: nat where "AEVOSFS_MAX_INODES \<equiv> 4096"

record aevosfs_superblock =
  sb_magic :: u32
  sb_version :: u32
  sb_block_size :: u32
  sb_total_blocks :: u64
  sb_free_blocks :: u64
  sb_root_inode :: u64
  sb_log_head :: u64
  sb_checkpoint_block :: u64
  sb_reserved :: bytes

datatype aevosfs_inode_type = AEVOSFS_FILE | AEVOSFS_DIR

text \<open>The reserved bytes of an inode are always zero and are left out.\<close>

record aevosfs_inode =
  in_id :: u64
  in_type :: aevosfs_inode_type
  in_size :: u64
  in_created :: u64
  in_modified :: u64
  in_blocks :: "nat \<Rightarrow> u64"
  in_indirect :: u64
  in_permissions :: u32
  in_link_count :: u32

record aevosfs_dir_entry =
  ad_inode_id :: u64
  ad_name :: bytes
  ad_type :: aevosfs_inode_type

record aevosfs_log_entry =
  le_entry_type :: u8
  le_inode_id :: u64
  le_offset :: u64
  le_length :: u32
  le_data_block :: u64
  le_timestamp :: u64

record 'd aevosfs =
  af_read :: "'d \<Rightarrow> u64 \<Rightarrow> bytes option"
  af_write :: "u64 \<Rightarrow> bytes \<Rightarrow> 'd \<Rightarrow> bool \<times> 'd"
  af_dev :: 'd
  af_sb :: aevosfs_superblock
  af_inodes :: "nat \<Rightarrow> aevosfs_inode"
  af_next_id :: u64

abbreviation upd_inode :: "nat \<Rightarrow> (aevosfs_inode \<Rightarrow> aevosfs_inode) \<Rightarrow> 'd aevosfs \<Rightarrow> 'd aevosfs" where
  "upd_inode i f fs \<equiv> fs\<lparr>af_inodes := (af_inodes fs)(i := f (af_inodes fs i))\<rparr>"

abbreviation set_block :: "nat \<Rightarrow> nat \<Rightarrow> u64 \<Rightarrow> 'd aevosfs \<Rightarrow> 'd aevosfs" where
  "set_block i b blk \<equiv> upd_inode i (\<lambda>n. n\<lparr>in_blocks := (in_blocks n)(b := blk)\<rparr>)"

text \<open>The packed structures as bytes. A directory entry takes 140 bytes, so that a block holds 29 of them.\<close>

abbreviation type_code :: "aevosfs_inode_type \<Rightarrow> u32" where
  "type_code t \<equiv> (case t of AEVOSFS_FILE \<Rightarrow> 0 | AEVOSFS_DIR \<Rightarrow> 1)"

definition sb_bytes :: "aevosfs_superblock \<Rightarrow> bytes" where
  "sb_bytes s = le_bytes 4 (sb_magic s) @ le_bytes 4 (sb_version s) @ le_bytes 4 (sb_block_size s) @ le_bytes 8 (sb_total_blocks s) @
     le_bytes 8 (sb_free_blocks s) @ le_bytes 8 (sb_root_inode s) @ le_bytes 8 (sb_log_head s) @ le_bytes 8 (sb_checkpoint_block s) @
     sb_reserved s"

definition sb_of :: "bytes \<Rightarrow> aevosfs_superblock" where
  "sb_of b = \<lparr>sb_magic = le_word (take 4 b), sb_version = le_word (take 4 (drop 4 b)), sb_block_size = le_word (take 4 (drop 8 b)),
     sb_total_blocks = le_word (take 8 (drop 12 b)), sb_free_blocks = le_word (take 8 (drop 20 b)),
     sb_root_inode = le_word (take 8 (drop 28 b)), sb_log_head = le_word (take 8 (drop 36 b)),
     sb_checkpoint_block = le_word (take 8 (drop 44 b)), sb_reserved = take 448 (drop 52 b)\<rparr>"

definition inode_bytes :: "aevosfs_inode \<Rightarrow> bytes" where
  "inode_bytes n = le_bytes 8 (in_id n) @ le_bytes 4 (type_code (in_type n)) @ le_bytes 8 (in_size n) @ le_bytes 8 (in_created n) @
     le_bytes 8 (in_modified n) @ concat (map (\<lambda>b. le_bytes 8 (in_blocks n b)) [0..<AEVOSFS_DIRECT_BLOCKS]) @ le_bytes 8 (in_indirect n) @
     le_bytes 4 (in_permissions n) @ le_bytes 4 (in_link_count n) @ replicate 40 0"

definition log_bytes :: "aevosfs_log_entry \<Rightarrow> bytes" where
  "log_bytes e = [le_entry_type e] @ le_bytes 8 (le_inode_id e) @ le_bytes 8 (le_offset e) @ le_bytes 4 (le_length e) @
     le_bytes 8 (le_data_block e) @ le_bytes 8 (le_timestamp e)"

definition de_at :: "bytes \<Rightarrow> nat \<Rightarrow> aevosfs_dir_entry" where
  "de_at blk i =
     (let e = take 140 (drop (140 * i) blk)
      in \<lparr>ad_inode_id = le_word (take 8 e), ad_name = take 128 (drop 8 e),
          ad_type = (if le_word (take 4 (drop 136 e)) = (1 :: u32) then AEVOSFS_DIR else AEVOSFS_FILE)\<rparr>)"

definition de_put :: "nat \<Rightarrow> aevosfs_dir_entry \<Rightarrow> bytes \<Rightarrow> bytes" where
  "de_put i e blk = take (140 * i) blk @ le_bytes 8 (ad_inode_id e) @ ad_name e @ le_bytes 4 (type_code (ad_type e)) @ drop (140 * i + 140) blk"

abbreviation entries_per_block :: nat where "entries_per_block \<equiv> 29"

abbreviation zero_block :: bytes where "zero_block \<equiv> replicate AEVOSFS_BLOCK_SIZE 0"

abbreviation to_block :: "bytes \<Rightarrow> bytes" where
  "to_block b \<equiv> b @ drop (length b) zero_block"

section \<open>Blocks and inodes\<close>

definition alloc_block :: "'d aevosfs \<Rightarrow> u64 \<times> 'd aevosfs" where
  "alloc_block fs =
     (let sb = af_sb fs
      in if sb_free_blocks sb = 0 then (0, fs)
         else (sb_log_head sb, fs\<lparr>af_sb := sb\<lparr>sb_log_head := sb_log_head sb + 1, sb_free_blocks := sb_free_blocks sb - 1\<rparr>\<rparr>))"

definition read_block :: "u64 \<Rightarrow> 'd aevosfs \<Rightarrow> bytes option" where
  "read_block blk fs = af_read fs (af_dev fs) blk"

definition write_block :: "u64 \<Rightarrow> bytes \<Rightarrow> 'd aevosfs \<Rightarrow> (errno + unit) \<times> 'd aevosfs" where
  "write_block blk buf fs = (case af_write fs blk buf (af_dev fs) of (ok, d) \<Rightarrow> (if ok then Inr () else Inl EIO, fs\<lparr>af_dev := d\<rparr>))"

definition find_inode :: "u64 \<Rightarrow> 'd aevosfs \<Rightarrow> nat option" where
  "find_inode k fs = scan (\<lambda>i. in_id (af_inodes fs i) = k) 0 AEVOSFS_MAX_INODES"

definition alloc_inode :: "aevosfs_inode_type \<Rightarrow> 'd aevosfs \<Rightarrow> nat option \<times> 'd aevosfs" where
  "alloc_inode ty fs =
     (case scan (\<lambda>i. in_id (af_inodes fs i) = 0) 0 AEVOSFS_MAX_INODES of
        None \<Rightarrow> (None, fs)
      | Some i \<Rightarrow>
          (Some i, fs\<lparr>af_inodes := (af_inodes fs)(i := \<lparr>in_id = af_next_id fs, in_type = ty, in_size = 0, in_created = 0, in_modified = 0,
                       in_blocks = \<lambda>_. 0, in_indirect = 0, in_permissions = 0x1ED, in_link_count = 1\<rparr>), af_next_id := af_next_id fs + 1\<rparr>))"

definition log_append_write :: "nat \<Rightarrow> u64 \<Rightarrow> u32 \<Rightarrow> u64 \<Rightarrow> 'd aevosfs \<Rightarrow> (errno + unit) \<times> 'd aevosfs" where
  "log_append_write i offset len data_blk fs =
     (let e = \<lparr>le_entry_type = 1, le_inode_id = in_id (af_inodes fs i), le_offset = offset, le_length = len, le_data_block = data_blk,
               le_timestamp = 0\<rparr>
      in case alloc_block fs of
           (log_blk, fs) \<Rightarrow> if log_blk = 0 then (Inl ENOSPC, fs) else write_block log_blk (to_block (log_bytes e)) fs)"

section \<open>Directories\<close>

text \<open>The blocks of a directory that its loops visit: those before the first empty place.\<close>

definition dir_blocks :: "aevosfs_inode \<Rightarrow> u64 list" where
  "dir_blocks n = takeWhile (\<lambda>blk. blk \<noteq> 0) (map (in_blocks n) [0..<AEVOSFS_DIRECT_BLOCKS])"

primrec dir_lookup :: "'d aevosfs \<Rightarrow> bytes \<Rightarrow> u64 list \<Rightarrow> u64 option" where
  "dir_lookup fs cname [] = None"
| "dir_lookup fs cname (blk # blks) =
     (case read_block blk fs of
        None \<Rightarrow> dir_lookup fs cname blks
      | Some buf \<Rightarrow>
         (case scan (\<lambda>i. ad_inode_id (de_at buf i) \<noteq> 0 \<and> strcmp (ad_name (de_at buf i)) cname = 0) 0 entries_per_block of
            None \<Rightarrow> dir_lookup fs cname blks
          | Some i \<Rightarrow> Some (ad_inode_id (de_at buf i))))"

primrec resolve_walk :: "'d aevosfs \<Rightarrow> bytes list \<Rightarrow> nat \<Rightarrow> nat option" where
  "resolve_walk fs [] cur = Some cur"
| "resolve_walk fs (c # cs) cur =
     (if in_type (af_inodes fs cur) \<noteq> AEVOSFS_DIR then None
      else case dir_lookup fs c (dir_blocks (af_inodes fs cur)) of
             None \<Rightarrow> None
           | Some k \<Rightarrow> (case find_inode k fs of None \<Rightarrow> None | Some i \<Rightarrow> resolve_walk fs cs i))"

definition resolve_path_internal :: "bytes \<Rightarrow> 'd aevosfs \<Rightarrow> nat option" where
  "resolve_path_internal path fs =
     (case find_inode (sb_root_inode (af_sb fs)) fs of
        None \<Rightarrow> None
      | Some cur \<Rightarrow> resolve_walk fs (split_path path) cur)"

text \<open>The first loop of \<open>add_dir_entry\<close>: a free entry in the blocks of the directory.\<close>

primrec add_to_blocks :: "aevosfs_dir_entry \<Rightarrow> u64 list \<Rightarrow> 'd aevosfs \<Rightarrow> ((errno + unit) \<times> 'd aevosfs) option" where
  "add_to_blocks e [] fs = None"
| "add_to_blocks e (blk # blks) fs =
     (case read_block blk fs of
        None \<Rightarrow> add_to_blocks e blks fs
      | Some buf \<Rightarrow>
         (case scan (\<lambda>i. ad_inode_id (de_at buf i) = 0) 0 entries_per_block of
            None \<Rightarrow> add_to_blocks e blks fs
          | Some i \<Rightarrow> Some (write_block blk (de_put i e buf) fs)))"

definition add_dir_entry :: "nat \<Rightarrow> bytes \<Rightarrow> u64 \<Rightarrow> aevosfs_inode_type \<Rightarrow> 'd aevosfs \<Rightarrow> (errno + unit) \<times> 'd aevosfs" where
  "add_dir_entry parent name child ty fs =
     (let e = \<lparr>ad_inode_id = child, ad_name = name_field name, ad_type = ty\<rparr>
      in case add_to_blocks e (dir_blocks (af_inodes fs parent)) fs of
           Some r \<Rightarrow> r
         | None \<Rightarrow>
            (case scan (\<lambda>b. in_blocks (af_inodes fs parent) b = 0) 0 AEVOSFS_DIRECT_BLOCKS of
               None \<Rightarrow> (Inl ENOSPC, fs)
             | Some b \<Rightarrow>
                (case alloc_block fs of
                   (blk, fs) \<Rightarrow> if blk = 0 then (Inl ENOSPC, fs) else write_block blk (de_put 0 e zero_block) (set_block parent b blk fs))))"

section \<open>The operations\<close>

definition aevosfs_init :: "('d \<Rightarrow> u64 \<Rightarrow> bytes option) \<Rightarrow> (u64 \<Rightarrow> bytes \<Rightarrow> 'd \<Rightarrow> bool \<times> 'd) \<Rightarrow> 'd aevosfs \<Rightarrow> 'd aevosfs" where
  "aevosfs_init read_fn write_fn fs =
     fs\<lparr>af_read := read_fn, af_write := write_fn,
        af_inodes := \<lambda>_. \<lparr>in_id = 0, in_type = AEVOSFS_FILE, in_size = 0, in_created = 0, in_modified = 0, in_blocks = \<lambda>_. 0,
                         in_indirect = 0, in_permissions = 0, in_link_count = 0\<rparr>,
        af_next_id := 1\<rparr>"

definition fresh_sb :: aevosfs_superblock where
  "fresh_sb = \<lparr>sb_magic = AEVOSFS_MAGIC, sb_version = 1, sb_block_size = 4096, sb_total_blocks = 65536, sb_free_blocks = 65536 - 2,
     sb_root_inode = 0, sb_log_head = 2, sb_checkpoint_block = 0, sb_reserved = replicate 448 0\<rparr>"

definition aevosfs_mount :: "'d aevosfs \<Rightarrow> (errno + unit) \<times> 'd aevosfs" where
  "aevosfs_mount fs0 =
     (let fs = (case read_block 0 fs0 of Some buf \<Rightarrow> fs0\<lparr>af_sb := sb_of buf\<rparr> | None \<Rightarrow> fs0)
      in if sb_magic (af_sb fs) \<noteq> AEVOSFS_MAGIC then
           case alloc_inode AEVOSFS_DIR (fs\<lparr>af_sb := fresh_sb\<rparr>) of
             (None, fs) \<Rightarrow> (Inl ENOMEM, fs)
           | (Some root, fs) \<Rightarrow>
               let fs = fs\<lparr>af_sb := (af_sb fs)\<lparr>sb_root_inode := in_id (af_inodes fs root)\<rparr>\<rparr>;
                   fs = snd (write_block 1 zero_block (set_block root 0 1 fs))
               in (Inr (), snd (write_block 0 (to_block (sb_bytes (af_sb fs))) fs))
         else
           case find_inode (sb_root_inode (af_sb fs)) fs of
             Some _ \<Rightarrow> (Inr (), fs)
           | None \<Rightarrow>
              (case alloc_inode AEVOSFS_DIR fs of
                 (None, fs) \<Rightarrow> (Inr (), fs)
               | (Some root, fs) \<Rightarrow> (Inr (), upd_inode root (\<lambda>n. n\<lparr>in_id := sb_root_inode (af_sb fs)\<rparr>) fs)))"

definition aevosfs_create :: "bytes \<Rightarrow> aevosfs_inode_type \<Rightarrow> 'd aevosfs \<Rightarrow> (errno + unit) \<times> 'd aevosfs" where
  "aevosfs_create path ty fs =
     (if rd path \<noteq> chr CHR ''/'' then (Inl EINVAL, fs)
      else case split_last path of
        None \<Rightarrow> (Inl EINVAL, fs)
      | Some (dir, name) \<Rightarrow>
         (case resolve_path_internal (case dir of None \<Rightarrow> str ''/'' | Some d \<Rightarrow> d) fs of
            None \<Rightarrow> (Inl ENOENT, fs)
          | Some parent \<Rightarrow>
              if in_type (af_inodes fs parent) \<noteq> AEVOSFS_DIR then (Inl ENOENT, fs)
              else case alloc_inode ty fs of
                (None, fs) \<Rightarrow> (Inl ENOMEM, fs)
              | (Some i, fs) \<Rightarrow>
                 (case add_dir_entry parent name (in_id (af_inodes fs i)) ty fs of
                    (Inl e, fs) \<Rightarrow> (Inl e, upd_inode i (\<lambda>n. n\<lparr>in_id := 0\<rparr>) fs)
                  | (Inr _, fs) \<Rightarrow> (Inr (), fs))))"

text \<open>
  Reading: the bytes copied so far are \<open>out\<close>. The result is what \<open>aevosfs_read\<close> returns and what is then in the buffer.
\<close>

function read_loop :: "aevosfs_inode \<Rightarrow> u64 \<Rightarrow> nat \<Rightarrow> 'd aevosfs \<Rightarrow> bytes \<Rightarrow> int \<times> bytes" where
  "read_loop n offset sz fs out =
     (if sz \<le> length out then (int (length out), out)
      else
        let pos = unat (offset + of_nat (length out)); block_idx = pos div AEVOSFS_BLOCK_SIZE; block_offset = pos mod AEVOSFS_BLOCK_SIZE
        in if AEVOSFS_DIRECT_BLOCKS \<le> block_idx \<or> in_blocks n block_idx = 0 then (int (length out), out)
           else case read_block (in_blocks n block_idx) fs of
                  None \<Rightarrow> (- errno_code EIO, out)
                | Some buf \<Rightarrow>
                    let chunk = min (AEVOSFS_BLOCK_SIZE - block_offset) (sz - length out)
                    in read_loop n offset sz fs (out @ map (\<lambda>k. buf ! (block_offset + k)) [0..<chunk]))"
  by pat_completeness auto
termination
proof (relation "measure (\<lambda>(n, offset, sz, fs, out). sz - length out)", goal_cases)
  case (2 n offset sz fs out pos idx off buf chunk)
  then have "off < AEVOSFS_BLOCK_SIZE" by simp
  then have "0 < chunk" using 2 by simp
  then show ?case using 2(1) by (simp add: diff_less_mono2)
qed simp

declare read_loop.simps [simp del]

definition aevosfs_read :: "nat \<Rightarrow> u64 \<Rightarrow> nat \<Rightarrow> 'd aevosfs \<Rightarrow> int \<times> bytes" where
  "aevosfs_read i offset sz fs =
     (let n = af_inodes fs i
      in if in_size n \<le> offset then (0, [])
         else read_loop n offset (min sz (unat (in_size n - offset))) fs [])"

text \<open>One round of the loop of \<open>aevosfs_write\<close>: \<open>Inl\<close> the value returned, or \<open>Inr\<close> the number of bytes written so far.\<close>

definition write_chunk :: "nat \<Rightarrow> u64 \<Rightarrow> bytes \<Rightarrow> nat \<Rightarrow> 'd aevosfs \<Rightarrow> (int + nat) \<times> 'd aevosfs" where
  "write_chunk i offset buf t fs0 =
     (let pos = unat (offset + of_nat t); block_idx = pos div AEVOSFS_BLOCK_SIZE; block_offset = pos mod AEVOSFS_BLOCK_SIZE;
          no_space = (if 0 < t then int t else - errno_code ENOSPC)
      in if AEVOSFS_DIRECT_BLOCKS \<le> block_idx then (Inl (int t), fs0)
         else
           let (blk, fs1) = (if in_blocks (af_inodes fs0 i) block_idx = 0 then alloc_block fs0
                             else (in_blocks (af_inodes fs0 i) block_idx, fs0))
           in if blk = 0 then (Inl no_space, fs1)
              else
                let fs2 = set_block i block_idx blk fs1;
                    old = (case read_block blk fs2 of Some b \<Rightarrow> b | None \<Rightarrow> zero_block);
                    chunk = min (AEVOSFS_BLOCK_SIZE - block_offset) (length buf - t);
                    block_buf = take block_offset old @ take chunk (drop t buf) @ drop (block_offset + chunk) old;
                    (new_blk, fs3) = alloc_block fs2
                in if new_blk = 0 then (Inl no_space, fs3)
                   else case write_block new_blk block_buf fs3 of
                          (Inl e, fs4) \<Rightarrow> (Inl (- errno_code EIO), fs4)
                        | (Inr _, fs4) \<Rightarrow>
                            (Inr (t + chunk),
                             snd (log_append_write i (offset + of_nat t) (of_nat chunk) new_blk (set_block i block_idx new_blk fs4))))"

lemma write_chunk_next:
  assumes "write_chunk i offset buf t fs = (Inr t', fs')"
  shows "t' = t + min (AEVOSFS_BLOCK_SIZE - unat (offset + of_nat t) mod AEVOSFS_BLOCK_SIZE) (length buf - t)"
  using assms by (auto simp: write_chunk_def Let_def split: if_splits prod.splits sum.splits)

function write_loop :: "nat \<Rightarrow> u64 \<Rightarrow> bytes \<Rightarrow> nat \<Rightarrow> 'd aevosfs \<Rightarrow> (int + nat) \<times> 'd aevosfs" where
  "write_loop i offset buf t fs =
     (if length buf \<le> t then (Inr t, fs)
      else case write_chunk i offset buf t fs of
             (Inl r, fs') \<Rightarrow> (Inl r, fs')
           | (Inr t', fs') \<Rightarrow> write_loop i offset buf t' fs')"
  by pat_completeness auto
termination
proof (relation "measure (\<lambda>(i, offset, buf, t, fs). length buf - t)", goal_cases)
  case (2 i offset buf t fs x fs' t')
  have "unat (offset + of_nat t) mod AEVOSFS_BLOCK_SIZE < AEVOSFS_BLOCK_SIZE" by simp
  then have "t < t'" using write_chunk_next [of i offset buf t fs t' fs'] 2 by simp
  then show ?case using 2(1) by (simp add: diff_less_mono2)
qed simp

declare write_loop.simps [simp del]

definition aevosfs_write :: "nat \<Rightarrow> u64 \<Rightarrow> bytes \<Rightarrow> 'd aevosfs \<Rightarrow> int \<times> 'd aevosfs" where
  "aevosfs_write i offset buf fs =
     (case write_loop i offset buf 0 fs of
        (Inl r, fs) \<Rightarrow> (r, fs)
      | (Inr t, fs) \<Rightarrow>
          let new_end = offset + of_nat t
          in (int t, if in_size (af_inodes fs i) < new_end then upd_inode i (\<lambda>n. n\<lparr>in_size := new_end\<rparr>) fs else fs))"

definition aevosfs_list_dir :: "nat \<Rightarrow> nat \<Rightarrow> 'd aevosfs \<Rightarrow> errno + aevosfs_dir_entry list" where
  "aevosfs_list_dir i max_entries fs =
     (if in_type (af_inodes fs i) \<noteq> AEVOSFS_DIR then Inl EINVAL
      else Inr (fold (\<lambda>blk entries.
                  case read_block blk fs of
                    None \<Rightarrow> entries
                  | Some buf \<Rightarrow>
                      fold (\<lambda>k es. if length es < max_entries \<and> ad_inode_id (de_at buf k) \<noteq> 0 then es @ [de_at buf k] else es)
                        [0..<entries_per_block] entries)
             (dir_blocks (af_inodes fs i)) []))"

text \<open>The loop of \<open>aevosfs_checkpoint\<close> over the inodes that are left.\<close>

primrec checkpoint_inodes :: "nat list \<Rightarrow> 'd aevosfs \<Rightarrow> (errno + unit) \<times> 'd aevosfs" where
  "checkpoint_inodes [] fs = (Inr (), fs)"
| "checkpoint_inodes (i # is) fs =
     (if in_id (af_inodes fs i) = 0 then checkpoint_inodes is fs
      else case alloc_block fs of
        (blk, fs) \<Rightarrow>
          if blk = 0 then (Inl ENOSPC, fs)
          else case write_block blk (to_block (inode_bytes (af_inodes fs i))) fs of
                 (Inl e, fs) \<Rightarrow> (Inl EIO, fs)
               | (Inr _, fs) \<Rightarrow> checkpoint_inodes is fs)"

definition aevosfs_checkpoint :: "'d aevosfs \<Rightarrow> (errno + unit) \<times> 'd aevosfs" where
  "aevosfs_checkpoint fs =
     (case checkpoint_inodes [0..<AEVOSFS_MAX_INODES] fs of
        (Inl e, fs) \<Rightarrow> (Inl e, fs)
      | (Inr _, fs) \<Rightarrow>
          let fs = fs\<lparr>af_sb := (af_sb fs)\<lparr>sb_checkpoint_block := sb_log_head (af_sb fs)\<rparr>\<rparr>
          in write_block 0 (to_block (sb_bytes (af_sb fs))) fs)"

section \<open>The driver of the virtual file system\<close>

text \<open>The inode that the node's \<open>fs_data\<close> points to.\<close>

abbreviation node_inode :: "nat \<Rightarrow> 'd aevosfs vfs \<Rightarrow> nat option" where
  "node_inode node s \<equiv> (if vn_fs_data (vfs_nodes s node) = 0 then None else Some (vn_fs_data (vfs_nodes s node) - 1))"

definition aevosfs_vfs_read :: "nat \<Rightarrow> u64 \<Rightarrow> nat \<Rightarrow> 'd aevosfs vfs \<Rightarrow> int \<times> bytes \<times> 'd aevosfs vfs" where
  "aevosfs_vfs_read node offset sz s =
     (case node_inode node s of
        None \<Rightarrow> (- errno_code EINVAL, [], s)
      | Some i \<Rightarrow> (case aevosfs_read i offset sz (vfs_drv s) of (r, buf) \<Rightarrow> (r, buf, s)))"

definition aevosfs_vfs_write :: "nat \<Rightarrow> u64 \<Rightarrow> bytes \<Rightarrow> 'd aevosfs vfs \<Rightarrow> int \<times> 'd aevosfs vfs" where
  "aevosfs_vfs_write node offset buf s =
     (case node_inode node s of
        None \<Rightarrow> (- errno_code EINVAL, s)
      | Some i \<Rightarrow> (case aevosfs_write i offset buf (vfs_drv s) of (r, fs) \<Rightarrow> (r, s\<lparr>vfs_drv := fs\<rparr>)))"

definition aevosfs_vfs_open :: "nat \<Rightarrow> u32 \<Rightarrow> 'd aevosfs vfs \<Rightarrow> int \<times> 'd aevosfs vfs" where
  "aevosfs_vfs_open node flags s = (0, s)"

definition aevosfs_vfs_close :: "nat \<Rightarrow> 'd aevosfs vfs \<Rightarrow> int \<times> 'd aevosfs vfs" where
  "aevosfs_vfs_close node s = (0, s)"

text \<open>\<open>mem\<close> says whether the temporary array can be allocated.\<close>

definition aevosfs_vfs_readdir :: "bool \<Rightarrow> nat \<Rightarrow> nat \<Rightarrow> 'd aevosfs vfs \<Rightarrow> int \<times> vfs_dirent list \<times> 'd aevosfs vfs" where
  "aevosfs_vfs_readdir mem node max_entries s =
     (case node_inode node s of
        None \<Rightarrow> (- errno_code EINVAL, [], s)
      | Some i \<Rightarrow>
          if \<not> mem then (- errno_code ENOMEM, [], s)
          else case aevosfs_list_dir i max_entries (vfs_drv s) of
                 Inl e \<Rightarrow> (- errno_code e, [], s)
               | Inr es \<Rightarrow>
                   (int (length es),
                    map (\<lambda>e. \<lparr>de_name = name_field (ad_name e), de_type = (if ad_type e = AEVOSFS_DIR then VFS_DIR else VFS_FILE),
                             de_inode = ad_inode_id e,
                             de_size = (case find_inode (ad_inode_id e) (vfs_drv s) of
                                          None \<Rightarrow> 0 | Some c \<Rightarrow> in_size (af_inodes (vfs_drv s) c))\<rparr>) es, s))"

definition aevosfs_vfs_mkdir :: "nat \<Rightarrow> bytes \<Rightarrow> 'd aevosfs vfs \<Rightarrow> int \<times> 'd aevosfs vfs" where
  "aevosfs_vfs_mkdir parent name s = (0, s)"

definition aevosfs_vfs_stat :: "nat \<Rightarrow> vfs_statbuf \<Rightarrow> 'd aevosfs vfs \<Rightarrow> int \<times> vfs_statbuf \<times> 'd aevosfs vfs" where
  "aevosfs_vfs_stat node st s =
     (case node_inode node s of
        None \<Rightarrow> (- errno_code EINVAL, st, s)
      | Some i \<Rightarrow>
          let n = af_inodes (vfs_drv s) i
          in (0, \<lparr>vs_type = (if in_type n = AEVOSFS_DIR then VFS_DIR else VFS_FILE), vs_size = in_size n,
                 vs_permissions = in_permissions n, vs_inode = in_id n, vs_created = in_created n, vs_modified = in_modified n\<rparr>, s))"

definition aevosfs_ops :: "bool \<Rightarrow> 'd aevosfs vfs_ops" where
  "aevosfs_ops mem = \<lparr>op_read = Some aevosfs_vfs_read, op_write = Some aevosfs_vfs_write, op_open = Some aevosfs_vfs_open,
     op_close = Some aevosfs_vfs_close, op_readdir = Some (aevosfs_vfs_readdir mem), op_mkdir = Some aevosfs_vfs_mkdir,
     op_unlink = None, op_stat = Some aevosfs_vfs_stat, op_lookup = None\<rparr>"

definition aevosfs_feature_flags :: u32 where
  "aevosfs_feature_flags = push_bit 0 1"

definition aevosfs_cow_blocks_enabled :: bool where
  "aevosfs_cow_blocks_enabled \<longleftrightarrow> aevosfs_feature_flags AND push_bit 1 1 \<noteq> 0"

end
