(* ===== verification/AevosfsFiles.thy ===== *)
theory AevosfsFiles
  imports Aevosfs
begin

text \<open>
  The contents of files of the log-structured file system. The theorems are about a device that stores what is
  written to it, which \<open>device_ok\<close> says; the invariant \<open>fs_ok\<close> says that no block is used twice and that the blocks
  from the log head on are free.
\<close>

section \<open>Device and invariant\<close>

text \<open>Blocks below \<open>n\<close> can be read and written, and a block holds what was last written to it.\<close>

definition device_ok :: "('d \<Rightarrow> u64 \<Rightarrow> bytes option) \<Rightarrow> (u64 \<Rightarrow> bytes \<Rightarrow> 'd \<Rightarrow> bool \<times> 'd) \<Rightarrow> u64 \<Rightarrow> bool" where
  "device_ok rdf wrf n \<longleftrightarrow>
     (\<forall>d b. b < n \<longrightarrow> (\<exists>x. rdf d b = Some x)) \<and> (\<forall>d b x. rdf d b = Some x \<longrightarrow> length x = 4096) \<and>
     (\<forall>d b x c. b < n \<longrightarrow> length x = 4096 \<longrightarrow> fst (wrf b x d) \<and> rdf (snd (wrf b x d)) c = (if c = b then Some x else rdf d c))"

definition fs_ok :: "u64 \<Rightarrow> 'd aevosfs \<Rightarrow> bool" where
  "fs_ok n fs \<longleftrightarrow> device_ok (af_read fs) (af_write fs) n \<and>
     2 \<le> sb_log_head (af_sb fs) \<and> unat (sb_log_head (af_sb fs)) + unat (sb_free_blocks (af_sb fs)) \<le> unat n \<and>
     (\<forall>i b. in_id (af_inodes fs i) \<noteq> 0 \<longrightarrow> in_blocks (af_inodes fs i) b < sb_log_head (af_sb fs)) \<and>
     (\<forall>i b j c. in_id (af_inodes fs i) \<noteq> 0 \<longrightarrow> in_id (af_inodes fs j) \<noteq> 0 \<longrightarrow> in_blocks (af_inodes fs i) b \<noteq> 0
        \<longrightarrow> in_blocks (af_inodes fs i) b = in_blocks (af_inodes fs j) c \<longrightarrow> i = j \<and> b = c)"

text \<open>Byte \<open>p\<close> of a file.\<close>

definition file_byte :: "'d aevosfs \<Rightarrow> aevosfs_inode \<Rightarrow> nat \<Rightarrow> u8 option" where
  "file_byte fs n p =
     (if in_blocks n (p div 4096) = 0 then None
      else map_option (\<lambda>b. b ! (p mod 4096)) (read_block (in_blocks n (p div 4096)) fs))"

lemma fs_okD:
  assumes "fs_ok n fs"
  shows "device_ok (af_read fs) (af_write fs) n" and "2 \<le> sb_log_head (af_sb fs)"
    and "unat (sb_log_head (af_sb fs)) + unat (sb_free_blocks (af_sb fs)) \<le> unat n"
    and "in_id (af_inodes fs i) \<noteq> 0 \<Longrightarrow> in_blocks (af_inodes fs i) b < sb_log_head (af_sb fs)"
    and "in_id (af_inodes fs i) \<noteq> 0 \<Longrightarrow> in_id (af_inodes fs j) \<noteq> 0 \<Longrightarrow> in_blocks (af_inodes fs i) b \<noteq> 0
        \<Longrightarrow> in_blocks (af_inodes fs i) b = in_blocks (af_inodes fs j) c \<Longrightarrow> i = j \<and> b = c"
  using assms unfolding fs_ok_def by blast+

lemma write_block_ok:
  assumes "device_ok (af_read fs) (af_write fs) n" and "b < n" and "length x = 4096"
  shows "\<exists>d. write_block b x fs = (Inr (), fs\<lparr>af_dev := d\<rparr>) \<and> (\<forall>c. af_read fs d c = (if c = b then Some x else read_block c fs))"
  using assms by (auto simp: device_ok_def write_block_def read_block_def case_prod_beta)

lemma read_block_ok:
  assumes "device_ok (af_read fs) (af_write fs) n" and "b < n"
  shows "\<exists>x. read_block b fs = Some x \<and> length x = 4096"
  using assms unfolding device_ok_def read_block_def by metis

section \<open>Allocation\<close>

text \<open>What every write leaves alone: the device functions, and the blocks below the log head.\<close>

definition grows :: "'d aevosfs \<Rightarrow> 'd aevosfs \<Rightarrow> bool" where
  "grows fs fs' \<longleftrightarrow> af_read fs' = af_read fs \<and> af_write fs' = af_write fs \<and> af_next_id fs' = af_next_id fs \<and>
     sb_root_inode (af_sb fs') = sb_root_inode (af_sb fs) \<and> sb_log_head (af_sb fs) \<le> sb_log_head (af_sb fs') \<and>
     unat (sb_log_head (af_sb fs')) + unat (sb_free_blocks (af_sb fs')) = unat (sb_log_head (af_sb fs)) + unat (sb_free_blocks (af_sb fs)) \<and>
     (\<forall>b < sb_log_head (af_sb fs). read_block b fs' = read_block b fs)"

lemma grows_refl [simp]: "grows fs fs" by (simp add: grows_def)

lemma read_block_inodes [simp]: "read_block b (fs\<lparr>af_inodes := g\<rparr>) = read_block b fs"
  by (simp add: read_block_def)

lemma grows_inodes [simp]:
  "grows fs (fs'\<lparr>af_inodes := g\<rparr>) = grows fs fs'" "grows (fs\<lparr>af_inodes := g\<rparr>) fs' = grows fs fs'"
  by (simp_all add: grows_def)

lemma grows_trans: "grows a b \<Longrightarrow> grows b c \<Longrightarrow> grows a c"
  unfolding grows_def by (metis order_less_le_trans order_trans)

lemma alloc_block_ok:
  assumes "2 \<le> sb_log_head (af_sb fs)" and "unat (sb_log_head (af_sb fs)) + unat (sb_free_blocks (af_sb fs)) \<le> unat n"
    and "0 < unat (sb_free_blocks (af_sb fs))"
  shows "\<exists>fs'. alloc_block fs = (sb_log_head (af_sb fs), fs') \<and> grows fs fs' \<and> af_inodes fs' = af_inodes fs \<and> af_dev fs' = af_dev fs \<and>
    unat (sb_log_head (af_sb fs')) = unat (sb_log_head (af_sb fs)) + 1 \<and> sb_log_head (af_sb fs) \<noteq> 0 \<and> sb_log_head (af_sb fs) < n"
proof -
  let ?h = "sb_log_head (af_sb fs)" and ?f = "sb_free_blocks (af_sb fs)"
  have f0: "?f \<noteq> 0" using assms(3) by auto
  have "unat ?h + 1 < 2 ^ 64" using assms(2,3) unat64_less [of n] by linarith
  then have h1: "unat (?h + 1) = unat ?h + 1" by (simp add: unat_word_ariths)
  have f1: "unat (?f - 1) = unat ?f - 1" using f0 by (simp add: unat_minus_one)
  have "?h \<le> ?h + 1" using h1 by (simp add: word_le_nat_alt)
  moreover have "?h < n" using assms(2,3) by (simp add: word_less_nat_alt)
  moreover have "?h \<noteq> 0" using assms(1) by auto
  ultimately show ?thesis using f0 h1 f1 assms(3) by (simp add: alloc_block_def Let_def grows_def read_block_def)
qed

section \<open>One round of a write\<close>

definition log_ok :: "u64 \<Rightarrow> 'd aevosfs \<Rightarrow> bool" where
  "log_ok n fs \<longleftrightarrow> device_ok (af_read fs) (af_write fs) n \<and> 2 \<le> sb_log_head (af_sb fs) \<and>
     unat (sb_log_head (af_sb fs)) + unat (sb_free_blocks (af_sb fs)) \<le> unat n"

lemma fs_ok_log: "fs_ok n fs \<Longrightarrow> log_ok n fs"
  by (simp add: fs_ok_def log_ok_def)

lemma log_ok_grows: "log_ok n fs \<Longrightarrow> grows fs fs' \<Longrightarrow> log_ok n fs'"
  unfolding log_ok_def grows_def by (metis order_trans)

lemma log_ok_cong:
  "af_read fs' = af_read fs \<Longrightarrow> af_write fs' = af_write fs \<Longrightarrow> af_sb fs' = af_sb fs \<Longrightarrow> log_ok n fs' = log_ok n fs"
  by (simp add: log_ok_def)

text \<open>A new block at the log head, with its contents; inodes may change between the two steps.\<close>

lemma append_block_ok:
  assumes ok: "log_ok n fs" and free: "0 < unat (sb_free_blocks (af_sb fs))" and len: "length x = 4096"
  shows "\<exists>fs1. alloc_block fs = (sb_log_head (af_sb fs), fs1) \<and> af_inodes fs1 = af_inodes fs \<and>
    (\<forall>g. \<exists>d. write_block (sb_log_head (af_sb fs)) x (fs1\<lparr>af_inodes := g\<rparr>) = (Inr (), fs1\<lparr>af_inodes := g, af_dev := d\<rparr>) \<and>
       grows fs (fs1\<lparr>af_inodes := g, af_dev := d\<rparr>) \<and> read_block (sb_log_head (af_sb fs)) (fs1\<lparr>af_inodes := g, af_dev := d\<rparr>) = Some x) \<and>
    unat (sb_log_head (af_sb fs1)) = unat (sb_log_head (af_sb fs)) + 1 \<and> sb_log_head (af_sb fs) \<noteq> 0"
proof -
  let ?h = "sb_log_head (af_sb fs)"
  obtain fs1 where a: "alloc_block fs = (?h, fs1)" and g1: "grows fs fs1" and same: "af_inodes fs1 = af_inodes fs" "af_dev fs1 = af_dev fs"
    and h1: "unat (sb_log_head (af_sb fs1)) = unat ?h + 1" and nz: "?h \<noteq> 0" and less: "?h < n"
    using alloc_block_ok [of fs n] ok free unfolding log_ok_def by blast
  have dev: "device_ok (af_read fs1) (af_write fs1) n" using ok g1 by (simp add: log_ok_def grows_def)
  have "\<exists>d. write_block ?h x (fs1\<lparr>af_inodes := g\<rparr>) = (Inr (), fs1\<lparr>af_inodes := g, af_dev := d\<rparr>) \<and>
       grows fs (fs1\<lparr>af_inodes := g, af_dev := d\<rparr>) \<and> read_block ?h (fs1\<lparr>af_inodes := g, af_dev := d\<rparr>) = Some x" for g
    using write_block_ok [of "fs1\<lparr>af_inodes := g\<rparr>" n ?h x] dev less len g1 by (auto simp: read_block_def grows_def)
  then show ?thesis using a same h1 nz by blast
qed

lemma log_append_ok:
  assumes ok: "log_ok n fs" and free: "0 < unat (sb_free_blocks (af_sb fs))"
  shows "\<exists>fs'. snd (log_append_write i off len blk fs) = fs' \<and> grows fs fs' \<and> af_inodes fs' = af_inodes fs \<and>
    unat (sb_log_head (af_sb fs')) = unat (sb_log_head (af_sb fs)) + 1"
proof -
  define e where "e = \<lparr>le_entry_type = 1, le_inode_id = in_id (af_inodes fs i), le_offset = off, le_length = len,
    le_data_block = blk, le_timestamp = 0\<rparr>"
  have "length (to_block (log_bytes e)) = 4096" by (simp add: log_bytes_def)
  from append_block_ok [OF ok free this] obtain fs1 where
    a: "alloc_block fs = (sb_log_head (af_sb fs), fs1)" "af_inodes fs1 = af_inodes fs" "sb_log_head (af_sb fs) \<noteq> 0"
    "unat (sb_log_head (af_sb fs1)) = unat (sb_log_head (af_sb fs)) + 1"
    and w: "\<And>g. \<exists>d. write_block (sb_log_head (af_sb fs)) (to_block (log_bytes e)) (fs1\<lparr>af_inodes := g\<rparr>) = (Inr (), fs1\<lparr>af_inodes := g, af_dev := d\<rparr>)
      \<and> grows fs (fs1\<lparr>af_inodes := g, af_dev := d\<rparr>)" by blast
  from w [of "af_inodes fs1"] obtain d where
    "write_block (sb_log_head (af_sb fs)) (to_block (log_bytes e)) fs1 = (Inr (), fs1\<lparr>af_dev := d\<rparr>)" "grows fs (fs1\<lparr>af_dev := d\<rparr>)"
    by auto
  then show ?thesis using a by (simp add: log_append_write_def e_def)
qed

text \<open>The block of the inode that is read first: the one it has, or a new one.\<close>

lemma first_block_ok:
  assumes ok: "fs_ok n fs" and live: "in_id (af_inodes fs i) \<noteq> 0" and free: "0 < unat (sb_free_blocks (af_sb fs))"
    and c: "c = in_blocks (af_inodes fs i) k"
  shows "\<exists>blk fs1 old. (if c = 0 then alloc_block fs else (c, fs)) = (blk, fs1) \<and> blk \<noteq> 0 \<and> grows fs fs1 \<and> af_inodes fs1 = af_inodes fs \<and>
    unat (sb_log_head (af_sb fs1)) \<le> unat (sb_log_head (af_sb fs)) + 1 \<and> read_block blk fs1 = Some old \<and> length old = 4096 \<and>
    (c \<noteq> 0 \<longrightarrow> read_block c fs = Some old)"
proof (cases "c = 0")
  case True
  obtain fs1 where a: "alloc_block fs = (sb_log_head (af_sb fs), fs1)" "grows fs fs1" "af_inodes fs1 = af_inodes fs"
    "unat (sb_log_head (af_sb fs1)) = unat (sb_log_head (af_sb fs)) + 1" "sb_log_head (af_sb fs) \<noteq> 0" "sb_log_head (af_sb fs) < n"
    using alloc_block_ok [of fs n] fs_okD(2,3) [OF ok] free by blast
  have "device_ok (af_read fs1) (af_write fs1) n" using fs_okD(1) [OF ok] a(2) by (simp add: grows_def)
  from read_block_ok [OF this a(6)] a True show ?thesis by auto
next
  case False
  have "c < n" using fs_okD(3) [OF ok] fs_okD(4) [OF ok live, of k] c by (simp add: word_less_nat_alt)
  from read_block_ok [OF fs_okD(1) [OF ok] this] False show ?thesis by auto
qed

lemma write_chunk_ok:
  assumes ok: "fs_ok n fs" and live: "in_id (af_inodes fs i) \<noteq> 0" and free: "3 \<le> unat (sb_free_blocks (af_sb fs))"
    and p: "p = unat (offset + of_nat t)" "p < 65536"
    and c: "c = min (4096 - p mod 4096) (length buf - t)"
  shows "\<exists>fs' nb old. write_chunk i offset buf t fs = (Inr (t + c), fs') \<and> grows fs fs' \<and>
    af_inodes fs' = (af_inodes fs)(i := (af_inodes fs i)\<lparr>in_blocks := (in_blocks (af_inodes fs i))(p div 4096 := nb)\<rparr>) \<and>
    sb_log_head (af_sb fs) \<le> nb \<and> nb < sb_log_head (af_sb fs') \<and> unat (sb_log_head (af_sb fs')) \<le> unat (sb_log_head (af_sb fs)) + 3 \<and>
    length old = 4096 \<and>
    (in_blocks (af_inodes fs i) (p div 4096) \<noteq> 0 \<longrightarrow> read_block (in_blocks (af_inodes fs i) (p div 4096)) fs = Some old) \<and>
    read_block nb fs' = Some (take (p mod 4096) old @ take c (drop t buf) @ drop (p mod 4096 + c) old)"
proof -
  let ?k = "p div 4096"
  obtain blk fs1 old where
    b: "(if in_blocks (af_inodes fs i) ?k = 0 then alloc_block fs else (in_blocks (af_inodes fs i) ?k, fs)) = (blk, fs1)" "blk \<noteq> 0"
    and g1: "grows fs fs1" "af_inodes fs1 = af_inodes fs" "unat (sb_log_head (af_sb fs1)) \<le> unat (sb_log_head (af_sb fs)) + 1"
    and old: "read_block blk fs1 = Some old" "length old = 4096"
      "in_blocks (af_inodes fs i) ?k \<noteq> 0 \<longrightarrow> read_block (in_blocks (af_inodes fs i) ?k) fs = Some old"
    using first_block_ok [OF ok live, of _ ?k] free by fastforce
  define fs2 where "fs2 = set_block i ?k blk fs1"
  define x where "x = take (p mod 4096) old @ take c (drop t buf) @ drop (p mod 4096 + c) old"
  have "c \<le> 4096 - p mod 4096" "c \<le> length buf - t" using c by auto
  then have len: "length x = 4096" using old(2) by (simp add: x_def)
  have l2: "log_ok n fs2" using log_ok_cong [of fs2 fs1] log_ok_grows [OF fs_ok_log [OF ok] g1(1)] by (simp add: fs2_def)
  have f2: "2 \<le> unat (sb_free_blocks (af_sb fs2))" using free g1(1,3) by (simp add: fs2_def grows_def)
  define nb where "nb = sb_log_head (af_sb fs2)"
  from append_block_ok [OF l2 _ len] f2 obtain fs3 where
    a3: "alloc_block fs2 = (nb, fs3)" "af_inodes fs3 = af_inodes fs2" "nb \<noteq> 0"
    "unat (sb_log_head (af_sb fs3)) = unat nb + 1"
    and w3: "\<And>g. \<exists>d. write_block nb x (fs3\<lparr>af_inodes := g\<rparr>) = (Inr (), fs3\<lparr>af_inodes := g, af_dev := d\<rparr>)
      \<and> grows fs2 (fs3\<lparr>af_inodes := g, af_dev := d\<rparr>) \<and> read_block nb (fs3\<lparr>af_inodes := g, af_dev := d\<rparr>) = Some x"
    unfolding nb_def by auto
  from w3 [of "af_inodes fs3"] obtain d where
    d: "write_block nb x fs3 = (Inr (), fs3\<lparr>af_dev := d\<rparr>)" "grows fs2 (fs3\<lparr>af_dev := d\<rparr>)" "read_block nb (fs3\<lparr>af_dev := d\<rparr>) = Some x"
    by auto
  define fs5 where "fs5 = set_block i ?k nb (fs3\<lparr>af_dev := d\<rparr>)"
  have g5: "grows fs2 fs5" "read_block nb fs5 = Some x" using d(2,3) by (simp_all add: fs5_def)
  have f5: "0 < unat (sb_free_blocks (af_sb fs5))" using g5(1) f2 a3(4) unfolding grows_def by (simp add: fs5_def nb_def)
  obtain fs' where l: "snd (log_append_write i (offset + of_nat t) (of_nat c) nb fs5) = fs'" and g6: "grows fs5 fs'"
    and same: "af_inodes fs' = af_inodes fs5" and h6: "unat (sb_log_head (af_sb fs')) = unat (sb_log_head (af_sb fs5)) + 1"
    using log_append_ok [OF log_ok_grows [OF l2 g5(1)] f5] by blast
  have k16: "\<not> 16 \<le> ?k" using p(2) by simp
  have o2: "read_block blk fs2 = Some old" using old(1) by (simp add: fs2_def)
  have "write_chunk i offset buf t fs = (Inr (t + c), fs')"
    using k16 b o2 a3(1,3) d(1) l unfolding fs5_def
    by (simp add: write_chunk_def Let_def p(1) [symmetric] c [symmetric] fs2_def [symmetric] x_def [symmetric])
  moreover have "grows fs fs'"
    using grows_trans [OF g1(1)] grows_trans [OF g5(1) g6] by (simp add: fs2_def)
  moreover have "nb < sb_log_head (af_sb fs5)" using a3(4) by (simp add: fs5_def word_less_nat_alt)
  moreover from this have "nb < sb_log_head (af_sb fs')" "read_block nb fs' = Some x" using g6 g5(2) unfolding grows_def by auto
  moreover have "sb_log_head (af_sb fs) \<le> nb" using g1(1) by (simp add: nb_def fs2_def grows_def)
  moreover have "unat (sb_log_head (af_sb fs')) \<le> unat (sb_log_head (af_sb fs)) + 3"
    using h6 a3(4) g1(3) by (simp add: fs5_def nb_def fs2_def)
  ultimately show ?thesis using old(2,3) same a3(2) g1(2)
    by (intro exI [of _ fs'] exI [of _ nb] exI [of _ old]) (simp add: fs5_def fs2_def x_def)
qed

section \<open>The effect of a write\<close>

text \<open>Giving an inode a new block from the log keeps the invariant.\<close>

lemma fs_ok_new_block:
  assumes ok: "fs_ok n fs" and g: "grows fs fs'" and nb: "sb_log_head (af_sb fs) \<le> nb" "nb < sb_log_head (af_sb fs')"
    and ino: "af_inodes fs' = (af_inodes fs)(i := (af_inodes fs i)\<lparr>in_blocks := (in_blocks (af_inodes fs i))(k := nb)\<rparr>)"
  shows "fs_ok n fs'"
proof -
  let ?h = "sb_log_head (af_sb fs)" and ?h' = "sb_log_head (af_sb fs')"
  have blk: "in_blocks (af_inodes fs' j) b = (if j = i \<and> b = k then nb else in_blocks (af_inodes fs j) b)"
    and ids: "in_id (af_inodes fs' j) = in_id (af_inodes fs j)" for j b by (simp_all add: ino)
  have old: "in_blocks (af_inodes fs j) b < ?h" if "in_id (af_inodes fs j) \<noteq> 0" for j b using fs_okD(4) [OF ok that] .
  have new: "in_blocks (af_inodes fs j) b \<noteq> nb" if "in_id (af_inodes fs j) \<noteq> 0" for j b
    using old [OF that, of b] nb(1) by (metis leD)
  have log: "log_ok n fs'" using log_ok_grows [OF fs_ok_log [OF ok] g] .
  have bound: "in_blocks (af_inodes fs' j) b < ?h'" if "in_id (af_inodes fs' j) \<noteq> 0" for j b
    using that old [of j b] nb(2) g unfolding blk ids grows_def by (auto intro: order_less_le_trans)
  have "j = j' \<and> b = b'" if "in_id (af_inodes fs' j) \<noteq> 0" "in_id (af_inodes fs' j') \<noteq> 0" "in_blocks (af_inodes fs' j) b \<noteq> 0"
      "in_blocks (af_inodes fs' j) b = in_blocks (af_inodes fs' j') b'" for j b j' b'
    using that fs_okD(5) [OF ok, of j j' b b'] new [of j b] new [of j' b'] unfolding blk ids by (metis (full_types))
  then show ?thesis using log bound unfolding fs_ok_def log_ok_def by blast
qed

text \<open>The bytes from \<open>lo\<close> to \<open>hi\<close> of file \<open>i\<close> are those of the buffer, which starts at position \<open>s\<close> of the file.\<close>

definition wrote :: "nat \<Rightarrow> nat \<Rightarrow> nat \<Rightarrow> nat \<Rightarrow> bytes \<Rightarrow> 'd aevosfs \<Rightarrow> 'd aevosfs \<Rightarrow> bool" where
  "wrote i s lo hi buf fs fs' \<longleftrightarrow> grows fs fs' \<and> (\<forall>j. j \<noteq> i \<longrightarrow> af_inodes fs' j = af_inodes fs j) \<and>
     af_inodes fs' i = (af_inodes fs i)\<lparr>in_blocks := in_blocks (af_inodes fs' i)\<rparr> \<and>
     (\<forall>q. lo \<le> q \<longrightarrow> q < hi \<longrightarrow> file_byte fs' (af_inodes fs' i) q = Some (buf ! (q - s))) \<and>
     (\<forall>q. q < lo \<or> hi \<le> q \<longrightarrow> in_blocks (af_inodes fs i) (q div 4096) \<noteq> 0 \<longrightarrow>
        in_blocks (af_inodes fs' i) (q div 4096) \<noteq> 0 \<and> file_byte fs' (af_inodes fs' i) q = file_byte fs (af_inodes fs i) q)"

lemma wrote_refl: "wrote i s lo lo buf fs fs"
  by (auto simp: wrote_def)

lemma wrote_trans:
  assumes a: "wrote i s lo m buf fs fs1" and b: "wrote i s m hi buf fs1 fs2" and le: "lo \<le> m" "m \<le> hi"
  shows "wrote i s lo hi buf fs fs2"
proof -
  have q1: "file_byte fs2 (af_inodes fs2 i) q = Some (buf ! (q - s))" if q: "lo \<le> q" "q < hi" for q
  proof (cases "q < m")
    case True
    then have "file_byte fs1 (af_inodes fs1 i) q = Some (buf ! (q - s))" using a q(1) unfolding wrote_def by blast
    moreover from this have "in_blocks (af_inodes fs1 i) (q div 4096) \<noteq> 0" by (auto simp: file_byte_def)
    ultimately show ?thesis using b True unfolding wrote_def by metis
  next
    case False
    then show ?thesis using b q(2) unfolding wrote_def by (metis not_less)
  qed
  have q2: "in_blocks (af_inodes fs2 i) (q div 4096) \<noteq> 0 \<and> file_byte fs2 (af_inodes fs2 i) q = file_byte fs (af_inodes fs i) q"
    if "q < lo \<or> hi \<le> q" "in_blocks (af_inodes fs i) (q div 4096) \<noteq> 0" for q
  proof -
    have "q < lo \<or> m \<le> q" "q < m \<or> hi \<le> q" using that(1) le by auto
    then show ?thesis using a b that(2) unfolding wrote_def by metis
  qed
  have "af_inodes fs2 i = (af_inodes fs i)\<lparr>in_blocks := in_blocks (af_inodes fs2 i)\<rparr>"
    using a b unfolding wrote_def by (metis (no_types, lifting) aevosfs_inode.surjective aevosfs_inode.update_convs(6))
  moreover have "grows fs fs2" using a b grows_trans unfolding wrote_def by blast
  moreover have "af_inodes fs2 j = af_inodes fs j" if "j \<noteq> i" for j using a b that unfolding wrote_def by simp
  ultimately show ?thesis using q1 q2 unfolding wrote_def by simp
qed

lemma same_block:
  assumes "a mod n + m < (n :: nat)"
  shows "(a + m) div n = a div n" and "(a + m) mod n = a mod n + m"
proof -
  have e: "a + m = (a mod n + m) + n * (a div n)" by simp
  have "(a mod n + m + n * (a div n)) div n = a div n + (a mod n + m) div n" using assms by (intro div_mult_self2) simp
  also have "\<dots> = a div n" using assms by simp
  finally show "(a + m) div n = a div n" unfolding e [symmetric] .
  have "(a mod n + m + n * (a div n)) mod n = (a mod n + m) mod n" by (rule mod_mult_self2)
  also have "\<dots> = a mod n + m" using assms by simp
  finally show "(a + m) mod n = a mod n + m" unfolding e [symmetric] .
qed

lemma wrote_chunk:
  assumes ok: "fs_ok n fs" and live: "in_id (af_inodes fs i) \<noteq> 0" and g: "grows fs fs'"
    and ino: "af_inodes fs' = (af_inodes fs)(i := (af_inodes fs i)\<lparr>in_blocks := (in_blocks (af_inodes fs i))(p div 4096 := nb)\<rparr>)"
    and nb: "sb_log_head (af_sb fs) \<le> nb" and old: "length old = 4096"
      "in_blocks (af_inodes fs i) (p div 4096) \<noteq> 0 \<longrightarrow> read_block (in_blocks (af_inodes fs i) (p div 4096)) fs = Some old"
    and new: "read_block nb fs' = Some (take (p mod 4096) old @ take c (drop t buf) @ drop (p mod 4096 + c) old)"
    and p: "p = s + t" and c: "c \<le> 4096 - p mod 4096" "c \<le> length buf - t"
  shows "wrote i s p (p + c) buf fs fs'"
proof -
  let ?x = "take (p mod 4096) old @ take c (drop t buf) @ drop (p mod 4096 + c) old"
  have nb0: "nb \<noteq> 0" using fs_okD(2) [OF ok] nb by (auto simp: word_le_nat_alt)
  have here: "file_byte fs' (af_inodes fs' i) q = Some (?x ! (q mod 4096))" if "q div 4096 = p div 4096" for q
    using that nb0 new by (simp add: file_byte_def ino)
  have there: "file_byte fs' (af_inodes fs' i) q = file_byte fs (af_inodes fs i) q" if "q div 4096 \<noteq> p div 4096" for q
    using that fs_okD(4) [OF ok live, of "q div 4096"] g by (simp add: file_byte_def ino grows_def)
  have q1: "file_byte fs' (af_inodes fs' i) q = Some (buf ! (q - s))" if q: "p \<le> q" "q < p + c" for q
  proof -
    define m where "m = q - p"
    have m: "q = p + m" "m < c" using q by (auto simp: m_def)
    have less: "p mod 4096 + m < 4096" using m(2) c(1) by auto
    have "q div 4096 = p div 4096" "q mod 4096 = p mod 4096 + m" unfolding m(1) by (rule same_block [OF less])+
    moreover have "?x ! (p mod 4096 + m) = buf ! (t + m)" using old(1) m(2) c by (simp add: nth_append)
    ultimately show ?thesis using here [of q] m(1) p by (simp add: add.assoc)
  qed
  have q2: "file_byte fs' (af_inodes fs' i) q = file_byte fs (af_inodes fs i) q"
    if q: "q < p \<or> p + c \<le> q" "in_blocks (af_inodes fs i) (q div 4096) \<noteq> 0" for q
  proof (cases "q div 4096 = p div 4096")
    case True
    have "q mod 4096 < p mod 4096 \<or> p mod 4096 + c \<le> q mod 4096"
      using q(1) div_mult_mod_eq [of q 4096] div_mult_mod_eq [of p 4096] unfolding True by linarith
    moreover have "q mod 4096 < 4096" by simp
    ultimately have "?x ! (q mod 4096) = old ! (q mod 4096)" using old(1) c by (auto simp: nth_append)
    then show ?thesis using here [OF True] old(2) q(2) by (simp add: file_byte_def True)
  qed (rule there)
  have "\<And>k. in_blocks (af_inodes fs i) k \<noteq> 0 \<Longrightarrow> in_blocks (af_inodes fs' i) k \<noteq> 0" using nb0 by (simp add: ino)
  then show ?thesis using g q1 q2 unfolding wrote_def by (simp add: ino)
qed

section \<open>The loops\<close>

text \<open>The number of blocks that hold the bytes from \<open>a\<close> to \<open>e\<close>.\<close>

definition blocks_between :: "nat \<Rightarrow> nat \<Rightarrow> nat" where
  "blocks_between a e = (if a < e then (e - 1) div 4096 + 1 - a div 4096 else 0)"

lemma block_end: "d * 4096 + r = a \<Longrightarrow> c + r \<le> 4096 \<Longrightarrow> a + c \<le> (d + 1) * (4096 :: nat) \<and> (c + r = 4096 \<longrightarrow> a + c = (d + 1) * 4096)"
  by auto

lemma blocks_step:
  assumes "a < e" and "c \<le> 4096 - a mod 4096" and "c = 4096 - a mod 4096 \<or> e \<le> a + c"
  shows "blocks_between (a + c) e + 1 \<le> blocks_between a e"
proof (cases "a + c < e")
  case True
  then have "c + a mod 4096 = 4096" using assms(3) by (auto simp: less_imp_le)
  then have c: "a + c = (a div 4096 + 1) * 4096" using block_end [OF div_mult_mod_eq] by simp
  have "(a + c) div 4096 = a div 4096 + 1" unfolding c by simp
  moreover have "(a + c) div 4096 \<le> (e - 1) div 4096" using True by (intro div_le_mono) simp
  ultimately show ?thesis using True assms(1) by (simp add: blocks_between_def Suc_diff_le)
next
  case False
  have "a div 4096 \<le> (e - 1) div 4096" using assms(1) by (intro div_le_mono) simp
  then show ?thesis using False assms(1) by (simp add: blocks_between_def)
qed

lemma unat_pos:
  assumes "unat offset + t \<le> 65536"
  shows "unat (offset + of_nat t :: u64) = unat offset + t"
proof -
  have "unat (of_nat t :: u64) = t" using assms by (simp add: unat_of_nat)
  then show ?thesis using assms by (simp add: unat_word_ariths)
qed

text \<open>A write goes up to the end of the buffer or to the end of the sixteen blocks, whichever is first.\<close>

lemma write_loop_ok:
  assumes "fs_ok n fs" and "in_id (af_inodes fs i) \<noteq> 0" and "t \<le> length buf" and "unat offset + t \<le> 65536"
    and "e = min (unat offset + length buf) 65536"
    and "3 * blocks_between (unat offset + t) e \<le> unat (sb_free_blocks (af_sb fs))"
  shows "\<exists>fs'. write_loop i offset buf t fs = (if unat offset + length buf \<le> 65536 then Inr (length buf) else Inl (int (65536 - unat offset)), fs')
    \<and> fs_ok n fs' \<and> wrote i (unat offset) (unat offset + t) e buf fs fs'"
  using assms
proof (induction i offset buf t fs rule: write_loop.induct)
  case (1 i offset buf t fs)
  let ?s = "unat offset"
  have pos: "unat (offset + of_nat t) = ?s + t" using unat_pos 1(5) by blast
  consider "length buf \<le> t" | "t < length buf" "?s + t = 65536" | "t < length buf" "?s + t < 65536" using 1(5) by linarith
  then show ?case
  proof cases
    case 1
    then have "t = length buf" using "1.prems"(3) by simp
    then show ?thesis using "1.prems"(1,4,5) wrote_refl [of i ?s e buf fs] by (subst write_loop.simps) simp
  next
    case 2
    then have "write_chunk i offset buf t fs = (Inl (int t), fs)" using pos by (simp add: write_chunk_def)
    moreover have "65536 - ?s = t" "e = ?s + t" using 2 "1.prems"(5) by simp_all
    moreover have "\<not> ?s + length buf \<le> 65536" using 2 by simp
    ultimately show ?thesis using 2(1) "1.prems"(1) wrote_refl [of i ?s "?s + t" buf fs] by (subst write_loop.simps) (simp only:, simp)
  next
    case 3
    define p c where "p = ?s + t" and "c = min (4096 - p mod 4096) (length buf - t)"
    have pe: "p < e" using 3 "1.prems"(5) by (simp add: p_def)
    have cc: "c \<le> 4096 - p mod 4096" "c \<le> length buf - t" "c = 4096 - p mod 4096 \<or> e \<le> p + c"
      using "1.prems"(3,5) by (auto simp: c_def p_def)
    have room: "p + c \<le> 65536" "p + c \<le> e"
    proof -
      have "p div 4096 < 16" using 3(2) by (simp add: p_def)
      moreover have "p + c \<le> (p div 4096 + 1) * 4096" using block_end [OF div_mult_mod_eq, of c p] cc(1) mod_less_divisor [of 4096 p] by auto
      ultimately show "p + c \<le> 65536" by simp
      then show "p + c \<le> e" using cc(2) 3(1) "1.prems"(5) by (simp add: p_def)
    qed
    note less = blocks_step [OF pe cc(1,3)]
    have "3 \<le> unat (sb_free_blocks (af_sb fs))" using less "1.prems"(6) by (simp add: p_def)
    from write_chunk_ok [OF "1.prems"(1,2) this _ _ c_def, of offset] obtain fs' nb old where
      w: "write_chunk i offset buf t fs = (Inr (t + c), fs')" and g: "grows fs fs'"
      and ino: "af_inodes fs' = (af_inodes fs)(i := (af_inodes fs i)\<lparr>in_blocks := (in_blocks (af_inodes fs i))(p div 4096 := nb)\<rparr>)"
      and nb: "sb_log_head (af_sb fs) \<le> nb" "nb < sb_log_head (af_sb fs')" "unat (sb_log_head (af_sb fs')) \<le> unat (sb_log_head (af_sb fs)) + 3"
      and old: "length old = 4096"
        "in_blocks (af_inodes fs i) (p div 4096) \<noteq> 0 \<longrightarrow> read_block (in_blocks (af_inodes fs i) (p div 4096)) fs = Some old"
      and new: "read_block nb fs' = Some (take (p mod 4096) old @ take c (drop t buf) @ drop (p mod 4096 + c) old)"
      using pos 3(2) unfolding p_def by metis
    have ok': "fs_ok n fs'" using fs_ok_new_block [OF "1.prems"(1) g nb(1,2) ino] .
    have wr: "wrote i ?s p (p + c) buf fs fs'" using wrote_chunk [OF "1.prems"(1,2) g ino nb(1) old new p_def cc(1,2)] .
    have free': "3 * blocks_between (?s + (t + c)) e \<le> unat (sb_free_blocks (af_sb fs'))"
      using less "1.prems"(6) g nb(3) unfolding grows_def p_def by (simp add: add.assoc)
    have "\<exists>fs''. write_loop i offset buf (t + c) fs' = (if ?s + length buf \<le> 65536 then Inr (length buf) else Inl (int (65536 - ?s)), fs'')
      \<and> fs_ok n fs'' \<and> wrote i ?s (?s + (t + c)) e buf fs' fs''"
      using "1.IH" [OF _ w [symmetric] refl ok' _ _ _ "1.prems"(5) free'] 3(1) "1.prems"(2) cc(2) room(1) by (simp add: ino p_def)
    then show ?thesis
      using wrote_trans [OF wr] room(2) w 3(1) by (subst write_loop.simps) (auto simp: p_def add.assoc)
  qed
qed

text \<open>Reading bytes that are all there.\<close>

lemma read_loop_ok:
  assumes "unat offset + sz \<le> 65536" and "length buf = sz"
    and "\<And>k. k < sz \<Longrightarrow> file_byte fs n (unat offset + k) = Some (buf ! k)"
    and "m \<le> sz"
  shows "read_loop n offset sz fs (take m buf) = (int sz, buf)"
  using assms(4)
proof (induction "sz - m" arbitrary: m rule: less_induct)
  case less
  show ?case
  proof (cases "m = sz")
    case True
    then show ?thesis using assms(2) by (subst read_loop.simps) simp
  next
    case False
    then have m: "m < sz" using less.prems by simp
    define p c where "p = unat offset + m" and "c = min (4096 - p mod 4096) (sz - m)"
    have pos: "unat (offset + of_nat m) = p" using unat_pos [of offset m] m assms(1) by (simp add: p_def)
    have len: "length (take m buf) = m" using m assms(2) by simp
    have byte: "file_byte fs n p = Some (buf ! m)" using assms(3) [OF m] by (simp add: p_def)
    then obtain b where b: "in_blocks n (p div 4096) \<noteq> 0" "read_block (in_blocks n (p div 4096)) fs = Some b"
      by (auto simp: file_byte_def split: if_splits)
    have "p div 4096 < 16" using m assms(1) by (simp add: p_def)
    have piece: "map (\<lambda>k. b ! (p mod 4096 + k)) [0..<c] = take c (drop m buf)"
    proof (rule nth_equalityI)
      show "length (map (\<lambda>k. b ! (p mod 4096 + k)) [0..<c]) = length (take c (drop m buf))" using assms(2) by (simp add: c_def)
      fix k assume "k < length (map (\<lambda>k. b ! (p mod 4096 + k)) [0..<c])"
      then have k: "k < c" by simp
      then have ksz: "m + k < sz" unfolding c_def by linarith
      from k have "p mod 4096 + k < 4096" unfolding c_def by linarith
      from same_block [OF this] have "file_byte fs n (p + k) = Some (b ! (p mod 4096 + k))" using b by (simp add: file_byte_def)
      moreover have "file_byte fs n (p + k) = Some (buf ! (m + k))" using assms(3) [of "m + k"] ksz by (simp add: p_def add.assoc)
      ultimately show "map (\<lambda>k. b ! (p mod 4096 + k)) [0..<c] ! k = take c (drop m buf) ! k" using k ksz assms(2) by simp
    qed
    have "p mod 4096 < 4096" by simp
    then have c0: "0 < c" "m + c \<le> sz" using m by (auto simp: c_def)
    then have "read_loop n offset sz fs (take (m + c) buf) = (int sz, buf)" using less.hyps [of "m + c"] m by simp
    then have "read_loop n offset sz fs (take m buf @ take c (drop m buf)) = (int sz, buf)" by (simp add: take_add)
    then show ?thesis using m len pos b \<open>p div 4096 < 16\<close> piece
      by (subst read_loop.simps) (simp add: Let_def c_def [symmetric])
  qed
qed

section \<open>Writing and reading\<close>

text \<open>The size of an inode is no part of the invariant and of the bytes.\<close>

lemma fs_ok_size: "fs_ok n (upd_inode i (\<lambda>x. x\<lparr>in_size := v\<rparr>) fs) = fs_ok n fs"
proof -
  have "in_id (((af_inodes fs)(i := (af_inodes fs i)\<lparr>in_size := v\<rparr>)) j) = in_id (af_inodes fs j)"
    "in_blocks (((af_inodes fs)(i := (af_inodes fs i)\<lparr>in_size := v\<rparr>)) j) = in_blocks (af_inodes fs j)" for j
    by (simp_all add: fun_upd_apply)
  then show ?thesis by (simp add: fs_ok_def del: fun_upd_apply)
qed

lemma file_byte_cong: "in_blocks m = in_blocks n \<Longrightarrow> file_byte (fs\<lparr>af_inodes := g\<rparr>) m p = file_byte fs n p"
  by (simp add: file_byte_def)

lemma wrote_others:
  assumes "fs_ok n fs" and "wrote i s lo hi buf fs fs'" and "j \<noteq> i" and "in_id (af_inodes fs j) \<noteq> 0"
  shows "af_inodes fs' j = af_inodes fs j" and "file_byte fs' (af_inodes fs' j) q = file_byte fs (af_inodes fs j) q"
proof -
  show same: "af_inodes fs' j = af_inodes fs j" using assms(2,3) by (simp add: wrote_def)
  have "read_block (in_blocks (af_inodes fs j) k) fs' = read_block (in_blocks (af_inodes fs j) k) fs" for k
    using assms(2) fs_okD(4) [OF assms(1,4), of k] by (simp add: wrote_def grows_def)
  then show "file_byte fs' (af_inodes fs' j) q = file_byte fs (af_inodes fs j) q" by (simp add: file_byte_def same)
qed

lemma read_whole:
  assumes "unat off + length data \<le> 65536" and "data = [] \<or> off + of_nat (length data) \<le> in_size (af_inodes fs i)"
    and "\<And>k. k < length data \<Longrightarrow> file_byte fs (af_inodes fs i) (unat off + k) = Some (data ! k)"
  shows "aevosfs_read i off (length data) fs = (int (length data), data)"
proof (cases "data = []")
  case True
  then show ?thesis by (simp add: aevosfs_read_def Let_def read_loop.simps)
next
  case False
  let ?z = "in_size (af_inodes fs i)"
  have "unat off + length data \<le> unat ?z"
    using assms(2) False unat_pos [OF assms(1)] by (simp add: word_le_nat_alt)
  moreover from this have "off \<le> ?z" by (simp add: word_le_nat_alt)
  ultimately have "length data \<le> unat (?z - off)" "\<not> ?z \<le> off"
    using False length_greater_0_conv [of data] by (simp_all add: unat_sub word_le_nat_alt del: length_greater_0_conv)
  then show ?thesis using read_loop_ok [OF assms(1) refl assms(3), of 0] by (simp add: aevosfs_read_def Let_def)
qed

text \<open>C38: A write to a file stores the whole buffer if it ends within the first sixteen blocks of the file and three free
  blocks are left for each block it touches: the size becomes the end of the buffer if that is larger, and reading the
  same range returns the buffer. Every other byte that the file had, and every other file, stay as they were. A write
  that runs over the end of the sixteen blocks returns the number of bytes up to there, but leaves the size as it was:
  if the file ended before, nothing of it can be read.\<close>

theorem aevosfs_write_read:
  assumes "fs_ok n fs" and "in_id (af_inodes fs i) \<noteq> 0" and "unat off \<le> 65536"
    and "e = min (unat off + length data) 65536"
    and "3 * blocks_between (unat off) e \<le> unat (sb_free_blocks (af_sb fs))"
  shows "\<exists>fs'. aevosfs_write i off data fs = (int (e - unat off), fs') \<and> fs_ok n fs' \<and>
    (if unat off + length data \<le> 65536
     then in_size (af_inodes fs' i) = max (in_size (af_inodes fs i)) (off + of_nat (length data)) \<and>
          aevosfs_read i off (length data) fs' = (int (length data), data)
     else in_size (af_inodes fs' i) = in_size (af_inodes fs i) \<and>
          (in_size (af_inodes fs i) \<le> off \<longrightarrow> aevosfs_read i off m fs' = (0, []))) \<and>
    (\<forall>q. q < unat off \<or> e \<le> q \<longrightarrow> in_blocks (af_inodes fs i) (q div 4096) \<noteq> 0 \<longrightarrow>
       file_byte fs' (af_inodes fs' i) q = file_byte fs (af_inodes fs i) q) \<and>
    (\<forall>j. j \<noteq> i \<longrightarrow> in_id (af_inodes fs j) \<noteq> 0 \<longrightarrow>
       af_inodes fs' j = af_inodes fs j \<and> (\<forall>q. file_byte fs' (af_inodes fs' j) q = file_byte fs (af_inodes fs j) q))"
proof -
  obtain fs1 where
    l: "write_loop i off data 0 fs = (if unat off + length data \<le> 65536 then Inr (length data) else Inl (int (65536 - unat off)), fs1)"
    and ok1: "fs_ok n fs1" and wr: "wrote i (unat off) (unat off) e data fs fs1"
    using write_loop_ok [OF assms(1,2), of 0 data off e] assms(3,4,5) by auto
  have size1: "in_size (af_inodes fs1 i) = in_size (af_inodes fs i)"
    using wr unfolding wrote_def by (metis (no_types, lifting) aevosfs_inode.select_convs(3) aevosfs_inode.surjective aevosfs_inode.update_convs(6))
  have in_range: "file_byte fs1 (af_inodes fs1 i) q = Some (data ! (q - unat off))" if "unat off \<le> q" "q < e" for q
    using wr that unfolding wrote_def by blast
  have rest: "file_byte fs1 (af_inodes fs1 i) q = file_byte fs (af_inodes fs i) q"
    if "q < unat off \<or> e \<le> q" "in_blocks (af_inodes fs i) (q div 4096) \<noteq> 0" for q using wr that unfolding wrote_def by blast
  note others = wrote_others [OF assms(1) wr]
  show ?thesis
  proof (cases "unat off + length data \<le> 65536")
    case True
    define v where "v = off + of_nat (length data)"
    define fs' where "fs' = upd_inode i (\<lambda>x. x\<lparr>in_size := max (in_size x) v\<rparr>) fs1"
    have e: "e - unat off = length data" "e = unat off + length data" using True assms(4) by simp_all
    have "(if in_size (af_inodes fs1 i) < v then upd_inode i (\<lambda>x. x\<lparr>in_size := v\<rparr>) fs1 else fs1) = fs'"
      by (auto simp: fs'_def max_def not_less fun_upd_idem)
    then have w: "aevosfs_write i off data fs = (int (e - unat off), fs')" using l True e(1) by (simp add: aevosfs_write_def Let_def v_def [symmetric])
    have bytes: "file_byte fs' (af_inodes fs' j) q = file_byte fs1 (af_inodes fs1 j) q" for j q
      unfolding fs'_def by (subst file_byte_cong [where n = "af_inodes fs1 j"]) simp_all
    have size': "in_size (af_inodes fs' i) = max (in_size (af_inodes fs1 i)) v" by (simp add: fs'_def)
    have "aevosfs_read i off (length data) fs' = (int (length data), data)"
      using True in_range by (intro read_whole) (simp_all add: bytes e(2) size' v_def)
    moreover have "fs_ok n fs'" using ok1 by (simp only: fs'_def fs_ok_size)
    moreover have "af_inodes fs' j = af_inodes fs j \<and> (\<forall>q. file_byte fs' (af_inodes fs' j) q = file_byte fs (af_inodes fs j) q)"
      if j: "j \<noteq> i" "in_id (af_inodes fs j) \<noteq> 0" for j
      using others [OF j] j(1) unfolding bytes by (simp add: fs'_def)
    moreover have "file_byte fs' (af_inodes fs' i) q = file_byte fs (af_inodes fs i) q"
      if "q < unat off \<or> e \<le> q" "in_blocks (af_inodes fs i) (q div 4096) \<noteq> 0" for q using rest [OF that] unfolding bytes .
    ultimately show ?thesis using w True size1 size' unfolding v_def by (intro exI [of _ fs']) (simp, metis)
  next
    case False
    then have "e - unat off = 65536 - unat off" using assms(4) by simp
    then have "aevosfs_write i off data fs = (int (e - unat off), fs1)" using l False by (simp add: aevosfs_write_def)
    then show ?thesis using False ok1 size1 rest others by (intro exI [of _ fs1]) (simp add: aevosfs_read_def Let_def)
  qed
qed

text \<open>A device in memory, and a file system on it with one empty file.\<close>

definition ram_read :: "(u64 \<Rightarrow> bytes) \<Rightarrow> u64 \<Rightarrow> bytes option" where
  "ram_read d b = Some (take 4096 (d b @ replicate 4096 0))"

definition ram_write :: "u64 \<Rightarrow> bytes \<Rightarrow> (u64 \<Rightarrow> bytes) \<Rightarrow> bool \<times> (u64 \<Rightarrow> bytes)" where
  "ram_write b x d = (True, d(b := x))"

lemma ram_device: "device_ok ram_read ram_write n"
  by (simp add: device_ok_def ram_read_def ram_write_def min_def)

definition one_file :: "(u64 \<Rightarrow> bytes) aevosfs" where
  "one_file = \<lparr>af_read = ram_read, af_write = ram_write, af_dev = \<lambda>_. [], af_sb = fresh_sb,
     af_inodes = \<lambda>i. \<lparr>in_id = (if i = 0 then 1 else 0), in_type = AEVOSFS_FILE, in_size = 0, in_created = 0, in_modified = 0,
       in_blocks = \<lambda>_. 0, in_indirect = 0, in_permissions = 0x1ED, in_link_count = 1\<rparr>, af_next_id = 2\<rparr>"

lemma one_file_ok: "fs_ok 65536 one_file"
  by (simp add: fs_ok_def one_file_def ram_device fresh_sb_def)

theorem aevosfs_write_read_witness:
  "(\<exists>fs'. aevosfs_write 0 10 [7, 8] one_file = (2, fs') \<and> aevosfs_read 0 10 2 fs' = (2, [7, 8])) \<and>
   (\<exists>fs'. aevosfs_write 0 0 (replicate 65537 1) one_file = (65536, fs') \<and> aevosfs_read 0 0 100 fs' = (0, []))"
proof
  have live: "in_id (af_inodes one_file 0) \<noteq> 0" by (simp add: one_file_def)
  have two: "length [7, 8 :: u8] = 2" by simp
  have free: "unat (sb_free_blocks (af_sb one_file)) = 65534" by (simp add: one_file_def fresh_sb_def)
  show "\<exists>fs'. aevosfs_write 0 10 [7, 8] one_file = (2, fs') \<and> aevosfs_read 0 10 2 fs' = (2, [7, 8])"
    using aevosfs_write_read [OF one_file_ok live, of 10 12 "[7, 8]", unfolded two] free
    by (auto simp: blocks_between_def)
  show "\<exists>fs'. aevosfs_write 0 0 (replicate 65537 1) one_file = (65536, fs') \<and> aevosfs_read 0 0 100 fs' = (0, [])"
    using aevosfs_write_read [OF one_file_ok live, of 0 65536 "replicate 65537 1" 100] free
    by (auto simp: blocks_between_def one_file_def)
qed

end
