(* ===== verification/AevosfsDirs.thy ===== *)
theory AevosfsDirs
  imports AevosfsFiles
begin

text \<open>
  The directories of the log-structured file system: a directory is the list of the entries in its blocks. A new entry
  is found under its path and all other paths lead where they led. Mounting the file system again loses all entries.
\<close>

section \<open>Entries in blocks\<close>

lemma record_at:
  assumes "length x = w" and "w * k + w \<le> length b"
  shows "take w (drop (w * j) (take (w * k) b @ x @ drop (w * k + w) b)) = (if j = k then x else take w (drop (w * j) b))"
proof -
  consider "j = k" | "j < k" | "k < j" by linarith
  then show ?thesis
  proof cases
    case 2
    then have "w * (j + 1) \<le> w * k" by (intro mult_le_mono) simp_all
    then have le: "w * j + w \<le> w * k" by simp
    have len: "length (take (w * k) b) = w * k" using assms(2) by simp
    have "w * j - w * k = 0" using le by linarith
    then have "drop (w * j) (take (w * k) b @ x @ drop (w * k + w) b) = drop (w * j) (take (w * k) b) @ x @ drop (w * k + w) b"
      unfolding drop_append len by simp
    moreover have "w \<le> w * k - w * j" "length b - w * j \<ge> w" using le assms(2) by linarith+
    ultimately show ?thesis using 2 len by (simp add: drop_take min_def)
  next
    case 3
    then have "w * (k + 1) \<le> w * j" by (intro mult_le_mono) simp_all
    then have le: "w * k + w \<le> w * j" by simp
    have len: "length (take (w * k) b) = w * k" using assms(2) by simp
    have "drop (w * j) (take (w * k) b) = []" "drop (w * j - w * k) x = []" using le len assms(1) 3 by simp_all
    moreover have "w * j - w * k - w + (w * k + w) = w * j" using le by linarith
    ultimately have "drop (w * j) (take (w * k) b @ x @ drop (w * k + w) b) = drop (w * j) b"
      unfolding drop_append len assms(1) drop_drop by simp
    then show ?thesis using 3 by simp
  qed (use assms in simp)
qed

lemma de_at_put:
  assumes "length buf = 4096" and "length (ad_name e) = 128" and "k < 29"
  shows "de_at (de_put k e buf) j = (if j = k then e else de_at buf j)"
proof -
  define x where "x = le_bytes 8 (ad_inode_id e) @ ad_name e @ le_bytes 4 (type_code (ad_type e))"
  have "length x = 140" "140 * k + 140 \<le> length buf" using assms by (simp_all add: x_def)
  from record_at [OF this, of j]
  have at: "take 140 (drop (140 * j) (de_put k e buf)) = (if j = k then x else take 140 (drop (140 * j) buf))"
    by (simp add: de_put_def x_def)
  have "le_word (take 8 x) = ad_inode_id e" "take 128 (drop 8 x) = ad_name e" "take 4 (drop 136 x) = le_bytes 4 (type_code (ad_type e))"
    using assms(2) by (simp_all add: x_def)
  moreover have "(if type_code (ad_type e) = (1 :: u32) then AEVOSFS_DIR else AEVOSFS_FILE) = ad_type e"
    by (cases "ad_type e") simp_all
  ultimately have "\<lparr>ad_inode_id = le_word (take 8 x), ad_name = take 128 (drop 8 x),
      ad_type = (if le_word (take 4 (drop 136 x)) = (1 :: u32) then AEVOSFS_DIR else AEVOSFS_FILE)\<rparr> = e"
    by (intro aevosfs_dir_entry.equality) simp_all
  then show ?thesis unfolding de_at_def Let_def at by (cases "j = k") simp_all
qed

lemma length_de_put: "length buf = 4096 \<Longrightarrow> length (ad_name e) = 128 \<Longrightarrow> k < 29 \<Longrightarrow> length (de_put k e buf) = 4096"
  by (simp add: de_put_def)

lemma le_word_zero: "le_word (replicate j (0 :: u8)) = 0"
  by (induction j) simp_all

lemma de_at_zero: "ad_inode_id (de_at (replicate m 0) k) = 0"
  by (simp add: de_at_def Let_def le_word_zero)

section \<open>A directory as a list of entries\<close>

definition block_entries :: "'d aevosfs \<Rightarrow> u64 \<Rightarrow> aevosfs_dir_entry list" where
  "block_entries fs blk = (case read_block blk fs of None \<Rightarrow> [] | Some buf \<Rightarrow> map (de_at buf) [0..<29])"

definition dir_entries :: "'d aevosfs \<Rightarrow> u64 list \<Rightarrow> aevosfs_dir_entry list" where
  "dir_entries fs blks = concat (map (block_entries fs) blks)"

abbreviation matches :: "bytes \<Rightarrow> aevosfs_dir_entry \<Rightarrow> bool" where
  "matches c e \<equiv> ad_inode_id e \<noteq> 0 \<and> cval (ad_name e) = cval c"

lemma find_scan: "find P (map f [a..<n]) = map_option f (scan (\<lambda>i. P (f i)) a n)"
proof (induction "n - a" arbitrary: a)
  case (Suc m)
  then have "a < n" "m = n - Suc a" by simp_all
  moreover from this have "[a..<n] = a # [Suc a..<n]" by (simp add: upt_conv_Cons)
  ultimately show ?case using Suc(1) [of "Suc a"] by (subst scan.simps) simp
qed (simp add: scan.simps)

lemma find_append: "find P (xs @ ys) = (case find P xs of None \<Rightarrow> find P ys | r \<Rightarrow> r)"
  by (induction xs) auto

lemma dir_lookup_find: "dir_lookup fs c blks = map_option ad_inode_id (find (matches c) (dir_entries fs blks))"
proof (induction blks)
  case (Cons b bs)
  then show ?case
    by (cases "read_block b fs")
      (simp_all add: dir_entries_def block_entries_def find_append find_scan strcmp_0_iff del: upt_rec_numeral split: option.split)
qed (simp add: dir_entries_def)

section \<open>Adding an entry\<close>

text \<open>The list of entries after \<open>e\<close> was added to a directory: \<open>e\<close> takes the place of a free entry or begins a new block.\<close>

definition entry_added :: "aevosfs_dir_entry \<Rightarrow> aevosfs_dir_entry list \<Rightarrow> aevosfs_dir_entry list \<Rightarrow> bool" where
  "entry_added e es es' \<longleftrightarrow> (\<exists>xs ys. es' = xs @ e # ys \<and> (\<forall>c. find (matches c) (xs @ ys) = find (matches c) es) \<and>
     (\<forall>x \<in> set (xs @ ys). x \<in> set es \<or> ad_inode_id x = 0))"

lemma entry_added_find:
  assumes "entry_added e es es'" and "ad_inode_id e \<noteq> 0" and "find (matches (ad_name e)) es = None"
  shows "find (matches c) es' = (if cval c = cval (ad_name e) then Some e else find (matches c) es)"
proof -
  obtain xs ys where es': "es' = xs @ e # ys" and f: "\<And>c. find (matches c) (xs @ ys) = find (matches c) es"
    using assms(1) unfolding entry_added_def by blast
  show ?thesis
  proof (cases "cval c = cval (ad_name e)")
    case True
    then have "find (matches c) (xs @ ys) = None" using f [of c] assms(3) by simp
    then have "find (matches c) xs = None" by (simp add: find_append split: option.splits)
    then show ?thesis using True assms(2) by (simp add: es' find_append)
  next
    case False
    then have "find (matches c) es' = find (matches c) (xs @ ys)" by (auto simp: es' find_append split: option.split)
    then show ?thesis using False f by simp
  qed
qed

lemma entry_added_mem: "entry_added e es es' \<Longrightarrow> x \<in> set es' \<Longrightarrow> x = e \<or> x \<in> set es \<or> ad_inode_id x = 0"
  unfolding entry_added_def by auto

lemma entry_added_append: "entry_added e es es' \<Longrightarrow> entry_added e (us @ es @ vs) (us @ es' @ vs)"
proof -
  assume "entry_added e es es'"
  then obtain xs ys where "es' = xs @ e # ys" and f: "\<And>c. find (matches c) (xs @ ys) = find (matches c) es"
    and m: "\<forall>x \<in> set (xs @ ys). x \<in> set es \<or> ad_inode_id x = 0" unfolding entry_added_def by blast
  moreover have "find (matches c) ((us @ xs) @ (ys @ vs)) = find (matches c) (us @ es @ vs)" for c
  proof -
    have "find (matches c) (us @ (xs @ ys) @ vs) = find (matches c) (us @ es @ vs)"
      by (simp only: find_append [of _ us] find_append [of _ "xs @ ys" vs] find_append [of _ es vs] f)
    then show ?thesis by simp
  qed
  ultimately show ?thesis unfolding entry_added_def by (intro exI [of _ "us @ xs"] exI [of _ "ys @ vs"]) auto
qed

lemma entry_added_replace:
  assumes "k < length es" and "ad_inode_id (es ! k) = 0"
  shows "entry_added e es (es[k := e])"
proof -
  have es: "es = take k es @ es ! k # drop (Suc k) es" using assms(1) by (rule id_take_nth_drop)
  have "find (matches c) (take k es @ drop (Suc k) es) = find (matches c) es" for c
    by (subst (3) es) (auto simp: find_append assms(2) split: option.split)
  moreover have "x \<in> set es" if "x \<in> set (take k es @ drop (Suc k) es)" for x
    using that by (auto dest: in_set_takeD in_set_dropD)
  ultimately show ?thesis unfolding entry_added_def using assms(1) by (auto simp: upd_conv_take_nth_drop)
qed

lemma entry_added_block:
  assumes "\<And>x. x \<in> set zs \<Longrightarrow> ad_inode_id x = 0"
  shows "entry_added e es (es @ e # zs)"
proof -
  have "find (matches c) zs = None" for c using assms by (auto simp: find_None_iff)
  then have "find (matches c) (es @ zs) = find (matches c) es" for c by (auto simp: find_append split: option.split)
  then show ?thesis unfolding entry_added_def using assms by (intro exI [of _ es] exI [of _ zs]) auto
qed

lemma dir_entries_cong: "(\<And>b. b \<in> set bs \<Longrightarrow> read_block b fs' = read_block b fs) \<Longrightarrow> dir_entries fs' bs = dir_entries fs bs"
  unfolding dir_entries_def by (intro arg_cong [of _ _ concat] map_cong) (simp_all add: block_entries_def)

lemma dir_entries_Cons: "dir_entries fs (b # bs) = block_entries fs b @ dir_entries fs bs"
  by (simp add: dir_entries_def)

lemma entries_put:
  assumes "length buf = 4096" and "length (ad_name e) = 128" and "k < 29"
  shows "map (de_at (de_put k e buf)) [0..<29] = (map (de_at buf) [0..<29])[k := e]"
  by (rule nth_equalityI) (simp_all add: de_at_put [OF assms] nth_list_update del: upt_rec_numeral)

lemma add_to_blocks_ok:
  assumes dev: "device_ok (af_read fs) (af_write fs) n" and name: "length (ad_name e) = 128"
    and "distinct bs" and "\<And>b. b \<in> set bs \<Longrightarrow> b < n" and "add_to_blocks e bs fs = Some (r, fs')"
  shows "r = Inr () \<and> (\<exists>d blk. fs' = fs\<lparr>af_dev := d\<rparr> \<and> blk \<in> set bs \<and> (\<forall>c. c \<noteq> blk \<longrightarrow> read_block c fs' = read_block c fs)) \<and>
    entry_added e (dir_entries fs bs) (dir_entries fs' bs)"
  using assms(3-5)
proof (induction bs)
  case (Cons b bs)
  obtain buf where buf: "read_block b fs = Some buf" "length buf = 4096" using read_block_ok [OF dev, of b] Cons.prems(2) by auto
  then have old: "block_entries fs b = map (de_at buf) [0..<29]" by (simp add: block_entries_def)
  show ?case
  proof (cases "scan (\<lambda>i. ad_inode_id (de_at buf i) = 0) 0 29")
    case None
    then have "add_to_blocks e bs fs = Some (r, fs')" using Cons.prems(3) buf(1) by simp
    from Cons.IH [OF _ _ this] Cons.prems(1,2) obtain d blk where ih: "r = Inr ()" "fs' = fs\<lparr>af_dev := d\<rparr>" "blk \<in> set bs"
      "\<And>c. c \<noteq> blk \<Longrightarrow> read_block c fs' = read_block c fs" "entry_added e (dir_entries fs bs) (dir_entries fs' bs)" by auto
    have "b \<noteq> blk" using ih(3) Cons.prems(1) by auto
    then have "block_entries fs' b = block_entries fs b" using ih(4) by (simp add: block_entries_def)
    then show ?thesis using ih entry_added_append [OF ih(5), of "block_entries fs b" "[]"] by (auto simp: dir_entries_Cons)
  next
    case (Some k)
    then have k: "k < 29" "ad_inode_id (de_at buf k) = 0" by (simp_all add: scan_Some_iff)
    have "length (de_put k e buf) = 4096" by (rule length_de_put [OF buf(2) name k(1)])
    from write_block_ok [OF dev _ this, of b] Cons.prems(2) obtain d where
      d: "write_block b (de_put k e buf) fs = (Inr (), fs\<lparr>af_dev := d\<rparr>)"
      "\<And>c. af_read fs d c = (if c = b then Some (de_put k e buf) else read_block c fs)" by auto
    have fs': "r = Inr ()" "fs' = fs\<lparr>af_dev := d\<rparr>" using Cons.prems(3) buf(1) Some d(1) by simp_all
    have rd': "read_block c fs' = (if c = b then Some (de_put k e buf) else read_block c fs)" for c
      using d(2) by (simp add: fs' read_block_def)
    have "block_entries fs' b = (block_entries fs b)[k := e]"
      using entries_put [OF buf(2) name k(1)] by (simp add: block_entries_def rd' buf(1) del: upt_rec_numeral)
    moreover have "entry_added e (block_entries fs b) ((block_entries fs b)[k := e])"
      using k by (intro entry_added_replace) (simp_all add: old del: upt_rec_numeral)
    moreover have "dir_entries fs' bs = dir_entries fs bs" using Cons.prems(1) rd' by (intro dir_entries_cong) auto
    ultimately show ?thesis
      using fs' rd' entry_added_append [of e "block_entries fs b" "(block_entries fs b)[k := e]" "[]" "dir_entries fs bs"]
      by (auto simp: dir_entries_Cons)
  qed
qed simp

text \<open>The blocks of a directory.\<close>

lemma dir_blocks_mem:
  assumes "b \<in> set (dir_blocks m)"
  shows "b \<noteq> 0" and "\<exists>k < 16. b = in_blocks m k"
proof -
  show "b \<noteq> 0" using assms set_takeWhileD unfolding dir_blocks_def by metis
  show "\<exists>k < 16. b = in_blocks m k" using set_takeWhileD [OF assms [unfolded dir_blocks_def]] by (auto simp: atLeast0LessThan simp del: upt_rec_numeral)
qed

lemma dir_blocks_distinct:
  assumes "fs_ok n fs" and "in_id (af_inodes fs i) \<noteq> 0"
  shows "distinct (dir_blocks (af_inodes fs i))"
  unfolding distinct_conv_nth
proof (intro allI impI)
  fix a b assume len: "a < length (dir_blocks (af_inodes fs i))" "b < length (dir_blocks (af_inodes fs i))" and ne: "a \<noteq> b"
  have nth: "dir_blocks (af_inodes fs i) ! k = in_blocks (af_inodes fs i) k \<and> in_blocks (af_inodes fs i) k \<noteq> 0"
    if "k < length (dir_blocks (af_inodes fs i))" for k
  proof -
    have "k < 16" using that length_takeWhile_le order_less_le_trans unfolding dir_blocks_def by fastforce
    then have "dir_blocks (af_inodes fs i) ! k = in_blocks (af_inodes fs i) k"
      using takeWhile_nth [OF that [unfolded dir_blocks_def]] by (simp add: dir_blocks_def del: upt_rec_numeral)
    then show ?thesis using dir_blocks_mem(1) [OF nth_mem [OF that]] by simp
  qed
  show "dir_blocks (af_inodes fs i) ! a \<noteq> dir_blocks (af_inodes fs i) ! b"
    using nth [OF len(1)] nth [OF len(2)] fs_okD(5) [OF assms(1,2,2), of a b] ne by auto
qed

lemma dir_blocks_append:
  assumes "scan (\<lambda>b. in_blocks m b = 0) 0 16 = Some k" and "blk \<noteq> 0" and "in_blocks m (Suc k) = 0"
  shows "dir_blocks (m\<lparr>in_blocks := (in_blocks m)(k := blk)\<rparr>) = dir_blocks m @ [blk]"
proof -
  have k: "k < 16" "in_blocks m k = 0" "\<And>j. j < k \<Longrightarrow> in_blocks m j \<noteq> 0" using assms(1) by (auto simp: scan_Some_iff)
  have split: "[0..<16] = [0..<k] @ k # [Suc k..<16]" using k(1) upt_add_eq_append [of 0 k "16 - k"] by (simp add: upt_conv_Cons)
  have stop: "takeWhile (\<lambda>blk. blk \<noteq> 0) (map (in_blocks m) [Suc k..<16]) = []"
    using assms(3) by (cases "Suc k < 16") (simp_all add: upt_conv_Cons)
  have same: "map ((in_blocks m)(k := blk)) [Suc k..<16] = map (in_blocks m) [Suc k..<16]" by simp
  have "takeWhile (\<lambda>blk. blk \<noteq> 0) (map (in_blocks m) [0..<k] @ ys) = map (in_blocks m) [0..<k] @ takeWhile (\<lambda>blk. blk \<noteq> 0) ys" for ys
    using k(3) by (intro takeWhile_append2) auto
  moreover have "map ((in_blocks m)(k := blk)) [0..<k] = map (in_blocks m) [0..<k]" by simp
  ultimately show ?thesis using k(2) assms(2) stop unfolding dir_blocks_def split
    by (simp add: same del: upt_rec_numeral)
qed

lemma length_name_field: "length (name_field c) = 128"
  by (simp add: name_field_def del: upt_rec_numeral)

abbreviation no_holes :: "aevosfs_inode \<Rightarrow> bool" where
  "no_holes m \<equiv> \<forall>b. in_blocks m b = 0 \<longrightarrow> in_blocks m (Suc b) = 0"

text \<open>What adding an entry to directory \<open>p\<close> does: only the directory's inode and blocks change.\<close>

definition dir_added :: "nat \<Rightarrow> aevosfs_dir_entry \<Rightarrow> 'd aevosfs \<Rightarrow> 'd aevosfs \<Rightarrow> bool" where
  "dir_added p e fs fs' \<longleftrightarrow> af_next_id fs' = af_next_id fs \<and> sb_root_inode (af_sb fs') = sb_root_inode (af_sb fs) \<and>
     (\<forall>j. j \<noteq> p \<longrightarrow> af_inodes fs' j = af_inodes fs j) \<and> in_id (af_inodes fs' p) = in_id (af_inodes fs p) \<and>
     in_type (af_inodes fs' p) = in_type (af_inodes fs p) \<and> no_holes (af_inodes fs' p) \<and>
     (\<forall>c. c < sb_log_head (af_sb fs) \<longrightarrow> c \<notin> set (dir_blocks (af_inodes fs p)) \<longrightarrow> read_block c fs' = read_block c fs) \<and>
     entry_added e (dir_entries fs (dir_blocks (af_inodes fs p))) (dir_entries fs' (dir_blocks (af_inodes fs' p)))"

lemma add_dir_entry_ok:
  assumes ok: "fs_ok n fs" and live: "in_id (af_inodes fs p) \<noteq> 0" and holes: "no_holes (af_inodes fs p)"
    and room: "\<exists>b < 16. in_blocks (af_inodes fs p) b = 0" and free: "0 < unat (sb_free_blocks (af_sb fs))"
    and e: "e = \<lparr>ad_inode_id = child, ad_name = name_field name, ad_type = ty\<rparr>"
  shows "\<exists>fs'. add_dir_entry p name child ty fs = (Inr (), fs') \<and> fs_ok n fs' \<and> dir_added p e fs fs'"
proof (cases "add_to_blocks e (dir_blocks (af_inodes fs p)) fs")
  case (Some r)
  have name: "length (ad_name e) = 128" by (simp add: e length_name_field)
  have head: "sb_log_head (af_sb fs) \<le> n" using fs_okD(3) [OF ok] by (simp add: word_le_nat_alt)
  have less: "b < n" if "b \<in> set (dir_blocks (af_inodes fs p))" for b
    using dir_blocks_mem(2) [OF that] fs_okD(4) [OF ok live] order_less_le_trans [OF _ head] by blast
  obtain r1 fs' where r: "r = (r1, fs')" by fastforce
  from add_to_blocks_ok [OF fs_okD(1) [OF ok] name dir_blocks_distinct [OF ok live] less Some [unfolded r]]
  obtain d blk where a: "r1 = Inr ()" "fs' = fs\<lparr>af_dev := d\<rparr>" "blk \<in> set (dir_blocks (af_inodes fs p))"
    "\<And>c. c \<noteq> blk \<Longrightarrow> read_block c fs' = read_block c fs"
    "entry_added e (dir_entries fs (dir_blocks (af_inodes fs p))) (dir_entries fs' (dir_blocks (af_inodes fs p)))" by blast
  have "add_dir_entry p name child ty fs = (Inr (), fs')" using Some r a(1) by (simp add: add_dir_entry_def e)
  moreover have "fs_ok n fs'" using ok by (simp add: a(2) fs_ok_def)
  moreover have "read_block c fs' = read_block c fs" if "c \<notin> set (dir_blocks (af_inodes fs p))" for c using a(3) that by (intro a(4)) auto
  ultimately show ?thesis using a(2,5) holes by (intro exI [of _ fs']) (simp add: dir_added_def)
next
  case None
  obtain k where k: "scan (\<lambda>b. in_blocks (af_inodes fs p) b = 0) 0 16 = Some k"
    using room scan_None_iff [of "\<lambda>b. in_blocks (af_inodes fs p) b = 0" 0 16] by (metis (no_types, lifting) le0 not_None_eq)
  then have k0: "in_blocks (af_inodes fs p) k = 0" by (simp add: scan_Some_iff)
  define blk where "blk = sb_log_head (af_sb fs)"
  have name: "length (ad_name e) = 128" by (simp add: e length_name_field)
  have len: "length (de_put 0 e zero_block) = 4096" by (rule length_de_put [OF _ name]) simp_all
  from append_block_ok [OF fs_ok_log [OF ok] free len] obtain fs1 where
    a: "alloc_block fs = (blk, fs1)" "af_inodes fs1 = af_inodes fs" "unat (sb_log_head (af_sb fs1)) = unat blk + 1" "blk \<noteq> 0"
    and w: "\<And>g. \<exists>d. write_block blk (de_put 0 e zero_block) (fs1\<lparr>af_inodes := g\<rparr>) = (Inr (), fs1\<lparr>af_inodes := g, af_dev := d\<rparr>)
      \<and> grows fs (fs1\<lparr>af_inodes := g, af_dev := d\<rparr>) \<and> read_block blk (fs1\<lparr>af_inodes := g, af_dev := d\<rparr>) = Some (de_put 0 e zero_block)"
    unfolding blk_def by blast
  define m where "m = (af_inodes fs p)\<lparr>in_blocks := (in_blocks (af_inodes fs p))(k := blk)\<rparr>"
  from w [of "(af_inodes fs)(p := m)"] obtain fs' where
    fs': "write_block blk (de_put 0 e zero_block) (fs1\<lparr>af_inodes := (af_inodes fs)(p := m)\<rparr>) = (Inr (), fs')"
    "grows fs fs'" "read_block blk fs' = Some (de_put 0 e zero_block)" "af_inodes fs' = (af_inodes fs)(p := m)"
    "af_sb fs' = af_sb fs1" by force
  have "add_dir_entry p name child ty fs = (Inr (), fs')"
    using None k a fs'(1) by (simp add: add_dir_entry_def e [symmetric] m_def)
  moreover have "fs_ok n fs'"
    using fs_ok_new_block [OF ok fs'(2), of blk p k] a(3) by (simp add: fs'(4,5) m_def blk_def word_less_nat_alt)
  moreover have "dir_added p e fs fs'"
  proof -
    have old: "read_block c fs' = read_block c fs" if "c < sb_log_head (af_sb fs)" for c using fs'(2) that by (simp add: grows_def)
    have "in_blocks (af_inodes fs p) (Suc k) = 0" using holes k0 by blast
    then have blocks: "dir_blocks m = dir_blocks (af_inodes fs p) @ [blk]" unfolding m_def using k a(4) by (intro dir_blocks_append)
    have "dir_entries fs' (dir_blocks (af_inodes fs p)) = dir_entries fs (dir_blocks (af_inodes fs p))"
      using old fs_okD(4) [OF ok live] dir_blocks_mem(2) by (intro dir_entries_cong) blast
    moreover have "block_entries fs' blk = e # map (de_at zero_block) [1..<29]"
    proof -
      have "map (de_at (de_put 0 e zero_block)) [0..<29] = (map (de_at zero_block) [0..<29])[0 := e]"
        by (rule entries_put [OF _ name]) simp_all
      also have "\<dots> = e # map (de_at zero_block) [1..<29]" by (subst upt_conv_Cons) (simp_all del: upt_rec_numeral)
      finally show ?thesis using fs'(3) by (simp add: block_entries_def del: upt_rec_numeral)
    qed
    ultimately have "dir_entries fs' (dir_blocks m) = dir_entries fs (dir_blocks (af_inodes fs p)) @ e # map (de_at zero_block) [1..<29]"
      unfolding blocks by (simp add: dir_entries_def)
    then have "entry_added e (dir_entries fs (dir_blocks (af_inodes fs p))) (dir_entries fs' (dir_blocks m))"
      using entry_added_block [of "map (de_at zero_block) [1..<29]" e] de_at_zero [of 4096] by (auto simp del: upt_rec_numeral)
    moreover have "no_holes m"
      using holes a(4) k by (auto simp: m_def scan_Some_iff)
    ultimately show ?thesis using fs'(2) old by (simp add: dir_added_def grows_def fs'(4) m_def)
  qed
  ultimately show ?thesis by blast
qed

section \<open>The tree of directories\<close>

text \<open>
  Identifiers are unique and below the next one, also those in the entries of directories, and directories have no
  holes. The root exists.
\<close>

definition dirs_ok :: "'d aevosfs \<Rightarrow> bool" where
  "dirs_ok fs \<longleftrightarrow> sb_root_inode (af_sb fs) \<noteq> 0 \<and> find_inode (sb_root_inode (af_sb fs)) fs \<noteq> None \<and>
     (\<forall>i. in_id (af_inodes fs i) < af_next_id fs) \<and> (\<forall>i. in_id (af_inodes fs i) \<noteq> 0 \<longrightarrow> i < 4096) \<and>
     (\<forall>i j. in_id (af_inodes fs i) \<noteq> 0 \<longrightarrow> in_id (af_inodes fs i) = in_id (af_inodes fs j) \<longrightarrow> i = j) \<and>
     (\<forall>i. in_id (af_inodes fs i) \<noteq> 0 \<longrightarrow> in_type (af_inodes fs i) = AEVOSFS_DIR \<longrightarrow> no_holes (af_inodes fs i) \<and>
        (\<forall>e \<in> set (dir_entries fs (dir_blocks (af_inodes fs i))). ad_inode_id e < af_next_id fs))"

lemma dirs_okD:
  assumes "dirs_ok fs"
  shows "sb_root_inode (af_sb fs) \<noteq> 0" and "find_inode (sb_root_inode (af_sb fs)) fs \<noteq> None"
    and "in_id (af_inodes fs i) < af_next_id fs" and "in_id (af_inodes fs i) \<noteq> 0 \<Longrightarrow> i < 4096"
    and "in_id (af_inodes fs i) \<noteq> 0 \<Longrightarrow> in_id (af_inodes fs i) = in_id (af_inodes fs j) \<Longrightarrow> i = j"
    and "in_id (af_inodes fs i) \<noteq> 0 \<Longrightarrow> in_type (af_inodes fs i) = AEVOSFS_DIR \<Longrightarrow> no_holes (af_inodes fs i)"
    and "in_id (af_inodes fs i) \<noteq> 0 \<Longrightarrow> in_type (af_inodes fs i) = AEVOSFS_DIR \<Longrightarrow>
      x \<in> set (dir_entries fs (dir_blocks (af_inodes fs i))) \<Longrightarrow> ad_inode_id x < af_next_id fs"
  using assms unfolding dirs_ok_def by blast+

lemma find_inode_iff:
  assumes "\<And>i. in_id (af_inodes fs i) \<noteq> 0 \<Longrightarrow> i < 4096"
    and "\<And>i j. in_id (af_inodes fs i) \<noteq> 0 \<Longrightarrow> in_id (af_inodes fs i) = in_id (af_inodes fs j) \<Longrightarrow> i = j" and "k \<noteq> 0"
  shows "find_inode k fs = Some i \<longleftrightarrow> in_id (af_inodes fs i) = k"
proof
  assume "find_inode k fs = Some i"
  then show "in_id (af_inodes fs i) = k" by (simp add: find_inode_def scan_Some_iff)
next
  assume i: "in_id (af_inodes fs i) = k"
  then have "in_id (af_inodes fs j) \<noteq> k" if "j < i" for j using assms(2) [of i j] assms(3) that by auto
  then show "find_inode k fs = Some i" using i assms(1) [of i] assms(3) by (simp add: find_inode_def scan_Some_iff)
qed

lemma find_inode_dirs: "dirs_ok fs \<Longrightarrow> k \<noteq> 0 \<Longrightarrow> find_inode k fs = Some i \<longleftrightarrow> in_id (af_inodes fs i) = k"
  by (rule find_inode_iff) (use dirs_okD(4,5) in blast)+

lemma dir_lookup_nonzero: "dir_lookup fs c blks = Some k \<Longrightarrow> k \<noteq> 0"
  by (auto simp: dir_lookup_find find_Some_iff)

lemma resolve_walk_append:
  "resolve_walk fs (cs @ [c]) cur = (case resolve_walk fs cs cur of None \<Rightarrow> None | Some i \<Rightarrow> resolve_walk fs [c] i)"
  by (induction cs arbitrary: cur) (auto split: option.splits)

text \<open>A state in which every directory still has its entries leads every path where it led.\<close>

lemma resolve_walk_kept:
  assumes ok: "dirs_ok fs"
    and find': "\<And>k j. k \<noteq> 0 \<Longrightarrow> find_inode k fs = Some j \<Longrightarrow> find_inode k fs' = Some j"
    and type': "\<And>j. in_id (af_inodes fs j) \<noteq> 0 \<Longrightarrow> in_type (af_inodes fs' j) = in_type (af_inodes fs j)"
    and look': "\<And>j c k. in_id (af_inodes fs j) \<noteq> 0 \<Longrightarrow> in_type (af_inodes fs j) = AEVOSFS_DIR \<Longrightarrow>
      dir_lookup fs c (dir_blocks (af_inodes fs j)) = Some k \<Longrightarrow> dir_lookup fs' c (dir_blocks (af_inodes fs' j)) = Some k"
    and "in_id (af_inodes fs cur) \<noteq> 0" and "resolve_walk fs cs cur = Some j"
  shows "resolve_walk fs' cs cur = Some j \<and> in_id (af_inodes fs j) \<noteq> 0"
  using assms(5,6)
proof (induction cs arbitrary: cur)
  case (Cons c cs)
  then have dir: "in_type (af_inodes fs cur) = AEVOSFS_DIR" by (auto split: if_splits)
  obtain k i where k: "dir_lookup fs c (dir_blocks (af_inodes fs cur)) = Some k" "find_inode k fs = Some i" "resolve_walk fs cs i = Some j"
    using Cons.prems(2) dir by (auto split: option.splits)
  have k0: "k \<noteq> 0" using dir_lookup_nonzero [OF k(1)] .
  then have "in_id (af_inodes fs i) \<noteq> 0" using k(2) find_inode_dirs [OF ok k0] by simp
  then show ?case using Cons.IH [OF _ k(3)] look' [OF Cons.prems(1) dir k(1)] find' [OF k0 k(2)] type' [OF Cons.prems(1)] dir by simp
qed simp

section \<open>A new entry\<close>

definition new_inode :: "u64 \<Rightarrow> aevosfs_inode_type \<Rightarrow> aevosfs_inode" where
  "new_inode k ty = \<lparr>in_id = k, in_type = ty, in_size = 0, in_created = 0, in_modified = 0,
     in_blocks = \<lambda>_. 0, in_indirect = 0, in_permissions = 0x1ED, in_link_count = 1\<rparr>"

lemma alloc_inode_ok:
  assumes "\<exists>i < 4096. in_id (af_inodes fs i) = 0"
  shows "\<exists>i. alloc_inode ty fs =
      (Some i, fs\<lparr>af_inodes := (af_inodes fs)(i := new_inode (af_next_id fs) ty), af_next_id := af_next_id fs + 1\<rparr>) \<and>
    i < 4096 \<and> in_id (af_inodes fs i) = 0"
proof -
  obtain i where i: "scan (\<lambda>i. in_id (af_inodes fs i) = 0) 0 4096 = Some i"
    using assms scan_None_iff [of "\<lambda>i. in_id (af_inodes fs i) = 0" 0 4096] by (metis (no_types, lifting) le0 not_None_eq)
  then have "i < 4096" "in_id (af_inodes fs i) = 0" by (simp_all add: scan_Some_iff)
  then show ?thesis using i by (simp add: alloc_inode_def new_inode_def)
qed

lemma fs_ok_inodes:
  "fs_ok n (fs\<lparr>af_inodes := g, af_next_id := k\<rparr>) \<longleftrightarrow> log_ok n fs \<and>
     (\<forall>i b. in_id (g i) \<noteq> 0 \<longrightarrow> in_blocks (g i) b < sb_log_head (af_sb fs)) \<and>
     (\<forall>i b j c. in_id (g i) \<noteq> 0 \<longrightarrow> in_id (g j) \<noteq> 0 \<longrightarrow> in_blocks (g i) b \<noteq> 0 \<longrightarrow> in_blocks (g i) b = in_blocks (g j) c \<longrightarrow> i = j \<and> b = c)"
  by (simp add: fs_ok_def log_ok_def)

lemma fs_ok_new_inode:
  assumes "fs_ok n fs"
  shows "fs_ok n (fs\<lparr>af_inodes := (af_inodes fs)(i := new_inode k ty), af_next_id := k'\<rparr>)"
proof -
  let ?g = "(af_inodes fs)(i := new_inode k ty)"
  have lt: "in_blocks (?g j) b < sb_log_head (af_sb fs)" if "in_id (?g j) \<noteq> 0" for j b
    using that fs_okD(2) [OF assms] fs_okD(4) [OF assms, of j b]
    by (cases "j = i") (auto simp: new_inode_def word_less_nat_alt word_le_nat_alt)
  have eq: "j = j' \<and> b = b'" if "in_id (?g j) \<noteq> 0" "in_id (?g j') \<noteq> 0" "in_blocks (?g j) b \<noteq> 0" "in_blocks (?g j) b = in_blocks (?g j') b'"
    for j b j' b'
  proof -
    have "j \<noteq> i" "j' \<noteq> i" using that(3,4) by (auto simp: new_inode_def)
    then show ?thesis using that fs_okD(5) [OF assms, of j j' b b'] by simp
  qed
  show ?thesis unfolding fs_ok_inodes using fs_ok_log [OF assms] lt eq by blast
qed

lemma dir_entries_inodes [simp]:
  "dir_entries (fs\<lparr>af_inodes := g, af_next_id := k\<rparr>) bs = dir_entries fs bs"
  by (rule dir_entries_cong) (simp add: read_block_def)

text \<open>The state after \<open>aevosfs_create\<close> added the new inode \<open>i\<close> to directory \<open>p\<close>.\<close>

definition created :: "nat \<Rightarrow> nat \<Rightarrow> aevosfs_dir_entry \<Rightarrow> 'd aevosfs \<Rightarrow> 'd aevosfs \<Rightarrow> bool" where
  "created i p e fs fs' \<longleftrightarrow>
     dir_added p e (fs\<lparr>af_inodes := (af_inodes fs)(i := new_inode (af_next_id fs) (ad_type e)), af_next_id := af_next_id fs + 1\<rparr>) fs' \<and>
     in_id (af_inodes fs i) = 0 \<and> i < 4096 \<and> ad_inode_id e = af_next_id fs"

lemma createdD:
  assumes c: "created i p e fs fs'" and live: "in_id (af_inodes fs p) \<noteq> 0"
  shows "af_next_id fs' = af_next_id fs + 1" and "sb_root_inode (af_sb fs') = sb_root_inode (af_sb fs)"
    and "af_inodes fs' i = new_inode (af_next_id fs) (ad_type e)" and "j \<noteq> i \<Longrightarrow> j \<noteq> p \<Longrightarrow> af_inodes fs' j = af_inodes fs j"
    and "j \<noteq> i \<Longrightarrow> in_id (af_inodes fs' j) = in_id (af_inodes fs j)" and "j \<noteq> i \<Longrightarrow> in_type (af_inodes fs' j) = in_type (af_inodes fs j)"
    and "no_holes (af_inodes fs' p)"
    and "b < sb_log_head (af_sb fs) \<Longrightarrow> b \<notin> set (dir_blocks (af_inodes fs p)) \<Longrightarrow> read_block b fs' = read_block b fs"
    and "entry_added e (dir_entries fs (dir_blocks (af_inodes fs p))) (dir_entries fs' (dir_blocks (af_inodes fs' p)))"
proof -
  have ip: "i \<noteq> p" using c live by (auto simp: created_def)
  note d = c [unfolded created_def dir_added_def]
  show "af_next_id fs' = af_next_id fs + 1" "sb_root_inode (af_sb fs') = sb_root_inode (af_sb fs)" "no_holes (af_inodes fs' p)"
    "af_inodes fs' i = new_inode (af_next_id fs) (ad_type e)" "j \<noteq> i \<Longrightarrow> j \<noteq> p \<Longrightarrow> af_inodes fs' j = af_inodes fs j"
    using d ip by simp_all
  show "j \<noteq> i \<Longrightarrow> in_id (af_inodes fs' j) = in_id (af_inodes fs j)" "j \<noteq> i \<Longrightarrow> in_type (af_inodes fs' j) = in_type (af_inodes fs j)"
    using d ip by (cases "j = p"; simp)+
  show "b < sb_log_head (af_sb fs) \<Longrightarrow> b \<notin> set (dir_blocks (af_inodes fs p)) \<Longrightarrow> read_block b fs' = read_block b fs"
    "entry_added e (dir_entries fs (dir_blocks (af_inodes fs p))) (dir_entries fs' (dir_blocks (af_inodes fs' p)))"
    using d ip by (simp_all add: read_block_def)
qed

text \<open>The other files and directories keep their blocks.\<close>

lemma created_blocks:
  assumes ok: "fs_ok n fs" and c: "created i p e fs fs'" and live: "in_id (af_inodes fs p) \<noteq> 0"
    and j: "in_id (af_inodes fs j) \<noteq> 0" "j \<noteq> p"
  shows "af_inodes fs' j = af_inodes fs j" and "read_block (in_blocks (af_inodes fs j) b) fs' = read_block (in_blocks (af_inodes fs j) b) fs"
    and "dir_entries fs' (dir_blocks (af_inodes fs j)) = dir_entries fs (dir_blocks (af_inodes fs j))"
proof -
  have "j \<noteq> i" using c j(1) by (auto simp: created_def)
  then show "af_inodes fs' j = af_inodes fs j" using createdD(4) [OF c live] j(2) by simp
  show r: "read_block (in_blocks (af_inodes fs j) b) fs' = read_block (in_blocks (af_inodes fs j) b) fs" for b
  proof (rule createdD(8) [OF c live])
    show "in_blocks (af_inodes fs j) b < sb_log_head (af_sb fs)" using fs_okD(4) [OF ok j(1)] .
    show "in_blocks (af_inodes fs j) b \<notin> set (dir_blocks (af_inodes fs p))"
      using dir_blocks_mem fs_okD(5) [OF ok j(1) live] j(2) by metis
  qed
  show "dir_entries fs' (dir_blocks (af_inodes fs j)) = dir_entries fs (dir_blocks (af_inodes fs j))"
    using r dir_blocks_mem(2) by (intro dir_entries_cong) metis
qed

lemma created_ids:
  assumes dirs: "dirs_ok fs" and c: "created i p e fs fs'" and live: "in_id (af_inodes fs p) \<noteq> 0" and next_id: "af_next_id fs < UINT64_MAX"
  shows "in_id (af_inodes fs' j) = (if j = i then af_next_id fs else in_id (af_inodes fs j))" and "af_next_id fs < af_next_id fs'"
    and "in_id (af_inodes fs' j) \<noteq> 0 \<Longrightarrow> j < 4096"
    and "in_id (af_inodes fs' j) \<noteq> 0 \<Longrightarrow> in_id (af_inodes fs' j) = in_id (af_inodes fs' j') \<Longrightarrow> j = j'"
    and "k \<noteq> 0 \<Longrightarrow> find_inode k fs' = Some j \<longleftrightarrow> in_id (af_inodes fs' j) = k"
proof -
  show ids: "in_id (af_inodes fs' j) = (if j = i then af_next_id fs else in_id (af_inodes fs j))" for j
    using createdD(3) [OF c live] createdD(5) [OF c live, of j] by (simp add: new_inode_def)
  have "1 + af_next_id fs \<noteq> 0" using next_id by (auto simp: add_eq_0_iff)
  then have "unat (af_next_id fs + 1) = unat (af_next_id fs) + 1" using unatSuc [of "af_next_id fs"] by (simp add: add.commute)
  then show "af_next_id fs < af_next_id fs'" using createdD(1) [OF c live] by (simp add: word_less_nat_alt)
  show lt: "j < 4096" if "in_id (af_inodes fs' j) \<noteq> 0" for j
    using that dirs_okD(4) [OF dirs, of j] c by (auto simp: ids created_def split: if_splits)
  show uniq: "j = j'" if "in_id (af_inodes fs' j) \<noteq> 0" "in_id (af_inodes fs' j) = in_id (af_inodes fs' j')" for j j'
    using that dirs_okD(5) [OF dirs, of j j'] dirs_okD(3) [OF dirs, of j] dirs_okD(3) [OF dirs, of j']
    by (auto simp: ids split: if_splits)
  show "k \<noteq> 0 \<Longrightarrow> find_inode k fs' = Some j \<longleftrightarrow> in_id (af_inodes fs' j) = k" by (rule find_inode_iff [OF lt uniq])
qed

lemma created_lookup:
  assumes "dirs_ok fs" and c: "created i p e fs fs'" and live: "in_id (af_inodes fs p) \<noteq> 0"
    and none: "dir_lookup fs (ad_name e) (dir_blocks (af_inodes fs p)) = None"
  shows "dir_lookup fs' d (dir_blocks (af_inodes fs' p)) =
    (if cval d = cval (ad_name e) then Some (af_next_id fs) else dir_lookup fs d (dir_blocks (af_inodes fs p)))"
proof -
  have e: "ad_inode_id e = af_next_id fs" using c by (simp add: created_def)
  then have "ad_inode_id e \<noteq> 0" using dirs_okD(3) [OF assms(1), of p] by auto
  from entry_added_find [OF createdD(9) [OF c live] this] none show ?thesis by (simp add: dir_lookup_find e)
qed

lemma created_dirs_ok:
  assumes ok: "fs_ok n fs" and dirs: "dirs_ok fs" and c: "created i p e fs fs'" and live: "in_id (af_inodes fs p) \<noteq> 0"
    and dir: "in_type (af_inodes fs p) = AEVOSFS_DIR" and next_id: "af_next_id fs < UINT64_MAX"
  shows "dirs_ok fs'"
proof -
  note ids = created_ids [OF dirs c live next_id]
  have root: "sb_root_inode (af_sb fs') = sb_root_inode (af_sb fs)" by (rule createdD(2) [OF c live])
  obtain r where r: "find_inode (sb_root_inode (af_sb fs)) fs = Some r" using dirs_okD(2) [OF dirs] by blast
  then have "in_id (af_inodes fs r) = sb_root_inode (af_sb fs)" using find_inode_dirs [OF dirs dirs_okD(1) [OF dirs]] by simp
  moreover from this have "r \<noteq> i" using c dirs_okD(1) [OF dirs] by (auto simp: created_def)
  ultimately have "find_inode (sb_root_inode (af_sb fs')) fs' = Some r" using ids(5) [OF dirs_okD(1) [OF dirs]] by (simp add: root ids(1))
  moreover have "in_id (af_inodes fs' j) < af_next_id fs'" for j
    using ids(2) dirs_okD(3) [OF dirs, of j] by (auto simp: ids(1) intro: order.strict_trans)
  moreover have "no_holes (af_inodes fs' j) \<and> (\<forall>x \<in> set (dir_entries fs' (dir_blocks (af_inodes fs' j))). ad_inode_id x < af_next_id fs')"
    if j: "in_id (af_inodes fs' j) \<noteq> 0" "in_type (af_inodes fs' j) = AEVOSFS_DIR" for j
  proof -
    consider "j = i" | "j = p" "j \<noteq> i" | "j \<noteq> i" "j \<noteq> p" by blast
    then show ?thesis
    proof cases
      case 1
      then show ?thesis using createdD(3) [OF c live] by (simp add: new_inode_def dir_blocks_def dir_entries_def upt_conv_Cons del: upt_rec_numeral)
    next
      case 2
      have "ad_inode_id x < af_next_id fs'" if "x \<in> set (dir_entries fs' (dir_blocks (af_inodes fs' p)))" for x
        using entry_added_mem [OF createdD(9) [OF c live] that] dirs_okD(7) [OF dirs live dir, of x] ids(2) c
        by (auto simp: created_def intro: order.strict_trans order_le_less_trans)
      then show ?thesis using 2 createdD(7) [OF c live] by simp
    next
      case 3
      then have j': "in_id (af_inodes fs j) \<noteq> 0" using j(1) ids(1) by simp
      note same = created_blocks [OF ok c live j' 3(2)]
      then show ?thesis using dirs_okD(6,7) [OF dirs j'] j(2) ids(2) by (auto intro: order.strict_trans)
    qed
  qed
  ultimately show ?thesis using ids(3,4) dirs_okD(1) [OF dirs] unfolding dirs_ok_def root by blast
qed

text \<open>Every path that led to a file or directory leads to the same one.\<close>

lemma created_kept:
  assumes ok: "fs_ok n fs" and dirs: "dirs_ok fs" and c: "created i p e fs fs'" and live: "in_id (af_inodes fs p) \<noteq> 0"
    and next_id: "af_next_id fs < UINT64_MAX" and none: "dir_lookup fs (ad_name e) (dir_blocks (af_inodes fs p)) = None"
    and path: "resolve_path_internal q fs = Some j"
  shows "resolve_path_internal q fs' = Some j \<and> in_id (af_inodes fs j) \<noteq> 0"
proof -
  note ids = created_ids [OF dirs c live next_id]
  have live_i: "j \<noteq> i" if "in_id (af_inodes fs j) \<noteq> 0" for j using that c by (auto simp: created_def)
  have find': "find_inode k fs' = Some j" if "k \<noteq> 0" "find_inode k fs = Some j" for k j
    using that find_inode_dirs [OF dirs that(1)] ids(5) [OF that(1)] live_i [of j] by (simp add: ids(1))
  have look': "dir_lookup fs' d (dir_blocks (af_inodes fs' j)) = Some k"
    if j: "in_id (af_inodes fs j) \<noteq> 0" "dir_lookup fs d (dir_blocks (af_inodes fs j)) = Some k" for j d k
  proof (cases "j = p")
    case True
    have "cval d \<noteq> cval (ad_name e)" using j(2) none unfolding True dir_lookup_find by auto
    then show ?thesis using created_lookup [OF dirs c live none] j(2) True by simp
  next
    case False
    then show ?thesis using created_blocks [OF ok c live j(1)] j(2) by (simp add: dir_lookup_find)
  qed
  obtain r where r: "find_inode (sb_root_inode (af_sb fs)) fs = Some r" "resolve_walk fs (split_path q) r = Some j"
    using path by (auto simp: resolve_path_internal_def split: option.splits)
  have root0: "sb_root_inode (af_sb fs) \<noteq> 0" by (rule dirs_okD(1) [OF dirs])
  then have live_r: "in_id (af_inodes fs r) \<noteq> 0" using r(1) find_inode_dirs [OF dirs root0] by simp
  have "resolve_walk fs' (split_path q) r = Some j \<and> in_id (af_inodes fs j) \<noteq> 0"
  proof (rule resolve_walk_kept [OF dirs find' _ _ live_r r(2)])
    show "in_type (af_inodes fs' j) = in_type (af_inodes fs j)" if "in_id (af_inodes fs j) \<noteq> 0" for j
      by (rule createdD(6) [OF c live live_i [OF that]])
  qed (assumption, assumption, rule look')
  then show ?thesis using find' [OF root0 r(1)] createdD(2) [OF c live] by (simp add: resolve_path_internal_def)
qed

section \<open>Creating and mounting\<close>

lemma resolve_live:
  assumes "dirs_ok fs" and "resolve_path_internal q fs = Some j"
  shows "in_id (af_inodes fs j) \<noteq> 0"
proof -
  obtain r where r: "find_inode (sb_root_inode (af_sb fs)) fs = Some r" "resolve_walk fs (split_path q) r = Some j"
    using assms(2) by (auto simp: resolve_path_internal_def split: option.splits)
  then have "in_id (af_inodes fs r) \<noteq> 0" using find_inode_dirs [OF assms(1)] dirs_okD(1) [OF assms(1)] by simp
  then show ?thesis using resolve_walk_kept [OF assms(1) _ _ _ _ r(2), of fs] by blast
qed

lemma create_split:
  assumes "entry_name name" and "0 \<notin> set dir" and "length dir + 1 + length name < VFS_PATH_MAX" and "dir = [] \<or> hd dir = chr CHR ''/''"
    and path: "path = dir @ chr CHR ''/'' # name" and "resolve_path_internal dir fs = Some p"
  shows "\<exists>fname. cval fname = name \<and> aevosfs_create path ty fs =
     (if in_type (af_inodes fs p) \<noteq> AEVOSFS_DIR then (Inl ENOENT, fs)
      else case alloc_inode ty fs of
        (None, fs) \<Rightarrow> (Inl ENOMEM, fs)
      | (Some i, fs) \<Rightarrow>
         (case add_dir_entry p fname (in_id (af_inodes fs i)) ty fs of
            (Inl e, fs) \<Rightarrow> (Inl e, upd_inode i (\<lambda>n. n\<lparr>in_id := 0\<rparr>) fs)
          | (Inr _, fs) \<Rightarrow> (Inr (), fs)))"
proof -
  obtain fname where f: "split_last path = Some (if dir = [] then None else Some dir, fname)" "cval fname = name"
    using split_last_path [OF assms(1-3)] path by blast
  have slash: "rd path = chr CHR ''/''" using assms(4) by (cases dir) (simp_all add: path rd_def)
  have "split_path (str ''/'') = split_path []"
    by (subst split_path.simps, subst (2) split_path.simps) (simp add: str_def)
  then have "resolve_path_internal (case if dir = [] then None else Some dir of None \<Rightarrow> str ''/'' | Some d \<Rightarrow> d) fs = Some p"
    using assms(6) by (cases "dir = []") (simp_all add: resolve_path_internal_def split: option.splits)
  then show ?thesis using f slash by (intro exI [of _ fname]) (simp add: aevosfs_create_def)
qed

text \<open>C39: Creating a file or directory under a new name in an existing directory of the tree, with an inode, a block and
  a place in the directory left, succeeds: the path then leads to a new and empty inode of the given type, every path
  that led to an inode leads to the same one, all inodes in use but that of the directory stay as they were, with
  their bytes, and the file system stays well formed.\<close>

theorem aevosfs_create_entry:
  assumes "fs_ok n fs" and "dirs_ok fs" and "entry_name name" and "0 \<notin> set dir"
    and "length dir + 1 + length name < VFS_PATH_MAX" and "dir = [] \<or> hd dir = chr CHR ''/''"
    and "resolve_path_internal dir fs = Some p" and "in_type (af_inodes fs p) = AEVOSFS_DIR"
    and "dir_lookup fs name (dir_blocks (af_inodes fs p)) = None"
    and "\<exists>i < 4096. in_id (af_inodes fs i) = 0" and "af_next_id fs < UINT64_MAX"
    and "\<exists>b < 16. in_blocks (af_inodes fs p) b = 0" and "0 < unat (sb_free_blocks (af_sb fs))"
  shows "\<exists>fs' i. aevosfs_create (dir @ chr CHR ''/'' # name) ty fs = (Inr (), fs') \<and> fs_ok n fs' \<and> dirs_ok fs' \<and>
    in_id (af_inodes fs i) = 0 \<and> resolve_path_internal (dir @ chr CHR ''/'' # name) fs' = Some i \<and>
    in_type (af_inodes fs' i) = ty \<and> in_size (af_inodes fs' i) = 0 \<and>
    (\<forall>q j. resolve_path_internal q fs = Some j \<longrightarrow> resolve_path_internal q fs' = Some j) \<and>
    (\<forall>j. j \<noteq> p \<longrightarrow> in_id (af_inodes fs j) \<noteq> 0 \<longrightarrow>
       af_inodes fs' j = af_inodes fs j \<and> (\<forall>q. file_byte fs' (af_inodes fs' j) q = file_byte fs (af_inodes fs j) q))"
proof -
  let ?path = "dir @ chr CHR ''/'' # name"
  note live = resolve_live [OF assms(2,7)]
  obtain fname where f: "cval fname = name" and create: "aevosfs_create ?path ty fs = (case alloc_inode ty fs of
        (None, fs) \<Rightarrow> (Inl ENOMEM, fs)
      | (Some i, fs) \<Rightarrow>
         (case add_dir_entry p fname (in_id (af_inodes fs i)) ty fs of
            (Inl e, fs) \<Rightarrow> (Inl e, upd_inode i (\<lambda>n. n\<lparr>in_id := 0\<rparr>) fs)
          | (Inr _, fs) \<Rightarrow> (Inr (), fs)))"
    using create_split [OF assms(3-6) refl assms(7)] assms(8) by auto
  obtain i fs1 where i: "alloc_inode ty fs = (Some i, fs1)" "i < 4096" "in_id (af_inodes fs i) = 0"
    and fs1: "fs1 = fs\<lparr>af_inodes := (af_inodes fs)(i := new_inode (af_next_id fs) ty), af_next_id := af_next_id fs + 1\<rparr>"
    using alloc_inode_ok [OF assms(10)] by blast
  have ip: "i \<noteq> p" using i(3) live by auto
  define e where "e = \<lparr>ad_inode_id = af_next_id fs, ad_name = name_field fname, ad_type = ty\<rparr>"
  have "fs_ok n fs1" unfolding fs1 by (rule fs_ok_new_inode [OF assms(1)])
  from add_dir_entry_ok [OF this, of p e "af_next_id fs" fname ty] obtain fs' where
    add: "add_dir_entry p fname (af_next_id fs) ty fs1 = (Inr (), fs')" "fs_ok n fs'" "dir_added p e fs1 fs'"
    using live dirs_okD(6) [OF assms(2) live assms(8)] assms(12,13) ip by (auto simp: fs1 e_def)
  have c: "created i p e fs fs'" using add(3) i(2,3) by (simp add: created_def fs1 e_def)
  have name: "cval (ad_name e) = name" "cval name = name"
    using assms(3) by (simp_all add: e_def cval_name_field f entry_name_def cval_name)
  then have none: "dir_lookup fs (ad_name e) (dir_blocks (af_inodes fs p)) = None" using assms(9) by (simp add: dir_lookup_find)
  have kept: "resolve_path_internal q fs' = Some j" if "resolve_path_internal q fs = Some j" for q j
    using created_kept [OF assms(1,2) c live assms(11) none that] by blast
  have "aevosfs_create ?path ty fs = (Inr (), fs')"
    using create i(1) add(1) by (simp add: fs1 new_inode_def)
  moreover have "resolve_path_internal ?path fs' = Some i"
  proof -
    have "in_id (af_inodes fs' i) = af_next_id fs" "af_next_id fs \<noteq> 0"
      using created_ids(1) [OF assms(2) c live assms(11), of i] dirs_okD(3) [OF assms(2), of p] by auto
    then have "find_inode (af_next_id fs) fs' = Some i" using created_ids(5) [OF assms(2) c live assms(11)] by blast
    then have "resolve_walk fs' [name] p = Some i"
      using created_lookup [OF assms(2) c live none, of name] name createdD(6) [OF c live, of p] ip assms(8) by simp
    then show ?thesis using kept [OF assms(7)] split_path_append [OF assms(4,3)]
      by (auto simp: resolve_path_internal_def resolve_walk_append split: option.splits)
  qed
  moreover have "af_inodes fs' i = new_inode (af_next_id fs) ty" using createdD(3) [OF c live] by (simp add: e_def)
  moreover have "af_inodes fs' j = af_inodes fs j \<and> (\<forall>q. file_byte fs' (af_inodes fs' j) q = file_byte fs (af_inodes fs j) q)"
    if "j \<noteq> p" "in_id (af_inodes fs j) \<noteq> 0" for j
    using created_blocks [OF assms(1) c live that(2,1)] by (simp add: file_byte_def)
  ultimately show ?thesis using add(2) created_dirs_ok [OF assms(1,2) c live assms(8,11)] i(3) kept
    by (intro exI [of _ fs'] exI [of _ i]) (simp add: new_inode_def, metis)
qed

section \<open>Mounting\<close>

lemma sb_of_bytes:
  assumes "length (sb_reserved s) = 448"
  shows "sb_of (to_block (sb_bytes s)) = s"
  using assms by (intro aevosfs_superblock.equality) (simp_all add: sb_of_def sb_bytes_def)

lemma length_sb_block: "length (sb_reserved s) = 448 \<Longrightarrow> length (to_block (sb_bytes s)) = 4096"
  by (simp add: sb_bytes_def)

lemma length_inode_block: "length (to_block (inode_bytes m)) = 4096"
  by (simp add: inode_bytes_def length_concat comp_def sum_list_triv del: upt_rec_numeral)

lemma checkpoint_inodes_kept:
  "checkpoint_inodes is fs = (r, fs') \<Longrightarrow> af_read fs' = af_read fs \<and> af_write fs' = af_write fs \<and> sb_reserved (af_sb fs') = sb_reserved (af_sb fs)"
  by (induction "is" arbitrary: fs) (auto simp: alloc_block_def write_block_def Let_def split: if_splits prod.splits sum.splits)

text \<open>The superblock that a checkpoint writes is the one in memory.\<close>

lemma checkpoint_superblock:
  assumes "device_ok (af_read fs) (af_write fs) n" and "0 < n" and "length (sb_reserved (af_sb fs)) = 448"
    and "aevosfs_checkpoint fs = (Inr (), fs')"
  shows "\<exists>buf. af_read fs (af_dev fs') 0 = Some buf \<and> sb_of buf = af_sb fs'"
proof -
  obtain r fs1 where c: "checkpoint_inodes [0..<4096] fs = (r, fs1)" by fastforce
  then have r: "r = Inr ()" using assms(4) by (cases r) (simp_all add: aevosfs_checkpoint_def)
  note kept = checkpoint_inodes_kept [OF c]
  define fs2 where "fs2 = fs1\<lparr>af_sb := (af_sb fs1)\<lparr>sb_checkpoint_block := sb_log_head (af_sb fs1)\<rparr>\<rparr>"
  have w: "write_block 0 (to_block (sb_bytes (af_sb fs2))) fs2 = (Inr (), fs')"
    using assms(4) c r by (simp add: aevosfs_checkpoint_def Let_def fs2_def)
  have len: "length (sb_reserved (af_sb fs2)) = 448" using kept assms(3) by (simp add: fs2_def)
  have "device_ok (af_read fs2) (af_write fs2) n" using assms(1) kept by (simp add: fs2_def)
  from write_block_ok [OF this assms(2) length_sb_block [OF len]] obtain d where
    "fs' = fs2\<lparr>af_dev := d\<rparr>" "af_read fs2 d 0 = Some (to_block (sb_bytes (af_sb fs2)))" using w by auto
  then show ?thesis using sb_of_bytes [OF len] kept by (simp add: fs2_def)
qed

text \<open>The file system after a mount: an inode for the root, and nothing in it.\<close>

definition only_root :: "'d aevosfs \<Rightarrow> bool" where
  "only_root fs \<longleftrightarrow> find_inode (sb_root_inode (af_sb fs)) fs = Some 0 \<and> in_type (af_inodes fs 0) = AEVOSFS_DIR \<and>
     (\<forall>e \<in> set (dir_entries fs (dir_blocks (af_inodes fs 0))). ad_inode_id e = 0)"

lemma only_root_resolve:
  assumes "only_root fs"
  shows "resolve_path_internal q fs = (if split_path q = [] then Some 0 else None)"
proof -
  have "dir_lookup fs c (dir_blocks (af_inodes fs 0)) = None" for c
    using assms by (auto simp: only_root_def dir_lookup_find find_None_iff)
  then show ?thesis using assms by (cases "split_path q") (simp_all add: only_root_def resolve_path_internal_def)
qed

abbreviation zero_inode :: aevosfs_inode where
  "zero_inode \<equiv> \<lparr>in_id = 0, in_type = AEVOSFS_FILE, in_size = 0, in_created = 0, in_modified = 0, in_blocks = \<lambda>_. 0,
     in_indirect = 0, in_permissions = 0, in_link_count = 0\<rparr>"

lemma scan_first: "P 0 \<Longrightarrow> scan P 0 4096 = Some 0"
  by (simp add: scan_Some_iff)

lemma mount_old:
  assumes "af_read fs (af_dev fs) 0 = Some buf" and "sb_magic (sb_of buf) = AEVOSFS_MAGIC" and "sb_root_inode (sb_of buf) \<noteq> 0"
    and "af_inodes fs = (\<lambda>_. zero_inode)"
  shows "\<exists>fs'. aevosfs_mount fs = (Inr (), fs') \<and> af_sb fs' = sb_of buf \<and> only_root fs'"
proof -
  define fs1 where "fs1 = fs\<lparr>af_sb := sb_of buf\<rparr>"
  define fs' where "fs' = fs1\<lparr>af_inodes := (af_inodes fs)(0 := new_inode (sb_root_inode (sb_of buf)) AEVOSFS_DIR), af_next_id := af_next_id fs + 1\<rparr>"
  have "find_inode (sb_root_inode (sb_of buf)) fs1 = None"
    using assms(3,4) by (simp add: find_inode_def scan_None_iff fs1_def)
  moreover have "alloc_inode AEVOSFS_DIR fs1 = (Some 0, fs1\<lparr>af_inodes := (af_inodes fs)(0 := new_inode (af_next_id fs) AEVOSFS_DIR), af_next_id := af_next_id fs + 1\<rparr>)"
    using scan_first [of "\<lambda>i. in_id (af_inodes fs i) = 0"] assms(4) by (simp add: alloc_inode_def fs1_def new_inode_def)
  ultimately have "aevosfs_mount fs = (Inr (), fs')"
    using assms(1,2) by (simp add: aevosfs_mount_def read_block_def fs1_def [symmetric] fs'_def) (simp add: fs1_def new_inode_def)
  moreover have "find_inode (sb_root_inode (sb_of buf)) fs' = Some 0"
    using scan_first [of "\<lambda>i. in_id (af_inodes fs' i) = sb_root_inode (sb_of buf)"] by (simp add: find_inode_def fs'_def new_inode_def)
  ultimately show ?thesis
    by (simp add: only_root_def fs'_def fs1_def new_inode_def dir_entries_def dir_blocks_def upt_conv_Cons del: upt_rec_numeral)
qed

lemma mount_new:
  assumes dev: "device_ok (af_read fs) (af_write fs) n" and n: "65536 \<le> n"
    and old: "af_read fs (af_dev fs) 0 = Some buf" "sb_magic (sb_of buf) \<noteq> AEVOSFS_MAGIC"
    and ino: "af_inodes fs = (\<lambda>_. zero_inode)" "af_next_id fs = 1"
  shows "\<exists>fs'. aevosfs_mount fs = (Inr (), fs') \<and> fs_ok n fs' \<and> dirs_ok fs' \<and> only_root fs' \<and>
    in_blocks (af_inodes fs' 0) 1 = 0 \<and> in_id (af_inodes fs' 1) = 0 \<and> sb_free_blocks (af_sb fs') = 65534 \<and> af_next_id fs' = 2"
proof -
  have n1: "0 < n" "1 < n" using n by (simp_all add: word_less_nat_alt word_le_nat_alt)
  define m where "m = (new_inode 1 AEVOSFS_DIR)\<lparr>in_blocks := (in_blocks (new_inode 1 AEVOSFS_DIR))(0 := 1)\<rparr>"
  define fs1 where "fs1 = fs\<lparr>af_next_id := 2, af_sb := fresh_sb\<lparr>sb_root_inode := 1\<rparr>, af_inodes := (af_inodes fs)(0 := m)\<rparr>"
  have alloc: "alloc_inode AEVOSFS_DIR (fs\<lparr>af_sb := fresh_sb\<rparr>) =
      (Some 0, fs\<lparr>af_sb := fresh_sb, af_inodes := (af_inodes fs)(0 := new_inode 1 AEVOSFS_DIR), af_next_id := 2\<rparr>)"
    using scan_first [of "\<lambda>i. in_id (af_inodes fs i) = 0"] ino by (simp add: alloc_inode_def new_inode_def)
  have d1: "device_ok (af_read fs1) (af_write fs1) n" using dev by (simp add: fs1_def)
  from write_block_ok [OF d1 n1(2), of zero_block] obtain d where
    d: "write_block 1 zero_block fs1 = (Inr (), fs1\<lparr>af_dev := d\<rparr>)" "af_read fs d 1 = Some zero_block" by (auto simp: fs1_def)
  define fs2 where "fs2 = fs1\<lparr>af_dev := d\<rparr>"
  have len: "length (to_block (sb_bytes (af_sb fs2))) = 4096" by (rule length_sb_block) (simp add: fs2_def fs1_def fresh_sb_def)
  from write_block_ok [OF _ n1(1) len, of fs2] d1 obtain d' where
    d': "write_block 0 (to_block (sb_bytes (af_sb fs2))) fs2 = (Inr (), fs2\<lparr>af_dev := d'\<rparr>)" "af_read fs d' 1 = Some zero_block"
    using d(2) by (auto simp: fs2_def fs1_def read_block_def)
  define fs' where "fs' = fs2\<lparr>af_dev := d'\<rparr>"
  have "aevosfs_mount fs = (Inr (), fs')"
  proof -
    have "in_id (new_inode 1 AEVOSFS_DIR) = 1" by (simp add: new_inode_def)
    then show ?thesis using old alloc d(1) d'(1)
      by (simp add: aevosfs_mount_def read_block_def Let_def m_def [symmetric] fs1_def [symmetric] fs2_def [symmetric] fs'_def)
  qed
  moreover have sel: "af_inodes fs' j = (if j = 0 then m else zero_inode)" "af_sb fs' = fresh_sb\<lparr>sb_root_inode := 1\<rparr>" "af_next_id fs' = 2"
    "read_block 1 fs' = Some zero_block" "af_read fs' = af_read fs" "af_write fs' = af_write fs" for j
    using d'(2) ino by (simp_all add: fs'_def fs2_def fs1_def read_block_def)
  have blocks: "in_blocks (af_inodes fs' j) b = (if j = 0 \<and> b = 0 then 1 else 0)" and ids: "in_id (af_inodes fs' j) = (if j = 0 then 1 else 0)" for j b
    by (simp_all add: sel m_def new_inode_def)
  moreover have "fs_ok n fs'"
    using dev n unfolding fs_ok_def blocks ids sel(2-6) by (simp add: fresh_sb_def word_le_nat_alt)
  moreover have "only_root fs'"
  proof -
    have "find_inode 1 fs' = Some 0" using scan_first [of "\<lambda>i. in_id (af_inodes fs' i) = 1"] by (simp add: find_inode_def ids)
    moreover have "dir_blocks m = [1]" by (simp add: dir_blocks_def m_def new_inode_def upt_conv_Cons del: upt_rec_numeral)
    ultimately show ?thesis using de_at_zero [of 4096]
      by (auto simp: only_root_def sel m_def new_inode_def dir_entries_def block_entries_def simp del: upt_rec_numeral)
  qed
  moreover from this have "dirs_ok fs'"
    unfolding dirs_ok_def only_root_def blocks ids by (auto simp: sel)
  ultimately show ?thesis using blocks [of 0 1] ids [of 1] sel(2,3) by (intro exI [of _ fs']) (simp add: fresh_sb_def)
qed

lemma init_sel:
  "af_read (aevosfs_init rdf wrf fs) = rdf" "af_write (aevosfs_init rdf wrf fs) = wrf" "af_dev (aevosfs_init rdf wrf fs) = af_dev fs"
  "af_inodes (aevosfs_init rdf wrf fs) = (\<lambda>_. zero_inode)" "af_next_id (aevosfs_init rdf wrf fs) = 1"
  by (simp_all add: aevosfs_init_def)


section \<open>Instances\<close>

definition blank :: "(u64 \<Rightarrow> bytes) aevosfs" where
  "blank = one_file\<lparr>af_dev := \<lambda>_. []\<rparr>"

lemma blank_read: "ram_read (af_dev blank) 0 = Some zero_block" "sb_magic (sb_of zero_block) \<noteq> AEVOSFS_MAGIC"
  by (simp_all add: blank_def ram_read_def sb_of_def le_word_zero)


theorem aevosfs_create_entry_witness:
  "\<exists>fs' i. aevosfs_create (str ''/a'') AEVOSFS_FILE (snd (aevosfs_mount (aevosfs_init ram_read ram_write blank))) = (Inr (), fs') \<and>
     resolve_path_internal (str ''/a'') fs' = Some i"
proof -
  obtain fs where m: "aevosfs_mount (aevosfs_init ram_read ram_write blank) = (Inr (), fs)" "fs_ok 65536 fs" "dirs_ok fs" "only_root fs"
    "in_blocks (af_inodes fs 0) 1 = 0" "in_id (af_inodes fs 1) = 0" "sb_free_blocks (af_sb fs) = 65534" "af_next_id fs = 2"
    using mount_new [of "aevosfs_init ram_read ram_write blank" 65536 zero_block] blank_read by (auto simp: init_sel ram_device)
  have name: "entry_name (str ''a'')" by (simp add: entry_name_def str_def)
  have "split_path [] = []" by (subst split_path.simps) (simp add: rd_def)
  then have root: "resolve_path_internal [] fs = Some 0" using only_root_resolve [OF m(4)] by simp
  have none: "dir_lookup fs (str ''a'') (dir_blocks (af_inodes fs 0)) = None"
    using m(4) by (auto simp: only_root_def dir_lookup_find find_None_iff)
  have dir: "in_type (af_inodes fs 0) = AEVOSFS_DIR" using m(4) by (simp add: only_root_def)
  have free: "\<exists>i < 4096. in_id (af_inodes fs i) = 0" using m(6) by (intro exI [of _ 1]) simp
  have room: "\<exists>b < 16. in_blocks (af_inodes fs 0) b = 0" using m(5) by (intro exI [of _ 1]) simp
  have "\<exists>fs' i. aevosfs_create ([] @ chr CHR ''/'' # str ''a'') AEVOSFS_FILE fs = (Inr (), fs') \<and>
      resolve_path_internal ([] @ chr CHR ''/'' # str ''a'') fs' = Some i"
    using aevosfs_create_entry [OF m(2,3) name _ _ _ root dir none free _ room, of AEVOSFS_FILE] m(7,8) by (auto simp: str_def)
  then show ?thesis using m(1) by (simp add: str_def)
qed

end
