(* ===== verification/Spec2Isabelle.thy ===== *)
theory Spec2Isabelle
  imports CapIpc Sched Mailbox SepPlane Hashmap Skill Posix Container Json Dns VmmLarge HmsCache LlmService AevosfsDirs
begin

text \<open>
  \<^bold>\<open>AevOS: the kernel services and the agent runtime\<close>

  AevOS is a bare-metal operating system for AI agents, written in C. This development models the parts of it
  whose behaviour is determined by the sources under \<^verbatim>\<open>src/src\<close> alone, function by function, and proves what
  they promise. This theory only collects the others; each of them opens with a description of its own.

  \<^bold>\<open>Parts and their theories\<close>

  \<^item> \<^verbatim>\<open>AevPrelude\<close>: integer types and error numbers (\<^verbatim>\<open>include/aevos/types.h\<close>), the search loop \<open>scan\<close>, and the
    interfaces as locales: \<open>bitmap_ops\<close> (bit maps), \<open>frame_source\<close> (a source of page frames), \<open>block_allocator\<close> (a
    heap), \<open>bounded_ring\<close> (a ring that drops its oldest entry), \<open>id_issuer\<close> (identifiers that are not reused). Each
    is interpreted in the theories of the components that provide it.
  \<^item> \<^verbatim>\<open>CString\<close>: \<^verbatim>\<open>lib/string.c\<close>, with formatted output against a reference text.
  \<^item> \<^verbatim>\<open>Pmm\<close>, \<^verbatim>\<open>Slab\<close>: the page allocator \<^verbatim>\<open>kernel/mm/pmm.c\<close> and the kernel heap \<^verbatim>\<open>kernel/mm/slab.c\<close> on top of it. The
    heap relies on the page allocator through \<open>frame_source\<close>, and its clients rely on it through \<open>block_allocator\<close>.
  \<^item> \<^verbatim>\<open>Vmm\<close>, \<^verbatim>\<open>VmmLarge\<close>: the page tables of \<^verbatim>\<open>kernel/mm/vmm.c\<close>, as built for x86-64, over the page allocator: mapping,
    contexts, and the address space that the kernel builds of large pages.
  \<^item> \<^verbatim>\<open>Sched\<close>: the coroutine scheduler \<^verbatim>\<open>kernel/sched/coroutine.c\<close>, with run queues linked through the coroutines and
    stacks from the heap.
  \<^item> \<^verbatim>\<open>CapIpc\<close>: capability tokens, \<^verbatim>\<open>kernel/ipc/cap_ipc.c\<close>; the tokens are an \<open>id_issuer\<close>.
  \<^item> \<^verbatim>\<open>Vfs\<close>, \<^verbatim>\<open>Devfs\<close>, \<^verbatim>\<open>Posix\<close>: the virtual file system \<^verbatim>\<open>kernel/fs/vfs.c\<close> over a table of drivers, the device file
    system \<^verbatim>\<open>kernel/fs/devfs.c\<close> as one of the drivers, and the calls of \<^verbatim>\<open>posix/\<close> on top of both.
  \<^item> \<^verbatim>\<open>Aevosfs\<close>, \<^verbatim>\<open>AevosfsFiles\<close>, \<^verbatim>\<open>AevosfsDirs\<close>: the log-structured file system \<^verbatim>\<open>kernel/fs/aevosfs.c\<close>, also as a
    driver of the virtual file system, with the contents of its files and its directories. The block device is the pair
    of functions that the driver is initialised with; \<open>device_ok\<close> says that it stores what is written to it.
  \<^item> \<^verbatim>\<open>Hashmap\<close>, \<^verbatim>\<open>Lz4\<close>, \<^verbatim>\<open>Json\<close>: the libraries \<^verbatim>\<open>lib/hashmap.c\<close> (interpreting the locale \<open>string_map\<close>), \<^verbatim>\<open>lib/lz4.c\<close>
    and \<^verbatim>\<open>lib/json.c\<close>.
  \<^item> \<^verbatim>\<open>Dns\<close>: the DNS client \<^verbatim>\<open>kernel/net/dns.c\<close>; the network and the clock are arguments.
  \<^item> \<^verbatim>\<open>HistBptree\<close>, \<^verbatim>\<open>History\<close>, \<^verbatim>\<open>Eventlog\<close>, \<^verbatim>\<open>Mailbox\<close>, \<^verbatim>\<open>SepPlane\<close>, \<^verbatim>\<open>Skill\<close>: the agent's conversation history with its
    index and its compression, the event log, the mailbox, the self-evolution plane, and the skills, from
    the files of the same names under \<^verbatim>\<open>agent/\<close>. The event log and the mailbox interpret \<open>bounded_ring\<close>.
  \<^item> \<^verbatim>\<open>HmsCache\<close>: the three tiers of the memory cache, \<^verbatim>\<open>agent/hms_cache.c\<close>.
  \<^item> \<^verbatim>\<open>LlmService\<close>: the entry points of the language model, \<^verbatim>\<open>llm/llm_ipc.c\<close>, \<^verbatim>\<open>llm/llm_tool_router.c\<close>,
    \<^verbatim>\<open>llm/llm_syscall.c\<close> and \<^verbatim>\<open>llm/llm_api_client.c\<close>; the model itself is an argument.
  \<^item> \<^verbatim>\<open>Float32\<close>: single-precision arithmetic by rounding of rationals, for the statistics of skills and evolution.
  \<^item> \<^verbatim>\<open>Evolution\<close>, \<^verbatim>\<open>LinuxAbi\<close>, \<^verbatim>\<open>Sandbox\<close>, \<^verbatim>\<open>Container\<close>: the metrics and snapshots of \<^verbatim>\<open>evolution/\<close>, the Linux system
    call tables of \<^verbatim>\<open>linux/\<close>, and from \<^verbatim>\<open>container/\<close> the flow policy, the system call sandbox and the docker commands,
    whose container identifiers are an \<open>id_issuer\<close>.

  \<^bold>\<open>How the model corresponds to the code\<close>

  A C function is a definition with the same name, a loop of it a recursive function or a \<open>fold\<close> over the indices,
  a struct a record, an enum a datatype, and global variables are the fields of a state record that operations
  take and return. Machine integers are words of their width. Arrays that are only indexed are total functions,
  buffers that are passed around are lists of bytes. Error codes are values: \<open>Inl\<close> of an \<open>errno\<close>. \<open>None\<close> as an outer
  result says that the C code has no defined behaviour or does not return; the theorems that an operation
  returns state that its result is \<open>Some\<close>. Clock readings, results of allocations in client code, and calls through
  function pointers are arguments. Spin locks make an operation atomic and are left out, and so is log output.

  \<^bold>\<open>What the theorems show\<close>

  \<^item> Refinement of an abstract state: capability tables, mailbox, hash table, flow policy, page tables as an address
    space, the queue of requests to the language model.
  \<^item> Functional behaviour and safety: first-fit page allocation, disjoint heap blocks, scheduling order,
    file creation and file positions, the verdict of the verifier, the life of a container and of an address space,
    the direct map of the kernel, the tiers of the memory cache, entries in the directories of the disk file system.
  \<^item> Invariants: run queues, history window, heap, page counts, index tree, container table,
    page tables as a tree of frames in use, blocks of the disk file system.
  \<^item> Round trips: allocation and release, LZ4, JSON, DNS names, bytes of a file, and the stored forms of history and skills.
  \<^item> Termination and liveness: the index operations return, a sleeping coroutine wakes, the JSON parser returns on
    every text.
  \<^item> Errors: where the code does not do what it means to, the theorem states what it does: a sleep of zero ticks
    corrupts the run queue, the fourth index entry overwrites the first two, devices cannot be read through the
    POSIX calls, an LZ4 match of offset zero cannot be decompressed, a DNS name that points to itself is read
    forever, the first tier of the memory cache holds a single entry, a request to the language model is never
    answered by the call that makes it, mounting the disk file system again loses its files.

  \<^bold>\<open>Bounds and fuel\<close>

  Counters that may wrap are words, and theorems that need them not to wrap say so: tokens and container
  identifiers before \<open>2 ^ 64\<close> operations, skill statistics before \<open>2 ^ 24\<close> calls, where single-precision integers end.
  The JSON parser has fuel of one more than the length of its text, and \<open>json_parse_returns\<close> shows that it is never
  used up. Loops over linked structures that a corrupted state could make endless are bounded by the number of
  their nodes and give \<open>None\<close> beyond; the invariants exclude that case.

  \<^bold>\<open>Not modelled\<close>

  The boot loader, the processor-specific code and the device drivers act on hardware that the sources do not
  describe. Inference in the language model and the vector store compute with vector instructions and library
  functions on floating-point arrays. The user interface draws on the frame buffer. Code evolution calls an
  embedded C compiler. The other file system drivers, the network protocols, the agent's main loop and
  its memory depend on these and are left out, as are the tools that run on the build host. Of the page tables, the formats of the other
  processors are left out.
\<close>

end
